(* ===== verification/Hub_Prelude.thy ===== *)
theory Hub_Prelude
  imports Main "HOL-Library.Word"
begin

unbundle bit_operations_syntax

text \<open>
  Shared vocabulary of the development: the machine integers of the C sources, the result
  of a call that may end in a system reset, and the lemmas on lists and words that the
  component theories have in common.

  A C expression \<open>x >> n\<close> on an unsigned operand is \<^term>\<open>drop_bit n x\<close>, \<open>x << n\<close> is
  \<^term>\<open>push_bit n x\<close>, a narrowing or widening cast is \<^term>\<open>ucast x\<close>. A pointer to bytes is
  the list of the bytes it points to; \<open>p + n\<close> is \<^term>\<open>drop n p\<close>.
\<close>

type_synonym u8 = "8 word"
type_synonym u16 = "16 word"
type_synonym u32 = "32 word"
type_synonym u64 = "64 word"

named_theorems hub_defs \<open>constants of the headers, unfolded by evaluation\<close>
named_theorems hub_bytes \<open>byte-order conversions\<close>

text \<open>
  A call either returns a value in a new state, or ends in \<open>NVIC_SystemReset\<close> in some state and
  never returns to its caller.
\<close>

datatype ('a, 's) outcome = Ret 'a 's | Reset 's

primrec outcome_bind :: "('a, 's) outcome \<Rightarrow> ('a \<Rightarrow> 's \<Rightarrow> ('b, 's) outcome) \<Rightarrow> ('b, 's) outcome" where
  "outcome_bind (Ret x s) f = f x s"
| "outcome_bind (Reset s) f = Reset s"

primrec outcome_state :: "('a, 's) outcome \<Rightarrow> 's" where
  "outcome_state (Ret x s) = s"
| "outcome_state (Reset s) = s"

primrec outcome_val :: "('a, 's) outcome \<Rightarrow> 'a option" where
  "outcome_val (Ret x s) = Some x"
| "outcome_val (Reset s) = None"

lemma outcome_bind_assoc [simp]:
  "outcome_bind (outcome_bind r f) g = outcome_bind r (\<lambda>x s. outcome_bind (f x s) g)"
  by (cases r) simp_all

lemma outcome_bind_Ret [simp]: "outcome_bind r Ret = r"
  by (cases r) simp_all

lemma outcome_bind_eq_Ret:
  "outcome_bind r f = Ret y s' \<longleftrightarrow> (\<exists>x s. r = Ret x s \<and> f x s = Ret y s')"
  by (cases r) auto

subsection \<open>Lists\<close>

lemma length_2E:
  assumes "length xs = 2"
  obtains a b where "xs = [a, b]"
  using assms by (cases xs; cases "tl xs") auto

lemma length_4E:
  assumes "length xs = 4"
  obtains a b c d where "xs = [a, b, c, d]"
proof -
  from assms have "length xs = Suc (Suc (Suc (Suc 0)))" by simp
  then show ?thesis using that by (auto simp: length_Suc_conv)
qed

lemma list_update_frame [simp]: "i \<noteq> j \<Longrightarrow> xs[i := v] ! j = xs ! j"
  by simp

text \<open>A loop over \<open>i = 0 .. n - 1\<close> that threads a state.\<close>

lemma take_Suc_nth: "n < length xs \<Longrightarrow> take (Suc n) xs = take n xs @ [xs ! n]"
  by (rule take_Suc_conv_app_nth)

lemma nth_drop_0 [simp]: "n < length xs \<Longrightarrow> hd (drop n xs) = xs ! n"
  by (rule hd_drop_conv_nth)

lemma replicate_4: "replicate 4 x = [x, x, x, x]"
  by (simp add: numeral_eq_Suc)

lemma funpow_8: "(f ^^ 8) x = f (f (f (f (f (f (f (f x)))))))"
  by (simp add: eval_nat_numeral)

subsection \<open>Words\<close>

lemma unat_plus_of_nat:
  fixes a :: "'a::len word"
  assumes "unat a + n < 2 ^ LENGTH('a)"
  shows "unat (a + of_nat n) = unat a + n"
proof -
  have "n < 2 ^ LENGTH('a)" using assms by simp
  then have "unat (of_nat n :: 'a word) = n" by (simp add: unat_of_nat)
  then show ?thesis using assms by (simp add: unat_word_ariths)
qed

lemma unat_u8_lt [simp]: "unat (x :: u8) < 256"
  using unsigned_less [of x, where ?'a = nat] by simp

lemma unat_u16_lt [simp]: "unat (x :: u16) < 65536"
  using unsigned_less [of x, where ?'a = nat] by simp

lemma unat_u32_lt [simp]: "unat (x :: u32) < 4294967296"
  using unsigned_less [of x, where ?'a = nat] by simp

lemma unat_u8_le [simp]: "unat (x :: u8) \<le> 255"
  using unat_u8_lt [of x] by linarith

lemma u32_less_Suc:
  assumes "(g :: u32) \<noteq> 0xFFFFFFFF"
  shows "g < g + 1"
proof -
  have "unat g \<noteq> unat (0xFFFFFFFF :: u32)" using assms by (simp only: word_unat_eq_iff [symmetric] not_False_eq_True)
  then have "unat g + 1 < 2 ^ LENGTH(32)" using unat_u32_lt [of g] by (simp del: unat_u32_lt)
  then show ?thesis using unat_plus_of_nat [of g 1] by (simp add: word_less_nat_alt)
qed

text \<open>Widening a byte loses nothing.\<close>

lemma unat_ucast_u8_16 [simp]: "unat (ucast (a :: u8) :: u16) = unat a"
  using unat_u8_lt [of a] by (simp add: unsigned_ucast_eq take_bit_nat_eq_self del: unat_u8_lt)

lemma unat_ucast_u8_32 [simp]: "unat (ucast (a :: u8) :: u32) = unat a"
  using unat_u8_lt [of a] by (simp add: unsigned_ucast_eq take_bit_nat_eq_self del: unat_u8_lt)

lemma unat_ucast_u16_32 [simp]: "unat (ucast (a :: u16) :: u32) = unat a"
  using unat_u16_lt [of a] by (simp add: unsigned_ucast_eq take_bit_nat_eq_self del: unat_u16_lt)

lemma ucast_u8_eq16 [simp]: "(ucast (a :: u8) :: u16) = ucast b \<longleftrightarrow> a = b"
  by (metis unat_ucast_u8_16 word_unat_eq_iff)

lemma ucast_u8_eq32 [simp]: "(ucast (a :: u8) :: u32) = ucast b \<longleftrightarrow> a = b"
  by (metis unat_ucast_u8_32 word_unat_eq_iff)

text \<open>The low byte.\<close>

lemma word_255_mask: "(0xFF :: 'a::len word) = mask 8"
  by (simp add: mask_eq_exp_minus_1)

lemma bit_255_iff: "bit (0xFF :: int) n \<longleftrightarrow> n < 8"
proof -
  have m: "(0xFF :: int) = mask 8" by (simp add: mask_eq_exp_minus_1)
  show ?thesis unfolding m by (simp add: bit_mask_iff del: mask_numeral)
qed

lemma unat_and_255: "unat (x AND 0xFF :: 'a::len word) = unat x mod 256"
proof -
  have "x AND 0xFF = take_bit 8 x"
    unfolding word_255_mask by (simp only: take_bit_eq_mask)
  then have "unat (x AND 0xFF) = take_bit 8 (unat x)"
    by (simp only: unsigned_take_bit_eq)
  then show ?thesis by (simp add: take_bit_eq_mod)
qed

text \<open>Exclusive or is injective in each argument.\<close>

lemma xor_left_cancel [simp]: "(a XOR b = a XOR c) \<longleftrightarrow> b = (c :: 'a::len word)"
proof
  assume "a XOR b = a XOR c"
  then have "a XOR (a XOR b) = a XOR (a XOR c)" by simp
  then show "b = c" by (simp flip: xor.assoc)
qed simp

lemma xor_right_cancel [simp]: "(b XOR a = c XOR a) \<longleftrightarrow> b = (c :: 'a::len word)"
  by (simp add: xor.commute)

text \<open>A counter below a bound does not wrap.\<close>

lemma unat_Suc_below: "c < q \<Longrightarrow> unat (c + 1) = Suc (unat (c :: 'a::len word))"
proof -
  assume "c < q"
  then have "unat c < unat q" by (simp add: word_less_nat_alt)
  moreover have "unat q < 2 ^ LENGTH('a)" by (rule unsigned_less)
  ultimately have "Suc (unat c) < 2 ^ LENGTH('a)" by linarith
  then show ?thesis by (simp add: unat_word_ariths)
qed

text \<open>Decimal printing (\<open>%u\<close>) and its length; the double quote for JSON text.\<close>

fun dec_str :: "nat \<Rightarrow> string" where
  "dec_str n = (if n < 10 then [char_of (48 + n)] else dec_str (n div 10) @ [char_of (48 + n mod 10)])"

declare dec_str.simps [simp del]

definition dq :: string where
  "dq = [CHR 0x22]"

lemma length_dq [simp]: "length dq = 1"
  by (simp add: dq_def)

lemma dec_str_length: "0 < k \<Longrightarrow> n < 10 ^ k \<Longrightarrow> length (dec_str n) \<le> k"
proof (induction k arbitrary: n)
  case (Suc k)
  show ?case
  proof (cases "n < 10")
    case False
    then have "0 < k" using Suc.prems by (cases k) auto
    moreover have "n div 10 < 10 ^ k" using Suc.prems(2) by (simp add: div_less_iff_less_mult mult.commute)
    ultimately show ?thesis using Suc.IH [of "n div 10"] False by (simp add: dec_str.simps [of n])
  qed (simp add: dec_str.simps)
qed simp

lemma dec_str_not_Nil [simp]: "dec_str n \<noteq> []"
  by (simp add: dec_str.simps [of n])

end
