(* ===== verification/Bytes_Crc.thy ===== *)
theory Bytes_Crc
  imports Hub_Prelude
begin

unbundle bit_operations_syntax

text \<open>
  \<open>src/util/io_bytes.c\<close> and \<open>src/util/io_crc.c\<close>: byte order conversions and the two bitwise
  CRCs of the firmware (CRC-16/MODBUS for RTU frames, CRC-32/IEEE for configuration records).
  The lemmas show the round trips of the conversions and that both CRCs detect every change
  that is confined to one byte of a message.
\<close>

section \<open>Byte order (io_bytes.c)\<close>

definition io_get_be16 :: "u8 list \<Rightarrow> u16" where
  "io_get_be16 p = push_bit 8 (ucast (p ! 0)) OR ucast (p ! 1)"

definition io_get_be32 :: "u8 list \<Rightarrow> u32" where
  "io_get_be32 p = push_bit 24 (ucast (p ! 0)) OR push_bit 16 (ucast (p ! 1)) OR
     push_bit 8 (ucast (p ! 2)) OR ucast (p ! 3)"

definition io_get_le32 :: "u8 list \<Rightarrow> u32" where
  "io_get_le32 p = push_bit 24 (ucast (p ! 3)) OR push_bit 16 (ucast (p ! 2)) OR
     push_bit 8 (ucast (p ! 1)) OR ucast (p ! 0)"

definition io_put_be16 :: "u16 \<Rightarrow> u8 list" where
  "io_put_be16 v = [ucast (drop_bit 8 v), ucast v]"

definition io_put_be32 :: "u32 \<Rightarrow> u8 list" where
  "io_put_be32 v = [ucast (drop_bit 24 v), ucast (drop_bit 16 v), ucast (drop_bit 8 v), ucast v]"

definition io_put_le32 :: "u32 \<Rightarrow> u8 list" where
  "io_put_le32 v = [ucast v, ucast (drop_bit 8 v), ucast (drop_bit 16 v), ucast (drop_bit 24 v)]"

lemma length_io_put [simp]:
  "length (io_put_be16 v) = 2" "length (io_put_be32 w) = 4" "length (io_put_le32 w) = 4"
  by (simp_all add: io_put_be16_def io_put_be32_def io_put_le32_def)

lemma io_get_put_be16 [simp, hub_bytes]: "io_get_be16 (io_put_be16 v @ r) = v"
  by (auto simp: io_get_be16_def io_put_be16_def bit_eq_iff bit_simps)

lemma io_get_put_be32 [simp, hub_bytes]: "io_get_be32 (io_put_be32 v @ r) = v"
proof (rule bit_word_eqI)
  fix n :: nat
  assume "n < LENGTH(32)"
  then consider "n < 8" | "8 \<le> n" "n < 16" | "16 \<le> n" "n < 24" | "24 \<le> n" "n < 32"
    by fastforce
  then show "bit (io_get_be32 (io_put_be32 v @ r)) n \<longleftrightarrow> bit v n"
    by cases (auto simp: io_get_be32_def io_put_be32_def bit_simps)
qed

lemma io_get_put_le32 [simp, hub_bytes]: "io_get_le32 (io_put_le32 v @ r) = v"
proof (rule bit_word_eqI)
  fix n :: nat
  assume "n < LENGTH(32)"
  then consider "n < 8" | "8 \<le> n" "n < 16" | "16 \<le> n" "n < 24" | "24 \<le> n" "n < 32"
    by fastforce
  then show "bit (io_get_le32 (io_put_le32 v @ r)) n \<longleftrightarrow> bit v n"
    by cases (auto simp: io_get_le32_def io_put_le32_def bit_simps)
qed

section \<open>CRCs (io_crc.c)\<close>

text \<open>
  Both routines shift the register right one bit at a time and add the polynomial when a one
  falls out. The inner loop \<open>for (b = 0; b < 8; b++)\<close> is \<open>(crc_bit P ^^ 8)\<close>.
\<close>

definition crc16_bit :: "u16 \<Rightarrow> u16" where
  "crc16_bit crc = (if crc AND 1 \<noteq> 0 then drop_bit 1 crc XOR 0xA001 else drop_bit 1 crc)"

primrec crc16_loop :: "u8 list \<Rightarrow> u16 \<Rightarrow> u16" where
  "crc16_loop [] crc = crc"
| "crc16_loop (b # bs) crc = crc16_loop bs ((crc16_bit ^^ 8) (crc XOR ucast b))"

definition crc16_modbus :: "u8 list \<Rightarrow> u16" where
  "crc16_modbus data = crc16_loop data 0xFFFF"

definition crc32_bit :: "u32 \<Rightarrow> u32" where
  "crc32_bit crc = (if crc AND 1 \<noteq> 0 then drop_bit 1 crc XOR 0xEDB88320 else drop_bit 1 crc)"

primrec crc32_loop :: "u8 list \<Rightarrow> u32 \<Rightarrow> u32" where
  "crc32_loop [] crc = crc"
| "crc32_loop (b # bs) crc = crc32_loop bs ((crc32_bit ^^ 8) (crc XOR ucast b))"

definition crc32_ieee :: "u8 list \<Rightarrow> u32" where
  "crc32_ieee data = crc32_loop data 0xFFFFFFFF XOR 0xFFFFFFFF"

subsection \<open>One register step loses nothing\<close>

text \<open>
  Both polynomials have their top bit set, so the top bit of the new register tells which
  branch was taken: the step is injective, hence so is the update by a whole byte.
\<close>

lemma and_1_neq_0_iff: "(x :: 'a::len word) AND 1 \<noteq> 0 \<longleftrightarrow> bit x 0"
  by (simp add: and_one_eq bit_0 flip: even_iff_mod_2_eq_zero)

lemma crc16_bit_bit:
  "bit (crc16_bit c) n \<longleftrightarrow> (bit c (Suc n) \<noteq> (bit c 0 \<and> bit (0xA001 :: u16) n))"
  by (auto simp: crc16_bit_def and_1_neq_0_iff bit_simps)

lemma inj_crc16_bit: "inj crc16_bit"
proof (rule injI, rule bit_word_eqI)
  fix x y :: u16 and n :: nat
  assume eq: "crc16_bit x = crc16_bit y" and n: "n < LENGTH(16)"
  have b: "(bit x (Suc k) \<noteq> (bit x 0 \<and> bit (0xA001 :: u16) k)) \<longleftrightarrow>
      (bit y (Suc k) \<noteq> (bit y 0 \<and> bit (0xA001 :: u16) k))" for k
    using eq by (metis crc16_bit_bit)
  have "\<not> bit x 16" "\<not> bit y 16" by (auto dest: bit_imp_le_length)
  with b [of 15] have zero: "bit x 0 \<longleftrightarrow> bit y 0" by simp
  show "bit x n \<longleftrightarrow> bit y n"
  proof (cases n)
    case 0
    then show ?thesis using zero by simp
  next
    case (Suc k)
    then show ?thesis using b [of k] zero by auto
  qed
qed

lemma crc32_bit_bit:
  "bit (crc32_bit c) n \<longleftrightarrow> (bit c (Suc n) \<noteq> (bit c 0 \<and> bit (0xEDB88320 :: u32) n))"
  by (auto simp: crc32_bit_def and_1_neq_0_iff bit_simps)

lemma inj_crc32_bit: "inj crc32_bit"
proof (rule injI, rule bit_word_eqI)
  fix x y :: u32 and n :: nat
  assume eq: "crc32_bit x = crc32_bit y" and n: "n < LENGTH(32)"
  have b: "(bit x (Suc k) \<noteq> (bit x 0 \<and> bit (0xEDB88320 :: u32) k)) \<longleftrightarrow>
      (bit y (Suc k) \<noteq> (bit y 0 \<and> bit (0xEDB88320 :: u32) k))" for k
    using eq by (metis crc32_bit_bit)
  have "\<not> bit x 32" "\<not> bit y 32" by (auto dest: bit_imp_le_length)
  with b [of 31] have zero: "bit x 0 \<longleftrightarrow> bit y 0" by simp
  show "bit x n \<longleftrightarrow> bit y n"
  proof (cases n)
    case 0
    then show ?thesis using zero by simp
  next
    case (Suc k)
    then show ?thesis using b [of k] zero by auto
  qed
qed

subsection \<open>An abstract byte-wise checksum\<close>

text \<open>
  What the two routines have in common: a register, an injective update by a byte, and a fold
  over the message. Everything the error detection argument needs is proved here once.
\<close>

locale byte_checksum =
  fixes upd :: "'r \<Rightarrow> u8 \<Rightarrow> 'r" and loop :: "u8 list \<Rightarrow> 'r \<Rightarrow> 'r"
  assumes loop_Nil: "loop [] r = r"
    and loop_Cons: "loop (b # bs) r = loop bs (upd r b)"
    and upd_reg: "upd r b = upd r' b \<Longrightarrow> r = r'"
    and upd_byte: "upd r b = upd r b' \<Longrightarrow> b = b'"
begin

lemma loop_append: "loop (xs @ ys) r = loop ys (loop xs r)"
  by (induction xs arbitrary: r) (simp_all add: loop_Nil loop_Cons)

lemma loop_inj: "loop xs r = loop xs r' \<Longrightarrow> r = r'"
  by (induction xs arbitrary: r r') (auto simp: loop_Nil loop_Cons dest: upd_reg)

text \<open>A change confined to one byte is always seen.\<close>

lemma single_byte: "b \<noteq> b' \<Longrightarrow> loop (xs @ b # ys) r \<noteq> loop (xs @ b' # ys) r"
  by (auto simp: loop_append loop_Cons dest!: loop_inj dest: upd_byte)

lemma single_byte_update:
  assumes "i < length m" "m ! i \<noteq> b"
  shows "loop (m[i := b]) r \<noteq> loop m r"
proof -
  have m: "m = take i m @ m ! i # drop (Suc i) m"
    using assms(1) by (rule id_take_nth_drop)
  have "m[i := b] = take i m @ b # drop (Suc i) m"
    using assms(1) by (rule upd_conv_take_nth_drop)
  then show ?thesis
    using single_byte [of "m ! i" b "take i m" "drop (Suc i) m" r] m assms(2) by metis
qed

end

interpretation crc16: byte_checksum "\<lambda>r b. (crc16_bit ^^ 8) (r XOR ucast b)" crc16_loop
proof unfold_locales
  have inj: "inj (crc16_bit ^^ 8)" by (rule inj_fn [OF inj_crc16_bit])
  show "crc16_loop [] r = r" for r by simp
  show "crc16_loop (b # bs) r = crc16_loop bs ((crc16_bit ^^ 8) (r XOR ucast b))" for b bs r by simp
  show "r = r'" if "(crc16_bit ^^ 8) (r XOR ucast b) = (crc16_bit ^^ 8) (r' XOR ucast b)" for r r' and b :: u8
    using injD [OF inj that] by simp
  show "b = b'" if "(crc16_bit ^^ 8) (r XOR ucast b) = (crc16_bit ^^ 8) (r XOR ucast b')" for r and b b' :: u8
    using injD [OF inj that] by (simp add: ucast_u8_eq16)
qed

interpretation crc32: byte_checksum "\<lambda>r b. (crc32_bit ^^ 8) (r XOR ucast b)" crc32_loop
proof unfold_locales
  have inj: "inj (crc32_bit ^^ 8)" by (rule inj_fn [OF inj_crc32_bit])
  show "crc32_loop [] r = r" for r by simp
  show "crc32_loop (b # bs) r = crc32_loop bs ((crc32_bit ^^ 8) (r XOR ucast b))" for b bs r by simp
  show "r = r'" if "(crc32_bit ^^ 8) (r XOR ucast b) = (crc32_bit ^^ 8) (r' XOR ucast b)" for r r' and b :: u8
    using injD [OF inj that] by simp
  show "b = b'" if "(crc32_bit ^^ 8) (r XOR ucast b) = (crc32_bit ^^ 8) (r XOR ucast b')" for r and b b' :: u8
    using injD [OF inj that] by (simp add: ucast_u8_eq32)
qed

lemma crc16_modbus_single_byte:
  "i < length m \<Longrightarrow> m ! i \<noteq> b \<Longrightarrow> crc16_modbus (m[i := b]) \<noteq> crc16_modbus m"
  unfolding crc16_modbus_def by (rule crc16.single_byte_update)

lemma crc32_ieee_single_byte:
  "i < length m \<Longrightarrow> m ! i \<noteq> b \<Longrightarrow> crc32_ieee (m[i := b]) \<noteq> crc32_ieee m"
  unfolding crc32_ieee_def using crc32.single_byte_update by simp

text \<open>The check values of the two algorithms on the digits 1 to 9.\<close>

lemma crc16_check_value:
  "crc16_modbus [0x31, 0x32, 0x33, 0x34, 0x35, 0x36, 0x37, 0x38, 0x39] = 0x4B37"
  by (simp add: crc16_modbus_def crc16_bit_def funpow_8)

lemma crc32_check_value:
  "crc32_ieee [0x31, 0x32, 0x33, 0x34, 0x35, 0x36, 0x37, 0x38, 0x39] = 0xCBF43926"
  by (simp add: crc32_ieee_def crc32_bit_def funpow_8)

end
