(* ===== verification/Nor_Flash.thy ===== *)
theory Nor_Flash
  imports Hub_Prelude
begin

unbundle bit_operations_syntax

text \<open>
  The flash interface of \<open>src/include/io_flash.h\<close> (a struct of three function pointers), the
  contract its clients rely on, and the RAM back end of \<open>tests/fake_flash.c\<close> that implements it.

  A back end works on a state of type \<open>'w\<close>. A return value 0 is \<open>True\<close> (or \<open>Some\<close> of the
  bytes read), -1 is \<open>False\<close> (or \<open>None\<close>). A length is the natural number of the \<open>uint32_t\<close>.
\<close>

section \<open>The interface (io_flash.h)\<close>

record 'w io_flash =
  fl_read :: "u32 \<Rightarrow> nat \<Rightarrow> 'w \<Rightarrow> u8 list option \<times> 'w"
  fl_erase :: "u32 \<Rightarrow> nat \<Rightarrow> 'w \<Rightarrow> bool \<times> 'w"
  fl_write :: "u32 \<Rightarrow> u8 list \<Rightarrow> 'w \<Rightarrow> bool \<times> 'w"

text \<open>The bytes of a memory from an address on.\<close>

definition mem_bytes :: "(nat \<Rightarrow> u8) \<Rightarrow> nat \<Rightarrow> nat \<Rightarrow> u8 list" where
  "mem_bytes m a n = map m [a..<a + n]"

lemma length_mem_bytes [simp]: "length (mem_bytes m a n) = n"
  by (simp add: mem_bytes_def)

lemma nth_mem_bytes [simp]: "i < n \<Longrightarrow> mem_bytes m a n ! i = m (a + i)"
  by (simp add: mem_bytes_def)

lemma mem_bytes_cong:
  "(\<And>i. a \<le> i \<Longrightarrow> i < a + n \<Longrightarrow> m i = m' i) \<Longrightarrow> mem_bytes m a n = mem_bytes m' a n"
  by (simp add: mem_bytes_def)

lemma mem_bytes_eqI:
  "length bs = n \<Longrightarrow> (\<And>i. i < n \<Longrightarrow> m (a + i) = bs ! i) \<Longrightarrow> mem_bytes m a n = bs"
  by (rule nth_equalityI) simp_all

lemma mem_bytes_add: "mem_bytes m a (n + k) = mem_bytes m a n @ mem_bytes m (a + n) k"
  by (rule nth_equalityI) (auto simp: nth_append)

lemma mem_bytes_replicate:
  "mem_bytes m a (n + k) = replicate (n + k) x \<longleftrightarrow>
     mem_bytes m a n = replicate n x \<and> mem_bytes m (a + n) k = replicate k x"
  by (simp add: mem_bytes_add replicate_add)

text \<open>
  The state of a region that is being filled from its start: a prefix is programmed and the
  remaining bytes are still erased.
\<close>

definition programmed :: "(nat \<Rightarrow> u8) \<Rightarrow> nat \<Rightarrow> u8 list \<Rightarrow> nat \<Rightarrow> bool" where
  "programmed m a xs k \<longleftrightarrow> mem_bytes m a (length xs + k) = xs @ replicate k 0xFF"

lemma programmed_iff:
  "programmed m a xs k \<longleftrightarrow>
     mem_bytes m a (length xs) = xs \<and> mem_bytes m (a + length xs) k = replicate k 0xFF"
  by (simp add: programmed_def mem_bytes_add)

lemma programmed_Nil: "programmed m a [] k \<longleftrightarrow> mem_bytes m a k = replicate k 0xFF"
  by (simp add: programmed_def)

lemma programmed_bytes: "programmed m a xs k \<Longrightarrow> mem_bytes m a (length xs) = xs"
  by (simp add: programmed_iff)

text \<open>Programming the next piece: the piece becomes \<open>ys\<close>, everything else stays.\<close>

lemma programmed_extend:
  assumes "programmed m a xs (length ys + k)"
    and data: "mem_bytes m' (a + length xs) (length ys) = ys"
    and frame: "\<And>i. i < a + length xs \<or> a + length xs + length ys \<le> i \<Longrightarrow> m' i = m i"
  shows "programmed m' a (xs @ ys) k"
proof -
  have "mem_bytes m' a (length xs) = mem_bytes m a (length xs)"
    by (rule mem_bytes_cong) (simp add: frame)
  moreover have "mem_bytes m' (a + (length xs + length ys)) k = mem_bytes m (a + (length xs + length ys)) k"
    by (rule mem_bytes_cong) (simp add: frame)
  ultimately show ?thesis
    using assms(1) data
    by (simp add: programmed_iff mem_bytes_add replicate_add add.assoc)
qed

section \<open>The contract\<close>

text \<open>
  What every back end promises, whether or not the call succeeds: a read changes nothing and
  returns what is stored, an erase or a program touches only the range it was given, a
  successful erase leaves \<open>0xFF\<close>, and a successful program can only clear bits. A failed
  erase or program (a bus error, or power lost half-way) may leave anything in its range.
\<close>

locale nor_flash =
  fixes F :: "'w io_flash" and mem :: "'w \<Rightarrow> nat \<Rightarrow> u8"
  assumes read_mem: "fl_read F a n w = (r, w') \<Longrightarrow> mem w' = mem w"
    and read_data: "fl_read F a n w = (Some bs, w') \<Longrightarrow> bs = mem_bytes (mem w) (unat a) n"
    and erase_frame: "fl_erase F a n w = (ok, w') \<Longrightarrow> i < unat a \<or> unat a + n \<le> i
      \<Longrightarrow> mem w' i = mem w i"
    and erase_data: "fl_erase F a n w = (True, w') \<Longrightarrow> unat a \<le> i \<Longrightarrow> i < unat a + n
      \<Longrightarrow> mem w' i = 0xFF"
    and write_frame: "fl_write F a bs w = (ok, w') \<Longrightarrow> i < unat a \<or> unat a + length bs \<le> i
      \<Longrightarrow> mem w' i = mem w i"
    and write_data: "fl_write F a bs w = (True, w') \<Longrightarrow> i < length bs
      \<Longrightarrow> mem w' (unat a + i) = mem w (unat a + i) AND bs ! i"
begin

lemma read_length: "fl_read F a n w = (Some bs, w') \<Longrightarrow> length bs = n"
  by (drule read_data) simp

lemma erase_bytes:
  "fl_erase F a n w = (True, w') \<Longrightarrow> unat a \<le> k \<Longrightarrow> k + m \<le> unat a + n
    \<Longrightarrow> mem_bytes (mem w') k m = replicate m 0xFF"
  by (rule mem_bytes_eqI) (auto intro: erase_data)

lemma write_erased:
  assumes "fl_write F a bs w = (True, w')"
    and "mem_bytes (mem w) (unat a) (length bs) = replicate (length bs) 0xFF"
  shows "mem_bytes (mem w') (unat a) (length bs) = bs"
proof (rule mem_bytes_eqI)
  fix i assume i: "i < length bs"
  have "mem w (unat a + i) = 0xFF"
    using assms(2) i by (metis nth_mem_bytes nth_replicate)
  moreover have "(0xFF :: u8) = - 1" by simp
  ultimately show "mem w' (unat a + i) = bs ! i"
    using write_data [OF assms(1) i] by simp
qed simp

end

text \<open>
  A back end on which a call within the rules of \<open>io_flash.h\<close> does not fail: reads inside the
  chip, erases of whole sectors, programs of at most a page that do not cross a page boundary
  and only clear bits.
\<close>

definition NOR_PAGE :: nat where "NOR_PAGE = 256"
definition NOR_SECTOR :: nat where "NOR_SECTOR = 4096"
definition CHIP_SIZE :: nat where "CHIP_SIZE = 0x1000000"

locale reliable_nor_flash = nor_flash +
  assumes read_ok: "unat a + n \<le> CHIP_SIZE \<Longrightarrow> fst (fl_read F a n w) \<noteq> None"
    and erase_ok: "0 < n \<Longrightarrow> n mod NOR_SECTOR = 0 \<Longrightarrow> unat a mod NOR_SECTOR = 0
      \<Longrightarrow> unat a + n \<le> CHIP_SIZE \<Longrightarrow> fst (fl_erase F a n w)"
    and write_ok: "0 < length bs \<Longrightarrow> length bs \<le> NOR_PAGE
      \<Longrightarrow> unat a mod NOR_PAGE + length bs \<le> NOR_PAGE \<Longrightarrow> unat a + length bs \<le> CHIP_SIZE
      \<Longrightarrow> mem_bytes (mem w) (unat a) (length bs) = replicate (length bs) 0xFF
      \<Longrightarrow> fst (fl_write F a bs w)"

section \<open>The RAM back end (tests/fake_flash.c)\<close>

text \<open>
  The 16 MiB array is the function from offsets to bytes (\<open>FAKE_BASE\<close> is 0).
\<close>

type_synonym fake_mem = "nat \<Rightarrow> u8"

definition in_range :: "u32 \<Rightarrow> nat \<Rightarrow> bool" where
  "in_range addr len \<longleftrightarrow> len \<le> CHIP_SIZE \<and> unat addr \<le> CHIP_SIZE - len"

definition fake_read :: "u32 \<Rightarrow> nat \<Rightarrow> fake_mem \<Rightarrow> u8 list option \<times> fake_mem" where
  "fake_read addr len m =
     (if \<not> in_range addr len then (None, m) else (Some (mem_bytes m (unat addr) len), m))"

definition fake_erase :: "u32 \<Rightarrow> nat \<Rightarrow> fake_mem \<Rightarrow> bool \<times> fake_mem" where
  "fake_erase addr len m =
     (if len = 0 \<or> len mod NOR_SECTOR \<noteq> 0 \<or> unat addr mod NOR_SECTOR \<noteq> 0 then (False, m)
      else if \<not> in_range addr len then (False, m)
      else (True, \<lambda>i. if unat addr \<le> i \<and> i < unat addr + len then 0xFF else m i))"

text \<open>The loop that refuses to set a bit: some \<open>(dst[i] & buf[i]) != buf[i]\<close>.\<close>

definition sets_bit :: "fake_mem \<Rightarrow> nat \<Rightarrow> u8 list \<Rightarrow> bool" where
  "sets_bit m a buf \<longleftrightarrow> list_ex (\<lambda>i. m (a + i) AND buf ! i \<noteq> buf ! i) [0..<length buf]"

definition fake_write :: "u32 \<Rightarrow> u8 list \<Rightarrow> fake_mem \<Rightarrow> bool \<times> fake_mem" where
  "fake_write addr buf m =
     (if length buf = 0 \<or> length buf > NOR_PAGE then (False, m)
      else if unat addr mod NOR_PAGE + length buf > NOR_PAGE then (False, m)
      else if \<not> in_range addr (length buf) then (False, m)
      else if sets_bit m (unat addr) buf then (False, m)
      else (True, \<lambda>i. if unat addr \<le> i \<and> i < unat addr + length buf
                      then buf ! (i - unat addr) else m i))"

definition fake_flash :: "fake_mem io_flash" where
  "fake_flash = \<lparr>fl_read = fake_read, fl_erase = fake_erase, fl_write = fake_write\<rparr>"

definition fake_flash_reset :: fake_mem where
  "fake_flash_reset = (\<lambda>_. 0xFF)"

definition fake_flash_corrupt :: "u32 \<Rightarrow> fake_mem \<Rightarrow> fake_mem" where
  "fake_flash_corrupt addr m =
     (if in_range addr 1 then m(unat addr := m (unat addr) XOR 0xFF) else m)"

lemma fake_flash_sel [simp]:
  "fl_read fake_flash = fake_read" "fl_erase fake_flash = fake_erase" "fl_write fake_flash = fake_write"
  by (simp_all add: fake_flash_def)

lemma not_sets_bit:
  "\<not> sets_bit m a buf \<Longrightarrow> i < length buf \<Longrightarrow> m (a + i) AND buf ! i = buf ! i"
  by (auto simp: sets_bit_def list_ex_iff)

lemma erased_sets_no_bit:
  assumes "mem_bytes m a (length buf) = replicate (length buf) 0xFF"
  shows "\<not> sets_bit m a buf"
proof -
  have ff: "m (a + i) = 0xFF" if "i < length buf" for i
    using assms that by (metis nth_mem_bytes nth_replicate)
  have "(0xFF :: u8) = - 1" by simp
  with ff show ?thesis by (auto simp: sets_bit_def list_ex_iff)
qed

interpretation fake: reliable_nor_flash fake_flash "\<lambda>m. m"
proof unfold_locales
  show "fl_read fake_flash a n w = (r, w') \<Longrightarrow> w' = w" for a n w r w'
    by (auto simp: fake_read_def split: if_splits)
  show "fl_read fake_flash a n w = (Some bs, w') \<Longrightarrow> bs = mem_bytes w (unat a) n" for a n w bs w'
    by (auto simp: fake_read_def split: if_splits)
  show "fl_erase fake_flash a n w = (ok, w') \<Longrightarrow> i < unat a \<or> unat a + n \<le> i \<Longrightarrow> w' i = w i"
    for a n w ok w' i
    by (auto simp: fake_erase_def split: if_splits)
  show "fl_erase fake_flash a n w = (True, w') \<Longrightarrow> unat a \<le> i \<Longrightarrow> i < unat a + n \<Longrightarrow> w' i = 0xFF"
    for a n w w' i
    by (auto simp: fake_erase_def split: if_splits)
  show "fl_write fake_flash a bs w = (ok, w') \<Longrightarrow> i < unat a \<or> unat a + length bs \<le> i
      \<Longrightarrow> w' i = w i" for a bs w ok w' i
    by (auto simp: fake_write_def split: if_splits)
  show "fl_write fake_flash a bs w = (True, w') \<Longrightarrow> i < length bs
      \<Longrightarrow> w' (unat a + i) = w (unat a + i) AND bs ! i" for a bs w w' i
    by (auto simp: fake_write_def not_sets_bit split: if_splits)
  show "unat a + n \<le> CHIP_SIZE \<Longrightarrow> fst (fl_read fake_flash a n w) \<noteq> None" for a n w
    by (simp add: fake_read_def in_range_def)
  show "0 < n \<Longrightarrow> n mod NOR_SECTOR = 0 \<Longrightarrow> unat a mod NOR_SECTOR = 0
      \<Longrightarrow> unat a + n \<le> CHIP_SIZE \<Longrightarrow> fst (fl_erase fake_flash a n w)" for a n w
    by (simp add: fake_erase_def in_range_def)
  show "0 < length bs \<Longrightarrow> length bs \<le> NOR_PAGE
      \<Longrightarrow> unat a mod NOR_PAGE + length bs \<le> NOR_PAGE \<Longrightarrow> unat a + length bs \<le> CHIP_SIZE
      \<Longrightarrow> mem_bytes w (unat a) (length bs) = replicate (length bs) 0xFF
      \<Longrightarrow> fst (fl_write fake_flash a bs w)" for a bs w
    by (simp add: fake_write_def in_range_def erased_sets_no_bit)
qed

section \<open>A flash as one part of a larger world\<close>

definition flash_in :: "('v \<Rightarrow> 'w) \<Rightarrow> ('w \<Rightarrow> 'v \<Rightarrow> 'v) \<Rightarrow> 'w io_flash \<Rightarrow> 'v io_flash" where
  "flash_in get put F = \<lparr>
     fl_read = \<lambda>a n v. (fst (fl_read F a n (get v)), put (snd (fl_read F a n (get v))) v),
     fl_erase = \<lambda>a n v. (fst (fl_erase F a n (get v)), put (snd (fl_erase F a n (get v))) v),
     fl_write = \<lambda>a bs v. (fst (fl_write F a bs (get v)), put (snd (fl_write F a bs (get v))) v)\<rparr>"

lemma flash_in_sel [simp]:
  "fl_read (flash_in get put F) a n v = (fst (fl_read F a n (get v)), put (snd (fl_read F a n (get v))) v)"
  "fl_erase (flash_in get put F) a n v = (fst (fl_erase F a n (get v)), put (snd (fl_erase F a n (get v))) v)"
  "fl_write (flash_in get put F) a bs v = (fst (fl_write F a bs (get v)), put (snd (fl_write F a bs (get v))) v)"
  by (simp_all add: flash_in_def)

lemma nor_flash_in:
  assumes "nor_flash F mem" "\<And>m v. get (put m v) = m"
  shows "nor_flash (flash_in get put F) (\<lambda>v. mem (get v))"
proof -
  note F = assms(1)
  show ?thesis
    by unfold_locales
      (auto simp: assms(2) intro: nor_flash.read_mem [OF F prod.collapse [symmetric]]
        nor_flash.read_data [OF F prod_eqI] nor_flash.erase_frame [OF F prod.collapse [symmetric]]
        nor_flash.write_frame [OF F prod.collapse [symmetric]] nor_flash.erase_data [OF F prod_eqI]
        nor_flash.write_data [OF F prod_eqI])
qed

lemma reliable_nor_flash_in:
  assumes "reliable_nor_flash F mem" "\<And>m v. get (put m v) = m"
  shows "reliable_nor_flash (flash_in get put F) (\<lambda>v. mem (get v))"
proof -
  have n: "nor_flash F mem" by (rule reliable_nor_flash.axioms(1) [OF assms(1)])
  show ?thesis
    by (intro reliable_nor_flash.intro nor_flash_in [where get = get and put = put, OF n] assms(2) reliable_nor_flash_axioms.intro)
      (auto simp: reliable_nor_flash.read_ok [OF assms(1), simplified] reliable_nor_flash.erase_ok [OF assms(1)]
        reliable_nor_flash.write_ok [OF assms(1)])
qed

end
