(* ===== verification/Config_Store.thy ===== *)
theory Config_Store
  imports Bytes_Crc Nor_Flash
begin

unbundle bit_operations_syntax

text \<open>
  \<open>src/storage/config_store.c\<close>: the configuration record, kept in two flash slots that are
  written alternately. The theory holds the record format, the operations with all their
  error exits, the invariant that ties the RAM copy to the flash, and the lemmas about
  persistence, interrupted saves and corrupted records.
\<close>

section \<open>Layout (config_store.h, flash_layout.h)\<close>

definition STORAGE_OFFSET :: u32 where [hub_defs]: "STORAGE_OFFSET = 0xE0000"
definition CFG_SLOT_SIZE :: u32 where [hub_defs]: "CFG_SLOT_SIZE = 0x8000"
definition CFG_SLOT_A :: u32 where [hub_defs]: "CFG_SLOT_A = STORAGE_OFFSET"
definition CFG_SLOT_B :: u32 where [hub_defs]: "CFG_SLOT_B = STORAGE_OFFSET + CFG_SLOT_SIZE"

record io_cfg =
  di_en :: u16
  ai_en :: u16
  di_si :: u16
  ai_si :: u16
  his :: u16
  can_id :: u16
  can_bps :: u16
  rs485_bps :: u16
  slave_id :: u16
  ip :: "u16 list"

text \<open>The array \<open>ip[4]\<close> has four elements.\<close>

definition wf_cfg :: "io_cfg \<Rightarrow> bool" where
  "wf_cfg c \<longleftrightarrow> length (ip c) = 4"

definition CFG_MAGIC :: "u8 list" where [hub_defs]: "CFG_MAGIC = [0x49, 0x4F, 0x43, 0x46]"
definition CFG_GEN_OFF :: nat where [hub_defs]: "CFG_GEN_OFF = 4"
definition CFG_LEN_OFF :: nat where [hub_defs]: "CFG_LEN_OFF = 8"
definition CFG_HDR_LEN :: nat where [hub_defs]: "CFG_HDR_LEN = 10"
definition CFG_BODY_LEN :: nat where [hub_defs]: "CFG_BODY_LEN = 26"
definition CFG_CRC_OFF :: nat where [hub_defs]: "CFG_CRC_OFF = 36"
definition CFG_REC_LEN :: nat where [hub_defs]: "CFG_REC_LEN = 40"

record cfg_store =
  cur :: io_cfg
  cur_gen :: u32
  cur_slot :: u32
  inited :: bool

section \<open>The record\<close>

definition put_le16 :: "u16 \<Rightarrow> u8 list" where
  "put_le16 v = [ucast (v AND 0xFF), ucast (drop_bit 8 v)]"

definition get_le16 :: "u8 list \<Rightarrow> u16" where
  "get_le16 p = ucast (p ! 0) OR push_bit 8 (ucast (p ! 1))"

definition config_store_get_defaults :: io_cfg where
  "config_store_get_defaults = \<lparr>di_en = 0xFFFF, ai_en = 0x000F, di_si = 200, ai_si = 200, his = 0,
     can_id = 0x0111, can_bps = 250, rs485_bps = 9600, slave_id = 1, ip = [192, 168, 12, 101]\<rparr>"

text \<open>
  The native bytes of the struct: thirteen packed little-endian \<open>uint16_t\<close>
  (\<open>_Static_assert(sizeof(struct io_cfg) == 26)\<close>).
\<close>

definition cfg_words :: "io_cfg \<Rightarrow> u16 list" where
  "cfg_words c = [di_en c, ai_en c, di_si c, ai_si c, his c, can_id c, can_bps c, rs485_bps c,
     slave_id c] @ ip c"

definition cfg_bytes :: "io_cfg \<Rightarrow> u8 list" where
  "cfg_bytes c = concat (map put_le16 (cfg_words c))"

definition cfg_of_bytes :: "u8 list \<Rightarrow> io_cfg" where
  "cfg_of_bytes p = (let word = (\<lambda>i. get_le16 (drop (2 * i) p)) in
     \<lparr>di_en = word 0, ai_en = word 1, di_si = word 2, ai_si = word 3, his = word 4,
      can_id = word 5, can_bps = word 6, rs485_bps = word 7, slave_id = word 8,
      ip = [word 9, word 10, word 11, word 12]\<rparr>)"

text \<open>The buffer \<open>rec\<close> that \<open>config_store_save\<close> fills before it touches the flash.\<close>

definition slot_head :: "io_cfg \<Rightarrow> u32 \<Rightarrow> u8 list" where
  "slot_head c gen = CFG_MAGIC @ io_put_le32 gen @ put_le16 26 @ cfg_bytes c"

definition slot_record :: "io_cfg \<Rightarrow> u32 \<Rightarrow> u8 list" where
  "slot_record c gen = slot_head c gen @ io_put_le32 (crc32_ieee (slot_head c gen))"

section \<open>Operations\<close>

datatype slot_result = Slot_Valid io_cfg u32 | Slot_Invalid | Slot_IOError

text \<open>The checks of \<open>slot_read\<close> on the bytes it has read.\<close>

definition slot_decode :: "u8 list \<Rightarrow> slot_result" where
  "slot_decode rec =
     (if take 4 rec \<noteq> CFG_MAGIC then Slot_Invalid
      else if get_le16 (drop CFG_LEN_OFF rec) \<noteq> 26 then Slot_Invalid
      else if io_get_le32 (drop CFG_CRC_OFF rec) \<noteq> crc32_ieee (take CFG_CRC_OFF rec)
        then Slot_Invalid
      else Slot_Valid (cfg_of_bytes (drop CFG_HDR_LEN rec)) (io_get_le32 (drop CFG_GEN_OFF rec)))"

definition slot_read :: "'w io_flash \<Rightarrow> u32 \<Rightarrow> 'w \<Rightarrow> slot_result \<times> 'w" where
  "slot_read F addr w =
     (case fl_read F addr CFG_REC_LEN w of
        (None, w) \<Rightarrow> (Slot_IOError, w)
      | (Some rec, w) \<Rightarrow> (slot_decode rec, w))"

text \<open>
  \<open>write_pages\<close>: the offset of the source loop is the part of the buffer already dropped.
\<close>

function write_pages :: "'w io_flash \<Rightarrow> u32 \<Rightarrow> u8 list \<Rightarrow> 'w \<Rightarrow> bool \<times> 'w" where
  "write_pages F addr buf w =
     (if buf = [] then (True, w)
      else let room = 256 - unat (addr AND 0xFF); n = min (length buf) room in
        case fl_write F addr (take n buf) w of
          (False, w) \<Rightarrow> (False, w)
        | (True, w) \<Rightarrow> write_pages F (addr + of_nat n) (drop n buf) w)"
  by pat_completeness auto

termination
  by (relation "measure (\<lambda>(F, addr, buf, w). length buf)")
    (auto simp: unat_and_255)

declare write_pages.simps [simp del]

definition config_store_init :: "'w io_flash \<Rightarrow> 'w \<Rightarrow> bool \<times> cfg_store \<times> 'w" where
  "config_store_init F w =
     (let st0 = \<lparr>cur = config_store_get_defaults, cur_gen = 0, cur_slot = 0, inited = True\<rparr>;
          (ra, w) = slot_read F CFG_SLOT_A w;
          (rb, w) = slot_read F CFG_SLOT_B w
      in if ra = Slot_IOError \<or> rb = Slot_IOError then (False, st0, w)
         else (case (ra, rb) of
             (Slot_Valid ca ga, Slot_Valid cb gb) \<Rightarrow>
               if ga \<ge> gb then (True, st0\<lparr>cur := ca, cur_gen := ga, cur_slot := CFG_SLOT_A\<rparr>, w)
               else (True, st0\<lparr>cur := cb, cur_gen := gb, cur_slot := CFG_SLOT_B\<rparr>, w)
           | (Slot_Valid ca ga, _) \<Rightarrow>
               (True, st0\<lparr>cur := ca, cur_gen := ga, cur_slot := CFG_SLOT_A\<rparr>, w)
           | (_, Slot_Valid cb gb) \<Rightarrow>
               (True, st0\<lparr>cur := cb, cur_gen := gb, cur_slot := CFG_SLOT_B\<rparr>, w)
           | _ \<Rightarrow> (True, st0, w)))"

definition save_target :: "cfg_store \<Rightarrow> u32" where
  "save_target st = (if cur_slot st = CFG_SLOT_A then CFG_SLOT_B else CFG_SLOT_A)"

definition config_store_save ::
    "'w io_flash \<Rightarrow> io_cfg \<Rightarrow> cfg_store \<Rightarrow> 'w \<Rightarrow> bool \<times> cfg_store \<times> 'w" where
  "config_store_save F cfg st w =
     (if \<not> inited st then (False, st, w)
      else let tgt = save_target st; gen = cur_gen st + 1; rec = slot_record cfg gen in
        case fl_erase F tgt (unat CFG_SLOT_SIZE) w of
          (False, w) \<Rightarrow> (False, st, w)
        | (True, w) \<Rightarrow>
        (case write_pages F tgt (take CFG_HDR_LEN rec) w of
          (False, w) \<Rightarrow> (False, st, w)
        | (True, w) \<Rightarrow>
        (case write_pages F (tgt + of_nat CFG_HDR_LEN) (take CFG_BODY_LEN (drop CFG_HDR_LEN rec)) w of
          (False, w) \<Rightarrow> (False, st, w)
        | (True, w) \<Rightarrow>
        (case write_pages F (tgt + of_nat CFG_CRC_OFF) (drop CFG_CRC_OFF rec) w of
          (False, w) \<Rightarrow> (False, st, w)
        | (True, w) \<Rightarrow> (True, st\<lparr>cur := cfg, cur_gen := gen, cur_slot := tgt\<rparr>, w)))))"

definition config_store_erase_all :: "'w io_flash \<Rightarrow> cfg_store \<Rightarrow> 'w \<Rightarrow> cfg_store \<times> 'w" where
  "config_store_erase_all F st w =
     (let w = (if inited st
               then snd (fl_erase F CFG_SLOT_B (unat CFG_SLOT_SIZE)
                      (snd (fl_erase F CFG_SLOT_A (unat CFG_SLOT_SIZE) w)))
               else w)
      in (st\<lparr>cur := config_store_get_defaults, cur_gen := 0, cur_slot := 0\<rparr>, w))"

definition config_store_get :: "cfg_store \<Rightarrow> io_cfg" where
  "config_store_get st = (if \<not> inited st then config_store_get_defaults else cur st)"

section \<open>The record format\<close>

lemma length_put_le16 [simp]: "length (put_le16 v) = 2"
  by (simp add: put_le16_def)

lemma get_put_le16 [simp, hub_bytes]: "get_le16 (put_le16 v @ r) = v"
  by (auto simp: get_le16_def put_le16_def bit_eq_iff bit_simps bit_255_iff)

lemma length_concat_put_le16 [simp]: "length (concat (map put_le16 ws)) = 2 * length ws"
  by (induction ws) simp_all

lemma get_le16_nth:
  "i < length ws \<Longrightarrow> get_le16 (drop (2 * i) (concat (map put_le16 ws) @ r)) = ws ! i"
proof (induction ws arbitrary: i)
  case (Cons w ws)
  then show ?case by (cases i) (simp_all add: Cons.IH)
qed simp

lemma length_cfg_bytes [simp]: "wf_cfg c \<Longrightarrow> length (cfg_bytes c) = 26"
  by (simp add: cfg_bytes_def cfg_words_def wf_cfg_def)

lemma cfg_of_cfg_bytes [simp]:
  assumes "wf_cfg c"
  shows "cfg_of_bytes (cfg_bytes c @ r) = c"
proof -
  obtain a b d e where ip: "ip c = [a, b, d, e]"
    using assms by (auto simp: wf_cfg_def elim: length_4E)
  have word: "get_le16 (drop (2 * i) (cfg_bytes c @ r)) = cfg_words c ! i" if "i < 13" for i
    unfolding cfg_bytes_def by (rule get_le16_nth) (use that ip in \<open>simp add: cfg_words_def\<close>)
  show ?thesis
    using word [of 0] word [of 1] word [of 2] word [of 3] word [of 4] word [of 5] word [of 6]
      word [of 7] word [of 8] word [of 9] word [of 10] word [of 11] word [of 12]
    by (simp add: cfg_of_bytes_def cfg_words_def ip)
qed

lemma wf_cfg_of_bytes [simp]: "wf_cfg (cfg_of_bytes p)"
  by (simp add: cfg_of_bytes_def wf_cfg_def Let_def)

lemma wf_defaults [simp]: "wf_cfg config_store_get_defaults"
  by (simp add: config_store_get_defaults_def wf_cfg_def)

lemma length_slot_head [simp]: "wf_cfg c \<Longrightarrow> length (slot_head c g) = 36"
  by (simp add: slot_head_def CFG_MAGIC_def)

lemma length_slot_record [simp]: "wf_cfg c \<Longrightarrow> length (slot_record c g) = 40"
  by (simp add: slot_record_def)

lemma slot_head_parts:
  "take 4 (slot_head c g) = CFG_MAGIC"
  "drop 4 (slot_head c g) = io_put_le32 g @ put_le16 26 @ cfg_bytes c"
  "drop 8 (slot_head c g) = put_le16 26 @ cfg_bytes c"
  "drop 10 (slot_head c g) = cfg_bytes c"
  by (simp_all add: slot_head_def CFG_MAGIC_def io_put_le32_def put_le16_def)

lemma slot_decode_record: "wf_cfg c \<Longrightarrow> slot_decode (slot_record c g) = Slot_Valid c g"
  using io_get_put_le32 [of _ "[]"]
  by (simp add: slot_decode_def slot_record_def slot_head_parts CFG_LEN_OFF_def CFG_HDR_LEN_def
      CFG_GEN_OFF_def CFG_CRC_OFF_def)

text \<open>Four bytes are determined by the little-endian word they hold.\<close>

lemma io_put_get_le32:
  assumes "length bs = 4"
  shows "io_put_le32 (io_get_le32 bs) = bs"
proof -
  obtain a b c d where bs: "bs = [a, b, c, d]" using assms by (rule length_4E)
  show ?thesis
    by (auto simp: bs io_put_le32_def io_get_le32_def bit_eq_iff bit_simps dest: bit_imp_le_length)
qed

lemma io_get_le32_inj:
  "length xs = 4 \<Longrightarrow> length ys = 4 \<Longrightarrow> io_get_le32 xs = io_get_le32 ys \<Longrightarrow> xs = ys"
  by (metis io_put_get_le32)

lemma slot_decode_corrupt:
  assumes "slot_decode rec = Slot_Valid c g" and len: "length rec = 40"
    and i: "i < 40" "rec ! i \<noteq> b"
  shows "slot_decode (rec[i := b]) = Slot_Invalid"
proof -
  have ok: "io_get_le32 (drop 36 rec) = crc32_ieee (take 36 rec)"
    using assms(1) by (auto simp: slot_decode_def CFG_CRC_OFF_def split: if_splits)
  have "io_get_le32 (drop 36 (rec[i := b])) \<noteq> crc32_ieee (take 36 (rec[i := b]))"
  proof (cases "i < 36")
    case True
    then have "crc32_ieee (take 36 (rec[i := b])) \<noteq> crc32_ieee (take 36 rec)"
      using i len by (simp add: take_update_swap crc32_ieee_single_byte)
    then show ?thesis using ok True by simp
  next
    case False
    then have "drop 36 (rec[i := b]) = (drop 36 rec)[i - 36 := b]"
      by (simp add: drop_update_swap)
    moreover have "(drop 36 rec)[i - 36 := b] ! (i - 36) \<noteq> drop 36 rec ! (i - 36)"
      using i len False by simp
    ultimately have "io_get_le32 (drop 36 (rec[i := b])) \<noteq> io_get_le32 (drop 36 rec)"
      using len io_get_le32_inj [of "drop 36 (rec[i := b])" "drop 36 rec"] by auto
    then show ?thesis using ok False by simp
  qed
  then show ?thesis by (simp add: slot_decode_def CFG_CRC_OFF_def)
qed

section \<open>Page-wise programming\<close>

definition page_chunk :: "u32 \<Rightarrow> u8 list \<Rightarrow> nat" where
  "page_chunk a bs = min (length bs) (256 - unat a mod 256)"

lemma page_chunk_pos: "bs \<noteq> [] \<Longrightarrow> 0 < page_chunk a bs"
  by (simp add: page_chunk_def)

lemma page_chunk_le: "page_chunk a bs \<le> length bs"
  by (simp add: page_chunk_def)

lemma page_chunk_page: "unat a mod 256 + page_chunk a bs \<le> 256"
  by (simp add: page_chunk_def)

lemma write_pages_Nil [simp]: "write_pages F a [] w = (True, w)"
  by (simp add: write_pages.simps)

lemma write_pages_step:
  "bs \<noteq> [] \<Longrightarrow> write_pages F a bs w =
     (case fl_write F a (take (page_chunk a bs) bs) w of
        (False, w) \<Rightarrow> (False, w)
      | (True, w) \<Rightarrow> write_pages F (a + of_nat (page_chunk a bs)) (drop (page_chunk a bs) bs) w)"
  unfolding page_chunk_def
  by (simp add: write_pages.simps [of F a bs w] unat_and_255 Let_def)

lemma write_pages_induct [case_names Nil Step]:
  assumes "\<And>a w. P a [] w"
    and "\<And>a bs w. bs \<noteq> [] \<Longrightarrow>
      (\<And>w'. P (a + of_nat (page_chunk a bs)) (drop (page_chunk a bs) bs) w') \<Longrightarrow> P a bs w"
  shows "P a bs w"
proof (induction "length bs" arbitrary: a bs w rule: less_induct)
  case less
  show ?case
  proof (cases "bs = []")
    case True
    then show ?thesis using assms(1) by simp
  next
    case False
    then have "length (drop (page_chunk a bs) bs) < length bs"
      using page_chunk_pos [OF False, of a] by simp
    then show ?thesis using assms(2) [OF False] less by blast
  qed
qed

lemma page_chunk_addr:
  "unat a + length bs < 2 ^ 32 \<Longrightarrow> unat (a + of_nat (page_chunk a bs)) = unat a + page_chunk a bs"
  by (rule unat_plus_of_nat) (use page_chunk_le [of a bs] in simp)

context nor_flash
begin

lemma write_pages_frame:
  "write_pages F a bs w = (ok, w') \<Longrightarrow> unat a + length bs < 2 ^ 32
    \<Longrightarrow> i < unat a \<or> unat a + length bs \<le> i \<Longrightarrow> mem w' i = mem w i"
proof (induction a bs w arbitrary: ok w' rule: write_pages_induct)
  case (Step a bs w)
  let ?n = "page_chunk a bs"
  obtain ok1 w1 where w1: "fl_write F a (take ?n bs) w = (ok1, w1)" by fastforce
  have out: "i < unat a \<or> unat a + length (take ?n bs) \<le> i"
    using Step.prems(3) page_chunk_le [of a bs] by auto
  have first: "mem w1 i = mem w i" by (rule write_frame [OF w1 out])
  show ?case
  proof (cases ok1)
    case True
    then have "write_pages F (a + of_nat ?n) (drop ?n bs) w1 = (ok, w')"
      using Step.prems(1) Step.hyps w1 by (simp add: write_pages_step)
    then have "mem w' i = mem w1 i"
      by (rule Step.IH) (use Step.prems page_chunk_le [of a bs] in \<open>auto simp: page_chunk_addr\<close>)
    then show ?thesis using first by simp
  next
    case False
    then show ?thesis using Step.prems(1) Step.hyps w1 first by (simp add: write_pages_step)
  qed
qed simp

lemma write_pages_data:
  "write_pages F a bs w = (True, w') \<Longrightarrow> unat a + length bs < 2 ^ 32
    \<Longrightarrow> mem_bytes (mem w) (unat a) (length bs) = replicate (length bs) 0xFF
    \<Longrightarrow> mem_bytes (mem w') (unat a) (length bs) = bs"
proof (induction a bs w arbitrary: w' rule: write_pages_induct)
  case (Step a bs w)
  let ?n = "page_chunk a bs"
  obtain w1 where w1: "fl_write F a (take ?n bs) w = (True, w1)"
    and rest: "write_pages F (a + of_nat ?n) (drop ?n bs) w1 = (True, w')"
    using Step.prems(1) Step.hyps by (auto simp: write_pages_step split: prod.splits bool.splits)
  note addr = page_chunk_addr [OF Step.prems(2)]
  obtain k where len: "length bs = ?n + k" using page_chunk_le [of a bs] le_Suc_ex by blast
  then have k: "length (drop ?n bs) = k" by simp
  have erased: "mem_bytes (mem w) (unat a) ?n = replicate ?n 0xFF"
    "mem_bytes (mem w) (unat a + ?n) (length (drop ?n bs)) = replicate (length (drop ?n bs)) 0xFF"
    using Step.prems(3) unfolding len k mem_bytes_replicate by blast+
  have first: "mem_bytes (mem w1) (unat a) ?n = take ?n bs"
    using write_erased [OF w1] erased(1) page_chunk_le [of a bs] by (simp add: min_absorb2)
  have "mem_bytes (mem w1) (unat a + ?n) (length (drop ?n bs)) =
      mem_bytes (mem w) (unat a + ?n) (length (drop ?n bs))"
    by (rule mem_bytes_cong, rule write_frame [OF w1]) (use page_chunk_le [of a bs] in auto)
  then have second: "mem_bytes (mem w') (unat a + ?n) (length (drop ?n bs)) = drop ?n bs"
    using Step.IH [OF rest] erased(2) Step.prems(2) page_chunk_le [of a bs] by (simp add: addr)
  have "mem_bytes (mem w') (unat a) ?n = mem_bytes (mem w1) (unat a) ?n"
    by (rule mem_bytes_cong, rule write_pages_frame [OF rest])
      (use Step.prems(2) page_chunk_le [of a bs] in \<open>auto simp: addr\<close>)
  then show ?case using first second k len mem_bytes_add by (metis append_take_drop_id)
qed (simp add: mem_bytes_def)

lemma write_pages_programmed:
  assumes "programmed (mem w) a xs (length ys + k)" and "write_pages F b ys w = (True, w')"
    and b: "unat b = a + length xs" and small: "a + length xs + length ys < 2 ^ 32"
  shows "programmed (mem w') a (xs @ ys) k"
proof (rule programmed_extend [OF assms(1)])
  have "mem_bytes (mem w) (unat b) (length ys) = replicate (length ys) 0xFF"
    using assms(1) by (simp add: programmed_iff mem_bytes_replicate b)
  then show "mem_bytes (mem w') (a + length xs) (length ys) = ys"
    using write_pages_data [OF assms(2)] b small by simp
  show "mem w' i = mem w i" if "i < a + length xs \<or> a + length xs + length ys \<le> i" for i
    using write_pages_frame [OF assms(2), of i] that b small by simp
qed

end

context reliable_nor_flash
begin

text \<open>The split at page boundaries keeps every call within the rules of the interface.\<close>

lemma write_pages_ok:
  "unat a + length bs \<le> CHIP_SIZE
    \<Longrightarrow> mem_bytes (mem w) (unat a) (length bs) = replicate (length bs) 0xFF
    \<Longrightarrow> fst (write_pages F a bs w)"
proof (induction a bs w rule: write_pages_induct)
  case (Step a bs w)
  let ?n = "page_chunk a bs"
  have small: "unat a + length bs < 2 ^ 32" using Step.prems(1) by (simp add: CHIP_SIZE_def)
  note addr = page_chunk_addr [OF small]
  obtain k where len: "length bs = ?n + k" using page_chunk_le [of a bs] le_Suc_ex by blast
  then have k: "length (drop ?n bs) = k" by simp
  have erased: "mem_bytes (mem w) (unat a) ?n = replicate ?n 0xFF"
    "mem_bytes (mem w) (unat a + ?n) (length (drop ?n bs)) = replicate (length (drop ?n bs)) 0xFF"
    using Step.prems(2) unfolding len k mem_bytes_replicate by blast+
  have "fst (fl_write F a (take ?n bs) w)"
    using write_ok [of "take ?n bs" a w] erased(1) page_chunk_pos [OF Step.hyps, of a]
      page_chunk_page [of a bs] page_chunk_le [of a bs] Step.prems(1)
    by (simp add: NOR_PAGE_def min_absorb2)
  then obtain w1 where w1: "fl_write F a (take ?n bs) w = (True, w1)" by (metis prod.collapse)
  have "mem_bytes (mem w1) (unat a + ?n) (length (drop ?n bs)) =
      mem_bytes (mem w) (unat a + ?n) (length (drop ?n bs))"
    by (rule mem_bytes_cong, rule write_frame [OF w1]) (use page_chunk_le [of a bs] in auto)
  then have "fst (write_pages F (a + of_nat ?n) (drop ?n bs) w1)"
    using Step.IH [of w1] Step.prems(1) erased(2) page_chunk_le [of a bs] by (simp add: addr)
  then show ?case using Step.hyps w1 by (simp add: write_pages_step)
qed simp

end

section \<open>RAM copy and flash\<close>

text \<open>
  What the two slots hold, and the invariant between the RAM copy and the flash: the active
  slot holds exactly the RAM copy, and the selection rule of \<open>config_store_init\<close> prefers it.
\<close>

definition slot_at :: "(nat \<Rightarrow> u8) \<Rightarrow> u32 \<Rightarrow> slot_result" where
  "slot_at m a = slot_decode (mem_bytes m (unat a) CFG_REC_LEN)"

definition cfg_inv :: "cfg_store \<Rightarrow> (nat \<Rightarrow> u8) \<Rightarrow> bool" where
  "cfg_inv st m \<longleftrightarrow> inited st \<and> wf_cfg (cur st) \<and>
     (if cur_slot st = CFG_SLOT_A then
        slot_at m CFG_SLOT_A = Slot_Valid (cur st) (cur_gen st) \<and>
        (\<forall>c g. slot_at m CFG_SLOT_B = Slot_Valid c g \<longrightarrow> g \<le> cur_gen st)
      else if cur_slot st = CFG_SLOT_B then
        slot_at m CFG_SLOT_B = Slot_Valid (cur st) (cur_gen st) \<and>
        (\<forall>c g. slot_at m CFG_SLOT_A = Slot_Valid c g \<longrightarrow> g < cur_gen st)
      else cur st = config_store_get_defaults \<and> cur_gen st = 0 \<and> cur_slot st = 0 \<and>
        slot_at m CFG_SLOT_A = Slot_Invalid \<and> slot_at m CFG_SLOT_B = Slot_Invalid)"

lemma slot_decode_no_io [simp]: "slot_decode r \<noteq> Slot_IOError"
  by (simp add: slot_decode_def)

lemma slot_at_no_io [simp]: "slot_at m a \<noteq> Slot_IOError"
  by (simp add: slot_at_def)

lemma slot_decode_wf: "slot_decode r = Slot_Valid c g \<Longrightarrow> wf_cfg c"
  by (auto simp: slot_decode_def split: if_splits)

lemma slot_decode_erased: "slot_decode (replicate 40 0xFF) = Slot_Invalid"
proof -
  have "hd (take 4 (replicate 40 (0xFF :: u8))) \<noteq> hd CFG_MAGIC"
    by (simp add: CFG_MAGIC_def take_replicate)
  then have "take 4 (replicate 40 (0xFF :: u8)) \<noteq> CFG_MAGIC" by metis
  then show ?thesis by (simp only: slot_decode_def if_True not_False_eq_True)
qed

lemma slot_at_wf: "slot_at m a = Slot_Valid c g \<Longrightarrow> wf_cfg c"
  by (auto simp: slot_at_def dest: slot_decode_wf)

lemma unat_slot [simp]:
  "unat CFG_SLOT_A = 0xE0000" "unat CFG_SLOT_B = 0xE8000" "unat CFG_SLOT_SIZE = 0x8000"
  by (simp_all add: hub_defs)

lemma slots_distinct [simp]:
  "CFG_SLOT_A \<noteq> CFG_SLOT_B" "CFG_SLOT_B \<noteq> CFG_SLOT_A" "CFG_SLOT_A \<noteq> 0" "CFG_SLOT_B \<noteq> 0"
  by (simp_all add: hub_defs)

lemma save_target_cases: "save_target st = CFG_SLOT_A \<or> save_target st = CFG_SLOT_B"
  by (simp add: save_target_def)

lemma unat_target_off:
  "n \<le> 40 \<Longrightarrow> unat (save_target st + of_nat n) = unat (save_target st) + n"
  using save_target_cases [of st] by (intro unat_plus_of_nat) auto

lemma target_bounds:
  "unat (save_target st) = 0xE0000 \<or> unat (save_target st) = 0xE8000"
  using save_target_cases [of st] by auto

lemma slot_at_cong:
  "(\<And>i. unat a \<le> i \<Longrightarrow> i < unat a + 40 \<Longrightarrow> m i = m' i) \<Longrightarrow> slot_at m a = slot_at m' a"
  using mem_bytes_cong [of "unat a" CFG_REC_LEN m m'] by (simp add: slot_at_def CFG_REC_LEN_def)

text \<open>The three pieces in which a record is programmed.\<close>

lemma slot_record_pieces:
  "take CFG_HDR_LEN r @ take CFG_BODY_LEN (drop CFG_HDR_LEN r) @ drop CFG_CRC_OFF r = r"
proof -
  have "drop CFG_CRC_OFF r = drop CFG_BODY_LEN (drop CFG_HDR_LEN r)" by (simp add: hub_defs)
  then show ?thesis by (simp only: append_take_drop_id)
qed

context nor_flash
begin

lemma slot_read_cases:
  "slot_read F a w = (r, w') \<Longrightarrow> mem w' = mem w \<and> (r = Slot_IOError \<or> r = slot_at (mem w) a)"
  by (auto simp: slot_read_def slot_at_def dest: read_mem read_data split: prod.splits option.splits)

text \<open>Whenever both slots can be read, \<open>config_store_init\<close> re-establishes the invariant.\<close>

lemma init_inv:
  assumes "config_store_init F w = (True, st, w')"
  shows "cfg_inv st (mem w') \<and> mem w' = mem w"
proof -
  obtain ra w1 where ra: "slot_read F CFG_SLOT_A w = (ra, w1)" by fastforce
  obtain rb w2 where rb: "slot_read F CFG_SLOT_B w1 = (rb, w2)" by fastforce
  from assms ra rb have "ra \<noteq> Slot_IOError" "rb \<noteq> Slot_IOError"
    by (auto simp: config_store_init_def Let_def split: if_splits)
  with slot_read_cases [OF ra] slot_read_cases [OF rb]
  have eq: "slot_at (mem w) CFG_SLOT_A = ra" "slot_at (mem w) CFG_SLOT_B = rb" "mem w2 = mem w"
    by auto
  show ?thesis
    using assms ra rb eq
    by (cases ra; cases rb)
      (auto simp: config_store_init_def Let_def cfg_inv_def slot_at_wf split: if_splits)
qed

text \<open>Conversely the flash determines the RAM copy: a restart loses nothing.\<close>

lemma init_restores:
  assumes "cfg_inv st (mem w)" and "config_store_init F w = (True, st', w')"
  shows "st' = st"
proof -
  have inv': "cfg_inv st' (mem w)" using init_inv [OF assms(2)] by auto
  have slots: "cur_slot s = CFG_SLOT_A \<or> cur_slot s = CFG_SLOT_B \<or> cur_slot s = 0"
    if "cfg_inv s (mem w)" for s
    using that by (auto simp: cfg_inv_def split: if_splits)
  show ?thesis
    using assms(1) inv' slots [OF assms(1)] slots [OF inv']
    by (auto simp: cfg_inv_def intro!: cfg_store.equality)
qed

text \<open>No path through a save, successful or not, touches anything but the target slot.\<close>

lemma save_frame:
  assumes save: "config_store_save F cfg st w = (ok, st', w')" and wf: "wf_cfg cfg"
    and i: "i < unat (save_target st) \<or> unat (save_target st) + 0x8000 \<le> i"
  shows "mem w' i = mem w i"
proof (cases "inited st")
  case True
  let ?t = "save_target st" and ?r = "slot_record cfg (cur_gen st + 1)"
  have frame: "mem v' i = mem v i" if "write_pages F (?t + of_nat n) bs v = (b, v')"
    "n \<le> 40" "length bs \<le> 26" for n bs v b v'
    using write_pages_frame [OF that(1), of i] that(2,3) i target_bounds [of st]
    by (auto simp: unat_target_off)
  have frame0: "mem v' i = mem v i" if "write_pages F ?t bs v = (b, v')" "length bs \<le> 26" for bs v b v'
    using frame [of 0 bs v b v'] that by simp
  have len: "length (take CFG_HDR_LEN ?r) \<le> 26" "length (drop CFG_CRC_OFF ?r) \<le> 26"
    "length (take CFG_BODY_LEN (drop CFG_HDR_LEN ?r)) \<le> 26"
    using wf by (simp_all add: hub_defs)
  obtain b1 w1 where e: "fl_erase F ?t (unat CFG_SLOT_SIZE) w = (b1, w1)" by fastforce
  obtain b2 w2 where p1: "write_pages F ?t (take CFG_HDR_LEN ?r) w1 = (b2, w2)" by fastforce
  obtain b3 w3 where p2: "write_pages F (?t + of_nat CFG_HDR_LEN)
      (take CFG_BODY_LEN (drop CFG_HDR_LEN ?r)) w2 = (b3, w3)" by fastforce
  obtain b4 w4 where p3: "write_pages F (?t + of_nat CFG_CRC_OFF) (drop CFG_CRC_OFF ?r) w3 = (b4, w4)"
    by fastforce
  have "mem w1 i = mem w i" using erase_frame [OF e] i by simp
  moreover have "mem w2 i = mem w1 i" using frame0 [OF p1 len(1)] .
  moreover have "mem w3 i = mem w2 i" using frame [OF p2 _ len(3)] by (simp add: CFG_HDR_LEN_def)
  moreover have "mem w4 i = mem w3 i" using frame [OF p3 _ len(2)] by (simp add: CFG_CRC_OFF_def)
  ultimately show ?thesis
    using save True e p1 p2 p3 unfolding config_store_save_def Let_def
    by (cases b1; cases b2; cases b3; cases b4) simp_all
next
  case False
  then show ?thesis using save by (simp add: config_store_save_def)
qed

lemma save_data:
  assumes save: "config_store_save F cfg st w = (True, st', w')" and wf: "wf_cfg cfg"
  shows "mem_bytes (mem w') (unat (save_target st)) 40 = slot_record cfg (cur_gen st + 1)"
    and "st' = st\<lparr>cur := cfg, cur_gen := cur_gen st + 1, cur_slot := save_target st\<rparr>"
    and "inited st"
proof -
  let ?t = "save_target st" and ?r = "slot_record cfg (cur_gen st + 1)"
  let ?h = "take CFG_HDR_LEN ?r" and ?b = "take CFG_BODY_LEN (drop CFG_HDR_LEN ?r)"
    and ?c = "drop CFG_CRC_OFF ?r"
  show init: "inited st"
    using save by (auto simp: config_store_save_def split: if_splits)
  obtain b1 w1 where e: "fl_erase F ?t (unat CFG_SLOT_SIZE) w = (b1, w1)" by fastforce
  obtain b2 w2 where p1: "write_pages F ?t ?h w1 = (b2, w2)" by fastforce
  obtain b3 w3 where p2: "write_pages F (?t + of_nat CFG_HDR_LEN) ?b w2 = (b3, w3)" by fastforce
  obtain b4 w4 where p3: "write_pages F (?t + of_nat CFG_CRC_OFF) ?c w3 = (b4, w4)" by fastforce
  have all: "b1 \<and> b2 \<and> b3 \<and> b4 \<and> w' = w4 \<and>
      st' = st\<lparr>cur := cfg, cur_gen := cur_gen st + 1, cur_slot := ?t\<rparr>"
    using save init e p1 p2 p3 unfolding config_store_save_def Let_def
    by (cases b1; cases b2; cases b3; cases b4) simp_all
  then have ok: "b1" "b2" "b3" "b4" and w': "w' = w4"
    and "st' = st\<lparr>cur := cfg, cur_gen := cur_gen st + 1, cur_slot := ?t\<rparr>" by blast+
  then show "st' = st\<lparr>cur := cfg, cur_gen := cur_gen st + 1, cur_slot := ?t\<rparr>" by simp
  have len: "length ?h = 10" "length ?b = 26" "length ?c = 4" "length (?h @ ?b) = 36"
    using wf by (simp_all add: hub_defs)
  have a1: "unat (?t + of_nat CFG_HDR_LEN) = unat ?t + 10"
    and a2: "unat (?t + of_nat CFG_CRC_OFF) = unat ?t + 36"
    using unat_target_off [of CFG_HDR_LEN st] unat_target_off [of CFG_CRC_OFF st]
    by (simp_all add: hub_defs(8,10))
  have small: "unat ?t + 40 < 2 ^ 32" using target_bounds [of st] by auto
  have "mem_bytes (mem w1) (unat ?t) 40 = replicate 40 0xFF"
    using erase_bytes [of ?t "unat CFG_SLOT_SIZE" w w1 "unat ?t" 40] e ok(1) by simp
  then have s0: "programmed (mem w1) (unat ?t) [] (length ?h + 30)"
    unfolding programmed_Nil len by simp
  from p1 ok(2) have "write_pages F ?t ?h w1 = (True, w2)" by simp
  from write_pages_programmed [OF s0 this] have s1: "programmed (mem w2) (unat ?t) ?h (length ?b + 4)"
    using small unfolding len by simp
  from p2 ok(3) have "write_pages F (?t + of_nat CFG_HDR_LEN) ?b w2 = (True, w3)" by simp
  from write_pages_programmed [OF s1 this] have s2: "programmed (mem w3) (unat ?t) (?h @ ?b) (length ?c + 0)"
    using small a1 unfolding len by simp
  from p3 ok(4) have "write_pages F (?t + of_nat CFG_CRC_OFF) ?c w3 = (True, w4)" by simp
  from write_pages_programmed [OF s2 this] have "programmed (mem w4) (unat ?t) ((?h @ ?b) @ ?c) 0"
    using small a2 unfolding len by simp
  then have "programmed (mem w4) (unat ?t) ?r 0"
    by (simp only: append_assoc slot_record_pieces)
  then show "mem_bytes (mem w') (unat ?t) 40 = ?r"
    using w' wf by (simp add: programmed_iff)
qed

lemma save_slots:
  assumes save: "config_store_save F cfg st w = (ok, st', w')" and wf: "wf_cfg cfg"
  shows "ok \<Longrightarrow> slot_at (mem w') (save_target st) = Slot_Valid cfg (cur_gen st + 1)"
    and "a = CFG_SLOT_A \<or> a = CFG_SLOT_B \<Longrightarrow> a \<noteq> save_target st
      \<Longrightarrow> slot_at (mem w') a = slot_at (mem w) a"
proof -
  show "slot_at (mem w') (save_target st) = Slot_Valid cfg (cur_gen st + 1)" if "ok"
    using save_data(1) [of cfg st w st' w'] save wf that
    by (simp add: slot_at_def CFG_REC_LEN_def slot_decode_record)
  show "slot_at (mem w') a = slot_at (mem w) a"
    if "a = CFG_SLOT_A \<or> a = CFG_SLOT_B" "a \<noteq> save_target st"
    by (rule slot_at_cong, rule save_frame [OF save wf])
      (use that in \<open>auto simp: save_target_def split: if_splits\<close>)
qed

lemma save_inv:
  assumes "cfg_inv st (mem w)" "config_store_save F cfg st w = (True, st', w')" "wf_cfg cfg"
    and "cur_gen st \<noteq> 0xFFFFFFFF"
  shows "cfg_inv st' (mem w')"
proof -
  have less: "cur_gen st < cur_gen st + 1" using assms(4) by (rule u32_less_Suc)
  have st': "st' = st\<lparr>cur := cfg, cur_gen := cur_gen st + 1, cur_slot := save_target st\<rparr>"
    using save_data(2) [OF assms(2,3)] .
  show ?thesis
    using assms(1,3) less save_slots [OF assms(2,3)]
    by (auto simp: st' cfg_inv_def save_target_def split: if_splits)
qed

lemma save_failed:
  assumes "cfg_inv st (mem w)" "config_store_save F cfg st w = (False, st', w')" "wf_cfg cfg"
    and "slot_at (mem w') (save_target st) = Slot_Invalid"
  shows "st' = st \<and> cfg_inv st (mem w')"
proof -
  have "st' = st"
    using assms(2) by (auto simp: config_store_save_def Let_def split: if_splits prod.splits bool.splits)
  moreover have "cfg_inv st (mem w')"
    using assms(1,4) save_slots(2) [OF assms(2,3)]
    by (auto simp: cfg_inv_def save_target_def split: if_splits)
  ultimately show ?thesis by blast
qed

lemma save_interrupted:
  assumes "cfg_inv st (mem w)" "config_store_save F cfg st w = (False, st', w')" "wf_cfg cfg"
    and "config_store_init F w' = (True, st2, w2)" "slot_at (mem w') (save_target st) = Slot_Valid c g"
  shows "st2 = st \<or> cur st2 = c \<and> cur_gen st2 = g \<and> cur_slot st2 = save_target st"
proof -
  have inv2: "cfg_inv st2 (mem w')" using init_inv [OF assms(4)] by auto
  have other: "slot_at (mem w') s = slot_at (mem w) s" if "s = CFG_SLOT_A \<or> s = CFG_SLOT_B" "s \<noteq> save_target st" for s
    using save_slots(2) [OF assms(2,3)] that by (auto simp: save_target_def split: if_splits)
  show ?thesis
    using assms(1,5) inv2 other [of CFG_SLOT_A] other [of CFG_SLOT_B]
    by (auto simp: cfg_inv_def save_target_def split: if_splits intro!: cfg_store.equality)
qed

lemma erase_all_inv:
  assumes "cfg_inv st (mem w)" "config_store_erase_all F st w = (st', w')"
    and "fst (fl_erase F CFG_SLOT_A 0x8000 w)"
    and "fst (fl_erase F CFG_SLOT_B 0x8000 (snd (fl_erase F CFG_SLOT_A 0x8000 w)))"
  shows "cfg_inv st' (mem w') \<and> cur st' = config_store_get_defaults"
proof -
  obtain w1 where w1: "fl_erase F CFG_SLOT_A 0x8000 w = (True, w1)"
    using assms(3) by (metis prod.collapse)
  obtain w2 where w2: "fl_erase F CFG_SLOT_B 0x8000 w1 = (True, w2)"
    using assms(4) w1 by (metis prod.collapse snd_conv)
  have init: "inited st" using assms(1) by (simp add: cfg_inv_def)
  have w': "w' = w2" using assms(2) init w1 w2 by (simp add: config_store_erase_all_def)
  have "mem_bytes (mem w2) (unat CFG_SLOT_A) 40 = mem_bytes (mem w1) (unat CFG_SLOT_A) 40"
    by (rule mem_bytes_cong, rule erase_frame [OF w2]) simp
  also have "\<dots> = replicate 40 0xFF" by (rule erase_bytes [OF w1]) simp_all
  finally have a: "slot_at (mem w2) CFG_SLOT_A = Slot_Invalid"
    by (simp add: slot_at_def CFG_REC_LEN_def slot_decode_erased)
  have "mem_bytes (mem w2) (unat CFG_SLOT_B) 40 = replicate 40 0xFF"
    by (rule erase_bytes [OF w2]) simp_all
  then have b: "slot_at (mem w2) CFG_SLOT_B = Slot_Invalid"
    by (simp add: slot_at_def CFG_REC_LEN_def slot_decode_erased)
  show ?thesis
    using assms(2) init w' a b by (auto simp: config_store_erase_all_def cfg_inv_def)
qed

end

context reliable_nor_flash
begin

lemma save_ok:
  assumes "inited st" "wf_cfg cfg"
  shows "fst (config_store_save F cfg st w)"
proof -
  let ?t = "save_target st" and ?r = "slot_record cfg (cur_gen st + 1)"
  let ?h = "take CFG_HDR_LEN ?r" and ?b = "take CFG_BODY_LEN (drop CFG_HDR_LEN ?r)"
    and ?c = "drop CFG_CRC_OFF ?r"
  have len: "length ?h = 10" "length ?b = 26" "length ?c = 4" "length (?h @ ?b) = 36"
    using assms(2) by (simp_all add: hub_defs)
  have a1: "unat (?t + of_nat CFG_HDR_LEN) = unat ?t + 10"
    and a2: "unat (?t + of_nat CFG_CRC_OFF) = unat ?t + 36"
    using unat_target_off [of CFG_HDR_LEN st] unat_target_off [of CFG_CRC_OFF st]
    by (simp_all add: hub_defs(8,10))
  note t = target_bounds [of st]
  have next_ok: "\<exists>w'. write_pages F b ys v = (True, w') \<and> programmed (mem w') (unat ?t) (xs @ ys) k"
    if "programmed (mem v) (unat ?t) xs (length ys + k)" "unat b = unat ?t + length xs"
      "length xs + length ys \<le> 40" for b xs ys k v
  proof -
    have "fst (write_pages F b ys v)"
      using that t by (intro write_pages_ok)
        (auto simp: CHIP_SIZE_def programmed_iff mem_bytes_replicate)
    then obtain w' where "write_pages F b ys v = (True, w')" by (metis prod.collapse)
    with write_pages_programmed [OF that(1) this that(2)] show ?thesis using t that(3) by auto
  qed
  have "fst (fl_erase F ?t (unat CFG_SLOT_SIZE) w)"
    using t by (intro erase_ok) (auto simp: NOR_SECTOR_def CHIP_SIZE_def)
  then obtain w1 where e: "fl_erase F ?t (unat CFG_SLOT_SIZE) w = (True, w1)" by (metis prod.collapse)
  have "mem_bytes (mem w1) (unat ?t) 40 = replicate 40 0xFF"
    using erase_bytes [OF e, of "unat ?t" 40] by simp
  then have s0: "programmed (mem w1) (unat ?t) [] (length ?h + 30)"
    unfolding programmed_Nil len by simp
  obtain w2 where p1: "write_pages F ?t ?h w1 = (True, w2)"
    and s1: "programmed (mem w2) (unat ?t) ?h (length ?b + 4)"
    using next_ok [OF s0, of ?t] unfolding len by auto
  obtain w3 where p2: "write_pages F (?t + of_nat CFG_HDR_LEN) ?b w2 = (True, w3)"
    and s2: "programmed (mem w3) (unat ?t) (?h @ ?b) (length ?c + 0)"
    using next_ok [OF s1, of "?t + of_nat CFG_HDR_LEN"] a1 unfolding len by auto
  obtain w4 where p3: "write_pages F (?t + of_nat CFG_CRC_OFF) ?c w3 = (True, w4)"
    using next_ok [OF s2, of "?t + of_nat CFG_CRC_OFF"] a2 unfolding len by auto
  show ?thesis
    using assms(1) e p1 p2 p3 unfolding config_store_save_def Let_def by simp
qed

lemma init_ok: "fst (config_store_init F w)"
proof -
  have "fst (slot_read F a v) \<noteq> Slot_IOError" if "unat a + 40 \<le> CHIP_SIZE" for a v
    using read_ok [of a CFG_REC_LEN v] that
    by (auto simp: slot_read_def CFG_REC_LEN_def split: prod.splits option.splits)
  then have "fst (slot_read F CFG_SLOT_A v) \<noteq> Slot_IOError" "fst (slot_read F CFG_SLOT_B v) \<noteq> Slot_IOError"
    for v
    by (simp_all add: CHIP_SIZE_def)
  then show ?thesis
    by (auto simp: config_store_init_def Let_def split: prod.splits slot_result.splits)
      (metis fst_conv)+
qed

end

section \<open>Properties\<close>

lemma fake_init_reset:
  "config_store_init fake_flash fake_flash_reset =
     (True, \<lparr>cur = config_store_get_defaults, cur_gen = 0, cur_slot = 0, inited = True\<rparr>, fake_flash_reset)"
proof -
  have "slot_read fake_flash a fake_flash_reset = (Slot_Invalid, fake_flash_reset)"
    if "unat a + 40 \<le> CHIP_SIZE" for a
  proof -
    have "mem_bytes fake_flash_reset (unat a) 40 = replicate 40 0xFF"
      by (rule mem_bytes_eqI) (simp_all add: fake_flash_reset_def)
    then show ?thesis
      using that slot_decode_erased by (simp add: slot_read_def fake_read_def in_range_def CFG_REC_LEN_def)
  qed
  from this [of CFG_SLOT_A] this [of CFG_SLOT_B] show ?thesis
    by (simp add: config_store_init_def CHIP_SIZE_def)
qed

text \<open>
  (C1) A configuration that \<open>config_store_save\<close> reports as saved is the one in force after a
  restart: when the RAM copy and the flash agree, a successful save followed by a successful
  \<open>config_store_init\<close> yields exactly the saved configuration, with the next generation number,
  from the slot that was not active before. (The generation counter must not be at its maximum;
  there the increment wraps and the older slot would win.)
\<close>

theorem config_save_survives_restart:
  assumes "nor_flash F mem" and "cfg_inv st (mem w)" and "wf_cfg cfg" and "cur_gen st \<noteq> 0xFFFFFFFF"
    and "config_store_save F cfg st w = (True, st1, w1)"
    and "config_store_init F w1 = (True, st2, w2)"
  shows "config_store_get st2 = cfg \<and> cur_gen st2 = cur_gen st + 1 \<and>
    cur_slot st2 = save_target st \<and> cfg_inv st2 (mem w2)"
proof -
  have inv: "cfg_inv st1 (mem w1)"
    using nor_flash.save_inv [OF assms(1,2,5,3,4)] .
  have "st2 = st1" using nor_flash.init_restores [OF assms(1) inv assms(6)] .
  moreover have "st1 = st\<lparr>cur := cfg, cur_gen := cur_gen st + 1, cur_slot := save_target st\<rparr>"
    using nor_flash.save_data(2) [OF assms(1,5,3)] .
  moreover have "mem w2 = mem w1" using nor_flash.init_inv [OF assms(1,6)] by simp
  ultimately show ?thesis using inv by (auto simp: config_store_get_def cfg_inv_def)
qed

theorem config_save_survives_restart_witness:
  "let (_, st, w) = config_store_init fake_flash fake_flash_reset;
       cfg = config_store_get_defaults\<lparr>slave_id := 17\<rparr>;
       (ok1, st1, w1) = config_store_save fake_flash cfg st w;
       (ok2, st2, w2) = config_store_init fake_flash w1
   in ok1 \<and> ok2 \<and> config_store_get st2 = cfg \<and> cur_gen st2 = 1 \<and> cur_slot st2 = CFG_SLOT_A"
proof -
  let ?st = "\<lparr>cur = config_store_get_defaults, cur_gen = 0, cur_slot = 0, inited = True\<rparr>"
  let ?cfg = "config_store_get_defaults\<lparr>slave_id := 17\<rparr>"
  note i0 = fake_init_reset
  have inv: "cfg_inv ?st fake_flash_reset" using fake.init_inv [OF i0] by simp
  have wf: "wf_cfg ?cfg" by (simp add: wf_cfg_def config_store_get_defaults_def)
  obtain st1 w1 where sv: "config_store_save fake_flash ?cfg ?st fake_flash_reset = (True, st1, w1)"
    using fake.save_ok [of ?st ?cfg fake_flash_reset] wf by (metis prod.collapse cfg_store.select_convs(4))
  obtain st2 w2 where i2: "config_store_init fake_flash w1 = (True, st2, w2)"
    using fake.init_ok [of w1] by (metis prod.collapse)
  show ?thesis
    using config_save_survives_restart [OF fake.nor_flash_axioms inv wf _ sv i2]
    by (simp add: i0 sv i2 Let_def save_target_def slots_distinct [symmetric])
qed

text \<open>
  (C2) A save that fails at any of its flash operations (each of which may have left anything in
  the range it was given, as when power is lost half-way) leaves the RAM copy alone and changes no cell
  outside the slot it was writing. A restart then brings back the previous configuration, generation and slot,
  unless what is left in that slot passes magic, length and CRC; in that case it brings back either the previous
  configuration or the record in that slot, and nothing else.
\<close>

theorem config_save_interrupted:
  assumes "nor_flash F mem" and "cfg_inv st (mem w)" and "wf_cfg cfg"
    and "config_store_save F cfg st w = (False, st1, w1)"
    and "config_store_init F w1 = (True, st2, w2)"
  shows "st1 = st \<and> (\<forall>i. i < unat (save_target st) \<or> unat (save_target st) + 0x8000 \<le> i \<longrightarrow> mem w1 i = mem w i)
    \<and> (case slot_at (mem w1) (save_target st) of
         Slot_Valid c g \<Rightarrow> st2 = st \<or> cur st2 = c \<and> cur_gen st2 = g \<and> cur_slot st2 = save_target st
       | _ \<Rightarrow> st2 = st)"
proof -
  have "st1 = st"
    using assms(4) by (auto simp: config_store_save_def Let_def split: if_splits prod.splits bool.splits)
  moreover have "st2 = st" if "slot_at (mem w1) (save_target st) = Slot_Invalid"
    using nor_flash.save_failed [OF assms(1,2,4,3) that] nor_flash.init_restores [OF assms(1) _ assms(5)] by blast
  moreover have "st2 = st \<or> cur st2 = c \<and> cur_gen st2 = g \<and> cur_slot st2 = save_target st"
    if "slot_at (mem w1) (save_target st) = Slot_Valid c g" for c g
    using nor_flash.save_interrupted [OF assms(1,2,4,3,5) that] .
  ultimately show ?thesis
    using nor_flash.save_frame [OF assms(1,4,3)] by (auto split: slot_result.splits)
qed

text \<open>A back end whose program operation always fails still satisfies the contract.\<close>

definition dead_write_flash :: "fake_mem io_flash" where
  "dead_write_flash = fake_flash\<lparr>fl_write := (\<lambda>a bs m. (False, m))\<rparr>"

theorem config_save_interrupted_witness:
  "let st = \<lparr>cur = config_store_get_defaults, cur_gen = 0, cur_slot = 0, inited = True\<rparr>;
       cfg = config_store_get_defaults\<lparr>slave_id := 17\<rparr>;
       (ok1, st1, w1) = config_store_save dead_write_flash cfg st fake_flash_reset;
       (ok2, st2, w2) = config_store_init dead_write_flash w1
   in \<not> ok1 \<and> ok2 \<and> st1 = st \<and> st2 = st"
proof -
  let ?st = "\<lparr>cur = config_store_get_defaults, cur_gen = 0, cur_slot = 0, inited = True\<rparr>"
  let ?cfg = "config_store_get_defaults\<lparr>slave_id := 17\<rparr>"
  have nor: "nor_flash dead_write_flash (\<lambda>m. m)"
    by (unfold_locales; auto simp: dead_write_flash_def fake_read_def fake_erase_def split: if_splits)
  have inv: "cfg_inv ?st fake_flash_reset" using fake.init_inv [OF fake_init_reset] by simp
  have wf: "wf_cfg ?cfg" by (simp add: wf_cfg_def config_store_get_defaults_def)
  have "fl_erase dead_write_flash CFG_SLOT_A (unat CFG_SLOT_SIZE) fake_flash_reset = (True, fake_flash_reset)"
    by (auto simp: dead_write_flash_def fake_erase_def fake_flash_reset_def in_range_def
        NOR_SECTOR_def CHIP_SIZE_def)
  moreover have "write_pages dead_write_flash CFG_SLOT_A (take CFG_HDR_LEN (slot_record ?cfg 1)) m = (False, m)"
    for m
    using wf by (subst write_pages_step) (auto simp: dead_write_flash_def hub_defs simp flip: length_0_conv)
  ultimately have sv: "config_store_save dead_write_flash ?cfg ?st fake_flash_reset = (False, ?st, fake_flash_reset)"
    using slots_distinct by (simp add: config_store_save_def save_target_def)
  have i2: "config_store_init dead_write_flash fake_flash_reset = (True, ?st, fake_flash_reset)"
    using fake_init_reset by (simp add: config_store_init_def slot_read_def dead_write_flash_def)
  have bad: "slot_at fake_flash_reset (save_target ?st) = Slot_Invalid"
    using inv slots_distinct by (simp add: cfg_inv_def save_target_def)
  show ?thesis
    using config_save_interrupted [OF nor inv wf sv i2] bad by (simp add: sv i2)
qed

text \<open>
  (C3) Corruption is detected: changing any single byte of a record that a slot holds makes the
  slot invalid, whichever of magic, generation, length, body or CRC the byte belongs to.
\<close>

theorem config_record_single_byte_corruption:
  assumes "slot_decode rec = Slot_Valid c g" and "length rec = CFG_REC_LEN"
    and "i < CFG_REC_LEN" and "rec ! i \<noteq> b"
  shows "slot_decode (rec[i := b]) = Slot_Invalid"
  using assms slot_decode_corrupt by (simp add: CFG_REC_LEN_def)

theorem config_record_single_byte_corruption_witness:
  "slot_decode ((slot_record config_store_get_defaults 1)[12 := 0]) = Slot_Invalid"
proof (rule config_record_single_byte_corruption)
  show "slot_decode (slot_record config_store_get_defaults 1) = Slot_Valid config_store_get_defaults 1"
    by (simp add: slot_decode_record)
  show "slot_record config_store_get_defaults 1 ! 12 \<noteq> 0"
    by (simp add: slot_record_def nth_append)
      (simp add: slot_head_def cfg_bytes_def cfg_words_def config_store_get_defaults_def CFG_MAGIC_def
        io_put_le32_def put_le16_def)
qed (simp_all add: CFG_REC_LEN_def)

text \<open>
  On a back end that accepts every call allowed by the rules of the flash interface (whole
  sectors for erase; at most a page, inside one page, onto erased cells for program), a save
  always succeeds, for every configuration and from every store state: the page splitting and the
  order erase, header, body, CRC never break those rules.
\<close>

theorem config_save_never_misuses_flash:
  assumes "reliable_nor_flash F mem" and "inited st" and "wf_cfg cfg"
  shows "\<exists>st' w'. config_store_save F cfg st w = (True, st', w')"
  using reliable_nor_flash.save_ok [OF assms, of w] by (metis prod.collapse)

theorem config_save_never_misuses_flash_witness:
  "\<exists>st' w'. config_store_save fake_flash config_store_get_defaults
     \<lparr>cur = config_store_get_defaults, cur_gen = 5, cur_slot = CFG_SLOT_A, inited = True\<rparr>
     fake_flash_reset = (True, st', w')"
  by (rule config_save_never_misuses_flash [OF fake.reliable_nor_flash_axioms]) simp_all

definition torn_cfg :: io_cfg where
  "torn_cfg = config_store_get_defaults\<lparr>di_si := 11215, ai_si := 46371\<rparr>"

text \<open>
  The comment in the source that a torn write always leaves a CRC mismatch is too strong: the
  CRC field of a record whose body is only partly programmed reads as erased cells, and there are
  configurations for which that is the right CRC of the partial body. Here the last eight bytes
  of the record are missing and the slot is still accepted, with an address that was never
  configured.
\<close>

theorem config_torn_record_accepted:
  "slot_decode (take 32 (slot_record torn_cfg 1) @ replicate 8 0xFF) =
     Slot_Valid (torn_cfg\<lparr>ip := [192, 168, 0xFFFF, 0xFFFF]\<rparr>) 1"
proof -
  let ?torn = "torn_cfg\<lparr>ip := [192, 168, 0xFFFF, 0xFFFF]\<rparr>"
  have wf: "wf_cfg torn_cfg" "wf_cfg ?torn"
    by (simp_all add: torn_cfg_def config_store_get_defaults_def wf_cfg_def)
  have head: "take 32 (slot_record torn_cfg 1) @ replicate 4 0xFF = slot_head ?torn 1"
    using wf by (simp add: slot_record_def slot_head_def cfg_bytes_def cfg_words_def torn_cfg_def
        config_store_get_defaults_def CFG_MAGIC_def io_put_le32_def put_le16_def replicate_4)
  have crc: "crc32_ieee (slot_head ?torn 1) = 0xFFFFFFFF"
    by (simp add: slot_head_def cfg_bytes_def cfg_words_def torn_cfg_def config_store_get_defaults_def
        CFG_MAGIC_def io_put_le32_def put_le16_def crc32_ieee_def crc32_bit_def funpow_8)
  have "io_put_le32 0xFFFFFFFF = replicate 4 0xFF"
    by (simp add: io_put_le32_def replicate_4)
  then have "slot_record ?torn 1 = (take 32 (slot_record torn_cfg 1) @ replicate 4 0xFF) @ replicate 4 0xFF"
    by (simp only: slot_record_def [of ?torn] crc head)
  also have "\<dots> = take 32 (slot_record torn_cfg 1) @ replicate 8 0xFF"
    by (simp flip: replicate_add)
  finally have "take 32 (slot_record torn_cfg 1) @ replicate 8 0xFF = slot_record ?torn 1" ..
  then show ?thesis using slot_decode_record [OF wf(2)] by simp
qed


section \<open>What the store does not touch\<close>

text \<open>Observations of the world that no flash call changes are not changed by a save.\<close>

definition flash_keeps :: "'w io_flash \<Rightarrow> ('w \<Rightarrow> 'a) \<Rightarrow> bool" where
  "flash_keeps F p \<longleftrightarrow> (\<forall>a n w. p (snd (fl_read F a n w)) = p w)
     \<and> (\<forall>a n w. p (snd (fl_erase F a n w)) = p w) \<and> (\<forall>a bs w. p (snd (fl_write F a bs w)) = p w)"

lemma write_pages_keeps: "flash_keeps F p \<Longrightarrow> p (snd (write_pages F a bs w)) = p w"
proof (induction F a bs w rule: write_pages.induct)
  case (1 F a bs w)
  then show ?case
    by (auto simp: write_pages.simps [of F a bs] flash_keeps_def Let_def split: prod.splits bool.splits)
       (metis snd_conv)+
qed

lemma config_store_save_keeps:
  assumes "flash_keeps F p"
  shows "p (snd (snd (config_store_save F cfg st w))) = p w"
proof -
  have "\<And>a n w. p (snd (fl_erase F a n w)) = p w" using assms by (simp add: flash_keeps_def)
  then show ?thesis
    by (simp add: config_store_save_def split_beta Let_def write_pages_keeps [OF assms] split: bool.split)
qed

end
