(* ===== verification/Sys_Time.thy ===== *)
theory Sys_Time
  imports Hub_Prelude
begin

unbundle bit_operations_syntax

text \<open>
  \<open>src/sys/time.c\<close>: the epoch cache, its 1 Hz timer, setting the clock, and reading it back from
  the RTC at start-up. The HAL and the kernel tick are parameters (record \<open>hal_rtc\<close>); \<open>gmtime_r\<close> and
  \<open>mktime\<close> of the C library are modelled for the times the code passes to them: non-negative
  \<open>time_t\<close> (64 bit) and calendar fields from the year 2000 on, in UTC.
\<close>

section \<open>The C library calendar\<close>

record tm =
  tm_sec :: int
  tm_min :: int
  tm_hour :: int
  tm_mday :: int
  tm_mon :: int
  tm_year :: int
  tm_wday :: int

definition leap :: "nat \<Rightarrow> bool" where
  "leap y \<longleftrightarrow> 4 dvd y \<and> (\<not> 100 dvd y \<or> 400 dvd y)"

definition year_len :: "nat \<Rightarrow> nat" where
  "year_len y = (if leap y then 366 else 365)"

definition month_lens :: "nat \<Rightarrow> nat list" where
  "month_lens y = [31, if leap y then 29 else 28, 31, 30, 31, 30, 31, 31, 30, 31, 30, 31]"

text \<open>Split a day count into a year (or a month) and the days left over.\<close>

function split_year :: "nat \<Rightarrow> nat \<Rightarrow> nat \<times> nat" where
  "split_year y d = (if d < year_len y then (y, d) else split_year (Suc y) (d - year_len y))"
  by pat_completeness auto
termination
  by (relation "measure snd") (auto simp: year_len_def split: if_splits)

declare split_year.simps [simp del]

fun split_month :: "nat \<Rightarrow> nat list \<Rightarrow> nat \<Rightarrow> nat \<times> nat" where
  "split_month m [] d = (m, d)"
| "split_month m (l # ls) d = (if d < l then (m, d) else split_month (Suc m) ls (d - l))"

definition gmtime_r :: "nat \<Rightarrow> tm option" where
  "gmtime_r t =
     (let days = t div 86400; s = t mod 86400;
          (y, yd) = split_year 1970 days;
          (m, md) = split_month 0 (month_lens y) yd
      in Some \<lparr>tm_sec = int (s mod 60), tm_min = int (s div 60 mod 60), tm_hour = int (s div 3600),
           tm_mday = int md + 1, tm_mon = int m, tm_year = int y - 1900,
           tm_wday = int ((days + 4) mod 7)\<rparr>)"

text \<open>\<open>mktime\<close> folds a month outside 0 .. 11 into the year and adds up the other fields.\<close>

definition mktime :: "tm \<Rightarrow> int" where
  "mktime t =
     (let y = nat (1900 + tm_year t + tm_mon t div 12); m = nat (tm_mon t mod 12)
      in (int (sum_list (map year_len [1970..<y])) + int (sum_list (take m (month_lens y)))
          + tm_mday t - 1) * 86400 + tm_hour t * 3600 + tm_min t * 60 + tm_sec t)"

section \<open>The clock (time.c)\<close>

definition TS_MIN :: int where [hub_defs]: "TS_MIN = 946684800"
definition TS_MAX :: int where [hub_defs]: "TS_MAX = 4102444800"

definition ts_in_range :: "int \<Rightarrow> bool" where
  "ts_in_range t \<longleftrightarrow> t \<ge> TS_MIN \<and> t < TS_MAX"

record rtc_time =
  Hours :: u8
  Minutes :: u8
  Seconds :: u8

record rtc_date =
  WeekDay :: u8
  Month :: u8
  Date :: u8
  Year :: u8

text \<open>
  The HAL and kernel services used here. A call that returns \<open>HAL_OK\<close> or not is a Boolean; a getter
  that may fail returns an option.
\<close>

record 'w hal_rtc =
  hal_rtc_set_time :: "rtc_time \<Rightarrow> 'w \<Rightarrow> bool \<times> 'w"
  hal_rtc_set_date :: "rtc_date \<Rightarrow> 'w \<Rightarrow> bool \<times> 'w"
  hal_rtc_get_time :: "'w \<Rightarrow> rtc_time option \<times> 'w"
  hal_rtc_get_date :: "'w \<Rightarrow> rtc_date option \<times> 'w"
  hal_rtc_source_lse :: "'w \<Rightarrow> bool"
  hal_backup_reset :: "'w \<Rightarrow> 'w"
  hal_lse_on :: "'w \<Rightarrow> bool \<times> 'w"
  hal_rtc_init :: "'w \<Rightarrow> bool \<times> 'w"
  hal_bkup_read :: "'w \<Rightarrow> u32"
  hal_bkup_write :: "u32 \<Rightarrow> 'w \<Rightarrow> 'w"
  hal_tick :: "'w \<Rightarrow> u32"

record time_st =
  rtc_ready :: bool
  epoch_cache :: u32
  second_tick :: u32

definition RTC_BKP_MAGIC :: u32 where [hub_defs]: "RTC_BKP_MAGIC = 0x54494D45"
definition configTICK_RATE_HZ :: u32 where [hub_defs]: "configTICK_RATE_HZ = 1000"

definition time_tick_cb :: "'w hal_rtc \<Rightarrow> time_st \<Rightarrow> 'w \<Rightarrow> time_st" where
  "time_tick_cb H st w = st\<lparr>second_tick := hal_tick H w, epoch_cache := epoch_cache st + 1\<rparr>"

definition io_now_epoch :: "time_st \<Rightarrow> u32" where
  "io_now_epoch st = epoch_cache st"

definition io_now_ms :: "'w hal_rtc \<Rightarrow> time_st \<Rightarrow> 'w \<Rightarrow> u32" where
  "io_now_ms H st w = ((hal_tick H w - second_tick st) * 1000 div configTICK_RATE_HZ) mod 1000"

text \<open>The two structures that \<open>set_timestamp\<close> fills from the broken-down time.\<close>

definition rtc_time_of :: "tm \<Rightarrow> rtc_time" where
  "rtc_time_of t = \<lparr>Hours = of_int (tm_hour t), Minutes = of_int (tm_min t), Seconds = of_int (tm_sec t)\<rparr>"

definition rtc_date_of :: "tm \<Rightarrow> rtc_date" where
  "rtc_date_of t = \<lparr>WeekDay = (if tm_wday t = 0 then 7 else of_int (tm_wday t)),
     Month = of_int (tm_mon t + 1), Date = of_int (tm_mday t), Year = of_int (tm_year t - 100)\<rparr>"

definition set_timestamp :: "'w hal_rtc \<Rightarrow> int \<Rightarrow> time_st \<Rightarrow> 'w \<Rightarrow> bool \<times> time_st \<times> 'w" where
  "set_timestamp H t st w =
     (if \<not> rtc_ready st then (False, st, w)
      else if \<not> ts_in_range t then (False, st, w)
      else (case gmtime_r (nat t) of
          None \<Rightarrow> (False, st, w)
        | Some tm \<Rightarrow>
            (case hal_rtc_set_time H (rtc_time_of tm) w of
               (False, w) \<Rightarrow> (False, st, w)
             | (True, w) \<Rightarrow>
                 (case hal_rtc_set_date H (rtc_date_of tm) w of
                    (False, w) \<Rightarrow> (False, st, w)
                  | (True, w) \<Rightarrow>
                      (True, st\<lparr>epoch_cache := of_int t, second_tick := hal_tick H w\<rparr>, w)))))"

text \<open>The structure that \<open>rtc_read_epoch\<close> fills from the RTC registers.\<close>

definition tm_of_rtc :: "rtc_time \<Rightarrow> rtc_date \<Rightarrow> tm" where
  "tm_of_rtc t d = \<lparr>tm_sec = uint (Seconds t), tm_min = uint (Minutes t), tm_hour = uint (Hours t),
     tm_mday = uint (Date d), tm_mon = uint (Month d) - 1, tm_year = uint (Year d) + 100, tm_wday = 0\<rparr>"

definition rtc_read_epoch :: "'w hal_rtc \<Rightarrow> 'w \<Rightarrow> u32 option \<times> 'w" where
  "rtc_read_epoch H w =
     (case hal_rtc_get_time H w of
        (None, w) \<Rightarrow> (None, w)
      | (Some rt, w) \<Rightarrow>
          (case hal_rtc_get_date H w of
             (None, w) \<Rightarrow> (None, w)
           | (Some rd, w) \<Rightarrow>
               let t = mktime (tm_of_rtc rt rd)
               in if t = - 1 \<or> \<not> ts_in_range t then (None, w) else (Some (of_int t), w)))"

text \<open>
  \<open>rtc_bringup\<close> returns \<open>Some epoch\<close> when the RTC is usable (\<open>true\<close> with \<open>*out\<close> set).
\<close>

definition rtc_default_date :: rtc_date where
  "rtc_default_date = \<lparr>WeekDay = 3, Month = 1, Date = 1, Year = 20\<rparr>"

definition rtc_write_default :: "'w hal_rtc \<Rightarrow> 'w \<Rightarrow> 'w" where
  "rtc_write_default H w =
     (case hal_rtc_set_time H \<lparr>Hours = 0, Minutes = 0, Seconds = 0\<rparr> w of
        (False, w) \<Rightarrow> w
      | (True, w) \<Rightarrow>
          (case hal_rtc_set_date H rtc_default_date w of
             (False, w) \<Rightarrow> w
           | (True, w) \<Rightarrow> hal_bkup_write H RTC_BKP_MAGIC w))"

definition rtc_bringup :: "'w hal_rtc \<Rightarrow> 'w \<Rightarrow> u32 option \<times> 'w" where
  "rtc_bringup H w =
     (let w = (if \<not> hal_rtc_source_lse H w then hal_backup_reset H w else w) in
      case hal_lse_on H w of
        (False, w) \<Rightarrow> (None, w)
      | (True, w) \<Rightarrow>
          (case hal_rtc_init H w of
             (False, w) \<Rightarrow> (None, w)
           | (True, w) \<Rightarrow>
               let w = (if hal_bkup_read H w \<noteq> RTC_BKP_MAGIC then rtc_write_default H w else w)
               in (case rtc_read_epoch H w of
                     (None, w) \<Rightarrow> (Some 0, w)
                   | (Some e, w) \<Rightarrow> (Some e, w))))"

text \<open>The flag is a static, false at power-up; only a complete bring-up sets it.\<close>

definition io_time_init :: "'w hal_rtc \<Rightarrow> 'w \<Rightarrow> time_st \<times> 'w" where
  "io_time_init H w =
     (case rtc_bringup H w of
        (None, w) \<Rightarrow> (\<lparr>rtc_ready = False, epoch_cache = 0, second_tick = hal_tick H w\<rparr>, w)
      | (Some e, w) \<Rightarrow> (\<lparr>rtc_ready = True, epoch_cache = e, second_tick = hal_tick H w\<rparr>, w))"

section \<open>The calendar is inverted by mktime\<close>

lemma split_year_spec:
  "split_year y d = (y', d') \<Longrightarrow>
     y \<le> y' \<and> d' < year_len y' \<and> d = sum_list (map year_len [y..<y']) + d'"
proof (induction y d rule: split_year.induct)
  case (1 y d)
  show ?case
  proof (cases "d < year_len y")
    case True
    then show ?thesis using "1.prems" by (simp add: split_year.simps [of y d])
  next
    case False
    then have "split_year (Suc y) (d - year_len y) = (y', d')"
      using "1.prems" by (simp add: split_year.simps [of y d])
    with "1.IH" [OF False] False show ?thesis by (auto simp: upt_conv_Cons)
  qed
qed

lemma split_month_spec:
  "d < sum_list ls \<Longrightarrow> split_month m ls d = (m', d') \<Longrightarrow>
     m \<le> m' \<and> m' < m + length ls \<and> d' < ls ! (m' - m) \<and> d = sum_list (take (m' - m) ls) + d'"
proof (induction m ls d rule: split_month.induct)
  case (2 m l ls d)
  show ?case
  proof (cases "d < l")
    case False
    then have "d - l < sum_list ls" "split_month (Suc m) ls (d - l) = (m', d')"
      using "2.prems" by auto
    with "2.IH" [OF False] have "Suc m \<le> m'" "m' < Suc m + length ls" "d' < ls ! (m' - Suc m)"
      "d - l = sum_list (take (m' - Suc m) ls) + d'" by auto
    moreover obtain k where "m' = Suc (m + k)" using \<open>Suc m \<le> m'\<close> by (auto simp: le_iff_add)
    ultimately show ?thesis using False by (simp add: Suc_diff_le)
  qed (use "2.prems" in auto)
qed simp

lemma sum_month_lens: "sum_list (month_lens y) = year_len y"
  by (simp add: month_lens_def year_len_def)

lemma month_lens_le: "m < 12 \<Longrightarrow> month_lens y ! m \<le> 31"
  by (auto simp: month_lens_def nth_Cons numeral_eq_Suc less_Suc_eq split: nat.splits)

text \<open>The fields of a broken-down time, and the time they add up to.\<close>

lemma gmtime_fields:
  obtains y m md where "gmtime_r t = Some \<lparr>tm_sec = int (t mod 86400 mod 60),
      tm_min = int (t mod 86400 div 60 mod 60), tm_hour = int (t mod 86400 div 3600),
      tm_mday = int md + 1, tm_mon = int m, tm_year = int y - 1900,
      tm_wday = int ((t div 86400 + 4) mod 7)\<rparr>"
    and "1970 \<le> y" "m < 12" "md < 31" "sum_list (take m (month_lens y)) + md < year_len y"
    and "t div 86400 = sum_list (map year_len [1970..<y]) + sum_list (take m (month_lens y)) + md"
proof -
  obtain y yd where y: "split_year 1970 (t div 86400) = (y, yd)" by fastforce
  obtain m md where m: "split_month 0 (month_lens y) yd = (m, md)" by fastforce
  note ys = split_year_spec [OF y]
  have "yd < sum_list (month_lens y)" using ys by (simp add: sum_month_lens)
  from split_month_spec [OF this m] have ms: "m < 12" "md < month_lens y ! m"
    "yd = sum_list (take m (month_lens y)) + md" by (auto simp: month_lens_def)
  have "md < 31" using ms(2) month_lens_le [OF ms(1), of y] by simp
  have g: "gmtime_r t = Some \<lparr>tm_sec = int (t mod 86400 mod 60),
      tm_min = int (t mod 86400 div 60 mod 60), tm_hour = int (t mod 86400 div 3600),
      tm_mday = int md + 1, tm_mon = int m, tm_year = int y - 1900,
      tm_wday = int ((t div 86400 + 4) mod 7)\<rparr>"
    by (simp only: gmtime_r_def Let_def y m prod.case)
  show thesis by (rule that [OF g]) (use ys ms \<open>md < 31\<close> in simp_all)
qed

text \<open>What \<open>mktime\<close> adds up, for fields with the month in range.\<close>

lemma mktime_fields:
  assumes "m < 12"
  shows "mktime \<lparr>tm_sec = a, tm_min = b, tm_hour = c, tm_mday = int md + 1, tm_mon = int m,
      tm_year = int y - 1900, tm_wday = wd\<rparr> =
    int (sum_list (map year_len [1970..<y]) + sum_list (take m (month_lens y)) + md) * 86400
      + c * 3600 + b * 60 + a"
proof -
  have "int m div 12 = 0" "nat (int m mod 12) = m" using assms by (simp_all add: nat_mod_as_int)
  then show ?thesis by (simp add: mktime_def)
qed

lemma day_seconds: "(s :: nat) div 3600 * 3600 + s div 60 mod 60 * 60 + s mod 60 = s"
proof -
  have "s div 3600 = s div 60 div 60" by (simp add: div_mult2_eq [symmetric])
  moreover have "s div 60 div 60 * 60 + s div 60 mod 60 = s div 60" "s div 60 * 60 + s mod 60 = s"
    by (rule div_mult_mod_eq)+
  ultimately show ?thesis by linarith
qed

lemma mktime_day_fields:
  assumes "m < 12"
    and "t div 86400 = sum_list (map year_len [1970..<y]) + sum_list (take m (month_lens y)) + md"
  shows "mktime \<lparr>tm_sec = int (t mod 86400 mod 60), tm_min = int (t mod 86400 div 60 mod 60),
      tm_hour = int (t mod 86400 div 3600), tm_mday = int md + 1, tm_mon = int m,
      tm_year = int y - 1900, tm_wday = wd\<rparr> = int t"
proof -
  have "int (t div 86400) * 86400 + int (t mod 86400 div 3600) * 3600
      + int (t mod 86400 div 60 mod 60) * 60 + int (t mod 86400 mod 60)
    = int (t div 86400 * 86400 + (t mod 86400 div 3600 * 3600
      + t mod 86400 div 60 mod 60 * 60 + t mod 86400 mod 60))"
    by (simp only: of_nat_add of_nat_mult of_nat_numeral add.assoc)
  also have "\<dots> = int t" by (simp only: day_seconds div_mult_mod_eq)
  finally show ?thesis unfolding mktime_fields [OF assms(1)] assms(2) [symmetric] .
qed

lemma mktime_gmtime:
  assumes "gmtime_r t = Some tm"
  shows "mktime tm = int t"
proof -
  obtain y m md where g: "gmtime_r t = Some \<lparr>tm_sec = int (t mod 86400 mod 60),
      tm_min = int (t mod 86400 div 60 mod 60), tm_hour = int (t mod 86400 div 3600),
      tm_mday = int md + 1, tm_mon = int m, tm_year = int y - 1900,
      tm_wday = int ((t div 86400 + 4) mod 7)\<rparr>"
    and m: "m < 12"
    and days: "t div 86400 = sum_list (map year_len [1970..<y]) + sum_list (take m (month_lens y)) + md"
    by (rule gmtime_fields)
  have "tm = \<lparr>tm_sec = int (t mod 86400 mod 60),
      tm_min = int (t mod 86400 div 60 mod 60), tm_hour = int (t mod 86400 div 3600),
      tm_mday = int md + 1, tm_mon = int m, tm_year = int y - 1900,
      tm_wday = int ((t div 86400 + 4) mod 7)\<rparr>"
    using assms unfolding g by (rule sym [OF option.inject [THEN iffD1]])
  then show ?thesis by (simp only: mktime_day_fields [OF m days])
qed

section \<open>The RTC holds every time the device accepts\<close>

definition year_days :: "nat \<Rightarrow> nat" where
  "year_days y = sum_list (map year_len [1970..<y])"

lemma year_days_mono: "y \<le> y' \<Longrightarrow> year_days y \<le> year_days y'"
proof (induction y' rule: nat_induct)
  case (Suc n)
  then show ?case by (cases "y \<le> n") (auto simp: year_days_def le_Suc_eq)
qed (simp add: year_days_def)

lemma year_days_Suc: "1970 \<le> y \<Longrightarrow> year_days (Suc y) = year_days y + year_len y"
  by (simp add: year_days_def)

lemma year_days_2000: "year_days 2000 = 10957"
  by (simp add: year_days_def upt_rec_numeral year_len_def leap_def)

lemma year_days_2100: "year_days 2100 = 47482"
  by (simp add: year_days_def upt_rec_numeral year_len_def leap_def)

lemma year_in_range:
  assumes "ts_in_range t" and y: "1970 \<le> y"
    and days: "nat t div 86400 = year_days y + yd" and "yd < year_len y"
  shows "2000 \<le> y" and "y < 2100"
proof -
  have d: "10957 \<le> nat t div 86400" "nat t div 86400 < 47482"
    using assms(1) by (auto simp: ts_in_range_def hub_defs)
  show "y < 2100"
  proof (rule ccontr)
    assume "\<not> y < 2100"
    then have "47482 \<le> year_days y" using year_days_mono [of 2100 y] by (simp add: year_days_2100)
    then show False using d days by simp
  qed
  show "2000 \<le> y"
  proof (rule ccontr)
    assume "\<not> 2000 \<le> y"
    then have "year_days (Suc y) \<le> 10957"
      using year_days_mono [of "Suc y" 2000] by (simp add: year_days_2000)
    then show False using d days assms(4) year_days_Suc [OF y] by simp
  qed
qed

lemma uint_u8: "0 \<le> x \<Longrightarrow> x < 256 \<Longrightarrow> uint (of_int x :: u8) = x"
  by (simp add: uint_word_of_int)

text \<open>Fields in range survive the byte-wide RTC registers.\<close>

lemma tm_of_rtc_fields:
  fixes sec mn hr md m y :: nat
  assumes "sec < 60" "mn < 60" "hr < 24" "md < 31" "m < 12" "2000 \<le> y" "y < 2100"
    and "tm = \<lparr>tm_sec = int sec, tm_min = int mn, tm_hour = int hr, tm_mday = int md + 1,
      tm_mon = int m, tm_year = int y - 1900, tm_wday = wd\<rparr>"
  shows "tm_of_rtc (rtc_time_of tm) (rtc_date_of tm) = \<lparr>tm_sec = int sec, tm_min = int mn,
      tm_hour = int hr, tm_mday = int md + 1, tm_mon = int m, tm_year = int y - 1900, tm_wday = 0\<rparr>"
  using assms by (simp add: tm_of_rtc_def rtc_time_of_def rtc_date_of_def uint_u8 del: of_int_of_nat_eq
      of_int_add of_int_diff)

lemma rtc_roundtrip:
  assumes r: "ts_in_range t" and "gmtime_r (nat t) = Some tm"
  shows "mktime (tm_of_rtc (rtc_time_of tm) (rtc_date_of tm)) = t"
proof -
  let ?n = "nat t"
  obtain y m md where g: "gmtime_r ?n = Some \<lparr>tm_sec = int (?n mod 86400 mod 60),
      tm_min = int (?n mod 86400 div 60 mod 60), tm_hour = int (?n mod 86400 div 3600),
      tm_mday = int md + 1, tm_mon = int m, tm_year = int y - 1900,
      tm_wday = int ((?n div 86400 + 4) mod 7)\<rparr>"
    and y: "1970 \<le> y" and m: "m < 12" and md: "md < 31"
    and yd: "sum_list (take m (month_lens y)) + md < year_len y"
    and days: "?n div 86400 = sum_list (map year_len [1970..<y]) + sum_list (take m (month_lens y)) + md"
    by (rule gmtime_fields)
  have "?n div 86400 = year_days y + (sum_list (take m (month_lens y)) + md)"
    using days by (simp only: year_days_def add.assoc)
  note yr = year_in_range [OF r y this yd]
  have hr: "?n mod 86400 div 3600 < 24"
    using mod_less_divisor [of 86400 "?n"] by (simp add: div_less_iff_less_mult)
  have "tm = \<lparr>tm_sec = int (?n mod 86400 mod 60),
      tm_min = int (?n mod 86400 div 60 mod 60), tm_hour = int (?n mod 86400 div 3600),
      tm_mday = int md + 1, tm_mon = int m, tm_year = int y - 1900,
      tm_wday = int ((?n div 86400 + 4) mod 7)\<rparr>"
    using assms(2) unfolding g by (rule sym [OF option.inject [THEN iffD1]])
  then have "tm_of_rtc (rtc_time_of tm) (rtc_date_of tm) = \<lparr>tm_sec = int (?n mod 86400 mod 60),
      tm_min = int (?n mod 86400 div 60 mod 60), tm_hour = int (?n mod 86400 div 3600),
      tm_mday = int md + 1, tm_mon = int m, tm_year = int y - 1900, tm_wday = 0\<rparr>"
    by (intro tm_of_rtc_fields) (use hr md m yr in simp_all)
  then have "mktime (tm_of_rtc (rtc_time_of tm) (rtc_date_of tm)) = int ?n"
    by (simp only: mktime_day_fields [OF m days])
  then show ?thesis using r by (simp add: ts_in_range_def hub_defs)
qed

lemma gmtime_total: "\<exists>tm. gmtime_r t = Some tm"
  by (rule gmtime_fields [of t]) blast

text \<open>
  The HAL's documented behaviour: registers written by two successful setters are what the getters,
  called in the order time then date, return next.
\<close>

definition rtc_keeps :: "'w hal_rtc \<Rightarrow> bool" where
  "rtc_keeps H \<longleftrightarrow> (\<forall>t d w w1 w2. hal_rtc_set_time H t w = (True, w1) \<longrightarrow>
     hal_rtc_set_date H d w1 = (True, w2) \<longrightarrow>
     (\<exists>w3 w4. hal_rtc_get_time H w2 = (Some t, w3) \<and> hal_rtc_get_date H w3 = (Some d, w4)))"

definition ram_rtc :: "(rtc_time \<times> rtc_date) hal_rtc" where
  "ram_rtc = \<lparr>hal_rtc_set_time = \<lambda>t w. (True, (t, snd w)), hal_rtc_set_date = \<lambda>d w. (True, (fst w, d)),
     hal_rtc_get_time = \<lambda>w. (Some (fst w), w), hal_rtc_get_date = \<lambda>w. (Some (snd w), w),
     hal_rtc_source_lse = \<lambda>w. True, hal_backup_reset = \<lambda>w. w, hal_lse_on = \<lambda>w. (True, w),
     hal_rtc_init = \<lambda>w. (True, w), hal_bkup_read = \<lambda>w. RTC_BKP_MAGIC, hal_bkup_write = \<lambda>v w. w,
     hal_tick = \<lambda>w. 42\<rparr>"

lemma ram_rtc_keeps: "rtc_keeps ram_rtc"
  by (simp add: rtc_keeps_def ram_rtc_def)

lemma set_timestamp_kept:
  assumes keeps: "rtc_keeps H"
    and set: "set_timestamp H t st w = (ok, st', w')"
  shows "if ok then ts_in_range t \<and> rtc_ready st' \<and> uint (io_now_epoch st') = t \<and> fst (rtc_read_epoch H w') = Some (io_now_epoch st') else st' = st"
proof (cases ok)
  case False
  then show ?thesis using set by (auto simp: set_timestamp_def split: if_splits option.splits prod.splits bool.splits)
next
  case True
  then obtain tm w1 where g: "gmtime_r (nat t) = Some tm" and r: "rtc_ready st" "ts_in_range t"
    and w1: "hal_rtc_set_time H (rtc_time_of tm) w = (True, w1)"
    and w2: "hal_rtc_set_date H (rtc_date_of tm) w1 = (True, w')"
    and st': "st' = st\<lparr>epoch_cache := of_int t, second_tick := hal_tick H w'\<rparr>"
    using set by (auto simp: set_timestamp_def split: if_splits option.splits prod.splits bool.splits)
  obtain w3 w4 where "hal_rtc_get_time H w' = (Some (rtc_time_of tm), w3)"
    "hal_rtc_get_date H w3 = (Some (rtc_date_of tm), w4)"
    using keeps w1 w2 unfolding rtc_keeps_def by blast
  moreover have "t \<noteq> - 1" using r by (auto simp: ts_in_range_def hub_defs)
  ultimately have "fst (rtc_read_epoch H w') = Some (of_int t)"
    using rtc_roundtrip [OF r(2) g] r(2) by (simp add: rtc_read_epoch_def)
  moreover have "uint (of_int t :: u32) = t"
    using r(2) by (simp add: uint_word_of_int ts_in_range_def hub_defs)
  ultimately show ?thesis using True r st' by (simp add: io_now_epoch_def)
qed

lemma set_timestamp_refused:
  "set_timestamp H t st w = (ok, st', w') \<Longrightarrow> \<not> rtc_ready st \<or> \<not> ts_in_range t \<longrightarrow> \<not> ok \<and> w' = w"
  by (auto simp: set_timestamp_def split: if_splits)

lemma set_timestamp_accepted:
  assumes "set_timestamp H t st w = (ok, st', w')"
  shows "(\<forall>x v. fst (hal_rtc_set_time H x v)) \<and> (\<forall>x v. fst (hal_rtc_set_date H x v)) \<longrightarrow> (ok \<longleftrightarrow> rtc_ready st \<and> ts_in_range t)"
proof -
  obtain tm where "gmtime_r (nat t) = Some tm" using gmtime_total by blast
  then show ?thesis using assms
    by (auto simp: set_timestamp_def split: if_splits prod.splits bool.splits) (metis fst_conv)+
qed

text \<open>
  (C39) A time that was set is the time the clock shows, and reading the RTC back through its byte-wide calendar
  registers (\<open>rtc_read_epoch\<close>, the path used at the next start) gives the same second. A time outside 2000 .. 2099, or any time
  while the RTC is not ready, is refused before anything is written: clock and RTC are unchanged. A call that is refused because the
  RTC does not accept the values leaves the running clock as it was (the RTC may have taken the time of day and not the date). As long as
  the RTC accepts what it is given, the times that are accepted are exactly those in the range.
\<close>

theorem set_timestamp_reads_back:
  assumes keeps: "rtc_keeps H"
    and set: "set_timestamp H t st w = (ok, st', w')"
  shows "(if ok then ts_in_range t \<and> rtc_ready st' \<and> uint (io_now_epoch st') = t \<and> fst (rtc_read_epoch H w') = Some (io_now_epoch st') else st' = st)
    \<and> (\<not> rtc_ready st \<or> \<not> ts_in_range t \<longrightarrow> \<not> ok \<and> w' = w)
    \<and> ((\<forall>x v. fst (hal_rtc_set_time H x v)) \<and> (\<forall>x v. fst (hal_rtc_set_date H x v)) \<longrightarrow> (ok \<longleftrightarrow> rtc_ready st \<and> ts_in_range t))"
  using set_timestamp_kept [OF assms] set_timestamp_refused [OF set] set_timestamp_accepted [OF set] by blast

theorem set_timestamp_reads_back_witness:
  "\<exists>st' w'. set_timestamp ram_rtc 1709210096 \<lparr>rtc_ready = True, epoch_cache = 0, second_tick = 0\<rparr>
       (\<lparr>Hours = 0, Minutes = 0, Seconds = 0\<rparr>, rtc_default_date) = (True, st', w')
     \<and> uint (io_now_epoch st') = 1709210096 \<and> fst (rtc_read_epoch ram_rtc w') = Some (io_now_epoch st')"
proof -
  let ?st = "\<lparr>rtc_ready = True, epoch_cache = 0, second_tick = 0\<rparr>"
  let ?w = "(\<lparr>Hours = 0, Minutes = 0, Seconds = 0\<rparr>, rtc_default_date)"
  obtain tm where "gmtime_r (nat 1709210096) = Some tm" using gmtime_total by blast
  then obtain st' w' where s: "set_timestamp ram_rtc 1709210096 ?st ?w = (True, st', w')"
    by (simp add: set_timestamp_def ts_in_range_def hub_defs ram_rtc_def)
  with set_timestamp_reads_back [OF ram_rtc_keeps s] show ?thesis by simp
qed

text \<open>
  The sub-second part of the log clock stays within a second, however late the 1 Hz timer
  fires and across wrap-around of the tick counter.
\<close>

lemma io_now_ms_bound: "unat (io_now_ms H st w) < 1000"
proof -
  have "io_now_ms H st w < 1000"
    unfolding io_now_ms_def by (simp add: word_less_nat_alt unat_mod)
  then show ?thesis by (simp add: word_less_nat_alt)
qed

end
