(* ===== verification/History_File.thy ===== *)
theory History_File
  imports Bytes_Crc Sys_Time "HOL-Library.List_Lexorder" "HOL-Library.Char_ord" "HOL-Library.Multiset"
begin

unbundle bit_operations_syntax

text \<open>
  \<open>src/history/history_file.c\<close>: naming, rotation, retention and appending of the history files.
  littlefs is a parameter (record \<open>lfs_ops\<close>); a file object is named by the static variable that
  holds it. \<open>strcmp\<close> compares bytes as unsigned, which is the lexicographic order on char lists.
\<close>

section \<open>Records (init.h)\<close>

definition DI_TYPE :: u16 where [hub_defs]: "DI_TYPE = 1"
definition AI_TYPE :: u16 where [hub_defs]: "AI_TYPE = 2"
definition DI_NUM :: nat where [hub_defs]: "DI_NUM = 16"
definition DO_NUM :: nat where [hub_defs]: "DO_NUM = 8"
definition AI_NUM :: nat where [hub_defs]: "AI_NUM = 4"

text \<open>
  \<open>struct his_data\<close>: the union is its five half-words; \<open>di\<close> is the first two of them and \<open>ai\<close> all
  five.
\<close>

record his_data =
  his_type :: u16
  timestamps :: u32
  his_union :: "u16 list"

definition wf_his :: "his_data \<Rightarrow> bool" where
  "wf_his d \<longleftrightarrow> length (his_union d) = 5"

definition le16_bytes :: "u16 \<Rightarrow> u8 list" where
  "le16_bytes v = [ucast v, ucast (drop_bit 8 v)]"

text \<open>The packed structure in memory (little endian).\<close>

definition his_bytes :: "his_data \<Rightarrow> u8 list" where
  "his_bytes d = le16_bytes (his_type d) @ io_put_le32 (timestamps d) @ concat (map le16_bytes (his_union d))"

definition di_record :: "u32 \<Rightarrow> u16 \<Rightarrow> u16 \<Rightarrow> his_data" where
  "di_record t en val = \<lparr>his_type = DI_TYPE, timestamps = t, his_union = [en, val, 0, 0, 0]\<rparr>"

definition ai_record :: "u32 \<Rightarrow> u16 \<Rightarrow> u16 list \<Rightarrow> his_data" where
  "ai_record t en vals = \<lparr>his_type = AI_TYPE, timestamps = t, his_union = en # vals\<rparr>"

section \<open>littlefs as the code uses it\<close>

datatype lfs_fp = his_fp | web_fp

record lfs_info =
  li_reg :: bool
  li_name :: string
  li_size :: u32

record lfs_flags =
  o_wronly :: bool
  o_append :: bool
  o_creat :: bool

text \<open>
  Return codes are kept as \<open>int\<close>. \<open>lfs_dir_list\<close> stands for \<open>lfs_dir_open\<close>, the loop of \<open>lfs_dir_read\<close>
  while it returns a positive value, and \<open>lfs_dir_close\<close>: \<open>None\<close> when the directory does not open.
\<close>

record 'w lfs_ops =
  lfs_dir_list :: "string \<Rightarrow> 'w \<Rightarrow> lfs_info list option \<times> 'w"
  lfs_file_open :: "lfs_fp \<Rightarrow> string \<Rightarrow> lfs_flags \<Rightarrow> 'w \<Rightarrow> int \<times> 'w"
  lfs_file_size :: "lfs_fp \<Rightarrow> 'w \<Rightarrow> int \<times> 'w"
  lfs_file_write :: "lfs_fp \<Rightarrow> u8 list \<Rightarrow> 'w \<Rightarrow> int \<times> 'w"
  lfs_file_read :: "lfs_fp \<Rightarrow> nat \<Rightarrow> 'w \<Rightarrow> (int \<times> u8 list) \<times> 'w"
  lfs_file_sync :: "lfs_fp \<Rightarrow> 'w \<Rightarrow> int \<times> 'w"
  lfs_file_close :: "lfs_fp \<Rightarrow> 'w \<Rightarrow> int \<times> 'w"
  lfs_remove :: "string \<Rightarrow> 'w \<Rightarrow> int \<times> 'w"

section \<open>State and operations\<close>

definition HIST_MAX_FILES :: nat where [hub_defs]: "HIST_MAX_FILES = 10"
definition HIST_FILE_MAX :: u32 where [hub_defs]: "HIST_FILE_MAX = 1024 * 1024"
definition NAME_CAP :: nat where [hub_defs]: "NAME_CAP = 24"

record hist_file_st =
  his_lfs :: bool
  his_fp_open :: bool
  his_cur_size :: u32
  his_cur_name :: string

definition is_data_file :: "lfs_info \<Rightarrow> bool" where
  "is_data_file i \<longleftrightarrow> li_reg i \<and> take 5 (li_name i) = ''data_''"

text \<open>The names \<open>cleanup_old_files\<close> collects: at most twelve, each cut to 23 characters.\<close>

definition collect_names :: "lfs_info list \<Rightarrow> string list" where
  "collect_names is = take (HIST_MAX_FILES + 2) (map (\<lambda>i. take (NAME_CAP - 1) (li_name i)) (filter is_data_file is))"

definition min_index :: "string list \<Rightarrow> nat" where
  "min_index names = foldl (\<lambda>mi i. if names ! i < names ! mi then i else mi) 0 [1..<length names]"

function rotate_out :: "'w lfs_ops \<Rightarrow> string list \<Rightarrow> 'w \<Rightarrow> 'w" where
  "rotate_out L names w =
     (if length names > HIST_MAX_FILES then
        let mi = min_index names; w = snd (lfs_remove L (names ! mi) w)
        in rotate_out L (butlast (names[mi := last names])) w
      else w)"
  by pat_completeness auto
termination
  by (relation "measure (\<lambda>(L, names, w). length names)") (auto simp: hub_defs)

declare rotate_out.simps [simp del]

definition cleanup_old_files :: "'w lfs_ops \<Rightarrow> 'w \<Rightarrow> 'w" where
  "cleanup_old_files L w =
     (case lfs_dir_list L ''/'' w of
        (None, w) \<Rightarrow> w
      | (Some is, w) \<Rightarrow> rotate_out L (collect_names is) w)"

definition clamp :: "int \<Rightarrow> int \<Rightarrow> int \<Rightarrow> int" where
  "clamp v lo hi = (if v < lo then lo else if v > hi then hi else v)"

text \<open>\<open>%02d\<close> for the clamped values, which have at most two digits.\<close>

definition pr02 :: "int \<Rightarrow> string" where
  "pr02 v = [char_of (48 + nat v div 10), char_of (48 + nat v mod 10)]"

definition make_hist_name :: "u32 \<Rightarrow> string" where
  "make_hist_name clock =
     (case gmtime_r (unat clock + 8 * 3600) of
        None \<Rightarrow> ''data_0101_000000.raw''
      | Some lt \<Rightarrow>
          ''data_'' @ pr02 (clamp (tm_mon lt + 1) 1 12) @ pr02 (clamp (tm_mday lt) 1 31) @ ''_''
            @ pr02 (clamp (tm_hour lt) 0 23) @ pr02 (clamp (tm_min lt) 0 59)
            @ pr02 (clamp (tm_sec lt) 0 59) @ ''.raw'')"

definition open_append ::
    "'w lfs_ops \<Rightarrow> string \<Rightarrow> bool \<Rightarrow> hist_file_st \<Rightarrow> 'w \<Rightarrow> bool \<times> hist_file_st \<times> 'w" where
  "open_append L name create st w =
     (case lfs_file_open L his_fp name \<lparr>o_wronly = True, o_append = True, o_creat = create\<rparr> w of (rc, w) \<Rightarrow>
      if rc \<noteq> 0 then (False, st, w)
      else (case lfs_file_size L his_fp w of (sz, w) \<Rightarrow>
            if sz < 0 then (False, st, snd (lfs_file_close L his_fp w))
            else (True, st\<lparr>his_cur_size := of_int sz, his_fp_open := True\<rparr>, w)))"

definition close_cur_file :: "'w lfs_ops \<Rightarrow> hist_file_st \<Rightarrow> 'w \<Rightarrow> hist_file_st \<times> 'w" where
  "close_cur_file L st w =
     (if his_fp_open st then (st\<lparr>his_fp_open := False\<rparr>, snd (lfs_file_close L his_fp w)) else (st, w))"

text \<open>The scan for the newest name.\<close>

definition latest_name :: "lfs_info list \<Rightarrow> string" where
  "latest_name is = foldl (\<lambda>latest i. if is_data_file i \<and> li_name i > latest
       then take (NAME_CAP - 1) (li_name i) else latest) '''' is"

text \<open>The three ways of \<open>ensure_file\<close>: resume, adopt the newest file, create.\<close>

definition resume_file :: "'w lfs_ops \<Rightarrow> hist_file_st \<Rightarrow> 'w \<Rightarrow> bool \<times> hist_file_st \<times> 'w" where
  "resume_file L st w =
     (if his_cur_name st \<noteq> '''' \<and> his_cur_size st < HIST_FILE_MAX then
        (case open_append L (his_cur_name st) False st w of (ok, st, w) \<Rightarrow>
         if ok \<and> his_cur_size st < HIST_FILE_MAX then (True, st, w)
         else (case close_cur_file L st w of (st, w) \<Rightarrow> (False, st\<lparr>his_cur_name := ''''\<rparr>, w)))
      else (False, st, w))"

definition adopt_file :: "'w lfs_ops \<Rightarrow> hist_file_st \<Rightarrow> 'w \<Rightarrow> bool \<times> hist_file_st \<times> 'w" where
  "adopt_file L st w =
     (if his_cur_name st = '''' then
        (case lfs_dir_list L ''/'' w of (is, w) \<Rightarrow>
         let latest = (case is of None \<Rightarrow> '''' | Some is \<Rightarrow> latest_name is)
         in if latest \<noteq> '''' then
              (case open_append L latest False st w of (ok, st, w) \<Rightarrow>
               if ok \<and> his_cur_size st < HIST_FILE_MAX then (True, st\<lparr>his_cur_name := latest\<rparr>, w)
               else (case close_cur_file L st w of (st, w) \<Rightarrow> (False, st, w)))
            else (False, st, w))
      else (False, st, w))"

definition create_file :: "'w lfs_ops \<Rightarrow> u32 \<Rightarrow> hist_file_st \<Rightarrow> 'w \<Rightarrow> bool \<times> hist_file_st \<times> 'w" where
  "create_file L clock st w =
     (let name = make_hist_name clock in
      case open_append L name True st w of (ok, st, w) \<Rightarrow>
      if \<not> ok then (False, st, w)
      else let st = st\<lparr>his_cur_name := name\<rparr>
           in (True, st, if his_cur_size st = 0 then cleanup_old_files L w else w))"

definition ensure_file :: "'w lfs_ops \<Rightarrow> u32 \<Rightarrow> hist_file_st \<Rightarrow> 'w \<Rightarrow> bool \<times> hist_file_st \<times> 'w" where
  "ensure_file L clock st w =
     (if his_fp_open st \<and> his_cur_size st < HIST_FILE_MAX then (True, st, w)
      else case close_cur_file L st w of (st, w) \<Rightarrow>
        (case resume_file L st w of
           (True, st, w) \<Rightarrow> (True, st, w)
         | (False, st, w) \<Rightarrow>
             (case adopt_file L st w of
                (True, st, w) \<Rightarrow> (True, st, w)
              | (False, st, w) \<Rightarrow> create_file L clock st w)))"

definition his_len :: "his_data \<Rightarrow> nat" where
  "his_len d = (if his_type d = DI_TYPE then 10 else 16)"

definition hist_file_write ::
    "'w lfs_ops \<Rightarrow> u32 \<Rightarrow> his_data \<Rightarrow> hist_file_st \<Rightarrow> 'w \<Rightarrow> bool \<times> hist_file_st \<times> 'w" where
  "hist_file_write L clock d st w =
     (if \<not> his_lfs st then (False, st, w)
      else case ensure_file L clock st w of (ok, st, w) \<Rightarrow>
        if \<not> ok then (False, st, w)
        else (case lfs_file_write L his_fp (take (his_len d) (his_bytes d)) w of (wr, w) \<Rightarrow>
              if wr = int (his_len d)
              then (True, st\<lparr>his_cur_size := his_cur_size st + of_nat (his_len d)\<rparr>, w)
              else (False, st\<lparr>his_cur_size := HIST_FILE_MAX\<rparr>, w)))"

definition hist_file_sync :: "'w lfs_ops \<Rightarrow> hist_file_st \<Rightarrow> 'w \<Rightarrow> int \<times> 'w" where
  "hist_file_sync L st w = (if his_fp_open st then lfs_file_sync L his_fp w else (0, w))"

definition hist_file_close :: "'w lfs_ops \<Rightarrow> hist_file_st \<Rightarrow> 'w \<Rightarrow> hist_file_st \<times> 'w" where
  "hist_file_close L st w = close_cur_file L st w"

definition hist_file_init :: "bool \<Rightarrow> hist_file_st" where
  "hist_file_init lfs = \<lparr>his_lfs = lfs, his_fp_open = False, his_cur_size = 0, his_cur_name = ''''\<rparr>"

section \<open>Retention: the oldest names go\<close>

lemma min_index_upto:
  fixes names :: "string list"
  assumes "0 < n" "n \<le> length names"
  shows "foldl (\<lambda>mi i. if names ! i < names ! mi then i else mi) 0 [1..<n] < n \<and>
    (\<forall>i<n. names ! foldl (\<lambda>mi i. if names ! i < names ! mi then i else mi) 0 [1..<n] \<le> names ! i)"
  using assms
proof (induction n)
  case (Suc n)
  show ?case
  proof (cases n)
    case 0
    then show ?thesis by simp
  next
    case (Suc m)
    with Suc.IH Suc.prems have IH: "foldl (\<lambda>mi i. if names ! i < names ! mi then i else mi) 0 [1..<n] < n"
      "\<forall>i<n. names ! foldl (\<lambda>mi i. if names ! i < names ! mi then i else mi) 0 [1..<n] \<le> names ! i"
      by simp_all
    have "[1..<Suc n] = [1..<n] @ [n]" using Suc by simp
    with IH show ?thesis
      by (auto simp: less_Suc_eq simp del: upt_Suc)
  qed
qed simp

lemma min_index_spec:
  assumes "names \<noteq> []"
  shows "min_index names < length names"
    and "s \<in> set names \<Longrightarrow> names ! min_index names \<le> s"
  using min_index_upto [of "length names" names] assms by (auto simp: min_index_def in_set_conv_nth)

lemma mset_swap_out:
  assumes "i < length xs"
  shows "mset xs = add_mset (xs ! i) (mset (butlast (xs[i := last xs])))"
proof -
  obtain ys y where xs: "xs = ys @ [y]" using assms by (cases xs rule: rev_cases) auto
  show ?thesis
  proof (cases "i = length ys")
    case True
    then show ?thesis by (simp add: xs)
  next
    case False
    then have i: "i < length ys" using assms by (simp add: xs)
    then have "butlast (xs[i := last xs]) = ys[i := y]" by (simp add: xs list_update_append)
    moreover have "mset ys = add_mset (ys ! i) (mset ys - {#ys ! i#})" using i by simp
    ultimately show ?thesis using i
      by (simp add: xs nth_append mset_update)
  qed
qed

text \<open>The loop removes names one at a time; what it removes is never newer than what it keeps.\<close>

lemma rotate_out_spec:
  "\<exists>out keep. rotate_out L names w = fold (\<lambda>n w. snd (lfs_remove L n w)) out w
     \<and> mset names = mset out + mset keep \<and> length keep = min HIST_MAX_FILES (length names)
     \<and> (\<forall>x\<in>set out. \<forall>y\<in>set keep. x \<le> y)"
proof (induction L names w rule: rotate_out.induct)
  case (1 L names w)
  show ?case
  proof (cases "length names > HIST_MAX_FILES")
    case False
    then show ?thesis
      by (intro exI [of _ "[]"] exI [of _ names]) (simp add: rotate_out.simps [of L names])
  next
    case True
    let ?mi = "min_index names"
    let ?rest = "butlast (names[?mi := last names])"
    have ne: "names \<noteq> []" using True by auto
    note mi = min_index_spec [OF ne]
    note ms = mset_swap_out [OF mi(1)]
    from 1 [OF True refl refl] obtain out keep where
      r: "rotate_out L ?rest (snd (lfs_remove L (names ! ?mi) w))
          = fold (\<lambda>n w. snd (lfs_remove L n w)) out (snd (lfs_remove L (names ! ?mi) w))"
      and m: "mset ?rest = mset out + mset keep"
      and k: "length keep = min HIST_MAX_FILES (length ?rest)"
      and le: "\<forall>x\<in>set out. \<forall>y\<in>set keep. x \<le> y" by blast
    have "set keep \<subseteq> set names"
      using ms m by (metis mset_subset_eq_insertD set_mset_add_mset_insert set_mset_mset set_mset_union
          subset_insertI2 sup_ge2)
    then show ?thesis
      using True r m k le mi(2) ms
      by (intro exI [of _ "names ! ?mi # out"] exI [of _ keep])
        (auto simp: rotate_out.simps [of L names] Let_def)
  qed
qed

lemma collect_names_all:
  assumes "length (filter is_data_file is) \<le> HIST_MAX_FILES + 2"
    and "\<And>i. i \<in> set is \<Longrightarrow> is_data_file i \<Longrightarrow> length (li_name i) < NAME_CAP"
  shows "collect_names is = map li_name (filter is_data_file is)"
proof -
  have "take (NAME_CAP - 1) (li_name i) = li_name i" if "i \<in> set is" "is_data_file i" for i
    using assms(2) [OF that] by (simp add: hub_defs)
  then show ?thesis using assms(1) by (simp add: collect_names_def cong: map_cong)
qed

text \<open>
  (C40) Retention, for any directory: the clean-up after the creation of a history file considers the first twelve history files that the directory
  lists, by their names cut to the 23 characters of its table; of these it removes the smallest in \<open>strcmp\<close> order until ten are left, and it removes
  nothing else. So with at most twelve history files and names that fit, the ten largest names remain.
\<close>

theorem history_retention:
  assumes dir: "lfs_dir_list L ''/'' w = (Some is, w1)"
  shows "\<exists>out keep. cleanup_old_files L w = fold (\<lambda>n w. snd (lfs_remove L n w)) out w1
    \<and> mset (map (\<lambda>i. take 23 (li_name i)) (take 12 (filter is_data_file is))) = mset out + mset keep
    \<and> length keep = min 10 (length (filter is_data_file is))
    \<and> (\<forall>x\<in>set out. \<forall>y\<in>set keep. x \<le> y)
    \<and> (length (filter is_data_file is) \<le> 12 \<and> (\<forall>i\<in>set is. is_data_file i \<longrightarrow> length (li_name i) \<le> 23)
        \<longrightarrow> mset (map li_name (filter is_data_file is)) = mset out + mset keep)"
proof -
  obtain out keep where r: "rotate_out L (collect_names is) w1 = fold (\<lambda>n w. snd (lfs_remove L n w)) out w1"
      "mset (collect_names is) = mset out + mset keep" "length keep = min HIST_MAX_FILES (length (collect_names is))"
      "\<forall>x\<in>set out. \<forall>y\<in>set keep. x \<le> y"
    using rotate_out_spec [of L "collect_names is" w1] by (elim exE conjE)
  have n: "map (\<lambda>i. take 23 (li_name i)) (take 12 (filter is_data_file is)) = collect_names is"
    by (simp add: collect_names_def take_map hub_defs)
  have l: "min 10 (length (filter is_data_file is)) = min HIST_MAX_FILES (length (collect_names is))"
    by (simp add: collect_names_def hub_defs)
  have all: "collect_names is = map li_name (filter is_data_file is)"
    if "length (filter is_data_file is) \<le> 12 \<and> (\<forall>i\<in>set is. is_data_file i \<longrightarrow> length (li_name i) \<le> 23)"
    using that by (intro collect_names_all) (auto simp: hub_defs)
  have "cleanup_old_files L w = fold (\<lambda>n w. snd (lfs_remove L n w)) out w1"
    using r(1) by (simp add: cleanup_old_files_def dir)
  then show ?thesis unfolding n l using r(2-4) all by metis
qed

text \<open>A directory that only lists, removes and counts: enough to run the clean-up.\<close>

definition list_lfs :: "string list lfs_ops" where
  "list_lfs = \<lparr>lfs_dir_list = \<lambda>d w. (Some (map (\<lambda>n. \<lparr>li_reg = True, li_name = n, li_size = 0\<rparr>) w), w),
     lfs_file_open = \<lambda>fp n fl w. (if n \<in> set w then (0, w) else if o_creat fl then (0, w @ [n]) else (- 2, w)),
     lfs_file_size = \<lambda>fp w. (0, w), lfs_file_write = \<lambda>fp bs w. (int (length bs), w),
     lfs_file_read = \<lambda>fp n w. ((0, []), w), lfs_file_sync = \<lambda>fp w. (0, w),
     lfs_file_close = \<lambda>fp w. (0, w),
     lfs_remove = \<lambda>n w. (if n \<in> set w then (0, remove1 n w) else (- 2, w))\<rparr>"

definition december_files :: "string list" where
  "december_files = map (\<lambda>d. ''data_12'' @ pr02 (int d) @ ''_120000.raw'') [22..<32]"

lemma december_files_eval:
  "december_files = [''data_1222_120000.raw'', ''data_1223_120000.raw'', ''data_1224_120000.raw'',
     ''data_1225_120000.raw'', ''data_1226_120000.raw'', ''data_1227_120000.raw'',
     ''data_1228_120000.raw'', ''data_1229_120000.raw'', ''data_1230_120000.raw'',
     ''data_1231_120000.raw'']"
  by (simp add: december_files_def pr02_def upt_rec_numeral char_of_def bit_0)

theorem history_retention_witness:
  "\<exists>out keep. cleanup_old_files list_lfs (''data_1221_120000.raw'' # december_files)
      = fold (\<lambda>n w. snd (lfs_remove list_lfs n w)) out (''data_1221_120000.raw'' # december_files)
    \<and> mset (''data_1221_120000.raw'' # december_files) = mset out + mset keep
    \<and> length keep = 10 \<and> (\<forall>x\<in>set out. \<forall>y\<in>set keep. x \<le> y)"
proof -
  let ?w = "''data_1221_120000.raw'' # december_files"
  let ?is = "map (\<lambda>n. \<lparr>li_reg = True, li_name = n, li_size = 0\<rparr>) ?w"
  have dir: "lfs_dir_list list_lfs ''/'' ?w = (Some ?is, ?w)" by (simp add: list_lfs_def)
  have data: "filter is_data_file ?is = ?is"
    by (simp add: december_files_eval is_data_file_def)
  have len: "length ?w = 11" by (simp add: december_files_eval)
  have few: "length (filter is_data_file ?is) \<le> 12" unfolding data length_map len by simp
  have short: "\<forall>i\<in>set ?is. is_data_file i \<longrightarrow> length (li_name i) \<le> 23" by (auto simp: december_files_eval)
  have names: "map li_name ?is = ?w" by (simp add: comp_def)
  have n: "min 10 (length (filter is_data_file ?is)) = 10" unfolding data length_map len by simp
  obtain out keep where "cleanup_old_files list_lfs ?w = fold (\<lambda>n w. snd (lfs_remove list_lfs n w)) out ?w"
      "mset (map li_name (filter is_data_file ?is)) = mset out + mset keep" "length keep = 10" "\<forall>x\<in>set out. \<forall>y\<in>set keep. x \<le> y"
    using history_retention [OF dir] few short unfolding n by blast
  then show ?thesis unfolding data names by blast
qed

lemma new_year_name: "make_hist_name 1798733100 = ''data_0101_000500.raw''"
  by (simp add: make_hist_name_def gmtime_r_def split_year.simps year_len_def leap_def month_lens_def
      pr02_def clamp_def char_of_def bit_0)


text \<open>
  Names carry no year, so they are not in time order across New Year: the file created first in
  January is the smallest name, and the clean-up that its creation triggers removes that very file
  while it is open for writing.
\<close>

theorem new_year_file_removed:
  "create_file list_lfs 1798733100 (hist_file_init True) december_files =
     (True, (hist_file_init True)\<lparr>his_fp_open := True, his_cur_name := ''data_0101_000500.raw''\<rparr>, december_files)"
  by (simp add: create_file_def new_year_name open_append_def list_lfs_def december_files_eval
      cleanup_old_files_def collect_names_def is_data_file_def hub_defs hist_file_init_def
      rotate_out.simps min_index_def upt_rec_numeral less_char_def)

section \<open>What the file system does not touch\<close>

text \<open>Observations of the world that no littlefs call changes are not changed by this component.\<close>

definition lfs_keeps :: "'w lfs_ops \<Rightarrow> ('w \<Rightarrow> 'a) \<Rightarrow> bool" where
  "lfs_keeps L p \<longleftrightarrow>
     (\<forall>d w. p (snd (lfs_dir_list L d w)) = p w) \<and> (\<forall>fp n fl w. p (snd (lfs_file_open L fp n fl w)) = p w)
   \<and> (\<forall>fp w. p (snd (lfs_file_size L fp w)) = p w) \<and> (\<forall>fp bs w. p (snd (lfs_file_write L fp bs w)) = p w)
   \<and> (\<forall>fp n w. p (snd (lfs_file_read L fp n w)) = p w) \<and> (\<forall>fp w. p (snd (lfs_file_sync L fp w)) = p w)
   \<and> (\<forall>fp w. p (snd (lfs_file_close L fp w)) = p w) \<and> (\<forall>n w. p (snd (lfs_remove L n w)) = p w)"

lemma lfs_keepsD:
  assumes "lfs_keeps L p"
  shows "p (snd (lfs_dir_list L d w)) = p w" "p (snd (lfs_file_open L fp n fl w)) = p w"
    "p (snd (lfs_file_size L fp w)) = p w" "p (snd (lfs_file_write L fp bs w)) = p w"
    "p (snd (lfs_file_sync L fp w)) = p w" "p (snd (lfs_file_close L fp w)) = p w"
    "p (snd (lfs_remove L n w)) = p w"
  using assms unfolding lfs_keeps_def by blast+

lemma rotate_out_keeps: "lfs_keeps L p \<Longrightarrow> p (rotate_out L names w) = p w"
proof (induction L names w rule: rotate_out.induct)
  case (1 L names w)
  then show ?case by (simp add: rotate_out.simps [of L names] Let_def lfs_keepsD)
qed

lemma cleanup_keeps: "lfs_keeps L p \<Longrightarrow> p (cleanup_old_files L w) = p w"
  by (simp add: cleanup_old_files_def split_beta rotate_out_keeps lfs_keepsD split: option.split)

lemma open_append_keeps: "lfs_keeps L p \<Longrightarrow> p (snd (snd (open_append L n c st w))) = p w"
  by (simp add: open_append_def split_beta lfs_keepsD)

lemma close_cur_keeps: "lfs_keeps L p \<Longrightarrow> p (snd (close_cur_file L st w)) = p w"
  by (simp add: close_cur_file_def lfs_keepsD)

lemma resume_keeps: "lfs_keeps L p \<Longrightarrow> p (snd (snd (resume_file L st w))) = p w"
  by (simp add: resume_file_def split_beta open_append_keeps close_cur_keeps)

lemma adopt_keeps: "lfs_keeps L p \<Longrightarrow> p (snd (snd (adopt_file L st w))) = p w"
  by (simp add: adopt_file_def split_beta Let_def open_append_keeps close_cur_keeps lfs_keepsD)

lemma create_keeps: "lfs_keeps L p \<Longrightarrow> p (snd (snd (create_file L c st w))) = p w"
  by (simp add: create_file_def split_beta Let_def open_append_keeps cleanup_keeps)

lemma ensure_keeps: "lfs_keeps L p \<Longrightarrow> p (snd (snd (ensure_file L c st w))) = p w"
  by (simp add: ensure_file_def split_beta resume_keeps adopt_keeps create_keeps close_cur_keeps split: bool.split)

lemma hist_file_write_keeps: "lfs_keeps L p \<Longrightarrow> p (snd (snd (hist_file_write L c d st w))) = p w"
  by (simp add: hist_file_write_def split_beta ensure_keeps lfs_keepsD)

end
