(* ===== verification/History.thy ===== *)
theory History
  imports History_File
begin

unbundle bit_operations_syntax

text \<open>
  \<open>src/history/history.c\<close>: the shell around the history files. Producers put records into a queue
  of 16, one task drains it into the current file, and the web server and the FTP server reach the
  files through the same lock. The FreeRTOS queue is a parameter (record \<open>hist_queue\<close>). Every
  section that the code runs under \<open>hist_lock\<close> is one atomic step of the model.
\<close>

definition HIST_QUEUE_DEPTH :: nat where [hub_defs]: "HIST_QUEUE_DEPTH = 16"

record 'w hist_queue =
  q_send :: "his_data \<Rightarrow> 'w \<Rightarrow> bool \<times> 'w"
  q_receive :: "'w \<Rightarrow> his_data option \<times> 'w"

record hist_st =
  history_enabled :: bool
  hist_close_req :: bool
  hist_lfs :: bool
  hist_file :: hist_file_st
  web_fp_open :: bool
  drop_cnt :: u32

section \<open>The history task\<close>

text \<open>
  The inner loop: write the record at hand, then take the next one until the queue is empty or a
  write fails. The fuel bounds the number of records taken; \<open>None\<close> means it ran out.
\<close>

fun hist_drain :: "'w lfs_ops \<Rightarrow> 'w hist_queue \<Rightarrow> u32 \<Rightarrow> nat \<Rightarrow> his_data \<Rightarrow> hist_file_st \<Rightarrow> 'w
    \<Rightarrow> (hist_file_st \<times> 'w) option" where
  "hist_drain L Q clock 0 d st w = None"
| "hist_drain L Q clock (Suc n) d st w =
     (case hist_file_write L clock d st w of (ok, st, w) \<Rightarrow>
      if \<not> ok then Some (st, w)
      else (case q_receive Q w of
              (None, w) \<Rightarrow> Some (st, w)
            | (Some d, w) \<Rightarrow> hist_drain L Q clock n d st w))"

text \<open>One turn of the task's loop.\<close>

definition hist_task_step :: "'w lfs_ops \<Rightarrow> 'w hist_queue \<Rightarrow> u32 \<Rightarrow> nat \<Rightarrow> hist_st \<Rightarrow> 'w
    \<Rightarrow> (hist_st \<times> 'w) option" where
  "hist_task_step L Q clock n st w =
     (case q_receive Q w of
        (Some d, w) \<Rightarrow>
          (case hist_drain L Q clock n d (hist_file st) w of
             None \<Rightarrow> None
           | Some (f, w) \<Rightarrow>
               (if \<not> history_enabled st then
                  (case hist_file_close L f w of (f, w) \<Rightarrow>
                   Some (st\<lparr>hist_file := f, hist_close_req := False\<rparr>, w))
                else Some (st\<lparr>hist_file := f\<rparr>, w)))
      | (None, w) \<Rightarrow>
          (if hist_close_req st then
             (case hist_file_close L (hist_file st) w of (f, w) \<Rightarrow>
              Some (st\<lparr>hist_file := f, hist_close_req := False\<rparr>, w))
           else Some (st, w)))"

section \<open>Producers and the switch\<close>

definition history_init :: "bool \<Rightarrow> hist_st \<Rightarrow> hist_st" where
  "history_init lfs st = st\<lparr>hist_file := hist_file_init lfs, hist_lfs := lfs\<rparr>"

definition hist_power_on :: hist_st where
  "hist_power_on = \<lparr>history_enabled = False, hist_close_req = False, hist_lfs = False,
     hist_file = hist_file_init False, web_fp_open = False, drop_cnt = 0\<rparr>"

definition send_history_data :: "'w hist_queue \<Rightarrow> his_data \<Rightarrow> hist_st \<Rightarrow> 'w \<Rightarrow> bool \<times> hist_st \<times> 'w" where
  "send_history_data Q d st w =
     (if \<not> history_enabled st \<or> \<not> hist_lfs st then (False, st, w)
      else (case q_send Q d w of
              (True, w) \<Rightarrow> (True, st, w)
            | (False, w) \<Rightarrow> (False, st\<lparr>drop_cnt := drop_cnt st + 1\<rparr>, w)))"

definition history_enable_write :: "bool \<Rightarrow> hist_st \<Rightarrow> hist_st" where
  "history_enable_write en st =
     (let st = st\<lparr>history_enabled := en\<rparr> in if \<not> en then st\<lparr>hist_close_req := True\<rparr> else st)"

definition history_sync :: "'w lfs_ops \<Rightarrow> hist_st \<Rightarrow> 'w \<Rightarrow> 'w" where
  "history_sync L st w = (if \<not> hist_lfs st then w else snd (hist_file_sync L (hist_file st) w))"

section \<open>File access for the web server\<close>

definition name_char :: "char \<Rightarrow> bool" where
  "name_char c \<longleftrightarrow> (CHR ''0'' \<le> c \<and> c \<le> CHR ''9'') \<or> (CHR ''a'' \<le> c \<and> c \<le> CHR ''z'')
     \<or> (CHR ''A'' \<le> c \<and> c \<le> CHR ''Z'') \<or> c = CHR ''_'' \<or> c = CHR ''.'' \<or> c = CHR ''-''"

definition history_web_name_valid :: "string \<Rightarrow> bool" where
  "history_web_name_valid name \<longleftrightarrow>
     take 5 name = ''data_'' \<and> list_all name_char name \<and> length name > 5 \<and> length name < 32"

text \<open>
  \<open>n += snprintf(buf + n, bufsz - n, s)\<close> on the pair of buffer text and \<open>n\<close>. \<open>None\<close> stands for the
  undefined case \<open>n > bufsz\<close>, where the size would wrap.
\<close>

definition snprintf_at :: "nat \<Rightarrow> string \<Rightarrow> string \<times> nat \<Rightarrow> (string \<times> nat) option" where
  "snprintf_at bufsz s = (\<lambda>(buf, n).
     if n > bufsz then None else Some (take n buf @ take (bufsz - n - 1) s, n + length s))"

definition file_entry :: "bool \<Rightarrow> lfs_info \<Rightarrow> string" where
  "file_entry first i = (if first then '''' else '','') @ ''{'' @ dq @ ''name'' @ dq @ '':'' @ dq
     @ li_name i @ dq @ '','' @ dq @ ''size'' @ dq @ '':'' @ dec_str (unat (li_size i)) @ ''}''"

fun list_entries :: "nat \<Rightarrow> bool \<Rightarrow> lfs_info list \<Rightarrow> string \<times> nat \<Rightarrow> (string \<times> nat) option" where
  "list_entries bufsz first [] b = Some b"
| "list_entries bufsz first (i # is) b =
     (if \<not> li_reg i \<or> \<not> history_web_name_valid (li_name i) then list_entries bufsz first is b
      else (case snprintf_at bufsz (file_entry first i) b of
              None \<Rightarrow> None
            | Some b \<Rightarrow> if int (snd b) \<ge> int bufsz - 64 then Some b else list_entries bufsz False is b))"

text \<open>
  The result is the text in the buffer and the length returned; the inner \<open>None\<close> is \<open>-1\<close>, the outer
  one the undefined case of \<open>snprintf_at\<close>.
\<close>

definition history_web_list_json :: "'w lfs_ops \<Rightarrow> nat \<Rightarrow> hist_st \<Rightarrow> 'w
    \<Rightarrow> ((string \<times> nat) option \<times> 'w) option" where
  "history_web_list_json L bufsz st w =
     (if \<not> hist_lfs st then Some (None, w)
      else (let w = snd (hist_file_sync L (hist_file st) w) in
        case snprintf_at bufsz (''{'' @ dq @ ''files'' @ dq @ '':['') ('''', 0) of
          None \<Rightarrow> None
        | Some b \<Rightarrow>
            (case lfs_dir_list L ''/'' w of (is, w) \<Rightarrow>
             (case (case is of None \<Rightarrow> Some b | Some is \<Rightarrow> list_entries bufsz True is b) of
                None \<Rightarrow> None
              | Some b \<Rightarrow>
                  (case snprintf_at bufsz '']}'' b of
                     None \<Rightarrow> None
                   | Some (buf, n) \<Rightarrow> Some (Some (buf, min n bufsz), w))))))"

definition history_web_open :: "'w lfs_ops \<Rightarrow> string \<Rightarrow> hist_st \<Rightarrow> 'w \<Rightarrow> int \<times> hist_st \<times> 'w" where
  "history_web_open L name st w =
     (if \<not> hist_lfs st \<or> \<not> history_web_name_valid name then (- 1, st, w)
      else let w = snd (hist_file_sync L (hist_file st) w) in
        if web_fp_open st then (- 1, st, w)
        else (case lfs_file_open L web_fp name \<lparr>o_wronly = False, o_append = False, o_creat = False\<rparr> w of (rc, w) \<Rightarrow>
              if rc \<noteq> 0 then (- 1, st, w)
              else (case lfs_file_size L web_fp w of (sz, w) \<Rightarrow>
                    if sz \<ge> 0 then (sz, st\<lparr>web_fp_open := True\<rparr>, w)
                    else (- 1, st, snd (lfs_file_close L web_fp w)))))"

definition history_web_read :: "'w lfs_ops \<Rightarrow> nat \<Rightarrow> hist_st \<Rightarrow> 'w \<Rightarrow> (int \<times> u8 list) \<times> 'w" where
  "history_web_read L len st w =
     (if \<not> web_fp_open st then ((- 1, []), w) else lfs_file_read L web_fp len w)"

definition history_web_close :: "'w lfs_ops \<Rightarrow> hist_st \<Rightarrow> 'w \<Rightarrow> hist_st \<times> 'w" where
  "history_web_close L st w =
     (if \<not> web_fp_open st then (st, w)
      else (st\<lparr>web_fp_open := False\<rparr>, snd (lfs_file_close L web_fp w)))"

definition history_web_remove :: "'w lfs_ops \<Rightarrow> string \<Rightarrow> hist_st \<Rightarrow> 'w \<Rightarrow> int \<times> 'w" where
  "history_web_remove L name st w =
     (if \<not> hist_lfs st \<or> \<not> history_web_name_valid name then (- 1, w) else lfs_remove L name w)"

text \<open>
  \<open>history_web_usage\<close>: \<open>stat\<close> is the result of \<open>lfs_fs_stat\<close> (block count and block size) and \<open>used\<close>
  that of \<open>lfs_fs_size\<close>; the products are 64 bit. The result is the pair of free and total bytes.
\<close>

definition history_web_usage :: "bool \<Rightarrow> (u32 \<times> u32) option \<Rightarrow> int \<Rightarrow> u64 \<times> u64" where
  "history_web_usage mounted stat used =
     (if \<not> mounted then (0, 0)
      else case stat of
        None \<Rightarrow> (0, 0)
      | Some (cnt, bsz) \<Rightarrow>
          let total = ucast cnt * ucast bsz :: u64
          in if used \<ge> 0 then
               let used_b = of_int used * ucast bsz
               in (if used_b < total then total - used_b else 0, total)
             else (0, total))"

section \<open>The listing always fits\<close>

lemma file_entry_length:
  assumes "history_web_name_valid (li_name i)"
  shows "length (file_entry first i) \<le> 61"
proof -
  have "unat (li_size i) < 10 ^ 10" by (rule less_le_trans [OF unat_u32_lt]) simp
  then have "length (dec_str (unat (li_size i))) \<le> 10" by (intro dec_str_length) simp
  moreover have "length (li_name i) \<le> 31" using assms by (simp add: history_web_name_valid_def)
  ultimately show ?thesis by (simp add: file_entry_def)
qed

text \<open>A buffer state in which nothing has been cut off.\<close>

definition exact :: "nat \<Rightarrow> string \<times> nat \<Rightarrow> bool" where
  "exact bufsz b \<longleftrightarrow> length (fst b) = snd b \<and> snd b < bufsz"

lemma snprintf_exact:
  assumes "exact bufsz b" "snd b + length s < bufsz"
  shows "\<exists>b'. snprintf_at bufsz s b = Some b' \<and> fst b' = fst b @ s \<and> exact bufsz b' \<and> snd b' = snd b + length s"
  using assms by (cases b) (auto simp: snprintf_at_def exact_def)

lemma list_entries_exact:
  assumes "exact bufsz b" "snd b + 64 < bufsz"
  shows "\<exists>b' out. list_entries bufsz first is b = Some b' \<and> fst b' = fst b @ out \<and> exact bufsz b' \<and> snd b' + 3 < bufsz"
  using assms
proof (induction bufsz first "is" b rule: list_entries.induct)
  case (2 bufsz first i "is" b)
  show ?case
  proof (cases "li_reg i \<and> history_web_name_valid (li_name i)")
    case False
    then show ?thesis using 2 by auto
  next
    case True
    note e = file_entry_length [of i first]
    obtain b' where b': "snprintf_at bufsz (file_entry first i) b = Some b'"
      "fst b' = fst b @ file_entry first i" "exact bufsz b'"
      "snd b' = snd b + length (file_entry first i)"
      using snprintf_exact [OF "2.prems"(1), of "file_entry first i"] "2.prems"(2) e True by auto
    show ?thesis
    proof (cases "int (snd b') \<ge> int bufsz - 64")
      case True2: True
      then show ?thesis using True b' "2.prems"(2) e by auto
    next
      case False
      then obtain b'' out where "list_entries bufsz False is b' = Some b''" "fst b'' = fst b' @ out"
        "exact bufsz b''" "snd b'' + 3 < bufsz"
        using "2.IH"(2) [of b'] True b' by force
      then show ?thesis using True b' False by auto
    qed
  qed
qed auto

text \<open>
  The JSON listing of the history files is never cut off and never written outside its buffer:
  for every directory content and every buffer of at least 75 bytes the function returns, the text
  is the opening, whole entries and the closing, and the length returned is the length of the text,
  which leaves room for the terminating NUL.
\<close>

theorem history_list_fits:
  assumes "75 \<le> bufsz"
  shows "\<exists>r w'. history_web_list_json L bufsz st w = Some (r, w') \<and>
    (case r of None \<Rightarrow> \<not> hist_lfs st
     | Some (text, n) \<Rightarrow> n = length text \<and> n < bufsz \<and>
         (\<exists>mid. text = ''{'' @ dq @ ''files'' @ dq @ '':['' @ mid @ '']}''))"
proof (cases "hist_lfs st")
  case True
  let ?open = "''{'' @ dq @ ''files'' @ dq @ '':[''"
  let ?w = "snd (hist_file_sync L (hist_file st) w)"
  obtain ents w2 where dir: "lfs_dir_list L ''/'' ?w = (ents, w2)" by fastforce
  have e0: "exact bufsz ('''', 0)" using assms by (simp add: exact_def)
  then obtain b where b: "snprintf_at bufsz ?open ('''', 0) = Some b" "fst b = ?open" "exact bufsz b"
    "snd b + 64 < bufsz"
    using snprintf_exact [OF e0, of ?open] assms by auto
  obtain b' mid where b': "(case ents of None \<Rightarrow> Some b | Some es \<Rightarrow> list_entries bufsz True es b) = Some b'"
    "fst b' = fst b @ mid" "exact bufsz b'" "snd b' + 3 < bufsz"
  proof (cases ents)
    case None
    show ?thesis by (rule that [of b "[]"]) (use None b in auto)
  next
    case (Some es)
    obtain b' mid where "list_entries bufsz True es b = Some b'" "fst b' = fst b @ mid" "exact bufsz b'"
      "snd b' + 3 < bufsz" using list_entries_exact [OF b(3,4)] by blast
    then show ?thesis by (intro that [of b' mid]) (simp_all add: Some)
  qed
  obtain b'' where "snprintf_at bufsz '']}'' b' = Some b''" "fst b'' = fst b' @ '']}''" "exact bufsz b''"
    using snprintf_exact [OF b'(3), of "'']}''"] b'(4) by auto
  then show ?thesis using True b(1,2) b'(1,2) dir
    by (cases b'') (auto simp: history_web_list_json_def Let_def exact_def)
qed (simp add: history_web_list_json_def)

theorem history_list_fits_witness:
  "\<exists>r w'. history_web_list_json list_lfs 256 (history_init True hist_power_on) [''data_0102_030405.raw'']
       = Some (r, w') \<and>
    (case r of None \<Rightarrow> \<not> hist_lfs (history_init True hist_power_on)
     | Some (text, n) \<Rightarrow> n = length text \<and> n < 256 \<and>
         (\<exists>mid. text = ''{'' @ dq @ ''files'' @ dq @ '':['' @ mid @ '']}''))"
  by (rule history_list_fits) simp

text \<open>
  The names the web server accepts stay inside the history directory: no path separator, no
  relative component, and short enough for the caller's buffers.
\<close>

lemma web_name_confined:
  assumes "history_web_name_valid name"
  shows "CHR ''/'' \<notin> set name" "name \<noteq> ''.''" "name \<noteq> ''..''" "length name < 32"
proof -
  have "\<not> name_char (CHR ''/'')" by (simp add: name_char_def less_eq_char_def)
  then show "CHR ''/'' \<notin> set name" using assms by (auto simp: history_web_name_valid_def list_all_iff)
qed (use assms in \<open>auto simp: history_web_name_valid_def\<close>)

section \<open>The queue reaches the file in order\<close>

text \<open>
  The documented behaviour of the queue, with its contents as a list: it delivers in the order of
  sending, refuses when it holds its depth, and file operations do not touch it.
\<close>

definition queue_fifo :: "'w hist_queue \<Rightarrow> 'w lfs_ops \<Rightarrow> ('w \<Rightarrow> his_data list) \<Rightarrow> bool" where
  "queue_fifo Q L q \<longleftrightarrow>
     (\<forall>w. case q w of
            [] \<Rightarrow> \<exists>w'. q_receive Q w = (None, w') \<and> q w' = []
          | d # ds \<Rightarrow> \<exists>w'. q_receive Q w = (Some d, w') \<and> q w' = ds)
   \<and> (\<forall>d w. if length (q w) < HIST_QUEUE_DEPTH
             then \<exists>w'. q_send Q d w = (True, w') \<and> q w' = q w @ [d]
             else \<exists>w'. q_send Q d w = (False, w') \<and> q w' = q w)
   \<and> lfs_keeps L q"

lemma queue_fifo_keeps: "queue_fifo Q L q \<Longrightarrow> lfs_keeps L q"
  by (simp add: queue_fifo_def)

lemma queue_receive:
  assumes "queue_fifo Q L q"
  shows "(q w = [] \<and> (\<exists>w'. q_receive Q w = (None, w') \<and> q w' = []))
    \<or> (\<exists>w'. q_receive Q w = (Some (hd (q w)), w') \<and> q w \<noteq> [] \<and> q w' = tl (q w))"
proof -
  have "case q w of [] \<Rightarrow> \<exists>w'. q_receive Q w = (None, w') \<and> q w' = []
      | d # ds \<Rightarrow> \<exists>w'. q_receive Q w = (Some d, w') \<and> q w' = ds"
    using assms unfolding queue_fifo_def by blast
  then show ?thesis by (cases "q w") auto
qed

text \<open>
  The drain loop ends, keeps the records it has not taken in their order, and leaves records behind
  only when a write failed.
\<close>

lemma hist_drain_ends:
  assumes fifo: "queue_fifo Q L q"
  shows "length (q w) < n \<Longrightarrow> \<exists>st' w' k. hist_drain L Q clock n d st w = Some (st', w') \<and> q w' = drop k (q w)"
proof (induction n arbitrary: d st w)
  case (Suc n)
  obtain ok st1 w1 where wr: "hist_file_write L clock d st w = (ok, st1, w1)" by (metis prod_cases3)
  have q1: "q w1 = q w" using hist_file_write_keeps [OF queue_fifo_keeps [OF fifo], of clock d st w] wr by simp
  show ?case
  proof (cases ok)
    case False
    then show ?thesis using wr q1 by (auto intro: exI [of _ 0])
  next
    case True
    from queue_receive [OF fifo, of w1] show ?thesis
    proof (elim disjE exE conjE)
      fix w2
      assume "q w1 = []" "q_receive Q w1 = (None, w2)" "q w2 = []"
      then show ?thesis using wr True q1 by auto
    next
      fix w2
      assume r: "q_receive Q w1 = (Some (hd (q w1)), w2)" and ne: "q w1 \<noteq> []" "q w2 = tl (q w1)"
      then have "length (q w2) < n" using Suc.prems q1 by (simp add: length_greater_0_conv [symmetric] less_diff_conv2 Suc_leI del: length_greater_0_conv)
      from Suc.IH [OF this, of "hd (q w1)" st1] obtain st' w' k where
        "hist_drain L Q clock n (hd (q w1)) st1 w2 = Some (st', w')" "q w' = drop k (q w2)" by blast
      then show ?thesis using wr True r ne q1 by (auto simp: drop_Suc intro: exI [of _ "Suc k"])
    qed
  qed
qed simp

text \<open>
  One turn of the history task always ends when the queue holds no more than its depth: the
  records left in the queue are a tail of it in the original order, and after history has been
  switched off the turn leaves the file closed and the request answered.
\<close>

theorem history_task_turn:
  assumes fifo: "queue_fifo Q L q" and len: "length (q w) \<le> HIST_QUEUE_DEPTH"
  shows "\<exists>st' w' k. hist_task_step L Q clock HIST_QUEUE_DEPTH st w = Some (st', w')
    \<and> q w' = drop k (q w)
    \<and> (if history_enabled st \<or> (q w = [] \<and> \<not> hist_close_req st) then hist_close_req st' \<longrightarrow> hist_close_req st
       else \<not> his_fp_open (hist_file st') \<and> \<not> hist_close_req st')"
proof -
  note keeps = queue_fifo_keeps [OF fifo]
  from queue_receive [OF fifo, of w] show ?thesis
proof (elim disjE exE conjE)
  fix w1
  assume r: "q w = []" "q_receive Q w = (None, w1)" "q w1 = []"
  obtain f w2 where c: "hist_file_close L (hist_file st) w1 = (f, w2)" by fastforce
  have "q w2 = []" using close_cur_keeps [OF keeps, of "hist_file st" w1] c r(3) by (simp add: hist_file_close_def)
  moreover have "\<not> his_fp_open f" using c by (auto simp: hist_file_close_def close_cur_file_def split: if_splits)
  ultimately show ?thesis using r c by (auto simp: hist_task_step_def)
next
  fix w1
  assume r: "q_receive Q w = (Some (hd (q w)), w1)" and ne: "q w \<noteq> []" "q w1 = tl (q w)"
  then have "length (q w1) < HIST_QUEUE_DEPTH" using len by (cases "q w") auto
  from hist_drain_ends [OF fifo this] obtain f w2 k where
    d: "hist_drain L Q clock HIST_QUEUE_DEPTH (hd (q w)) (hist_file st) w1 = Some (f, w2)"
    and k: "q w2 = drop k (q w1)" by blast
  obtain f' w3 where c: "hist_file_close L f w2 = (f', w3)" by fastforce
  have "q w3 = drop (Suc k) (q w)"
    using close_cur_keeps [OF keeps, of f w2] c k ne by (simp add: drop_Suc hist_file_close_def)
  moreover have "\<not> his_fp_open f'" using c by (auto simp: hist_file_close_def close_cur_file_def split: if_splits)
  ultimately show ?thesis using r d c k ne
    by (cases "history_enabled st") (auto simp: hist_task_step_def drop_Suc intro: exI [of _ "Suc k"])
qed
qed

text \<open>A queue of the documented kind beside the listing-only directory.\<close>

definition list_queue :: "(string list \<times> his_data list) hist_queue" where
  "list_queue = \<lparr>
     q_send = \<lambda>d (fs, q). if length q < HIST_QUEUE_DEPTH then (True, (fs, q @ [d])) else (False, (fs, q)),
     q_receive = \<lambda>(fs, q). case q of [] \<Rightarrow> (None, (fs, q)) | d # ds \<Rightarrow> (Some d, (fs, ds))\<rparr>"

definition queued_lfs :: "(string list \<times> his_data list) lfs_ops" where
  "queued_lfs = \<lparr>
     lfs_dir_list = \<lambda>d (fs, q). (fst (lfs_dir_list list_lfs d fs), (snd (lfs_dir_list list_lfs d fs), q)),
     lfs_file_open = \<lambda>fp n fl (fs, q). (fst (lfs_file_open list_lfs fp n fl fs), (snd (lfs_file_open list_lfs fp n fl fs), q)),
     lfs_file_size = \<lambda>fp w. (0, w), lfs_file_write = \<lambda>fp bs w. (int (length bs), w),
     lfs_file_read = \<lambda>fp n w. ((0, []), w), lfs_file_sync = \<lambda>fp w. (0, w), lfs_file_close = \<lambda>fp w. (0, w),
     lfs_remove = \<lambda>n (fs, q). (fst (lfs_remove list_lfs n fs), (snd (lfs_remove list_lfs n fs), q))\<rparr>"

lemma list_queue_fifo: "queue_fifo list_queue queued_lfs snd"
  by (auto simp: queue_fifo_def list_queue_def lfs_keeps_def queued_lfs_def split: list.splits)

theorem history_task_turn_witness:
  "\<exists>st' w' k. hist_task_step queued_lfs list_queue 1709210096 HIST_QUEUE_DEPTH
      ((history_init True hist_power_on)\<lparr>hist_close_req := True\<rparr>) ([], [di_record 1 2 3]) = Some (st', w')
    \<and> snd w' = drop k [di_record 1 2 3] \<and> \<not> his_fp_open (hist_file st') \<and> \<not> hist_close_req st'"
  using history_task_turn [OF list_queue_fifo, of "([], [di_record 1 2 3])" 1709210096
      "(history_init True hist_power_on)\<lparr>hist_close_req := True\<rparr>"]
  by (simp add: hub_defs history_init_def hist_power_on_def)

end
