(* ===== verification/Dio.thy ===== *)
theory Dio
  imports History_File
begin

unbundle bit_operations_syntax

text \<open>
  The output half of \<open>src/io/dio.c\<close>: the pin tables, and \<open>mb_set_do\<close>, which drives the eight digital
  outputs and the LED beside each of them. The GPIO driver is a parameter (record \<open>gpio_ops\<close>); a
  pin is a port and a bit number.
\<close>

datatype gpio_port = GPIOA | GPIOB | GPIOC | GPIOD | GPIOE

type_synonym dio_pin = "gpio_port \<times> nat"

record 'w gpio_ops =
  HAL_GPIO_WritePin :: "dio_pin \<Rightarrow> bool \<Rightarrow> 'w \<Rightarrow> 'w"
  HAL_GPIO_ReadPin :: "dio_pin \<Rightarrow> 'w \<Rightarrow> bool"
  HAL_GPIO_InitOut :: "dio_pin \<Rightarrow> 'w \<Rightarrow> 'w"
  HAL_GPIO_InitIn :: "dio_pin \<Rightarrow> 'w \<Rightarrow> 'w"

definition di_pins :: "dio_pin list" where
  "di_pins = [(GPIOD, 3), (GPIOD, 4), (GPIOD, 5), (GPIOD, 6), (GPIOB, 5), (GPIOB, 6), (GPIOB, 7),
     (GPIOB, 8), (GPIOB, 9), (GPIOB, 10), (GPIOB, 11), (GPIOD, 2), (GPIOB, 0), (GPIOB, 1), (GPIOB, 3),
     (GPIOB, 4)]"

definition do_pins :: "dio_pin list" where
  "do_pins = [(GPIOD, 7), (GPIOD, 8), (GPIOD, 9), (GPIOD, 10), (GPIOD, 11), (GPIOD, 12), (GPIOD, 13),
     (GPIOD, 14)]"

definition led_pins :: "dio_pin list" where
  "led_pins = [(GPIOE, 8), (GPIOE, 9), (GPIOE, 10), (GPIOE, 11), (GPIOE, 12), (GPIOE, 13), (GPIOE, 14),
     (GPIOE, 15)]"

definition mb_set_do :: "'w gpio_ops \<Rightarrow> u16 \<Rightarrow> 'w \<Rightarrow> 'w" where
  "mb_set_do G val w =
     fold (\<lambda>i w. let on = bit val i
                in HAL_GPIO_WritePin G (led_pins ! i) on (HAL_GPIO_WritePin G (do_pins ! i) on w))
       [0..<DO_NUM] w"

text \<open>The pin set-up of \<open>dio_start\<close>.\<close>

definition dio_start :: "'w gpio_ops \<Rightarrow> 'w \<Rightarrow> 'w" where
  "dio_start G w =
     (let w = fold (\<lambda>i. HAL_GPIO_InitIn G (di_pins ! i)) [0..<DI_NUM] w
      in fold (\<lambda>i w.
           let w = HAL_GPIO_InitOut G (do_pins ! i) w;
               w = HAL_GPIO_WritePin G (do_pins ! i) False w;
               w = HAL_GPIO_InitOut G (led_pins ! i) w
           in HAL_GPIO_WritePin G (led_pins ! i) False w) [0..<DO_NUM] w)"

section \<open>Outputs follow the value\<close>

text \<open>
  The documented behaviour of the driver, with \<open>pin w p\<close> the level of pin \<open>p\<close>: writing a pin sets
  that pin and no other.
\<close>

definition gpio_sets :: "'w gpio_ops \<Rightarrow> ('w \<Rightarrow> dio_pin \<Rightarrow> bool) \<Rightarrow> bool" where
  "gpio_sets G pin \<longleftrightarrow> (\<forall>p v w. pin (HAL_GPIO_WritePin G p v w) = (pin w)(p := v))"

lemma pins_disjoint: "distinct (di_pins @ do_pins @ led_pins)"
  by (simp add: di_pins_def do_pins_def led_pins_def)

lemma pins_length [simp]: "length di_pins = DI_NUM" "length do_pins = DO_NUM" "length led_pins = DO_NUM"
  by (simp_all add: di_pins_def do_pins_def led_pins_def hub_defs)

lemma do_pin_eq: "i < DO_NUM \<Longrightarrow> j < DO_NUM \<Longrightarrow> do_pins ! i = do_pins ! j \<longleftrightarrow> i = j"
  "i < DO_NUM \<Longrightarrow> j < DO_NUM \<Longrightarrow> led_pins ! i = led_pins ! j \<longleftrightarrow> i = j"
  "i < DO_NUM \<Longrightarrow> j < DO_NUM \<Longrightarrow> do_pins ! i \<noteq> led_pins ! j"
proof -
  have d: "distinct do_pins" "distinct led_pins" "set do_pins \<inter> set led_pins = {}"
    using pins_disjoint by auto
  show "do_pins ! i = do_pins ! j \<longleftrightarrow> i = j" if "i < DO_NUM" "j < DO_NUM"
    using nth_eq_iff_index_eq [OF d(1)] that by simp
  show "led_pins ! i = led_pins ! j \<longleftrightarrow> i = j" if "i < DO_NUM" "j < DO_NUM"
    using nth_eq_iff_index_eq [OF d(2)] that by simp
  show "do_pins ! i \<noteq> led_pins ! j" if "i < DO_NUM" "j < DO_NUM"
  proof -
    have "do_pins ! i \<in> set do_pins" "led_pins ! j \<in> set led_pins" using that nth_mem [of i do_pins] nth_mem [of j led_pins] by (simp_all only: pins_length)
    then show ?thesis using d(3) by (simp only: disjoint_iff) metis
  qed
qed

definition do_step :: "'w gpio_ops \<Rightarrow> u16 \<Rightarrow> nat \<Rightarrow> 'w \<Rightarrow> 'w" where
  "do_step G val i w =
     HAL_GPIO_WritePin G (led_pins ! i) (bit val i) (HAL_GPIO_WritePin G (do_pins ! i) (bit val i) w)"

lemma mb_set_do_fold: "mb_set_do G val w = fold (do_step G val) [0..<DO_NUM] w"
  by (simp add: mb_set_do_def do_step_def [abs_def] Let_def)

lemma do_steps:
  assumes "gpio_sets G pin" "n \<le> DO_NUM"
  shows "(\<forall>i<n. pin (fold (do_step G val) [0..<n] w) (do_pins ! i) = bit val i
        \<and> pin (fold (do_step G val) [0..<n] w) (led_pins ! i) = bit val i)
    \<and> (\<forall>p. (\<forall>i<n. p \<noteq> do_pins ! i \<and> p \<noteq> led_pins ! i) \<longrightarrow> pin (fold (do_step G val) [0..<n] w) p = pin w p)"
  using assms(2)
proof (induction n)
  case (Suc n)
  have step: "pin (do_step G val n v) =
      (pin v)(do_pins ! n := bit val n, led_pins ! n := bit val n)" for v
    using assms(1) unfolding gpio_sets_def do_step_def by metis
  show ?case using Suc by (auto simp: step less_Suc_eq do_pin_eq do_pin_eq(3) [THEN not_sym])
qed simp

text \<open>
  Setting the outputs: after \<open>mb_set_do\<close> each of the eight outputs and the LED beside it have
  the level of their bit of the value, and no other pin has changed.
\<close>

theorem outputs_follow_value:
  assumes "gpio_sets G pin"
  shows "(\<forall>i<DO_NUM. pin (mb_set_do G val w) (do_pins ! i) = bit val i
      \<and> pin (mb_set_do G val w) (led_pins ! i) = bit val i)
    \<and> (\<forall>p. p \<notin> set do_pins \<union> set led_pins \<longrightarrow> pin (mb_set_do G val w) p = pin w p)"
proof -
  have "p \<noteq> do_pins ! i \<and> p \<noteq> led_pins ! i"
    if "p \<notin> set do_pins \<union> set led_pins" "i < DO_NUM" for p i
    using that by (metis Un_iff nth_mem pins_length(2,3))
  then show ?thesis
    using do_steps [OF assms order.refl, of val w] by (simp add: mb_set_do_fold)
qed

definition ram_gpio :: "(dio_pin \<Rightarrow> bool) gpio_ops" where
  "ram_gpio = \<lparr>HAL_GPIO_WritePin = \<lambda>p v w. w(p := v), HAL_GPIO_ReadPin = \<lambda>p w. w p,
     HAL_GPIO_InitOut = \<lambda>p w. w, HAL_GPIO_InitIn = \<lambda>p w. w\<rparr>"

theorem outputs_follow_value_witness:
  "mb_set_do ram_gpio 0xA5 (\<lambda>p. False) (do_pins ! 2) \<and> mb_set_do ram_gpio 0xA5 (\<lambda>p. False) (led_pins ! 7)
    \<and> \<not> mb_set_do ram_gpio 0xA5 (\<lambda>p. True) (do_pins ! 1) \<and> \<not> mb_set_do ram_gpio 0xA5 (\<lambda>p. False) (GPIOA, 1)"
proof -
  have g: "gpio_sets ram_gpio (\<lambda>w. w)" by (simp add: gpio_sets_def ram_gpio_def)
  have "(GPIOA, 1) \<notin> set do_pins \<union> set led_pins" by (simp add: do_pins_def led_pins_def)
  then show ?thesis
    using outputs_follow_value [OF g, of "0xA5" "\<lambda>p. False"] outputs_follow_value [OF g, of "0xA5" "\<lambda>p. True"]
    by (simp add: hub_defs)
qed

end
