(* ===== verification/Regmap.thy ===== *)
theory Regmap
  imports Config_Store History Dio
begin

unbundle bit_operations_syntax

text \<open>
  \<open>src/modbus/regmap.c\<close> with the hooks it calls (\<open>io_hooks.h\<close>): the holding and input registers, the
  side effects of a register write (outputs, history switch, clock, saving, restart), and the
  mapping between registers and the stored configuration. The state of the device that these
  functions share is the record \<open>dev\<close>; what lies outside the firmware is the record \<open>board\<close> of
  drivers, which act on \<open>world\<close>. Sections under \<open>io_lock\<close> are atomic steps here, so the lock
  (\<open>src/sys/os.c\<close>) does not appear.
\<close>

section \<open>The device\<close>

record 'w board =
  nor :: "'w io_flash"
  gpio :: "'w gpio_ops"
  rtc :: "'w hal_rtc"
  lfs :: "'w lfs_ops"
  hqueue :: "'w hist_queue"

record 'w dev =
  holding_reg :: "u16 list"
  input_reg :: "u16 list"
  clock :: time_st
  store :: cfg_store
  hist :: hist_st
  reboot_pending :: bool
  world :: 'w

definition MODBUS_HOLDING_REGISTER_NUMBERS :: nat where
  [hub_defs]: "MODBUS_HOLDING_REGISTER_NUMBERS = 18"
definition MODBUS_INPUT_REGISTER_NUMBERS :: nat where
  [hub_defs]: "MODBUS_INPUT_REGISTER_NUMBERS = 6"

definition INPUT_VER_IDX :: nat where [hub_defs]: "INPUT_VER_IDX = 0"
definition INPUT_AI0_IDX :: nat where [hub_defs]: "INPUT_AI0_IDX = 1"
definition INPUT_DI_IDX :: nat where [hub_defs]: "INPUT_DI_IDX = 5"

definition HOLDING_DO_IDX :: nat where [hub_defs]: "HOLDING_DO_IDX = 0x00"
definition HOLDING_DI_ENABLE_IDX :: nat where [hub_defs]: "HOLDING_DI_ENABLE_IDX = 0x01"
definition HOLDING_AI_ENABLE_IDX :: nat where [hub_defs]: "HOLDING_AI_ENABLE_IDX = 0x02"
definition HOLDING_DI_SAMPLE_MS_IDX :: nat where [hub_defs]: "HOLDING_DI_SAMPLE_MS_IDX = 0x03"
definition HOLDING_AI_SAMPLE_MS_IDX :: nat where [hub_defs]: "HOLDING_AI_SAMPLE_MS_IDX = 0x04"
definition HOLDING_HISTORY_ENABLE_IDX :: nat where [hub_defs]: "HOLDING_HISTORY_ENABLE_IDX = 0x05"
definition HOLDING_CAN_ID_IDX :: nat where [hub_defs]: "HOLDING_CAN_ID_IDX = 0x06"
definition HOLDING_CAN_BAUDRATE_IDX :: nat where [hub_defs]: "HOLDING_CAN_BAUDRATE_IDX = 0x07"
definition HOLDING_RS485_BAUDRATE_IDX :: nat where [hub_defs]: "HOLDING_RS485_BAUDRATE_IDX = 0x08"
definition HOLDING_SLAVE_ID_IDX :: nat where [hub_defs]: "HOLDING_SLAVE_ID_IDX = 0x09"
definition HOLDING_IP_OCTET1_IDX :: nat where [hub_defs]: "HOLDING_IP_OCTET1_IDX = 0x0A"
definition HOLDING_TIMESTAMP_HI_IDX :: nat where [hub_defs]: "HOLDING_TIMESTAMP_HI_IDX = 0x0E"
definition HOLDING_TIMESTAMP_LO_IDX :: nat where [hub_defs]: "HOLDING_TIMESTAMP_LO_IDX = 0x0F"
definition HOLDING_CONFIG_SAVE_IDX :: nat where [hub_defs]: "HOLDING_CONFIG_SAVE_IDX = 0x10"
definition HOLDING_REBOOT_IDX :: nat where [hub_defs]: "HOLDING_REBOOT_IDX = 0x11"

text \<open>The initialisers of the two arrays; the version numbers come from a generated header.\<close>

definition holding_reg_init :: "u16 list" where
  "holding_reg_init =
     [0, 0xFFFF, 0x000F, 200, 200, 0, 0x0111, 250, 9600, 1, 192, 168, 12, 101, 0, 0, 0, 0]"

definition input_reg_init :: "nat \<Rightarrow> nat \<Rightarrow> nat \<Rightarrow> u16 list" where
  "input_reg_init major minor patch =
     [of_nat (push_bit 12 major OR push_bit 8 minor OR patch), 0, 0, 0, 0, 0]"

definition wf_dev :: "'w dev \<Rightarrow> bool" where
  "wf_dev s \<longleftrightarrow> length (holding_reg s) = MODBUS_HOLDING_REGISTER_NUMBERS
     \<and> length (input_reg s) = MODBUS_INPUT_REGISTER_NUMBERS"

section \<open>Register access\<close>

definition get_holding_reg :: "u16 \<Rightarrow> 'w dev \<Rightarrow> u16" where
  "get_holding_reg addr s = (if unat addr \<ge> length (holding_reg s) then 0 else holding_reg s ! unat addr)"

definition io_read_holding :: "u16 \<Rightarrow> 'w dev \<Rightarrow> u16" where
  "io_read_holding addr s =
     (if unat addr = HOLDING_TIMESTAMP_HI_IDX then ucast (drop_bit 16 (io_now_epoch (clock s)))
      else if unat addr = HOLDING_TIMESTAMP_LO_IDX then ucast (io_now_epoch (clock s))
      else get_holding_reg addr s)"

definition update_holding_reg :: "u16 \<Rightarrow> u16 \<Rightarrow> 'w dev \<Rightarrow> int \<times> 'w dev" where
  "update_holding_reg addr reg s =
     (if unat addr \<ge> length (holding_reg s) then (- 1, s)
      else (0, s\<lparr>holding_reg := (holding_reg s)[unat addr := reg]\<rparr>))"

definition get_input_reg :: "u16 \<Rightarrow> 'w dev \<Rightarrow> u16" where
  "get_input_reg addr s = (if unat addr \<ge> length (input_reg s) then 0 else input_reg s ! unat addr)"

definition update_input_reg :: "u16 \<Rightarrow> u16 \<Rightarrow> 'w dev \<Rightarrow> int \<times> 'w dev" where
  "update_input_reg addr reg s =
     (if unat addr \<ge> length (input_reg s) then (- 1, s)
      else (0, s\<lparr>input_reg := (input_reg s)[unat addr := reg]\<rparr>))"

section \<open>Saving and loading the configuration\<close>

definition ip_addr_valid :: "u8 \<Rightarrow> u8 \<Rightarrow> u8 \<Rightarrow> u8 \<Rightarrow> bool" where
  "ip_addr_valid a b c d \<longleftrightarrow> \<not> (d = 0 \<or> d = 0xFF) \<and> \<not> (a = 0 \<or> a = 127 \<or> a \<ge> 224)"

definition ip_is_valid_for_export :: "u16 list \<Rightarrow> bool" where
  "ip_is_valid_for_export h \<longleftrightarrow>
     ip_addr_valid (ucast (h ! HOLDING_IP_OCTET1_IDX)) (ucast (h ! (HOLDING_IP_OCTET1_IDX + 1)))
       (ucast (h ! (HOLDING_IP_OCTET1_IDX + 2))) (ucast (h ! (HOLDING_IP_OCTET1_IDX + 3)))"

text \<open>The structure that \<open>holding_reg_save\<close> hands to the store.\<close>

definition export_cfg :: "u16 list \<Rightarrow> io_cfg \<Rightarrow> io_cfg" where
  "export_cfg h cfg =
     (let cfg = cfg\<lparr>di_en := h ! HOLDING_DI_ENABLE_IDX, ai_en := h ! HOLDING_AI_ENABLE_IDX,
            di_si := h ! HOLDING_DI_SAMPLE_MS_IDX, ai_si := h ! HOLDING_AI_SAMPLE_MS_IDX,
            his := h ! HOLDING_HISTORY_ENABLE_IDX, can_id := h ! HOLDING_CAN_ID_IDX,
            can_bps := h ! HOLDING_CAN_BAUDRATE_IDX, rs485_bps := h ! HOLDING_RS485_BAUDRATE_IDX,
            slave_id := h ! HOLDING_SLAVE_ID_IDX\<rparr>
      in if ip_is_valid_for_export h
         then cfg\<lparr>ip := map (\<lambda>i. h ! (HOLDING_IP_OCTET1_IDX + i)) [0..<4]\<rparr> else cfg)"

definition holding_reg_save :: "'w board \<Rightarrow> 'w dev \<Rightarrow> 'w dev" where
  "holding_reg_save B s =
     (case config_store_save (nor B) (export_cfg (holding_reg s) (config_store_get (store s))) (store s) (world s) of
        (_, st, w) \<Rightarrow> s\<lparr>store := st, world := w\<rparr>)"

definition import_cfg :: "io_cfg \<Rightarrow> u16 list \<Rightarrow> u16 list" where
  "import_cfg cfg h =
     (let h = h[HOLDING_DI_ENABLE_IDX := di_en cfg, HOLDING_AI_ENABLE_IDX := ai_en cfg,
            HOLDING_DI_SAMPLE_MS_IDX := di_si cfg, HOLDING_AI_SAMPLE_MS_IDX := ai_si cfg,
            HOLDING_HISTORY_ENABLE_IDX := his cfg, HOLDING_CAN_ID_IDX := can_id cfg,
            HOLDING_CAN_BAUDRATE_IDX := can_bps cfg, HOLDING_RS485_BAUDRATE_IDX := rs485_bps cfg,
            HOLDING_SLAVE_ID_IDX := slave_id cfg]
      in if ip_addr_valid (ucast (ip cfg ! 0)) (ucast (ip cfg ! 1)) (ucast (ip cfg ! 2)) (ucast (ip cfg ! 3))
         then fold (\<lambda>i h. h[HOLDING_IP_OCTET1_IDX + i := ip cfg ! i]) [0..<4] h else h)"

definition holding_reg_load :: "'w dev \<Rightarrow> 'w dev" where
  "holding_reg_load s = s\<lparr>holding_reg := import_cfg (config_store_get (store s)) (holding_reg s)\<rparr>"

section \<open>Register writes with their effects\<close>

text \<open>\<open>io_reboot_cold\<close> delays, flushes the log and resets; it does not return.\<close>

definition io_reboot_cold :: "'w dev \<Rightarrow> ('a, 'w dev) outcome" where
  "io_reboot_cold s = Reset s"

definition set_reboot_status :: "bool \<Rightarrow> 'w dev \<Rightarrow> 'w dev" where
  "set_reboot_status en s = s\<lparr>reboot_pending := en\<rparr>"

definition dev_set_do :: "'w board \<Rightarrow> u16 \<Rightarrow> 'w dev \<Rightarrow> 'w dev" where
  "dev_set_do B val s = s\<lparr>world := mb_set_do (gpio B) val (world s)\<rparr>"

definition dev_set_timestamp :: "'w board \<Rightarrow> int \<Rightarrow> 'w dev \<Rightarrow> bool \<times> 'w dev" where
  "dev_set_timestamp B t s =
     (case set_timestamp (rtc B) t (clock s) (world s) of (ok, c, w) \<Rightarrow> (ok, s\<lparr>clock := c, world := w\<rparr>))"

definition dev_history_sync :: "'w board \<Rightarrow> 'w dev \<Rightarrow> 'w dev" where
  "dev_history_sync B s = s\<lparr>world := history_sync (lfs B) (hist s) (world s)\<rparr>"

definition io_write_holding :: "'w board \<Rightarrow> u16 \<Rightarrow> u16 \<Rightarrow> 'w dev \<Rightarrow> (int, 'w dev) outcome" where
  "io_write_holding B addr reg s =
     (let a = unat addr in
      if a \<ge> length (holding_reg s) then Ret (- 1) s
      else if holding_reg s ! a = reg then Ret 0 s
      else let s = s\<lparr>holding_reg := (holding_reg s)[a := reg]\<rparr> in
        if a = HOLDING_DO_IDX then Ret 0 (dev_set_do B (reg AND 0xFF) s)
        else if a = HOLDING_HISTORY_ENABLE_IDX then
          Ret 0 (s\<lparr>hist := history_enable_write (reg \<noteq> 0) (hist s)\<rparr>)
        else if a = HOLDING_TIMESTAMP_LO_IDX then
          Ret 0 (snd (dev_set_timestamp B
            (uint (push_bit 16 (ucast (holding_reg s ! HOLDING_TIMESTAMP_HI_IDX) :: u32) OR ucast reg)) s))
        else if a = HOLDING_CONFIG_SAVE_IDX then
          Ret 0 (holding_reg_save B (s\<lparr>holding_reg := (holding_reg s)[a := 0]\<rparr>))
        else if a = HOLDING_REBOOT_IDX then
          (let s = s\<lparr>holding_reg := (holding_reg s)[a := 0]\<rparr>
           in if reg \<noteq> 0 then io_reboot_cold (dev_history_sync B s) else Ret 0 s)
        else Ret 0 s)"

definition write_bit :: "u16 \<Rightarrow> nat \<Rightarrow> bool \<Rightarrow> u16" where
  "write_bit v n on = (if on then v OR push_bit n 1 else v AND NOT (push_bit n 1))"

definition io_write_do_bit :: "'w board \<Rightarrow> u16 \<Rightarrow> bool \<Rightarrow> 'w dev \<Rightarrow> int \<times> 'w dev" where
  "io_write_do_bit B b on s =
     (if unat b \<ge> DO_NUM then (- 1, s)
      else let v = write_bit (holding_reg s ! HOLDING_DO_IDX) (unat b) on;
               s = dev_set_do B (v AND 0xFF) s
           in (0, s\<lparr>holding_reg := (holding_reg s)[HOLDING_DO_IDX := v AND 0xFF]\<rparr>))"

definition io_coil_rd :: "u16 \<Rightarrow> 'w dev \<Rightarrow> bool option" where
  "io_coil_rd addr s =
     (if unat addr \<ge> DO_NUM then None
      else Some (holding_reg s ! HOLDING_DO_IDX AND push_bit (unat addr) 1 \<noteq> 0))"

definition io_discrete_rd :: "u16 \<Rightarrow> 'w dev \<Rightarrow> bool option" where
  "io_discrete_rd addr s =
     (if unat addr \<ge> DI_NUM then None
      else Some (input_reg s ! INPUT_DI_IDX AND push_bit (unat addr) 1 \<noteq> 0))"

section \<open>Bits\<close>

lemma and_push_1: "(v :: u16) AND push_bit n 1 \<noteq> 0 \<longleftrightarrow> bit v n"
proof
  assume "v AND push_bit n 1 \<noteq> 0"
  then obtain k where "bit (v AND push_bit n 1) k" using bit_eq_iff [of "v AND push_bit n 1" 0] by auto
  then show "bit v n" by (auto simp: bit_and_iff bit_exp_iff)
next
  assume "bit v n"
  then have "bit (v AND push_bit n 1) n"
    using bit_imp_le_length [of v n] by (simp add: bit_and_iff bit_exp_iff possible_bit_def)
  then show "v AND push_bit n 1 \<noteq> 0" by auto
qed

lemma bit_write_bit: "n < 16 \<Longrightarrow> bit (write_bit v n on) k \<longleftrightarrow> (if k = n then on else bit v k)"
  by (auto simp: write_bit_def bit_or_iff bit_and_iff bit_not_iff bit_exp_iff possible_bit_def
      dest: bit_imp_le_length)

lemma bit_and_255: "bit ((v :: u16) AND 0xFF) n \<longleftrightarrow> bit v n \<and> n < 8"
  unfolding word_255_mask by (auto simp: bit_and_iff bit_mask_iff dest: bit_imp_le_length)

section \<open>What a register write changes\<close>

lemma io_write_holding_frame:
  fixes s :: "'w dev"
  assumes "wf_dev s"
  shows "wf_dev (outcome_state (io_write_holding B addr reg s))"
    and "input_reg (outcome_state (io_write_holding B addr reg s)) = input_reg s"
    and "j \<noteq> unat addr \<Longrightarrow> holding_reg (outcome_state (io_write_holding B addr reg s)) ! j = holding_reg s ! j"
    and "unat addr < MODBUS_HOLDING_REGISTER_NUMBERS \<Longrightarrow> unat addr \<noteq> HOLDING_CONFIG_SAVE_IDX \<Longrightarrow>
      unat addr \<noteq> HOLDING_REBOOT_IDX \<Longrightarrow> holding_reg (outcome_state (io_write_holding B addr reg s)) ! unat addr = reg"
  using assms
  by (auto simp: io_write_holding_def wf_dev_def Let_def dev_set_do_def dev_set_timestamp_def holding_reg_save_def
      dev_history_sync_def io_reboot_cold_def split: prod.split)

section \<open>Coils and outputs\<close>

lemma io_coil_rd_bit: "io_coil_rd a s = (if unat a \<ge> DO_NUM then None else Some (bit (holding_reg s ! HOLDING_DO_IDX) (unat a)))"
  using and_push_1 [of _ "unat a"] by (simp add: io_coil_rd_def)

lemma io_discrete_rd_bit: "io_discrete_rd a s = (if unat a \<ge> DI_NUM then None else Some (bit (input_reg s ! INPUT_DI_IDX) (unat a)))"
  using and_push_1 [of _ "unat a"] by (simp add: io_discrete_rd_def)

text \<open>
  Writing one coil and reading the coils back: the coil written has the state written, every
  other coil keeps its state, and a coil number beyond the eight outputs is refused without any
  change.
\<close>

theorem coil_write_read:
  assumes "wf_dev s" and "io_write_do_bit B b on s = (rc, s')"
  shows "if unat b < DO_NUM
    then rc = 0 \<and> (\<forall>a. io_coil_rd a s' = (if a = b then Some on else io_coil_rd a s))
    else rc = - 1 \<and> s' = s"
proof (cases "unat b < DO_NUM")
  case True
  then have "holding_reg s' ! HOLDING_DO_IDX = write_bit (holding_reg s ! HOLDING_DO_IDX) (unat b) on AND 0xFF" "rc = 0"
    using assms by (auto simp: io_write_do_bit_def Let_def dev_set_do_def wf_dev_def hub_defs)
  then show ?thesis using True
    by (auto simp: io_coil_rd_bit bit_and_255 bit_write_bit hub_defs word_unat_eq_iff [of _ b])
next
  case False
  then show ?thesis using assms(2) by (simp add: io_write_do_bit_def)
qed

text \<open>The outputs and LEDs show the low byte of the output register.\<close>

definition outputs_mirror :: "('w \<Rightarrow> dio_pin \<Rightarrow> bool) \<Rightarrow> 'w dev \<Rightarrow> bool" where
  "outputs_mirror pin s \<longleftrightarrow> (\<forall>i<DO_NUM. pin (world s) (do_pins ! i) = bit (holding_reg s ! HOLDING_DO_IDX) i
     \<and> pin (world s) (led_pins ! i) = bit (holding_reg s ! HOLDING_DO_IDX) i)"

text \<open>The other drivers of the board do not move an output pin.\<close>

definition pins_private :: "'w board \<Rightarrow> ('w \<Rightarrow> dio_pin \<Rightarrow> bool) \<Rightarrow> bool" where
  "pins_private B pin \<longleftrightarrow> gpio_sets (gpio B) pin \<and> flash_keeps (nor B) pin \<and> lfs_keeps (lfs B) pin
     \<and> (\<forall>t w. pin (snd (hal_rtc_set_time (rtc B) t w)) = pin w)
     \<and> (\<forall>d w. pin (snd (hal_rtc_set_date (rtc B) d w)) = pin w)"

lemma set_timestamp_keeps:
  assumes "pins_private B pin"
  shows "pin (snd (snd (set_timestamp (rtc B) t st w))) = pin w"
proof -
  have "\<And>t w. pin (snd (hal_rtc_set_time (rtc B) t w)) = pin w" "\<And>d w. pin (snd (hal_rtc_set_date (rtc B) d w)) = pin w"
    using assms by (simp_all add: pins_private_def)
  then show ?thesis by (simp add: set_timestamp_def split_beta split: option.split bool.split)
qed

lemma history_sync_keeps: "lfs_keeps L p \<Longrightarrow> p (history_sync L st w) = p w"
  by (simp add: history_sync_def hist_file_sync_def lfs_keepsD)

lemma dev_set_do_mirror:
  assumes "pins_private B pin"
  shows "i < DO_NUM \<Longrightarrow> pin (world (dev_set_do B v s)) (do_pins ! i) = bit v i"
    and "i < DO_NUM \<Longrightarrow> pin (world (dev_set_do B v s)) (led_pins ! i) = bit v i"
  using do_steps [of "gpio B" pin DO_NUM v "world s"] assms
  by (auto simp: pins_private_def dev_set_do_def mb_set_do_fold)

lemma dev_set_do_frame [simp]:
  "holding_reg (dev_set_do B v s) = holding_reg s" "input_reg (dev_set_do B v s) = input_reg s"
  by (simp_all add: dev_set_do_def)

text \<open>Any write that keeps the output register and every pin keeps the mirror.\<close>

lemma outputs_mirror_cong:
  "outputs_mirror pin s \<Longrightarrow> holding_reg s' ! HOLDING_DO_IDX = holding_reg s ! HOLDING_DO_IDX \<Longrightarrow>
    pin (world s') = pin (world s) \<Longrightarrow> outputs_mirror pin s'"
  by (simp add: outputs_mirror_def)

lemma io_write_holding_pins:
  assumes "pins_private B pin" "unat addr \<noteq> HOLDING_DO_IDX"
  shows "pin (world (outcome_state (io_write_holding B addr reg s))) = pin (world s)"
proof -
  have keeps: "flash_keeps (nor B) pin" "lfs_keeps (lfs B) pin" using assms(1) by (simp_all add: pins_private_def)
  show ?thesis using assms(2)
    by (auto simp: io_write_holding_def Let_def dev_set_timestamp_def holding_reg_save_def split_beta
        set_timestamp_keeps [OF assms(1)] config_store_save_keeps [OF keeps(1)] dev_history_sync_def
        history_sync_keeps [OF keeps(2)] io_reboot_cold_def)
qed


text \<open>
  (C12) The output register and the output pins agree at all times: if they agree, they still agree
  after any register write (whatever the register, the value and the side effect, and also when the
  write ends in a restart) and after any coil write. The low byte counts; the pins show nothing of
  the high byte.
\<close>

theorem outputs_mirror_register:
  assumes pins: "pins_private B pin" and wf: "wf_dev s" and inv: "outputs_mirror pin s"
  shows "outputs_mirror pin (outcome_state (io_write_holding B addr reg s))
    \<and> outputs_mirror pin (snd (io_write_do_bit B b on s))"
proof
  let ?s' = "outcome_state (io_write_holding B addr reg s)"
  show "outputs_mirror pin ?s'"
  proof (cases "unat addr = HOLDING_DO_IDX \<and> holding_reg s ! HOLDING_DO_IDX \<noteq> reg")
    case True
    then have "?s' = dev_set_do B (reg AND 0xFF) (s\<lparr>holding_reg := (holding_reg s)[HOLDING_DO_IDX := reg]\<rparr>)"
      using wf by (simp add: io_write_holding_def wf_dev_def Let_def hub_defs)
    then show ?thesis using wf
      by (auto simp: outputs_mirror_def dev_set_do_mirror [OF pins] bit_and_255 wf_dev_def hub_defs)
  next
    case False
    then have "?s' = s \<or> unat addr \<noteq> HOLDING_DO_IDX"
      by (auto simp: io_write_holding_def Let_def)
    then show ?thesis
      using inv io_write_holding_pins [OF pins, of addr reg s] io_write_holding_frame(3) [OF wf, of HOLDING_DO_IDX addr B reg]
      by (auto intro: outputs_mirror_cong [OF inv])
  qed
next
  show "outputs_mirror pin (snd (io_write_do_bit B b on s))"
    using wf inv dev_set_do_mirror [OF pins]
    by (auto simp: io_write_do_bit_def Let_def outputs_mirror_def wf_dev_def bit_and_255 hub_defs)
qed

section \<open>Saving and restarting\<close>

definition trigger_regs_clear :: "'w dev \<Rightarrow> bool" where
  "trigger_regs_clear s \<longleftrightarrow> holding_reg s ! HOLDING_CONFIG_SAVE_IDX = 0 \<and> holding_reg s ! HOLDING_REBOOT_IDX = 0"

text \<open>
  The two trigger registers read 0 between writes, so no request to save or to restart is ever
  taken for a repetition of the last one.
\<close>

lemma triggers_stay_clear:
  assumes "wf_dev s" "trigger_regs_clear s"
  shows "trigger_regs_clear (outcome_state (io_write_holding B addr reg s))"
  using assms
  by (auto simp: trigger_regs_clear_def io_write_holding_def wf_dev_def Let_def hub_defs dev_set_do_def nth_list_update
      dev_set_timestamp_def holding_reg_save_def dev_history_sync_def io_reboot_cold_def split: prod.split)

lemma wf_export: "wf_cfg cfg \<Longrightarrow> wf_cfg (export_cfg h cfg)"
  by (simp add: wf_cfg_def export_cfg_def Let_def)

text \<open>The registers that the configuration covers.\<close>

lemma upt_4: "[0..<4] = [0, 1, 2, 3 :: nat]"
  by (simp add: eval_nat_numeral)

lemma import_export:
  assumes "length h0 = MODBUS_HOLDING_REGISTER_NUMBERS"
  shows "HOLDING_DI_ENABLE_IDX \<le> i \<Longrightarrow> i \<le> HOLDING_SLAVE_ID_IDX \<Longrightarrow> import_cfg (export_cfg h cfg) h0 ! i = h ! i"
    and "ip_is_valid_for_export h \<Longrightarrow> j < 4 \<Longrightarrow>
      import_cfg (export_cfg h cfg) h0 ! (HOLDING_IP_OCTET1_IDX + j) = h ! (HOLDING_IP_OCTET1_IDX + j)"
proof -
  have cases9: "i \<in> {1,2,3,4,5,6,7,8,9}" if "1 \<le> i" "i \<le> 9" for i :: nat using that by auto
  show "import_cfg (export_cfg h cfg) h0 ! i = h ! i" if "HOLDING_DI_ENABLE_IDX \<le> i" "i \<le> HOLDING_SLAVE_ID_IDX"
    using that assms cases9 [of i]
    by (auto simp: import_cfg_def export_cfg_def Let_def hub_defs upt_4 nth_list_update)
  have cases4: "j \<in> {0,1,2,3}" if "j < 4" for j :: nat using that by auto
  show "import_cfg (export_cfg h cfg) h0 ! (HOLDING_IP_OCTET1_IDX + j) = h ! (HOLDING_IP_OCTET1_IDX + j)"
    if "ip_is_valid_for_export h" "j < 4"
    using that assms cases4 [of j]
    by (auto simp: import_cfg_def export_cfg_def Let_def hub_defs upt_4 nth_list_update ip_is_valid_for_export_def)
qed


lemma holding_reg_save_eq:
  assumes "reliable_nor_flash (nor B) mem" "cfg_inv (store s) (mem (world s))" "cur_gen (store s) \<noteq> 0xFFFFFFFF"
  shows "\<exists>st w. holding_reg_save B s = s\<lparr>store := st, world := w\<rparr>
    \<and> config_store_get st = export_cfg (holding_reg s) (config_store_get (store s)) \<and> cfg_inv st (mem w)"
proof -
  note n = reliable_nor_flash.axioms(1) [OF assms(1)]
  have wf: "wf_cfg (export_cfg (holding_reg s) (config_store_get (store s)))" "inited (store s)"
    using assms(2) by (auto simp: cfg_inv_def config_store_get_def intro: wf_export)
  obtain ok st w where sv: "config_store_save (nor B) (export_cfg (holding_reg s) (config_store_get (store s)))
      (store s) (world s) = (ok, st, w)" by (metis prod_cases3)
  with reliable_nor_flash.save_ok [OF assms(1) wf(2,1)] have ok: ok by (metis fst_conv)
  from nor_flash.save_inv [OF n assms(2) sv [unfolded ok [THEN eqTrueI]] wf(1) assms(3)]
  have inv: "cfg_inv st (mem w)" .
  have "st = (store s)\<lparr>cur := export_cfg (holding_reg s) (config_store_get (store s)),
      cur_gen := cur_gen (store s) + 1, cur_slot := save_target (store s)\<rparr>"
    using nor_flash.save_data(2) [OF n _ wf(1)] sv ok by (metis (full_types))
  then have "config_store_get st = export_cfg (holding_reg s) (config_store_get (store s))"
    using wf(2) by (simp add: config_store_get_def)
  then show ?thesis using inv sv by (auto simp: holding_reg_save_def)
qed

text \<open>
  Saving by register 0x10: any non-zero write stores the configuration registers, and after a
  restart (\<open>config_store_init\<close>, then \<open>holding_reg_load\<close> into whatever the registers held) the
  enables, sample times, history switch, CAN and RS485 settings and the slave address are the ones
  that were saved, and so is the IP address if it was a valid one. The save itself leaves all
  registers as they were.
\<close>

theorem saved_registers_survive_restart:
  assumes F: "reliable_nor_flash (nor B) mem" and inv: "cfg_inv (store s) (mem (world s))"
    and gen: "cur_gen (store s) \<noteq> 0xFFFFFFFF" and wf: "wf_dev s" "wf_dev s0"
    and trig: "trigger_regs_clear s" and reg: "reg \<noteq> 0"
  shows "\<exists>s' st w. io_write_holding B 0x10 reg s = Ret 0 s' \<and> holding_reg s' = holding_reg s
    \<and> config_store_init (nor B) (world s') = (True, st, w)
    \<and> (\<forall>i. HOLDING_DI_ENABLE_IDX \<le> i \<and> i \<le> HOLDING_SLAVE_ID_IDX \<longrightarrow>
        holding_reg (holding_reg_load (s0\<lparr>store := st\<rparr>)) ! i = holding_reg s ! i)
    \<and> (ip_is_valid_for_export (holding_reg s) \<longrightarrow> (\<forall>j<4.
        holding_reg (holding_reg_load (s0\<lparr>store := st\<rparr>)) ! (HOLDING_IP_OCTET1_IDX + j)
          = holding_reg s ! (HOLDING_IP_OCTET1_IDX + j)))"
proof -
  have zero: "holding_reg s ! 16 = 0" using trig by (simp add: trigger_regs_clear_def hub_defs)
  then have same: "(holding_reg s)[16 := reg, 16 := 0] = holding_reg s" by (metis list_update_overwrite list_update_id)
  have "io_write_holding B 0x10 reg s = Ret 0 (holding_reg_save B (s\<lparr>holding_reg := holding_reg s\<rparr>))"
    using wf(1) reg zero same by (simp add: io_write_holding_def wf_dev_def Let_def hub_defs)
  then have wr: "io_write_holding B 0x10 reg s = Ret 0 (holding_reg_save B s)" by simp
  obtain st w where sv: "holding_reg_save B s = s\<lparr>store := st, world := w\<rparr>"
    and cfg: "config_store_get st = export_cfg (holding_reg s) (config_store_get (store s))"
    and inv': "cfg_inv st (mem w)"
    using holding_reg_save_eq [OF F inv gen] by blast
  obtain st2 w2 where i2: "config_store_init (nor B) w = (True, st2, w2)"
    using reliable_nor_flash.init_ok [OF F, of w] by (metis prod.collapse)
  with nor_flash.init_restores [OF reliable_nor_flash.axioms(1) [OF F] inv'] have "st2 = st" by blast
  then show ?thesis
    using wr sv i2 cfg wf(2) import_export [of "holding_reg s0"]
    by (auto simp: holding_reg_load_def wf_dev_def)
qed

section \<open>A simulated board\<close>

text \<open>
  A board on which every driver does what its documentation says: the flash of the host tests, pins,
  a calendar, a directory and a queue. It shows that the assumptions made about drivers can be met.
\<close>

record sim =
  sim_nor :: fake_mem
  sim_pins :: "dio_pin \<Rightarrow> bool"
  sim_rtc :: "rtc_time \<times> rtc_date"
  sim_files :: "string list"
  sim_q :: "his_data list"

definition sim_gpio :: "sim gpio_ops" where
  "sim_gpio = \<lparr>HAL_GPIO_WritePin = \<lambda>p v w. w\<lparr>sim_pins := (sim_pins w)(p := v)\<rparr>,
     HAL_GPIO_ReadPin = \<lambda>p w. sim_pins w p, HAL_GPIO_InitOut = \<lambda>p w. w, HAL_GPIO_InitIn = \<lambda>p w. w\<rparr>"

definition sim_hal_rtc :: "sim hal_rtc" where
  "sim_hal_rtc = \<lparr>hal_rtc_set_time = \<lambda>t w. (True, w\<lparr>sim_rtc := (t, snd (sim_rtc w))\<rparr>),
     hal_rtc_set_date = \<lambda>d w. (True, w\<lparr>sim_rtc := (fst (sim_rtc w), d)\<rparr>),
     hal_rtc_get_time = \<lambda>w. (Some (fst (sim_rtc w)), w), hal_rtc_get_date = \<lambda>w. (Some (snd (sim_rtc w)), w),
     hal_rtc_source_lse = \<lambda>w. True, hal_backup_reset = \<lambda>w. w, hal_lse_on = \<lambda>w. (True, w),
     hal_rtc_init = \<lambda>w. (True, w), hal_bkup_read = \<lambda>w. RTC_BKP_MAGIC, hal_bkup_write = \<lambda>v w. w,
     hal_tick = \<lambda>w. 42\<rparr>"

definition sim_lfs :: "sim lfs_ops" where
  "sim_lfs = \<lparr>
     lfs_dir_list = \<lambda>d w. (fst (lfs_dir_list list_lfs d (sim_files w)), w),
     lfs_file_open = \<lambda>fp n fl w. (fst (lfs_file_open list_lfs fp n fl (sim_files w)),
        w\<lparr>sim_files := snd (lfs_file_open list_lfs fp n fl (sim_files w))\<rparr>),
     lfs_file_size = \<lambda>fp w. (0, w), lfs_file_write = \<lambda>fp bs w. (int (length bs), w),
     lfs_file_read = \<lambda>fp n w. ((0, []), w), lfs_file_sync = \<lambda>fp w. (0, w), lfs_file_close = \<lambda>fp w. (0, w),
     lfs_remove = \<lambda>n w. (fst (lfs_remove list_lfs n (sim_files w)),
        w\<lparr>sim_files := snd (lfs_remove list_lfs n (sim_files w))\<rparr>)\<rparr>"

definition sim_queue :: "sim hist_queue" where
  "sim_queue = \<lparr>
     q_send = \<lambda>d w. if length (sim_q w) < HIST_QUEUE_DEPTH then (True, w\<lparr>sim_q := sim_q w @ [d]\<rparr>) else (False, w),
     q_receive = \<lambda>w. case sim_q w of [] \<Rightarrow> (None, w) | d # ds \<Rightarrow> (Some d, w\<lparr>sim_q := ds\<rparr>)\<rparr>"

definition sim_board :: "sim board" where
  "sim_board = \<lparr>nor = flash_in sim_nor (\<lambda>m w. w\<lparr>sim_nor := m\<rparr>) fake_flash, gpio = sim_gpio, rtc = sim_hal_rtc,
     lfs = sim_lfs, hqueue = sim_queue\<rparr>"

lemma sim_board_sel [simp]:
  "nor sim_board = flash_in sim_nor (\<lambda>m w. w\<lparr>sim_nor := m\<rparr>) fake_flash" "gpio sim_board = sim_gpio"
  "rtc sim_board = sim_hal_rtc" "lfs sim_board = sim_lfs" "hqueue sim_board = sim_queue"
  by (simp_all add: sim_board_def)

lemma sim_nor_reliable: "reliable_nor_flash (nor sim_board) sim_nor"
  using reliable_nor_flash_in [OF fake.reliable_nor_flash_axioms, of sim_nor "\<lambda>m w. w\<lparr>sim_nor := m\<rparr>"] by simp

lemma sim_pins_private: "pins_private sim_board sim_pins"
  by (auto simp: pins_private_def gpio_sets_def sim_gpio_def flash_keeps_def lfs_keeps_def sim_lfs_def sim_hal_rtc_def)

text \<open>The device after a first power-on.\<close>

definition sim_world :: sim where
  "sim_world = \<lparr>sim_nor = fake_flash_reset, sim_pins = \<lambda>p. False,
     sim_rtc = (\<lparr>Hours = 0, Minutes = 0, Seconds = 0\<rparr>, rtc_default_date), sim_files = [], sim_q = []\<rparr>"

definition sim_dev :: "sim dev" where
  "sim_dev = \<lparr>holding_reg = holding_reg_init, input_reg = input_reg_init 0 3 0,
     clock = \<lparr>rtc_ready = True, epoch_cache = 1577836800, second_tick = 0\<rparr>,
     store = \<lparr>cur = config_store_get_defaults, cur_gen = 0, cur_slot = 0, inited = True\<rparr>,
     hist = history_init True hist_power_on, reboot_pending = False, world = sim_world\<rparr>"

lemma sim_dev_wf [simp]: "wf_dev sim_dev"
  by (simp add: wf_dev_def sim_dev_def holding_reg_init_def input_reg_init_def hub_defs)

lemma sim_dev_cfg: "cfg_inv (store sim_dev) (sim_nor (world sim_dev))"
  using fake.init_inv [OF fake_init_reset] by (simp add: sim_dev_def sim_world_def)


theorem coil_write_read_witness:
  "\<exists>s'. io_write_do_bit sim_board 3 True sim_dev = (0, s') \<and> io_coil_rd 3 s' = Some True \<and> io_coil_rd 2 s' = Some False"
proof -
  obtain rc s' where w: "io_write_do_bit sim_board 3 True sim_dev = (rc, s')" by fastforce
  from coil_write_read [OF sim_dev_wf w]
  have "rc = 0" "\<forall>a. io_coil_rd a s' = (if a = 3 then Some True else io_coil_rd a sim_dev)" by (simp_all add: hub_defs)
  moreover have "io_coil_rd 2 sim_dev = Some False"
    by (simp add: io_coil_rd_bit sim_dev_def holding_reg_init_def hub_defs)
  ultimately show ?thesis using w by simp
qed

theorem outputs_mirror_register_witness:
  "outputs_mirror sim_pins (outcome_state (io_write_holding sim_board 0 0x1A5 sim_dev))
    \<and> outputs_mirror sim_pins (snd (io_write_do_bit sim_board 7 True sim_dev))"
proof (rule outputs_mirror_register [OF sim_pins_private sim_dev_wf])
  show "outputs_mirror sim_pins sim_dev"
    by (simp add: outputs_mirror_def sim_dev_def sim_world_def holding_reg_init_def hub_defs)
qed

theorem saved_registers_survive_restart_witness:
  "\<exists>s' st w. io_write_holding sim_board 0x10 1 sim_dev = Ret 0 s' \<and> holding_reg s' = holding_reg sim_dev
    \<and> config_store_init (nor sim_board) (world s') = (True, st, w)
    \<and> (\<forall>i. HOLDING_DI_ENABLE_IDX \<le> i \<and> i \<le> HOLDING_SLAVE_ID_IDX \<longrightarrow>
        holding_reg (holding_reg_load (sim_dev\<lparr>store := st\<rparr>)) ! i = holding_reg sim_dev ! i)
    \<and> (ip_is_valid_for_export (holding_reg sim_dev) \<longrightarrow> (\<forall>j<4.
        holding_reg (holding_reg_load (sim_dev\<lparr>store := st\<rparr>)) ! (HOLDING_IP_OCTET1_IDX + j)
          = holding_reg sim_dev ! (HOLDING_IP_OCTET1_IDX + j)))"
proof (rule saved_registers_survive_restart [OF sim_nor_reliable sim_dev_cfg _ sim_dev_wf sim_dev_wf])
  show "cur_gen (store sim_dev) \<noteq> 0xFFFFFFFF" by (simp add: sim_dev_def)
  show "trigger_regs_clear sim_dev" by (simp add: trigger_regs_clear_def sim_dev_def holding_reg_init_def hub_defs)
qed simp

text \<open>
  Setting the clock through registers 0x0E and 0x0F is lost when the low word happens to equal
  the one already in register 0x0F: writing a new high word and then that low word leaves the
  running clock and the RTC exactly as they were.
\<close>

theorem timestamp_same_low_word_ignored:
  assumes "wf_dev s"
  shows "outcome_bind (io_write_holding B 0x0E hi s) (\<lambda>_. io_write_holding B 0x0F (holding_reg s ! HOLDING_TIMESTAMP_LO_IDX))
    = Ret 0 (s\<lparr>holding_reg := (holding_reg s)[HOLDING_TIMESTAMP_HI_IDX := hi]\<rparr>)"
  using assms by (auto simp: io_write_holding_def wf_dev_def Let_def hub_defs)

theorem timestamp_same_low_word_ignored_witness:
  "outcome_bind (io_write_holding sim_board 0x0E 0x65E0 sim_dev) (\<lambda>_. io_write_holding sim_board 0x0F (holding_reg sim_dev ! HOLDING_TIMESTAMP_LO_IDX))
    = Ret 0 (sim_dev\<lparr>holding_reg := (holding_reg sim_dev)[HOLDING_TIMESTAMP_HI_IDX := 0x65E0]\<rparr>)"
  by (rule timestamp_same_low_word_ignored) simp

end
