(* ===== verification/Mb_Server.thy ===== *)
theory Mb_Server
  imports Regmap
begin

unbundle bit_operations_syntax

text \<open>
  \<open>src/modbus/mb_server.c\<close>: the Modbus PDU decoder. A request is the byte list of the PDU (function
  code and data); the result is the response PDU, or \<open>None\<close> for a request that is dropped in
  silence, or a restart when a register write asked for one.
\<close>

section \<open>State\<close>

record 'w srv =
  diag_ctr :: "u16 list"
  device :: "'w dev"

definition MB_DIAG_BUS_MSG :: nat where [hub_defs]: "MB_DIAG_BUS_MSG = 0"
definition MB_DIAG_CRC_ERR :: nat where [hub_defs]: "MB_DIAG_CRC_ERR = 1"
definition MB_DIAG_EXC :: nat where [hub_defs]: "MB_DIAG_EXC = 2"
definition MB_DIAG_SRV_MSG :: nat where [hub_defs]: "MB_DIAG_SRV_MSG = 3"
definition MB_DIAG_NO_RESP :: nat where [hub_defs]: "MB_DIAG_NO_RESP = 4"

definition MB_EXC_ILLEGAL_FC :: u8 where [hub_defs]: "MB_EXC_ILLEGAL_FC = 0x01"
definition MB_EXC_ILLEGAL_DATA_ADDR :: u8 where [hub_defs]: "MB_EXC_ILLEGAL_DATA_ADDR = 0x02"
definition MB_EXC_ILLEGAL_DATA_VAL :: u8 where [hub_defs]: "MB_EXC_ILLEGAL_DATA_VAL = 0x03"
definition MB_FP_EXTENSIONS_ADDR :: u16 where [hub_defs]: "MB_FP_EXTENSIONS_ADDR = 5000"
definition MB_SERVER_PDU_MAX :: nat where [hub_defs]: "MB_SERVER_PDU_MAX = 256"

definition wf_srv :: "'w srv \<Rightarrow> bool" where
  "wf_srv s \<longleftrightarrow> length (diag_ctr s) = 5 \<and> wf_dev (device s)"

definition mb_server_diag_count :: "nat \<Rightarrow> 'w srv \<Rightarrow> 'w srv" where
  "mb_server_diag_count c s =
     (if c \<le> MB_DIAG_NO_RESP then s\<lparr>diag_ctr := (diag_ctr s)[c := diag_ctr s ! c + 1]\<rparr> else s)"

section \<open>Register callbacks\<close>

definition holding_reg_rd_cb :: "'w dev \<Rightarrow> u16 \<Rightarrow> u16 option" where
  "holding_reg_rd_cb s addr =
     (if unat addr \<ge> MODBUS_HOLDING_REGISTER_NUMBERS then None else Some (io_read_holding addr s))"

definition input_reg_rd_cb :: "'w dev \<Rightarrow> u16 \<Rightarrow> u16 option" where
  "input_reg_rd_cb s addr =
     (if unat addr \<ge> MODBUS_INPUT_REGISTER_NUMBERS then None else Some (get_input_reg addr s))"

definition coil_rd_cb :: "'w dev \<Rightarrow> u16 \<Rightarrow> bool option" where
  "coil_rd_cb s addr = io_coil_rd addr s"

definition discrete_input_rd_cb :: "'w dev \<Rightarrow> u16 \<Rightarrow> bool option" where
  "discrete_input_rd_cb s addr = io_discrete_rd addr s"

section \<open>Function codes\<close>

definition exc_rsp :: "u8 \<Rightarrow> u8 \<Rightarrow> 'w srv \<Rightarrow> u8 list option \<times> 'w srv" where
  "exc_rsp fc code s =
     (Some [fc OR 0x80, code], s\<lparr>diag_ctr := (diag_ctr s)[MB_DIAG_EXC := diag_ctr s ! MB_DIAG_EXC + 1]\<rparr>)"

text \<open>
  The loop of FC01 and FC02, with the running address, counter, output position and mask; the
  buffer is the zeroed data part of the response. \<open>None\<close> means that the callback refused.
\<close>

function bits_loop :: "(u16 \<Rightarrow> bool option) \<Rightarrow> u16 \<Rightarrow> u16 \<Rightarrow> u16 \<Rightarrow> nat \<Rightarrow> u8 \<Rightarrow> u8 list \<Rightarrow> u8 list option" where
  "bits_loop rd addr cntr qty presp bit_mask buf =
     (if cntr < qty then
        (case rd addr of
           None \<Rightarrow> None
         | Some state \<Rightarrow>
             let buf = (if state then buf[presp := buf ! presp OR bit_mask] else buf); cntr = cntr + 1
             in if cntr mod 8 = 0 then bits_loop rd (addr + 1) cntr qty (presp + 1) 1 buf
                else bits_loop rd (addr + 1) cntr qty presp (push_bit 1 bit_mask) buf)
      else Some buf)"
  by pat_completeness auto
termination
proof (relation "measure (\<lambda>(rd, addr, cntr, qty, presp, bit_mask, buf). unat qty - unat cntr)", goal_cases)
  case (2 rd addr cntr qty presp bit_mask buf)
  then have "unat (cntr + 1) = Suc (unat cntr)" using unat_Suc_below by blast
  then show ?case using 2 by (simp add: word_less_nat_alt)
next
  case (3 rd addr cntr qty presp bit_mask buf)
  then have "unat (cntr + 1) = Suc (unat cntr)" using unat_Suc_below by blast
  then show ?case using 3 by (simp add: word_less_nat_alt)
qed simp

declare bits_loop.simps [simp del]

definition read_bits :: "u8 \<Rightarrow> (u16 \<Rightarrow> bool option) \<Rightarrow> u8 list \<Rightarrow> 'w srv \<Rightarrow> u8 list option \<times> 'w srv" where
  "read_bits fc rd d s =
     (if length d \<noteq> 4 then (None, s)
      else let addr = io_get_be16 d; qty = io_get_be16 (drop 2 d) in
        if qty = 0 \<or> qty > 2000 then exc_rsp fc MB_EXC_ILLEGAL_DATA_VAL s
        else let num_bytes = (qty - 1) div 8 + 1 in
          (case bits_loop rd addr 0 qty 0 1 (replicate (unat num_bytes) 0) of
             None \<Rightarrow> exc_rsp fc MB_EXC_ILLEGAL_DATA_ADDR s
           | Some bs \<Rightarrow> (Some (fc # ucast num_bytes # bs), s)))"

definition fc01_coil_read :: "u8 list \<Rightarrow> 'w srv \<Rightarrow> u8 list option \<times> 'w srv" where
  "fc01_coil_read d s = read_bits 0x01 (coil_rd_cb (device s)) d s"

definition fc02_di_read :: "u8 list \<Rightarrow> 'w srv \<Rightarrow> u8 list option \<times> 'w srv" where
  "fc02_di_read d s = read_bits 0x02 (discrete_input_rd_cb (device s)) d s"

text \<open>The loop of FC03 and FC04; \<open>qty\<close> counts down.\<close>

function regs_loop :: "(u16 \<Rightarrow> u16 option) \<Rightarrow> u16 \<Rightarrow> u16 \<Rightarrow> u8 list \<Rightarrow> u8 list option" where
  "regs_loop rd addr qty out =
     (if qty > 0 then
        (case rd addr of
           None \<Rightarrow> None
         | Some reg \<Rightarrow> regs_loop rd (addr + 1) (qty - 1) (out @ io_put_be16 reg))
      else Some out)"
  by pat_completeness auto
termination
  by (relation "measure (\<lambda>(rd, addr, qty, out). unat qty)") (auto simp: measure_unat word_gt_0)

declare regs_loop.simps [simp del]

definition read_regs :: "u8 \<Rightarrow> (u16 \<Rightarrow> u16 option) \<Rightarrow> u8 list \<Rightarrow> 'w srv \<Rightarrow> u8 list option \<times> 'w srv" where
  "read_regs fc rd d s =
     (if length d \<noteq> 4 then (None, s)
      else let addr = io_get_be16 d; qty = io_get_be16 (drop 2 d) in
        if qty = 0 \<or> qty > 125 then exc_rsp fc MB_EXC_ILLEGAL_DATA_VAL s
        else if addr \<ge> MB_FP_EXTENSIONS_ADDR then exc_rsp fc MB_EXC_ILLEGAL_FC s
        else (case regs_loop rd addr qty [] of
                None \<Rightarrow> exc_rsp fc MB_EXC_ILLEGAL_DATA_ADDR s
              | Some bs \<Rightarrow> (Some (fc # ucast (qty * 2) # bs), s)))"

definition fc03_hreg_read :: "u8 list \<Rightarrow> 'w srv \<Rightarrow> u8 list option \<times> 'w srv" where
  "fc03_hreg_read d s = read_regs 0x03 (holding_reg_rd_cb (device s)) d s"

definition fc04_inreg_read :: "u8 list \<Rightarrow> 'w srv \<Rightarrow> u8 list option \<times> 'w srv" where
  "fc04_inreg_read d s = read_regs 0x04 (input_reg_rd_cb (device s)) d s"

definition fc05_coil_write :: "'w board \<Rightarrow> u8 list \<Rightarrow> 'w srv \<Rightarrow> u8 list option \<times> 'w srv" where
  "fc05_coil_write B d s =
     (if length d \<noteq> 4 then (None, s)
      else let addr = io_get_be16 d; val = io_get_be16 (drop 2 d) in
        (case io_write_do_bit B addr (val \<noteq> 0) (device s) of (rc, dv) \<Rightarrow>
         let s = s\<lparr>device := dv\<rparr>
         in if rc \<noteq> 0 then exc_rsp 0x05 MB_EXC_ILLEGAL_DATA_ADDR s
            else (Some (0x05 # io_put_be16 addr @ io_put_be16 val), s)))"

definition lift_dev :: "'w srv \<Rightarrow> ('a, 'w dev) outcome \<Rightarrow> ('a, 'w srv) outcome" where
  "lift_dev s r = (case r of Ret x dv \<Rightarrow> Ret x (s\<lparr>device := dv\<rparr>) | Reset dv \<Rightarrow> Reset (s\<lparr>device := dv\<rparr>))"

definition ret_pair :: "'a \<times> 's \<Rightarrow> ('a, 's) outcome" where
  "ret_pair p = Ret (fst p) (snd p)"

definition fc06_hreg_write :: "'w board \<Rightarrow> u8 list \<Rightarrow> 'w srv \<Rightarrow> (u8 list option, 'w srv) outcome" where
  "fc06_hreg_write B d s =
     (if length d \<noteq> 4 then Ret None s
      else let addr = io_get_be16 d; val = io_get_be16 (drop 2 d) in
        outcome_bind (lift_dev s (io_write_holding B addr val (device s))) (\<lambda>rc s.
          if rc \<noteq> 0 then ret_pair (exc_rsp 0x06 MB_EXC_ILLEGAL_DATA_ADDR s)
          else Ret (Some (0x06 # io_put_be16 addr @ io_put_be16 val)) s))"

definition fc08_diagnostics :: "u8 list \<Rightarrow> 'w srv \<Rightarrow> u8 list option \<times> 'w srv" where
  "fc08_diagnostics d s =
     (if length d \<noteq> 4 then (None, s)
      else let sfunc = io_get_be16 d; data = io_get_be16 (drop 2 d);
               rsp = (\<lambda>data s. (Some (0x08 # io_put_be16 sfunc @ io_put_be16 data), s)) in
        if sfunc = 0x0000 then rsp data s
        else if sfunc = 0x000A then rsp data (s\<lparr>diag_ctr := replicate 5 0\<rparr>)
        else if sfunc = 0x000B then rsp (diag_ctr s ! MB_DIAG_BUS_MSG) s
        else if sfunc = 0x000C then rsp (diag_ctr s ! MB_DIAG_CRC_ERR) s
        else if sfunc = 0x000D then rsp (diag_ctr s ! MB_DIAG_EXC) s
        else if sfunc = 0x000E then rsp (diag_ctr s ! MB_DIAG_SRV_MSG) s
        else if sfunc = 0x000F then rsp (diag_ctr s ! MB_DIAG_NO_RESP) s
        else exc_rsp 0x08 MB_EXC_ILLEGAL_FC s)"

text \<open>
  The loop of FC15: \<open>temp\<close> is the byte being shifted out, \<open>data_ix\<close> the 8-bit index of the next one.
  The result says whether every callback accepted; coils written before a refusal stay written.
\<close>

function coils_loop :: "'w board \<Rightarrow> u8 list \<Rightarrow> u16 \<Rightarrow> u16 \<Rightarrow> u16 \<Rightarrow> u8 \<Rightarrow> u8 \<Rightarrow> 'w dev \<Rightarrow> bool \<times> 'w dev" where
  "coils_loop B d addr qty cntr temp data_ix s =
     (if cntr < qty then
        let (temp, data_ix) = (if cntr mod 8 = 0 then (d ! unat data_ix, data_ix + 1) else (temp, data_ix))
        in (case io_write_do_bit B (addr + cntr) (temp AND 1 \<noteq> 0) s of (rc, s) \<Rightarrow>
            if rc \<noteq> 0 then (False, s)
            else coils_loop B d addr qty (cntr + 1) (drop_bit 1 temp) data_ix s)
      else (True, s))"
  by pat_completeness auto
termination
proof (relation "measure (\<lambda>(B, d, addr, qty, cntr, temp, data_ix, s). unat qty - unat cntr)", goal_cases)
  case (2 B d addr qty cntr temp data_ix s)
  then have "unat (cntr + 1) = Suc (unat cntr)" using unat_Suc_below by blast
  then show ?case using 2 by (simp add: word_less_nat_alt)
qed simp

declare coils_loop.simps [simp del]

definition fc15_coils_write :: "'w board \<Rightarrow> u8 list \<Rightarrow> 'w srv \<Rightarrow> u8 list option \<times> 'w srv" where
  "fc15_coils_write B d s =
     (if length d < 6 then (None, s)
      else let addr = io_get_be16 d; qty = io_get_be16 (drop 2 d); num_bytes = unat (d ! 4) in
        if qty = 0 \<or> qty > 2000 then exc_rsp 0x0F MB_EXC_ILLEGAL_DATA_VAL s
        else if (unat qty - 1) div 8 + 1 \<noteq> num_bytes \<or> length d \<noteq> num_bytes + 5
        then exc_rsp 0x0F MB_EXC_ILLEGAL_DATA_VAL s
        else (case coils_loop B d addr qty 0 0 5 (device s) of (ok, dv) \<Rightarrow>
              let s = s\<lparr>device := dv\<rparr>
              in if \<not> ok then exc_rsp 0x0F MB_EXC_ILLEGAL_DATA_ADDR s
                 else (Some (0x0F # io_put_be16 addr @ io_put_be16 qty), s)))"

text \<open>The loop of FC16 over the register values; \<open>prx\<close> is the rest of the data.\<close>

function hregs_loop :: "'w board \<Rightarrow> u16 \<Rightarrow> u16 \<Rightarrow> u16 \<Rightarrow> u8 list \<Rightarrow> 'w dev \<Rightarrow> (bool, 'w dev) outcome" where
  "hregs_loop B addr qty cntr prx s =
     (if cntr < qty then
        outcome_bind (io_write_holding B (addr + cntr) (io_get_be16 prx) s) (\<lambda>rc s.
          if rc \<noteq> 0 then Ret False s else hregs_loop B addr qty (cntr + 1) (drop 2 prx) s)
      else Ret True s)"
  by pat_completeness auto
termination
proof (relation "measure (\<lambda>(B, addr, qty, cntr, prx, s). unat qty - unat cntr)", goal_cases)
  case (2 B addr qty cntr prx s rc s')
  then have "unat (cntr + 1) = Suc (unat cntr)" using unat_Suc_below by blast
  then show ?case using 2 by (simp add: word_less_nat_alt)
qed simp

declare hregs_loop.simps [simp del]

definition fc16_hregs_write :: "'w board \<Rightarrow> u8 list \<Rightarrow> 'w srv \<Rightarrow> (u8 list option, 'w srv) outcome" where
  "fc16_hregs_write B d s =
     (if length d < 6 then Ret None s
      else let addr = io_get_be16 d; qty = io_get_be16 (drop 2 d); num_bytes = unat (d ! 4) in
        if qty = 0 \<or> qty > 125 then ret_pair (exc_rsp 0x10 MB_EXC_ILLEGAL_DATA_VAL s)
        else if addr \<ge> MB_FP_EXTENSIONS_ADDR then ret_pair (exc_rsp 0x10 MB_EXC_ILLEGAL_FC s)
        else if length d - 5 \<noteq> num_bytes then ret_pair (exc_rsp 0x10 MB_EXC_ILLEGAL_DATA_VAL s)
        else if num_bytes div unat qty \<noteq> 2 then ret_pair (exc_rsp 0x10 MB_EXC_ILLEGAL_DATA_VAL s)
        else outcome_bind (lift_dev s (hregs_loop B addr qty 0 (drop 5 d) (device s))) (\<lambda>ok s.
          if \<not> ok then ret_pair (exc_rsp 0x10 MB_EXC_ILLEGAL_DATA_ADDR s)
          else Ret (Some (0x10 # io_put_be16 addr @ io_put_be16 qty)) s))"

definition mb_server_process :: "'w board \<Rightarrow> u8 list \<Rightarrow> 'w srv \<Rightarrow> (u8 list option, 'w srv) outcome" where
  "mb_server_process B inp s =
     (case inp of
        [] \<Rightarrow> Ret None s
      | fc # d \<Rightarrow>
          let s = mb_server_diag_count MB_DIAG_SRV_MSG (mb_server_diag_count MB_DIAG_BUS_MSG s) in
          if fc = 0x01 then ret_pair (fc01_coil_read d s)
          else if fc = 0x02 then ret_pair (fc02_di_read d s)
          else if fc = 0x03 then ret_pair (fc03_hreg_read d s)
          else if fc = 0x04 then ret_pair (fc04_inreg_read d s)
          else if fc = 0x05 then ret_pair (fc05_coil_write B d s)
          else if fc = 0x06 then fc06_hreg_write B d s
          else if fc = 0x08 then ret_pair (fc08_diagnostics d s)
          else if fc = 0x0F then ret_pair (fc15_coils_write B d s)
          else if fc = 0x10 then fc16_hregs_write B d s
          else ret_pair (exc_rsp fc MB_EXC_ILLEGAL_FC s))"

section \<open>Tables of bits and registers\<close>

text \<open>
  What the read loops rely on: a callback that accepts exactly the addresses below its limit. The
  coils, the discrete inputs, the holding registers and the input registers are four such tables.
\<close>

locale table =
  fixes rd :: "u16 \<Rightarrow> 'a option" and limit :: nat
  assumes refuses: "rd a = None \<longleftrightarrow> limit \<le> unat a"
    and limit_small: "limit < 65536"
begin

lemma accepts: "unat a < limit \<Longrightarrow> rd a = Some (the (rd a))"
  using refuses [of a] by auto

lemma next_addr: "unat a < limit \<Longrightarrow> unat (a + 1) = Suc (unat (a :: u16))"
  using limit_small by (simp add: unat_word_ariths)

end

locale bit_table = table rd limit for rd :: "u16 \<Rightarrow> bool option" and limit
locale reg_table = table rd limit for rd :: "u16 \<Rightarrow> u16 option" and limit

context reg_table
begin

lemma regs_loop_spec:
  "regs_loop rd addr qty out =
     (if qty = 0 \<or> unat addr + unat qty \<le> limit
      then Some (out @ concat (map (\<lambda>i. io_put_be16 (the (rd (of_nat i)))) [unat addr..<unat addr + unat qty]))
      else None)"
proof (induction "unat qty" arbitrary: addr qty out)
  case 0
  then show ?case by (simp add: regs_loop.simps [of rd addr] unat_eq_0)
next
  case (Suc n)
  then have q0: "qty \<noteq> 0" by auto
  then have "unat (qty - 1) = n" using Suc.hyps(2) by (simp add: unat_minus_one)
  note q = q0 this
  show ?case
  proof (cases "unat addr < limit")
    case False
    then have "rd addr = None" by (simp add: refuses)
    then show ?thesis using q False Suc.hyps(2) by (simp add: regs_loop.simps [of rd addr qty] word_gt_0)
  next
    case True
    have "[unat addr..<unat addr + Suc n] = unat addr # [Suc (unat addr)..<Suc (unat addr) + n]"
      by (simp add: upt_conv_Cons del: upt_Suc)
    moreover have "qty - 1 = 0 \<longleftrightarrow> n = 0" using q(2) by (metis unat_eq_0)
    ultimately show ?thesis
      using Suc.hyps(1) [of "qty - 1" "addr + 1"] q accepts [OF True] next_addr [OF True] Suc.hyps(2) True
      by (cases "rd addr") (auto simp: regs_loop.simps [of rd addr qty] word_gt_0 simp del: upt_Suc)
  qed
qed

end

text \<open>The bit loop, with its position and mask determined by the counter.\<close>

definition set_at :: "nat \<Rightarrow> u8 list \<Rightarrow> u8 list" where
  "set_at n buf = buf[n div 8 := buf ! (n div 8) OR push_bit (n mod 8) 1]"

definition bits_at :: "(u16 \<Rightarrow> bool option) \<Rightarrow> u16 \<Rightarrow> nat \<Rightarrow> nat \<Rightarrow> u8 list \<Rightarrow> u8 list option" where
  "bits_at rd addr n q buf = bits_loop rd addr (of_nat n) (of_nat q) (n div 8) (push_bit (n mod 8) 1) buf"

lemma bits_at_end: "n = q \<Longrightarrow> bits_at rd addr n q buf = Some buf"
  by (simp add: bits_at_def bits_loop.simps)

lemma mod_8_Suc: "Suc n mod 8 = 0 \<Longrightarrow> Suc n div 8 = Suc (n div 8)"
  "Suc n mod 8 \<noteq> 0 \<Longrightarrow> Suc n div 8 = n div 8 \<and> Suc n mod 8 = Suc (n mod 8)"
  by (auto simp: div_Suc mod_Suc split: if_splits)

lemma bits_at_step:
  assumes "n < q" "q < 65536"
  shows "bits_at rd addr n q buf = (case rd addr of None \<Rightarrow> None
    | Some st \<Rightarrow> bits_at rd (addr + 1) (Suc n) q (if st then set_at n buf else buf))"
proof -
  have lt: "(of_nat n :: u16) < of_nat q" using assms by (simp add: word_less_nat_alt unat_of_nat)
  have "unat (of_nat (Suc n) mod 8 :: u16) = Suc n mod 8"
    using assms by (simp only: unat_mod unat_of_nat) (simp add: mod_mod_cancel)
  then have m: "(of_nat n + 1) mod 8 = (0 :: u16) \<longleftrightarrow> Suc n mod 8 = 0"
    by (metis add.commute of_nat_Suc unat_eq_0)
  have w: "of_nat n + 1 = (of_nat (Suc n) :: u16)" by simp
  show ?thesis
    using mod_8_Suc [of n] m
    by (auto simp: bits_at_def bits_loop.simps [of rd addr "of_nat n"] lt Let_def set_at_def w
        split: option.split simp del: of_nat_Suc push_bit_of_1)
qed

lemma bit_set_at:
  assumes "n div 8 < length buf"
  shows "bit (set_at n buf ! (i div 8)) (i mod 8) \<longleftrightarrow> bit (buf ! (i div 8)) (i mod 8) \<or> i = n"
proof (cases "i div 8 = n div 8")
  case True
  then have "i mod 8 = n mod 8 \<longleftrightarrow> i = n" by (metis div_mult_mod_eq)
  then show ?thesis using assms True
    by (auto simp: set_at_def bit_or_iff bit_exp_iff possible_bit_def)
next
  case False
  then show ?thesis by (auto simp: set_at_def)
qed

lemma length_set_at [simp]: "length (set_at n buf) = length buf"
  by (simp add: set_at_def)


context bit_table
begin

lemma bits_at_spec:
  assumes "n \<le> q" "q < 65536" "q \<le> 8 * length buf"
  shows "if n = q \<or> unat addr + (q - n) \<le> limit
    then \<exists>out. bits_at rd addr n q buf = Some out \<and> length out = length buf \<and>
      (\<forall>i<8 * length buf. bit (out ! (i div 8)) (i mod 8) \<longleftrightarrow> bit (buf ! (i div 8)) (i mod 8) \<or>
         (n \<le> i \<and> i < q \<and> the (rd (of_nat (unat addr + (i - n))))))
    else bits_at rd addr n q buf = None"
  using assms
proof (induction "q - n" arbitrary: n addr buf)
  case 0
  then show ?case by (auto simp: bits_at_end)
next
  case (Suc k)
  then have n: "n < q" "q - Suc n = k" by auto
  show ?case
  proof (cases "unat addr < limit")
    case False
    then have "rd addr = None" by (simp add: refuses)
    then show ?thesis using bits_at_step [OF n(1) Suc.prems(2)] n False by auto
  next
    case True
    let ?st = "the (rd addr)" let ?buf = "if ?st then set_at n buf else buf"
    have st: "bits_at rd addr n q buf = bits_at rd (addr + 1) (Suc n) q ?buf"
      using bits_at_step [OF n(1) Suc.prems(2), of rd addr buf] accepts [OF True] by (auto split: option.splits)
    have len: "length ?buf = length buf" "n div 8 < length buf" using n(1) Suc.prems(3) by auto
    have bit: "bit (?buf ! (i div 8)) (i mod 8) \<longleftrightarrow> bit (buf ! (i div 8)) (i mod 8) \<or> (i = n \<and> ?st)" for i
      using bit_set_at [OF len(2), of i] by auto
    have IH: "if Suc n = q \<or> unat (addr + 1) + (q - Suc n) \<le> limit
      then \<exists>out. bits_at rd (addr + 1) (Suc n) q ?buf = Some out \<and> length out = length ?buf \<and>
        (\<forall>i<8 * length ?buf. bit (out ! (i div 8)) (i mod 8) \<longleftrightarrow> bit (?buf ! (i div 8)) (i mod 8) \<or>
           (Suc n \<le> i \<and> i < q \<and> the (rd (of_nat (unat (addr + 1) + (i - Suc n))))))
      else bits_at rd (addr + 1) (Suc n) q ?buf = None"
      using Suc.hyps(1) [of "Suc n" ?buf "addr + 1"] n Suc.prems len by simp
    have eq: "Suc n = q \<or> unat (addr + 1) + (q - Suc n) \<le> limit \<longleftrightarrow> n = q \<or> unat addr + (q - n) \<le> limit"
      using n True next_addr [OF True] by auto
    have pos: "(i = n \<and> ?st) \<or> (Suc n \<le> i \<and> i < q \<and> the (rd (of_nat (unat (addr + 1) + (i - Suc n))))) \<longleftrightarrow>
        n \<le> i \<and> i < q \<and> the (rd (of_nat (unat addr + (i - n))))" for i
    proof (cases "i = n")
      case False
      then have "Suc n \<le> i \<Longrightarrow> unat (addr + 1) + (i - Suc n) = unat addr + (i - n)" using next_addr [OF True] by simp
      then show ?thesis using False by (auto simp: Suc_le_eq)
    qed (use n in simp)
    show ?thesis using IH unfolding st eq len bit disj_assoc pos .
  qed
qed

end

interpretation coils: bit_table "coil_rd_cb s" DO_NUM for s :: "'w dev"
  by unfold_locales (simp_all add: coil_rd_cb_def io_coil_rd_bit hub_defs)

interpretation discretes: bit_table "discrete_input_rd_cb s" DI_NUM for s :: "'w dev"
  by unfold_locales (simp_all add: discrete_input_rd_cb_def io_discrete_rd_bit hub_defs)

interpretation holdings: reg_table "holding_reg_rd_cb s" MODBUS_HOLDING_REGISTER_NUMBERS for s :: "'w dev"
  by unfold_locales (simp_all add: holding_reg_rd_cb_def hub_defs)

interpretation inputs: reg_table "input_reg_rd_cb s" MODBUS_INPUT_REGISTER_NUMBERS for s :: "'w dev"
  by unfold_locales (simp_all add: input_reg_rd_cb_def hub_defs)

section \<open>Responses to reads\<close>

lemma io_get_be16_2 [simp]: "io_get_be16 (io_put_be16 v) = v"
  using io_get_put_be16 [of v "[]"] by simp

lemma drop_put_be16 [simp]: "drop 2 (io_put_be16 v @ r) = r"
  by simp

lemma length_concat_be16 [simp]: "length (concat (map (\<lambda>i. io_put_be16 (f i)) xs)) = 2 * length xs"
  by (induction xs) simp_all

lemma ucast_twice: "unat (qty :: u16) \<le> 125 \<Longrightarrow> (ucast (qty * 2) :: u8) = of_nat (2 * unat qty)"
proof -
  assume "unat qty \<le> 125"
  then have "unat (qty * 2) = 2 * unat qty" by (simp add: unat_word_ariths)
  then show ?thesis by (metis of_nat_unat)
qed

text \<open>A request is counted before it is decoded; the device is not touched by that.\<close>

lemma diag_count_device [simp]: "device (mb_server_diag_count c s) = device s"
  by (simp add: mb_server_diag_count_def)

lemma exc_rsp_sel [simp]: "fst (exc_rsp fc code s) = Some [fc OR 0x80, code]" "device (snd (exc_rsp fc code s)) = device s"
  by (simp_all add: exc_rsp_def)

lemma ret_pair_sel [simp]: "outcome_val (ret_pair p) = Some (fst p)" "outcome_state (ret_pair p) = snd p"
  by (simp_all add: ret_pair_def)

text \<open>The answer to a read of registers, by request.\<close>

definition reg_answer :: "u8 \<Rightarrow> (nat \<Rightarrow> u16) \<Rightarrow> nat \<Rightarrow> nat \<Rightarrow> nat \<Rightarrow> u8 list" where
  "reg_answer fc val limit addr qty =
     (if qty = 0 \<or> qty > 125 then [fc OR 0x80, 3]
      else if addr \<ge> 5000 then [fc OR 0x80, 1]
      else if addr + qty > limit then [fc OR 0x80, 2]
      else fc # of_nat (2 * qty) # concat (map (\<lambda>i. io_put_be16 (val i)) [addr..<addr + qty]))"

context reg_table
begin

lemma read_regs_answer:
  "fst (read_regs fc rd (io_put_be16 addr @ io_put_be16 qty) s) =
     Some (reg_answer fc (\<lambda>i. the (rd (of_nat i))) limit (unat addr) (unat qty))"
  "device (snd (read_regs fc rd (io_put_be16 addr @ io_put_be16 qty) s)) = device s"
proof -
  have c: "qty = 0 \<longleftrightarrow> unat qty = 0" "qty > 125 \<longleftrightarrow> unat qty > 125" "addr \<ge> 5000 \<longleftrightarrow> unat addr \<ge> 5000"
    by (simp_all add: unat_eq_0 word_less_nat_alt word_le_nat_alt)
  show "fst (read_regs fc rd (io_put_be16 addr @ io_put_be16 qty) s) =
     Some (reg_answer fc (\<lambda>i. the (rd (of_nat i))) limit (unat addr) (unat qty))"
    by (auto simp: read_regs_def Let_def reg_answer_def regs_loop_spec c hub_defs ucast_twice)
  show "device (snd (read_regs fc rd (io_put_be16 addr @ io_put_be16 qty) s)) = device s"
    by (simp add: read_regs_def Let_def split: option.split)
qed

end

text \<open>
  (C6) Reading registers: for every address and count, function 03 answers with the values of the
  holding registers (the two time registers showing the running clock) and function 04 with those of
  the input registers, high byte first; a count outside 1 .. 125, an address from 5000 on and a range
  past the last register give exceptions 3, 1 and 2. Reading changes nothing but the message counters.
\<close>

theorem read_registers_answer:
  fixes s :: "'w srv"
  shows "outcome_val (mb_server_process B (0x03 # io_put_be16 addr @ io_put_be16 qty) s) =
     Some (Some (reg_answer 0x03 (\<lambda>i. io_read_holding (of_nat i) (device s)) 18 (unat addr) (unat qty)))
   \<and> outcome_val (mb_server_process B (0x04 # io_put_be16 addr @ io_put_be16 qty) s) =
     Some (Some (reg_answer 0x04 (\<lambda>i. get_input_reg (of_nat i) (device s)) 6 (unat addr) (unat qty)))
   \<and> device (outcome_state (mb_server_process B (0x03 # io_put_be16 addr @ io_put_be16 qty) s)) = device s
   \<and> device (outcome_state (mb_server_process B (0x04 # io_put_be16 addr @ io_put_be16 qty) s)) = device s"
proof -
  have h: "reg_answer 3 (\<lambda>i. the (holding_reg_rd_cb dv (of_nat i))) 18 a q = reg_answer 3 (\<lambda>i. io_read_holding (of_nat i) dv) 18 a q"
    for dv :: "'w dev" and a q
    by (auto simp: reg_answer_def holding_reg_rd_cb_def hub_defs unat_of_nat intro!: arg_cong [where f = concat])
  have i: "reg_answer 4 (\<lambda>i. the (input_reg_rd_cb dv (of_nat i))) 6 a q = reg_answer 4 (\<lambda>i. get_input_reg (of_nat i) dv) 6 a q"
    for dv :: "'w dev" and a q
    by (auto simp: reg_answer_def input_reg_rd_cb_def hub_defs unat_of_nat intro!: arg_cong [where f = concat])
  have n: "MODBUS_HOLDING_REGISTER_NUMBERS = 18" "MODBUS_INPUT_REGISTER_NUMBERS = 6" by (simp_all add: hub_defs)
  show ?thesis
    by (simp add: mb_server_process_def Let_def fc03_hreg_read_def fc04_inreg_read_def h i
        holdings.read_regs_answer [unfolded n] inputs.read_regs_answer [unfolded n])
qed


text \<open>The answer to a read of bits, by request: eight to a byte, the first in the lowest bit.\<close>

definition bit_answer :: "u8 \<Rightarrow> (nat \<Rightarrow> bool) \<Rightarrow> nat \<Rightarrow> nat \<Rightarrow> nat \<Rightarrow> u8 list \<Rightarrow> bool" where
  "bit_answer fc val limit addr qty rsp \<longleftrightarrow>
     (if qty = 0 \<or> qty > 2000 then rsp = [fc OR 0x80, 3]
      else if addr + qty > limit then rsp = [fc OR 0x80, 2]
      else let n = (qty + 7) div 8 in
        length rsp = n + 2 \<and> rsp ! 0 = fc \<and> rsp ! 1 = of_nat n
        \<and> (\<forall>i<8 * n. bit (rsp ! (2 + i div 8)) (i mod 8) \<longleftrightarrow> i < qty \<and> val (addr + i)))"

lemma bit_answer_cong:
  assumes "\<And>k. k < limit \<Longrightarrow> val k = val' k"
  shows "bit_answer fc val limit a q rsp = bit_answer fc val' limit a q rsp"
proof -
  have "(i < q \<and> val (a + i)) = (i < q \<and> val' (a + i))" if "\<not> a + q > limit" for i
    using assms [of "a + i"] that by auto
  then show ?thesis by (auto simp: bit_answer_def Let_def)
qed

context bit_table
begin

lemma read_bits_answer:
  "\<exists>rsp. fst (read_bits fc rd (io_put_be16 addr @ io_put_be16 qty) s) = Some rsp
    \<and> bit_answer fc (\<lambda>i. the (rd (of_nat i))) limit (unat addr) (unat qty) rsp"
  "device (snd (read_bits fc rd (io_put_be16 addr @ io_put_be16 qty) s)) = device s"
proof -
  show "device (snd (read_bits fc rd (io_put_be16 addr @ io_put_be16 qty) s)) = device s"
    by (simp add: read_bits_def Let_def split: option.split)
  have c: "qty = 0 \<longleftrightarrow> unat qty = 0" "qty > 2000 \<longleftrightarrow> unat qty > 2000"
    by (simp_all add: unat_eq_0 word_less_nat_alt)
  show "\<exists>rsp. fst (read_bits fc rd (io_put_be16 addr @ io_put_be16 qty) s) = Some rsp
    \<and> bit_answer fc (\<lambda>i. the (rd (of_nat i))) limit (unat addr) (unat qty) rsp"
  proof (cases "qty = 0 \<or> qty > 2000")
    case True
    then show ?thesis by (auto simp: read_bits_def bit_answer_def c hub_defs)
  next
    case False
    let ?n = "(unat qty + 7) div 8"
    have q: "0 < unat qty" "unat qty \<le> 2000" using False c by auto
    have q1: "unat (qty - 1) = unat qty - 1" using False by (simp add: unat_minus_one)
    have nb: "unat ((qty - 1) div 8 + 1) = ?n"
    proof -
      have "unat ((qty - 1) div 8) = (unat qty - 1) div 8" by (simp add: unat_div q1)
      moreover have "(unat qty - 1) div 8 + 1 = ?n" using q(1) by (cases "unat qty") (simp_all add: div_add_self2 [symmetric])
      moreover have "?n \<le> 250" using q(2) by simp
      ultimately show ?thesis by (simp add: unat_word_ariths)
    qed
    then have nb8: "(ucast ((qty - 1) div 8 + 1) :: u8) = of_nat ?n" by (metis of_nat_unat)
    have loop: "bits_loop rd addr 0 qty 0 1 buf = bits_at rd addr 0 (unat qty) buf" for buf
      by (simp add: bits_at_def)
    have "unat qty \<le> 8 * length (replicate ?n (0 :: u8))" by simp
    note spec = bits_at_spec [OF le0 _ this, of addr, simplified]
    show ?thesis
    proof (cases "unat addr + unat qty \<le> limit")
      case True
      then obtain out where out: "bits_at rd addr 0 (unat qty) (replicate ?n 0) = Some out" "length out = ?n"
        "\<forall>i<8 * ?n. bit (out ! (i div 8)) (i mod 8) \<longleftrightarrow> i < unat qty \<and> the (rd (of_nat (unat addr + i)))"
        using spec q by (auto simp: less_mult_imp_div_less mult.commute)
      then show ?thesis using False True q
        by (auto simp: read_bits_def Let_def nb nb8 loop bit_answer_def c hub_defs nth_Cons')
    next
      case addr: False
      then have "bits_at rd addr 0 (unat qty) (replicate ?n 0) = None" using spec q by auto
      then show ?thesis using False addr q
        by (auto simp: read_bits_def Let_def nb loop bit_answer_def c hub_defs)
    qed
  qed
qed

end


text \<open>
  (C7) Reading bits: for every address and count, function 01 answers with the states of the
  outputs and function 02 with the states of the digital inputs, packed eight to a byte from the
  lowest bit up with the unused bits of the last byte zero; a count outside 1 .. 2000 and a range past
  the last bit give exceptions 3 and 2. Reading changes nothing but the message counters.
\<close>

theorem read_coils_answer:
  fixes s :: "'w srv"
  shows "(\<exists>rsp. outcome_val (mb_server_process B (0x01 # io_put_be16 addr @ io_put_be16 qty) s) = Some (Some rsp)
       \<and> bit_answer 0x01 (bit (holding_reg (device s) ! HOLDING_DO_IDX)) 8 (unat addr) (unat qty) rsp)
   \<and> (\<exists>rsp. outcome_val (mb_server_process B (0x02 # io_put_be16 addr @ io_put_be16 qty) s) = Some (Some rsp)
       \<and> bit_answer 0x02 (bit (input_reg (device s) ! INPUT_DI_IDX)) 16 (unat addr) (unat qty) rsp)
   \<and> device (outcome_state (mb_server_process B (0x01 # io_put_be16 addr @ io_put_be16 qty) s)) = device s
   \<and> device (outcome_state (mb_server_process B (0x02 # io_put_be16 addr @ io_put_be16 qty) s)) = device s"
proof -
  have c: "bit_answer fc (\<lambda>i. the (coil_rd_cb dv (of_nat i))) 8 a q rsp
      = bit_answer fc (bit (holding_reg dv ! HOLDING_DO_IDX)) 8 a q rsp" for fc a q rsp and dv :: "'w dev"
    by (rule bit_answer_cong) (simp add: coil_rd_cb_def io_coil_rd_bit unat_of_nat hub_defs)
  have d: "bit_answer fc (\<lambda>i. the (discrete_input_rd_cb dv (of_nat i))) 16 a q rsp
      = bit_answer fc (bit (input_reg dv ! INPUT_DI_IDX)) 16 a q rsp" for fc a q rsp and dv :: "'w dev"
    by (rule bit_answer_cong) (simp add: discrete_input_rd_cb_def io_discrete_rd_bit unat_of_nat hub_defs)
  have n: "DO_NUM = 8" "DI_NUM = 16" by (simp_all add: hub_defs)
  let ?t = "mb_server_diag_count MB_DIAG_SRV_MSG (mb_server_diag_count MB_DIAG_BUS_MSG s)"
  show ?thesis
    using coils.read_bits_answer(1) [of 1 "device s" addr qty ?t, unfolded n c]
      discretes.read_bits_answer(1) [of 2 "device s" addr qty ?t, unfolded n d]
    by (simp add: mb_server_process_def Let_def fc01_coil_read_def fc02_di_read_def
        coils.read_bits_answer(2) discretes.read_bits_answer(2))
qed

section \<open>Shape of every response\<close>

text \<open>A response fits the PDU buffer and is for the function asked: an answer or an exception.\<close>

definition rsp_shape :: "u8 \<Rightarrow> u8 list \<Rightarrow> bool" where
  "rsp_shape fc rsp \<longleftrightarrow> 2 \<le> length rsp \<and> length rsp \<le> 252 \<and>
     (hd rsp = fc \<or> (length rsp = 2 \<and> hd rsp = fc OR 0x80 \<and> rsp ! 1 \<in> {1, 2, 3}))"

definition shaped :: "u8 \<Rightarrow> u8 list option \<Rightarrow> bool" where
  "shaped fc r \<longleftrightarrow> (case r of None \<Rightarrow> True | Some rsp \<Rightarrow> rsp_shape fc rsp)"

lemma shaped_simps [simp]: "shaped fc None" "shaped fc (Some rsp) = rsp_shape fc rsp"
  by (simp_all add: shaped_def)

lemma shaped_exc: "shaped fc (fst (exc_rsp fc MB_EXC_ILLEGAL_FC s))"
  "shaped fc (fst (exc_rsp fc MB_EXC_ILLEGAL_DATA_ADDR s))" "shaped fc (fst (exc_rsp fc MB_EXC_ILLEGAL_DATA_VAL s))"
  by (simp_all add: rsp_shape_def hub_defs)

lemma shaped_echo: "shaped fc (Some (fc # io_put_be16 a @ io_put_be16 b))"
  by (simp add: rsp_shape_def)

lemma length_4_be16: "length d = 4 \<Longrightarrow> d = io_put_be16 (io_get_be16 d) @ io_put_be16 (io_get_be16 (drop 2 d))"
  by (erule length_4E) (auto simp: io_put_be16_def io_get_be16_def bit_eq_iff bit_simps dest: bit_imp_le_length)

lemma shaped_read_regs:
  assumes "reg_table rd limit" "limit \<le> 125"
  shows "shaped fc (fst (read_regs fc rd d s))"
proof (cases "length d = 4")
  case True
  have "rsp_shape fc (reg_answer fc val limit a q)" for val a q
    using assms(2) by (auto simp: reg_answer_def rsp_shape_def)
  then show ?thesis using reg_table.read_regs_answer(1) [OF assms(1), of fc "io_get_be16 d" "io_get_be16 (drop 2 d)" s]
    by (simp flip: length_4_be16 [OF True])
qed (simp add: read_regs_def)

lemma shaped_read_bits:
  assumes "bit_table rd limit" "limit \<le> 2000"
  shows "shaped fc (fst (read_bits fc rd d s))"
proof (cases "length d = 4")
  case True
  have "rsp_shape fc rsp" if "bit_answer fc val limit a q rsp" for val a q rsp
  proof -
    have "(q + 7) div 8 \<le> 250" if "q \<le> 2000" for q :: nat using that by simp
    then show ?thesis using that assms(2)
      by (cases rsp) (auto simp: bit_answer_def rsp_shape_def Let_def split: if_splits)
  qed
  then show ?thesis using bit_table.read_bits_answer(1) [OF assms(1), of fc "io_get_be16 d" "io_get_be16 (drop 2 d)" s]
    by (auto simp flip: length_4_be16 [OF True])
qed (simp add: read_bits_def)


section \<open>Writing several coils\<close>

lemma io_write_do_bit_coil:
  assumes "wf_dev s" "io_write_do_bit B b on s = (rc, s')"
  shows "wf_dev s'" "rc = 0 \<longleftrightarrow> unat b < DO_NUM" "rc \<noteq> 0 \<Longrightarrow> s' = s"
    and "rc = 0 \<Longrightarrow> k < DO_NUM \<Longrightarrow> bit (holding_reg s' ! HOLDING_DO_IDX) k
      \<longleftrightarrow> (if k = unat b then on else bit (holding_reg s ! HOLDING_DO_IDX) k)"
    and "0 < j \<Longrightarrow> holding_reg s' ! j = holding_reg s ! j" "input_reg s' = input_reg s"
proof -
  let ?v = "write_bit (holding_reg s ! HOLDING_DO_IDX) (unat b) on AND 0xFF"
  have eq: "if unat b < DO_NUM
      then rc = 0 \<and> s' = (dev_set_do B ?v s)\<lparr>holding_reg := (holding_reg s)[HOLDING_DO_IDX := ?v]\<rparr>
      else rc = - 1 \<and> s' = s"
    using assms(2) by (auto simp: io_write_do_bit_def Let_def)
  then show "wf_dev s'" "rc = 0 \<longleftrightarrow> unat b < DO_NUM" "rc \<noteq> 0 \<Longrightarrow> s' = s" "input_reg s' = input_reg s"
    using assms(1) by (auto simp: wf_dev_def split: if_splits)
  show "holding_reg s' ! j = holding_reg s ! j" if "0 < j"
    using eq that by (auto simp: HOLDING_DO_IDX_def split: if_splits)
  show "bit (holding_reg s' ! HOLDING_DO_IDX) k
      \<longleftrightarrow> (if k = unat b then on else bit (holding_reg s ! HOLDING_DO_IDX) k)" if "rc = 0" "k < DO_NUM"
    using eq that assms(1)
    by (auto simp: wf_dev_def bit_and_255 bit_write_bit DO_NUM_def HOLDING_DO_IDX_def
        MODBUS_HOLDING_REGISTER_NUMBERS_def split: if_splits)
qed

text \<open>Bit \<open>i\<close> of the data bytes of the request.\<close>

definition data_bit :: "u8 list \<Rightarrow> nat \<Rightarrow> bool" where
  "data_bit d i = bit (d ! (5 + i div 8)) (i mod 8)"

lemma ceil_8: "(n + 7) div 8 = (if n mod 8 = 0 then n div 8 else Suc (n div 8))" for n :: nat
proof -
  have "(n + 7) div 8 = n div 8 + (n mod 8 + 7) div 8" by (simp add: div_add1_eq [of n 7])
  moreover have "(n mod 8 + 7) div 8 = 1" if "n mod 8 \<noteq> 0"
    using that mod_less_divisor [of 8 n] by (intro div_nat_eqI) simp_all
  ultimately show ?thesis by simp
qed

lemma coils_loop_step:
  assumes "n < q" "q < 65536" "n \<le> 8" "ix = of_nat (5 + (n + 7) div 8)"
    and "n mod 8 \<noteq> 0 \<Longrightarrow> temp = drop_bit (n mod 8) (d ! (5 + n div 8))"
  shows "\<exists>temp' ix'. coils_loop B d addr (of_nat q) (of_nat n) temp ix s =
      (case io_write_do_bit B (addr + of_nat n) (data_bit d n) s of (rc, s') \<Rightarrow>
       if rc \<noteq> 0 then (False, s') else coils_loop B d addr (of_nat q) (of_nat (Suc n)) temp' ix' s')
    \<and> ix' = of_nat (5 + (Suc n + 7) div 8)
    \<and> (Suc n mod 8 \<noteq> 0 \<longrightarrow> temp' = drop_bit (Suc n mod 8) (d ! (5 + Suc n div 8)))"
proof -
  let ?t = "drop_bit (n mod 8) (d ! (5 + n div 8))"
  let ?ix = "of_nat (5 + (Suc n + 7) div 8) :: u8"
  have lt: "(of_nat n :: u16) < of_nat q" using assms by (simp add: word_less_nat_alt unat_of_nat)
  have "unat (of_nat n mod 8 :: u16) = n mod 8" using assms by (simp add: unat_mod unat_of_nat)
  then have m: "(of_nat n mod 8 = (0 :: u16)) = (n mod 8 = 0)" by (metis unat_eq_0)
  have sel: "(if of_nat n mod 8 = (0 :: u16) then (d ! unat ix, ix + 1) else (temp, ix)) = (?t, ?ix)"
  proof (cases "n mod 8 = 0")
    case True
    then have "(n + 7) div 8 = n div 8" "(Suc n + 7) div 8 = Suc (n div 8)"
      using ceil_8 [of n] by simp_all
    moreover have "unat (of_nat (5 + n div 8) :: u8) = 5 + n div 8"
      using assms(3) by (simp add: unat_of_nat del: of_nat_add)
    ultimately show ?thesis using True m assms(4) by (simp del: of_nat_add) (simp add: algebra_simps)
  next
    case False
    then have "(n + 7) div 8 = (Suc n + 7) div 8" using ceil_8 [of n] by simp
    then show ?thesis using False m assms(4,5) by simp
  qed
  have b: "?t AND 1 \<noteq> 0 \<longleftrightarrow> data_bit d n"
    by (simp add: data_bit_def and_one_eq odd_iff_mod_2_eq_one [symmetric] bit_iff_odd_drop_bit)
  have w: "of_nat n + 1 = (of_nat (Suc n) :: u16)" by simp
  have t: "Suc n mod 8 \<noteq> 0 \<longrightarrow> drop_bit 1 ?t = drop_bit (Suc n mod 8) (d ! (5 + Suc n div 8))"
    using mod_8_Suc(2) [of n] by (simp add: drop_bit_drop_bit add.commute)
  show ?thesis
    using t by (intro exI [of _ "drop_bit 1 ?t"] exI [of _ ?ix])
      (simp only: coils_loop.simps [of B d addr "of_nat q" "of_nat n"] lt if_True sel Let_def prod.case b w simp_thms)
qed


lemma coils_loop_end: "coils_loop B d addr q q temp ix s = (True, s)"
  by (simp add: coils_loop.simps)

lemma coils_loop_spec:
  assumes "wf_dev s" "n \<le> q" "q < 65536" "0 < n \<longrightarrow> unat addr + n \<le> 8" "ix = of_nat (5 + (n + 7) div 8)"
    and "n mod 8 \<noteq> 0 \<longrightarrow> temp = drop_bit (n mod 8) (d ! (5 + n div 8))"
    and "coils_loop B d addr (of_nat q) (of_nat n) temp ix s = (ok, s')"
  shows "wf_dev s' \<and> input_reg s' = input_reg s \<and> (\<forall>j>0. holding_reg s' ! j = holding_reg s ! j)
    \<and> ok = (n = q \<or> unat addr + q \<le> 8)
    \<and> (\<forall>k<8. bit (holding_reg s' ! HOLDING_DO_IDX) k \<longleftrightarrow>
         (if unat addr + n \<le> k \<and> k < unat addr + q then data_bit d (k - unat addr)
          else bit (holding_reg s ! HOLDING_DO_IDX) k))"
  using assms
proof (induction "q - n" arbitrary: n temp ix s)
  case 0
  then have "n = q" by simp
  with 0 show ?case by (auto simp: coils_loop_end)
next
  case (Suc m)
  then have n: "n < q" "m = q - Suc n" "n \<le> 8" by auto
  obtain temp' ix' where st: "coils_loop B d addr (of_nat q) (of_nat n) temp ix s =
      (case io_write_do_bit B (addr + of_nat n) (data_bit d n) s of (rc, s') \<Rightarrow>
       if rc \<noteq> 0 then (False, s') else coils_loop B d addr (of_nat q) (of_nat (Suc n)) temp' ix' s')"
    and nxt: "ix' = of_nat (5 + (Suc n + 7) div 8)"
      "Suc n mod 8 \<noteq> 0 \<longrightarrow> temp' = drop_bit (Suc n mod 8) (d ! (5 + Suc n div 8))"
    using coils_loop_step [OF n(1) Suc.prems(3) n(3) Suc.prems(5), of temp d B addr s] Suc.prems(6) by blast
  obtain rc s1 where w: "io_write_do_bit B (addr + of_nat n) (data_bit d n) s = (rc, s1)" by fastforce
  note c = io_write_do_bit_coil [OF Suc.prems(1) w]
  have a: "unat (addr + of_nat n) = unat addr + n"
    using Suc.prems(4) n by (cases "n = 0") (simp_all add: unat_word_ariths unat_of_nat)
  show ?case
  proof (cases "unat addr + n < 8")
    case False
    then have "rc \<noteq> 0" "s1 = s" using c(2,3) a by (auto simp: hub_defs)
    then show ?thesis using st w Suc.prems(1,7) n False by auto
  next
    case True
    then have rc: "rc = 0" using c(2) a by (simp add: hub_defs)
    then have "coils_loop B d addr (of_nat q) (of_nat (Suc n)) temp' ix' s1 = (ok, s')"
      using st w Suc.prems(7) by simp
    from Suc.hyps(1) [OF n(2) c(1) _ Suc.prems(3) _ nxt this] n True
    have IH: "wf_dev s'" "input_reg s' = input_reg s1" "\<forall>j>0. holding_reg s' ! j = holding_reg s1 ! j"
      "ok = (Suc n = q \<or> unat addr + q \<le> 8)"
      "\<And>k. k < 8 \<Longrightarrow> bit (holding_reg s' ! HOLDING_DO_IDX) k \<longleftrightarrow>
         (if unat addr + Suc n \<le> k \<and> k < unat addr + q then data_bit d (k - unat addr)
          else bit (holding_reg s1 ! HOLDING_DO_IDX) k)" by auto
    have "bit (holding_reg s' ! HOLDING_DO_IDX) k \<longleftrightarrow>
         (if unat addr + n \<le> k \<and> k < unat addr + q then data_bit d (k - unat addr)
          else bit (holding_reg s ! HOLDING_DO_IDX) k)" if "k < 8" for k
      using IH(5) [OF that] c(4) [OF rc, of k] that a n by (auto simp: hub_defs)
    moreover have "ok = (n = q \<or> unat addr + q \<le> 8)" using IH(4) n True by auto
    ultimately show ?thesis using IH(1-3) c(5,6) by auto
  qed
qed

text \<open>
  (C5) Writing several coils: a well-formed function 15 request sets the outputs from its address
  on to the bits of its data, lowest bit first, and leaves every other coil and register alone. If
  the range runs past the last output the answer is exception 2, and the outputs before the end of
  the table have been written all the same.
\<close>

theorem write_coils_effect:
  assumes wf: "wf_srv s" and qty: "0 < unat qty" "unat qty \<le> 2000"
    and data: "length bs = (unat qty + 7) div 8"
  shows "\<exists>rsp s'. mb_server_process B (0x0F # io_put_be16 addr @ io_put_be16 qty @ of_nat (length bs) # bs) s = Ret (Some rsp) s'
    \<and> rsp = (if unat addr + unat qty \<le> 8 then 0x0F # io_put_be16 addr @ io_put_be16 qty else [0x8F, 2])
    \<and> (\<forall>k<8. bit (holding_reg (device s') ! HOLDING_DO_IDX) k \<longleftrightarrow>
         (if unat addr \<le> k \<and> k < unat addr + unat qty then bit (bs ! ((k - unat addr) div 8)) ((k - unat addr) mod 8)
          else bit (holding_reg (device s) ! HOLDING_DO_IDX) k))
    \<and> (\<forall>j>0. holding_reg (device s') ! j = holding_reg (device s) ! j) \<and> input_reg (device s') = input_reg (device s)"
proof -
  let ?d = "io_put_be16 addr @ io_put_be16 qty @ of_nat (length bs) # bs"
  let ?t = "mb_server_diag_count MB_DIAG_SRV_MSG (mb_server_diag_count MB_DIAG_BUS_MSG s)"
  have len: "length bs \<le> 250" "0 < length bs" using qty data by auto
  have d4: "?d ! 4 = of_nat (length bs)" "length ?d = length bs + 5" by (simp_all add: io_put_be16_def)
  have db: "data_bit ?d i = bit (bs ! (i div 8)) (i mod 8)" for i
    by (simp add: data_bit_def io_put_be16_def nth_Cons')
  have nb: "(unat qty - 1) div 8 + 1 = unat (of_nat (length bs) :: u8)"
  proof -
    have "(unat qty - 1) div 8 + 1 = (unat qty + 7) div 8" using qty by (cases "unat qty") (simp_all add: div_add_self2 [symmetric])
    then show ?thesis using data len by (simp add: unat_of_nat)
  qed
  obtain ok dv where lp: "coils_loop B ?d addr qty 0 0 5 (device s) = (ok, dv)" by fastforce
  have "wf_dev (device s)" using wf by (simp add: wf_srv_def)
  note sp = coils_loop_spec [of "device s" 0 "unat qty" addr 5 0 ?d B ok dv, simplified, OF this lp [simplified]]
  have ok: "ok \<longleftrightarrow> unat addr + unat qty \<le> 8" and fr: "input_reg dv = input_reg (device s)"
      "\<forall>j>0. holding_reg dv ! j = holding_reg (device s) ! j"
    and bits: "\<forall>k<8. bit (holding_reg dv ! HOLDING_DO_IDX) k \<longleftrightarrow>
         (if unat addr \<le> k \<and> k < unat addr + unat qty then data_bit ?d (k - unat addr)
          else bit (holding_reg (device s) ! HOLDING_DO_IDX) k)"
    using sp qty by auto
  have fc: "fc15_coils_write B ?d ?t = (let s = ?t\<lparr>device := dv\<rparr>
      in if \<not> ok then exc_rsp 0x0F MB_EXC_ILLEGAL_DATA_ADDR s
         else (Some (0x0F # io_put_be16 addr @ io_put_be16 qty), s))"
    using qty len lp nb d4 by (auto simp: fc15_coils_write_def Let_def word_less_nat_alt unat_of_nat)
  show ?thesis
    using ok fr bits
    by (simp add: mb_server_process_def Let_def fc ret_pair_def exc_rsp_def MB_EXC_ILLEGAL_DATA_ADDR_def db)
qed


definition sim_srv :: "sim srv" where
  "sim_srv = \<lparr>diag_ctr = replicate 5 0, device = sim_dev\<rparr>"

lemma sim_srv_wf [simp]: "wf_srv sim_srv"
  by (simp add: wf_srv_def sim_srv_def)

theorem write_coils_effect_witness:
  "\<exists>rsp s'. mb_server_process sim_board (0x0F # io_put_be16 2 @ io_put_be16 3 @ of_nat (length [5 :: u8]) # [5]) sim_srv
      = Ret (Some rsp) s'
    \<and> rsp = (if unat (2 :: u16) + unat (3 :: u16) \<le> 8 then 0x0F # io_put_be16 2 @ io_put_be16 3 else [0x8F, 2])
    \<and> (\<forall>k<8. bit (holding_reg (device s') ! HOLDING_DO_IDX) k \<longleftrightarrow>
         (if unat (2 :: u16) \<le> k \<and> k < unat (2 :: u16) + unat (3 :: u16)
          then bit ([5 :: u8] ! ((k - unat (2 :: u16)) div 8)) ((k - unat (2 :: u16)) mod 8)
          else bit (holding_reg (device sim_srv) ! HOLDING_DO_IDX) k))
    \<and> (\<forall>j>0. holding_reg (device s') ! j = holding_reg (device sim_srv) ! j)
    \<and> input_reg (device s') = input_reg (device sim_srv)"
  by (rule write_coils_effect) simp_all

section \<open>Writing several registers\<close>

lemma io_write_holding_cases:
  assumes "wf_dev s" "trigger_regs_clear s"
  shows "18 \<le> unat a \<Longrightarrow> io_write_holding B a v s = Ret (- 1) s"
    and "unat a = 17 \<Longrightarrow> v \<noteq> 0 \<Longrightarrow> \<exists>s1. io_write_holding B a v s = Reset s1"
    and "unat a < 18 \<Longrightarrow> \<not> (unat a = 17 \<and> v \<noteq> 0) \<Longrightarrow> \<exists>s1. io_write_holding B a v s = Ret 0 s1"
  using assms by (auto simp: io_write_holding_def wf_dev_def trigger_regs_clear_def Let_def hub_defs io_reboot_cold_def)

lemma hregs_loop_end: "hregs_loop B addr q q prx s = Ret True s"
  by (simp add: hregs_loop.simps)

lemma hregs_loop_spec:
  assumes "wf_dev s" "trigger_regs_clear s" "n \<le> q" "length vals = q" "unat addr + q < 65536"
  shows "\<exists>s'. outcome_state (hregs_loop B addr (of_nat q) (of_nat n) (concat (map io_put_be16 (drop n vals))) s) = s'
    \<and> wf_dev s' \<and> trigger_regs_clear s' \<and> input_reg s' = input_reg s
    \<and> (\<forall>k<16. holding_reg s' ! k = (if unat addr + n \<le> k \<and> k < unat addr + q then vals ! (k - unat addr) else holding_reg s ! k))
    \<and> outcome_val (hregs_loop B addr (of_nat q) (of_nat n) (concat (map io_put_be16 (drop n vals))) s) =
        (if unat addr + n \<le> 17 \<and> 17 < unat addr + q \<and> vals ! (17 - unat addr) \<noteq> 0 then None
         else Some (n = q \<or> unat addr + q \<le> 18))"
  using assms(1-3)
proof (induction "q - n" arbitrary: n s)
  case 0
  then have "n = q" by simp
  with 0 assms show ?case by (auto simp: hregs_loop_end)
next
  case (Suc m)
  then have n: "n < q" "m = q - Suc n" by auto
  let ?v = "vals ! n" and ?a = "addr + of_nat n"
  have lt: "(of_nat n :: u16) < of_nat q" using n assms(5) by (simp add: word_less_nat_alt unat_of_nat)
  have a: "unat ?a = unat addr + n" using n assms(5) by (simp add: unat_word_ariths unat_of_nat)
  have dr: "concat (map io_put_be16 (drop n vals)) = io_put_be16 ?v @ concat (map io_put_be16 (drop (Suc n) vals))"
    using n assms(4) by (simp flip: Cons_nth_drop_Suc)
  have st: "hregs_loop B addr (of_nat q) (of_nat n) (concat (map io_put_be16 (drop n vals))) s =
      outcome_bind (io_write_holding B ?a ?v s) (\<lambda>rc s. if rc \<noteq> 0 then Ret False s
        else hregs_loop B addr (of_nat q) (of_nat (Suc n)) (concat (map io_put_be16 (drop (Suc n) vals))) s)"
    using hregs_loop.simps [of B addr "of_nat q" "of_nat n" "concat (map io_put_be16 (drop n vals))" s] lt
    unfolding dr by (simp add: add.commute cong: if_cong)
  note fr = io_write_holding_frame [OF Suc.prems(1), where B = B and addr = ?a and reg = ?v]
    triggers_stay_clear [OF Suc.prems(1,2), of B ?a ?v]
  note cs = io_write_holding_cases [OF Suc.prems(1,2), where B = B and a = ?a and v = ?v]
  have upd: "holding_reg (outcome_state (io_write_holding B ?a ?v s)) ! k =
      (if k = unat addr + n then ?v else holding_reg s ! k)" if "k < 16" for k
    using fr(3) [of k] fr(4) that a by (auto simp: hub_defs)
  consider "18 \<le> unat ?a" | s1 where "unat ?a = 17" "?v \<noteq> 0" "io_write_holding B ?a ?v s = Reset s1"
    | s1 where "unat ?a < 18" "\<not> (unat ?a = 17 \<and> ?v \<noteq> 0)" "io_write_holding B ?a ?v s = Ret 0 s1"
    using cs by force
  then show ?case
  proof cases
    case 1
    then show ?thesis using st cs(1) a n Suc.prems by auto
  next
    case (2 s1)
    then have "17 - unat addr = n" using a by simp
    with 2 show ?thesis using st fr upd a n by auto
  next
    case (3 s1)
    then have s1: "wf_dev s1" "trigger_regs_clear s1" "input_reg s1 = input_reg s"
      "\<And>k. k < 16 \<Longrightarrow> holding_reg s1 ! k = (if k = unat addr + n then ?v else holding_reg s ! k)"
      using fr upd by auto
    have eq: "hregs_loop B addr (of_nat q) (of_nat n) (concat (map io_put_be16 (drop n vals))) s =
        hregs_loop B addr (of_nat q) (of_nat (Suc n)) (concat (map io_put_be16 (drop (Suc n) vals))) s1"
      using st 3(3) by simp
    have res: "(unat addr + Suc n \<le> 17 \<and> 17 < unat addr + q \<and> vals ! (17 - unat addr) \<noteq> 0) =
        (unat addr + n \<le> 17 \<and> 17 < unat addr + q \<and> vals ! (17 - unat addr) \<noteq> 0)"
    proof (cases "unat addr + n = 17")
      case True
      then have "17 - unat addr = n" by simp
      then show ?thesis using 3(2) a True by simp
    qed (use 3(1) a in auto)
    have fin: "(Suc n = q \<or> unat addr + q \<le> 18) = (n = q \<or> unat addr + q \<le> 18)" using 3(1) a n by auto
    from Suc.hyps(1) [OF n(2) s1(1,2)] n(1) obtain s' where IH:
      "outcome_state (hregs_loop B addr (of_nat q) (of_nat (Suc n)) (concat (map io_put_be16 (drop (Suc n) vals))) s1) = s'"
      "wf_dev s'" "trigger_regs_clear s'" "input_reg s' = input_reg s1"
      "\<forall>k<16. holding_reg s' ! k = (if unat addr + Suc n \<le> k \<and> k < unat addr + q then vals ! (k - unat addr) else holding_reg s1 ! k)"
      "outcome_val (hregs_loop B addr (of_nat q) (of_nat (Suc n)) (concat (map io_put_be16 (drop (Suc n) vals))) s1) =
        (if unat addr + Suc n \<le> 17 \<and> 17 < unat addr + q \<and> vals ! (17 - unat addr) \<noteq> 0 then None
         else Some (Suc n = q \<or> unat addr + q \<le> 18))" by auto
    have "holding_reg s' ! k = (if unat addr + n \<le> k \<and> k < unat addr + q then vals ! (k - unat addr) else holding_reg s ! k)"
      if "k < 16" for k using IH(5) s1(4) [OF that] that n by auto
    then show ?thesis using IH(1-4,6) s1(3) unfolding eq res fin by auto
  qed
qed




lemma sim_dev_triggers: "trigger_regs_clear (device sim_srv)"
  by (simp add: trigger_regs_clear_def sim_srv_def sim_dev_def holding_reg_init_def hub_defs)


section \<open>The interface to the transports\<close>

lemma outcome_state_bind:
  "outcome_state (outcome_bind r f) = (case r of Ret x s \<Rightarrow> outcome_state (f x s) | Reset s \<Rightarrow> s)"
  by (cases r) simp_all

lemma wf_diag [simp]: "wf_srv s \<Longrightarrow> wf_srv (mb_server_diag_count c s)"
  by (simp add: mb_server_diag_count_def wf_srv_def)

lemma wf_exc [simp]: "wf_srv s \<Longrightarrow> wf_srv (snd (exc_rsp fc code s))"
  by (simp add: exc_rsp_def wf_srv_def)

lemma wf_coils_loop: "wf_dev s \<Longrightarrow> wf_dev (snd (coils_loop B d addr qty cntr temp ix s))"
proof (induction B d addr qty cntr temp ix s rule: coils_loop.induct)
  case (1 B d addr qty cntr temp ix s)
  obtain t i where ti: "(if cntr mod 8 = 0 then (d ! unat ix, ix + 1) else (temp, ix)) = (t, i)" by fastforce
  obtain rc s1 where w: "io_write_do_bit B (addr + cntr) (t AND 1 \<noteq> 0) s = (rc, s1)" by fastforce
  have "wf_dev s1" using io_write_do_bit_coil(1) [OF "1.prems" w] .
  then show ?case using "1.prems" "1.IH" [OF _ refl ti [symmetric] w [symmetric]]
    by (auto simp: coils_loop.simps [of B d addr qty cntr] ti w)
qed

lemma wf_hregs_loop: "wf_dev s \<Longrightarrow> wf_dev (outcome_state (hregs_loop B addr qty cntr prx s))"
proof (induction B addr qty cntr prx s rule: hregs_loop.induct)
  case (1 B addr qty cntr prx s)
  note fr = io_write_holding_frame(1) [OF "1.prems", of B "addr + cntr" "io_get_be16 prx"]
  show ?case
  proof (cases "io_write_holding B (addr + cntr) (io_get_be16 prx) s")
    case (Ret rc s1)
    then show ?thesis using "1.prems" "1.IH" [of rc s1] fr by (simp add: hregs_loop.simps [of B addr qty cntr])
  next
    case (Reset s1)
    then show ?thesis using "1.prems" fr by (simp add: hregs_loop.simps [of B addr qty cntr])
  qed
qed

lemma wf_lift_dev:
  "wf_srv s \<Longrightarrow> wf_dev (outcome_state r) \<Longrightarrow> wf_srv (outcome_state (lift_dev s r))"
  by (cases r) (simp_all add: lift_dev_def wf_srv_def)

lemma wf_fc06: "wf_srv s \<Longrightarrow> wf_srv (outcome_state (fc06_hreg_write B d s))"
proof -
  assume s: "wf_srv s"
  have "wf_srv (outcome_state (lift_dev s (io_write_holding B (io_get_be16 d) (io_get_be16 (drop 2 d)) (device s))))"
    using s by (intro wf_lift_dev io_write_holding_frame(1)) (simp_all add: wf_srv_def)
  then show ?thesis using s
    by (auto simp: fc06_hreg_write_def Let_def outcome_state_bind ret_pair_def split: outcome.splits)
qed

lemma wf_fc16: "wf_srv s \<Longrightarrow> wf_srv (outcome_state (fc16_hregs_write B d s))"
proof -
  assume s: "wf_srv s"
  have "wf_srv (outcome_state (lift_dev s (hregs_loop B (io_get_be16 d) (io_get_be16 (drop 2 d)) 0 (drop 5 d) (device s))))"
    using s by (intro wf_lift_dev wf_hregs_loop) (simp_all add: wf_srv_def)
  then show ?thesis using s
    by (auto simp: fc16_hregs_write_def Let_def outcome_state_bind ret_pair_def split: outcome.splits)
qed

lemma wf_fcs:
  assumes s: "wf_srv s"
  shows "wf_srv (snd (read_bits fc rd d s))" "wf_srv (snd (read_regs fc rd' d s))"
    "wf_srv (snd (fc05_coil_write B d s))" "wf_srv (snd (fc08_diagnostics d s))" "wf_srv (snd (fc15_coils_write B d s))"
proof -
  have d: "wf_dev (device s)" "length (diag_ctr s) = 5" using s by (simp_all add: wf_srv_def)
  show "wf_srv (snd (read_bits fc rd d s))" "wf_srv (snd (read_regs fc rd' d s))"
    using s by (simp_all add: read_bits_def read_regs_def Let_def split: option.split)
  show "wf_srv (snd (fc08_diagnostics d s))"
    using s d by (auto simp: fc08_diagnostics_def Let_def wf_srv_def exc_rsp_def)
  have u: "wf_srv (s\<lparr>device := dv\<rparr>)" if "wf_dev dv" for dv using that d by (simp add: wf_srv_def)
  show "wf_srv (snd (fc05_coil_write B d s))"
    using s u io_write_do_bit_coil(1) [OF d(1)]
    by (auto simp: fc05_coil_write_def Let_def split: prod.split)
  show "wf_srv (snd (fc15_coils_write B d s))"
  proof -
    obtain ok dv where "coils_loop B d (io_get_be16 d) (io_get_be16 (drop 2 d)) 0 0 5 (device s) = (ok, dv)" by fastforce
    moreover from this have "wf_dev dv" using wf_coils_loop [OF d(1)] by (metis snd_conv)
    ultimately show ?thesis using s u by (simp add: fc15_coils_write_def Let_def)
  qed
qed


lemma shaped_fcs:
  "shaped 1 (fst (fc01_coil_read d s))" "shaped 2 (fst (fc02_di_read d s))"
  "shaped 3 (fst (fc03_hreg_read d s))" "shaped 4 (fst (fc04_inreg_read d s))"
  "shaped 5 (fst (fc05_coil_write B d s))" "shaped 8 (fst (fc08_diagnostics d s))"
  "shaped 0x0F (fst (fc15_coils_write B d s))"
proof -
  show "shaped 1 (fst (fc01_coil_read d s))" "shaped 2 (fst (fc02_di_read d s))"
    unfolding fc01_coil_read_def fc02_di_read_def
    using shaped_read_bits [OF coils.bit_table_axioms] shaped_read_bits [OF discretes.bit_table_axioms]
    by (simp_all add: hub_defs)
  show "shaped 3 (fst (fc03_hreg_read d s))" "shaped 4 (fst (fc04_inreg_read d s))"
    unfolding fc03_hreg_read_def fc04_inreg_read_def
    using shaped_read_regs [OF holdings.reg_table_axioms] shaped_read_regs [OF inputs.reg_table_axioms]
    by (simp_all add: hub_defs)
  show "shaped 5 (fst (fc05_coil_write B d s))"
    by (simp add: fc05_coil_write_def Let_def split_beta shaped_exc shaped_echo del: shaped_simps(2) exc_rsp_sel)
  show "shaped 0x0F (fst (fc15_coils_write B d s))"
    by (simp add: fc15_coils_write_def Let_def split_beta shaped_exc shaped_echo del: shaped_simps(2) exc_rsp_sel)
  show "shaped 8 (fst (fc08_diagnostics d s))"
    by (simp add: fc08_diagnostics_def Let_def shaped_exc shaped_echo del: shaped_simps(2) exc_rsp_sel)
qed

lemma outcome_val_bind:
  "outcome_val (outcome_bind r f) = (case r of Ret x s \<Rightarrow> outcome_val (f x s) | Reset s \<Rightarrow> None)"
  by (cases r) simp_all

lemma shaped_fc06: "outcome_val (fc06_hreg_write B d s) = Some r \<Longrightarrow> shaped 6 r"
  by (auto simp: shaped_exc shaped_echo fc06_hreg_write_def Let_def outcome_val_bind split: if_splits outcome.splits simp del: shaped_simps(2) exc_rsp_sel)

lemma shaped_fc16: "outcome_val (fc16_hregs_write B d s) = Some r \<Longrightarrow> shaped 0x10 r"
  by (auto simp: shaped_exc shaped_echo fc16_hregs_write_def Let_def outcome_val_bind split: if_splits outcome.splits simp del: shaped_simps(2) exc_rsp_sel)

lemma shaped_process:
  assumes "outcome_val (mb_server_process B (fc # d) s) = Some r"
  shows "shaped fc r"
  using assms shaped_fc06 shaped_fc16
  by (auto simp: shaped_exc shaped_fcs mb_server_process_def Let_def split: if_splits simp del: shaped_simps(2) exc_rsp_sel)

lemma wf_process: "wf_srv s \<Longrightarrow> wf_srv (outcome_state (mb_server_process B p s))"
  by (simp add: mb_server_process_def Let_def wf_fcs wf_fc06 wf_fc16 fc01_coil_read_def fc02_di_read_def
      fc03_hreg_read_def fc04_inreg_read_def split: list.split)

text \<open>
  What a transport relies on when it hands a PDU to the decoder: the decoder keeps its state in
  order, does nothing on an empty PDU, and answers in the shape that the transport's buffers and the
  master expect.
\<close>

locale pdu_server =
  fixes proc :: "u8 list \<Rightarrow> 's \<Rightarrow> (u8 list option, 's) outcome"
    and cnt :: "nat \<Rightarrow> 's \<Rightarrow> 's"
    and inv :: "'s \<Rightarrow> bool"
  assumes proc_inv: "inv s \<Longrightarrow> inv (outcome_state (proc p s))"
    and count_inv: "inv s \<Longrightarrow> inv (cnt c s)"
    and proc_empty: "proc [] s = Ret None s"
    and proc_shape: "proc (fc # d) s = Ret (Some rsp) s' \<Longrightarrow> rsp_shape fc rsp"
begin

lemma proc_bounds:
  assumes "proc p s = Ret (Some rsp) s'"
  shows "p \<noteq> []" "2 \<le> length rsp" "length rsp \<le> 252"
proof -
  show "p \<noteq> []" using assms proc_empty [of s] by auto
  then obtain fc d where "p = fc # d" by (cases p) auto
  then show "2 \<le> length rsp" "length rsp \<le> 252" using proc_shape [of fc d s rsp s'] assms by (auto simp: rsp_shape_def)
qed

end

interpretation mb: pdu_server "mb_server_process B" mb_server_diag_count wf_srv for B :: "'w board"
proof unfold_locales
  show "mb_server_process B [] s = Ret None s" for s by (simp add: mb_server_process_def)
next
  fix s s' :: "'w srv" and fc d rsp
  assume "mb_server_process B (fc # d) s = Ret (Some rsp) s'"
  then show "rsp_shape fc rsp" using shaped_process [of B fc d s "Some rsp"] by simp
qed (simp_all add: wf_process)

text \<open>
  (C8) Every PDU, well-formed or not, leaves the server's state well-formed, and every answer is
  between 2 and 252 bytes long, so that it fits the 256-byte PDU buffer and the RTU frame; it starts
  with the function code of the request, or is exactly that code with the top bit set and an
  exception code of 1, 2 or 3.
\<close>

theorem pdu_response_shape:
  assumes "wf_srv s"
  shows "wf_srv (outcome_state (mb_server_process B (fc # d) s))
    \<and> (case outcome_val (mb_server_process B (fc # d) s) of
         Some (Some rsp) \<Rightarrow> rsp_shape fc rsp \<and> length rsp \<le> MB_SERVER_PDU_MAX
       | _ \<Rightarrow> True)"
proof -
  have "rsp_shape fc rsp \<and> length rsp \<le> MB_SERVER_PDU_MAX"
    if "outcome_val (mb_server_process B (fc # d) s) = Some (Some rsp)" for rsp
    using shaped_process [OF that] by (simp add: rsp_shape_def hub_defs)
  then show ?thesis using mb.proc_inv [OF assms, of B "fc # d"] by (auto split: option.split)
qed

theorem pdu_response_shape_witness:
  "wf_srv (outcome_state (mb_server_process sim_board (0x63 # [1, 2]) sim_srv))
    \<and> (case outcome_val (mb_server_process sim_board (0x63 # [1, 2]) sim_srv) of
         Some (Some rsp) \<Rightarrow> rsp_shape 0x63 rsp \<and> length rsp \<le> MB_SERVER_PDU_MAX
       | _ \<Rightarrow> True)"
  by (rule pdu_response_shape) simp

end
