(* ===== verification/Mbtcp_Adu.thy ===== *)
theory Mbtcp_Adu
  imports Mb_Server
begin

unbundle bit_operations_syntax

text \<open>
  \<open>src/modbus/mbtcp_adu.c\<close>: one Modbus TCP frame in, at most one out. The decoder is reached through
  the interface \<open>pdu_server\<close>; \<open>mbtcp_adu_process\<close> is the function of the source, with the firmware's
  decoder in place.
\<close>

definition MB_EXC_SERVER_DEVICE_FAILURE :: u8 where [hub_defs]: "MB_EXC_SERVER_DEVICE_FAILURE = 0x04"
definition MBTCP_MBAP_LEN_CLAMP :: u16 where [hub_defs]: "MBTCP_MBAP_LEN_CLAMP = 256"
definition MBTCP_OFF_FC :: nat where [hub_defs]: "MBTCP_OFF_FC = 7"
definition MBTCP_ADU_TX_MAX :: nat where [hub_defs]: "MBTCP_ADU_TX_MAX = 7 + MB_SERVER_PDU_MAX"
definition MBTCP_ADU_RX_MAX :: nat where [hub_defs]: "MBTCP_ADU_RX_MAX = 6 + 256"

text \<open>The MBAP header: transaction, protocol, length of what follows, unit.\<close>

definition mbap :: "u16 \<Rightarrow> u16 \<Rightarrow> u16 \<Rightarrow> u8 \<Rightarrow> u8 list" where
  "mbap tid proto len unit = io_put_be16 tid @ io_put_be16 proto @ io_put_be16 len @ [unit]"

text \<open>The length of the PDU that a frame of \<open>in_len\<close> bytes with length field \<open>mbap_len\<close> carries.\<close>

definition adu_pdu_len :: "u16 \<Rightarrow> nat \<Rightarrow> nat" where
  "adu_pdu_len mbap_len in_len =
     (let mbap_len = (if mbap_len > MBTCP_MBAP_LEN_CLAMP then MBTCP_MBAP_LEN_CLAMP else mbap_len);
          pdu_len = (if mbap_len \<ge> 2 then unat (mbap_len - 2 + 1) else 1)
      in if pdu_len > in_len - MBTCP_OFF_FC then in_len - MBTCP_OFF_FC else pdu_len)"

definition adu_process ::
    "(u8 list \<Rightarrow> 's \<Rightarrow> (u8 list option, 's) outcome) \<Rightarrow> (nat \<Rightarrow> 's \<Rightarrow> 's) \<Rightarrow> u8 list \<Rightarrow> nat \<Rightarrow> 's
      \<Rightarrow> (u8 list option, 's) outcome" where
  "adu_process proc cnt inp out_cap s =
     (if length inp < MBTCP_OFF_FC + 1 then Ret None s
      else if out_cap < MBTCP_ADU_TX_MAX then Ret None s
      else let trans_id = io_get_be16 inp; proto_id = io_get_be16 (drop 2 inp);
               mbap_len = io_get_be16 (drop 4 inp); unit_id = inp ! 6; fc = inp ! 7 in
        if proto_id \<noteq> 0
        then Ret (Some (mbap trans_id proto_id 3 unit_id @ [fc OR 0x80, MB_EXC_SERVER_DEVICE_FAILURE])) s
        else outcome_bind (proc (take (adu_pdu_len mbap_len (length inp)) (drop MBTCP_OFF_FC inp)) s) (\<lambda>rsp s.
          if unit_id = 0 then Ret None (cnt MB_DIAG_NO_RESP s)
          else case rsp of
              None \<Rightarrow> Ret None (cnt MB_DIAG_NO_RESP s)
            | Some r \<Rightarrow> Ret (Some (mbap trans_id 0 (of_nat (length r) + 1) unit_id @ r)) s))"

definition mbtcp_adu_process :: "'w board \<Rightarrow> u8 list \<Rightarrow> nat \<Rightarrow> 'w srv \<Rightarrow> (u8 list option, 'w srv) outcome" where
  "mbtcp_adu_process B = adu_process (mb_server_process B) mb_server_diag_count"

section \<open>Frames answer frames\<close>

lemma length_mbap [simp]: "length (mbap t p l u) = 7"
  by (simp add: mbap_def)

lemma mbap_fields:
  "io_get_be16 (mbap t p l u @ r) = t" "io_get_be16 (drop 2 (mbap t p l u @ r)) = p"
  "io_get_be16 (drop 4 (mbap t p l u @ r)) = l" "(mbap t p l u @ r) ! 6 = u"
  "drop 7 (mbap t p l u @ r) = r"
proof -
  have "drop 4 (io_put_be16 t @ io_put_be16 p @ x) = x" for x by simp
  then show "io_get_be16 (drop 4 (mbap t p l u @ r)) = l" by (simp add: mbap_def)
  show "(mbap t p l u @ r) ! 6 = u" by (simp add: mbap_def io_put_be16_def)
qed (simp_all add: mbap_def)

text \<open>A frame whose length field tells its own length.\<close>

definition wf_frame :: "u8 list \<Rightarrow> bool" where
  "wf_frame f \<longleftrightarrow> 8 \<le> length f \<and> length f \<le> MBTCP_ADU_TX_MAX \<and> unat (io_get_be16 (drop 4 f)) = length f - 6"

context pdu_server
begin

lemma adu_inv: "inv s \<Longrightarrow> inv (outcome_state (adu_process proc cnt f cap s))"
proof -
  assume s: "inv s"
  let ?p = "take (adu_pdu_len (io_get_be16 (drop 4 f)) (length f)) (drop MBTCP_OFF_FC f)"
  show ?thesis using s proc_inv [OF s, of ?p]
    by (cases "proc ?p s") (auto simp: adu_process_def Let_def count_inv split: option.splits)
qed

lemma adu_answer:
  assumes "adu_process proc cnt f cap s = Ret (Some out) s'"
  shows "wf_frame out" "take 2 out = take 2 f" "out ! 6 = f ! 6"
proof -
  let ?t = "io_get_be16 f"
  have len: "8 \<le> length f" using assms by (auto simp: adu_process_def hub_defs split: if_splits)
  have t2: "take 2 f = io_put_be16 ?t"
  proof -
    obtain a b r where "f = a # b # r" using len by (cases f rule: list.exhaust; cases "tl f") auto
    then show ?thesis by (auto simp: io_put_be16_def io_get_be16_def bit_eq_iff bit_simps dest: bit_imp_le_length)
  qed
  from assms obtain p l r where out: "out = mbap ?t p l (f ! 6) @ r" and r: "length r \<le> 252" "2 \<le> length r" "unat l = length r + 1"
  proof (cases "io_get_be16 (drop 2 f) = 0")
    case True
    with assms len obtain r s1 where "out = mbap ?t 0 (of_nat (length r) + 1) (f ! 6) @ r"
      and p: "proc (take (adu_pdu_len (io_get_be16 (drop 4 f)) (length f)) (drop MBTCP_OFF_FC f)) s = Ret (Some r) s1"
      by (auto simp: adu_process_def Let_def outcome_bind_eq_Ret split: if_splits option.splits)
    moreover have "unat (of_nat (length r) + 1 :: u16) = length r + 1"
      using proc_bounds(3) [OF p] by (simp add: unat_word_ariths unat_of_nat)
    ultimately show ?thesis using proc_bounds [OF p] by (intro that) auto
  next
    case False
    with assms show ?thesis
      by (intro that [of _ 3 "[f ! 7 OR 0x80, MB_EXC_SERVER_DEVICE_FAILURE]"]) (auto simp: adu_process_def Let_def split: if_splits)
  qed
  show "wf_frame out" using r unfolding out wf_frame_def mbap_fields by (simp add: hub_defs)
  show "take 2 out = take 2 f" using t2 by (simp add: out mbap_def)
  show "out ! 6 = f ! 6" by (simp add: out mbap_fields)
qed

lemma adu_request:
  assumes "1 \<le> length pdu" "length pdu \<le> 255" "unit \<noteq> 0" "MBTCP_ADU_TX_MAX \<le> cap"
  shows "adu_process proc cnt (mbap t 0 (of_nat (length pdu + 1)) unit @ pdu) cap s =
    outcome_bind (proc pdu s) (\<lambda>rsp s. case rsp of
        None \<Rightarrow> Ret None (cnt MB_DIAG_NO_RESP s)
      | Some r \<Rightarrow> Ret (Some (mbap t 0 (of_nat (length r + 1)) unit @ r)) s)"
proof -
  let ?l = "of_nat (length pdu + 1) :: u16"
  have l: "unat ?l = length pdu + 1" using assms(2) by (simp only: unat_of_nat) simp
  then have "\<not> ?l > 256" "?l \<ge> 2" using assms(1,2) by (simp_all add: word_less_nat_alt word_le_nat_alt del: of_nat_add of_nat_Suc)
  moreover have "unat (?l - 2 + 1) = length pdu"
  proof -
    have "?l - 2 + 1 = of_nat (length pdu)" by simp
    then show ?thesis using assms(2) by (simp add: unat_of_nat)
  qed
  ultimately have "adu_pdu_len ?l (length pdu + 7) = length pdu"
    by (simp add: adu_pdu_len_def hub_defs Let_def del: of_nat_add of_nat_Suc)
  then have a: "adu_pdu_len ?l (length (mbap t 0 ?l unit @ pdu)) = length pdu" by (simp add: add.commute)
  show ?thesis
    using assms unfolding adu_process_def Let_def MBTCP_OFF_FC_def mbap_fields a
    by (auto simp: add.commute cong: option.case_cong)
qed

end

text \<open>
  Modbus TCP: a frame for one unit that carries a PDU of up to 255 bytes is answered with a
  frame that carries the decoder's answer to exactly that PDU, with the transaction number and the
  unit of the request and a length field that fits; when the decoder stays silent, so does this
  layer, and counts it.
\<close>

theorem adu_answers_request:
  assumes "1 \<le> length pdu" "length pdu \<le> 255" "unit \<noteq> 0"
  shows "mbtcp_adu_process B (mbap t 0 (of_nat (length pdu + 1)) unit @ pdu) MBTCP_ADU_TX_MAX s =
    (case mb_server_process B pdu s of
       Ret (Some r) s' \<Rightarrow> Ret (Some (mbap t 0 (of_nat (length r + 1)) unit @ r)) s'
     | Ret None s' \<Rightarrow> Ret None (mb_server_diag_count MB_DIAG_NO_RESP s')
     | Reset s' \<Rightarrow> Reset s')"
  unfolding mbtcp_adu_process_def mb.adu_request [OF assms order.refl]
  by (auto split: outcome.split option.split)

theorem adu_answers_request_witness:
  "mbtcp_adu_process sim_board (mbap 7 0 (of_nat (length [0x06 :: u8, 0, 3, 1, 244] + 1)) 17 @ [0x06, 0, 3, 1, 244]) MBTCP_ADU_TX_MAX sim_srv =
    (case mb_server_process sim_board [0x06, 0, 3, 1, 244] sim_srv of
       Ret (Some r) s' \<Rightarrow> Ret (Some (mbap 7 0 (of_nat (length r + 1)) 17 @ r)) s'
     | Ret None s' \<Rightarrow> Ret None (mb_server_diag_count MB_DIAG_NO_RESP s')
     | Reset s' \<Rightarrow> Reset s')"
  by (rule adu_answers_request) simp_all

text \<open>
  Whatever bytes arrive as a frame, the server state stays well-formed, and an answer is at
  most 263 bytes, tells its own length in its length field, and repeats the transaction number and
  the unit of the frame it answers.
\<close>

theorem adu_answer_well_formed:
  assumes "wf_srv s"
  shows "wf_srv (outcome_state (mbtcp_adu_process B f cap s)) \<and>
    (case outcome_val (mbtcp_adu_process B f cap s) of
       Some (Some out) \<Rightarrow> wf_frame out \<and> take 2 out = take 2 f \<and> out ! 6 = f ! 6
     | _ \<Rightarrow> True)"
proof -
  have "wf_frame out \<and> take 2 out = take 2 f \<and> out ! 6 = f ! 6"
    if "outcome_val (mbtcp_adu_process B f cap s) = Some (Some out)" for out
  proof -
    from that obtain s' where "mbtcp_adu_process B f cap s = Ret (Some out) s'"
      by (cases "mbtcp_adu_process B f cap s") auto
    then show ?thesis using mb.adu_answer unfolding mbtcp_adu_process_def by blast
  qed
  then show ?thesis using mb.adu_inv [OF assms, of B f cap] unfolding mbtcp_adu_process_def
    by (auto split: option.split)
qed

theorem adu_answer_well_formed_witness:
  "wf_srv (outcome_state (mbtcp_adu_process sim_board [0, 1, 0, 9, 0, 2, 5, 3] 263 sim_srv)) \<and>
    (case outcome_val (mbtcp_adu_process sim_board [0, 1, 0, 9, 0, 2, 5, 3] 263 sim_srv) of
       Some (Some out) \<Rightarrow> wf_frame out \<and> take 2 out = take 2 [0, 1, 0, 9, 0, 2, 5, 3] \<and> out ! 6 = [0, 1, 0, 9, 0, 2, 5, 3] ! 6
     | _ \<Rightarrow> True)"
  by (rule adu_answer_well_formed) simp

text \<open>
  A broadcast is carried out and never answered, except that a wrong protocol number is answered
  before the unit is looked at.
\<close>

lemma adu_broadcast_silent:
  assumes "f ! 6 = 0" "io_get_be16 (drop 2 f) = 0"
  shows "outcome_val (mbtcp_adu_process B f cap s) \<in> {None, Some None}"
  using assms
  by (auto simp: mbtcp_adu_process_def adu_process_def Let_def outcome_val_bind split: outcome.split)

end
