(* ===== verification/Mb_Tcp.thy ===== *)
theory Mb_Tcp
  imports Mbtcp_Adu
begin

unbundle bit_operations_syntax

text \<open>
  \<open>src/modbus/tcp.c\<close>: the Modbus TCP connections. Bytes of a connection are collected into frames,
  frames are answered, and answers that do not fit the send buffer wait for the poll timer. lwIP is a
  parameter (record \<open>lwip\<close>); a connection's \<open>pcb\<close> is a number, and \<open>None\<close> a free slot. The collected bytes
  are the list \<open>rx\<close>, whose length is the source's \<open>rx_len\<close>; likewise \<open>tx_pending\<close>.
\<close>

datatype err_t = ERR_OK | ERR_MEM | ERR_OTHER

record 'w lwip =
  tcp_write :: "nat \<Rightarrow> u8 list \<Rightarrow> 'w \<Rightarrow> err_t \<times> 'w"
  tcp_output :: "nat \<Rightarrow> 'w \<Rightarrow> 'w"
  tcp_close :: "nat \<Rightarrow> 'w \<Rightarrow> 'w"
  tcp_abort :: "nat \<Rightarrow> 'w \<Rightarrow> 'w"
  tcp_recved :: "nat \<Rightarrow> nat \<Rightarrow> 'w \<Rightarrow> 'w"
  now_ms :: "'w \<Rightarrow> u32"

definition MB_TCP_MAX_EST :: nat where [hub_defs]: "MB_TCP_MAX_EST = 2"
definition MB_TCP_FRAME_TMO_MS :: u32 where [hub_defs]: "MB_TCP_FRAME_TMO_MS = 500"

record mb_conn =
  pcb :: "nat option"
  rx :: "u8 list"
  tx_pending :: "u8 list"
  t_last_ms :: u32

definition frame_need :: "u8 list \<Rightarrow> u16" where
  "frame_need buf =
     (let mbap_len = io_get_be16 (drop 4 buf); mbap_len = (if mbap_len > 256 then 256 else mbap_len)
      in 6 + mbap_len)"

definition in_world :: "('w \<Rightarrow> 'w) \<Rightarrow> 'w srv \<Rightarrow> 'w srv" where
  "in_world f s = s\<lparr>device := (device s)\<lparr>world := f (world (device s))\<rparr>\<rparr>"

definition mb_conn_close :: "'w lwip \<Rightarrow> mb_conn \<Rightarrow> 'w srv \<Rightarrow> mb_conn \<times> 'w srv" where
  "mb_conn_close N c s =
     (c\<lparr>pcb := None, rx := [], tx_pending := []\<rparr>,
      case pcb c of None \<Rightarrow> s | Some p \<Rightarrow> in_world (tcp_close N p) s)"

text \<open>The send attempt of \<open>process_frame\<close>, for an answer \<open>tx\<close> on the open connection \<open>p\<close>.\<close>

definition send_answer :: "'w lwip \<Rightarrow> nat \<Rightarrow> u8 list \<Rightarrow> mb_conn \<Rightarrow> 'w srv \<Rightarrow> (bool \<times> mb_conn) \<times> 'w srv" where
  "send_answer N p tx c s =
     (case tcp_write N p tx (world (device s)) of (e, w) \<Rightarrow>
      let s = in_world (\<lambda>_. w) s in
      case e of
        ERR_OK \<Rightarrow> ((True, c), in_world (tcp_output N p) s)
      | ERR_MEM \<Rightarrow> ((True, c\<lparr>tx_pending := tx\<rparr>), s)
      | ERR_OTHER \<Rightarrow> (case mb_conn_close N c s of (c, s) \<Rightarrow> ((False, c), s)))"

text \<open>\<open>False\<close> means that the connection has been closed.\<close>

definition process_frame :: "'w board \<Rightarrow> 'w lwip \<Rightarrow> mb_conn \<Rightarrow> 'w srv \<Rightarrow> (bool \<times> mb_conn, 'w srv) outcome" where
  "process_frame B N c s =
     outcome_bind (mbtcp_adu_process B (rx c) MBTCP_ADU_TX_MAX s) (\<lambda>rsp s.
       let c = c\<lparr>rx := []\<rparr> in
       case (rsp, pcb c) of
         (Some tx, Some p) \<Rightarrow> ret_pair (send_answer N p tx c s)
       | _ \<Rightarrow> Ret (True, c) s)"

text \<open>
  The loop over the bytes of one segment. \<open>room\<close> is 16 bit as in the source. The result \<open>None\<close> stands
  for what must not happen: no progress, so that the loop never ends, or a copy past the end of the
  receive buffer.
\<close>

function recv_loop :: "'w board \<Rightarrow> 'w lwip \<Rightarrow> u8 list \<Rightarrow> mb_conn \<Rightarrow> 'w srv
    \<Rightarrow> ((bool \<times> mb_conn) option, 'w srv) outcome" where
  "recv_loop B N src c s =
     (if src = [] then Ret (Some (True, c)) s
      else let want = (if length (rx c) < 8 then 8 else frame_need (rx c));
               room = unat (want - of_nat (length (rx c)));
               n = min (length src) room in
        if n = 0 \<or> length (rx c) + n > MBTCP_ADU_RX_MAX then Ret None s
        else let c = c\<lparr>rx := rx c @ take n src, t_last_ms := now_ms N (world (device s))\<rparr> in
          if length (rx c) \<ge> 8 \<and> length (rx c) \<ge> unat (frame_need (rx c)) then
            outcome_bind (process_frame B N c s) (\<lambda>(alive, c) s.
              if alive then recv_loop B N (drop n src) c s else Ret (Some (False, c)) s)
          else recv_loop B N (drop n src) c s)"
  by pat_completeness auto
termination
  by (relation "measure (\<lambda>(B, N, src, c, s). length src)") auto

declare recv_loop.simps [simp del]

text \<open>
  \<open>mb_recv_cb\<close>: \<open>None\<close> for the end of the stream; otherwise the segment as the list of its buffers.
  A receive error returns before anything is touched.
\<close>

fun recv_pbufs :: "'w board \<Rightarrow> 'w lwip \<Rightarrow> u8 list list \<Rightarrow> mb_conn \<Rightarrow> 'w srv
    \<Rightarrow> ((bool \<times> mb_conn) option, 'w srv) outcome" where
  "recv_pbufs B N [] c s = Ret (Some (True, c)) s"
| "recv_pbufs B N (q # qs) c s =
     outcome_bind (recv_loop B N q c s) (\<lambda>r s.
       case r of Some (True, c) \<Rightarrow> recv_pbufs B N qs c s | _ \<Rightarrow> Ret r s)"

definition mb_recv_cb :: "'w board \<Rightarrow> 'w lwip \<Rightarrow> nat \<Rightarrow> u8 list list option \<Rightarrow> err_t \<Rightarrow> mb_conn \<Rightarrow> 'w srv
    \<Rightarrow> (mb_conn option, 'w srv) outcome" where
  "mb_recv_cb B N p seg err c s =
     (case seg of
        None \<Rightarrow> (case mb_conn_close N c s of (c, s) \<Rightarrow> Ret (Some c) s)
      | Some qs \<Rightarrow>
          if err \<noteq> ERR_OK then Ret (Some c) s
          else outcome_bind (recv_pbufs B N qs c s) (\<lambda>r s.
            case r of
              None \<Rightarrow> Ret None s
            | Some (_, c) \<Rightarrow> Ret (Some c) (in_world (tcp_recved N p (length (concat qs))) s)))"

definition poll_flush :: "'w lwip \<Rightarrow> nat \<Rightarrow> mb_conn \<Rightarrow> 'w srv \<Rightarrow> (bool \<times> mb_conn) \<times> 'w srv" where
  "poll_flush N p c s =
     (if tx_pending c = [] then ((True, c), s)
      else (case tcp_write N p (tx_pending c) (world (device s)) of (e, w) \<Rightarrow>
            let s = in_world (\<lambda>_. w) s in
            case e of
              ERR_OK \<Rightarrow> ((True, c\<lparr>tx_pending := []\<rparr>), in_world (tcp_output N p) s)
            | ERR_MEM \<Rightarrow> ((True, c), s)
            | ERR_OTHER \<Rightarrow> (case mb_conn_close N c s of (c, s) \<Rightarrow> ((False, c), s))))"

definition mb_poll_cb :: "'w lwip \<Rightarrow> mb_conn \<Rightarrow> 'w srv \<Rightarrow> mb_conn \<times> 'w srv" where
  "mb_poll_cb N c s =
     (case pcb c of
        None \<Rightarrow> (c, s)
      | Some p \<Rightarrow>
          (case poll_flush N p c s of
             ((False, c), s) \<Rightarrow> (c, s)
           | ((True, c), s) \<Rightarrow>
               if rx c \<noteq> [] \<and> now_ms N (world (device s)) - t_last_ms c > MB_TCP_FRAME_TMO_MS
               then mb_conn_close N c s else (c, s)))"

definition mb_err_cb :: "mb_conn \<Rightarrow> mb_conn" where
  "mb_err_cb c = c\<lparr>pcb := None, rx := [], tx_pending := []\<rparr>"

text \<open>The first free slot of the table.\<close>

fun free_slot :: "mb_conn list \<Rightarrow> nat option" where
  "free_slot [] = None"
| "free_slot (c # cs) = (if pcb c = None then Some 0 else map_option Suc (free_slot cs))"

definition mb_accept_cb :: "'w lwip \<Rightarrow> nat \<Rightarrow> mb_conn list \<Rightarrow> 'w srv \<Rightarrow> bool \<times> mb_conn list \<times> 'w srv" where
  "mb_accept_cb N newpcb cs s =
     (case free_slot cs of
        None \<Rightarrow> (False, cs, in_world (tcp_abort N newpcb) s)
      | Some i \<Rightarrow>
          (True, cs[i := \<lparr>pcb = Some newpcb, rx = [], tx_pending = [], t_last_ms = now_ms N (world (device s))\<rparr>], s))"


section \<open>Collecting frames\<close>

text \<open>Between two bytes a connection holds less than one frame.\<close>

definition conn_ok :: "mb_conn \<Rightarrow> bool" where
  "conn_ok c \<longleftrightarrow> length (rx c) < 8 \<or> length (rx c) < unat (frame_need (rx c))"

definition want :: "u8 list \<Rightarrow> nat" where
  "want b = (if length b < 8 then 8 else unat (frame_need b))"

lemma frame_need_bounds: "6 \<le> unat (frame_need b)" "unat (frame_need b) \<le> 262"
proof -
  have "unat (6 + (if m > 256 then 256 else m)) = 6 + min (unat m) 256" for m :: u16
    by (auto simp: unat_word_ariths word_less_nat_alt min_def)
  then have "unat (frame_need b) = 6 + min (unat (io_get_be16 (drop 4 b))) 256"
    by (simp add: frame_need_def Let_def)
  then show "6 \<le> unat (frame_need b)" "unat (frame_need b) \<le> 262" by simp_all
qed

lemma frame_need_append: "6 \<le> length b \<Longrightarrow> frame_need (b @ x) = frame_need b"
  by (auto simp: frame_need_def io_get_be16_def nth_append)

lemma want_ok: "conn_ok c \<Longrightarrow> length (rx c) < want (rx c)" "want b \<le> 262"
  using frame_need_bounds [of b] by (auto simp: conn_ok_def want_def)

lemma want_append: "length (b @ x) < want b \<Longrightarrow> want (b @ x) = want b"
  by (auto simp: want_def frame_need_append split: if_splits)

lemma room_eq:
  assumes "conn_ok c"
  shows "unat ((if length (rx c) < 8 then 8 else frame_need (rx c)) - of_nat (length (rx c))) = want (rx c) - length (rx c)"
proof -
  let ?w = "if length (rx c) < 8 then 8 else frame_need (rx c)"
  have w: "unat ?w = want (rx c)" by (simp add: want_def)
  note ok = want_ok(1) [OF assms] want_ok(2) [of "rx c"]
  then have "of_nat (length (rx c)) \<le> ?w" unfolding word_le_nat_alt w by (simp add: unat_of_nat)
  then have "unat (?w - of_nat (length (rx c))) = unat ?w - unat (of_nat (length (rx c)) :: u16)" by (rule unat_sub)
  moreover have "unat (of_nat (length (rx c)) :: u16) = length (rx c)" using ok by (simp add: unat_of_nat)
  ultimately show ?thesis unfolding w by simp
qed

text \<open>One turn of the loop, for a connection in order.\<close>

lemma recv_loop_turn:
  assumes "conn_ok c" "src \<noteq> []"
  shows "recv_loop B N src c s =
    (let n = min (length src) (want (rx c) - length (rx c));
         c = c\<lparr>rx := rx c @ take n src, t_last_ms := now_ms N (world (device s))\<rparr>
     in if conn_ok c then recv_loop B N (drop n src) c s
        else outcome_bind (process_frame B N c s) (\<lambda>(alive, c) s.
          if alive then recv_loop B N (drop n src) c s else Ret (Some (False, c)) s))"
proof -
  let ?n = "min (length src) (want (rx c) - length (rx c))"
  have "0 < ?n" "length (rx c) + ?n \<le> MBTCP_ADU_RX_MAX"
    using want_ok(1) [OF assms(1)] want_ok(2) [of "rx c"] assms(2) by (auto simp: hub_defs)
  then have n: "(?n = 0 \<or> length (rx c) + ?n > MBTCP_ADU_RX_MAX) = False" by auto
  have full: "(length (rx c') \<ge> 8 \<and> length (rx c') \<ge> unat (frame_need (rx c'))) = (\<not> conn_ok c')" for c'
    by (auto simp: conn_ok_def)
  show ?thesis
    unfolding recv_loop.simps [of B N src c s] Let_def room_eq [OF assms(1)] n if_False full
    by (simp only: assms(2) if_False split: if_split) simp
qed

lemma process_frame_rx:
  "outcome_val (process_frame B N c s) = Some (alive, c') \<Longrightarrow> rx c' = []"
  by (auto simp: process_frame_def Let_def outcome_val_bind send_answer_def mb_conn_close_def
      split: outcome.splits option.splits prod.splits err_t.splits)

lemma process_frame_conn_ok: "process_frame B N c s = Ret (alive, c') s' \<Longrightarrow> conn_ok c'"
  using process_frame_rx [of B N c s alive c'] by (simp add: conn_ok_def)

definition then_recv :: "((bool \<times> mb_conn) option, 'w srv) outcome \<Rightarrow> (mb_conn \<Rightarrow> 'w srv \<Rightarrow> ((bool \<times> mb_conn) option, 'w srv) outcome)
    \<Rightarrow> ((bool \<times> mb_conn) option, 'w srv) outcome" where
  "then_recv r f = outcome_bind r (\<lambda>r s. case r of Some (True, c) \<Rightarrow> f c s | _ \<Rightarrow> Ret r s)"

lemma recv_loop_Nil [simp]: "recv_loop B N [] c s = Ret (Some (True, c)) s"
  by (simp add: recv_loop.simps)

text \<open>The loop always gets to the end of the segment, inside its buffer, and leaves the connection in order.\<close>

lemma recv_loop_safe:
  "conn_ok c \<Longrightarrow> (case outcome_val (recv_loop B N src c s) of
     None \<Rightarrow> True | Some None \<Rightarrow> False | Some (Some (alive, c')) \<Rightarrow> conn_ok c')"
proof (induction "length src" arbitrary: src c s rule: less_induct)
  case less
  show ?case
  proof (cases "src = []")
    case False
    let ?n = "min (length src) (want (rx c) - length (rx c))"
    let ?c = "c\<lparr>rx := rx c @ take ?n src, t_last_ms := now_ms N (world (device s))\<rparr>"
    have n: "length (drop ?n src) < length src" using want_ok(1) [OF less.prems] False by auto
    show ?thesis
    proof (cases "conn_ok ?c")
      case True
      then show ?thesis using less.hyps [OF n True] recv_loop_turn [OF less.prems False, of B N s] by (simp add: Let_def)
    next
      case F: False
      show ?thesis
      proof (cases "process_frame B N ?c s")
        case (Ret r s')
        obtain alive c' where r: "r = (alive, c')" by fastforce
        have "conn_ok c'" using process_frame_conn_ok Ret r by blast
        then show ?thesis using less.hyps [OF n, of c' s'] recv_loop_turn [OF less.prems False, of B N s] F Ret r
          by (simp add: Let_def)
      next
        case (Reset s')
        then show ?thesis using recv_loop_turn [OF less.prems False, of B N s] F by (simp add: Let_def)
      qed
    qed
  qed (use less.prems in simp)
qed

text \<open>Where a segment is cut does not matter.\<close>

lemma conn_ok_want: "conn_ok c \<longleftrightarrow> length (rx c) < want (rx c)"
  by (auto simp: conn_ok_def want_def)

lemma recv_loop_append:
  "conn_ok c \<Longrightarrow> recv_loop B N (xs @ ys) c s = then_recv (recv_loop B N xs c s) (recv_loop B N ys)"
proof (induction "length xs" arbitrary: xs c s rule: less_induct)
  case less
  let ?room = "want (rx c) - length (rx c)"
  let ?t = "now_ms N (world (device s))"
  show ?case
  proof (cases "xs = [] \<or> ys = []")
    case True
    have "then_recv r (recv_loop B N []) = r" for r :: "((bool \<times> mb_conn) option, 'a srv) outcome"
      by (cases r) (auto simp: then_recv_def split: option.splits bool.splits)
    then show ?thesis using True by (auto simp: then_recv_def)
  next
    case False
    note turn = recv_loop_turn [OF less.prems, unfolded Let_def]
    show ?thesis
    proof (cases "length xs < ?room")
      case True
      let ?c = "c\<lparr>rx := rx c @ xs, t_last_ms := ?t\<rparr>"
      have w: "want (rx c @ xs) = want (rx c)" using True by (intro want_append) auto
      then have ok: "conn_ok ?c" using True by (simp add: conn_ok_want)
      have "recv_loop B N xs c s = Ret (Some (True, ?c)) s"
        using turn [of xs B N s] True False ok by simp
      moreover have "min (length (xs @ ys)) ?room = length xs + min (length ys) (want (rx c) - length (rx c @ xs))"
        using True by auto
      then have "recv_loop B N (xs @ ys) c s = recv_loop B N ys ?c s"
        using False by (simp add: recv_loop_turn [OF ok] turn Let_def w del: length_append cong: if_cong)
      ultimately show ?thesis by (simp add: then_recv_def)
    next
      case F: False
      have "0 < ?room" using less.prems by (simp add: conn_ok_want)
      then have d: "length (drop ?room xs) < length xs" using False by (cases xs) auto
      have n: "min (length (xs @ ys)) ?room = ?room" "min (length xs) ?room = ?room" using F by auto
      note IH = less.hyps [OF d]
      have "process_frame B N c0 s = Ret (a, c') s' \<Longrightarrow>
          recv_loop B N (drop ?room xs @ ys) c' s' = then_recv (recv_loop B N (drop ?room xs) c' s') (recv_loop B N ys)" for c0 a c' s'
        using IH process_frame_conn_ok by blast
      then show ?thesis
        using False F by (cases "process_frame B N (c\<lparr>rx := rx c @ take ?room xs, t_last_ms := ?t\<rparr>) s")
          (auto simp: turn n IH then_recv_def cong: if_cong)
    qed
  qed
qed

lemma recv_pbufs_concat: "conn_ok c \<Longrightarrow> recv_pbufs B N qs c s = recv_loop B N (concat qs) c s"
proof (induction qs arbitrary: c s)
  case (Cons q qs)
  then show ?case
    using recv_loop_safe [OF Cons.prems, of B N q s]
    by (cases "recv_loop B N q c s")
      (auto simp: recv_loop_append then_recv_def split: option.splits bool.splits)
qed simp


section \<open>The stream specification\<close>

text \<open>
  What a connection promises, without its buffer: the byte stream is cut into frames of
  \<open>max 8 (6 + min len 256)\<close> bytes and the frames are served one after the other; what is left over
  waits for more.
\<close>

function split_frames :: "u8 list \<Rightarrow> u8 list list \<times> u8 list" where
  "split_frames b =
     (if length b < 8 \<or> length b < unat (frame_need b) then ([], b)
      else let n = max 8 (unat (frame_need b)); (fs, r) = split_frames (drop n b) in (take n b # fs, r))"
  by pat_completeness auto
termination
  by (relation "measure length") (auto simp: max_def)

declare split_frames.simps [simp del]

fun serve_frames :: "'w board \<Rightarrow> 'w lwip \<Rightarrow> u8 list list \<Rightarrow> u8 list \<Rightarrow> mb_conn \<Rightarrow> 'w srv
    \<Rightarrow> ((bool \<times> mb_conn) option, 'w srv) outcome" where
  "serve_frames B N [] rest c s =
     Ret (Some (True, if rest = rx c then c else c\<lparr>rx := rest, t_last_ms := now_ms N (world (device s))\<rparr>)) s"
| "serve_frames B N (f # fs) rest c s =
     outcome_bind (process_frame B N (c\<lparr>rx := f, t_last_ms := now_ms N (world (device s))\<rparr>) s) (\<lambda>(alive, c) s.
       if alive then serve_frames B N fs rest c s else Ret (Some (False, c)) s)"

lemma split_frames_short: "conn_ok c \<Longrightarrow> split_frames (rx c) = ([], rx c)"
  by (auto simp: conn_ok_def split_frames.simps)

lemma split_frames_full:
  assumes "8 \<le> length f" "length f = max 8 (unat (frame_need f))"
  shows "split_frames (f @ b) = (let (fs, r) = split_frames b in (f # fs, r))"
proof -
  have "frame_need (f @ b) = frame_need f" using assms(1) by (intro frame_need_append) simp
  then show ?thesis using assms by (subst split_frames.simps) (simp add: max_def split: if_splits)
qed

lemma filled_frame:
  assumes "conn_ok c" "\<not> conn_ok c'" "rx c' = rx c @ x" "length (rx c') \<le> want (rx c)"
  shows "length (rx c') = max 8 (unat (frame_need (rx c')))"
proof (cases "length (rx c) < 8")
  case True
  then show ?thesis using assms by (auto simp: conn_ok_def want_def max_def)
next
  case False
  then have "frame_need (rx c') = frame_need (rx c)" using assms(3) by (simp add: frame_need_append)
  then show ?thesis using assms False by (auto simp: conn_ok_def want_def max_def)
qed

lemma serve_frames_started:
  "fs \<noteq> [] \<or> rest \<noteq> rx c \<Longrightarrow>
   serve_frames B N fs rest (c\<lparr>rx := b, t_last_ms := now_ms N (world (device s))\<rparr>) s = serve_frames B N fs rest c s"
  by (cases fs) auto

lemma recv_loop_frames:
  "conn_ok c \<Longrightarrow> recv_loop B N src c s =
     (case split_frames (rx c @ src) of (fs, rest) \<Rightarrow> serve_frames B N fs rest c s)"
proof (induction "length src" arbitrary: src c s rule: less_induct)
  case less
  show ?case
  proof (cases "src = []")
    case True
    then show ?thesis using split_frames_short [OF less.prems] by simp
  next
    case False
    let ?n = "min (length src) (want (rx c) - length (rx c))"
    let ?b = "rx c @ take ?n src" and ?rest = "drop ?n src"
    let ?c = "c\<lparr>rx := ?b, t_last_ms := now_ms N (world (device s))\<rparr>"
    note turn = recv_loop_turn [OF less.prems False, unfolded Let_def]
    have n: "length ?rest < length src" using want_ok(1) [OF less.prems] False by auto
    have app: "rx c @ src = ?b @ ?rest" by simp
    show ?thesis
    proof (cases "conn_ok ?c")
      case True
      obtain fs r where fr: "split_frames (rx c @ src) = (fs, r)" by fastforce
      have "fs \<noteq> [] \<or> r \<noteq> rx c"
        using fr False by (subst (asm) split_frames.simps) (auto simp: Let_def split: if_splits prod.splits)
      then show ?thesis
        using less.hyps [OF n True, of s] fr by (simp only: turn if_P [OF True]) (simp add: serve_frames_started)
    next
      case F: False
      have "length ?b = max 8 (unat (frame_need ?b))"
        using filled_frame [OF less.prems F] want_ok(1) [OF less.prems] by simp
      then have split: "split_frames (rx c @ src) = (let (fs, r) = split_frames ?rest in (?b # fs, r))"
        unfolding app by (intro split_frames_full) (auto simp: max_def split: if_splits)
      have IH: "recv_loop B N ?rest c' s' = (case split_frames ?rest of (fs, rest) \<Rightarrow> serve_frames B N fs rest c' s')"
        if "process_frame B N ?c s = Ret (a, c') s'" for a c' s'
        using less.hyps [OF n process_frame_conn_ok [OF that], of s'] process_frame_rx [of B N ?c s a c'] that by simp
      show ?thesis
        by (cases "process_frame B N ?c s") (auto simp: turn F split IH split: prod.splits)
    qed
  qed
qed

lemma serve_frames_not_None: "outcome_val (serve_frames B N fs r c s) \<noteq> Some None"
  by (induction fs arbitrary: c s) (auto simp: outcome_val_bind split: outcome.splits option.splits prod.splits)

text \<open>
  (C15) The receive path implements the stream specification: for a connection in order, however the
  network has cut the stream into buffers, \<open>mb_recv_cb\<close>'s loops end, stay inside the receive buffer, and
  serve exactly the frames of the stream, in order.
\<close>

theorem tcp_stream_served:
  assumes "conn_ok c"
  shows "recv_pbufs B N qs c s =
      (case split_frames (rx c @ concat qs) of (frames, rest) \<Rightarrow> serve_frames B N frames rest c s)
    \<and> outcome_val (recv_pbufs B N qs c s) \<noteq> Some None"
  unfolding recv_pbufs_concat [OF assms] recv_loop_frames [OF assms]
  by (simp add: serve_frames_not_None split: prod.splits)

text \<open>A network for the witnesses: every write is accepted, and time is \<open>0\<close>.\<close>

definition sim_lwip :: "'w lwip" where
  "sim_lwip = \<lparr>tcp_write = (\<lambda>_ _ w. (ERR_OK, w)), tcp_output = (\<lambda>_ w. w), tcp_close = (\<lambda>_ w. w),
     tcp_abort = (\<lambda>_ w. w), tcp_recved = (\<lambda>_ _ w. w), now_ms = (\<lambda>_. 0)\<rparr>"

definition open_conn :: mb_conn where
  "open_conn = \<lparr>pcb = Some 1, rx = [], tx_pending = [], t_last_ms = 0\<rparr>"

theorem tcp_stream_served_witness:
  "recv_pbufs sim_board sim_lwip [[0, 1, 0, 0, 0], [6, 1, 3, 0, 0, 0, 1, 0]] open_conn sim_srv =
     serve_frames sim_board sim_lwip [[0, 1, 0, 0, 0, 6, 1, 3, 0, 0, 0, 1]] [0] open_conn sim_srv"
proof -
  have ok: "conn_ok open_conn" by (simp add: conn_ok_def open_conn_def)
  have "split_frames (rx open_conn @ concat [[0, 1, 0, 0, 0], [6, 1, 3, 0, 0, 0, 1, 0]])
      = ([[0, 1, 0, 0, 0, 6, 1, 3, 0, 0, 0, 1]], [0])"
    by (simp add: open_conn_def split_frames.simps frame_need_def io_get_be16_def)
  then show ?thesis using tcp_stream_served [OF ok, of sim_board sim_lwip "[[0, 1, 0, 0, 0], [6, 1, 3, 0, 0, 0, 1, 0]]" sim_srv]
    by simp
qed

section \<open>Half frames and the connection table\<close>

lemma mb_conn_close_closes: "pcb (fst (mb_conn_close N c s)) = None"
  by (simp add: mb_conn_close_def)

text \<open>
  A connection that has sent part of a frame and then falls silent is not held open for ever: the
  first poll more than 500 ms after its last byte closes it, whatever the send buffer does.
\<close>

theorem tcp_half_frame_times_out:
  assumes "pcb c = Some p" "rx c \<noteq> []"
    and "\<And>q x w. now_ms N (snd (tcp_write N q x w)) = now_ms N w" "\<And>q w. now_ms N (tcp_output N q w) = now_ms N w"
    and "now_ms N (world (device s)) - t_last_ms c > MB_TCP_FRAME_TMO_MS"
  shows "pcb (fst (mb_poll_cb N c s)) = None"
proof -
  obtain e w where w: "tcp_write N p (tx_pending c) (world (device s)) = (e, w)" by fastforce
  then show ?thesis
    using assms(1,2,5) assms(3) [of p "tx_pending c" "world (device s)"] assms(4)
    by (cases e) (simp_all add: mb_poll_cb_def poll_flush_def mb_conn_close_def in_world_def Let_def)
qed

definition stale_conn :: mb_conn where
  "stale_conn = \<lparr>pcb = Some 1, rx = [0, 1], tx_pending = [7], t_last_ms = - 501\<rparr>"

theorem tcp_half_frame_times_out_witness: "pcb (fst (mb_poll_cb sim_lwip stale_conn sim_srv)) = None"
  by (rule tcp_half_frame_times_out) (simp_all add: sim_lwip_def stale_conn_def MB_TCP_FRAME_TMO_MS_def)

text \<open>A connection is refused exactly when the table is full; otherwise it gets a slot that was free.\<close>

lemma free_slot_Some: "free_slot cs = Some i \<Longrightarrow> i < length cs \<and> pcb (cs ! i) = None"
  by (induction cs arbitrary: i) (auto split: if_splits)

lemma free_slot_None: "free_slot cs = None \<longleftrightarrow> (\<forall>c \<in> set cs. pcb c \<noteq> None)"
  by (induction cs) auto

lemma mb_accept_full:
  "(case mb_accept_cb N p cs s of (ok, cs', s') \<Rightarrow>
      if \<forall>c \<in> set cs. pcb c \<noteq> None then \<not> ok \<and> cs' = cs
      else ok \<and> length cs' = length cs \<and> s' = s \<and>
        (\<exists>i < length cs. pcb (cs ! i) = None \<and> pcb (cs' ! i) = Some p \<and> conn_ok (cs' ! i) \<and> (\<forall>j \<noteq> i. cs' ! j = cs ! j)))"
proof (cases "free_slot cs")
  case None
  then show ?thesis using free_slot_None [of cs] by (simp add: mb_accept_cb_def)
next
  case (Some i)
  then have "i < length cs" "pcb (cs ! i) = None" "\<not> (\<forall>c \<in> set cs. pcb c \<noteq> None)"
    using free_slot_Some free_slot_None [of cs] by auto
  then show ?thesis using Some by (auto simp: mb_accept_cb_def conn_ok_def intro!: exI [of _ i])
qed

end
