(* ===== verification/Rtu_Frame.thy ===== *)
theory Rtu_Frame
  imports Mb_Server
begin

unbundle bit_operations_syntax

text \<open>
  \<open>src/modbus/rtu_frame.c\<close>: bytes from the serial line are collected until the line has been silent
  for 3.5 characters, and then taken as one frame: checked, filtered by unit, decoded, answered. The
  collected bytes are the list \<open>rx_buf\<close>, whose length is the source's \<open>rx_len\<close>.
\<close>

definition RTU_FRAME_MAX :: nat where [hub_defs]: "RTU_FRAME_MAX = 256"
definition RTU_FRAME_MIN :: nat where [hub_defs]: "RTU_FRAME_MIN = 4"

record rtu_st =
  rx_buf :: "u8 list"
  rx_overflow :: bool
  srv_unit :: u8
  bound_baud :: u32
  tx_bound :: bool

definition rtu_reset :: "rtu_st \<Rightarrow> rtu_st" where
  "rtu_reset r = r\<lparr>rx_buf := [], rx_overflow := False\<rparr>"

text \<open>The Boolean tells whether the silence timer is started again (\<open>rtu_t35_kick\<close>).\<close>

definition rtu_rx_feed :: "u8 list \<Rightarrow> rtu_st \<Rightarrow> bool \<times> rtu_st" where
  "rtu_rx_feed bytes r =
     (if bytes = [] then (False, r)
      else (True,
        if \<not> rx_overflow r then
          let space = RTU_FRAME_MAX - length (rx_buf r);
              n = (if length bytes \<le> space then length bytes else space)
          in r\<lparr>rx_buf := rx_buf r @ take n bytes, rx_overflow := n < length bytes\<rparr>
        else r))"

text \<open>The two CRC bytes at the end of a frame, low byte first.\<close>

definition frame_crc :: "u8 list \<Rightarrow> u16" where
  "frame_crc f = ucast (f ! (length f - 2)) OR push_bit 8 (ucast (f ! (length f - 1)))"

text \<open>
  \<open>rtu_t35_expired\<close>. The collected bytes are taken and the collection restarted before anything else;
  the second component is the frame handed to the transmitter, if any, and the server's state.
\<close>

definition t35_expired ::
    "(u8 list \<Rightarrow> 's \<Rightarrow> (u8 list option, 's) outcome) \<Rightarrow> (nat \<Rightarrow> 's \<Rightarrow> 's) \<Rightarrow> rtu_st \<Rightarrow> 's
      \<Rightarrow> rtu_st \<times> (u8 list option, 's) outcome" where
  "t35_expired proc cnt r s =
     (let f = rx_buf r; overflow = rx_overflow r; r = r\<lparr>rx_buf := [], rx_overflow := False\<rparr> in
      (r,
       if length f = 0 then Ret None s
       else if overflow \<or> length f < RTU_FRAME_MIN then Ret None (cnt MB_DIAG_NO_RESP (cnt MB_DIAG_BUS_MSG s))
       else if frame_crc f \<noteq> crc16_modbus (take (length f - 2) f) then
         Ret None (cnt MB_DIAG_NO_RESP (cnt MB_DIAG_CRC_ERR (cnt MB_DIAG_BUS_MSG s)))
       else let unit = f ! 0 in
         if unit \<noteq> 0 \<and> unit \<noteq> srv_unit r then Ret None (cnt MB_DIAG_NO_RESP (cnt MB_DIAG_BUS_MSG s))
         else outcome_bind (proc (take (length f - 3) (drop 1 f)) s) (\<lambda>rsp s.
           case rsp of
             None \<Rightarrow> Ret None (cnt MB_DIAG_NO_RESP s)
           | Some p \<Rightarrow>
               if unit = 0 then Ret None (cnt MB_DIAG_NO_RESP s)
               else let crc = crc16_modbus (unit # p)
                    in Ret (if tx_bound r then Some (unit # p @ [ucast (crc AND 0xFF), ucast (drop_bit 8 crc)]) else None) s)))"

definition rtu_t35_expired :: "'w board \<Rightarrow> rtu_st \<Rightarrow> 'w srv \<Rightarrow> rtu_st \<times> (u8 list option, 'w srv) outcome" where
  "rtu_t35_expired B = t35_expired (mb_server_process B) mb_server_diag_count"

definition rtu_frame_bind :: "u8 \<Rightarrow> u32 \<Rightarrow> bool \<Rightarrow> rtu_st \<Rightarrow> rtu_st" where
  "rtu_frame_bind unit baud tx r = rtu_reset (r\<lparr>srv_unit := unit, bound_baud := baud, tx_bound := tx\<rparr>)"

definition rtu_t35_ms :: "u32 \<Rightarrow> u32" where
  "rtu_t35_ms baud =
     (if baud = 0 \<or> baud > 19200 then 2
      else let us = (38500000 + baud - 1) div baud in (us + 999) div 1000)"

section \<open>Frames\<close>

definition crc_bytes :: "u16 \<Rightarrow> u8 list" where
  "crc_bytes c = [ucast (c AND 0xFF), ucast (drop_bit 8 c)]"

text \<open>A body with its CRC behind it.\<close>

definition rtu_frame :: "u8 list \<Rightarrow> u8 list" where
  "rtu_frame body = body @ crc_bytes (crc16_modbus body)"

lemma length_crc_bytes [simp]: "length (crc_bytes c) = 2"
  by (simp add: crc_bytes_def)

lemma length_rtu_frame [simp]: "length (rtu_frame body) = length body + 2"
  by (simp add: rtu_frame_def)

lemma crc_bytes_value: "ucast (ucast (c AND 0xFF) :: u8) OR push_bit 8 (ucast (ucast (drop_bit 8 c) :: u8)) = (c :: u16)"
  by (auto simp: bit_eq_iff bit_simps bit_255_iff word_255_mask)

lemma frame_crc_frame: "frame_crc (rtu_frame body) = crc16_modbus body"
  using crc_bytes_value [of "crc16_modbus body"]
  by (simp add: frame_crc_def rtu_frame_def crc_bytes_def nth_append)

lemma take_rtu_frame: "take (length (rtu_frame body) - 2) (rtu_frame body) = body"
  by (simp add: rtu_frame_def crc_bytes_def)

section \<open>Collecting a frame\<close>

definition rtu_rx_all :: "u8 list list \<Rightarrow> rtu_st \<Rightarrow> rtu_st" where
  "rtu_rx_all css r = fold (\<lambda>c r. snd (rtu_rx_feed c r)) css r"

text \<open>The buffer holds the first 256 bytes that came in, however they were split; more than that is remembered.\<close>

lemma rtu_rx_feed_buf:
  assumes "length (rx_buf r) \<le> RTU_FRAME_MAX" "rx_overflow r \<Longrightarrow> length (rx_buf r) = RTU_FRAME_MAX"
  shows "rx_buf (snd (rtu_rx_feed c r)) = take RTU_FRAME_MAX (rx_buf r @ c)"
    and "rx_overflow (snd (rtu_rx_feed c r)) \<longleftrightarrow> rx_overflow r \<or> length (rx_buf r @ c) > RTU_FRAME_MAX"
    and "srv_unit (snd (rtu_rx_feed c r)) = srv_unit r" "tx_bound (snd (rtu_rx_feed c r)) = tx_bound r"
    and "bound_baud (snd (rtu_rx_feed c r)) = bound_baud r"
  using assms by (auto simp: rtu_rx_feed_def Let_def)

lemma rtu_rx_all_buf:
  assumes "length (rx_buf r) \<le> RTU_FRAME_MAX" "rx_overflow r \<longrightarrow> length (rx_buf r) = RTU_FRAME_MAX"
  shows "rx_buf (rtu_rx_all css r) = take RTU_FRAME_MAX (rx_buf r @ concat css) \<and>
    (rx_overflow (rtu_rx_all css r) \<longleftrightarrow> rx_overflow r \<or> length (rx_buf r @ concat css) > RTU_FRAME_MAX) \<and>
    srv_unit (rtu_rx_all css r) = srv_unit r \<and> tx_bound (rtu_rx_all css r) = tx_bound r \<and>
    bound_baud (rtu_rx_all css r) = bound_baud r"
  using assms
proof (induction css arbitrary: r)
  case Nil
  then show ?case by (auto simp: rtu_rx_all_def)
next
  case (Cons c css)
  let ?r = "snd (rtu_rx_feed c r)"
  note f = rtu_rx_feed_buf [OF Cons.prems(1) Cons.prems(2) [rule_format], of c]
  have st: "rtu_rx_all (c # css) r = rtu_rx_all css ?r" by (simp add: rtu_rx_all_def)
  have i: "length (rx_buf ?r) \<le> RTU_FRAME_MAX" "rx_overflow ?r \<longrightarrow> length (rx_buf ?r) = RTU_FRAME_MAX"
    using f(1,2) Cons.prems by auto
  have cut: "take RTU_FRAME_MAX (take RTU_FRAME_MAX (rx_buf r @ c) @ x) = take RTU_FRAME_MAX (rx_buf r @ c @ x)" for x
    using Cons.prems(1) by (cases "length (rx_buf r @ c) \<le> RTU_FRAME_MAX") (simp_all add: min_absorb1)
  have over: "rx_overflow r \<or> length (rx_buf r @ c) > RTU_FRAME_MAX \<or> length (rx_buf ?r @ x) > RTU_FRAME_MAX
      \<longleftrightarrow> rx_overflow r \<or> length (rx_buf r @ c @ x) > RTU_FRAME_MAX" for x
    using f(1) by auto
  show ?case
    using Cons.IH [OF i] f(1-5) cut [of "concat css"] over [of "concat css"] unfolding st by simp
qed

lemma rtu_rx_fresh:
  assumes "length (concat css) \<le> RTU_FRAME_MAX"
  shows "rtu_rx_all css (rtu_reset r) = (rtu_reset r)\<lparr>rx_buf := concat css\<rparr>"
  using rtu_rx_all_buf [of "rtu_reset r" css] assms
  by (intro rtu_st.equality) (auto simp: rtu_reset_def)

section \<open>Handling a frame\<close>

context pdu_server
begin

lemma t35_good_frame:
  assumes "rx_buf r = rtu_frame (unit # pdu)" "\<not> rx_overflow r" "pdu \<noteq> []" "unit = 0 \<or> unit = srv_unit r"
  shows "t35_expired proc cnt r s = (rtu_reset r,
    outcome_bind (proc pdu s) (\<lambda>rsp s. case rsp of
        None \<Rightarrow> Ret None (cnt MB_DIAG_NO_RESP s)
      | Some p \<Rightarrow> if unit = 0 then Ret None (cnt MB_DIAG_NO_RESP s)
          else Ret (if tx_bound r then Some (rtu_frame (unit # p)) else None) s))"
proof -
  have len: "length (rx_buf r) = length pdu + 3" using assms(1) by simp
  have crc: "frame_crc (rx_buf r) = crc16_modbus (take (length (rx_buf r) - 2) (rx_buf r))"
    unfolding assms(1) take_rtu_frame frame_crc_frame ..
  have f: "rx_buf r ! 0 = unit" "take (length (rx_buf r) - 3) (drop 1 (rx_buf r)) = pdu"
    unfolding len by (simp_all add: assms(1) rtu_frame_def)
  have g: "rx_buf r \<noteq> []" "\<not> length (rx_buf r) < RTU_FRAME_MIN"
    using len assms(3) by (auto simp: RTU_FRAME_MIN_def Suc_le_eq)
  show ?thesis
    using assms(2,4) crc f g
    by (auto simp: t35_expired_def Let_def rtu_reset_def rtu_frame_def crc_bytes_def cong: option.case_cong if_cong)
qed

text \<open>Whatever is wrong with it, a frame with a bad check only moves counters.\<close>

lemma t35_bad_crc:
  assumes "frame_crc (rx_buf r) \<noteq> crc16_modbus (take (length (rx_buf r) - 2) (rx_buf r))"
  shows "snd (t35_expired proc cnt r s) \<in> {Ret None s, Ret None (cnt MB_DIAG_NO_RESP (cnt MB_DIAG_BUS_MSG s)),
      Ret None (cnt MB_DIAG_NO_RESP (cnt MB_DIAG_CRC_ERR (cnt MB_DIAG_BUS_MSG s)))}"
  using assms by (simp add: t35_expired_def Let_def)

end

text \<open>One changed byte anywhere in a frame is seen by the check.\<close>

lemma corrupted_frame_crc:
  assumes "i < length (rtu_frame body)" "rtu_frame body ! i \<noteq> b"
  shows "frame_crc ((rtu_frame body)[i := b]) \<noteq> crc16_modbus (take (length (rtu_frame body) - 2) ((rtu_frame body)[i := b]))"
proof (cases "i < length body")
  case True
  then have "take (length (rtu_frame body) - 2) ((rtu_frame body)[i := b]) = body[i := b]"
    by (simp add: rtu_frame_def list_update_append)
  moreover have "frame_crc ((rtu_frame body)[i := b]) = frame_crc (rtu_frame body)"
    using True by (simp add: frame_crc_def)
  moreover have "body ! i \<noteq> b" using True assms(2) by (simp add: rtu_frame_def nth_append)
  ultimately show ?thesis
    using crc16_modbus_single_byte [OF True] by (simp add: frame_crc_frame) metis
next
  case False
  let ?c = "crc_bytes (crc16_modbus body)"
  have t: "take (length (rtu_frame body) - 2) ((rtu_frame body)[i := b]) = body"
    using False by (simp add: rtu_frame_def list_update_append)
  have i: "i = length body \<or> i = Suc (length body)" using False assms(1) by auto
  have "frame_crc ((rtu_frame body)[i := b]) \<noteq> frame_crc (rtu_frame body)"
  proof
    assume eq: "frame_crc ((rtu_frame body)[i := b]) = frame_crc (rtu_frame body)"
    have inj: "a = a' \<and> d = d'" if "(ucast a :: u16) OR push_bit 8 (ucast d) = ucast a' OR push_bit 8 (ucast d')" for a a' d d' :: u8
    proof -
      have "ucast (ucast (a :: u8) OR push_bit 8 (ucast (d :: u8)) :: u16) = a"
        "ucast (drop_bit 8 (ucast (a :: u8) OR push_bit 8 (ucast (d :: u8)) :: u16)) = d" for a d
        by (auto simp: bit_eq_iff bit_simps dest: bit_imp_le_length)
      then show ?thesis using that by metis
    qed
    show False using i inj [OF eq [unfolded frame_crc_def]] assms(2) by auto
  qed
  then show ?thesis unfolding t frame_crc_frame .
qed


section \<open>The serial slave\<close>

text \<open>
  Modbus RTU: a correct frame for this unit, arriving in any number of pieces of any size, is
  handed to the decoder as the PDU it carries, and the decoder's answer goes out as a correct frame
  from this unit; when the decoder stays silent nothing is sent. The receiver is empty again
  afterwards.
\<close>

theorem rtu_frame_answered:
  assumes "concat css = rtu_frame (unit # pdu)" "pdu \<noteq> []" "length pdu \<le> 253" "unit = srv_unit r" "unit \<noteq> 0" "tx_bound r"
  shows "rtu_t35_expired B (rtu_rx_all css (rtu_reset r)) s = (rtu_reset r,
    case mb_server_process B pdu s of
      Ret (Some p) s' \<Rightarrow> Ret (Some (rtu_frame (unit # p))) s'
    | Ret None s' \<Rightarrow> Ret None (mb_server_diag_count MB_DIAG_NO_RESP s')
    | Reset s' \<Rightarrow> Reset s')"
proof -
  have "length (concat css) \<le> RTU_FRAME_MAX" using assms(1,3) by (simp add: RTU_FRAME_MAX_def)
  then have rx: "rtu_rx_all css (rtu_reset r) = (rtu_reset r)\<lparr>rx_buf := rtu_frame (unit # pdu)\<rparr>"
    using rtu_rx_fresh assms(1) by metis
  have g: "rx_buf ((rtu_reset r)\<lparr>rx_buf := rtu_frame (unit # pdu)\<rparr>) = rtu_frame (unit # pdu)"
    "\<not> rx_overflow ((rtu_reset r)\<lparr>rx_buf := rtu_frame (unit # pdu)\<rparr>)"
    "unit = 0 \<or> unit = srv_unit ((rtu_reset r)\<lparr>rx_buf := rtu_frame (unit # pdu)\<rparr>)"
    using assms(4) by (simp_all add: rtu_reset_def)
  show ?thesis unfolding rtu_t35_expired_def rx mb.t35_good_frame [OF g(1,2) assms(2) g(3)]
    using assms(5,6) by (auto simp: rtu_reset_def split: outcome.split option.split)
qed

theorem rtu_frame_answered_witness:
  "rtu_t35_expired sim_board (rtu_rx_all [take 3 (rtu_frame (1 # [3, 0, 5, 0, 2])), drop 3 (rtu_frame (1 # [3, 0, 5, 0, 2]))]
      (rtu_reset \<lparr>rx_buf = [], rx_overflow = False, srv_unit = 1, bound_baud = 9600, tx_bound = True\<rparr>)) sim_srv =
    (rtu_reset \<lparr>rx_buf = [], rx_overflow = False, srv_unit = 1, bound_baud = 9600, tx_bound = True\<rparr>,
     case mb_server_process sim_board [3, 0, 5, 0, 2] sim_srv of
       Ret (Some p) s' \<Rightarrow> Ret (Some (rtu_frame (1 # p))) s'
     | Ret None s' \<Rightarrow> Ret None (mb_server_diag_count MB_DIAG_NO_RESP s')
     | Reset s' \<Rightarrow> Reset s')"
  by (rule rtu_frame_answered) simp_all

text \<open>
  A frame in which one byte was damaged on the line, wherever it is and whatever it became, is
  not answered and does nothing to the device: only message counters move.
\<close>

theorem rtu_damaged_frame_dropped:
  assumes "i < length (rtu_frame body)" "rtu_frame body ! i \<noteq> b" "rx_buf r = (rtu_frame body)[i := b]"
  shows "\<exists>s'. snd (rtu_t35_expired B r s) = Ret None s' \<and> device s' = device s"
proof -
  have "frame_crc (rx_buf r) \<noteq> crc16_modbus (take (length (rx_buf r) - 2) (rx_buf r))"
    using corrupted_frame_crc [OF assms(1,2)] by (simp add: assms(3))
  from mb.t35_bad_crc [OF this, of B s] show ?thesis unfolding rtu_t35_expired_def by auto
qed

theorem rtu_damaged_frame_dropped_witness:
  "\<exists>s'. snd (rtu_t35_expired sim_board \<lparr>rx_buf = (rtu_frame [1, 6, 0, 0, 0, 1])[5 := 255], rx_overflow = False, srv_unit = 1,
      bound_baud = 9600, tx_bound = True\<rparr> sim_srv) = Ret None s' \<and> device s' = device sim_srv"
  by (rule rtu_damaged_frame_dropped [of 5 "[1, 6, 0, 0, 0, 1]" 255]) (simp_all add: rtu_frame_def)

lemma t35_arith:
  fixes u m b :: nat
  assumes "38500000 \<le> u * b" "u * b \<le> 38500000 + b - 1" "u \<le> 1000 * m" "1000 * m \<le> u + 999" "0 < b"
  shows "38500 \<le> m * b \<and> (m - 2) * b < 38500"
proof -
  have "u * b \<le> 1000 * (m * b)" using mult_le_mono1 [OF assms(3), of b] by (simp add: mult.assoc)
  moreover have "1000 * (m * b) \<le> u * b + 999 * b"
    using mult_le_mono1 [OF assms(4), of b] by (simp add: mult.assoc add_mult_distrib)
  moreover have "(m - 2) * b = m * b - 2 * b" by (simp add: diff_mult_distrib)
  ultimately show ?thesis using assms by linarith
qed

text \<open>
  The silence that ends a frame is never shorter than 3.5 characters of 11 bits at the line's
  speed, and at most two milliseconds longer: for every speed up to 19200 baud the period in
  milliseconds is the next whole one, and above that it is the fixed two.
\<close>

theorem t35_covers_silence:
  assumes "0 < unat baud" "unat baud \<le> 19200"
  shows "38500 \<le> unat (rtu_t35_ms baud) * unat baud \<and> (unat (rtu_t35_ms baud) - 2) * unat baud < 38500"
proof -
  let ?b = "unat baud" and ?u = "(38500000 + unat baud - 1) div unat baud"
  have b: "baud \<noteq> 0" "\<not> baud > 19200" using assms by (auto simp: word_less_nat_alt)
  have s: "unat (38500000 + baud - 1) = 38500000 + ?b - 1"
  proof -
    have "unat (38500000 + baud) = 38500000 + ?b" using assms by (simp add: unat_word_ariths)
    then show ?thesis using assms by (subst unat_minus_one) auto
  qed
  have u: "unat ((38500000 + baud - 1) div baud) = ?u" unfolding unat_div s ..
  have uu: "38500000 \<le> ?u * ?b" "?u * ?b \<le> 38500000 + ?b - 1" "?u \<le> 38519199"
  proof -
    have e: "?u * ?b + (38500000 + ?b - 1) mod ?b = 38500000 + ?b - 1" by (rule div_mult_mod_eq)
    moreover have "(38500000 + ?b - 1) mod ?b < ?b" using assms by simp
    ultimately show "38500000 \<le> ?u * ?b" "?u * ?b \<le> 38500000 + ?b - 1" by linarith+
    show "?u \<le> 38519199" using assms div_le_dividend [of "38500000 + ?b - 1" ?b] by linarith
  qed
  have m: "unat (rtu_t35_ms baud) = (?u + 999) div 1000"
  proof -
    have "unat ((38500000 + baud - 1) div baud + 999) = ?u + 999"
      using uu(3) unfolding unat_word_ariths(1) u by simp
    then show ?thesis using b unfolding rtu_t35_ms_def Let_def by (simp only: if_False disj_not1 unat_div simp_thms) simp
  qed
  let ?m = "(?u + 999) div 1000"
  have "?u \<le> 1000 * ?m" "1000 * ?m \<le> ?u + 999" by linarith+
  then show ?thesis unfolding m using t35_arith [OF uu(1,2)] assms(1) by blast
qed

theorem t35_covers_silence_witness:
  "38500 \<le> unat (rtu_t35_ms 9600) * unat (9600 :: u32) \<and> (unat (rtu_t35_ms 9600) - 2) * unat (9600 :: u32) < 38500"
  by (rule t35_covers_silence) simp_all

end
