(* ===== verification/Rtu_Bus.thy ===== *)
theory Rtu_Bus
  imports Rtu_Frame
begin

unbundle bit_operations_syntax

text \<open>
  \<open>src/modbus/rtu.c\<close>: the RS-485 side of Modbus RTU. The receive interrupt, the 3.5 character timer, the
  RTU task, the end of a transmission and line errors interleave. A callback that runs in the interrupt of the
  UART is one definition, since nothing of this file can run in between; the task is cut at every statement that
  reads or writes something an interrupt uses, and \<open>pc\<close> is the statement it has reached. The relation
  \<open>bus_step\<close> lets the steps happen in any order. Beside the variables of the file the state holds what the
  hardware does: \<open>rx_on\<close> (a reception is armed), \<open>tx_on\<close> (a transmission is running), \<open>de_pin\<close> (the transceiver
  drives the line), \<open>t35_running\<close>, \<open>t35_due\<close> (the timer has expired and its callback is to come) and \<open>notified\<close> (the
  notification of the task). A request that restarts the device clears \<open>up\<close>. The Boolean arguments \<open>arm\<close> and \<open>tx_ok\<close>
  are the results of \<open>HAL_UARTEx_ReceiveToIdle_IT\<close> and \<open>HAL_UART_Transmit_IT\<close>. The collected bytes are taken and decoded in one
  step: \<open>frame_pending\<close> keeps the receive interrupt off them, except when a transmission that was still running ends in between, which
  needs a master that does not wait for its answer. The two statements of the timer callback are one step as well: the notification that
  it gives is read only by the task when it waits, and there the order of the two makes no difference.
\<close>

datatype rtu_pc = Waiting | Taken | Answer "u8 list" | Marked "u8 list" | Quiet "u8 list" | Driven "u8 list"
  | Fin_de | Fin_busy | Fin_rx | Fin_pending | Test_busy | Clear_pending

record 'w rtu_bus =
  frame_st :: rtu_st
  server :: "'w srv"
  tx_busy :: bool
  frame_pending :: bool
  started :: bool
  t35_running :: bool
  t35_due :: bool
  notified :: bool
  pc :: rtu_pc
  de_pin :: bool
  rx_on :: bool
  tx_on :: bool
  up :: bool

definition rtu_t35_kick :: "'w rtu_bus \<Rightarrow> 'w rtu_bus" where
  "rtu_t35_kick b = b\<lparr>t35_running := True\<rparr>"

definition rtu_t35_timer_cb :: "'w rtu_bus \<Rightarrow> 'w rtu_bus" where
  "rtu_t35_timer_cb b = b\<lparr>frame_pending := True, notified := True\<rparr>"

text \<open>The result of the HAL is ignored: a refused reception is not armed, a running one goes on.\<close>

definition rtu_tx_restart_rx :: "bool \<Rightarrow> 'w rtu_bus \<Rightarrow> 'w rtu_bus" where
  "rtu_tx_restart_rx arm b = (if arm then b\<lparr>rx_on := True\<rparr> else b)"

text \<open>\<open>rtu_tx_finish\<close> as the interrupt runs it, and statement by statement as the task does.\<close>

definition rtu_tx_finish :: "bool \<Rightarrow> 'w rtu_bus \<Rightarrow> 'w rtu_bus" where
  "rtu_tx_finish arm b = (rtu_tx_restart_rx arm (b\<lparr>de_pin := False, tx_busy := False\<rparr>))\<lparr>frame_pending := False\<rparr>"

fun rtu_tx_finish_step :: "bool \<Rightarrow> 'w rtu_bus \<Rightarrow> 'w rtu_bus" where
  "rtu_tx_finish_step arm b =
     (case pc b of
        Fin_de \<Rightarrow> b\<lparr>de_pin := False, pc := Fin_busy\<rparr>
      | Fin_busy \<Rightarrow> b\<lparr>tx_busy := False, pc := Fin_rx\<rparr>
      | Fin_rx \<Rightarrow> (rtu_tx_restart_rx arm b)\<lparr>pc := Fin_pending\<rparr>
      | Fin_pending \<Rightarrow> b\<lparr>frame_pending := False, pc := Test_busy\<rparr>
      | _ \<Rightarrow> b)"

text \<open>The statements of \<open>rtu_tx_frame\<close>; the delay is the time the task stays at \<open>Driven\<close>.\<close>

fun rtu_tx_frame :: "bool \<Rightarrow> 'w rtu_bus \<Rightarrow> 'w rtu_bus" where
  "rtu_tx_frame tx_ok b =
     (case pc b of
        Answer f \<Rightarrow> b\<lparr>tx_busy := True, pc := Marked f\<rparr>
      | Marked f \<Rightarrow> b\<lparr>rx_on := False, pc := Quiet f\<rparr>
      | Quiet f \<Rightarrow> b\<lparr>de_pin := True, pc := Driven f\<rparr>
      | Driven f \<Rightarrow> if tx_ok then b\<lparr>tx_on := True, pc := Test_busy\<rparr> else b\<lparr>pc := Fin_de\<rparr>
      | _ \<Rightarrow> b)"

text \<open>One statement of \<open>rtu_task\<close>: taking the notification, decoding, sending, and the test of \<open>tx_busy\<close>.\<close>

definition rtu_decode :: "'w board \<Rightarrow> 'w rtu_bus \<Rightarrow> 'w rtu_bus" where
  "rtu_decode B b =
     (case rtu_t35_expired B (frame_st b) (server b) of
        (r, Ret None s) \<Rightarrow> b\<lparr>frame_st := r, server := s, pc := Test_busy\<rparr>
      | (r, Ret (Some f) s) \<Rightarrow> b\<lparr>frame_st := r, server := s, pc := Answer f\<rparr>
      | (r, Reset s) \<Rightarrow> b\<lparr>server := s, up := False\<rparr>)"

fun rtu_task_step :: "'w board \<Rightarrow> bool \<Rightarrow> bool \<Rightarrow> 'w rtu_bus \<Rightarrow> 'w rtu_bus" where
  "rtu_task_step B tx_ok arm b =
     (case pc b of
        Waiting \<Rightarrow> if notified b then b\<lparr>notified := False, pc := Taken\<rparr> else b
      | Taken \<Rightarrow> rtu_decode B b
      | Test_busy \<Rightarrow> b\<lparr>pc := if tx_busy b then Waiting else Clear_pending\<rparr>
      | Clear_pending \<Rightarrow> b\<lparr>frame_pending := False, pc := Waiting\<rparr>
      | p \<Rightarrow> if p \<in> {Fin_de, Fin_busy, Fin_rx, Fin_pending} then rtu_tx_finish_step arm b else rtu_tx_frame tx_ok b)"

declare rtu_task_step.simps [simp del] rtu_tx_frame.simps [simp del] rtu_tx_finish_step.simps [simp del]

lemma task_statement [simp]:
  "pc b = Waiting \<Longrightarrow> rtu_task_step B tx_ok arm b = (if notified b then b\<lparr>notified := False, pc := Taken\<rparr> else b)"
  "pc b = Taken \<Longrightarrow> rtu_task_step B tx_ok arm b = rtu_decode B b"
  "pc b = Answer f \<Longrightarrow> rtu_task_step B tx_ok arm b = b\<lparr>tx_busy := True, pc := Marked f\<rparr>"
  "pc b = Marked f \<Longrightarrow> rtu_task_step B tx_ok arm b = b\<lparr>rx_on := False, pc := Quiet f\<rparr>"
  "pc b = Quiet f \<Longrightarrow> rtu_task_step B tx_ok arm b = b\<lparr>de_pin := True, pc := Driven f\<rparr>"
  "pc b = Driven f \<Longrightarrow> rtu_task_step B tx_ok arm b = (if tx_ok then b\<lparr>tx_on := True, pc := Test_busy\<rparr> else b\<lparr>pc := Fin_de\<rparr>)"
  "pc b = Fin_de \<Longrightarrow> rtu_task_step B tx_ok arm b = b\<lparr>de_pin := False, pc := Fin_busy\<rparr>"
  "pc b = Fin_busy \<Longrightarrow> rtu_task_step B tx_ok arm b = b\<lparr>tx_busy := False, pc := Fin_rx\<rparr>"
  "pc b = Fin_rx \<Longrightarrow> rtu_task_step B tx_ok arm b = (rtu_tx_restart_rx arm b)\<lparr>pc := Fin_pending\<rparr>"
  "pc b = Fin_pending \<Longrightarrow> rtu_task_step B tx_ok arm b = b\<lparr>frame_pending := False, pc := Test_busy\<rparr>"
  "pc b = Test_busy \<Longrightarrow> rtu_task_step B tx_ok arm b = b\<lparr>pc := if tx_busy b then Waiting else Clear_pending\<rparr>"
  "pc b = Clear_pending \<Longrightarrow> rtu_task_step B tx_ok arm b = b\<lparr>frame_pending := False, pc := Waiting\<rparr>"
  by (simp_all add: rtu_task_step.simps rtu_tx_frame.simps rtu_tx_finish_step.simps)

text \<open>Without an interrupt in between, the four statements in the task do what \<open>rtu_tx_finish\<close> does in the interrupt.\<close>

lemma finish_statements:
  "pc b = Fin_de \<Longrightarrow> ((rtu_task_step B tx_ok arm) ^^ 4) b = (rtu_tx_finish arm b)\<lparr>pc := Test_busy\<rparr>"
  by (simp add: numeral_eq_Suc rtu_tx_finish_def rtu_tx_restart_rx_def)

definition HAL_UART_TxCpltCallback :: "bool \<Rightarrow> 'w rtu_bus \<Rightarrow> 'w rtu_bus" where
  "HAL_UART_TxCpltCallback arm b = rtu_tx_finish arm b"

definition HAL_UARTEx_RxEventCallback :: "bool \<Rightarrow> u8 list \<Rightarrow> 'w rtu_bus \<Rightarrow> 'w rtu_bus" where
  "HAL_UARTEx_RxEventCallback arm bytes b =
     (let b = (if \<not> frame_pending b \<and> length bytes > 0 then
                 (case rtu_rx_feed bytes (frame_st b) of (kick, r) \<Rightarrow>
                   let b = b\<lparr>frame_st := r\<rparr> in if kick then rtu_t35_kick b else b)
               else b)
      in rtu_tx_restart_rx arm b)"

definition HAL_UART_ErrorCallback :: "bool \<Rightarrow> 'w rtu_bus \<Rightarrow> 'w rtu_bus" where
  "HAL_UART_ErrorCallback arm b =
     (if \<not> started b then b else if tx_busy b then rtu_tx_finish arm b else rtu_tx_restart_rx arm b)"

definition rtu_baud :: "u16 \<Rightarrow> u32" where
  "rtu_baud reg = (let baud = ucast reg in if baud < 1200 \<or> baud > 115200 then 9600 else baud)"

text \<open>\<open>ok\<close>: \<open>HAL_UART_Init\<close> has succeeded; otherwise \<open>Error_Handler\<close> stops the device.\<close>

definition mb_rtu_start :: "bool \<Rightarrow> bool \<Rightarrow> 'w rtu_bus \<Rightarrow> 'w rtu_bus" where
  "mb_rtu_start ok arm b =
     (if started b then b
      else let b = b\<lparr>started := True\<rparr>;
               baud = rtu_baud (get_holding_reg (of_nat HOLDING_RS485_BAUDRATE_IDX) (device (server b)));
               unit = ucast (get_holding_reg (of_nat HOLDING_SLAVE_ID_IDX) (device (server b)));
               b = b\<lparr>de_pin := False\<rparr>
           in if \<not> ok then b\<lparr>up := False\<rparr>
              else rtu_tx_restart_rx arm (b\<lparr>frame_st := rtu_frame_bind unit baud True (frame_st b)\<rparr>))"

section \<open>The interleavings\<close>

text \<open>
  What the line and the HAL do: \<open>polite\<close>, the master sends no byte from the end of a request until its answer is over (line noise
  may come at any time); \<open>arms\<close>, a reception that is not running can be armed; \<open>tx_faults\<close>, a running transmission can end with an error.
\<close>

record line =
  polite :: bool
  arms :: bool
  tx_faults :: bool

definition in_work :: "'w rtu_bus \<Rightarrow> bool" where
  "in_work b \<longleftrightarrow> notified b \<or> pc b \<noteq> Waiting \<or> tx_on b"

text \<open>
  One step of the running device. What the hardware itself does is in the rules: a finished or failed reception is off until it is
  armed again, a one-shot timer stops when it expires, and the HAL refuses a second transmission while one is running.
\<close>

inductive bus_step :: "'w board \<Rightarrow> line \<Rightarrow> 'w rtu_bus \<Rightarrow> 'w rtu_bus \<Rightarrow> bool" for B L where
  rx_event: "up b \<Longrightarrow> rx_on b \<Longrightarrow> (arms L \<Longrightarrow> arm) \<Longrightarrow> (polite L \<Longrightarrow> bytes \<noteq> [] \<Longrightarrow> \<not> in_work b)
    \<Longrightarrow> bus_step B L b (HAL_UARTEx_RxEventCallback arm bytes (b\<lparr>rx_on := False\<rparr>))"
| rx_error: "up b \<Longrightarrow> rx_on b \<Longrightarrow> (arms L \<Longrightarrow> arm) \<Longrightarrow> bus_step B L b (HAL_UART_ErrorCallback arm (b\<lparr>rx_on := False\<rparr>))"
| t35: "up b \<Longrightarrow> t35_running b \<Longrightarrow> bus_step B L b (b\<lparr>t35_running := False, t35_due := True\<rparr>)"
| t35_cb: "up b \<Longrightarrow> t35_due b \<Longrightarrow> bus_step B L b (rtu_t35_timer_cb (b\<lparr>t35_due := False\<rparr>))"
| task: "up b \<Longrightarrow> notified b \<or> pc b \<noteq> Waiting \<Longrightarrow> (arms L \<Longrightarrow> arm) \<Longrightarrow> (tx_on b \<Longrightarrow> \<not> tx_ok)
    \<Longrightarrow> bus_step B L b (rtu_task_step B tx_ok arm b)"
| tx_done: "up b \<Longrightarrow> tx_on b \<Longrightarrow> (arms L \<Longrightarrow> arm) \<Longrightarrow> bus_step B L b (HAL_UART_TxCpltCallback arm (b\<lparr>tx_on := False\<rparr>))"
| tx_error: "up b \<Longrightarrow> tx_on b \<Longrightarrow> tx_faults L \<Longrightarrow> (arms L \<Longrightarrow> arm)
    \<Longrightarrow> bus_step B L b (HAL_UART_ErrorCallback arm (b\<lparr>tx_on := False\<rparr>))"

inductive bus_reachable :: "'w board \<Rightarrow> line \<Rightarrow> 'w rtu_bus \<Rightarrow> bool" for B L where
  start: "\<not> started b \<Longrightarrow> \<not> tx_busy b \<Longrightarrow> \<not> frame_pending b \<Longrightarrow> \<not> t35_running b \<Longrightarrow> \<not> t35_due b \<Longrightarrow> \<not> notified b \<Longrightarrow> pc b = Waiting
    \<Longrightarrow> \<not> tx_on b \<Longrightarrow> (arms L \<Longrightarrow> arm) \<Longrightarrow> bus_reachable B L (mb_rtu_start ok arm b)"
| step: "bus_reachable B L b \<Longrightarrow> bus_step B L b b' \<Longrightarrow> bus_reachable B L b'"

text \<open>Where the task is on its way to a transmission or back from one that could not be started.\<close>

definition driving :: "rtu_pc \<Rightarrow> bool" where
  "driving p \<longleftrightarrow> (case p of Driven f \<Rightarrow> True | Fin_de \<Rightarrow> True | _ \<Rightarrow> False)"

definition muted :: "rtu_pc \<Rightarrow> bool" where
  "muted p \<longleftrightarrow> (case p of Quiet f \<Rightarrow> True | Driven f \<Rightarrow> True | Fin_de \<Rightarrow> True | Fin_busy \<Rightarrow> True | Fin_rx \<Rightarrow> True | _ \<Rightarrow> False)"

definition marking :: "rtu_pc \<Rightarrow> bool" where
  "marking p \<longleftrightarrow> (case p of Marked f \<Rightarrow> True | Quiet f \<Rightarrow> True | Driven f \<Rightarrow> True | Fin_de \<Rightarrow> True | Fin_busy \<Rightarrow> True | _ \<Rightarrow> False)"

definition answering :: "rtu_pc \<Rightarrow> bool" where
  "answering p \<longleftrightarrow> (case p of Answer f \<Rightarrow> True | _ \<Rightarrow> marking p \<or> p = Fin_rx)"

text \<open>
  The line is driven only with a transmission running or at hand; the receiver is off only then; reception is blocked only while
  somebody is going to unblock it; and, with a polite master, no second answer is begun while one is going out.
\<close>

definition bus_inv :: "line \<Rightarrow> 'w rtu_bus \<Rightarrow> bool" where
  "bus_inv L b \<longleftrightarrow> started b \<and> (de_pin b \<longrightarrow> tx_on b \<or> driving (pc b)) \<and> (tx_busy b \<longrightarrow> tx_on b \<or> marking (pc b))
     \<and> (arms L \<longrightarrow> \<not> rx_on b \<longrightarrow> tx_on b \<or> muted (pc b)) \<and> (frame_pending b \<longrightarrow> in_work b)"

definition polite_inv :: "'w rtu_bus \<Rightarrow> bool" where
  "polite_inv b \<longleftrightarrow> (tx_on b \<or> answering (pc b) \<longrightarrow> rx_buf (frame_st b) = []) \<and> (tx_on b \<longrightarrow> \<not> answering (pc b) \<and> de_pin b \<and> \<not> rx_on b)
     \<and> (muted (pc b) \<longrightarrow> \<not> rx_on b) \<and> (driving (pc b) \<longrightarrow> de_pin b)"

lemmas pc_classes = driving_def muted_def marking_def answering_def in_work_def

lemmas bus_callbacks = HAL_UARTEx_RxEventCallback_def HAL_UART_ErrorCallback_def HAL_UART_TxCpltCallback_def
  rtu_t35_timer_cb_def rtu_tx_finish_def rtu_tx_restart_rx_def rtu_t35_kick_def

lemma answering_pc: "muted p \<Longrightarrow> answering p" "driving p \<Longrightarrow> answering p"
  by (auto simp: pc_classes split: rtu_pc.splits)

lemma t35_expired_empty: "rx_buf r = [] \<Longrightarrow> snd (t35_expired proc cnt r s) = Ret None s"
  by (simp add: t35_expired_def Let_def)

lemma t35_expired_buf: "rx_buf (fst (t35_expired proc cnt r s)) = []"
  by (simp add: t35_expired_def Let_def)

lemma rtu_decode_cases:
  obtains (down) "\<not> up (rtu_decode B b)"
  | (silent) r s where "rtu_decode B b = b\<lparr>frame_st := r, server := s, pc := Test_busy\<rparr>" "rx_buf r = []"
  | (answer) r s f where "rtu_decode B b = b\<lparr>frame_st := r, server := s, pc := Answer f\<rparr>" "rx_buf r = []" "rx_buf (frame_st b) \<noteq> []"
proof -
  obtain r res where e: "rtu_t35_expired B (frame_st b) (server b) = (r, res)" by fastforce
  have r: "rx_buf r = []" using e t35_expired_buf [of "mb_server_process B"] unfolding rtu_t35_expired_def by (metis fst_conv)
  have n: "rx_buf (frame_st b) \<noteq> []" if "res = Ret (Some f) s" for f s
    using that e t35_expired_empty [of "frame_st b" "mb_server_process B" mb_server_diag_count "server b"] by (auto simp: rtu_t35_expired_def)
  show thesis
  proof (cases res)
    case (Ret x s)
    show thesis
    proof (cases x)
      case None
      then show thesis using e Ret by (intro silent [OF _ r]) (simp add: rtu_decode_def)
    next
      case (Some f)
      then show thesis using e Ret by (intro answer [OF _ r n]) (simp_all add: rtu_decode_def)
    qed
  next
    case (Reset s)
    then show thesis using e down by (simp add: rtu_decode_def)
  qed
qed

lemma task_step_inv:
  assumes "bus_inv L b" "notified b \<or> pc b \<noteq> Waiting" "arms L \<Longrightarrow> arm" "up (rtu_task_step B tx_ok arm b)"
  shows "bus_inv L (rtu_task_step B tx_ok arm b)"
proof (cases "pc b = Taken")
  case True
  then have "\<not> de_pin b \<or> tx_on b" "\<not> tx_busy b \<or> tx_on b" "arms L \<longrightarrow> rx_on b \<or> tx_on b"
    using assms(1) by (auto simp: bus_inv_def pc_classes)
  then show ?thesis
    using True assms by (cases rule: rtu_decode_cases [of B b]) (auto simp: bus_inv_def pc_classes)
next
  case False
  then show ?thesis
    using assms by (cases "pc b") (auto simp: bus_inv_def pc_classes rtu_tx_restart_rx_def)
qed

lemma task_step_polite:
  assumes "polite_inv b" "tx_on b \<Longrightarrow> \<not> tx_ok" "up (rtu_task_step B tx_ok arm b)"
  shows "polite_inv (rtu_task_step B tx_ok arm b)"
proof (cases "pc b = Taken")
  case True
  then show ?thesis
    using assms by (cases rule: rtu_decode_cases [of B b]) (auto simp: polite_inv_def pc_classes)
next
  case False
  then show ?thesis
    using assms by (cases "pc b") (auto simp: polite_inv_def pc_classes rtu_tx_restart_rx_def)
qed

lemma bus_step_inv: "bus_step B L b b' \<Longrightarrow> \<not> tx_faults L \<Longrightarrow> bus_inv L b \<Longrightarrow> up b' \<Longrightarrow> bus_inv L b'"
proof (induction rule: bus_step.induct)
  case (task b arm tx_ok)
  then show ?case by (intro task_step_inv) auto
qed (auto simp: bus_inv_def bus_callbacks in_work_def Let_def split: if_splits prod.splits)

lemma bus_step_polite:
  "bus_step B L b b' \<Longrightarrow> \<not> tx_faults L \<Longrightarrow> polite L \<Longrightarrow> bus_inv L b \<Longrightarrow> polite_inv b \<Longrightarrow> up b' \<Longrightarrow> polite_inv b'"
proof (induction rule: bus_step.induct)
  case (task b arm tx_ok)
  then show ?case by (intro task_step_polite) auto
next
  case (rx_event b arm bytes)
  then show ?case
    by (cases "bytes = []") (auto simp: polite_inv_def bus_callbacks in_work_def answering_def marking_def muted_def driving_def Let_def split: rtu_pc.splits if_splits prod.splits)
next
  case (rx_error b arm)
  then show ?case
    by (auto simp: polite_inv_def bus_inv_def bus_callbacks pc_classes split: rtu_pc.splits if_splits)
qed (auto simp: polite_inv_def bus_callbacks dest: answering_pc split: if_splits)

lemma mb_rtu_start_inv:
  "\<not> started b \<Longrightarrow> \<not> tx_busy b \<Longrightarrow> \<not> frame_pending b \<Longrightarrow> \<not> tx_on b \<Longrightarrow> pc b = Waiting \<Longrightarrow> (arms L \<Longrightarrow> arm) \<Longrightarrow> up (mb_rtu_start ok arm b)
    \<Longrightarrow> bus_inv L (mb_rtu_start ok arm b) \<and> polite_inv (mb_rtu_start ok arm b)"
  by (auto simp: bus_inv_def polite_inv_def pc_classes mb_rtu_start_def rtu_tx_restart_rx_def Let_def split: if_splits)

inductive_cases bus_step_down: "bus_step B L b b'"

lemma bus_step_up: "bus_step B L b b' \<Longrightarrow> up b"
  by (erule bus_step_down) auto

lemma bus_reachable_inv:
  "bus_reachable B L b \<Longrightarrow> \<not> tx_faults L \<Longrightarrow> up b \<Longrightarrow> bus_inv L b \<and> (polite L \<longrightarrow> polite_inv b)"
proof (induction rule: bus_reachable.induct)
  case (start b arm ok)
  then show ?case using mb_rtu_start_inv [of b L arm ok] by blast
next
  case (step b b')
  then show ?case using bus_step_inv bus_step_polite bus_step_up by blast
qed

text \<open>
  (C23) Line discipline of Modbus RTU, under every interleaving of receive events, line errors, timer, task and end of transmission, as long as
  a running transmission does not fail: the transceiver drives the line only while a transmission is running, or in the statements before it
  starts and after it could not be started, so that the bus is never left driven; if the HAL arms the receiver when it is asked to, the slave
  is deaf only then; reception is blocked only while the task or a transmission is about to unblock it; and if the master keeps quiet
  until it has its answer, the line is driven and the receiver off during the whole transmission.
\<close>

theorem rtu_line_discipline:
  assumes "bus_reachable B L b" "up b" "\<not> tx_faults L"
  shows "(de_pin b \<longrightarrow> tx_on b \<or> driving (pc b)) \<and> (arms L \<and> \<not> rx_on b \<longrightarrow> tx_on b \<or> muted (pc b))
    \<and> (frame_pending b \<longrightarrow> notified b \<or> pc b \<noteq> Waiting \<or> tx_on b) \<and> (polite L \<and> tx_on b \<longrightarrow> de_pin b \<and> \<not> rx_on b)"
  using bus_reachable_inv [OF assms(1,3,2)] by (auto simp: bus_inv_def polite_inv_def in_work_def)

section \<open>Back to listening\<close>

text \<open>
  Steps that need nothing new from the line. Each uses up some of the outstanding work, so that they come to
  an end; and when they have, the slave listens.
\<close>

inductive own_step :: "'w board \<Rightarrow> line \<Rightarrow> 'w rtu_bus \<Rightarrow> 'w rtu_bus \<Rightarrow> bool" for B L where
  own_t35: "up b \<Longrightarrow> t35_running b \<Longrightarrow> own_step B L b (b\<lparr>t35_running := False, t35_due := True\<rparr>)"
| own_cb: "up b \<Longrightarrow> t35_due b \<Longrightarrow> own_step B L b (rtu_t35_timer_cb (b\<lparr>t35_due := False\<rparr>))"
| own_task: "up b \<Longrightarrow> notified b \<or> pc b \<noteq> Waiting \<Longrightarrow> (arms L \<Longrightarrow> arm) \<Longrightarrow> (tx_on b \<Longrightarrow> \<not> tx_ok)
    \<Longrightarrow> own_step B L b (rtu_task_step B tx_ok arm b)"
| own_tx_done: "up b \<Longrightarrow> tx_on b \<Longrightarrow> (arms L \<Longrightarrow> arm) \<Longrightarrow> own_step B L b (HAL_UART_TxCpltCallback arm (b\<lparr>tx_on := False\<rparr>))"

lemma own_step_bus_step: "own_step B L b b' \<Longrightarrow> bus_step B L b b'"
  by (induction rule: own_step.induct) (auto intro: bus_step.intros)

fun pc_work :: "rtu_pc \<Rightarrow> nat" where
  "pc_work p = (case p of Waiting \<Rightarrow> 0 | Clear_pending \<Rightarrow> 1 | Test_busy \<Rightarrow> 2 | Fin_pending \<Rightarrow> 3 | Fin_rx \<Rightarrow> 4 | Fin_busy \<Rightarrow> 5 | Fin_de \<Rightarrow> 6
     | Driven f \<Rightarrow> 7 | Quiet f \<Rightarrow> 8 | Marked f \<Rightarrow> 9 | Answer f \<Rightarrow> 10 | Taken \<Rightarrow> 11)"

definition work :: "'w rtu_bus \<Rightarrow> nat" where
  "work b = (if t35_running b then 14 else 0) + (if t35_due b then 13 else 0) + (if notified b then 12 else 0) + (if tx_on b then 1 else 0) + pc_work (pc b)"

inductive own_run :: "'w board \<Rightarrow> line \<Rightarrow> nat \<Rightarrow> 'w rtu_bus \<Rightarrow> 'w rtu_bus \<Rightarrow> bool" for B L where
  none: "own_run B L 0 b b"
| more: "own_step B L b b' \<Longrightarrow> own_run B L n b' c \<Longrightarrow> own_run B L (Suc n) b c"

lemma task_step_work:
  assumes "notified b \<or> pc b \<noteq> Waiting" "up (rtu_task_step B tx_ok arm b)"
  shows "work (rtu_task_step B tx_ok arm b) < work b"
proof (cases "pc b = Taken")
  case True
  then show ?thesis using assms by (cases rule: rtu_decode_cases [of B b]) (auto simp: work_def)
next
  case False
  then show ?thesis using assms by (cases "pc b") (auto simp: work_def rtu_tx_restart_rx_def)
qed

lemma own_step_work: "own_step B L b b' \<Longrightarrow> up b' \<Longrightarrow> work b' < work b"
proof (induction rule: own_step.induct)
  case (own_task b arm tx_ok)
  then show ?case by (intro task_step_work) auto
qed (simp_all add: work_def bus_callbacks)

lemma own_run_up: "own_run B L n b c \<Longrightarrow> up c \<Longrightarrow> up b"
  by (induction rule: own_run.induct) (auto dest: own_step_bus_step bus_step_up)

lemma own_run_work: "own_run B L n b c \<Longrightarrow> up c \<Longrightarrow> n + work c \<le> work b"
proof (induction rule: own_run.induct)
  case (more b b' n c)
  then have "work b' < work b" by (intro own_step_work) (auto intro: own_run_up)
  then show ?case using more by simp
qed simp

lemma own_run_reachable: "own_run B L n b c \<Longrightarrow> bus_reachable B L b \<Longrightarrow> bus_reachable B L c"
  by (induction rule: own_run.induct) (auto dest: own_step_bus_step intro: bus_reachable.step)

lemma work_bound: "work b \<le> 51"
  by (auto simp: work_def split: rtu_pc.splits)

lemma idle_own_step:
  assumes "up b" "\<nexists>b'. own_step B L b b'"
  shows "\<not> in_work b"
proof -
  have "\<not> tx_on b" using assms own_tx_done [of b L True] by blast
  moreover from this have "\<not> (notified b \<or> pc b \<noteq> Waiting)" using assms own_task [of b L True True] by blast
  ultimately show ?thesis by (auto simp: in_work_def)
qed

text \<open>
  (C24) The slave always comes back to listening: from any reachable state, however task, timer and transmitter are scheduled and whether or not
  transmissions can be started, at most 51 of their steps are possible without anything new from the line, and when none is left (and no restart
  was requested) the line is released and received bytes are accepted again, and the receiver is armed if the HAL arms it when it is asked
  to.
\<close>

theorem rtu_listens_again:
  assumes "bus_reachable B L b" "\<not> tx_faults L" "own_run B L n b c" "up c"
  shows "n \<le> 51 \<and> ((\<nexists>d. own_step B L c d) \<longrightarrow> \<not> de_pin c \<and> \<not> frame_pending c \<and> (arms L \<longrightarrow> rx_on c))"
proof -
  have "n + work c \<le> work b" "bus_inv L c"
    using own_run_work [OF assms(3,4)] bus_reachable_inv [OF own_run_reachable [OF assms(3,1)] assms(2,4)] by auto
  then show ?thesis
    using work_bound [of b] idle_own_step [OF assms(4), of B L] by (auto simp: bus_inv_def pc_classes)
qed

section \<open>An error at the wrong moment\<close>

text \<open>
  The statements that mark a transmission are not protected from the interrupt. A line error between them clears \<open>tx_busy\<close>, and the
  transmission starts without the mark; if it then fails, the error callback takes the failure for a reception error and leaves the line
  driven, with nothing left that would release it.
\<close>

inductive bus_steps :: "'w board \<Rightarrow> line \<Rightarrow> 'w rtu_bus \<Rightarrow> 'w rtu_bus \<Rightarrow> bool" for B L where
  refl: "bus_steps B L b b"
| step: "bus_step B L b b' \<Longrightarrow> bus_steps B L b' c \<Longrightarrow> bus_steps B L b c"

lemma task_more: "up b \<Longrightarrow> pc b \<noteq> Waiting \<Longrightarrow> \<not> tx_on b \<Longrightarrow> bus_steps B L (rtu_task_step B True True b) c \<Longrightarrow> bus_steps B L b c"
  by (rule bus_steps.step [OF bus_step.task]) auto

theorem rtu_error_leaves_line_driven:
  assumes "up b" "started b" "pc b = Answer f" "rx_on b" "\<not> tx_on b" "tx_faults L" "\<not> notified b" "\<not> t35_running b" "\<not> t35_due b"
  shows "\<exists>c. bus_steps B L b c \<and> de_pin c \<and> \<not> tx_on c \<and> \<not> (\<exists>d. own_step B L c d)"
proof -
  define b1 where "b1 = rtu_task_step B True True b"
  define b2 where "b2 = HAL_UART_ErrorCallback True (b1\<lparr>rx_on := False\<rparr>)"
  define b3 where "b3 = rtu_task_step B True True (rtu_task_step B True True b2)"
  define b4 where "b4 = rtu_task_step B True True b3"
  define b5 where "b5 = HAL_UART_ErrorCallback True (b4\<lparr>tx_on := False\<rparr>)"
  define c where "c = rtu_task_step B True True (rtu_task_step B True True b5)"
  have 1: "up b1" "started b1" "pc b1 = Marked f" "rx_on b1" "\<not> tx_on b1" "tx_busy b1" "\<not> notified b1" "\<not> t35_running b1" "\<not> t35_due b1"
    using assms by (simp_all add: b1_def)
  have 2: "up b2" "started b2" "pc b2 = Marked f" "\<not> tx_on b2" "\<not> tx_busy b2" "\<not> notified b2" "\<not> t35_running b2" "\<not> t35_due b2"
    using 1 by (simp_all add: b2_def bus_callbacks)
  have 3: "up b3" "started b3" "pc b3 = Driven f" "\<not> tx_on b3" "de_pin b3" "\<not> tx_busy b3" "\<not> notified b3" "\<not> t35_running b3" "\<not> t35_due b3"
    using 2 by (simp_all add: b3_def)
  have 4: "up b4" "started b4" "pc b4 = Test_busy" "tx_on b4" "de_pin b4" "\<not> tx_busy b4" "\<not> notified b4" "\<not> t35_running b4" "\<not> t35_due b4"
    using 3 by (simp_all add: b4_def)
  have 5: "up b5" "pc b5 = Test_busy" "\<not> tx_on b5" "de_pin b5" "\<not> tx_busy b5" "\<not> notified b5" "\<not> t35_running b5" "\<not> t35_due b5"
    using 4 by (simp_all add: b5_def bus_callbacks)
  have 6: "pc c = Waiting" "\<not> tx_on c" "de_pin c" "\<not> notified c" "\<not> t35_running c" "\<not> t35_due c"
    using 5 by (simp_all add: c_def)
  have end5: "bus_steps B L b5 c"
    unfolding c_def using 5 by (auto intro!: task_more [of b5] task_more [of "rtu_task_step B True True b5"] bus_steps.refl)
  have end4: "bus_steps B L b4 c"
    using bus_steps.step [OF bus_step.tx_error [OF 4(1,4) assms(6), of True B] end5 [unfolded b5_def]] by simp
  have "bus_steps B L b3 c" using task_more [OF 3(1) _ 3(4) end4 [unfolded b4_def]] 3(3) by simp
  then have end2: "bus_steps B L b2 c"
    unfolding b3_def using 2 by (auto intro!: task_more [of b2] task_more [of "rtu_task_step B True True b2"])
  have "bus_steps B L b1 c"
    using bus_steps.step [OF bus_step.rx_error [OF 1(1,4), of L True B] end2 [unfolded b2_def]] by simp
  then have "bus_steps B L b c" using task_more [OF assms(1) _ assms(5)] assms(3) unfolding b1_def by simp
  moreover have "\<not> (\<exists>d. own_step B L c d)" using 6 by (auto elim: own_step.cases)
  ultimately show ?thesis using 6 by blast
qed

section \<open>Examples\<close>

text \<open>A slave for the witnesses, before its start, and after it has received one byte.\<close>

definition sim_line :: line where
  "sim_line = \<lparr>polite = True, arms = True, tx_faults = False\<rparr>"

definition sim_bus :: "sim rtu_bus" where
  "sim_bus = \<lparr>frame_st = \<lparr>rx_buf = [], rx_overflow = False, srv_unit = 0, bound_baud = 0, tx_bound = False\<rparr>,
     server = sim_srv, tx_busy = False, frame_pending = False, started = False, t35_running = False, t35_due = False, notified = False,
     pc = Waiting, de_pin = False, rx_on = False, tx_on = False, up = True\<rparr>"

definition sim_bus_rx :: "sim rtu_bus" where
  "sim_bus_rx = HAL_UARTEx_RxEventCallback True [1] ((mb_rtu_start True True sim_bus)\<lparr>rx_on := False\<rparr>)"

lemma sim_bus_rx_reachable: "bus_reachable sim_board sim_line sim_bus_rx"
proof -
  have "bus_reachable sim_board sim_line (mb_rtu_start True True sim_bus)" by (rule bus_reachable.start) (simp_all add: sim_bus_def)
  then show ?thesis unfolding sim_bus_rx_def
    by (rule bus_reachable.step) (rule bus_step.rx_event, simp_all add: mb_rtu_start_def sim_bus_def bus_callbacks in_work_def Let_def)
qed

lemma sim_bus_rx_simps:
  "up sim_bus_rx" "t35_running sim_bus_rx" "\<not> t35_due sim_bus_rx" "\<not> notified sim_bus_rx" "pc sim_bus_rx = Waiting" "\<not> tx_on sim_bus_rx"
  "\<not> tx_busy sim_bus_rx" "rx_buf (frame_st sim_bus_rx) = [1]"
  by (simp_all add: sim_bus_rx_def bus_callbacks mb_rtu_start_def sim_bus_def rtu_rx_feed_def rtu_frame_bind_def rtu_reset_def
      RTU_FRAME_MAX_def Let_def)

theorem rtu_line_discipline_witness: "rx_on sim_bus_rx \<and> \<not> de_pin sim_bus_rx"
  using rtu_line_discipline [OF sim_bus_rx_reachable] sim_bus_rx_simps by (simp add: sim_line_def pc_classes)

text \<open>The byte is too short for a frame: after timer, callback and five statements of the task the slave listens again.\<close>

definition sim_bus_done :: "sim rtu_bus" where
  "sim_bus_done = ((rtu_task_step sim_board False True) ^^ 4) (rtu_t35_timer_cb (sim_bus_rx\<lparr>t35_running := False, t35_due := False\<rparr>))"

lemma own_run_task:
  "up b \<Longrightarrow> notified b \<or> pc b \<noteq> Waiting \<Longrightarrow> own_run B L n (rtu_task_step B False True b) c \<Longrightarrow> own_run B L (Suc n) b c"
  by (rule own_run.more [OF own_task]) auto

lemma sim_bus_done_run: "own_run sim_board sim_line 6 sim_bus_rx sim_bus_done" "up sim_bus_done" "\<nexists>d. own_step sim_board sim_line sim_bus_done d"
proof -
  let ?T = "rtu_task_step sim_board False True"
  define b0 where "b0 = sim_bus_rx\<lparr>t35_running := False, t35_due := True\<rparr>"
  define b1 where "b1 = rtu_t35_timer_cb (b0\<lparr>t35_due := False\<rparr>)"
  note short = rtu_decode_def rtu_t35_expired_def t35_expired_def RTU_FRAME_MIN_def
  have 1: "up b1" "notified b1" "pc b1 = Waiting" "\<not> tx_on b1" "\<not> tx_busy b1" "\<not> t35_running b1" "\<not> t35_due b1" "rx_buf (frame_st b1) = [1]"
    using sim_bus_rx_simps by (simp_all add: b1_def b0_def bus_callbacks)
  have 2: "up (?T b1)" "\<not> notified (?T b1)" "pc (?T b1) = Taken" "\<not> tx_on (?T b1)" "\<not> tx_busy (?T b1)" "\<not> t35_running (?T b1)" "\<not> t35_due (?T b1)"
      "rx_buf (frame_st (?T b1)) = [1]"
    using 1 by simp_all
  have 3: "up (?T (?T b1))" "\<not> notified (?T (?T b1))" "pc (?T (?T b1)) = Test_busy" "\<not> tx_on (?T (?T b1))" "\<not> tx_busy (?T (?T b1))"
      "\<not> t35_running (?T (?T b1))" "\<not> t35_due (?T (?T b1))"
    using 2 by (simp_all only: task_statement(2)) (simp_all add: short Let_def)
  define b3 where "b3 = ?T (?T b1)"
  note 3 = 3 [folded b3_def]
  have e: "rtu_t35_timer_cb (sim_bus_rx\<lparr>t35_running := False, t35_due := False\<rparr>) = b1" by (simp add: b1_def b0_def)
  have d: "sim_bus_done = ?T (?T b3)"
    unfolding sim_bus_done_def e b3_def by (simp add: eval_nat_numeral del: task_statement)
  have "own_run sim_board sim_line (Suc 0) (?T b3) (?T (?T b3))"
    by (rule own_run_task [OF _ _ own_run.none]) (use 3 in simp_all)
  then have "own_run sim_board sim_line (Suc (Suc 0)) b3 (?T (?T b3))"
    by (intro own_run_task [of b3]) (use 3 in simp_all)
  then have "own_run sim_board sim_line (Suc (Suc (Suc 0))) (?T b1) (?T (?T b3))"
    unfolding b3_def by (intro own_run_task [of "?T b1"]) (use 2 in simp_all)
  then have "own_run sim_board sim_line (Suc (Suc (Suc (Suc 0)))) b1 (?T (?T b3))"
    by (intro own_run_task [of b1]) (use 1 in simp_all)
  moreover have "own_step sim_board sim_line sim_bus_rx b0" "own_step sim_board sim_line b0 b1"
    using sim_bus_rx_simps unfolding b1_def b0_def by (intro own_t35 own_cb; simp)+
  ultimately have "own_run sim_board sim_line (Suc (Suc (Suc (Suc (Suc (Suc 0)))))) sim_bus_rx sim_bus_done"
    unfolding d by (blast intro: own_run.more)
  then show "own_run sim_board sim_line 6 sim_bus_rx sim_bus_done" by (simp add: eval_nat_numeral)
  have "pc sim_bus_done = Waiting" "\<not> notified sim_bus_done" "\<not> tx_on sim_bus_done" "\<not> t35_running sim_bus_done" "\<not> t35_due sim_bus_done"
    and up: "up sim_bus_done"
    using 3 by (simp_all add: d)
  then show "\<nexists>d. own_step sim_board sim_line sim_bus_done d" by (auto elim: own_step.cases)
  show "up sim_bus_done" by (rule up)
qed

theorem rtu_listens_again_witness: "rx_on sim_bus_done \<and> \<not> de_pin sim_bus_done \<and> \<not> frame_pending sim_bus_done"
  using rtu_listens_again [OF sim_bus_rx_reachable _ sim_bus_done_run(1,2)] sim_bus_done_run(3) by (simp add: sim_line_def)

end
