(* ===== verification/Fw_Upg.thy ===== *)
theory Fw_Upg
  imports Config_Store
begin

unbundle bit_operations_syntax

text \<open>
  \<open>src/fw/fw_upg.c\<close>: the upgrade session all three channels share. An image is written through a page
  buffer to slot 1 of the external flash, read back, and its checksum and key hash are compared. The
  flash is the parameter \<open>F\<close>; the key hash compiled in (\<open>fw_keyhash.h\<close>, written by the build) is the
  parameter \<open>K\<close>. The page buffer is the list of its filled bytes, whose length is the source's \<open>page_len\<close>.
  The lock around every operation makes them atomic.
\<close>

definition SLOT1_OFFSET :: u32 where [hub_defs]: "SLOT1_OFFSET = 0"
definition SLOT1_SIZE :: u32 where [hub_defs]: "SLOT1_SIZE = 0x70000"
definition IMG_HDR_SIZE :: u16 where [hub_defs]: "IMG_HDR_SIZE = 0x200"
definition FW_KEYHASH_LEN :: nat where [hub_defs]: "FW_KEYHASH_LEN = 32"
definition PAGE_SZ :: nat where [hub_defs]: "PAGE_SZ = 256"
definition READ_CHUNK :: nat where [hub_defs]: "READ_CHUNK = 64"

record fw_st =
  fw_active :: bool
  fw_failed :: bool
  fw_total :: u32
  fw_written :: u32
  fw_page :: "u8 list"

definition ccitt_step :: "u16 \<Rightarrow> u8 \<Rightarrow> u16" where
  "ccitt_step seed b =
     (let e = (ucast seed :: u8) XOR b; f = e XOR push_bit 4 e
      in drop_bit 8 seed XOR push_bit 8 (ucast f) XOR push_bit 3 (ucast f) XOR ucast (drop_bit 4 f))"

primrec crc16_ccitt :: "u16 \<Rightarrow> u8 list \<Rightarrow> u16" where
  "crc16_ccitt seed [] = seed"
| "crc16_ccitt seed (b # src) = crc16_ccitt (ccitt_step seed b) src"

text \<open>
  The search for the key hash among the TLV entries. The offset is 32 bit and could wrap, so the loop
  is a partial function: \<open>None\<close> means that it does not end.
\<close>

partial_function (option) tlv_loop :: "'w io_flash \<Rightarrow> u32 \<Rightarrow> u32 \<Rightarrow> 'w \<Rightarrow> (u8 list option \<times> 'w) option" where
  "tlv_loop F off tlv_end w =
     (if off + 4 \<le> tlv_end then
        (case fl_read F (SLOT1_OFFSET + off) 4 w of
           (None, w) \<Rightarrow> Some (None, w)
         | (Some ent, w) \<Rightarrow>
             let tag = get_le16 ent; len = get_le16 (drop 2 ent) in
             if tag = 0x0001 \<and> unat len = FW_KEYHASH_LEN then
               Some (fl_read F (SLOT1_OFFSET + off + 4) FW_KEYHASH_LEN w)
             else tlv_loop F (off + (4 + ((ucast len + 3) AND NOT 3))) tlv_end w)
      else Some (None, w))"

definition tlv_keyhash_get :: "'w io_flash \<Rightarrow> 'w \<Rightarrow> (u8 list option \<times> 'w) option" where
  "tlv_keyhash_get F w =
     (case fl_read F SLOT1_OFFSET 32 w of
        (None, w) \<Rightarrow> Some (None, w)
      | (Some hdr, w) \<Rightarrow>
          if io_get_le32 hdr \<noteq> 0x96F3B83D then Some (None, w)
          else let hdr_size = get_le16 (drop 8 hdr); img_size = io_get_le32 (drop 12 hdr) in
          if hdr_size \<noteq> IMG_HDR_SIZE then Some (None, w)
          else let tlv_off = ucast hdr_size + img_size in
          if tlv_off + 4 > SLOT1_SIZE \<or> tlv_off AND 3 \<noteq> 0 then Some (None, w)
          else (case fl_read F (SLOT1_OFFSET + tlv_off) 4 w of
            (None, w) \<Rightarrow> Some (None, w)
          | (Some info, w) \<Rightarrow>
              let tlv_magic = get_le16 info; tlv_size = get_le16 (drop 2 info) in
              if tlv_magic \<noteq> 0x6907 \<or> tlv_size = 0 \<or> tlv_off + ucast tlv_size > SLOT1_SIZE then Some (None, w)
              else tlv_loop F (tlv_off + 4) (tlv_off + ucast tlv_size) w))"

definition page_flush :: "'w io_flash \<Rightarrow> fw_st \<Rightarrow> 'w \<Rightarrow> bool \<times> fw_st \<times> 'w" where
  "page_flush F st w =
     (if length (fw_page st) > 0 then
        (case fl_write F (SLOT1_OFFSET + fw_written st) (fw_page st) w of (ok, w) \<Rightarrow> (ok, st\<lparr>fw_page := []\<rparr>, w))
      else (True, st, w))"

definition fw_upg_start :: "'w io_flash \<Rightarrow> u8 list \<Rightarrow> u32 \<Rightarrow> u8 list option \<Rightarrow> fw_st \<Rightarrow> 'w \<Rightarrow> int \<times> fw_st \<times> 'w" where
  "fw_upg_start F K tot keyhash st w =
     (if fw_active st then (- 3, st, w)
      else if tot < 64 \<or> tot > SLOT1_SIZE then (- 1, st, w)
      else if (case keyhash of None \<Rightarrow> False | Some kh \<Rightarrow> take FW_KEYHASH_LEN kh \<noteq> K) then (- 2, st, w)
      else (case fl_erase F SLOT1_OFFSET (unat SLOT1_SIZE) w of
          (False, w) \<Rightarrow> (- 1, st, w)
        | (True, w) \<Rightarrow>
            (0, st\<lparr>fw_active := True, fw_failed := False, fw_total := tot, fw_written := 0, fw_page := []\<rparr>, w)))"

text \<open>The copying loop of \<open>fw_upg_write\<close>; a page never holds more than \<open>PAGE_SZ\<close> bytes (\<open>fw_wf\<close> below).\<close>

function fw_write_loop :: "'w io_flash \<Rightarrow> u8 list \<Rightarrow> fw_st \<Rightarrow> 'w \<Rightarrow> bool \<times> fw_st \<times> 'w" where
  "fw_write_loop F dat st w =
     (if dat = [] \<or> length (fw_page st) > PAGE_SZ then (True, st, w)
      else let chunk = min (PAGE_SZ - length (fw_page st)) (length dat);
               st = st\<lparr>fw_page := fw_page st @ take chunk dat\<rparr> in
        if length (fw_page st) = PAGE_SZ then
          (case page_flush F st w of (ok, st, w) \<Rightarrow>
            let st = st\<lparr>fw_written := fw_written st + of_nat PAGE_SZ\<rparr> in
            if ok then fw_write_loop F (drop chunk dat) st w else (False, st, w))
        else fw_write_loop F (drop chunk dat) st w)"
  by pat_completeness auto
termination
  by (relation "measure (\<lambda>(F, dat, st, w). 2 * length dat + (if length (fw_page st) = PAGE_SZ then 1 else 0))")
    (auto simp: min_def page_flush_def PAGE_SZ_def split: prod.splits if_splits)

declare fw_write_loop.simps [simp del]

definition fw_upg_write :: "'w io_flash \<Rightarrow> u8 list \<Rightarrow> fw_st \<Rightarrow> 'w \<Rightarrow> int \<times> fw_st \<times> 'w" where
  "fw_upg_write F dat st w =
     (if \<not> fw_active st then (- 1, st, w)
      else if fw_failed st then (- 1, st, w)
      else if fw_written st + of_nat (length (fw_page st)) + of_nat (length dat) > fw_total st then
        (- 1, st\<lparr>fw_failed := True\<rparr>, w)
      else (case fw_write_loop F dat st w of
          (True, st, w) \<Rightarrow> (0, st, w)
        | (False, st, w) \<Rightarrow> (- 1, st\<lparr>fw_failed := True\<rparr>, w)))"

definition fw_upg_abort :: "fw_st \<Rightarrow> fw_st" where
  "fw_upg_abort st = st\<lparr>fw_active := False, fw_failed := False, fw_page := [], fw_written := 0\<rparr>"

text \<open>The read-back, in pieces of \<open>READ_CHUNK\<close>; \<open>None\<close> for a failed read.\<close>

function crc_loop :: "'w io_flash \<Rightarrow> nat \<Rightarrow> nat \<Rightarrow> u16 \<Rightarrow> 'w \<Rightarrow> u16 option \<times> 'w" where
  "crc_loop F off tot crc w =
     (if off < tot then
        let n = min (tot - off) READ_CHUNK in
        (case fl_read F (SLOT1_OFFSET + of_nat off) n w of
           (None, w) \<Rightarrow> (None, w)
         | (Some buf, w) \<Rightarrow> crc_loop F (off + READ_CHUNK) tot (crc16_ccitt crc buf) w)
      else (Some crc, w))"
  by pat_completeness auto
termination
  by (relation "measure (\<lambda>(F, off, tot, crc, w). tot - off)") (auto simp: READ_CHUNK_def)

declare crc_loop.simps [simp del]

definition check_keyhash :: "'w io_flash \<Rightarrow> u8 list \<Rightarrow> 'w \<Rightarrow> (bool \<times> 'w) option" where
  "check_keyhash F K w =
     (case tlv_keyhash_get F w of
        None \<Rightarrow> None
      | Some (kh, w) \<Rightarrow> Some (kh = Some K, w))"

text \<open>\<open>None\<close> means that the call does not return.\<close>

definition fw_upg_finish_ex :: "'w io_flash \<Rightarrow> u8 list \<Rightarrow> u16 \<Rightarrow> bool \<Rightarrow> fw_st \<Rightarrow> 'w \<Rightarrow> (int \<times> fw_st \<times> 'w) option" where
  "fw_upg_finish_ex F K crc_expect check_crc st w =
     (if \<not> fw_active st then Some (- 1, st, w)
      else let st = st\<lparr>fw_active := False\<rparr>; out = (\<lambda>st. st\<lparr>fw_failed := False, fw_written := 0\<rparr>);
               tail = of_nat (length (fw_page st)) in
        if fw_failed st then Some (- 1, out st, w)
        else (case page_flush F st w of
            (False, st, w) \<Rightarrow> Some (- 1, out st, w)
          | (True, st, w) \<Rightarrow>
              let st = st\<lparr>fw_written := fw_written st + tail\<rparr> in
              if fw_written st \<noteq> fw_total st then Some (- 1, out st, w)
              else (case (if check_crc then crc_loop F 0 (unat (fw_total st)) 0 w else (Some crc_expect, w)) of
                  (None, w) \<Rightarrow> Some (- 1, out st, w)
                | (Some crc, w) \<Rightarrow>
                    if crc \<noteq> crc_expect then Some (- 1, out st, w)
                    else (case check_keyhash F K w of
                        None \<Rightarrow> None
                      | Some (ok, w) \<Rightarrow> Some (if ok then 0 else - 1, out st, w)))))"

definition fw_upg_finish :: "'w io_flash \<Rightarrow> u8 list \<Rightarrow> u16 \<Rightarrow> fw_st \<Rightarrow> 'w \<Rightarrow> (int \<times> fw_st \<times> 'w) option" where
  "fw_upg_finish F K crc_expect = fw_upg_finish_ex F K crc_expect True"

definition fw_upg_received :: "fw_st \<Rightarrow> u32" where
  "fw_upg_received st = fw_written st + of_nat (length (fw_page st))"

definition fw_upg_total :: "fw_st \<Rightarrow> u32" where
  "fw_upg_total st = (if fw_active st then fw_total st else 0)"

definition fw_upg_active :: "fw_st \<Rightarrow> bool" where
  "fw_upg_active st = fw_active st"

definition fw_upg_failed :: "fw_st \<Rightarrow> bool" where
  "fw_upg_failed st = fw_failed st"


section \<open>The session and the image received so far\<close>

text \<open>
  What the slot and the page buffer hold, put together, is the image \<open>img\<close> received so far; the rest of
  the slot is still erased.
\<close>

definition fw_holds :: "fw_st \<Rightarrow> (nat \<Rightarrow> u8) \<Rightarrow> u8 list \<Rightarrow> bool" where
  "fw_holds st m img \<longleftrightarrow>
     (\<exists>xs. img = xs @ fw_page st \<and> length xs = unat (fw_written st) \<and> length img \<le> unat SLOT1_SIZE
        \<and> programmed m 0 xs (unat SLOT1_SIZE - length xs))"

definition fw_session :: "fw_st \<Rightarrow> (nat \<Rightarrow> u8) \<Rightarrow> u8 list \<Rightarrow> bool" where
  "fw_session st m img \<longleftrightarrow> fw_active st \<and> \<not> fw_failed st \<and> fw_holds st m img \<and> length (fw_page st) < PAGE_SZ
     \<and> unat (fw_written st) mod PAGE_SZ = 0 \<and> length img \<le> unat (fw_total st) \<and> unat (fw_total st) \<le> unat SLOT1_SIZE"

lemma SLOT1_unat [simp]: "unat SLOT1_OFFSET = 0" "unat SLOT1_SIZE = 0x70000"
  by (simp_all add: SLOT1_OFFSET_def SLOT1_SIZE_def)

lemma SLOT1_add [simp]: "SLOT1_OFFSET + a = a"
  by (simp add: SLOT1_OFFSET_def)

lemma fw_holds_length: "fw_holds st m img \<Longrightarrow> length img = unat (fw_written st) + length (fw_page st)"
  by (auto simp: fw_holds_def)

lemma fw_write_loop_Nil [simp]: "fw_write_loop F [] st w = (True, st, w)"
  by (simp add: fw_write_loop.simps)

lemma fw_write_loop_short:
  "length (fw_page st) + length dat < PAGE_SZ \<Longrightarrow> fw_write_loop F dat st w = (True, st\<lparr>fw_page := fw_page st @ dat\<rparr>, w)"
  by (simp add: fw_write_loop.simps [of F dat] min_def Let_def)

lemma fw_write_loop_full:
  assumes "length (fw_page st) < PAGE_SZ" "PAGE_SZ \<le> length (fw_page st) + length dat"
  shows "fw_write_loop F dat st w =
    (case page_flush F (st\<lparr>fw_page := fw_page st @ take (PAGE_SZ - length (fw_page st)) dat\<rparr>) w of (ok, st', w) \<Rightarrow>
       let st' = st'\<lparr>fw_written := fw_written st' + of_nat PAGE_SZ\<rparr> in
       if ok then fw_write_loop F (drop (PAGE_SZ - length (fw_page st)) dat) st' w else (False, st', w))"
proof -
  have "dat \<noteq> []" "min (PAGE_SZ - length (fw_page st)) (length dat) = PAGE_SZ - length (fw_page st)" using assms by auto
  then show ?thesis using assms by (subst fw_write_loop.simps) (simp add: Let_def)
qed

lemma page_flush_st: "page_flush F st w = (ok, st', w') \<Longrightarrow> st' = st\<lparr>fw_page := []\<rparr>"
  by (cases st) (auto simp: page_flush_def split: if_splits prod.splits)

lemma fw_write_loop_active:
  "fw_write_loop F dat st w = (ok, st', w') \<Longrightarrow> length (fw_page st) < PAGE_SZ
    \<Longrightarrow> fw_active st' = fw_active st \<and> fw_total st' = fw_total st"
proof (induction "length dat" arbitrary: dat st w rule: less_induct)
  case less
  show ?case
  proof (cases "length (fw_page st) + length dat < PAGE_SZ")
    case True
    then show ?thesis using less.prems by (auto simp: fw_write_loop_short)
  next
    case False
    let ?c = "PAGE_SZ - length (fw_page st)"
    obtain ok1 st1 w1 where pf: "page_flush F (st\<lparr>fw_page := fw_page st @ take ?c dat\<rparr>) w = (ok1, st1, w1)" by (metis prod_cases3)
    have "length (drop ?c dat) < length dat" using False less.prems by auto
    note IH = less.hyps [OF this, of "st1\<lparr>fw_written := fw_written st1 + of_nat PAGE_SZ\<rparr>" w1]
    show ?thesis using less.prems False pf IH page_flush_st [OF pf]
      by (auto simp: fw_write_loop_full Let_def split: if_splits)
  qed
qed

text \<open>A session is in order, or marked as failed.\<close>

definition fw_state :: "fw_st \<Rightarrow> (nat \<Rightarrow> u8) \<Rightarrow> u8 list \<Rightarrow> bool" where
  "fw_state st m img \<longleftrightarrow> fw_session st m img \<or> fw_active st \<and> fw_failed st"

text \<open>The pieces of an image, one call each.\<close>

fun fw_run :: "'w io_flash \<Rightarrow> u8 list list \<Rightarrow> fw_st \<Rightarrow> 'w \<Rightarrow> fw_st \<times> 'w" where
  "fw_run F [] st w = (st, w)"
| "fw_run F (d # ds) st w = (case fw_upg_write F d st w of (rc, st, w) \<Rightarrow> fw_run F ds st w)"

text \<open>
  Where the key hash of an image is: among the TLV entries that start behind the image body, the first
  with tag 1 and 32 bytes. Offsets are natural numbers here, so nothing wraps.
\<close>

inductive tlv_at :: "(nat \<Rightarrow> u8) \<Rightarrow> nat \<Rightarrow> nat \<Rightarrow> u8 list \<Rightarrow> bool" for m tlv_end where
  found: "off + 4 \<le> tlv_end \<Longrightarrow> get_le16 (mem_bytes m off 4) = 1 \<Longrightarrow> get_le16 (drop 2 (mem_bytes m off 4)) = 32
    \<Longrightarrow> tlv_at m tlv_end off (mem_bytes m (off + 4) 32)"
| later: "off + 4 \<le> tlv_end \<Longrightarrow> len = get_le16 (drop 2 (mem_bytes m off 4))
    \<Longrightarrow> \<not> (get_le16 (mem_bytes m off 4) = 1 \<and> len = 32) \<Longrightarrow> tlv_at m tlv_end (off + 4 + (unat len + 3) div 4 * 4) kh
    \<Longrightarrow> tlv_at m tlv_end off kh"

definition image_keyhash :: "(nat \<Rightarrow> u8) \<Rightarrow> u8 list \<Rightarrow> bool" where
  "image_keyhash m kh \<longleftrightarrow>
     (let hdr = mem_bytes m 0 32; tlv_off = 0x200 + io_get_le32 (drop 12 hdr); info = mem_bytes m (unat tlv_off) 4;
          tlv_size = get_le16 (drop 2 info) in
      io_get_le32 hdr = 0x96F3B83D \<and> get_le16 (drop 8 hdr) = 0x200 \<and> tlv_off + 4 \<le> SLOT1_SIZE \<and> tlv_off AND 3 = 0
      \<and> get_le16 info = 0x6907 \<and> tlv_size \<noteq> 0 \<and> tlv_off + ucast tlv_size \<le> SLOT1_SIZE
      \<and> tlv_at m (unat (tlv_off + ucast tlv_size)) (unat (tlv_off + 4)) kh)"

lemma crc16_ccitt_append: "crc16_ccitt c (xs @ ys) = crc16_ccitt (crc16_ccitt c xs) ys"
  by (induction xs arbitrary: c) auto

text \<open>The padded length of an entry, in 32 bits and as a number.\<close>

lemma tlv_pad: "unat ((ucast (len :: u16) + 3 :: u32) AND NOT 3) = (unat len + 3) div 4 * 4"
proof -
  have "(x :: u32) AND NOT (mask 2) = push_bit 2 (drop_bit 2 x)" for x
    by (rule bit_word_eqI) (auto simp: bit_simps not_less le_iff_add)
  then have "(x :: u32) AND NOT 3 = push_bit 2 (drop_bit 2 x)" for x by (simp add: mask_eq_exp_minus_1)
  moreover have lt: "unat len + 3 < 4294967296" using unat_u16_lt [of len] by linarith
  then have "unat (ucast len + 3 :: u32) = unat len + 3" by (simp add: unat_word_ariths unsigned_ucast_eq)
  moreover have "(unat len + 3) div 4 * 4 < 2 ^ 32" using lt by simp
  ultimately show ?thesis by (simp add: push_bit_eq_mult unat_word_ariths unat_drop_bit_eq drop_bit_eq_div)
qed

context nor_flash
begin

lemma page_flush_holds:
  assumes "fw_holds st (mem w) img" "page_flush F st w = (True, st', w')"
  shows "st' = st\<lparr>fw_page := []\<rparr>" "programmed (mem w') 0 img (unat SLOT1_SIZE - length img)"
    "\<And>i. unat SLOT1_SIZE \<le> i \<Longrightarrow> mem w' i = mem w i"
proof -
  obtain xs where xs: "img = xs @ fw_page st" "length xs = unat (fw_written st)" "length img \<le> unat SLOT1_SIZE"
    "programmed (mem w) 0 xs (unat SLOT1_SIZE - length xs)" using assms(1) by (auto simp: fw_holds_def)
  have *: "st' = st\<lparr>fw_page := []\<rparr> \<and> programmed (mem w') 0 img (unat SLOT1_SIZE - length img)
    \<and> (\<forall>i. unat SLOT1_SIZE \<le> i \<longrightarrow> mem w' i = mem w i)"
  proof (cases "fw_page st = []")
    case True
    then show ?thesis using assms(2) xs by (auto simp: page_flush_def)
  next
    case False
    then have wr: "fl_write F (fw_written st) (fw_page st) w = (True, w')" and st: "st' = st\<lparr>fw_page := []\<rparr>"
      using assms(2) by (auto simp: page_flush_def split: prod.splits)
    have k: "unat SLOT1_SIZE - length xs = length (fw_page st) + (unat SLOT1_SIZE - length img)" using xs by simp
    note p = xs(4) [unfolded k]
    have "mem_bytes (mem w) (unat (fw_written st)) (length (fw_page st)) = replicate (length (fw_page st)) 0xFF"
      using p xs(2) by (simp add: programmed_iff mem_bytes_add replicate_add)
    then have "mem_bytes (mem w') (0 + length xs) (length (fw_page st)) = fw_page st"
      using write_erased [OF wr] xs(2) by simp
    then have "programmed (mem w') 0 (xs @ fw_page st) (unat SLOT1_SIZE - length img)"
      using programmed_extend [OF p] write_frame [OF wr] xs(2) by simp
    then show ?thesis using st xs write_frame [OF wr] by auto
  qed
  then show "st' = st\<lparr>fw_page := []\<rparr>" "programmed (mem w') 0 img (unat SLOT1_SIZE - length img)"
    "\<And>i. unat SLOT1_SIZE \<le> i \<Longrightarrow> mem w' i = mem w i" by auto
qed

lemma fw_holds_flushed:
  "programmed m 0 img (unat SLOT1_SIZE - length img) \<Longrightarrow> length img = unat (fw_written st) \<Longrightarrow> length img \<le> unat SLOT1_SIZE
    \<Longrightarrow> fw_page st = [] \<Longrightarrow> fw_holds st m img"
  by (simp add: fw_holds_def)

lemma fw_session_copy:
  "fw_session st m img \<Longrightarrow> length (fw_page st @ d) < PAGE_SZ \<Longrightarrow> length (img @ d) \<le> unat (fw_total st)
    \<Longrightarrow> fw_session (st\<lparr>fw_page := fw_page st @ d\<rparr>) m (img @ d)"
  by (auto simp: fw_session_def fw_holds_def)

lemma fw_session_page:
  assumes "fw_session st (mem w) img" "length (fw_page st @ d) = PAGE_SZ" "length (img @ d) \<le> unat (fw_total st)"
    and "page_flush F (st\<lparr>fw_page := fw_page st @ d\<rparr>) w = (True, st', w')"
  shows "fw_session (st'\<lparr>fw_written := fw_written st' + of_nat PAGE_SZ\<rparr>) (mem w') (img @ d) \<and> fw_total st' = fw_total st"
proof -
  let ?st = "st\<lparr>fw_page := fw_page st @ d\<rparr>"
  have h: "fw_holds ?st (mem w) (img @ d)" using assms(1,3) by (auto simp: fw_session_def fw_holds_def)
  note f = page_flush_holds [OF h assms(4)]
  have len: "length (img @ d) = unat (fw_written st) + PAGE_SZ" using fw_holds_length [OF h] assms(2) by simp
  then have "unat (fw_written st + of_nat PAGE_SZ) = unat (fw_written st) + PAGE_SZ"
    using assms(1,3) by (simp add: unat_word_ariths fw_session_def PAGE_SZ_def)
  then show ?thesis using f len assms(1,3) by (auto simp: fw_session_def intro: fw_holds_flushed)
qed

lemma fw_write_loop_session:
  "fw_write_loop F dat st w = (True, st', w') \<Longrightarrow> fw_session st (mem w) img \<Longrightarrow> length (img @ dat) \<le> unat (fw_total st)
    \<Longrightarrow> fw_session st' (mem w') (img @ dat) \<and> fw_total st' = fw_total st"
proof (induction "length dat" arbitrary: dat st w img rule: less_induct)
  case less
  have page: "length (fw_page st) < PAGE_SZ" using less.prems(2) by (simp add: fw_session_def)
  show ?case
  proof (cases "length (fw_page st) + length dat < PAGE_SZ")
    case True
    then show ?thesis using less.prems fw_session_copy [OF less.prems(2), of dat] by (auto simp: fw_write_loop_short)
  next
    case False
    let ?c = "PAGE_SZ - length (fw_page st)"
    obtain st1 w1 where pf: "page_flush F (st\<lparr>fw_page := fw_page st @ take ?c dat\<rparr>) w = (True, st1, w1)"
      and rest: "fw_write_loop F (drop ?c dat) (st1\<lparr>fw_written := fw_written st1 + of_nat PAGE_SZ\<rparr>) w1 = (True, st', w')"
      using less.prems(1) False page by (auto simp: fw_write_loop_full Let_def split: prod.splits if_splits)
    have l: "length (fw_page st @ take ?c dat) = PAGE_SZ" "length (img @ take ?c dat) \<le> unat (fw_total st)"
      using False page less.prems(3) by auto
    note s1 = fw_session_page [OF less.prems(2) l pf]
    have "length (drop ?c dat) < length dat" using False page by auto
    from less.hyps [OF this rest conjunct1 [OF s1]] show ?thesis using s1 less.prems(3) by simp
  qed
qed

lemma page_flush_frame:
  "page_flush F st w = (ok, st', w') \<Longrightarrow> unat (fw_written st) + length (fw_page st) \<le> i \<Longrightarrow> mem w' i = mem w i"
  by (auto simp: page_flush_def write_frame split: if_splits prod.splits)

lemma fw_write_loop_frame:
  "fw_write_loop F dat st w = (ok, st', w') \<Longrightarrow> fw_session st (mem w) img \<Longrightarrow> length (img @ dat) \<le> unat (fw_total st)
    \<Longrightarrow> unat SLOT1_SIZE \<le> i \<Longrightarrow> mem w' i = mem w i"
proof (induction "length dat" arbitrary: dat st w img rule: less_induct)
  case less
  have page: "length (fw_page st) < PAGE_SZ" using less.prems(2) by (simp add: fw_session_def)
  show ?case
  proof (cases "length (fw_page st) + length dat < PAGE_SZ")
    case True
    then show ?thesis using less.prems by (auto simp: fw_write_loop_short)
  next
    case False
    let ?c = "PAGE_SZ - length (fw_page st)"
    let ?st = "st\<lparr>fw_page := fw_page st @ take ?c dat\<rparr>"
    obtain ok1 st1 w1 where pf: "page_flush F ?st w = (ok1, st1, w1)" by (metis prod_cases3)
    have l: "length (fw_page st @ take ?c dat) = PAGE_SZ" "length (img @ take ?c dat) \<le> unat (fw_total st)"
      using False page less.prems(3) by auto
    have "unat (fw_written st) + PAGE_SZ \<le> unat SLOT1_SIZE"
      using l less.prems(2,3) fw_holds_length [of st "mem w" img] False by (auto simp: fw_session_def)
    then have w1: "mem w1 i = mem w i" using page_flush_frame [OF pf, of i] l less.prems(4) by auto
    show ?thesis
    proof (cases ok1)
      case True
      then have pf': "page_flush F ?st w = (True, st1, w1)" using pf by simp
      note s1 = fw_session_page [OF less.prems(2) l pf']
      have rest: "fw_write_loop F (drop ?c dat) (st1\<lparr>fw_written := fw_written st1 + of_nat PAGE_SZ\<rparr>) w1 = (ok, st', w')"
        using less.prems(1) False page pf True by (simp add: fw_write_loop_full Let_def)
      have "length (drop ?c dat) < length dat" using False page by auto
      from less.hyps [OF this rest conjunct1 [OF s1]] show ?thesis using s1 less.prems(3,4) w1 by simp
    next
      case F: False
      then show ?thesis using less.prems(1) False page pf w1 by (simp add: fw_write_loop_full Let_def)
    qed
  qed
qed

text \<open>One call: the piece is added, or the session is marked as failed.\<close>

lemma fw_upg_write_state:
  assumes "fw_upg_write F d st w = (rc, st', w')" "fw_state st (mem w) img" "length d < 2 ^ 31"
  shows "fw_state st' (mem w') (img @ d)" "\<And>i. unat SLOT1_SIZE \<le> i \<Longrightarrow> mem w' i = mem w i" "fw_total st' = fw_total st"
proof -
  have *: "fw_state st' (mem w') (img @ d) \<and> fw_total st' = fw_total st \<and> (\<forall>i. unat SLOT1_SIZE \<le> i \<longrightarrow> mem w' i = mem w i)"
  proof (cases "fw_failed st")
    case True
    then show ?thesis using assms by (auto simp: fw_state_def fw_session_def fw_upg_write_def split: if_splits)
  next
    case False
    then have s: "fw_session st (mem w) img" using assms(2) by (simp add: fw_state_def)
    have got: "fw_written st + of_nat (length (fw_page st)) + of_nat (length d) = of_nat (length (img @ d))"
      using fw_holds_length [of st "mem w" img] s by (simp add: fw_session_def)
    have "unat (of_nat (length (img @ d)) :: u32) = length (img @ d)"
      using s assms(3) by (subst unat_of_nat) (simp add: fw_session_def)
    then have over: "(of_nat (length (img @ d)) > fw_total st) = (length (img @ d) > unat (fw_total st))"
      by (simp only: word_less_nat_alt)
    show ?thesis
    proof (cases "length (img @ d) > unat (fw_total st)")
      case True
      then show ?thesis using assms(1) s False over unfolding fw_upg_write_def got
        by (auto simp: fw_state_def fw_session_def)
    next
      case F: False
      obtain ok st1 w1 where l: "fw_write_loop F d st w = (ok, st1, w1)" by (metis prod_cases3)
      have fr: "unat SLOT1_SIZE \<le> i \<Longrightarrow> mem w1 i = mem w i" for i using fw_write_loop_frame [OF l s] F by simp
      have "ok \<Longrightarrow> fw_session st1 (mem w1) (img @ d)" using fw_write_loop_session [of d st w st1 w1 img] l s F by simp
      moreover have "fw_active st1" "fw_total st1 = fw_total st" using fw_write_loop_active [OF l] s by (simp_all add: fw_session_def)
      ultimately show ?thesis using assms(1) s False over F fr unfolding fw_upg_write_def got l
        by (auto simp: fw_state_def fw_session_def split: bool.splits)
    qed
  qed
  then show "fw_state st' (mem w') (img @ d)" "\<And>i. unat SLOT1_SIZE \<le> i \<Longrightarrow> mem w' i = mem w i" "fw_total st' = fw_total st" by auto
qed

lemma fw_run_state:
  "fw_run F ds st w = (st', w') \<Longrightarrow> fw_state st (mem w) img \<Longrightarrow> \<forall>d \<in> set ds. length d < 2 ^ 31
    \<Longrightarrow> fw_state st' (mem w') (img @ concat ds) \<and> fw_total st' = fw_total st \<and> (\<forall>i. unat SLOT1_SIZE \<le> i \<longrightarrow> mem w' i = mem w i)"
proof (induction ds arbitrary: st w img)
  case (Cons d ds)
  obtain rc st1 w1 where d: "fw_upg_write F d st w = (rc, st1, w1)" by (metis prod_cases3)
  have "length d < 2 ^ 31" using Cons.prems(3) by simp
  note d1 = fw_upg_write_state [OF d Cons.prems(2) this]
  show ?case using Cons.IH [OF _ d1(1)] Cons.prems(1,3) d d1(2,3) by simp
qed simp

lemma crc_loop_reads:
  "crc_loop F off tot crc w = (r, w') \<Longrightarrow> tot \<le> unat SLOT1_SIZE
    \<Longrightarrow> mem w' = mem w \<and> (\<forall>c. r = Some c \<longrightarrow> c = crc16_ccitt crc (mem_bytes (mem w) off (tot - off)))"
proof (induction "tot - off" arbitrary: off crc w rule: less_induct)
  case less
  show ?case
  proof (cases "off < tot")
    case False
    then show ?thesis using less.prems by (auto simp: crc_loop.simps [of F off] mem_bytes_def)
  next
    case True
    let ?n = "min (tot - off) READ_CHUNK"
    obtain rd w1 where rd: "fl_read F (of_nat off) ?n w = (rd, w1)" by fastforce
    have off: "unat (of_nat off :: u32) = off" using True less.prems(2) by (simp add: unat_of_nat)
    show ?thesis
    proof (cases rd)
      case None
      then show ?thesis using less.prems(1) True rd read_mem [OF rd] by (simp add: crc_loop.simps [of F off] Let_def)
    next
      case (Some buf)
      then have b: "buf = mem_bytes (mem w) off ?n" "mem w1 = mem w" using read_data [of "of_nat off" ?n w buf w1] rd read_mem [OF rd] off by auto
      have loop: "crc_loop F (off + READ_CHUNK) tot (crc16_ccitt crc buf) w1 = (r, w')"
        using less.prems(1) True rd Some by (simp add: crc_loop.simps [of F off] Let_def)
      have cut: "mem_bytes (mem w) off (tot - off) = buf @ mem_bytes (mem w) (off + READ_CHUNK) (tot - (off + READ_CHUNK))"
      proof (cases "tot - off \<le> READ_CHUNK")
        case False
        then have "tot - off = READ_CHUNK + (tot - (off + READ_CHUNK))" by simp
        then have "mem_bytes (mem w) off (tot - off) = mem_bytes (mem w) off READ_CHUNK @ mem_bytes (mem w) (off + READ_CHUNK) (tot - (off + READ_CHUNK))"
          by (metis mem_bytes_add)
        then show ?thesis using False b(1) by simp
      qed (use b(1) in \<open>simp add: mem_bytes_def\<close>)
      have "tot - (off + READ_CHUNK) < tot - off" using True by (simp add: READ_CHUNK_def)
      from less.hyps [OF this loop less.prems(2)] show ?thesis
        using b(2) by (simp add: cut crc16_ccitt_append)
    qed
  qed
qed

lemma tlv_loop_found:
  assumes "unat tlv_end \<le> 0x70000" "unat off \<le> 0x80000"
  shows "\<exists>r w'. tlv_loop F off tlv_end w = Some (r, w') \<and> mem w' = mem w
    \<and> (\<forall>kh. r = Some kh \<longrightarrow> tlv_at (mem w) (unat tlv_end) (unat off) kh)"
  using assms(2)
proof (induction "0x90000 - unat off" arbitrary: off w rule: less_induct)
  case less
  have u4: "unat (off + 4) = unat off + 4" using less.prems by (simp add: unat_word_ariths)
  show ?case
  proof (cases "off + 4 \<le> tlv_end")
    case False
    then show ?thesis by (subst tlv_loop.simps) simp
  next
    case True
    then have le: "unat off + 4 \<le> unat tlv_end" by (simp add: word_le_nat_alt u4)
    obtain rd w1 where rd: "fl_read F off 4 w = (rd, w1)" by fastforce
    show ?thesis
    proof (cases rd)
      case None
      then show ?thesis using True rd read_mem [OF rd] by (subst tlv_loop.simps) simp
    next
      case (Some ent)
      then have ent: "ent = mem_bytes (mem w) (unat off) 4" "mem w1 = mem w" using rd read_data read_mem by auto
      let ?len = "get_le16 (drop 2 ent)"
      show ?thesis
      proof (cases "get_le16 ent = 1 \<and> ?len = 32")
        case hit: True
        obtain kr w2 where kr: "fl_read F (off + 4) 32 w1 = (kr, w2)" by fastforce
        have "unat (32 :: u16) = 32" by simp
        then have "tlv_loop F off tlv_end w = Some (kr, w2)"
          using True rd Some hit kr by (subst tlv_loop.simps) (simp add: FW_KEYHASH_LEN_def)
        moreover have "kr = Some kh \<Longrightarrow> tlv_at (mem w) (unat tlv_end) (unat off) kh" for kh
          using read_data [of "off + 4" 32 w1 kh w2] kr tlv_at.found [OF le, of "mem w"] hit ent by (simp add: u4)
        ultimately show ?thesis using read_mem [OF kr] ent(2) by auto
      next
        case miss: False
        let ?off = "off + (4 + ((ucast ?len + 3) AND NOT 3))"
        have "(unat ?len + 3) div 4 \<le> 65538 div 4" by (rule div_le_mono) (use unat_u16_lt [of ?len] in linarith)
        then have pad: "(unat ?len + 3) div 4 * 4 \<le> 0x10000" by simp
        have off': "unat ?off = unat off + 4 + (unat ?len + 3) div 4 * 4"
          using le assms(1) pad by (simp add: unat_word_ariths tlv_pad [of ?len, simplified])
        have "tlv_loop F off tlv_end w = tlv_loop F ?off tlv_end w1"
          using True rd Some miss by (subst tlv_loop.simps) (auto simp: FW_KEYHASH_LEN_def word_unat_eq_iff)
        moreover have "0x90000 - unat ?off < 0x90000 - unat off" "unat ?off \<le> 0x80000" using off' le assms(1) pad by auto
        ultimately obtain r w' where r: "tlv_loop F off tlv_end w = Some (r, w')" "mem w' = mem w1"
          "\<And>kh. r = Some kh \<Longrightarrow> tlv_at (mem w1) (unat tlv_end) (unat ?off) kh" using less.hyps [of ?off w1] by auto
        have "r = Some kh \<Longrightarrow> tlv_at (mem w) (unat tlv_end) (unat off) kh" for kh
          using tlv_at.later [OF le refl, of "mem w" kh] r(3) [unfolded off' ent(2)] miss unfolding ent(1) by blast
        then show ?thesis using r(1,2) ent(2) by auto
      qed
    qed
  qed
qed

lemma tlv_keyhash_get_found:
  "\<exists>r w'. tlv_keyhash_get F w = Some (r, w') \<and> mem w' = mem w \<and> (\<forall>kh. r = Some kh \<longrightarrow> image_keyhash (mem w) kh)"
proof -
  obtain rd w1 where rd: "fl_read F SLOT1_OFFSET 32 w = (rd, w1)" by fastforce
  show ?thesis
  proof (cases rd)
    case None
    then show ?thesis using rd read_mem [OF rd] by (simp add: tlv_keyhash_get_def)
  next
    case (Some hdr)
    then have hdr: "hdr = mem_bytes (mem w) 0 32" "mem w1 = mem w" using read_data [of SLOT1_OFFSET 32 w hdr w1] rd read_mem [OF rd] by auto
    define tlv_off :: u32 where "tlv_off = ucast (get_le16 (drop 8 hdr)) + io_get_le32 (drop 12 hdr)"
    obtain ri w2 where ri: "fl_read F tlv_off 4 w1 = (ri, w2)" by fastforce
    define info where "info = the ri"
    have info: "ri \<noteq> None \<Longrightarrow> info = mem_bytes (mem w) (unat tlv_off) 4" "mem w2 = mem w"
      using ri read_data [of tlv_off 4 w1 info w2] read_mem [OF ri] hdr(2) by (auto simp: info_def)
    let ?size = "get_le16 (drop 2 info)"
    define ok where "ok \<longleftrightarrow> io_get_le32 hdr = 0x96F3B83D \<and> get_le16 (drop 8 hdr) = IMG_HDR_SIZE \<and> tlv_off + 4 \<le> SLOT1_SIZE \<and> tlv_off AND 3 = 0"
    define ok2 where "ok2 \<longleftrightarrow> ri \<noteq> None \<and> get_le16 info = 0x6907 \<and> ?size \<noteq> 0 \<and> tlv_off + ucast ?size \<le> SLOT1_SIZE"
    have get: "tlv_keyhash_get F w = (if ok then if ok2 then tlv_loop F (tlv_off + 4) (tlv_off + ucast ?size) w2 else Some (None, w2) else Some (None, w1))"
      using rd Some ri unfolding tlv_keyhash_get_def tlv_off_def ok_def ok2_def info_def
      by (auto simp: Let_def not_less not_le split: option.splits)
    show ?thesis
    proof (cases "ok \<and> ok2")
      case True
      then have b: "unat (tlv_off + ucast ?size) \<le> 0x70000" "unat (tlv_off + 4) \<le> 0x80000"
        by (auto simp: ok_def ok2_def word_le_nat_alt)
      have off: "tlv_off = 0x200 + io_get_le32 (drop 12 (mem_bytes (mem w) 0 32))" and hs: "get_le16 (drop 8 hdr) = 0x200"
        using True hdr(1) by (simp_all add: ok_def tlv_off_def IMG_HDR_SIZE_def)
      have "tlv_at (mem w) (unat (tlv_off + ucast ?size)) (unat (tlv_off + 4)) kh \<Longrightarrow> image_keyhash (mem w) kh" for kh
        using True info(1) hdr(1) hs unfolding image_keyhash_def Let_def off [symmetric] by (auto simp: ok_def ok2_def)
      then show ?thesis using tlv_loop_found [OF b, of w2] True info(2) unfolding get by auto
    next
      case False
      then show ?thesis using hdr(2) info(2) unfolding get by auto
    qed
  qed
qed

lemma check_keyhash_ok:
  "\<exists>ok w'. check_keyhash F K w = Some (ok, w') \<and> mem w' = mem w \<and> (ok \<longrightarrow> image_keyhash (mem w) K)"
  using tlv_keyhash_get_found [of w] by (auto simp: check_keyhash_def)

text \<open>The final check always returns, writes nothing outside the slot, and accepts only a complete image.\<close>

lemma fw_upg_finish_checks:
  assumes "fw_state st (mem w) img"
  shows "\<exists>rc st' w'. fw_upg_finish_ex F K crc_expect check st w = Some (rc, st', w') \<and> \<not> fw_active st' \<and> \<not> fw_failed st'
    \<and> fw_written st' = 0 \<and> (\<forall>i. unat SLOT1_SIZE \<le> i \<longrightarrow> mem w' i = mem w i) \<and>
    (rc = 0 \<longrightarrow> length img = unat (fw_total st) \<and> mem_bytes (mem w') 0 (length img) = img
       \<and> (check \<longrightarrow> crc16_ccitt 0 img = crc_expect) \<and> image_keyhash (mem w') K)"
proof (cases "fw_failed st")
  case True
  then show ?thesis using assms by (auto simp: fw_state_def fw_session_def fw_upg_finish_ex_def Let_def)
next
  case False
  then have s: "fw_session st (mem w) img" using assms by (simp add: fw_state_def)
  let ?st = "st\<lparr>fw_active := False\<rparr>"
  obtain ok st1 w1 where pf: "page_flush F ?st w = (ok, st1, w1)" by (metis prod_cases3)
  have h: "fw_holds ?st (mem w) img" using s by (auto simp: fw_session_def fw_holds_def)
  have st1: "st1 = ?st\<lparr>fw_page := []\<rparr>" using page_flush_st [OF pf] .
  have fr: "unat SLOT1_SIZE \<le> i \<Longrightarrow> mem w1 i = mem w i" for i
    using page_flush_frame [OF pf, of i] fw_holds_length [OF h] s by (simp add: fw_session_def)
  note unf = fw_upg_finish_ex_def Let_def
  show ?thesis
  proof (cases ok)
    case F: False
    then show ?thesis using s False pf st1 fr by (simp add: unf fw_session_def)
  next
    case True
    have prog: "programmed (mem w1) 0 img (unat SLOT1_SIZE - length img)" using page_flush_holds(2) [OF h, of st1 w1] pf True by simp
    have len: "fw_written st + of_nat (length (fw_page st)) = of_nat (length img)" using fw_holds_length [OF h] by simp
    show ?thesis
    proof (cases "of_nat (length img) = fw_total st")
      case F: False
      then show ?thesis using s False pf st1 fr True len by (simp add: unf fw_session_def)
    next
      case full: True
      have "unat (of_nat (length img) :: u32) = length img" using s by (subst unat_of_nat) (simp add: fw_session_def)
      then have tot: "length img = unat (fw_total st)" using full by simp
      obtain rc w2 where cr: "(if check then crc_loop F 0 (unat (fw_total st)) 0 w1 else (Some crc_expect, w1)) = (rc, w2)" by fastforce
      have w2: "mem w2 = mem w1" "\<And>c. check \<Longrightarrow> rc = Some c \<Longrightarrow> c = crc16_ccitt 0 img"
        using cr crc_loop_reads [of 0 "unat (fw_total st)" 0 w1 rc w2] s programmed_bytes [OF prog] tot
        by (auto simp: fw_session_def split: if_splits)
      obtain kok w3 where kh: "check_keyhash F K w2 = Some (kok, w3)" "mem w3 = mem w2" "kok \<Longrightarrow> image_keyhash (mem w2) K"
        using check_keyhash_ok [of K w2] by blast
      show ?thesis
        using s False pf st1 fr True len full cr w2 kh tot programmed_bytes [OF prog]
        by (cases rc) (auto simp: unf fw_session_def)
    qed
  qed
qed

lemma fw_upg_start_session:
  assumes "fw_upg_start F K tot kh st w = (0, st', w')"
  shows "fw_session st' (mem w') [] \<and> fw_total st' = tot \<and> (\<forall>i. unat SLOT1_SIZE \<le> i \<longrightarrow> mem w' i = mem w i)"
proof -
  obtain w1 where e: "fl_erase F SLOT1_OFFSET (unat SLOT1_SIZE) w = (True, w1)" and w1: "w' = w1"
    and st': "st' = st\<lparr>fw_active := True, fw_failed := False, fw_total := tot, fw_written := 0, fw_page := []\<rparr>"
    and tot: "\<not> tot > SLOT1_SIZE"
    using assms by (auto simp: fw_upg_start_def split: if_splits prod.splits bool.splits option.splits)
  have "programmed (mem w1) 0 [] (unat SLOT1_SIZE)" using erase_bytes [OF e, of 0 "unat SLOT1_SIZE"] by (simp add: programmed_Nil)
  moreover have "unat tot \<le> unat SLOT1_SIZE" using tot by (simp only: word_less_nat_alt not_less)
  ultimately show ?thesis
    using st' w1 erase_frame [OF e] by (auto simp: fw_session_def fw_holds_def PAGE_SZ_def)
qed

end

text \<open>On a flash that works, nothing in the session fails, and an image with the right key hash is accepted.\<close>

context reliable_nor_flash
begin

lemma page_flush_ok:
  assumes "fw_holds st (mem w) img" "length (fw_page st) \<le> PAGE_SZ" "unat (fw_written st) mod PAGE_SZ = 0"
  shows "fst (page_flush F st w)"
proof (cases "fw_page st = []")
  case False
  obtain xs where xs: "img = xs @ fw_page st" "length xs = unat (fw_written st)" "length img \<le> unat SLOT1_SIZE"
    "programmed (mem w) 0 xs (unat SLOT1_SIZE - length xs)" using assms(1) by (auto simp: fw_holds_def)
  have k: "unat SLOT1_SIZE - length xs = length (fw_page st) + (unat SLOT1_SIZE - length img)" using xs by simp
  have "mem_bytes (mem w) (unat (fw_written st)) (length (fw_page st)) = replicate (length (fw_page st)) 0xFF"
    using xs(4) [unfolded k] xs(2) by (simp add: programmed_iff mem_bytes_add replicate_add)
  then have "fst (fl_write F (fw_written st) (fw_page st) w)"
    using False assms(2,3) xs by (intro write_ok) (auto simp: NOR_PAGE_def PAGE_SZ_def CHIP_SIZE_def)
  then show ?thesis using False by (auto simp: page_flush_def split: prod.splits)
qed (simp add: page_flush_def)

lemma fw_write_loop_ok:
  "fw_session st (mem w) img \<Longrightarrow> length (img @ dat) \<le> unat (fw_total st) \<Longrightarrow> fst (fw_write_loop F dat st w)"
proof (induction "length dat" arbitrary: dat st w img rule: less_induct)
  case less
  have page: "length (fw_page st) < PAGE_SZ" using less.prems(1) by (simp add: fw_session_def)
  show ?case
  proof (cases "length (fw_page st) + length dat < PAGE_SZ")
    case True
    then show ?thesis by (simp add: fw_write_loop_short)
  next
    case False
    let ?c = "PAGE_SZ - length (fw_page st)"
    let ?st = "st\<lparr>fw_page := fw_page st @ take ?c dat\<rparr>"
    have l: "length (fw_page st @ take ?c dat) = PAGE_SZ" "length (img @ take ?c dat) \<le> unat (fw_total st)"
      using False page less.prems(2) by auto
    have "fw_holds ?st (mem w) (img @ take ?c dat)" using less.prems(1) l by (auto simp: fw_session_def fw_holds_def)
    then have "fst (page_flush F ?st w)" using l less.prems(1) by (intro page_flush_ok) (auto simp: fw_session_def)
    then obtain st1 w1 where pf: "page_flush F ?st w = (True, st1, w1)" by (metis prod.collapse)
    note s1 = fw_session_page [OF less.prems(1) l pf]
    have "length (drop ?c dat) < length dat" using False page by auto
    from less.hyps [OF this conjunct1 [OF s1]] show ?thesis
      using s1 less.prems(2) False page pf by (simp add: fw_write_loop_full Let_def)
  qed
qed

lemma fw_upg_write_ok:
  assumes "fw_session st (mem w) img" "length (img @ d) \<le> unat (fw_total st)"
  shows "\<exists>st' w'. fw_upg_write F d st w = (0, st', w') \<and> fw_session st' (mem w') (img @ d) \<and> fw_total st' = fw_total st"
proof -
  obtain st1 w1 where l: "fw_write_loop F d st w = (True, st1, w1)" using fw_write_loop_ok [OF assms] by (metis prod.collapse)
  have got: "fw_written st + of_nat (length (fw_page st)) + of_nat (length d) = of_nat (length (img @ d))"
    using fw_holds_length [of st "mem w" img] assms(1) by (simp add: fw_session_def)
  have "unat (of_nat (length (img @ d)) :: u32) = length (img @ d)"
    using assms by (subst unat_of_nat) (simp add: fw_session_def)
  then have over: "(of_nat (length (img @ d)) > fw_total st) = False" using assms(2) by (simp add: word_less_nat_alt)
  show ?thesis
    using assms(1) fw_write_loop_session [OF l assms] unfolding fw_upg_write_def got over l by (auto simp: fw_session_def)
qed

lemma fw_run_ok:
  "fw_session st (mem w) img \<Longrightarrow> length (img @ concat ds) \<le> unat (fw_total st)
    \<Longrightarrow> \<exists>st' w'. fw_run F ds st w = (st', w') \<and> fw_session st' (mem w') (img @ concat ds) \<and> fw_total st' = fw_total st"
proof (induction ds arbitrary: st w img)
  case (Cons d ds)
  obtain st1 w1 where d: "fw_upg_write F d st w = (0, st1, w1)" "fw_session st1 (mem w1) (img @ d)" "fw_total st1 = fw_total st"
    using fw_upg_write_ok [OF Cons.prems(1), of d] Cons.prems(2) by auto
  show ?case using Cons.IH [OF d(2)] Cons.prems(2) d(1,3) by simp
qed simp

lemma crc_loop_ok: "tot \<le> unat SLOT1_SIZE \<Longrightarrow> fst (crc_loop F off tot crc w) \<noteq> None"
proof (induction "tot - off" arbitrary: off crc w rule: less_induct)
  case less
  let ?n = "min (tot - off) READ_CHUNK"
  show ?case
  proof (cases "off < tot")
    case True
    then have "fst (fl_read F (of_nat off) ?n w) \<noteq> None"
      using less.prems by (intro read_ok) (simp add: unat_of_nat CHIP_SIZE_def)
    then obtain buf w1 where rd: "fl_read F (of_nat off) ?n w = (Some buf, w1)" by (cases "fl_read F (of_nat off) ?n w") auto
    have "tot - (off + READ_CHUNK) < tot - off" using True by (simp add: READ_CHUNK_def)
    then show ?thesis using less.hyps [OF _ less.prems] True rd by (simp add: crc_loop.simps [of F off] Let_def)
  qed (simp add: crc_loop.simps [of F off])
qed

lemma tlv_loop_ok:
  "tlv_at m e off kh \<Longrightarrow> m = mem w \<Longrightarrow> e = unat tlv_end \<Longrightarrow> off = unat off' \<Longrightarrow> e \<le> 0x70000 \<Longrightarrow> off \<le> 0x80000
    \<Longrightarrow> \<exists>w'. tlv_loop F off' tlv_end w = Some (Some kh, w')"
proof (induction arbitrary: w off' rule: tlv_at.induct)
  case (found off)
  have u4: "unat (off' + 4) = unat off' + 4" using found.prems by (simp add: unat_word_ariths)
  have "fst (fl_read F off' 4 w) \<noteq> None" using found by (intro read_ok) (simp add: CHIP_SIZE_def)
  then obtain ent w1 where rd: "fl_read F off' 4 w = (Some ent, w1)" by (cases "fl_read F off' 4 w") auto
  have "fst (fl_read F (off' + 4) 32 w1) \<noteq> None" using found u4 by (intro read_ok) (simp add: CHIP_SIZE_def)
  then obtain kh w2 where kr: "fl_read F (off' + 4) 32 w1 = (Some kh, w2)" by (cases "fl_read F (off' + 4) 32 w1") auto
  have "off' + 4 \<le> tlv_end" using found by (simp add: word_le_nat_alt u4)
  then have "tlv_loop F off' tlv_end w = Some (Some kh, w2)"
    using rd kr found read_data [OF rd] by (subst tlv_loop.simps) (simp add: FW_KEYHASH_LEN_def)
  then show ?case using read_data [OF kr] read_mem [OF rd] found u4 by simp
next
  case (later off len kh)
  have u4: "unat (off' + 4) = unat off' + 4" using later.prems by (simp add: unat_word_ariths)
  have "fst (fl_read F off' 4 w) \<noteq> None" using later by (intro read_ok) (simp add: CHIP_SIZE_def)
  then obtain ent w1 where rd: "fl_read F off' 4 w = (Some ent, w1)" by (cases "fl_read F off' 4 w") auto
  note ent = read_data [OF rd] read_mem [OF rd]
  let ?off = "off' + (4 + ((ucast len + 3) AND NOT 3))"
  have "(unat len + 3) div 4 \<le> 65538 div 4" by (rule div_le_mono) (use unat_u16_lt [of len] in linarith)
  then have pad: "(unat len + 3) div 4 * 4 \<le> 0x10000" by simp
  have o: "unat ?off = off + 4 + (unat len + 3) div 4 * 4"
    using later.hyps(1) later.prems pad by (simp add: unat_word_ariths tlv_pad [of len, simplified])
  have "off' + 4 \<le> tlv_end" using later by (simp add: word_le_nat_alt u4)
  moreover have "get_le16 (drop 2 ent) = len" "\<not> (get_le16 ent = 1 \<and> len = 32)" using later.hyps(2,3) later.prems ent by auto
  moreover have "(unat len = 32) = (len = 32)" by (simp add: word_unat_eq_iff)
  ultimately have "tlv_loop F off' tlv_end w = tlv_loop F ?off tlv_end w1"
    using rd by (subst tlv_loop.simps) (auto simp: FW_KEYHASH_LEN_def)
  moreover have "off + 4 + (unat len + 3) div 4 * 4 \<le> 0x80000" using later.hyps(1) later.prems pad by simp
  ultimately show ?case using later.IH [of w1 ?off] later.prems ent(2) o by simp
qed

lemma tlv_keyhash_get_ok:
  assumes "image_keyhash (mem w) kh" "unat (0x200 + io_get_le32 (drop 12 (mem_bytes (mem w) 0 32)) :: u32) \<le> 0x70000"
  shows "\<exists>w'. tlv_keyhash_get F w = Some (Some kh, w')"
proof -
  have "fst (fl_read F SLOT1_OFFSET 32 w) \<noteq> None" by (intro read_ok) (simp add: CHIP_SIZE_def)
  then obtain hdr w1 where rd: "fl_read F SLOT1_OFFSET 32 w = (Some hdr, w1)" by (cases "fl_read F SLOT1_OFFSET 32 w") auto
  define tlv_off where "tlv_off = 0x200 + io_get_le32 (drop 12 (mem_bytes (mem w) 0 32))"
  have hdr: "hdr = mem_bytes (mem w) 0 32" "mem w1 = mem w" using read_data [OF rd] read_mem [OF rd] by auto
  have off: "unat tlv_off \<le> 0x70000" using assms(2) by (simp add: tlv_off_def)
  then have "fst (fl_read F tlv_off 4 w1) \<noteq> None" by (intro read_ok) (simp add: CHIP_SIZE_def)
  then obtain info w2 where ri: "fl_read F tlv_off 4 w1 = (Some info, w2)" by (cases "fl_read F tlv_off 4 w1") auto
  have info: "info = mem_bytes (mem w) (unat tlv_off) 4" "mem w2 = mem w" using read_data [OF ri] read_mem [OF ri] hdr by auto
  let ?fin = "tlv_off + ucast (get_le16 (drop 2 info)) :: u32"
  have img: "io_get_le32 hdr = 0x96F3B83D" "get_le16 (drop 8 hdr) = 0x200" "tlv_off + 4 \<le> SLOT1_SIZE" "tlv_off AND 3 = 0"
    "get_le16 info = 0x6907" "get_le16 (drop 2 info) \<noteq> 0" "?fin \<le> SLOT1_SIZE" "tlv_at (mem w2) (unat ?fin) (unat (tlv_off + 4)) kh"
    using assms(1) unfolding image_keyhash_def Let_def tlv_off_def [symmetric]
    unfolding hdr(1) [symmetric] info(1) [symmetric] info(2) by blast+
  have e: "ucast (get_le16 (drop 8 hdr)) + io_get_le32 (drop 12 hdr) = tlv_off" using img(2) hdr(1) by (simp add: tlv_off_def)
  have "tlv_keyhash_get F w = tlv_loop F (tlv_off + 4) ?fin w2"
    unfolding tlv_keyhash_get_def rd prod.case option.case Let_def e SLOT1_add ri
    using img(1-7) by (simp add: IMG_HDR_SIZE_def leD split del: if_split)
  moreover have "unat ?fin \<le> 0x70000" "unat (tlv_off + 4) \<le> 0x80000" using img(3,7) by (auto simp: word_le_nat_alt)
  ultimately show ?thesis using tlv_loop_ok [OF img(8), of w2 ?fin "tlv_off + 4"] by simp
qed

text \<open>The offset of the TLV area could only wrap for a body of almost 4 GiB.\<close>

lemma image_keyhash_off:
  assumes "image_keyhash m kh" "io_get_le32 (drop 12 (mem_bytes m 0 32)) < 0xFFFFFDFC"
  shows "unat (0x200 + io_get_le32 (drop 12 (mem_bytes m 0 32)) :: u32) \<le> 0x70000"
proof -
  let ?s = "io_get_le32 (drop 12 (mem_bytes m 0 32))"
  have "unat ?s < 0xFFFFFDFC" using assms(2) by (simp add: word_less_nat_alt)
  then have "unat (0x200 + ?s) = 0x200 + unat ?s" "unat (0x200 + ?s + 4) = 0x204 + unat ?s"
    by (simp_all add: unat_word_ariths)
  moreover have "unat (0x200 + ?s + 4) \<le> 0x70000"
    using assms(1) unfolding image_keyhash_def Let_def word_le_nat_alt by (simp add: SLOT1_SIZE_def)
  ultimately show ?thesis by simp
qed

lemma fw_upg_finish_ok:
  assumes "fw_session st (mem w) img" "length img = unat (fw_total st)" "64 \<le> length img"
    and "io_get_le32 (drop 12 img) < 0xFFFFFDFC"
  shows "\<exists>rc st' w'. fw_upg_finish F K (crc16_ccitt 0 img) st w = Some (rc, st', w') \<and> mem_bytes (mem w') 0 (length img) = img
    \<and> (rc = 0 \<longleftrightarrow> image_keyhash (mem w') K)"
proof -
  let ?st = "st\<lparr>fw_active := False\<rparr>"
  have h: "fw_holds ?st (mem w) img" using assms(1) by (auto simp: fw_session_def fw_holds_def)
  have "fst (page_flush F ?st w)" using assms(1) by (intro page_flush_ok [OF h]) (auto simp: fw_session_def)
  then obtain st1 w1 where pf: "page_flush F ?st w = (True, st1, w1)" by (metis prod.collapse)
  note f = page_flush_holds [OF h pf]
  have m1: "mem_bytes (mem w1) 0 (length img) = img" using programmed_bytes [OF f(2)] .
  have "fst (crc_loop F 0 (unat (fw_total st)) 0 w1) \<noteq> None" using assms(1) by (intro crc_loop_ok) (simp add: fw_session_def)
  then obtain c w2 where cr: "crc_loop F 0 (unat (fw_total st)) 0 w1 = (Some c, w2)" by (cases "crc_loop F 0 (unat (fw_total st)) 0 w1") auto
  have c: "c = crc16_ccitt 0 img" "mem w2 = mem w1"
    using crc_loop_reads [OF cr] assms(1,2) m1 by (auto simp: fw_session_def)
  obtain kok w3 where kh: "check_keyhash F K w2 = Some (kok, w3)" "mem w3 = mem w2" "kok \<Longrightarrow> image_keyhash (mem w2) K"
    using check_keyhash_ok [of K w2] by blast
  have kok: "kok" if "image_keyhash (mem w2) K"
  proof -
    have "mem_bytes (mem w1) 0 (length img) = mem_bytes (mem w1) 0 32 @ mem_bytes (mem w1) 32 (length img - 32)"
      using assms(3) mem_bytes_add [of "mem w1" 0 32 "length img - 32"] by simp
    then have "take 32 img = mem_bytes (mem w1) 0 32" using m1 by (metis append_eq_conv_conj length_mem_bytes)
    then have "io_get_le32 (drop 12 (mem_bytes (mem w2) 0 32)) < 0xFFFFFDFC"
      using assms(3,4) c(2) by (simp add: io_get_le32_def flip: \<open>take 32 img = _\<close>)
    from tlv_keyhash_get_ok [OF that image_keyhash_off [OF that this]] show ?thesis using kh(1) by (auto simp: check_keyhash_def)
  qed
  have len: "fw_written st + of_nat (length (fw_page st)) = fw_total st"
  proof -
    have "unat (fw_total st) = unat (fw_written st) + length (fw_page st)" using fw_holds_length [OF h] assms(2) by simp
    then have "of_nat (unat (fw_total st)) = (of_nat (unat (fw_written st) + length (fw_page st)) :: u32)" by simp
    then show ?thesis by simp
  qed
  show ?thesis
    using assms(1) pf f(1) cr c kh kok len m1
    by (auto simp: fw_upg_finish_def fw_upg_finish_ex_def Let_def fw_session_def)
qed

lemma upload_ok:
  assumes "\<not> fw_active st" "64 \<le> length (concat ds)" "length (concat ds) \<le> 0x70000"
    and "io_get_le32 (drop 12 (concat ds)) < 0xFFFFFDFC"
  shows "\<exists>st0 w0 st1 w1 rc st2 w2. fw_upg_start F K (of_nat (length (concat ds))) None st w = (0, st0, w0)
    \<and> fw_run F ds st0 w0 = (st1, w1) \<and> fw_upg_received st1 = of_nat (length (concat ds))
    \<and> fw_upg_finish F K (crc16_ccitt 0 (concat ds)) st1 w1 = Some (rc, st2, w2)
    \<and> mem_bytes (mem w2) 0 (length (concat ds)) = concat ds \<and> (rc = 0 \<longleftrightarrow> image_keyhash (mem w2) K)"
proof -
  let ?img = "concat ds" and ?tot = "of_nat (length (concat ds)) :: u32"
  have tot: "unat ?tot = length ?img" using assms(3)  by (subst unat_of_nat) simp
  have "fst (fl_erase F SLOT1_OFFSET (unat SLOT1_SIZE) w)"
    by (rule erase_ok) (simp_all add: NOR_SECTOR_def CHIP_SIZE_def)
  then obtain w0 where e: "fl_erase F SLOT1_OFFSET (unat SLOT1_SIZE) w = (True, w0)" by (metis prod.collapse)
  have "\<not> ?tot < 64" "\<not> ?tot > SLOT1_SIZE" using assms(2,3) tot by (simp_all add: word_less_nat_alt del: length_concat)
  then obtain st0 where st0: "fw_upg_start F K ?tot None st w = (0, st0, w0)"
    using assms(1) e by (simp add: fw_upg_start_def del: SLOT1_unat)
  note s0 = fw_upg_start_session [OF st0]
  obtain st1 w1 where s1: "fw_run F ds st0 w0 = (st1, w1)" "fw_session st1 (mem w1) ?img" "fw_total st1 = fw_total st0"
    using fw_run_ok [OF conjunct1 [OF s0], of ds] s0 tot by auto
  have "length ?img = unat (fw_total st1)" using s1(3) s0 tot by simp
  from fw_upg_finish_ok [OF s1(2) this assms(2,4), of K]
  obtain rc st2 w2 where fin: "fw_upg_finish F K (crc16_ccitt 0 ?img) st1 w1 = Some (rc, st2, w2)"
    "mem_bytes (mem w2) 0 (length ?img) = ?img" "rc = 0 \<longleftrightarrow> image_keyhash (mem w2) K" by blast
  have "fw_upg_received st1 = ?tot"
    using fw_holds_length [of st1 "mem w1" ?img] s1(2) by (simp add: fw_upg_received_def fw_session_def del: length_concat)
  then show ?thesis using st0 s1(1) fin by blast
qed

end

text \<open>
  (C30) Firmware upgrade: when an upload is accepted, the image is in slot 1. Whatever the pieces in which
  a channel hands over the image, and whatever the flash does, a final check that returns 0 means that the
  slot holds exactly the bytes received, that they are as many as announced, that they have the announced
  CRC and that the image carries the device's key hash.
\<close>

theorem fw_accepted_image_stored:
  assumes "nor_flash F mem" "fw_upg_start F K tot kh st w = (0, st0, w0)" "fw_run F ds st0 w0 = (st1, w1)"
    and "\<forall>d \<in> set ds. length d < 2 ^ 31" "fw_upg_finish F K crc st1 w1 = Some (0, st2, w2)"
  shows "length (concat ds) = unat tot \<and> mem_bytes (mem w2) 0 (unat tot) = concat ds
    \<and> crc16_ccitt 0 (concat ds) = crc \<and> image_keyhash (mem w2) K"
proof -
  note s0 = nor_flash.fw_upg_start_session [OF assms(1,2)]
  have "fw_state st0 (mem w0) []" using s0 by (simp add: fw_state_def)
  note s1 = nor_flash.fw_run_state [OF assms(1,3) this assms(4)]
  then have "fw_state st1 (mem w1) (concat ds)" "fw_total st1 = tot" using s0 by auto
  then show ?thesis
    using nor_flash.fw_upg_finish_checks [OF assms(1), of st1 w1 "concat ds" K crc True] assms(5)
    by (auto simp: fw_upg_finish_def)
qed


text \<open>
  (C31) Firmware upgrade on a flash that works: an image of 64 bytes to 448 KiB, handed over in any
  pieces, goes through: the session starts, every piece is accepted, and the final check with the right CRC
  returns, with the image in the slot, and accepts it exactly when the image carries the device's key hash.
  (The size field of the image must be below 4 GiB minus 516 bytes; beyond that the offset of the TLV area wraps.)
\<close>

theorem fw_upload_goes_through:
  assumes "reliable_nor_flash F mem" "\<not> fw_active st" "64 \<le> length (concat ds)" "length (concat ds) \<le> 0x70000"
    and "io_get_le32 (drop 12 (concat ds)) < 0xFFFFFDFC"
  shows "\<exists>st0 w0 st1 w1 rc st2 w2. fw_upg_start F K (of_nat (length (concat ds))) None st w = (0, st0, w0)
    \<and> fw_run F ds st0 w0 = (st1, w1) \<and> fw_upg_received st1 = of_nat (length (concat ds))
    \<and> fw_upg_finish F K (crc16_ccitt 0 (concat ds)) st1 w1 = Some (rc, st2, w2)
    \<and> mem_bytes (mem w2) 0 (length (concat ds)) = concat ds \<and> (rc = 0 \<longleftrightarrow> image_keyhash (mem w2) K)"
  by (rule reliable_nor_flash.upload_ok [OF assms])

text \<open>An image for the witnesses: a header, no body, and one TLV entry with the key hash.\<close>

definition demo_key :: "u8 list" where
  "demo_key = replicate 32 7"

definition demo_image :: "u8 list" where
  "demo_image = [0x3D, 0xB8, 0xF3, 0x96, 0, 0, 0, 0, 0, 2, 0, 0, 0, 0, 0, 0] @ replicate 496 0
     @ [0x07, 0x69, 40, 0] @ [1, 0, 32, 0] @ demo_key"

definition idle_fw :: fw_st where
  "idle_fw = \<lparr>fw_active = False, fw_failed = False, fw_total = 0, fw_written = 0, fw_page = []\<rparr>"

lemma length_demo_image [simp]: "length demo_image = 552"
  by (simp add: demo_image_def demo_key_def)

lemma mem_bytes_slice:
  assumes "mem_bytes m 0 (length img) = img" "a + n \<le> length img"
  shows "mem_bytes m a n = take n (drop a img)"
proof (rule mem_bytes_eqI)
  fix i assume "i < n"
  then have "m (0 + (a + i)) = img ! (a + i)" using assms nth_mem_bytes [of "a + i" "length img" m 0] by simp
  then show "m (a + i) = take n (drop a img) ! i" using \<open>i < n\<close> assms(2) by simp
qed (use assms(2) in simp)

lemma demo_image_keyhash:
  assumes "mem_bytes m 0 552 = demo_image"
  shows "image_keyhash m demo_key"
proof -
  note sl = mem_bytes_slice [of m demo_image, simplified length_demo_image, OF assms]
  have hdr: "mem_bytes m 0 32 = [0x3D, 0xB8, 0xF3, 0x96, 0, 0, 0, 0, 0, 2, 0, 0, 0, 0, 0, 0] @ replicate 16 0"
    using sl [of 0 32] by (simp add: demo_image_def)
  have info: "mem_bytes m 512 4 = [0x07, 0x69, 40, 0]" and ent: "mem_bytes m 516 4 = [1, 0, 32, 0]" and key: "mem_bytes m 520 32 = demo_key"
    using sl [of 512 4] sl [of 516 4] sl [of 520 32] by (simp_all add: demo_image_def demo_key_def)
  have "tlv_at m 552 516 (mem_bytes m (516 + 4) 32)" by (rule tlv_at.found) (simp_all add: ent get_le16_def)
  then show ?thesis
    unfolding image_keyhash_def Let_def hdr by (simp add: info key io_get_le32_def get_le16_def SLOT1_SIZE_def word_le_nat_alt)
qed

lemma demo_upload:
  "\<exists>st0 w0 st1 w1 st2 w2. fw_upg_start fake_flash demo_key 552 None idle_fw fake_flash_reset = (0, st0, w0)
    \<and> fw_run fake_flash [take 300 demo_image, drop 300 demo_image] st0 w0 = (st1, w1)
    \<and> fw_upg_finish fake_flash demo_key (crc16_ccitt 0 demo_image) st1 w1 = Some (0, st2, w2)"
proof -
  have "io_get_le32 (drop 12 demo_image) < 0xFFFFFDFC" by (simp add: demo_image_def io_get_le32_def)
  then show ?thesis
    using fake.upload_ok [of idle_fw "[take 300 demo_image, drop 300 demo_image]" demo_key fake_flash_reset] demo_image_keyhash
    by (auto simp: idle_fw_def)
qed

theorem fw_upload_goes_through_witness:
  "\<exists>st0 w0 st1 w1 rc st2 w2. fw_upg_start fake_flash demo_key 552 None idle_fw fake_flash_reset = (0, st0, w0)
    \<and> fw_run fake_flash [take 300 demo_image, drop 300 demo_image] st0 w0 = (st1, w1) \<and> fw_upg_received st1 = 552
    \<and> fw_upg_finish fake_flash demo_key (crc16_ccitt 0 demo_image) st1 w1 = Some (rc, st2, w2)
    \<and> mem_bytes w2 0 552 = demo_image \<and> rc = 0"
proof -
  have "io_get_le32 (drop 12 demo_image) < 0xFFFFFDFC" by (simp add: demo_image_def io_get_le32_def)
  then show ?thesis
    using fw_upload_goes_through [OF fake.reliable_nor_flash_axioms, of idle_fw "[take 300 demo_image, drop 300 demo_image]" demo_key fake_flash_reset]
      demo_image_keyhash by (auto simp: idle_fw_def)
qed

theorem fw_accepted_image_stored_witness:
  "\<exists>w2. mem_bytes w2 0 552 = demo_image \<and> image_keyhash w2 demo_key"
proof -
  obtain st0 w0 st1 w1 st2 w2 where u: "fw_upg_start fake_flash demo_key 552 None idle_fw fake_flash_reset = (0, st0, w0)"
    "fw_run fake_flash [take 300 demo_image, drop 300 demo_image] st0 w0 = (st1, w1)"
    "fw_upg_finish fake_flash demo_key (crc16_ccitt 0 demo_image) st1 w1 = Some (0, st2, w2)" using demo_upload by blast
  show ?thesis using fw_accepted_image_stored [OF fake.nor_flash_axioms u(1,2) _ u(3)] by auto
qed

text \<open>
  Firmware upgrade: whatever a channel sends and whatever the flash does, an upload only ever
  touches slot 1: the configuration, the swap area and the history files behind it keep every byte, and
  the final check always returns and leaves no session behind.
\<close>

theorem fw_upload_confined:
  assumes "nor_flash F mem" "fw_upg_start F K tot kh st w = (0, st0, w0)" "fw_run F ds st0 w0 = (st1, w1)"
    and "\<forall>d \<in> set ds. length d < 2 ^ 31" "0x70000 \<le> i"
  shows "\<exists>rc st2 w2. fw_upg_finish_ex F K crc check st1 w1 = Some (rc, st2, w2) \<and> \<not> fw_active st2 \<and> mem w2 i = mem w i"
proof -
  note s0 = nor_flash.fw_upg_start_session [OF assms(1,2)]
  then have "fw_state st0 (mem w0) []" by (simp add: fw_state_def)
  note s1 = nor_flash.fw_run_state [OF assms(1,3) this assms(4)]
  then have "fw_state st1 (mem w1) (concat ds)" by simp
  from nor_flash.fw_upg_finish_checks [OF assms(1) this, of K crc check]
  show ?thesis using s0 s1 assms(5) by auto
qed

theorem fw_upload_confined_witness:
  "\<exists>st0 w0 st1 w1 rc st2 w2. fw_upg_start fake_flash demo_key 552 None idle_fw fake_flash_reset = (0, st0, w0)
    \<and> fw_run fake_flash [[1], replicate 600 2] st0 w0 = (st1, w1)
    \<and> fw_upg_finish_ex fake_flash demo_key 0 True st1 w1 = Some (rc, st2, w2) \<and> w2 0x70000 = fake_flash_reset 0x70000"
proof -
  obtain st0 w0 where u: "fw_upg_start fake_flash demo_key 552 None idle_fw fake_flash_reset = (0, st0, w0)" using demo_upload by blast
  obtain st1 w1 where r: "fw_run fake_flash [[1], replicate 600 2] st0 w0 = (st1, w1)" by fastforce
  show ?thesis using fw_upload_confined [OF fake.nor_flash_axioms u r, of "0x70000" 0 True] u r by auto
qed

section \<open>The checksum\<close>

text \<open>The textbook form of the CRC: eight shifts per byte with the reflected polynomial 0x8408.\<close>

definition ccitt_bit :: "u16 \<Rightarrow> u16" where
  "ccitt_bit c = (if bit c 0 then drop_bit 1 c XOR 0x8408 else drop_bit 1 c)"

definition ccitt_byte :: "u16 \<Rightarrow> u8 \<Rightarrow> u16" where
  "ccitt_byte c b = (ccitt_bit ^^ 8) (c XOR ucast b)"

lemma bit_ccitt_bit:
  assumes "n < 16"
  shows "bit (ccitt_bit c) n \<longleftrightarrow> (if n = 15 then bit c 0 else if n = 10 \<or> n = 3 then bit c (Suc n) \<noteq> bit c 0 else bit c (Suc n))"
proof -
  have "bit (0x8408 :: u16) n \<longleftrightarrow> n = 15 \<or> n = 10 \<or> n = 3" if "n < 16" for n
    using that by (auto simp: less_Suc_eq numeral_eq_Suc bit_Suc)
  then show ?thesis using assms bit_imp_le_length [of c 16] by (auto simp: ccitt_bit_def bit_simps)
qed

lemma bit_ccitt_step:
  assumes "n < 16" and e: "\<And>k. e k \<longleftrightarrow> bit c k \<noteq> bit b k" and f: "\<And>k. f k \<longleftrightarrow> k < 8 \<and> (e k \<noteq> (4 \<le> k \<and> e (k - 4)))"
  shows "bit (ccitt_step c b) n \<longleftrightarrow> (bit c (n + 8) \<noteq> ((8 \<le> n \<and> f (n - 8)) \<noteq> ((3 \<le> n \<and> f (n - 3)) \<noteq> f (n + 4))))"
proof -
  define x where "x = (ucast c :: u8) XOR b"
  have hb: "\<not> bit b k" if "8 \<le> k" for k using that bit_imp_le_length [of b k] by auto
  have x: "bit x k \<longleftrightarrow> k < 8 \<and> e k" for k by (cases "k < 8") (simp_all add: x_def bit_simps e hb)
  have y: "bit (x XOR push_bit 4 x) k \<longleftrightarrow> f k" for k by (cases "4 \<le> k"; cases "k < 8") (simp_all add: bit_simps x f less_imp_diff_less)
  have f8: "\<not> f k" if "8 \<le> k" for k using that by (simp add: f)
  have "ccitt_step c b = drop_bit 8 c XOR push_bit 8 (ucast (x XOR push_bit 4 x)) XOR push_bit 3 (ucast (x XOR push_bit 4 x))
      XOR ucast (drop_bit 4 (x XOR push_bit 4 x))" by (simp add: ccitt_step_def x_def Let_def)
  moreover have "bit (drop_bit 8 c) n \<longleftrightarrow> bit c (n + 8)" by (simp add: bit_simps add.commute)
  moreover have "bit (push_bit 8 (ucast (x XOR push_bit 4 x) :: u16)) n \<longleftrightarrow> 8 \<le> n \<and> f (n - 8)"
    "bit (push_bit 3 (ucast (x XOR push_bit 4 x) :: u16)) n \<longleftrightarrow> 3 \<le> n \<and> f (n - 3)"
    using assms(1) by (simp_all only: bit_push_bit_iff bit_ucast_iff y) auto
  moreover have "bit (ucast (drop_bit 4 (x XOR push_bit 4 x)) :: u16) n \<longleftrightarrow> f (n + 4)"
    using assms(1) by (simp only: bit_ucast_iff bit_drop_bit_eq y comp_apply) (simp add: add.commute)
  ultimately show ?thesis by (simp only: bit_xor_iff)
qed

lemma ccitt_bit_8: "(ccitt_bit ^^ 8) x = ccitt_bit (ccitt_bit (ccitt_bit (ccitt_bit (ccitt_bit (ccitt_bit (ccitt_bit (ccitt_bit x)))))))"
  by (simp add: numeral_eq_Suc)

lemma ccitt_step_byte: "ccitt_step c b = ccitt_byte c b"
proof (rule bit_word_eqI)
  fix n :: nat
  assume n: "n < LENGTH(16)"
  define e where "e k \<longleftrightarrow> bit c k \<noteq> bit b k" for k
  define f where "f k \<longleftrightarrow> k < 8 \<and> (e k \<noteq> (4 \<le> k \<and> e (k - 4)))" for k
  have hi: "\<not> bit c k" if "16 \<le> k" for k using that bit_imp_le_length [of c k] by auto
  have hb: "\<not> bit b k" if "8 \<le> k" for k using that bit_imp_le_length [of b k] by auto
  have x: "bit (c XOR ucast b) k \<longleftrightarrow> (if k < 8 then e k else bit c k)" if "k < 16" for k
    using that hb by (auto simp: bit_simps e_def)
  have "n \<in> {0, 1, 2, 3, 4, 5, 6, 7, 8, 9, 10, 11, 12, 13, 14, 15}" using n by (simp, presburger)
  then show "bit (ccitt_step c b) n \<longleftrightarrow> bit (ccitt_byte c b) n"
    unfolding ccitt_byte_def ccitt_bit_8 bit_ccitt_step [OF n [simplified] e_def f_def]
    by (elim insertE emptyE; simp add: bit_ccitt_bit x f_def hi; (simp add: numeral_eq_Suc)?; argo?)
qed

text \<open>
  The table-free checksum of the upgrade path, with its four shifts per byte, is CRC-16/KERMIT: for
  every seed and every message it equals eight single-bit steps per byte with the reflected polynomial
  of CCITT.
\<close>

theorem crc16_ccitt_is_kermit: "crc16_ccitt seed src = fold (\<lambda>b c. ccitt_byte c b) src seed"
  by (induction src arbitrary: seed) (simp_all add: ccitt_step_byte)

end
