(* ===== verification/Fw_Udp.thy ===== *)
theory Fw_Udp
  imports Fw_Upg
begin

unbundle bit_operations_syntax

text \<open>
  \<open>src/fw/fw_udp.c\<close>: the UDP upgrade channel. \<open>fw_udp_cmd\<close> runs in the network thread and only queues a
  command; the worker task takes one command at a time and answers it. A message's \<open>dlen\<close> is the length of
  its data list. MCUboot's \<open>boot_set_pending\<close> is the parameter \<open>boot\<close> (\<open>True\<close> for the return value 0); a
  sender is the pair of its address and port.
\<close>

definition FW_Q_DEPTH :: nat where [hub_defs]: "FW_Q_DEPTH = 8"
definition FW_DATA_MAX :: nat where [hub_defs]: "FW_DATA_MAX = 511"
definition FW_V2_CHUNK :: u16 where [hub_defs]: "FW_V2_CHUNK = 1400"
definition FW_V2_MAX :: nat where [hub_defs]: "FW_V2_MAX = 4 + 1400"
definition FW_CMD_START :: u8 where [hub_defs]: "FW_CMD_START = 0x01"
definition FW_CMD_DATA :: u8 where [hub_defs]: "FW_CMD_DATA = 0x02"
definition FW_CMD_END :: u8 where [hub_defs]: "FW_CMD_END = 0x03"
definition FW_CMD_DATA_V2 :: u8 where [hub_defs]: "FW_CMD_DATA_V2 = 0x06"

record fw_msg =
  m_cmd :: u8
  m_from :: "u32 \<times> u16"
  m_data :: "u8 list"

definition fw_udp_cmd :: "u8 list \<Rightarrow> u32 \<times> u16 \<Rightarrow> fw_msg list \<Rightarrow> bool \<times> fw_msg list" where
  "fw_udp_cmd rx src q =
     (if length rx < 1 then (False, q)
      else let cmd = rx ! 0; len = length rx;
               send = (\<lambda>d. (True, if length q < FW_Q_DEPTH then q @ [\<lparr>m_cmd = cmd, m_from = src, m_data = d\<rparr>] else q)) in
        if cmd = FW_CMD_START then
          if len < 5 then (False, q) else send (take (if len - 1 > FW_V2_MAX then FW_V2_MAX else len - 1) (drop 1 rx))
        else if cmd = FW_CMD_DATA then
          if len < 2 \<or> len - 1 > FW_DATA_MAX then (False, q) else send (drop 1 rx)
        else if cmd = FW_CMD_DATA_V2 then
          if len < 6 \<or> len - 1 > FW_V2_MAX then (False, q) else send (drop 1 rx)
        else if cmd = FW_CMD_END then
          if len < 4 then (False, q) else send (drop 1 rx)
        else (False, q))"

text \<open>
  One turn of the worker: the reply, if any, the session and the world. \<open>None\<close> would be a turn that
  does not end.
\<close>

definition fw_task_step :: "'w io_flash \<Rightarrow> u8 list \<Rightarrow> (bool \<Rightarrow> 'w \<Rightarrow> bool \<times> 'w) \<Rightarrow> fw_msg \<Rightarrow> fw_st \<Rightarrow> 'w
    \<Rightarrow> (u8 list option \<times> fw_st \<times> 'w) option" where
  "fw_task_step F K boot m st w =
     (if m_cmd m = FW_CMD_START then
        let tot = io_get_le32 (m_data m); kh = (if length (m_data m) \<ge> 4 + 32 then Some (drop 4 (m_data m)) else None) in
        (case fw_upg_start F K tot kh st w of (rc, st, w) \<Rightarrow>
          Some (Some ([FW_CMD_START, if rc = 0 then 1 else if rc = - 2 then 2 else 0] @ put_le16 FW_V2_CHUNK), st, w))
      else if m_cmd m = FW_CMD_DATA then
        (case fw_upg_write F (m_data m) st w of (_, st, w) \<Rightarrow>
          Some (Some (FW_CMD_DATA # io_put_le32 (fw_upg_received st)), st, w))
      else if m_cmd m = FW_CMD_DATA_V2 then
        (case (if length (m_data m) \<ge> 5 \<and> io_get_le32 (m_data m) = fw_upg_received st
               then snd (fw_upg_write F (drop 4 (m_data m)) st w) else (st, w)) of (st, w) \<Rightarrow>
          Some (Some (FW_CMD_DATA_V2 # io_put_le32 (fw_upg_received st)), st, w))
      else if m_cmd m = FW_CMD_END then
        let crc = get_le16 (drop 1 (m_data m)); permanent = (m_data m ! 0 = 0) in
        (case fw_upg_finish F K crc st w of
           None \<Rightarrow> None
         | Some (rc, st, w) \<Rightarrow>
             if rc = 0 then (case boot permanent w of (ok, w) \<Rightarrow> Some (Some [FW_CMD_END, if ok then 1 else 0], st, w))
             else Some (Some [FW_CMD_END, 0], st, w))
      else Some (None, st, w))"


section \<open>Retransmission\<close>

text \<open>A data packet of the windowed transfer that carries a piece of the image at its place.\<close>

definition piece_of :: "u8 list \<Rightarrow> fw_msg \<Rightarrow> bool" where
  "piece_of img m \<longleftrightarrow> m_cmd m = FW_CMD_DATA_V2 \<and> (\<exists>off d. m_data m = io_put_le32 (of_nat off) @ d \<and> off < 0x70000 \<and> length d \<le> 1400
     \<and> d = take (length d) (drop off img))"

fun task_run :: "'w io_flash \<Rightarrow> u8 list \<Rightarrow> (bool \<Rightarrow> 'w \<Rightarrow> bool \<times> 'w) \<Rightarrow> fw_msg list \<Rightarrow> fw_st \<Rightarrow> 'w \<Rightarrow> (fw_st \<times> 'w) option" where
  "task_run F K boot [] st w = Some (st, w)"
| "task_run F K boot (m # ms) st w =
     (case fw_task_step F K boot m st w of None \<Rightarrow> None | Some (_, st, w) \<Rightarrow> task_run F K boot ms st w)"

text \<open>Through every packet the session holds a prefix of the image.\<close>

definition holds_prefix :: "u8 list \<Rightarrow> fw_st \<Rightarrow> (nat \<Rightarrow> u8) \<Rightarrow> bool" where
  "holds_prefix img st m \<longleftrightarrow> (\<exists>n \<le> length img. fw_state st m (take n img))"

context nor_flash
begin

lemma piece_keeps_prefix:
  assumes "piece_of img m" "holds_prefix img st (mem w)"
  shows "\<exists>r st' w'. fw_task_step F K boot m st w = Some (r, st', w') \<and> holds_prefix img st' (mem w') \<and> fw_total st' = fw_total st"
proof -
  obtain off d where m: "m_cmd m = FW_CMD_DATA_V2" "m_data m = io_put_le32 (of_nat off) @ d" "off < 0x70000" "length d \<le> 1400"
    "d = take (length d) (drop off img)" using assms(1) by (auto simp: piece_of_def)
  have cmd: "m_cmd m \<noteq> FW_CMD_START" "m_cmd m \<noteq> FW_CMD_DATA" using m(1) by (simp_all add: hub_defs)
  show ?thesis
  proof (cases "length (m_data m) \<ge> 5 \<and> of_nat off = fw_upg_received st")
    case False
    then show ?thesis using m cmd assms(2) by (auto simp: fw_task_step_def)
  next
    case True
    obtain rc st' w' where wr: "fw_upg_write F d st w = (rc, st', w')" by (metis prod_cases3)
    have step: "fw_task_step F K boot m st w = Some (Some (FW_CMD_DATA_V2 # io_put_le32 (fw_upg_received st')), st', w')"
      using m cmd True wr by (simp add: fw_task_step_def)
    obtain n where n: "n \<le> length img" "fw_state st (mem w) (take n img)" using assms(2) by (auto simp: holds_prefix_def)
    have "length d < 2 ^ 31" using m(4) by simp
    note w1 = fw_upg_write_state [OF wr n(2) this]
    have "holds_prefix img st' (mem w')"
    proof (cases "fw_failed st")
      case True
      then have "fw_active st' \<and> fw_failed st'" using wr n(2) by (auto simp: fw_state_def fw_session_def fw_upg_write_def split: if_splits)
      then show ?thesis by (auto simp: holds_prefix_def fw_state_def)
    next
      case F: False
      then have s: "fw_session st (mem w) (take n img)" using n(2) by (simp add: fw_state_def)
      then have "fw_upg_received st = of_nat n"
        using fw_holds_length [of st "mem w" "take n img"] n(1) by (simp add: fw_session_def fw_upg_received_def)
      then have "unat (of_nat off :: u32) = unat (of_nat n :: u32)" using True by simp
      then have "off mod 2 ^ 32 = n mod 2 ^ 32" unfolding unat_of_nat by simp
      moreover have "n \<le> 0x70000" using s n(1) by (simp add: fw_session_def)
      ultimately have "off = n" using m(3) by simp
      then have "take n img @ d = take (n + length d) img" using m(5) by (metis take_add)
      moreover have "n + length d \<le> length img" using m(5) n(1) \<open>off = n\<close> by (metis add_le_cancel_left le_add_diff_inverse length_drop length_take min.cobounded1)
      ultimately show ?thesis using w1(1) by (auto simp: holds_prefix_def)
    qed
    then show ?thesis using step w1(3) by blast
  qed
qed

lemma pieces_keep_prefix:
  "\<forall>m \<in> set ms. piece_of img m \<Longrightarrow> holds_prefix img st (mem w)
    \<Longrightarrow> \<exists>st' w'. task_run F K boot ms st w = Some (st', w') \<and> holds_prefix img st' (mem w') \<and> fw_total st' = fw_total st"
proof (induction ms arbitrary: st w)
  case (Cons m ms)
  have "piece_of img m" using Cons.prems(1) by simp
  from piece_keeps_prefix [OF this Cons.prems(2), of K boot]
  obtain r st1 w1 where s: "fw_task_step F K boot m st w = Some (r, st1, w1)" "holds_prefix img st1 (mem w1)" "fw_total st1 = fw_total st"
    by blast
  then show ?case using Cons.IH [of st1 w1] Cons.prems(1) by simp
qed simp

end

text \<open>
  (C34) The windowed UDP transfer survives the network: packets that carry pieces of an image at
  their offsets may be lost, repeated and reordered at will. The worker takes every one of them without
  getting stuck, never stores a byte at the wrong place, and if the final check then accepts the upload the
  slot holds the beginning of that image, of the announced length.
\<close>

theorem udp_pieces_in_any_order:
  assumes "nor_flash F mem" "fw_upg_start F K tot kh st w = (0, st0, w0)" "\<forall>m \<in> set ms. piece_of img m"
  shows "\<exists>st1 w1. task_run F K boot ms st0 w0 = Some (st1, w1) \<and>
    (\<forall>crc st2 w2. fw_upg_finish F K crc st1 w1 = Some (0, st2, w2) \<longrightarrow>
       unat tot \<le> length img \<and> mem_bytes (mem w2) 0 (unat tot) = take (unat tot) img)"
proof -
  note s0 = nor_flash.fw_upg_start_session [OF assms(1,2)]
  then have "holds_prefix img st0 (mem w0)" by (auto simp: holds_prefix_def fw_state_def intro: exI [of _ 0])
  from nor_flash.pieces_keep_prefix [OF assms(1,3) this, of K boot]
  obtain st1 w1 where r: "task_run F K boot ms st0 w0 = Some (st1, w1)" "holds_prefix img st1 (mem w1)" "fw_total st1 = tot"
    using s0 by auto
  then obtain n where n: "n \<le> length img" "fw_state st1 (mem w1) (take n img)" by (auto simp: holds_prefix_def)
  have "unat tot \<le> length img \<and> mem_bytes (mem w2) 0 (unat tot) = take (unat tot) img"
    if "fw_upg_finish F K crc st1 w1 = Some (0, st2, w2)" for crc st2 w2
    using nor_flash.fw_upg_finish_checks [OF assms(1) n(2), of K crc True] that n(1) r(3) by (auto simp: fw_upg_finish_def)
  then show ?thesis using r(1) by blast
qed

definition demo_piece :: "nat \<Rightarrow> nat \<Rightarrow> fw_msg" where
  "demo_piece off n = \<lparr>m_cmd = FW_CMD_DATA_V2, m_from = (0, 0), m_data = io_put_le32 (of_nat off) @ take n (drop off demo_image)\<rparr>"

theorem udp_pieces_in_any_order_witness:
  "\<exists>st0 w0 st1 w1. fw_upg_start fake_flash demo_key 552 None idle_fw fake_flash_reset = (0, st0, w0)
    \<and> task_run fake_flash demo_key (\<lambda>_ w. (True, w)) [demo_piece 100 200, demo_piece 0 100, demo_piece 0 100, demo_piece 100 452] st0 w0
        = Some (st1, w1)"
proof -
  obtain st0 w0 where u: "fw_upg_start fake_flash demo_key 552 None idle_fw fake_flash_reset = (0, st0, w0)" using demo_upload by blast
  have p: "piece_of demo_image (demo_piece off n)" if "off + n \<le> 552" "n \<le> 1400" for off n
    using that by (auto simp: piece_of_def demo_piece_def intro!: exI [of _ off])
  have "\<forall>m \<in> set [demo_piece 100 200, demo_piece 0 100, demo_piece 0 100, demo_piece 100 452]. piece_of demo_image m"
    by (simp add: p)
  from udp_pieces_in_any_order [OF fake.nor_flash_axioms u this, of "\<lambda>_ w. (True, w)"] u show ?thesis by blast
qed

end
