(* ===== verification/Udp_Cfg.thy ===== *)
theory Udp_Cfg
  imports Mb_Server Fw_Udp
begin

unbundle bit_operations_syntax

text \<open>
  \<open>src/net/udp_cfg.c\<close> and \<open>src/net/udp_task.c\<close>: the UDP configuration service. A datagram from another
  network is dropped unless it asks for the address; upgrade commands go to the upgrade queue; everything
  else is answered at once. The state holds the registers and the store (\<open>udev\<close>), the upgrade queue and the
  file's own variables. Time is the parameter \<open>now\<close>; the version of the build is the parameter \<open>V\<close>; a datagram
  sent is a value of \<open>dgram\<close>. An answer of length 0 (silence) is \<open>None\<close>.
\<close>

definition UDP_CMD_GET_VERSION :: u8 where [hub_defs]: "UDP_CMD_GET_VERSION = 0x04"
definition UDP_CMD_REBOOT :: u8 where [hub_defs]: "UDP_CMD_REBOOT = 0x05"
definition UDP_CMD_SET_IP :: u8 where [hub_defs]: "UDP_CMD_SET_IP = 0x10"
definition UDP_CMD_GET_IP :: u8 where [hub_defs]: "UDP_CMD_GET_IP = 0x11"
definition UDP_CMD_SET_MODBUS :: u8 where [hub_defs]: "UDP_CMD_SET_MODBUS = 0x12"
definition UDP_CMD_GET_MODBUS :: u8 where [hub_defs]: "UDP_CMD_GET_MODBUS = 0x13"
definition UDP_CMD_SET_TIME :: u8 where [hub_defs]: "UDP_CMD_SET_TIME = 0x14"
definition UDP_CMD_FACTORY_RESET :: u8 where [hub_defs]: "UDP_CMD_FACTORY_RESET = 0x19"

record fw_version =
  v_major :: nat
  v_minor :: nat
  v_patch :: nat
  v_git :: "u8 list"

record 'w udp_st =
  udev :: "'w dev"
  fw_queue :: "fw_msg list"
  factory_reset_pending_ms :: u32
  factory_reset_confirmed :: bool
  factory_reset_reboot_pending :: bool
  reboot_reboot_pending :: bool

definition reply_ok :: "nat \<Rightarrow> u8 \<Rightarrow> u8 \<Rightarrow> u8 list option" where
  "reply_ok cap cmd ok = (if cap < 2 then None else Some [cmd, ok])"

definition udp_cfg_reset_pending :: "'w udp_st \<Rightarrow> 'w udp_st" where
  "udp_cfg_reset_pending s = s\<lparr>factory_reset_pending_ms := 0, factory_reset_confirmed := False,
     factory_reset_reboot_pending := False, reboot_reboot_pending := False\<rparr>"

definition udp_cfg_reboot_pending :: "'w udp_st \<Rightarrow> bool" where
  "udp_cfg_reboot_pending s \<longleftrightarrow> factory_reset_reboot_pending s \<or> reboot_reboot_pending s"

definition in_dev :: "('w dev \<Rightarrow> 'w dev) \<Rightarrow> 'w udp_st \<Rightarrow> 'w udp_st" where
  "in_dev f s = s\<lparr>udev := f (udev s)\<rparr>"

definition erase_store :: "'w board \<Rightarrow> 'w dev \<Rightarrow> 'w dev" where
  "erase_store B d = (case config_store_erase_all (nor B) (store d) (world d) of (st, w) \<Rightarrow> d\<lparr>store := st, world := w\<rparr>)"

definition udp_factory_reset :: "'w board \<Rightarrow> ('w \<Rightarrow> u32) \<Rightarrow> nat \<Rightarrow> u8 \<Rightarrow> 'w udp_st \<Rightarrow> u8 list option \<times> 'w udp_st" where
  "udp_factory_reset B now cap cmd s =
     (let t = now (world (udev s)) in
      if \<not> factory_reset_confirmed s \<and> t - factory_reset_pending_ms s > 5000
      then (reply_ok cap cmd 0, s\<lparr>factory_reset_pending_ms := t\<rparr>)
      else (reply_ok cap cmd 1,
            (in_dev (erase_store B) s)\<lparr>factory_reset_confirmed := False, factory_reset_reboot_pending := True\<rparr>))"

definition set_reg :: "nat \<Rightarrow> u16 \<Rightarrow> 'w dev \<Rightarrow> 'w dev" where
  "set_reg i v d = snd (update_holding_reg (of_nat i) v d)"

definition get_reg8 :: "nat \<Rightarrow> 'w dev \<Rightarrow> u8" where
  "get_reg8 i d = ucast (get_holding_reg (of_nat i) d)"

text \<open>The room checks of \<open>GET_VERSION\<close> are 16 bit subtractions in the source.\<close>

definition version_reply :: "fw_version \<Rightarrow> u16 \<Rightarrow> u8 \<Rightarrow> u8 list option" where
  "version_reply V cap cmd =
     (if cap < 2 \<or> cap - 2 < 1 \<or> cap - 4 < 1 \<or> cap - 6 < 1 \<or> cap - 8 < 6 then None
      else Some ([cmd, 0x76, 0x30 + of_nat (v_major V), 0x2E, 0x30 + of_nat (v_minor V), 0x2E, 0x30 + of_nat (v_patch V), 0x5F]
        @ take 6 (v_git V)))"

definition udp_app_cmd :: "'w board \<Rightarrow> ('w \<Rightarrow> u32) \<Rightarrow> fw_version \<Rightarrow> u8 \<Rightarrow> u8 list \<Rightarrow> nat \<Rightarrow> 'w udp_st \<Rightarrow> u8 list option \<times> 'w udp_st" where
  "udp_app_cmd B now V cmd dat cap s =
     (if cmd = UDP_CMD_SET_IP then
        if length dat \<ge> 4 \<and> ip_addr_valid (dat ! 0) (dat ! 1) (dat ! 2) (dat ! 3) then
          (reply_ok cap cmd 1,
           in_dev (\<lambda>d. holding_reg_save B
             (set_reg (HOLDING_IP_OCTET1_IDX + 3) (ucast (dat ! 3)) (set_reg (HOLDING_IP_OCTET1_IDX + 2) (ucast (dat ! 2))
               (set_reg (HOLDING_IP_OCTET1_IDX + 1) (ucast (dat ! 1)) (set_reg HOLDING_IP_OCTET1_IDX (ucast (dat ! 0)) d))))) s)
        else (reply_ok cap cmd 0, s)
      else if cmd = UDP_CMD_GET_IP then
        (if cap < 5 then None else Some (cmd # map (\<lambda>i. get_reg8 (HOLDING_IP_OCTET1_IDX + i) (udev s)) [0..<4]), s)
      else if cmd = UDP_CMD_SET_MODBUS then
        if length dat \<ge> 3 then
          (reply_ok cap cmd 1,
           in_dev (\<lambda>d. holding_reg_save B
             (set_reg HOLDING_RS485_BAUDRATE_IDX (io_get_be16 (drop 1 dat)) (set_reg HOLDING_SLAVE_ID_IDX (ucast (dat ! 0)) d))) s)
        else (reply_ok cap cmd 0, s)
      else if cmd = UDP_CMD_GET_MODBUS then
        (if cap < 4 then None
         else Some ([cmd, get_reg8 HOLDING_SLAVE_ID_IDX (udev s)]
           @ io_put_be16 (get_holding_reg (of_nat HOLDING_RS485_BAUDRATE_IDX) (udev s))), s)
      else if cmd = UDP_CMD_SET_TIME then
        if length dat \<ge> 4 then
          (case dev_set_timestamp B (uint (io_get_be32 dat)) (udev s) of (ok, d) \<Rightarrow>
            (reply_ok cap cmd (if ok then 1 else 0), s\<lparr>udev := d\<rparr>))
        else (reply_ok cap cmd 0, s)
      else if cmd = UDP_CMD_GET_VERSION then (version_reply V (of_nat cap) cmd, s)
      else if cmd = UDP_CMD_REBOOT then (reply_ok cap cmd 1, s\<lparr>reboot_reboot_pending := True\<rparr>)
      else if cmd = UDP_CMD_FACTORY_RESET then udp_factory_reset B now cap cmd s
      else (None, s))"

definition udp_cmd_bcast_allowed :: "u8 \<Rightarrow> bool" where
  "udp_cmd_bcast_allowed cmd \<longleftrightarrow> cmd = UDP_CMD_GET_IP"

section \<open>The transport (udp_task.c)\<close>

definition UDP_CFG_BCAST_PORT :: u16 where [hub_defs]: "UDP_CFG_BCAST_PORT = 8601"

datatype dgram = Unicast "u32 \<times> u16" "u8 list" | Broadcast u16 "u8 list"

text \<open>An address is the 32-bit value of lwIP, first octet lowest.\<close>

definition same_subnet24 :: "u32 \<Rightarrow> 'w dev \<Rightarrow> bool" where
  "same_subnet24 a d \<longleftrightarrow>
     (let local = ucast (get_holding_reg (of_nat HOLDING_IP_OCTET1_IDX) d) OR
        push_bit 8 (ucast (get_holding_reg (of_nat (HOLDING_IP_OCTET1_IDX + 1)) d)) OR
        push_bit 16 (ucast (get_holding_reg (of_nat (HOLDING_IP_OCTET1_IDX + 2)) d))
      in a AND 0x00FFFFFF = local AND 0x00FFFFFF)"

text \<open>\<open>alloc\<close>: whether a buffer for the answer was available. A restart ends in \<open>Reset\<close>, with the answer already sent.\<close>

definition udp_cfg_recv :: "'w board \<Rightarrow> ('w \<Rightarrow> u32) \<Rightarrow> fw_version \<Rightarrow> bool \<Rightarrow> u32 \<times> u16 \<Rightarrow> u8 list \<Rightarrow> 'w udp_st
    \<Rightarrow> dgram list \<times> (unit, 'w udp_st) outcome" where
  "udp_cfg_recv B now V alloc src p s =
     (if p = [] then ([], Ret () s)
      else let cmd = p ! 0; same = same_subnet24 (fst src) (udev s) in
        if \<not> same \<and> \<not> udp_cmd_bcast_allowed cmd then ([], Ret () s)
        else let rx = take 1408 p in
          (case fw_udp_cmd rx src (fw_queue s) of
             (True, q) \<Rightarrow> ([], Ret () (s\<lparr>fw_queue := q\<rparr>))
           | (False, _) \<Rightarrow>
               (case udp_app_cmd B now V (rx ! 0) (drop 1 rx) 64 s of
                  (None, s) \<Rightarrow> ([], Ret () s)
                | (Some rep, s) \<Rightarrow>
                    if \<not> alloc then ([], Ret () s)
                    else ([if same then Unicast src rep else Broadcast UDP_CFG_BCAST_PORT rep],
                      if udp_cfg_reboot_pending s then Reset (in_dev (dev_history_sync B) s) else Ret () s))))"

section \<open>Who may do what\<close>

lemma fw_udp_cmd_GET_IP: "p \<noteq> [] \<Longrightarrow> p ! 0 = UDP_CMD_GET_IP \<Longrightarrow> fw_udp_cmd (take 1408 p) src q = (False, q)"
  by (simp add: fw_udp_cmd_def hub_defs Let_def)


lemma sim_dev_local: "same_subnet24 a sim_dev \<longleftrightarrow> a AND 0x00FFFFFF = 0x0CA8C0"
  by (simp add: same_subnet24_def sim_dev_def holding_reg_init_def get_holding_reg_def hub_defs)

definition sim_udp :: "sim udp_st" where
  "sim_udp = \<lparr>udev = sim_dev, fw_queue = [], factory_reset_pending_ms = 0, factory_reset_confirmed = False,
     factory_reset_reboot_pending = False, reboot_reboot_pending = False\<rparr>"

definition sim_version :: fw_version where
  "sim_version = \<lparr>v_major = 1, v_minor = 2, v_patch = 3, v_git = [0x61, 0x62, 0x63, 0x64, 0x65, 0x66]\<rparr>"


section \<open>Factory reset\<close>

text \<open>
  Factory reset takes two commands within five seconds: a command that comes more than five
  seconds after the last one is refused, changes nothing and only starts the clock; a second one within five
  seconds erases the stored configuration, is answered with success and requests the restart, and a
  restart then finds the default configuration.
\<close>

theorem udp_factory_reset_two_steps:
  assumes "reliable_nor_flash (nor B) mem" "\<not> factory_reset_confirmed s"
    and "now (world (udev s)) - factory_reset_pending_ms s > 5000"
    and "cfg_inv (store d) (mem (world d))" "now (world d) - now (world (udev s)) \<le> 5000"
  shows "\<exists>s1. udp_app_cmd B now V UDP_CMD_FACTORY_RESET dat 64 s = (Some [UDP_CMD_FACTORY_RESET, 0], s1)
    \<and> s1 = s\<lparr>factory_reset_pending_ms := now (world (udev s))\<rparr>
    \<and> (\<exists>s2 st w. udp_app_cmd B now V UDP_CMD_FACTORY_RESET dat 64 (s1\<lparr>udev := d\<rparr>) = (Some [UDP_CMD_FACTORY_RESET, 1], s2)
        \<and> udp_cfg_reboot_pending s2 \<and> config_store_init (nor B) (world (udev s2)) = (True, st, w)
        \<and> config_store_get st = config_store_get_defaults)"
proof -
  let ?s1 = "s\<lparr>factory_reset_pending_ms := now (world (udev s))\<rparr>"
  have cmd: "udp_app_cmd B now V UDP_CMD_FACTORY_RESET dat 64 x = udp_factory_reset B now 64 UDP_CMD_FACTORY_RESET x" for x
    by (simp add: udp_app_cmd_def hub_defs)
  have one: "udp_app_cmd B now V UDP_CMD_FACTORY_RESET dat 64 s = (Some [UDP_CMD_FACTORY_RESET, 0], ?s1)"
    unfolding cmd using assms(2,3) by (simp add: udp_factory_reset_def reply_ok_def Let_def)
  let ?s2 = "(in_dev (erase_store B) (?s1\<lparr>udev := d\<rparr>))\<lparr>factory_reset_confirmed := False, factory_reset_reboot_pending := True\<rparr>"
  have two: "udp_app_cmd B now V UDP_CMD_FACTORY_RESET dat 64 (?s1\<lparr>udev := d\<rparr>) = (Some [UDP_CMD_FACTORY_RESET, 1], ?s2)"
    unfolding cmd using assms(5) by (simp add: udp_factory_reset_def reply_ok_def Let_def leD)
  obtain st' w' where e: "config_store_erase_all (nor B) (store d) (world d) = (st', w')" by fastforce
  have F: "nor_flash (nor B) mem" by (rule reliable_nor_flash.axioms(1) [OF assms(1)])
  have er: "fst (fl_erase (nor B) CFG_SLOT_A 0x8000 w)" "fst (fl_erase (nor B) CFG_SLOT_B 0x8000 w)" for w
    by (rule reliable_nor_flash.erase_ok [OF assms(1)]; simp add: NOR_SECTOR_def CHIP_SIZE_def)+
  have inv: "cfg_inv st' (mem w')" "cur st' = config_store_get_defaults"
    using nor_flash.erase_all_inv [OF F assms(4) e er] by auto
  obtain st w where i: "config_store_init (nor B) w' = (True, st, w)"
    using reliable_nor_flash.init_ok [OF assms(1), of w'] by (metis prod.collapse)
  have "config_store_get st = config_store_get_defaults"
    using nor_flash.init_restores [OF F inv(1) i] inv by (simp add: config_store_get_def)
  moreover have "world (udev ?s2) = w'" by (simp add: in_dev_def erase_store_def e)
  ultimately show ?thesis using one two i by (auto simp: udp_cfg_reboot_pending_def)
qed

theorem udp_factory_reset_two_steps_witness:
  "\<exists>s1. udp_app_cmd sim_board (\<lambda>_. 9000) sim_version UDP_CMD_FACTORY_RESET [] 64 sim_udp = (Some [UDP_CMD_FACTORY_RESET, 0], s1)
    \<and> (\<exists>s2 st w. udp_app_cmd sim_board (\<lambda>_. 9000) sim_version UDP_CMD_FACTORY_RESET [] 64 (s1\<lparr>udev := sim_dev\<rparr>)
          = (Some [UDP_CMD_FACTORY_RESET, 1], s2)
        \<and> udp_cfg_reboot_pending s2 \<and> config_store_init (nor sim_board) (world (udev s2)) = (True, st, w)
        \<and> config_store_get st = config_store_get_defaults)"
proof -
  have a: "\<not> factory_reset_confirmed sim_udp" "(9000 :: u32) - factory_reset_pending_ms sim_udp > 5000" by (simp_all add: sim_udp_def)
  have "(9000 :: u32) - 9000 \<le> 5000" by simp
  from udp_factory_reset_two_steps [where now = "\<lambda>_. 9000" and V = sim_version and dat = "[]", OF sim_nor_reliable a sim_dev_cfg this]
  show ?thesis by blast
qed

section \<open>Changing the address\<close>

text \<open>An address from its octets, as lwIP stores it.\<close>

definition ip4 :: "u8 \<Rightarrow> u8 \<Rightarrow> u8 \<Rightarrow> u8 \<Rightarrow> u32" where
  "ip4 a b c d = io_get_le32 [a, b, c, d]"

lemma octets_of_sum:
  fixes x :: u32 and a b c :: u8
  assumes "x AND 0x00FFFFFF = (ucast (ucast a :: u16) OR push_bit 8 (ucast (ucast b :: u16)) OR push_bit 16 (ucast (ucast c :: u16))) AND 0x00FFFFFF"
  shows "ucast x = a \<and> ucast (drop_bit 8 x) = b \<and> ucast (drop_bit 16 x) = c"
proof -
  have m: "(0x00FFFFFF :: u32) = mask 24" by (simp add: mask_eq_exp_minus_1)
  have hi: "\<not> bit y n" if "8 \<le> n" for y :: u8 and n using that bit_imp_le_length [of y n] by auto
  note eq = arg_cong [OF assms [unfolded m], of "\<lambda>y. bit y n" for n]
  have "bit x n = bit a n" if "n < 8" for n using eq [of n] that by (simp add: bit_simps)
  moreover have "bit x (8 + n) = bit b n" if "n < 8" for n using eq [of "8 + n"] that by (simp add: bit_simps hi)
  moreover have "bit x (16 + n) = bit c n" if "n < 8" for n using eq [of "16 + n"] that by (simp add: bit_simps hi)
  ultimately show ?thesis by (intro conjI bit_word_eqI) (simp_all add: bit_simps)
qed

lemma octets_of_ip4: "ucast (ip4 a b c d) = a" "ucast (drop_bit 8 (ip4 a b c d)) = b" "ucast (drop_bit 16 (ip4 a b c d)) = c"
proof -
  have hi: "\<not> bit y n" if "8 \<le> n" for y :: u8 and n using that bit_imp_le_length [of y n] by auto
  show "ucast (ip4 a b c d) = a" "ucast (drop_bit 8 (ip4 a b c d)) = b" "ucast (drop_bit 16 (ip4 a b c d)) = c"
    by (rule bit_word_eqI; simp add: ip4_def io_get_le32_def bit_simps hi)+
qed

lemma set_reg_simps:
  "wf_dev d \<Longrightarrow> i < 18 \<Longrightarrow> wf_dev (set_reg i v d)"
  "wf_dev d \<Longrightarrow> i < 18 \<Longrightarrow> holding_reg (set_reg i v d) = (holding_reg d)[i := v]"
  by (simp_all add: set_reg_def update_holding_reg_def wf_dev_def hub_defs unat_of_nat)

lemma holding_reg_save_regs: "holding_reg (holding_reg_save B d) = holding_reg d"
  by (simp add: holding_reg_save_def split: prod.splits)

text \<open>
  A change of the address to another network locks its own sender out: the new octets take effect in
  the network check at once, although the device keeps its old address until it restarts. A host of the
  device's network that sends a valid \<open>SET_IP\<close> for another network gets the confirmation, but the
  \<open>REBOOT\<close> it then has to send is dropped without an answer.
\<close>

theorem udp_set_ip_locks_out_sender:
  assumes "wf_dev (udev s)" "\<not> udp_cfg_reboot_pending s" "same_subnet24 (ip4 o1 o2 o3 o4) (udev s)"
    and "ip_addr_valid a b c d" "(a, b, c) \<noteq> (o1, o2, o3)"
  shows "\<exists>s1. udp_cfg_recv B now V True (ip4 o1 o2 o3 o4, port) [UDP_CMD_SET_IP, a, b, c, d] s
      = ([Unicast (ip4 o1 o2 o3 o4, port) [UDP_CMD_SET_IP, 1]], Ret () s1)
    \<and> udp_cfg_recv B now V True (ip4 o1 o2 o3 o4, port) [UDP_CMD_REBOOT] s1 = ([], Ret () s1)"
proof -
  define d' where "d' = holding_reg_save B
    (set_reg (HOLDING_IP_OCTET1_IDX + 3) (ucast d) (set_reg (HOLDING_IP_OCTET1_IDX + 2) (ucast c)
      (set_reg (HOLDING_IP_OCTET1_IDX + 1) (ucast b) (set_reg HOLDING_IP_OCTET1_IDX (ucast a) (udev s)))))"
  have fw: "fw_udp_cmd [UDP_CMD_SET_IP, a, b, c, d] src q = (False, q)" for src q
    by (simp add: fw_udp_cmd_def hub_defs Let_def)
  have one: "udp_cfg_recv B now V True (ip4 o1 o2 o3 o4, port) [UDP_CMD_SET_IP, a, b, c, d] s
      = ([Unicast (ip4 o1 o2 o3 o4, port) [UDP_CMD_SET_IP, 1]], Ret () (s\<lparr>udev := d'\<rparr>))"
    using assms(2-4) by (simp add: udp_cfg_recv_def fw udp_app_cmd_def reply_ok_def in_dev_def d'_def udp_cfg_reboot_pending_def Let_def)
  have regs: "holding_reg d' = (holding_reg (udev s))[10 := ucast a, 11 := ucast b, 12 := ucast c, 13 := ucast d]"
    using assms(1) unfolding d'_def holding_reg_save_regs by (simp add: set_reg_simps HOLDING_IP_OCTET1_IDX_def)
  have len: "length (holding_reg (udev s)) = 18" using assms(1) by (simp add: wf_dev_def hub_defs)
  have "same_subnet24 x d' \<longleftrightarrow> x AND 0x00FFFFFF =
      (ucast (ucast a :: u16) OR push_bit 8 (ucast (ucast b :: u16)) OR push_bit 16 (ucast (ucast c :: u16))) AND 0x00FFFFFF" for x
    by (simp add: same_subnet24_def get_holding_reg_def regs len HOLDING_IP_OCTET1_IDX_def)
  then have "\<not> same_subnet24 (ip4 o1 o2 o3 o4) d'"
    using octets_of_sum [of "ip4 o1 o2 o3 o4" a b c] octets_of_ip4 [of o1 o2 o3 o4] assms(5) by metis
  then show ?thesis using one by (simp add: udp_cfg_recv_def udp_cmd_bcast_allowed_def hub_defs)
qed

theorem udp_set_ip_locks_out_sender_witness:
  "\<exists>s1. udp_cfg_recv sim_board (\<lambda>_. 0) sim_version True (ip4 192 168 12 50, 4000) [UDP_CMD_SET_IP, 10, 0, 0, 5] sim_udp
      = ([Unicast (ip4 192 168 12 50, 4000) [UDP_CMD_SET_IP, 1]], Ret () s1)
    \<and> udp_cfg_recv sim_board (\<lambda>_. 0) sim_version True (ip4 192 168 12 50, 4000) [UDP_CMD_REBOOT] s1 = ([], Ret () s1)"
  by (rule udp_set_ip_locks_out_sender)
    (simp_all add: sim_udp_def udp_cfg_reboot_pending_def sim_dev_local ip4_def io_get_le32_def ip_addr_valid_def)

end
