(* ===== verification/Intflash.thy ===== *)
theory Intflash
  imports Bytes_Crc Nor_Flash
begin

unbundle bit_operations_syntax

text \<open>
  \<open>src/storage/intflash.c\<close>: erasing and programming the flash of the microcontroller, which holds the boot
  loader (first 64 KiB) and the application (slot 0). The HAL is the parameter \<open>H\<close>; its calls return \<open>True\<close> for
  \<open>HAL_OK\<close>. Addresses are absolute. Feeding the watchdog has no effect on the flash and is left out.
\<close>

record 'w hal_flash =
  HAL_FLASH_Unlock :: "'w \<Rightarrow> bool \<times> 'w"
  HAL_FLASH_Lock :: "'w \<Rightarrow> bool \<times> 'w"
  HAL_FLASHEx_Erase :: "nat \<Rightarrow> 'w \<Rightarrow> bool \<times> 'w"
  program_word :: "u32 \<Rightarrow> u32 \<Rightarrow> 'w \<Rightarrow> bool \<times> 'w"
  program_byte :: "u32 \<Rightarrow> u8 \<Rightarrow> 'w \<Rightarrow> bool \<times> 'w"

text \<open>Address and size of the sectors 0 to 7.\<close>

definition f4_sector_tab :: "(u32 \<times> u32) list" where
  "f4_sector_tab = [(0x08000000, 0x4000), (0x08004000, 0x4000), (0x08008000, 0x4000), (0x0800C000, 0x4000),
     (0x08010000, 0x10000), (0x08020000, 0x20000), (0x08040000, 0x20000), (0x08060000, 0x20000)]"

fun erase_sectors :: "'w hal_flash \<Rightarrow> (nat \<times> u32 \<times> u32) list \<Rightarrow> u32 \<Rightarrow> u32 \<Rightarrow> 'w \<Rightarrow> bool \<times> 'w" where
  "erase_sectors H [] addr end_addr w = HAL_FLASH_Lock H w"
| "erase_sectors H ((i, s_addr, s_size) # secs) addr end_addr w =
     (if s_addr + s_size \<le> addr \<or> s_addr \<ge> end_addr then erase_sectors H secs addr end_addr w
      else (case HAL_FLASHEx_Erase H i w of
          (True, w) \<Rightarrow> erase_sectors H secs addr end_addr w
        | (False, w) \<Rightarrow> (False, snd (HAL_FLASH_Lock H w))))"

definition intflash_erase :: "'w hal_flash \<Rightarrow> u32 \<Rightarrow> u32 \<Rightarrow> 'w \<Rightarrow> bool \<times> 'w" where
  "intflash_erase H addr len w =
     (if len = 0 then (True, w)
      else let len = (len + 0xFFF) AND NOT 0xFFF; end_addr = addr + len in
        if addr < fst (f4_sector_tab ! 0) \<or> end_addr > 0x08080000 then (False, w)
        else (case HAL_FLASH_Unlock H w of
            (False, w) \<Rightarrow> (False, w)
          | (True, w) \<Rightarrow> erase_sectors H (enumerate 0 f4_sector_tab) addr end_addr w))"

text \<open>The loop of \<open>intflash_write\<close>: \<open>addr\<close> is the source's \<open>addr + off\<close>, \<open>buf\<close> what is left to write.\<close>

function write_loop :: "'w hal_flash \<Rightarrow> u32 \<Rightarrow> u8 list \<Rightarrow> 'w \<Rightarrow> bool \<times> 'w" where
  "write_loop H addr buf w =
     (if buf = [] then HAL_FLASH_Lock H w
      else let n = (if addr AND 3 = 0 \<and> length buf \<ge> 4 then 4 else 1) in
        case (if n = 4 then program_word H addr (io_get_le32 buf) w else program_byte H addr (buf ! 0) w) of
          (False, w) \<Rightarrow> (False, snd (HAL_FLASH_Lock H w))
        | (True, w) \<Rightarrow> write_loop H (addr + of_nat n) (drop n buf) w)"
  by pat_completeness auto
termination
  by (relation "measure (\<lambda>(H, addr, buf, w). length buf)") auto

declare write_loop.simps [simp del]

definition intflash_write :: "'w hal_flash \<Rightarrow> u32 \<Rightarrow> u8 list \<Rightarrow> 'w \<Rightarrow> bool \<times> 'w" where
  "intflash_write H addr buf w =
     (case HAL_FLASH_Unlock H w of (False, w) \<Rightarrow> (False, w) | (True, w) \<Rightarrow> write_loop H addr buf w)"

section \<open>The contract of the HAL\<close>

text \<open>
  What the reference manual promises: locking changes no cell, a sector erase touches only its sector and, if it
  succeeds, leaves \<open>0xFF\<close>; programming touches only the addressed cells and, if it succeeds on erased cells,
  stores the value, low byte first.
\<close>

locale int_flash =
  fixes H :: "'w hal_flash" and mem :: "'w \<Rightarrow> nat \<Rightarrow> u8"
  assumes unlock_mem: "HAL_FLASH_Unlock H w = (ok, w') \<Longrightarrow> mem w' = mem w"
    and lock_mem: "HAL_FLASH_Lock H w = (ok, w') \<Longrightarrow> mem w' = mem w"
    and erase_frame: "HAL_FLASHEx_Erase H i w = (ok, w') \<Longrightarrow> i < 8 \<Longrightarrow>
      a < unat (fst (f4_sector_tab ! i)) \<or> unat (fst (f4_sector_tab ! i)) + unat (snd (f4_sector_tab ! i)) \<le> a \<Longrightarrow> mem w' a = mem w a"
    and erase_data: "HAL_FLASHEx_Erase H i w = (True, w') \<Longrightarrow> i < 8 \<Longrightarrow> unat (fst (f4_sector_tab ! i)) \<le> a \<Longrightarrow>
      a < unat (fst (f4_sector_tab ! i)) + unat (snd (f4_sector_tab ! i)) \<Longrightarrow> mem w' a = 0xFF"
    and word_frame: "program_word H ad v w = (ok, w') \<Longrightarrow> a < unat ad \<or> unat ad + 4 \<le> a \<Longrightarrow> mem w' a = mem w a"
    and word_data: "program_word H ad v w = (True, w') \<Longrightarrow> mem_bytes (mem w) (unat ad) 4 = replicate 4 0xFF \<Longrightarrow>
      mem_bytes (mem w') (unat ad) 4 = io_put_le32 v"
    and byte_frame: "program_byte H ad b w = (ok, w') \<Longrightarrow> a \<noteq> unat ad \<Longrightarrow> mem w' a = mem w a"
    and byte_data: "program_byte H ad b w = (True, w') \<Longrightarrow> mem w (unat ad) = 0xFF \<Longrightarrow> mem w' (unat ad) = b"
begin

lemma erase_sectors_keeps:
  "erase_sectors H secs addr end_addr w = (ok, w') \<Longrightarrow> set secs \<subseteq> set (enumerate 0 f4_sector_tab) \<Longrightarrow>
    (\<And>i s n. (i, s, n) \<in> set secs \<Longrightarrow> a < unat s \<or> unat s + unat n \<le> a \<or> s + n \<le> addr \<or> s \<ge> end_addr) \<Longrightarrow> mem w' a = mem w a"
proof (induction secs arbitrary: w)
  case Nil
  then show ?case using lock_mem by simp
next
  case (Cons sec secs)
  obtain i s n where sec: "sec = (i, s, n)" by (cases sec) auto
  have i: "i < 8" "f4_sector_tab ! i = (s, n)"
    using Cons.prems(2) sec by (auto simp: in_set_enumerate_eq f4_sector_tab_def)
  show ?case
  proof (cases "s + n \<le> addr \<or> s \<ge> end_addr")
    case True
    then show ?thesis using Cons sec by auto
  next
    case False
    obtain ok1 w1 where e: "HAL_FLASHEx_Erase H i w = (ok1, w1)" by fastforce
    have "a < unat s \<or> unat s + unat n \<le> a" using Cons.prems(3) [of i s n] sec False by auto
    then have w1: "mem w1 a = mem w a" using erase_frame [OF e i(1)] i(2) by simp
    show ?thesis
    proof (cases ok1)
      case True
      then have "erase_sectors H secs addr end_addr w1 = (ok, w')" using Cons.prems(1) sec False e by simp
      from Cons.IH [OF this] show ?thesis using Cons.prems(2,3) w1 by auto
    next
      case F: False
      then show ?thesis using Cons.prems(1) sec False e w1 lock_mem [of w1] by (cases "HAL_FLASH_Lock H w1") auto
    qed
  qed
qed

lemma erase_sectors_erases:
  "erase_sectors H secs addr end_addr w = (True, w') \<Longrightarrow> set secs \<subseteq> set (enumerate 0 f4_sector_tab) \<Longrightarrow> distinct secs \<Longrightarrow>
    (i, s, n) \<in> set secs \<Longrightarrow> \<not> (s + n \<le> addr \<or> s \<ge> end_addr) \<Longrightarrow> unat s \<le> a \<Longrightarrow> a < unat s + unat n \<Longrightarrow>
    (\<And>j s' n'. (j, s', n') \<in> set (enumerate 0 f4_sector_tab) \<Longrightarrow> (j, s', n') \<noteq> (i, s, n) \<Longrightarrow> a < unat s' \<or> unat s' + unat n' \<le> a) \<Longrightarrow>
    mem w' a = 0xFF"
proof (induction secs arbitrary: w)
  case (Cons sec secs)
  obtain j s' n' where sec: "sec = (j, s', n')" by (cases sec) auto
  show ?case
  proof (cases "sec = (i, s, n)")
    case True
    have i: "i < 8" "f4_sector_tab ! i = (s, n)"
      using Cons.prems(2) True by (auto simp: in_set_enumerate_eq f4_sector_tab_def)
    obtain w1 where e: "HAL_FLASHEx_Erase H i w = (True, w1)" and rest: "erase_sectors H secs addr end_addr w1 = (True, w')"
      using Cons.prems(1,5) True by (auto split: prod.splits bool.splits if_splits)
    have "mem w1 a = 0xFF" using erase_data [OF e i(1)] i(2) Cons.prems(6,7) by simp
    moreover have "mem w' a = mem w1 a"
    proof (rule erase_sectors_keeps [OF rest])
      show "set secs \<subseteq> set (enumerate 0 f4_sector_tab)" using Cons.prems(2) by auto
      fix k t m assume "(k, t, m) \<in> set secs"
      then have "(k, t, m) \<in> set (enumerate 0 f4_sector_tab)" "(k, t, m) \<noteq> (i, s, n)" using Cons.prems(2,3) True by auto
      then show "a < unat t \<or> unat t + unat m \<le> a \<or> t + m \<le> addr \<or> end_addr \<le> t" using Cons.prems(8) by blast
    qed
    ultimately show ?thesis by simp
  next
    case False
    then have mem: "(i, s, n) \<in> set secs" using Cons.prems(4) by auto
    obtain w1 where "erase_sectors H secs addr end_addr w1 = (True, w')"
      using Cons.prems(1) sec by (auto split: prod.splits bool.splits if_splits)
    from Cons.IH [OF this] show ?thesis using Cons.prems mem by auto
  qed
qed simp

end

lemma f4_sectors:
  "enumerate 0 f4_sector_tab = [(0, 0x08000000, 0x4000), (1, 0x08004000, 0x4000), (2, 0x08008000, 0x4000), (3, 0x0800C000, 0x4000),
     (4, 0x08010000, 0x10000), (5, 0x08020000, 0x20000), (6, 0x08040000, 0x20000), (7, 0x08060000, 0x20000)]"
  by (simp add: f4_sector_tab_def)

lemma slot0_sector:
  fixes a :: nat
  assumes "0x08010000 \<le> a" "a < 0x08080000"
  obtains i s n where "(i, s, n) \<in> set (enumerate 0 f4_sector_tab)" "unat s \<le> a" "a < unat s + unat n" "0x08010000 \<le> unat s"
    "\<And>j s' n'. (j, s', n') \<in> set (enumerate 0 f4_sector_tab) \<Longrightarrow> (j, s', n') \<noteq> (i, s, n) \<Longrightarrow> a < unat s' \<or> unat s' + unat n' \<le> a"
proof -
  consider "a < 0x08020000" | "0x08020000 \<le> a" "a < 0x08040000" | "0x08040000 \<le> a" "a < 0x08060000" | "0x08060000 \<le> a"
    by linarith
  then show thesis
  proof cases
    case 1 show thesis by (rule that [of 4 "0x08010000" "0x10000"]) (use 1 assms in \<open>auto simp: f4_sectors\<close>)
  next
    case 2 show thesis by (rule that [of 5 "0x08020000" "0x20000"]) (use 2 assms in \<open>auto simp: f4_sectors\<close>)
  next
    case 3 show thesis by (rule that [of 6 "0x08040000" "0x20000"]) (use 3 assms in \<open>auto simp: f4_sectors\<close>)
  next
    case 4 show thesis by (rule that [of 7 "0x08060000" "0x20000"]) (use 4 assms in \<open>auto simp: f4_sectors\<close>)
  qed
qed

lemma put_get_le32_take:
  assumes "4 \<le> length buf"
  shows "io_put_le32 (io_get_le32 buf) = take 4 buf"
proof -
  obtain a b c d r where buf: "buf = a # b # c # d # r" using assms by (auto simp: numeral_eq_Suc Suc_le_length_iff)
  have hi: "\<not> bit y n" if "8 \<le> n" for y :: u8 and n using that bit_imp_le_length [of y n] by auto
  have "ucast (io_get_le32 buf) = a" "ucast (drop_bit 8 (io_get_le32 buf)) = b" "ucast (drop_bit 16 (io_get_le32 buf)) = c"
    "ucast (drop_bit 24 (io_get_le32 buf)) = d"
    by (rule bit_word_eqI; simp add: buf io_get_le32_def bit_simps hi)+
  then show ?thesis by (simp add: io_put_le32_def buf)
qed

text \<open>Rounding up to 4 KiB.\<close>

lemma round_up_4k:
  assumes "unat (len :: u32) \<le> 0x70000"
  shows "unat ((len + 0xFFF) AND NOT 0xFFF) = (unat len + 0xFFF) div 0x1000 * 0x1000"
proof -
  have "(x :: u32) AND NOT (mask 12) = push_bit 12 (drop_bit 12 x)" for x
    by (rule bit_word_eqI) (auto simp: bit_simps not_less le_iff_add)
  then have "(x :: u32) AND NOT 0xFFF = push_bit 12 (drop_bit 12 x)" for x by (simp add: mask_eq_exp_minus_1)
  moreover have "unat (len + 0xFFF) = unat len + 0xFFF" using assms by (simp add: unat_word_ariths)
  moreover have "(unat len + 0xFFF) div 0x1000 * 0x1000 < 2 ^ 32" using assms by simp
  ultimately show ?thesis by (simp add: push_bit_eq_mult unat_word_ariths unat_drop_bit_eq drop_bit_eq_div)
qed

context int_flash
begin

lemma erase_slot0:
  assumes "intflash_erase H 0x08010000 len w = (ok, w')" "unat len \<le> 0x70000"
  shows "\<And>a. a < 0x08010000 \<or> 0x08080000 \<le> a \<Longrightarrow> mem w' a = mem w a"
    and "ok \<Longrightarrow> 0x08010000 \<le> a \<Longrightarrow> a < 0x08010000 + unat len \<Longrightarrow> mem w' a = 0xFF"
proof -
  let ?len = "(len + 0xFFF) AND NOT 0xFFF"
  let ?fin = "0x08010000 + ?len"
  have lm: "(unat len + 0xFFF) div 0x1000 * 0x1000 \<le> 0x70000"
  proof -
    have "(unat len + 0xFFF) div 0x1000 \<le> 0x70FFF div 0x1000" by (rule div_le_mono) (use assms(2) in simp)
    then show ?thesis by simp
  qed
  have ge: "unat len \<le> (unat len + 0xFFF) div 0x1000 * 0x1000" by linarith
  have e: "unat ?fin = 0x08010000 + (unat len + 0xFFF) div 0x1000 * 0x1000"
    using lm by (simp add: unat_word_ariths round_up_4k [OF assms(2), simplified])
  have ne: "\<not> ?fin > 0x08080000" using lm e by (simp add: word_less_nat_alt)
  show fr: "mem w' a = mem w a" if a: "a < 0x08010000 \<or> 0x08080000 \<le> a" for a
  proof (cases "len = 0")
    case False
    obtain ok1 w1 where u: "HAL_FLASH_Unlock H w = (ok1, w1)" by fastforce
    show ?thesis
    proof (cases ok1)
      case True
      then have er: "erase_sectors H (enumerate 0 f4_sector_tab) 0x08010000 ?fin w1 = (ok, w')"
        using assms(1) False ne u by (simp add: intflash_erase_def Let_def f4_sector_tab_def)
      have "mem w' a = mem w1 a"
        by (rule erase_sectors_keeps [OF er subset_refl]) (use a in \<open>auto simp: f4_sectors word_le_nat_alt\<close>)
      then show ?thesis using unlock_mem [OF u] by simp
    qed (use assms(1) False ne u unlock_mem [OF u] in \<open>simp add: intflash_erase_def Let_def f4_sector_tab_def\<close>)
  qed (use assms(1) in \<open>simp add: intflash_erase_def\<close>)
  show "mem w' a = 0xFF" if "ok" "0x08010000 \<le> a" "a < 0x08010000 + unat len"
  proof -
    have nz: "len \<noteq> 0" using that(2,3) by auto
    note lo = that(2)
    obtain ok1 w1 where u: "HAL_FLASH_Unlock H w = (ok1, w1)" by fastforce
    have er: "erase_sectors H (enumerate 0 f4_sector_tab) 0x08010000 ?fin w1 = (True, w')"
      using assms(1) that(1) nz ne u by (cases ok1) (simp_all add: intflash_erase_def Let_def f4_sector_tab_def)
    have "a < 0x08080000" using that(3) assms(2) by simp
    then obtain i s n where sec: "(i, s, n) \<in> set (enumerate 0 f4_sector_tab)" "unat s \<le> a" "a < unat s + unat n" "0x08010000 \<le> unat s"
      "\<And>j s' n'. (j, s', n') \<in> set (enumerate 0 f4_sector_tab) \<Longrightarrow> (j, s', n') \<noteq> (i, s, n) \<Longrightarrow> a < unat s' \<or> unat s' + unat n' \<le> a"
      using slot0_sector [OF lo] by metis
    have sn: "unat (s + n) = unat s + unat n" "0 < unat n" using sec(1) by (auto simp: f4_sectors)
    have "\<not> (s + n \<le> 0x08010000 \<or> s \<ge> ?fin)"
      using sec(2,4) that(3) ge sn unfolding word_le_nat_alt e by auto
    from erase_sectors_erases [OF er subset_refl _ sec(1) this sec(2,3)] sec(5) show ?thesis by (simp add: f4_sectors)
  qed
qed

lemma write_loop_writes:
  "write_loop H ad buf w = (ok, w') \<Longrightarrow> unat ad + length buf < 2 ^ 32 \<Longrightarrow>
    (\<forall>a. a < unat ad \<or> unat ad + length buf \<le> a \<longrightarrow> mem w' a = mem w a) \<and>
    (ok \<longrightarrow> mem_bytes (mem w) (unat ad) (length buf) = replicate (length buf) 0xFF \<longrightarrow> mem_bytes (mem w') (unat ad) (length buf) = buf)"
proof (induction "length buf" arbitrary: ad buf w rule: less_induct)
  case less
  show ?case
  proof (cases "buf = []")
    case True
    then show ?thesis using less.prems lock_mem [of w ok w'] by (simp add: write_loop.simps [of H ad] mem_bytes_def)
  next
    case False
    define n :: nat where "n = (if ad AND 3 = 0 \<and> length buf \<ge> 4 then 4 else 1)"
    obtain ok1 w1 where p: "(if n = 4 then program_word H ad (io_get_le32 buf) w else program_byte H ad (buf ! 0) w) = (ok1, w1)" by fastforce
    have n: "0 < n" "n \<le> length buf" using False by (auto simp: n_def Suc_le_eq)
    have fr: "a < unat ad \<or> unat ad + n \<le> a \<Longrightarrow> mem w1 a = mem w a" for a
      using p word_frame [of ad "io_get_le32 buf" w ok1 w1 a] byte_frame [of ad "buf ! 0" w ok1 w1 a] by (auto simp: n_def split: if_splits)
    have dat: "mem_bytes (mem w1) (unat ad) n = take n buf" if "ok1" "mem_bytes (mem w) (unat ad) n = replicate n 0xFF"
    proof (cases "n = 4")
      case True
      then show ?thesis using p word_data [of ad "io_get_le32 buf" w w1] that put_get_le32_take [of buf] n by simp
    next
      case F: False
      then have "n = 1" by (simp add: n_def split: if_splits)
      then show ?thesis using p F byte_data [of ad "buf ! 0" w w1] that False
        by (auto simp: mem_bytes_def take_Suc_conv_app_nth hd_conv_nth intro: nth_equalityI)
    qed
    show ?thesis
    proof (cases ok1)
      case False
      obtain l w2 where "HAL_FLASH_Lock H w1 = (l, w2)" by fastforce
      then show ?thesis
        using less.prems(1) p False \<open>buf \<noteq> []\<close> fr n lock_mem [of w1 l w2] by (subst (asm) write_loop.simps) (simp add: n_def Let_def)
    next
      case True
      have rest: "write_loop H (ad + of_nat n) (drop n buf) w1 = (ok, w')"
        using less.prems(1) p True \<open>buf \<noteq> []\<close> by (subst (asm) write_loop.simps) (simp add: n_def Let_def)
      have u: "unat (ad + of_nat n) = unat ad + n" using less.prems(2) n by (simp add: unat_word_ariths unat_of_nat)
      have len: "length buf = n + length (drop n buf)" using n by simp
      have b: "length (drop n buf) < length buf" "unat (ad + of_nat n) + length (drop n buf) < 2 ^ 32" using n u less.prems(2) by auto
      note IH = less.hyps [OF b(1) rest b(2), unfolded u]
      have "mem_bytes (mem w') (unat ad) (length buf) = buf"
        if "ok" "mem_bytes (mem w) (unat ad) (length buf) = replicate (length buf) 0xFF"
      proof -
        have er: "mem_bytes (mem w) (unat ad) n = replicate n 0xFF" "mem_bytes (mem w) (unat ad + n) (length (drop n buf)) = replicate (length (drop n buf)) 0xFF"
          using that(2) len mem_bytes_replicate [of "mem w" "unat ad" n "length (drop n buf)"] by metis+
        have "mem_bytes (mem w1) (unat ad + n) (length (drop n buf)) = mem_bytes (mem w) (unat ad + n) (length (drop n buf))"
          by (rule mem_bytes_cong) (simp add: fr)
        then have "mem_bytes (mem w') (unat ad + n) (length (drop n buf)) = drop n buf" using IH that(1) er(2) by simp
        moreover have "mem_bytes (mem w') (unat ad) n = mem_bytes (mem w1) (unat ad) n" by (rule mem_bytes_cong) (simp add: IH)
        ultimately show ?thesis using dat [OF True er(1)] len mem_bytes_add [of "mem w'" "unat ad" n "length (drop n buf)"]
          by (metis append_take_drop_id)
      qed
      then show ?thesis using IH fr n by auto
    qed
  qed
qed

lemma intflash_write_writes:
  assumes "intflash_write H ad buf w = (ok, w')" "unat ad + length buf < 2 ^ 32"
  shows "\<And>a. a < unat ad \<or> unat ad + length buf \<le> a \<Longrightarrow> mem w' a = mem w a"
    and "ok \<Longrightarrow> mem_bytes (mem w) (unat ad) (length buf) = replicate (length buf) 0xFF \<Longrightarrow> mem_bytes (mem w') (unat ad) (length buf) = buf"
proof -
  obtain ok1 w1 where u: "HAL_FLASH_Unlock H w = (ok1, w1)" by fastforce
  have "(\<forall>a. a < unat ad \<or> unat ad + length buf \<le> a \<longrightarrow> mem w' a = mem w a) \<and>
    (ok \<longrightarrow> mem_bytes (mem w) (unat ad) (length buf) = replicate (length buf) 0xFF \<longrightarrow> mem_bytes (mem w') (unat ad) (length buf) = buf)"
    using assms(1) u unlock_mem [OF u] write_loop_writes [OF _ assms(2), of w1 ok w'] by (cases ok1) (simp_all add: intflash_write_def)
  then show "\<And>a. a < unat ad \<or> unat ad + length buf \<le> a \<Longrightarrow> mem w' a = mem w a"
    "ok \<Longrightarrow> mem_bytes (mem w) (unat ad) (length buf) = replicate (length buf) 0xFF \<Longrightarrow> mem_bytes (mem w') (unat ad) (length buf) = buf"
    by auto
qed

end

section \<open>The interface to the boot loader\<close>

text \<open>
  What a client that rewrites slot 0 relies on: erasing and writing change nothing below the slot, a
  successful erase leaves \<open>0xFF\<close>, and a successful write to erased cells stores the bytes.
\<close>

locale app_slot =
  fixes er :: "u32 \<Rightarrow> 'w \<Rightarrow> bool \<times> 'w" and wr :: "u32 \<Rightarrow> u8 list \<Rightarrow> 'w \<Rightarrow> bool \<times> 'w" and mem :: "'w \<Rightarrow> nat \<Rightarrow> u8"
  assumes er_frame: "er len w = (ok, w') \<Longrightarrow> unat len \<le> 0x70000 \<Longrightarrow> a < 0x08010000 \<Longrightarrow> mem w' a = mem w a"
    and er_data: "er len w = (True, w') \<Longrightarrow> unat len \<le> 0x70000 \<Longrightarrow> 0x08010000 \<le> a \<Longrightarrow> a < 0x08010000 + unat len \<Longrightarrow> mem w' a = 0xFF"
    and wr_frame: "wr ad buf w = (ok, w') \<Longrightarrow> unat ad + length buf \<le> 0x08080000 \<Longrightarrow> a < unat ad \<or> unat ad + length buf \<le> a \<Longrightarrow> mem w' a = mem w a"
    and wr_data: "wr ad buf w = (True, w') \<Longrightarrow> unat ad + length buf \<le> 0x08080000 \<Longrightarrow>
      mem_bytes (mem w) (unat ad) (length buf) = replicate (length buf) 0xFF \<Longrightarrow> mem_bytes (mem w') (unat ad) (length buf) = buf"

sublocale int_flash \<subseteq> slot0: app_slot "intflash_erase H 0x08010000" "intflash_write H" mem
proof unfold_locales
  fix len w ok w' a assume "intflash_erase H 0x08010000 len w = (ok, w')" "unat len \<le> 0x70000" "a < (0x08010000 :: nat)"
  then show "mem w' a = mem w a" using erase_slot0(1) by blast
next
  fix len w w' a assume "intflash_erase H 0x08010000 len w = (True, w')" "unat len \<le> 0x70000" "(0x08010000 :: nat) \<le> a" "a < 0x08010000 + unat len"
  then show "mem w' a = 0xFF" using erase_slot0(2) by blast
next
  fix ad buf w ok w' a assume w: "intflash_write H ad buf w = (ok, w')" "unat ad + length buf \<le> 0x08080000" "a < unat ad \<or> unat ad + length buf \<le> a"
  then show "mem w' a = mem w a" using intflash_write_writes(1) [OF w(1)] by simp
next
  fix ad buf w w' assume w: "intflash_write H ad buf w = (True, w')" "unat ad + length buf \<le> 0x08080000"
    "mem_bytes (mem w) (unat ad) (length buf) = replicate (length buf) 0xFF"
  then show "mem_bytes (mem w') (unat ad) (length buf) = buf" using intflash_write_writes(2) [OF w(1)] by simp
qed

section \<open>A simulated flash array\<close>

text \<open>The cells as a function; programming combines bits as the hardware does.\<close>

definition cell_program :: "nat \<Rightarrow> u8 list \<Rightarrow> (nat \<Rightarrow> u8) \<Rightarrow> nat \<Rightarrow> u8" where
  "cell_program ad bs m = (\<lambda>a. if ad \<le> a \<and> a < ad + length bs then m a AND bs ! (a - ad) else m a)"

definition sim_hal :: "(nat \<Rightarrow> u8) hal_flash" where
  "sim_hal = \<lparr>HAL_FLASH_Unlock = \<lambda>m. (True, m), HAL_FLASH_Lock = \<lambda>m. (True, m),
     HAL_FLASHEx_Erase = \<lambda>i m. (True, \<lambda>a. if unat (fst (f4_sector_tab ! i)) \<le> a \<and>
       a < unat (fst (f4_sector_tab ! i)) + unat (snd (f4_sector_tab ! i)) then 0xFF else m a),
     program_word = \<lambda>ad v m. (True, cell_program (unat ad) (io_put_le32 v) m),
     program_byte = \<lambda>ad b m. (True, cell_program (unat ad) [b] m)\<rparr>"

lemma cell_program_erased:
  assumes "mem_bytes m ad (length bs) = replicate (length bs) 0xFF"
  shows "mem_bytes (cell_program ad bs m) ad (length bs) = bs"
proof (rule mem_bytes_eqI)
  fix i assume i: "i < length bs"
  then have "m (ad + i) = 0xFF" using assms by (metis nth_mem_bytes nth_replicate)
  moreover have "(0xFF :: u8) = - 1" by simp
  ultimately show "cell_program ad bs m (ad + i) = bs ! i" using i by (simp add: cell_program_def)
qed simp

interpretation sim_hal: int_flash sim_hal "\<lambda>m. m"
proof unfold_locales
  fix ad v and w w' :: "nat \<Rightarrow> u8" assume "program_word sim_hal ad v w = (True, w')" "mem_bytes w (unat ad) 4 = replicate 4 0xFF"
  then show "mem_bytes w' (unat ad) 4 = io_put_le32 v"
    using cell_program_erased [of w "unat ad" "io_put_le32 v"] by (auto simp: sim_hal_def)
next
  fix ad b and w w' :: "nat \<Rightarrow> u8" assume "program_byte sim_hal ad b w = (True, w')" "w (unat ad) = 0xFF"
  moreover have "(0xFF :: u8) = - 1" by simp
  ultimately show "w' (unat ad) = b" by (auto simp: sim_hal_def cell_program_def)
qed (auto simp: sim_hal_def cell_program_def)

section \<open>A flash as one part of a larger world\<close>

definition act_in :: "('v \<Rightarrow> 'w) \<Rightarrow> ('w \<Rightarrow> 'v \<Rightarrow> 'v) \<Rightarrow> ('w \<Rightarrow> bool \<times> 'w) \<Rightarrow> 'v \<Rightarrow> bool \<times> 'v" where
  "act_in get put f v = (fst (f (get v)), put (snd (f (get v))) v)"

definition hal_in :: "('v \<Rightarrow> 'w) \<Rightarrow> ('w \<Rightarrow> 'v \<Rightarrow> 'v) \<Rightarrow> 'w hal_flash \<Rightarrow> 'v hal_flash" where
  "hal_in get put H = \<lparr>HAL_FLASH_Unlock = act_in get put (HAL_FLASH_Unlock H), HAL_FLASH_Lock = act_in get put (HAL_FLASH_Lock H),
     HAL_FLASHEx_Erase = \<lambda>i. act_in get put (HAL_FLASHEx_Erase H i), program_word = \<lambda>ad v. act_in get put (program_word H ad v),
     program_byte = \<lambda>ad b. act_in get put (program_byte H ad b)\<rparr>"

lemma hal_in_sel [simp]:
  "HAL_FLASH_Unlock (hal_in get put H) = act_in get put (HAL_FLASH_Unlock H)"
  "HAL_FLASH_Lock (hal_in get put H) = act_in get put (HAL_FLASH_Lock H)"
  "HAL_FLASHEx_Erase (hal_in get put H) i = act_in get put (HAL_FLASHEx_Erase H i)"
  "program_word (hal_in get put H) ad v = act_in get put (program_word H ad v)"
  "program_byte (hal_in get put H) ad b = act_in get put (program_byte H ad b)"
  by (simp_all add: hal_in_def)

lemma int_flash_in:
  assumes "int_flash H mem" "\<And>m v. get (put m v) = m"
  shows "int_flash (hal_in get put H) (\<lambda>v. mem (get v))"
proof -
  have f: "f (get v) = (ok, get v')" if "act_in get put f v = (ok, v')" for f v ok v'
    using that assms(2) by (auto simp: act_in_def prod_eq_iff)
  note H = assms(1)
  show ?thesis
    by unfold_locales (simp_all only: hal_in_sel,
      (blast dest!: f intro: int_flash.unlock_mem [OF H] int_flash.lock_mem [OF H] int_flash.erase_frame [OF H] int_flash.erase_data [OF H]
        int_flash.word_frame [OF H] int_flash.word_data [OF H] int_flash.byte_frame [OF H] int_flash.byte_data [OF H])+)
qed

end
