(* ===== verification/Boot_Can.thy ===== *)
theory Boot_Can
  imports Intflash Fw_Upg
begin

unbundle bit_operations_syntax

text \<open>
  \<open>src/boot/boot_can.c\<close>: the rescue upgrade of the boot loader. After a reset the loader looks for a host on the
  CAN bus for half a second; if one answers, it can write a new application to slot 0 of the internal flash.
  The CAN controller is the register interface \<open>C\<close> (reading and writing a register are actions on the world \<open>'w\<close>,
  on which the flash HAL \<open>H\<close> acts too), the key hash of the build is \<open>K\<close> and its version is \<open>V\<close>. Log lines and
  feeding the watchdog are left out. The three loops without a bound are partial functions: \<open>None\<close> stands for a
  loop that does not end.
\<close>

definition CAN_ID_CMD :: u32 where [hub_defs]: "CAN_ID_CMD = 0x101"
definition CAN_ID_REPLY :: u32 where [hub_defs]: "CAN_ID_REPLY = 0x102"
definition CAN_ID_DATA :: u32 where [hub_defs]: "CAN_ID_DATA = 0x103"
definition CAN_ID_KEYHASH :: u32 where [hub_defs]: "CAN_ID_KEYHASH = 0x104"
definition CAN_ID_VERSION :: u32 where [hub_defs]: "CAN_ID_VERSION = 0x105"
definition CAN_ID_PROBE :: u32 where [hub_defs]: "CAN_ID_PROBE = 0x106"
definition CAN_ID_ACK :: u32 where [hub_defs]: "CAN_ID_ACK = 0x107"
definition CAN_ID_TRACE :: u32 where [hub_defs]: "CAN_ID_TRACE = 0x108"

definition FW_CMD_START :: u32 where [hub_defs]: "FW_CMD_START = 0"
definition FW_CMD_CONFIRM :: u32 where [hub_defs]: "FW_CMD_CONFIRM = 1"
definition FW_CMD_VERSION :: u32 where [hub_defs]: "FW_CMD_VERSION = 2"
definition FW_CMD_REBOOT :: u32 where [hub_defs]: "FW_CMD_REBOOT = 3"

definition FW_CODE_OFFSET :: u32 where [hub_defs]: "FW_CODE_OFFSET = 0"
definition FW_CODE_UPDATE_SUCCESS :: u32 where [hub_defs]: "FW_CODE_UPDATE_SUCCESS = 1"
definition FW_CODE_VERSION :: u32 where [hub_defs]: "FW_CODE_VERSION = 2"
definition FW_CODE_CONFIRM :: u32 where [hub_defs]: "FW_CODE_CONFIRM = 3"
definition FW_CODE_FLASH_ERROR :: u32 where [hub_defs]: "FW_CODE_FLASH_ERROR = 4"
definition FW_CODE_TRANSFER_ERROR :: u32 where [hub_defs]: "FW_CODE_TRANSFER_ERROR = 5"
definition FW_CODE_KEYHASH_ERROR :: u32 where [hub_defs]: "FW_CODE_KEYHASH_ERROR = 6"

definition FW_CONFIRM_MAGIC :: u32 where [hub_defs]: "FW_CONFIRM_MAGIC = 0x55AA55AA"
definition PROBE_MAGIC :: u32 where [hub_defs]: "PROBE_MAGIC = 0x42544F31"

definition TRACE_HOOK_ENTER :: u8 where [hub_defs]: "TRACE_HOOK_ENTER = 2"
definition TRACE_HOST_ACK :: u8 where [hub_defs]: "TRACE_HOST_ACK = 3"
definition TRACE_CONFIRMED :: u8 where [hub_defs]: "TRACE_CONFIRMED = 4"
definition TRACE_PROCEED :: u8 where [hub_defs]: "TRACE_PROCEED = 5"
definition TRACE_FW_START :: u8 where [hub_defs]: "TRACE_FW_START = 6"

definition KEYHASH_CHUNK :: u8 where [hub_defs]: "KEYHASH_CHUNK = 7"
definition KEYHASH_CHUNKS :: u8 where [hub_defs]: "KEYHASH_CHUNKS = 5"
definition KEYHASH_FULL_MASK :: u8 where [hub_defs]: "KEYHASH_FULL_MASK = 0x1F"
definition PROBE_TIMEOUT_MS :: u32 where [hub_defs]: "PROBE_TIMEOUT_MS = 500"
definition PROBE_INTERVAL_MS :: u32 where [hub_defs]: "PROBE_INTERVAL_MS = 200"
definition IDLE_TIMEOUT_MS :: u32 where [hub_defs]: "IDLE_TIMEOUT_MS = 15000"
definition ACK_INTERVAL :: u32 where [hub_defs]: "ACK_INTERVAL = 512"
definition SLOT0_ADDR :: u32 where [hub_defs]: "SLOT0_ADDR = 0x08010000"
definition SLOT0_SIZE :: u32 where [hub_defs]: "SLOT0_SIZE = 0x70000"

record boot_s =
  active :: bool
  total_len :: u32
  written :: u32
  confirmed :: bool
  installed :: bool
  last_activity :: u32
  keybuf :: "u8 list"
  key_mask :: u8

definition boot_s_zero :: boot_s where
  "boot_s_zero = \<lparr>active = False, total_len = 0, written = 0, confirmed = False, installed = False,
     last_activity = 0, keybuf = replicate 32 0, key_mask = 0\<rparr>"

section \<open>The controller\<close>

text \<open>The registers the driver uses; the number selects a transmit mailbox.\<close>

datatype can_reg = MCR | MSR | BTR | TSR | RF0R | FMR | FM1R | FS1R | FFA1R | FA1R | FR1 | FR2
  | TIR nat | TDTR nat | TDLR nat | TDHR nat | RIR | RDTR | RDLR | RDHR

text \<open>\<open>can_pins\<close>: the clocks and the pins PA11 and PA12.\<close>

record 'w can_hw =
  reg_rd :: "can_reg \<Rightarrow> 'w \<Rightarrow> u32 \<times> 'w"
  reg_wr :: "can_reg \<Rightarrow> u32 \<Rightarrow> 'w \<Rightarrow> 'w"
  can_pins :: "'w \<Rightarrow> 'w"
  HAL_GetTick :: "'w \<Rightarrow> u32 \<times> 'w"

definition reg_or :: "'w can_hw \<Rightarrow> can_reg \<Rightarrow> u32 \<Rightarrow> 'w \<Rightarrow> 'w" where
  "reg_or C r m w = (case reg_rd C r w of (v, w) \<Rightarrow> reg_wr C r (v OR m) w)"

definition reg_and :: "'w can_hw \<Rightarrow> can_reg \<Rightarrow> u32 \<Rightarrow> 'w \<Rightarrow> 'w" where
  "reg_and C r m w = (case reg_rd C r w of (v, w) \<Rightarrow> reg_wr C r (v AND m) w)"

text \<open>Read a register until it satisfies a condition, at most \<open>t\<close> times.\<close>

fun poll_reg :: "'w can_hw \<Rightarrow> can_reg \<Rightarrow> (u32 \<Rightarrow> bool) \<Rightarrow> nat \<Rightarrow> 'w \<Rightarrow> bool \<times> 'w" where
  "poll_reg C r ready t w =
     (if t = 0 then (False, w)
      else (case reg_rd C r w of (v, w) \<Rightarrow> if ready v then (True, w) else poll_reg C r ready (t - 1) w))"

declare poll_reg.simps [simp del]

definition can_filter :: "'w can_hw \<Rightarrow> 'w \<Rightarrow> 'w" where
  "can_filter C w =
     (let w = reg_or C FMR 1 w; w = reg_wr C FR1 0 w; w = reg_wr C FR2 0 w; w = reg_and C FM1R (NOT 1) w;
          w = reg_or C FS1R 1 w; w = reg_and C FFA1R (NOT 1) w; w = reg_or C FA1R 1 w
      in reg_and C FMR (NOT 1) w)"

definition can_init :: "'w can_hw \<Rightarrow> 'w \<Rightarrow> bool \<times> 'w" where
  "can_init C w =
     (let w = reg_or C MCR 1 (can_pins C w) in
      case poll_reg C MSR (\<lambda>v. v AND 1 \<noteq> 0) 1000 w of
        (False, w) \<Rightarrow> (False, w)
      | (True, w) \<Rightarrow>
          let w = reg_wr C MCR (1 OR 0x10 OR 0x40) w;
              w = reg_wr C BTR (push_bit 24 0 OR push_bit 16 5 OR push_bit 20 0 OR (21 - 1)) w;
              w = can_filter C w;
              w = reg_and C MCR (NOT 1) w
          in (True, snd (poll_reg C MSR (\<lambda>v. v AND 1 = 0) 1000 w)))"

definition can_leave :: "'w can_hw \<Rightarrow> 'w \<Rightarrow> 'w" where
  "can_leave C w = reg_or C MCR 2 (reg_or C MCR 1 w)"

text \<open>The data words of a mailbox.\<close>

fun pack_words :: "nat \<Rightarrow> u8 list \<Rightarrow> u32 \<Rightarrow> u32 \<Rightarrow> u32 \<times> u32" where
  "pack_words i [] dl dh = (dl, dh)"
| "pack_words i (b # bs) dl dh =
     (if i < 4 then pack_words (i + 1) bs (dl OR push_bit (8 * i) (ucast b)) dh
      else pack_words (i + 1) bs dl (dh OR push_bit (8 * (i - 4)) (ucast b)))"

definition tir_value :: "u32 \<Rightarrow> u32" where
  "tir_value cid = push_bit 21 (cid AND 0x7FF) OR 1"

definition send_box :: "'w can_hw \<Rightarrow> nat \<Rightarrow> u32 \<Rightarrow> u8 list \<Rightarrow> 'w \<Rightarrow> 'w" where
  "send_box C box cid dat w =
     (case pack_words 0 dat 0 0 of (dl, dh) \<Rightarrow>
        let w = reg_wr C (TDLR box) dl w; w = reg_wr C (TDHR box) dh w; w = reg_wr C (TDTR box) (of_nat (length dat)) w;
            w = reg_wr C (TIR box) (tir_value cid) w;
            rqcp = push_bit (box * 8) 1
        in case poll_reg C TSR (\<lambda>v. v AND rqcp \<noteq> 0) 100000 w of
             (True, w) \<Rightarrow> reg_wr C TSR rqcp w
           | (False, w) \<Rightarrow> w)"

definition can_send :: "'w can_hw \<Rightarrow> u32 \<Rightarrow> u8 list \<Rightarrow> 'w \<Rightarrow> 'w" where
  "can_send C cid dat w =
     (if length dat > 8 then w
      else case reg_rd C TSR w of (v, w) \<Rightarrow> if v AND push_bit 26 1 \<noteq> 0 then send_box C 0 cid dat w
      else case reg_rd C TSR w of (v, w) \<Rightarrow> if v AND push_bit 27 1 \<noteq> 0 then send_box C 1 cid dat w
      else case reg_rd C TSR w of (v, w) \<Rightarrow> if v AND push_bit 28 1 \<noteq> 0 then send_box C 2 cid dat w
      else w)"

text \<open>
  What the driver makes of the registers of a received frame. The caller's identifier and data buffer are passed
  through: an extended frame leaves them alone, a short frame overwrites only the bytes it has.
\<close>

type_synonym rx_buf = "u32 \<times> u8 list"

definition can_decode :: "u32 \<Rightarrow> u32 \<Rightarrow> u32 \<Rightarrow> u32 \<Rightarrow> rx_buf \<Rightarrow> u8 \<times> rx_buf" where
  "can_decode rir rdtr dl dh buf =
     (if rir AND 4 \<noteq> 0 then (0xFF, buf)
      else let len = (ucast (rdtr AND 0xF) :: u8); len = (if len > 8 then 8 else len) in
        (len, drop_bit 21 (rir AND 0xFFE00000),
         map (\<lambda>i. ucast (drop_bit (8 * (i mod 4)) (if i < 4 then dl else dh))) [0..<unat len] @ drop (unat len) (snd buf)))"

definition can_recv :: "'w can_hw \<Rightarrow> rx_buf \<Rightarrow> 'w \<Rightarrow> u8 \<times> rx_buf \<times> 'w" where
  "can_recv C buf w =
     (case reg_rd C RF0R w of (v, w) \<Rightarrow>
      if v AND 3 = 0 then (0, buf, w)
      else case reg_rd C RIR w of (rir, w) \<Rightarrow> case reg_rd C RDTR w of (rdtr, w) \<Rightarrow>
        case reg_rd C RDLR w of (dl, w) \<Rightarrow> case reg_rd C RDHR w of (dh, w) \<Rightarrow>
        let w = reg_or C RF0R 0x20 w in
        case can_decode rir rdtr dl dh buf of (dlc, buf) \<Rightarrow> (dlc, buf, w))"

section \<open>Answers\<close>

record fw_ver =
  FW_VERSION_MAJOR :: u32
  FW_VERSION_MINOR :: u32
  FW_VERSION_PATCH :: u32
  FW_GIT_VERSION :: "u8 list"

definition fw_reply :: "'w can_hw \<Rightarrow> u32 \<Rightarrow> u32 \<Rightarrow> 'w \<Rightarrow> 'w" where
  "fw_reply C code arg w = can_send C CAN_ID_REPLY (io_put_le32 code @ io_put_le32 arg) w"

definition send_probe :: "'w can_hw \<Rightarrow> fw_ver \<Rightarrow> 'w \<Rightarrow> 'w" where
  "send_probe C V w = can_send C CAN_ID_PROBE
     (io_put_le32 PROBE_MAGIC @ [ucast (FW_VERSION_MAJOR V), ucast (FW_VERSION_MINOR V), ucast (FW_VERSION_PATCH V), 0]) w"

definition send_trace :: "'w can_hw \<Rightarrow> u8 \<Rightarrow> 'w \<Rightarrow> 'w" where
  "send_trace C phase w = can_send C CAN_ID_TRACE [phase] w"

fun send_version_string :: "'w can_hw \<Rightarrow> u8 list \<Rightarrow> u8 \<Rightarrow> 'w \<Rightarrow> 'w" where
  "send_version_string C ver seq w =
     (if ver = [] then w
      else send_version_string C (drop 7 ver) (seq + 1)
        (can_send C CAN_ID_VERSION (seq # take 7 ver @ replicate (7 - length (take 7 ver)) 0) w))"

declare send_version_string.simps [simp del]

definition put_u8 :: "u32 \<Rightarrow> u8 list" where
  "put_u8 v = (if v \<ge> 100 then [ucast (48 + v div 100)] else []) @
     (if v \<ge> 10 then [ucast (48 + (v div 10) mod 10)] else []) @ [ucast (48 + v mod 10)]"

text \<open>The letters are \<open>v\<close>, \<open>.\<close> and \<open>_\<close>.\<close>

definition build_version :: "fw_ver \<Rightarrow> nat \<Rightarrow> u8 list" where
  "build_version V mx =
     (let pre = [118] @ put_u8 (FW_VERSION_MAJOR V) @ [46] @ put_u8 (FW_VERSION_MINOR V) @ [46] @ put_u8 (FW_VERSION_PATCH V) @ [95]
      in pre @ take (mx - 1 - length pre) (FW_GIT_VERSION V))"

section \<open>Frames\<close>

definition handle_keyhash :: "u8 list \<Rightarrow> u8 \<Rightarrow> boot_s \<Rightarrow> boot_s" where
  "handle_keyhash dat dlc s =
     (let seq = dat ! 0; rem = 32 - seq * KEYHASH_CHUNK; chunk = (if rem < KEYHASH_CHUNK then rem else KEYHASH_CHUNK) in
      if seq \<ge> KEYHASH_CHUNKS \<or> unat dlc < 1 + unat chunk then s
      else let off = unat seq * unat KEYHASH_CHUNK in
        s\<lparr>keybuf := take off (keybuf s) @ take (unat chunk) (drop 1 dat) @ drop (off + unat chunk) (keybuf s),
          key_mask := key_mask s OR push_bit (unat seq) 1\<rparr>)"

text \<open>Read and drop frames until the controller has none.\<close>

partial_function (option) drain_fifo :: "'w can_hw \<Rightarrow> rx_buf \<Rightarrow> 'w \<Rightarrow> (rx_buf \<times> 'w) option" where
  "drain_fifo C buf w = (case can_recv C buf w of (dlc, buf, w) \<Rightarrow> if dlc \<noteq> 0 then drain_fifo C buf w else Some (buf, w))"

definition cmd_start :: "'w hal_flash \<Rightarrow> 'w can_hw \<Rightarrow> u8 list \<Rightarrow> u32 \<Rightarrow> boot_s \<Rightarrow> 'w \<Rightarrow> boot_s \<times> 'w" where
  "cmd_start H C K arg s w =
     (let w = send_trace C TRACE_FW_START w;
          full = (key_mask s AND KEYHASH_FULL_MASK = KEYHASH_FULL_MASK);
          s = (if full then s\<lparr>key_mask := 0\<rparr> else s)
      in if full \<and> keybuf s \<noteq> K then (s, fw_reply C FW_CODE_KEYHASH_ERROR 0 w)
         else if arg < 64 \<or> arg > SLOT0_SIZE then (s, fw_reply C FW_CODE_FLASH_ERROR 0 w)
         else case intflash_erase H SLOT0_ADDR ((arg + 0xFFF) AND NOT 0xFFF) w of
            (False, w) \<Rightarrow> (s, fw_reply C FW_CODE_FLASH_ERROR 0 w)
          | (True, w) \<Rightarrow> (s\<lparr>active := True, total_len := arg, written := 0\<rparr>, fw_reply C FW_CODE_OFFSET 0 w))"

text \<open>The frames dropped by a confirmation go to a buffer of their own that nothing reads.\<close>

definition cmd_confirm :: "'w can_hw \<Rightarrow> boot_s \<Rightarrow> 'w \<Rightarrow> (boot_s \<times> 'w) option" where
  "cmd_confirm C s w =
     (if \<not> active s then Some (s, fw_reply C FW_CODE_TRANSFER_ERROR 0 w)
      else (case drain_fifo C (0, replicate 8 0) w of
          None \<Rightarrow> None
        | Some (_, w) \<Rightarrow>
            let s = s\<lparr>active := False\<rparr> in
            if written s \<noteq> total_len s then Some (s, fw_reply C FW_CODE_TRANSFER_ERROR 0 w)
            else Some (s\<lparr>installed := True, confirmed := True\<rparr>, fw_reply C FW_CODE_CONFIRM FW_CONFIRM_MAGIC w)))"

definition handle_cmd :: "'w hal_flash \<Rightarrow> 'w can_hw \<Rightarrow> u8 list \<Rightarrow> fw_ver \<Rightarrow> u8 list \<Rightarrow> u8 \<Rightarrow> boot_s \<Rightarrow> 'w \<Rightarrow> (boot_s \<times> 'w) option" where
  "handle_cmd H C K V dat dlc s w =
     (let cmd = io_get_le32 dat; arg = io_get_le32 (drop 4 dat) in
      if dlc \<noteq> 8 then Some (s, fw_reply C FW_CODE_FLASH_ERROR 0 w)
      else if cmd = FW_CMD_START then Some (cmd_start H C K arg s w)
      else if cmd = FW_CMD_CONFIRM then cmd_confirm C s w
      else if cmd = FW_CMD_VERSION then
        let ver = build_version V 24
        in Some (s, send_version_string C ver 0 (fw_reply C FW_CODE_VERSION (of_nat (length ver)) w))
      else if cmd = FW_CMD_REBOOT then Some (s\<lparr>confirmed := True\<rparr>, w)
      else Some (s, w))"

definition handle_data :: "'w hal_flash \<Rightarrow> 'w can_hw \<Rightarrow> u8 list \<Rightarrow> u8 \<Rightarrow> boot_s \<Rightarrow> 'w \<Rightarrow> boot_s \<times> 'w" where
  "handle_data H C dat dlc s w =
     (if \<not> active s then (s, fw_reply C FW_CODE_TRANSFER_ERROR 0 w)
      else if dlc = 0 \<or> written s + ucast dlc > total_len s then (s\<lparr>active := False\<rparr>, fw_reply C FW_CODE_TRANSFER_ERROR 0 w)
      else (case intflash_write H (SLOT0_ADDR + written s) (take (unat dlc) dat) w of
          (False, w) \<Rightarrow> (s\<lparr>active := False\<rparr>, fw_reply C FW_CODE_FLASH_ERROR 0 w)
        | (True, w) \<Rightarrow>
            let s = s\<lparr>written := written s + ucast dlc\<rparr> in
            (s, if written s = total_len s then fw_reply C FW_CODE_UPDATE_SUCCESS (total_len s) w
                else if written s mod ACK_INTERVAL = 0 then fw_reply C FW_CODE_OFFSET (written s) w else w)))"

definition handle_frame :: "'w hal_flash \<Rightarrow> 'w can_hw \<Rightarrow> u8 list \<Rightarrow> fw_ver \<Rightarrow> u32 \<Rightarrow> u8 list \<Rightarrow> u8 \<Rightarrow> boot_s \<Rightarrow> 'w
    \<Rightarrow> (bool \<times> boot_s \<times> 'w) option" where
  "handle_frame H C K V cid dat dlc s w =
     (if dlc = 0xFF then Some (True, s, w)
      else if cid = CAN_ID_CMD then
        (if dlc \<ge> 4 then map_option (\<lambda>(s, w). (True, s, w)) (handle_cmd H C K V dat dlc s w) else Some (True, s, w))
      else if cid = CAN_ID_DATA then (case handle_data H C dat dlc s w of (s, w) \<Rightarrow> Some (True, s, w))
      else if cid = CAN_ID_KEYHASH then Some (True, if dlc \<ge> 1 then handle_keyhash dat dlc s else s, w)
      else Some (False, s, w))"

section \<open>Waiting\<close>

definition now_ms :: "'w can_hw \<Rightarrow> 'w \<Rightarrow> u32 \<times> 'w" where
  "now_ms C w = HAL_GetTick C w"

text \<open>The probe window; the result tells whether a host answered.\<close>

partial_function (option) probe_loop :: "'w can_hw \<Rightarrow> fw_ver \<Rightarrow> bool \<Rightarrow> u32 \<Rightarrow> u32 \<Rightarrow> rx_buf \<Rightarrow> 'w \<Rightarrow> (bool \<times> rx_buf \<times> 'w) option" where
  "probe_loop C V forever deadline next_probe buf w =
     (case now_ms C w of (now, w) \<Rightarrow>
      if \<not> forever \<and> sint (now - deadline) \<ge> 0 then Some (False, buf, w)
      else case (if sint (now - next_probe) \<ge> 0 then (now + PROBE_INTERVAL_MS, send_probe C V w) else (next_probe, w)) of (next_probe, w) \<Rightarrow>
        case can_recv C buf w of (dlc, buf, w) \<Rightarrow>
          if dlc \<noteq> 0 \<and> fst buf = CAN_ID_ACK then Some (True, buf, w) else probe_loop C V forever deadline next_probe buf w)"

text \<open>One received frame in a session.\<close>

definition serve_frame :: "'w hal_flash \<Rightarrow> 'w can_hw \<Rightarrow> u8 list \<Rightarrow> fw_ver \<Rightarrow> u8 \<Rightarrow> rx_buf \<Rightarrow> boot_s \<Rightarrow> 'w \<Rightarrow> (boot_s \<times> 'w) option" where
  "serve_frame H C K V dlc buf s w =
     (if dlc = 0 then Some (s, w)
      else case handle_frame H C K V (fst buf) (snd buf) dlc s w of
        None \<Rightarrow> None
      | Some (ours, s, w) \<Rightarrow>
          if ours \<or> fst buf = CAN_ID_ACK then (case now_ms C w of (now, w) \<Rightarrow> Some (s\<lparr>last_activity := now\<rparr>, w)) else Some (s, w))"

partial_function (option) serve_loop :: "'w hal_flash \<Rightarrow> 'w can_hw \<Rightarrow> u8 list \<Rightarrow> fw_ver \<Rightarrow> rx_buf \<Rightarrow> boot_s \<Rightarrow> 'w \<Rightarrow> (boot_s \<times> 'w) option" where
  "serve_loop H C K V buf s w =
     (if confirmed s then Some (s, w)
      else case now_ms C w of (now, w) \<Rightarrow>
        case can_recv C buf w of (dlc, buf, w) \<Rightarrow>
        case serve_frame H C K V dlc buf s w of
          None \<Rightarrow> None
        | Some (s, w) \<Rightarrow>
            if sint (now - last_activity s) \<ge> sint IDLE_TIMEOUT_MS then Some (s, w) else serve_loop H C K V buf s w)"

text \<open>\<open>buf\<close> is what the two locals \<open>id\<close> and \<open>data\<close> hold before they are written.\<close>

definition boot_can_wait :: "'w hal_flash \<Rightarrow> 'w can_hw \<Rightarrow> u8 list \<Rightarrow> fw_ver \<Rightarrow> bool \<Rightarrow> rx_buf \<Rightarrow> 'w \<Rightarrow> (boot_s \<times> 'w) option" where
  "boot_can_wait H C K V forever buf w =
     (let s = boot_s_zero in
      case can_init C w of
        (False, w) \<Rightarrow> Some (s, w)
      | (True, w) \<Rightarrow>
          let w = send_trace C TRACE_HOOK_ENTER w in
          case now_ms C w of (now, w) \<Rightarrow>
          case probe_loop C V forever (now + PROBE_TIMEOUT_MS) 0 buf w of
            None \<Rightarrow> None
          | Some (False, buf, w) \<Rightarrow> Some (s, can_leave C (send_trace C TRACE_PROCEED w))
          | Some (True, buf, w) \<Rightarrow>
              (case drain_fifo C buf (send_trace C TRACE_HOST_ACK w) of
                None \<Rightarrow> None
              | Some (buf, w) \<Rightarrow>
                  case now_ms C w of (now, w) \<Rightarrow>
                  case serve_loop H C K V buf (s\<lparr>last_activity := now\<rparr>) w of
                    None \<Rightarrow> None
                  | Some (s, w) \<Rightarrow>
                      let w = (if confirmed s then send_trace C TRACE_CONFIRMED w else w)
                      in Some (s, can_leave C (send_trace C TRACE_PROCEED w))))"

definition boot_rescue_done :: "boot_s \<Rightarrow> bool" where
  "boot_rescue_done s = installed s"

section \<open>The boot area\<close>

text \<open>
  A session that is open stays inside slot 0, and a rescue is done only when the announced size was written;
  \<open>slot0_only\<close>: no other cell of the flash has changed.
\<close>

definition session_fits :: "boot_s \<Rightarrow> bool" where
  "session_fits s \<longleftrightarrow>
     (active s \<longrightarrow> 64 \<le> total_len s \<and> total_len s \<le> SLOT0_SIZE \<and> written s \<le> total_len s) \<and>
     (installed s \<longrightarrow> confirmed s \<and> 64 \<le> total_len s \<and> total_len s \<le> SLOT0_SIZE \<and> written s = total_len s)"

definition slot0_only :: "(nat \<Rightarrow> u8) \<Rightarrow> (nat \<Rightarrow> u8) \<Rightarrow> bool" where
  "slot0_only m m' \<longleftrightarrow> (\<forall>a. a < 0x08010000 \<or> 0x08080000 \<le> a \<longrightarrow> m' a = m a)"

lemma slot0_only_refl [simp]: "slot0_only m m"
  by (simp add: slot0_only_def)

lemma slot0_only_trans: "slot0_only m m' \<Longrightarrow> slot0_only m' m'' \<Longrightarrow> slot0_only m m''"
  by (simp add: slot0_only_def)

text \<open>The frames the driver delivers: eight bytes of buffer, and a length of at most eight or the mark of an extended frame.\<close>

definition wf_rx :: "u8 \<Rightarrow> rx_buf \<Rightarrow> bool" where
  "wf_rx dlc buf \<longleftrightarrow> length (snd buf) = 8 \<and> (dlc \<le> 8 \<or> dlc = 0xFF)"

lemma can_decode_wf:
  assumes "can_decode rir rdtr dl dh buf = (dlc, buf')" "length (snd buf) = 8"
  shows "wf_rx dlc buf'"
proof (cases "rir AND 4 = 0")
  case True
  define len :: u8 where "len = (if (ucast (rdtr AND 0xF) :: u8) > 8 then 8 else ucast (rdtr AND 0xF))"
  have "len \<le> 8" unfolding len_def by (simp add: not_less)
  then show ?thesis
    using assms True by (auto simp: can_decode_def Let_def wf_rx_def word_le_nat_alt simp flip: len_def)
qed (use assms in \<open>simp add: can_decode_def wf_rx_def\<close>)

lemma can_recv_wf:
  assumes "can_recv C buf w = (dlc, buf', w')" "length (snd buf) = 8"
  shows "wf_rx dlc buf'"
proof -
  have "wf_rx 0 buf" using assms(2) by (simp add: wf_rx_def)
  then show ?thesis
    using assms by (auto simp: can_recv_def Let_def split: prod.splits if_splits dest: can_decode_wf)
qed

text \<open>The rounding of the start command.\<close>

lemma erase_len_fits:
  assumes "arg \<le> SLOT0_SIZE"
  shows "unat ((arg + 0xFFF) AND NOT 0xFFF) \<le> 0x70000" "unat arg \<le> unat ((arg + 0xFFF) AND NOT 0xFFF)"
proof -
  have a: "unat arg \<le> 0x70000" using assms by (simp add: SLOT0_SIZE_def word_le_nat_alt)
  have "(unat arg + 0xFFF) div 0x1000 \<le> 0x70FFF div 0x1000" by (rule div_le_mono) (use a in simp)
  then show "unat ((arg + 0xFFF) AND NOT 0xFFF) \<le> 0x70000" unfolding round_up_4k [OF a] by simp
  show "unat arg \<le> unat ((arg + 0xFFF) AND NOT 0xFFF)" unfolding round_up_4k [OF a] by linarith
qed

lemma session_next:
  assumes "session_fits s" "active s" "dlc \<le> 8" "\<not> written s + ucast dlc > total_len s"
  shows "unat (written s + ucast (dlc :: u8)) = unat (written s) + unat dlc" "unat (written s) + unat dlc \<le> unat (total_len s)"
    "unat (total_len s) \<le> 0x70000" "unat (SLOT0_ADDR + written s) = 0x08010000 + unat (written s)"
proof -
  have t: "unat (total_len s) \<le> 0x70000" "unat (written s) \<le> unat (total_len s)"
    using assms(1,2) by (simp_all add: session_fits_def SLOT0_SIZE_def word_le_nat_alt)
  have d: "unat dlc \<le> 8" using assms(3) by (simp add: word_le_nat_alt)
  then show n: "unat (written s + ucast dlc) = unat (written s) + unat dlc" using t by (simp add: unat_word_ariths)
  show "unat (written s) + unat dlc \<le> unat (total_len s)" using assms(4) n by (simp add: word_less_nat_alt)
  show "unat (total_len s) \<le> 0x70000" by (rule t)
  show "unat (SLOT0_ADDR + written s) = 0x08010000 + unat (written s)" using t by (simp add: SLOT0_ADDR_def unat_word_ariths)
qed

text \<open>The controller and the clock are no flash: using them changes no cell.\<close>

locale boot_hw = int_flash H mem for H :: "'w hal_flash" and mem :: "'w \<Rightarrow> nat \<Rightarrow> u8" +
  fixes C :: "'w can_hw"
  assumes rd_mem: "reg_rd C r w = (v, w') \<Longrightarrow> mem w' = mem w"
    and wr_mem [simp]: "mem (reg_wr C r v w) = mem w"
    and pins_mem [simp]: "mem (can_pins C w) = mem w"
    and tick_mem: "HAL_GetTick C w = (t, w') \<Longrightarrow> mem w' = mem w"
begin

lemma snd_mem [simp]: "mem (snd (reg_rd C r w)) = mem w" "mem (snd (HAL_GetTick C w)) = mem w"
  using rd_mem [of r w] tick_mem [of w] by (metis prod.collapse)+

lemma reg_or_mem [simp]: "mem (reg_or C r m w) = mem w" and reg_and_mem [simp]: "mem (reg_and C r m w) = mem w"
  by (simp_all add: reg_or_def reg_and_def case_prod_beta)

lemma poll_mem [simp]: "mem (snd (poll_reg C r ready t w)) = mem w"
proof (induction t arbitrary: w)
  case 0
  then show ?case by (simp add: poll_reg.simps)
next
  case (Suc t)
  then show ?case by (subst poll_reg.simps) (simp add: case_prod_beta)
qed

lemma can_init_mem [simp]: "mem (snd (can_init C w)) = mem w"
proof -
  have "mem w' = mem w" if "poll_reg C MSR (\<lambda>v. v AND 1 \<noteq> 0) 1000 (reg_or C MCR 1 (can_pins C w)) = (ok, w')" for ok w'
    using poll_mem [of MSR "\<lambda>v. v AND 1 \<noteq> 0" 1000 "reg_or C MCR 1 (can_pins C w)"] unfolding that by simp
  then show ?thesis by (auto simp: can_init_def can_filter_def Let_def split: prod.splits bool.splits)
qed

lemma can_leave_mem [simp]: "mem (can_leave C w) = mem w"
  by (simp add: can_leave_def)

lemma send_box_mem [simp]: "mem (send_box C box cid dat w) = mem w"
proof -
  have "poll_reg C TSR p 100000 w1 = (ok, w') \<Longrightarrow> mem w' = mem w1" for p w1 ok w' using poll_mem by (metis snd_conv)
  then show ?thesis by (fastforce simp: send_box_def Let_def split: prod.splits bool.splits)
qed

lemma can_send_mem [simp]: "mem (can_send C cid dat w) = mem w"
  by (simp add: can_send_def case_prod_beta)

lemma answers_mem [simp]:
  "mem (fw_reply C code arg w) = mem w" "mem (send_probe C V w) = mem w" "mem (send_trace C phase w) = mem w"
  by (simp_all add: fw_reply_def send_probe_def send_trace_def)

lemma send_version_string_mem [simp]: "mem (send_version_string C ver seq w) = mem w"
proof (induction "length ver" arbitrary: ver seq w rule: less_induct)
  case less
  then show ?case by (subst send_version_string.simps) simp
qed

lemma can_recv_mem: "can_recv C buf w = (dlc, buf', w') \<Longrightarrow> mem w' = mem w"
  by (auto simp: can_recv_def Let_def split: prod.splits if_splits dest!: rd_mem)

lemma drain_fifo_mem:
  assumes "drain_fifo C buf w = Some (buf', w')"
  shows "mem w' = mem w \<and> (length (snd buf) = 8 \<longrightarrow> length (snd buf') = 8)"
proof -
  let ?P = "\<lambda>D b v r. D = C \<longrightarrow> mem (snd r) = mem v \<and> (length (snd b) = 8 \<longrightarrow> length (snd (fst r)) = 8)"
  have "?P C buf w (buf', w')"
    using assms
  proof (rule drain_fifo.raw_induct [where P = ?P, rotated])
    fix f :: "'w can_hw \<Rightarrow> rx_buf \<Rightarrow> 'w \<Rightarrow> (rx_buf \<times> 'w) option" and D b v r
    assume IH: "\<And>D b v r. f D b v = Some r \<Longrightarrow> ?P D b v r"
      and step: "(case can_recv D b v of (dlc, buf, w) \<Rightarrow> if dlc \<noteq> 0 then f D buf w else Some (buf, w)) = Some r"
    obtain dlc b' w1 where rcv: "can_recv D b v = (dlc, b', w1)" using prod_cases3 by blast
    show "?P D b v r"
      using step [unfolded rcv prod.case] rcv can_recv_mem [of b v dlc b' w1] can_recv_wf [OF rcv] IH [of D b' w1 r] by (auto simp: wf_rx_def split: if_splits)
  qed
  then show ?thesis by simp
qed

lemma probe_loop_mem:
  assumes "probe_loop C V forever deadline next_probe buf w = Some r"
  shows "mem (snd (snd r)) = mem w \<and> (length (snd buf) = 8 \<longrightarrow> length (snd (fst (snd r))) = 8)"
proof -
  let ?P = "\<lambda>D _ _ _ _ b v r. D = C \<longrightarrow> mem (snd (snd r)) = mem v \<and> (length (snd b) = 8 \<longrightarrow> length (snd (fst (snd r))) = 8)"
  have "?P C V forever deadline next_probe buf w r"
    using assms
  proof (rule probe_loop.raw_induct [where P = ?P, rotated])
    fix f :: "'w can_hw \<Rightarrow> fw_ver \<Rightarrow> bool \<Rightarrow> u32 \<Rightarrow> u32 \<Rightarrow> rx_buf \<Rightarrow> 'w \<Rightarrow> (bool \<times> rx_buf \<times> 'w) option" and D V fo dl np b v r
    assume IH: "\<And>D V fo dl np b v r. f D V fo dl np b v = Some r \<Longrightarrow> ?P D V fo dl np b v r"
      and step: "(case now_ms D v of (now, w) \<Rightarrow>
        if \<not> fo \<and> sint (now - dl) \<ge> 0 then Some (False, b, w)
        else case (if sint (now - np) \<ge> 0 then (now + PROBE_INTERVAL_MS, send_probe D V w) else (np, w)) of (next_probe, w) \<Rightarrow>
          case can_recv D b w of (dlc, buf, w) \<Rightarrow>
            if dlc \<noteq> 0 \<and> fst buf = CAN_ID_ACK then Some (True, buf, w) else f D V fo dl next_probe buf w) = Some r"
    show "?P D V fo dl np b v r"
    proof
      assume D: "D = C"
      obtain now w1 where n: "now_ms C v = (now, w1)" by fastforce
      have m: "mem w1 = mem v" using n tick_mem by (simp add: now_ms_def)
      obtain np' w2 where p: "(if sint (now - np) \<ge> 0 then (now + PROBE_INTERVAL_MS, send_probe C V w1) else (np, w1)) = (np', w2)"
        by fastforce
      have m2: "mem w2 = mem v" using p m by (auto split: if_splits)
      obtain dlc b' w3 where rcv: "can_recv C b w2 = (dlc, b', w3)" using prod_cases3 by blast
      show "mem (snd (snd r)) = mem v \<and> (length (snd b) = 8 \<longrightarrow> length (snd (fst (snd r))) = 8)"
        using step [unfolded D n prod.case p rcv] m m2 can_recv_mem [OF rcv] can_recv_wf [OF rcv] IH [of C]
        by (auto simp: wf_rx_def split: if_splits)
    qed
  qed
  then show ?thesis by simp
qed

lemma cmd_start_slot0:
  assumes "cmd_start H C K arg s w = (s', w')" "session_fits s" "\<not> confirmed s"
  shows "session_fits s' \<and> slot0_only (mem w) (mem w')"
proof -
  obtain ok w1 where e: "intflash_erase H SLOT0_ADDR ((arg + 0xFFF) AND NOT 0xFFF) (send_trace C TRACE_FW_START w) = (ok, w1)" by fastforce
  have "slot0_only (mem w) (mem w1)" if "arg \<le> SLOT0_SIZE"
    using erase_slot0(1) [OF e [unfolded SLOT0_ADDR_def] erase_len_fits(1) [OF that]] by (simp add: slot0_only_def)
  then show ?thesis using assms e [simplified] by (auto simp: cmd_start_def Let_def session_fits_def not_less split: if_splits bool.splits)
qed

lemma handle_data_slot0:
  assumes "handle_data H C dat dlc s w = (s', w')" "session_fits s" "\<not> confirmed s" "dlc \<le> 8" "length dat = 8"
  shows "session_fits s' \<and> slot0_only (mem w) (mem w')"
proof (cases "active s \<and> \<not> (dlc = 0 \<or> written s + ucast dlc > total_len s)")
  case True
  then have a: "active s" "\<not> written s + ucast dlc > total_len s" by auto
  note n = session_next [OF assms(2) a(1) assms(4) a(2)]
  obtain ok w1 where wr: "intflash_write H (SLOT0_ADDR + written s) (take (unat dlc) dat) w = (ok, w1)" by fastforce
  have len: "length (take (unat dlc) dat) = unat dlc" using assms(4,5) by (simp add: word_le_nat_alt)
  have "slot0_only (mem w) (mem w1)"
    using intflash_write_writes(1) [OF wr] n len by (auto simp: slot0_only_def)
  then show ?thesis
    using assms(1,2,3) True wr n by (auto simp: handle_data_def Let_def session_fits_def word_le_nat_alt split: bool.splits if_splits)
next
  case False
  then show ?thesis using assms(1,2,3) by (auto simp: handle_data_def session_fits_def split: if_splits)
qed

lemma handle_keyhash_session [simp]:
  "active (handle_keyhash dat dlc s) = active s" "total_len (handle_keyhash dat dlc s) = total_len s"
  "written (handle_keyhash dat dlc s) = written s" "installed (handle_keyhash dat dlc s) = installed s"
  "confirmed (handle_keyhash dat dlc s) = confirmed s"
  by (simp_all add: handle_keyhash_def Let_def)

lemma cmd_confirm_slot0:
  assumes "cmd_confirm C s w = Some (s', w')" "session_fits s" "\<not> confirmed s"
  shows "session_fits s' \<and> mem w' = mem w"
proof (cases "drain_fifo C (0, replicate 8 0) w")
  case (Some r)
  then show ?thesis
    using assms drain_fifo_mem [of "(0, replicate 8 0)" w "fst r" "snd r"]
    by (auto simp: cmd_confirm_def session_fits_def Let_def split: if_splits prod.splits)
qed (use assms in \<open>auto simp: cmd_confirm_def split: if_splits\<close>)

lemma handle_frame_slot0:
  assumes "handle_frame H C K V cid dat dlc s w = Some (b, s', w')" "session_fits s" "\<not> confirmed s" "wf_rx dlc (cid, dat)"
  shows "session_fits s' \<and> slot0_only (mem w) (mem w')"
proof -
  have "session_fits (s\<lparr>confirmed := True\<rparr>)" "session_fits (handle_keyhash dat dlc s)" using assms(2,3) by (simp_all add: session_fits_def)
  moreover have "session_fits s' \<and> slot0_only (mem w) (mem w')" if "handle_cmd H C K V dat dlc s w = Some (s', w')" for s' w'
    using that assms(2,3) calculation(1) cmd_start_slot0 cmd_confirm_slot0
    by (auto simp: handle_cmd_def Let_def split: if_splits dest!: cmd_confirm_slot0)
  ultimately show ?thesis
    using assms handle_data_slot0 [of dat dlc s w] by (auto simp: handle_frame_def wf_rx_def split: if_splits prod.splits)
qed

lemma serve_frame_slot0:
  assumes "serve_frame H C K V dlc buf s w = Some (s', w')" "session_fits s" "\<not> confirmed s" "wf_rx dlc buf"
  shows "session_fits s' \<and> slot0_only (mem w) (mem w')"
proof (cases "dlc = 0")
  case False
  then obtain b s1 w1 where h: "handle_frame H C K V (fst buf) (snd buf) dlc s w = Some (b, s1, w1)"
    using assms(1) by (auto simp: serve_frame_def split: option.splits)
  have "session_fits s1 \<and> slot0_only (mem w) (mem w1)" using handle_frame_slot0 [OF h assms(2,3)] assms(4) by simp
  then show ?thesis
    using assms(1) False h tick_mem by (auto simp: serve_frame_def now_ms_def session_fits_def split: if_splits prod.splits)
qed (use assms in \<open>simp add: serve_frame_def\<close>)

lemma serve_loop_slot0:
  assumes "serve_loop H C K V buf s w = Some (s', w')" "session_fits s" "length (snd buf) = 8"
  shows "session_fits s' \<and> slot0_only (mem w) (mem w')"
proof -
  let ?P = "\<lambda>G D _ _ b s v r. G = H \<and> D = C \<and> session_fits s \<and> length (snd b) = 8 \<longrightarrow> session_fits (fst r) \<and> slot0_only (mem v) (mem (snd r))"
  have "?P H C K V buf s w (s', w')"
    using assms(1)
  proof (rule serve_loop.raw_induct [where P = ?P, rotated])
    fix f :: "'w hal_flash \<Rightarrow> 'w can_hw \<Rightarrow> u8 list \<Rightarrow> fw_ver \<Rightarrow> rx_buf \<Rightarrow> boot_s \<Rightarrow> 'w \<Rightarrow> (boot_s \<times> 'w) option" and G D K V b s v r
    assume IH: "\<And>G D K V b s v r. f G D K V b s v = Some r \<Longrightarrow> ?P G D K V b s v r"
      and step: "(if confirmed s then Some (s, v)
        else case now_ms D v of (now, w) \<Rightarrow> case can_recv D b w of (dlc, buf, w) \<Rightarrow>
          case serve_frame G D K V dlc buf s w of
            None \<Rightarrow> None
          | Some (s, w) \<Rightarrow> if sint IDLE_TIMEOUT_MS \<le> sint (now - last_activity s) then Some (s, w) else f G D K V buf s w) = Some r"
    show "?P G D K V b s v r"
    proof (intro impI)
      assume "G = H \<and> D = C \<and> session_fits s \<and> length (snd b) = 8"
      then have G: "G = H" "D = C" and pre: "session_fits s" "length (snd b) = 8" by auto
      obtain now w1 where n: "now_ms C v = (now, w1)" by fastforce
      obtain dlc b' w2 where rcv: "can_recv C b w1 = (dlc, b', w2)" using prod_cases3 by blast
      have m: "mem w2 = mem v" using n tick_mem can_recv_mem [OF rcv] by (simp add: now_ms_def)
      have wf: "wf_rx dlc b'" "length (snd b') = 8" using can_recv_wf [OF rcv pre(2)] by (simp_all add: wf_rx_def)
      show "session_fits (fst r) \<and> slot0_only (mem v) (mem (snd r))"
      proof (cases "confirmed s")
        case False
        then obtain s1 w3 where sf: "serve_frame H C K V dlc b' s w2 = Some (s1, w3)"
          using step by (auto simp: G n rcv split: option.splits)
        have 1: "session_fits s1 \<and> slot0_only (mem v) (mem w3)" using serve_frame_slot0 [OF sf pre(1) False wf(1)] m by simp
        show ?thesis
          using step 1 False IH [of H C K V b' s1 w3 r] wf(2) slot0_only_trans by (auto simp: G n rcv sf split: if_splits)
      qed (use step pre in auto)
    qed
  qed
  then show ?thesis using assms(2,3) by simp
qed

lemma boot_can_wait_slot0:
  assumes "boot_can_wait H C K V forever buf w = Some (s', w')" "length (snd buf) = 8"
  shows "session_fits s' \<and> slot0_only (mem w) (mem w')"
proof -
  obtain ok w1 where ini: "can_init C w = (ok, w1)" by fastforce
  have w1: "mem w1 = mem w" using can_init_mem [of w] ini by simp
  have z: "session_fits boot_s_zero" "session_fits (boot_s_zero\<lparr>last_activity := n\<rparr>)" for n by (simp_all add: session_fits_def boot_s_zero_def)
  obtain now w2 where n: "now_ms C (send_trace C TRACE_HOOK_ENTER w1) = (now, w2)" by fastforce
  have w2: "mem w2 = mem w" using n w1 tick_mem by (simp add: now_ms_def)
  show ?thesis
  proof (cases ok)
    case True
    then obtain ack b1 w3 where p: "probe_loop C V forever (now + PROBE_TIMEOUT_MS) 0 buf w2 = Some (ack, b1, w3)"
      using assms(1) ini n by (auto simp: boot_can_wait_def split: option.splits)
    have w3: "mem w3 = mem w" "length (snd b1) = 8" using probe_loop_mem [OF p] assms(2) w2 by simp_all
    show ?thesis
    proof (cases ack)
      case ack: True
      obtain b2 w4 now' w5 s1 w6 where d: "drain_fifo C b1 (send_trace C TRACE_HOST_ACK w3) = Some (b2, w4)" "now_ms C w4 = (now', w5)"
          "serve_loop H C K V b2 (boot_s_zero\<lparr>last_activity := now'\<rparr>) w5 = Some (s1, w6)" "s' = s1" "mem w' = mem w6"
        using assms(1) ini n True p ack by (auto simp: boot_can_wait_def Let_def split: option.splits prod.splits)
      have "mem w5 = mem w" using drain_fifo_mem [OF d(1)] w3 tick_mem [of w4] d(2) by (simp add: now_ms_def)
      then show ?thesis
        using serve_loop_slot0 [OF d(3) z(2)] drain_fifo_mem [OF d(1)] w3(2) d(4,5) by simp
    qed (use assms(1) ini n True p w3 z in \<open>auto simp: boot_can_wait_def Let_def\<close>)
  qed (use assms(1) ini w1 z in \<open>simp add: boot_can_wait_def\<close>)
qed

end

section \<open>The image\<close>

text \<open>A frame as the driver delivers it, the bytes it adds to the image, and whether it is a start command.\<close>

type_synonym rx_frame = "u8 \<times> rx_buf"

definition payload :: "rx_frame \<Rightarrow> u8 list" where
  "payload f = (case f of (dlc, cid, dat) \<Rightarrow> if cid = CAN_ID_DATA \<and> dlc \<noteq> 0xFF then take (unat dlc) dat else [])"

definition is_start :: "rx_frame \<Rightarrow> bool" where
  "is_start f = (case f of (dlc, cid, dat) \<Rightarrow> cid = CAN_ID_CMD \<and> dlc = 8 \<and> io_get_le32 dat = FW_CMD_START)"

fun handle_frames :: "'w hal_flash \<Rightarrow> 'w can_hw \<Rightarrow> u8 list \<Rightarrow> fw_ver \<Rightarrow> rx_frame list \<Rightarrow> boot_s \<Rightarrow> 'w \<Rightarrow> (boot_s \<times> 'w) option" where
  "handle_frames H C K V [] s w = Some (s, w)"
| "handle_frames H C K V ((dlc, cid, dat) # fs) s w =
     (case handle_frame H C K V cid dat dlc s w of None \<Rightarrow> None | Some (_, s, w) \<Rightarrow> handle_frames H C K V fs s w)"

text \<open>After the bytes \<open>D\<close>: an open session has written exactly them and finds the rest erased.\<close>

definition image_inv :: "(nat \<Rightarrow> u8) \<Rightarrow> u32 \<Rightarrow> u8 list \<Rightarrow> boot_s \<Rightarrow> bool" where
  "image_inv m n D s \<longleftrightarrow>
     (active s \<or> installed s \<longrightarrow> total_len s = n) \<and>
     (active s \<longrightarrow> \<not> installed s \<and> length D = unat (written s) \<and> written s \<le> n \<and> mem_bytes m 0x08010000 (length D) = D \<and>
       (\<forall>a. 0x08010000 + length D \<le> a \<and> a < 0x08010000 + unat n \<longrightarrow> m a = 0xFF)) \<and>
     (installed s \<longrightarrow> unat n \<le> length D \<and> mem_bytes m 0x08010000 (unat n) = take (unat n) D)"

context boot_hw
begin

lemma handle_data_image:
  assumes "handle_data H C dat dlc s w = (s', w')" "image_inv (mem w) n D s" "n \<le> SLOT0_SIZE" "dlc \<le> 8" "length dat = 8"
  shows "image_inv (mem w') n (D @ take (unat dlc) dat) s'"
proof (cases "active s")
  case False
  then show ?thesis using assms(1,2) by (auto simp: handle_data_def image_inv_def)
next
  case act: True
  show ?thesis
  proof (cases "dlc = 0 \<or> written s + ucast dlc > total_len s")
    case True
    then show ?thesis using assms(1,2) act by (auto simp: handle_data_def image_inv_def)
  next
    case False
    have inv: "total_len s = n" "\<not> installed s" "length D = unat (written s)" "written s \<le> n" "mem_bytes (mem w) 0x08010000 (length D) = D"
      "\<And>a. 0x08010000 + length D \<le> a \<Longrightarrow> a < 0x08010000 + unat n \<Longrightarrow> mem w a = 0xFF"
      using assms(2) act by (auto simp: image_inv_def)
    let ?b = "take (unat dlc) dat"
    obtain ok w1 where wr: "intflash_write H (SLOT0_ADDR + written s) ?b w = (ok, w1)" by fastforce
    have len: "length ?b = unat dlc" "unat dlc \<le> 8" using assms(4,5) by (simp_all add: word_le_nat_alt)
    have nz: "unat n \<le> 0x70000" "unat (written s) \<le> unat n" using assms(3) inv(4) by (simp_all add: SLOT0_SIZE_def word_le_nat_alt)
    have wn: "unat (written s + ucast dlc) = unat (written s) + unat dlc" using nz len(2) by (simp add: unat_word_ariths)
    have fit: "unat (written s) + unat dlc \<le> unat n" using False inv(1) wn by (simp add: word_less_nat_alt)
    have ad: "unat (SLOT0_ADDR + written s) = 0x08010000 + length D" using nz inv(3) by (simp add: SLOT0_ADDR_def unat_word_ariths)
    have er: "mem_bytes (mem w) (0x08010000 + length D) (length ?b) = replicate (length ?b) 0xFF"
      by (rule mem_bytes_eqI) (use inv(3,6) fit len in auto)
    have bound: "unat (SLOT0_ADDR + written s) + length ?b < 2 ^ 32" using ad inv(3) nz len by simp
    note wrs = intflash_write_writes [OF wr bound, unfolded ad]
    have "image_inv (mem w1) n (D @ ?b) (s\<lparr>written := written s + ucast dlc\<rparr>)" if ok
    proof -
      have "mem_bytes (mem w1) 0x08010000 (length D) = D"
        using inv(5) wrs(1) by (metis (no_types, lifting) mem_bytes_cong nat_add_left_cancel_less)
      then have "mem_bytes (mem w1) 0x08010000 (length (D @ ?b)) = D @ ?b"
        using wrs(2) [OF that er] by (simp add: mem_bytes_add)
      moreover have "mem w1 a = 0xFF" if "0x08010000 + length (D @ ?b) \<le> a" "a < 0x08010000 + unat n" for a
        using that inv(6) [of a] wrs(1) [of a] by simp
      ultimately show ?thesis using inv fit wn len by (simp add: image_inv_def word_le_nat_alt)
    qed
    then show ?thesis
      using assms(1) act False wr inv(2) by (auto simp: handle_data_def image_inv_def Let_def split: bool.splits)
  qed
qed

lemma cmd_confirm_image:
  assumes "cmd_confirm C s w = Some (s', w')" "image_inv (mem w) n D s"
  shows "image_inv (mem w') n D s'"
proof (cases "active s")
  case True
  then obtain b w1 where d: "drain_fifo C (0, replicate 8 0) w = Some (b, w1)"
    using assms(1) by (auto simp: cmd_confirm_def split: option.splits)
  have "mem w1 = mem w" using drain_fifo_mem [OF d] by simp
  then show ?thesis using assms True d by (auto simp: cmd_confirm_def Let_def image_inv_def split: if_splits)
qed (use assms in \<open>auto simp: cmd_confirm_def\<close>)

lemma image_inv_session:
  "image_inv m n D (s\<lparr>confirmed := b\<rparr>) \<longleftrightarrow> image_inv m n D s" "image_inv m n D (handle_keyhash dat dlc s) \<longleftrightarrow> image_inv m n D s"
  by (simp_all add: image_inv_def)

lemma handle_frame_image:
  assumes "handle_frame H C K V cid dat dlc s w = Some (b, s', w')" "image_inv (mem w) n D s" "n \<le> SLOT0_SIZE"
    "wf_rx dlc (cid, dat)" "\<not> is_start (dlc, cid, dat)"
  shows "image_inv (mem w') n (D @ payload (dlc, cid, dat)) s'"
proof -
  have ids: "CAN_ID_CMD \<noteq> CAN_ID_DATA" "CAN_ID_KEYHASH \<noteq> CAN_ID_DATA" "CAN_ID_KEYHASH \<noteq> CAN_ID_CMD" by (simp_all add: hub_defs)
  have cmd: "image_inv (mem w') n D s'" if "handle_cmd H C K V dat dlc s w = Some (s', w')" "cid = CAN_ID_CMD"
    using that assms(2,5) cmd_confirm_image [of s w s' w'] by (auto simp: handle_cmd_def is_start_def Let_def image_inv_session split: if_splits)
  consider "dlc = 0xFF" | "dlc \<le> 8" "dlc \<noteq> 0xFF" "cid = CAN_ID_CMD" | "dlc \<le> 8" "dlc \<noteq> 0xFF" "cid = CAN_ID_DATA"
    | "dlc \<noteq> 0xFF" "cid \<noteq> CAN_ID_CMD" "cid \<noteq> CAN_ID_DATA"
    using assms(4) by (auto simp: wf_rx_def)
  then show ?thesis
  proof cases
    case 3
    then show ?thesis
      using assms(1-4) handle_data_image [of dat dlc s w] ids by (auto simp: handle_frame_def payload_def wf_rx_def split: prod.splits)
  qed (use assms(1,2) cmd ids in \<open>auto simp: handle_frame_def payload_def image_inv_session split: if_splits\<close>)
qed

lemma handle_frames_image:
  "handle_frames H C K V fs s w = Some (s', w') \<Longrightarrow> image_inv (mem w) n D s \<Longrightarrow> n \<le> SLOT0_SIZE \<Longrightarrow>
    (\<And>dlc cid dat. (dlc, cid, dat) \<in> set fs \<Longrightarrow> wf_rx dlc (cid, dat) \<and> \<not> is_start (dlc, cid, dat)) \<Longrightarrow>
    image_inv (mem w') n (D @ concat (map payload fs)) s'"
proof (induction fs arbitrary: s w D)
  case (Cons f fs)
  obtain dlc cid dat where f: "f = (dlc, cid, dat)" using prod_cases3 by blast
  obtain b s1 w1 where h: "handle_frame H C K V cid dat dlc s w = Some (b, s1, w1)" and r: "handle_frames H C K V fs s1 w1 = Some (s', w')"
    using Cons.prems(1) f by (auto split: option.splits)
  have "image_inv (mem w1) n (D @ payload f) s1"
    using handle_frame_image [OF h Cons.prems(2,3)] Cons.prems(4) [of dlc cid dat] f by simp
  from Cons.IH [OF r this Cons.prems(3)] Cons.prems(4) show ?case by simp
qed simp

lemma cmd_start_image:
  assumes "cmd_start H C K n s w = (s', w')" "\<not> active s" "\<not> installed s"
  shows "image_inv (mem w') n [] s'" "active s' \<Longrightarrow> n \<le> SLOT0_SIZE \<and> 64 \<le> n"
proof -
  obtain ok w1 where e: "intflash_erase H SLOT0_ADDR ((n + 0xFFF) AND NOT 0xFFF) (send_trace C TRACE_FW_START w) = (ok, w1)" by fastforce
  have er: "mem w1 a = 0xFF" if "n \<le> SLOT0_SIZE" ok "0x08010000 \<le> a" "a < 0x08010000 + unat n" for a
    using erase_slot0(2) [OF e [unfolded SLOT0_ADDR_def] erase_len_fits(1) [OF that(1)] that(2,3)] erase_len_fits(2) [OF that(1)] that(4) by linarith
  show "active s' \<Longrightarrow> n \<le> SLOT0_SIZE \<and> 64 \<le> n"
    using assms by (auto simp: cmd_start_def Let_def not_less split: if_splits prod.splits bool.splits)
  show "image_inv (mem w') n [] s'"
  proof (cases "active s'")
    case True
    then have ok: "ok" "n \<le> SLOT0_SIZE" and s': "total_len s' = n" "written s' = 0" "\<not> installed s'" "mem w' = mem w1"
      using assms e [simplified] by (auto simp: cmd_start_def Let_def not_less split: if_splits bool.splits)
    then show ?thesis using er True by (simp add: image_inv_def mem_bytes_def)
  next
    case False
    have "\<not> installed s'" using assms by (auto simp: cmd_start_def Let_def split: if_splits prod.splits bool.splits)
    then show ?thesis using False by (simp add: image_inv_def)
  qed
qed

end

text \<open>
  The rescue upgrade writes slot 0 and nothing else: whatever frames arrive, in whatever order, and whether or not the
  flash works, when \<open>boot_can_wait\<close> returns, every cell of the flash outside slot 0, the boot loader
  itself first of all, is as it was; and it reports a finished rescue only if a session of a permitted size was
  written to its last byte.
\<close>

theorem rescue_keeps_boot_loader:
  assumes "boot_hw H mem C" "boot_can_wait H C K V forever buf w = Some (s, w')" "length (snd buf) = 8"
  shows "slot0_only (mem w) (mem w') \<and>
    (boot_rescue_done s \<longrightarrow> confirmed s \<and> 64 \<le> total_len s \<and> total_len s \<le> SLOT0_SIZE \<and> written s = total_len s)"
  using boot_hw.boot_can_wait_slot0 [OF assms] by (auto simp: session_fits_def boot_rescue_done_def)

text \<open>
  (C38) A confirmed image is the image that was sent: after a start command that was accepted, let any frames come in except
  another start command, data frames of one to eight bytes among them, also too many or after the end. If the session ends
  confirmed, slot 0 holds exactly the announced number of bytes of the data frames, in the order they came.
\<close>

theorem rescue_image_stored:
  assumes "boot_hw H mem C" "cmd_start H C K n s w = (s1, w1)" "\<not> active s" "\<not> installed s" "active s1"
    and "handle_frames H C K V fs s1 w1 = Some (s', w')"
    and "\<forall>(dlc, buf) \<in> set fs. wf_rx dlc buf \<and> \<not> is_start (dlc, buf)" and "boot_rescue_done s'"
  shows "total_len s' = n \<and> unat n \<le> length (concat (map payload fs)) \<and>
    mem_bytes (mem w') (unat SLOT0_ADDR) (unat n) = take (unat n) (concat (map payload fs))"
proof -
  note st = boot_hw.cmd_start_image [OF assms(1-4)]
  have "image_inv (mem w') n ([] @ concat (map payload fs)) s'"
    by (rule boot_hw.handle_frames_image [OF assms(1,6) st(1)]) (use st(2) assms(5,7) in auto)
  then show ?thesis using assms(8) by (simp add: image_inv_def boot_rescue_done_def SLOT0_ADDR_def)
qed

text \<open>
  A second start command whose erase fails does not end the session before it: a session that had received all its bytes
  is still confirmed afterwards, although slot 0 has been erased, wholly or in part.
\<close>

theorem rescue_failed_restart_confirmed:
  assumes "intflash_erase H SLOT0_ADDR ((n + 0xFFF) AND NOT 0xFFF) (send_trace C TRACE_FW_START w) = (False, w1)"
    and "active s" "written s = total_len s" "64 \<le> n" "n \<le> SLOT0_SIZE" "key_mask s = 0" and "\<forall>w. fst (reg_rd C RF0R w) AND 3 = 0"
  shows "\<exists>s' w'. cmd_confirm C (fst (cmd_start H C K n s w)) (snd (cmd_start H C K n s w)) = Some (s', w') \<and> boot_rescue_done s'"
proof -
  have "\<not> (n < 64 \<or> n > SLOT0_SIZE)" using assms(4,5) by auto
  then have st: "cmd_start H C K n s w = (s, fw_reply C FW_CODE_FLASH_ERROR 0 w1)"
    using assms(1,6) by (simp add: cmd_start_def Let_def KEYHASH_FULL_MASK_def)
  have "drain_fifo C b x = Some (b, snd (reg_rd C RF0R x))" for b x
    using spec [OF assms(7), of x] by (subst drain_fifo.simps) (simp add: can_recv_def case_prod_beta)
  then show ?thesis using assms(2,3) by (simp add: st cmd_confirm_def Let_def boot_rescue_done_def)
qed

section \<open>Frames on the wire\<close>

lemma bit_pack_words:
  "i + length dat \<le> 8 \<Longrightarrow> n < 32 \<Longrightarrow>
    bit (fst (pack_words i dat dl dh)) n = (bit dl n \<or> (i \<le> n div 8 \<and> n div 8 - i < length dat \<and> bit (dat ! (n div 8 - i)) (n mod 8))) \<and>
    bit (snd (pack_words i dat dl dh)) n = (bit dh n \<or> (i \<le> n div 8 + 4 \<and> n div 8 + 4 - i < length dat \<and> bit (dat ! (n div 8 + 4 - i)) (n mod 8)))"
proof (induction dat arbitrary: i dl dh)
  case (Cons b bs)
  have hi: "\<not> bit y k" if "8 \<le> k" for y :: u8 and k using that bit_imp_le_length [of y k] by auto
  have push: "bit (push_bit (8 * j) (ucast b) :: u32) n \<longleftrightarrow> j = n div 8 \<and> bit b (n mod 8)" if "j < 4" for j
  proof (cases "j = n div 8")
    case True
    moreover have "n - 8 * (n div 8) = n mod 8" "n mod 8 < 32" by (simp_all add: minus_mult_div_eq_mod)
    ultimately show ?thesis using Cons.prems(2) by (simp add: bit_simps)
  next
    case False
    then have "n < 8 * j \<or> 8 \<le> n - 8 * j" by linarith
    then show ?thesis using False hi by (auto simp: bit_simps)
  qed
  have cons: "i \<le> p \<and> p - i < length (b # bs) \<and> bit ((b # bs) ! (p - i)) k \<longleftrightarrow>
      i = p \<and> bit b k \<or> Suc i \<le> p \<and> p - Suc i < length bs \<and> bit (bs ! (p - Suc i)) k" for p k
    by (cases "p \<le> i") (auto simp: nth_Cons')
  have nd: "n div 8 < 4" using Cons.prems(2) by linarith
  show ?case unfolding cons
  proof (cases "i < 4")
    case True
    then have "\<not> i = n div 8 + 4" by simp
    then show "bit (fst (pack_words i (b # bs) dl dh)) n = (bit dl n \<or> i = n div 8 \<and> bit b (n mod 8) \<or>
        Suc i \<le> n div 8 \<and> n div 8 - Suc i < length bs \<and> bit (bs ! (n div 8 - Suc i)) (n mod 8)) \<and>
      bit (snd (pack_words i (b # bs) dl dh)) n = (bit dh n \<or> i = n div 8 + 4 \<and> bit b (n mod 8) \<or>
        Suc i \<le> n div 8 + 4 \<and> n div 8 + 4 - Suc i < length bs \<and> bit (bs ! (n div 8 + 4 - Suc i)) (n mod 8))"
      using Cons.IH [of "Suc i" "dl OR push_bit (8 * i) (ucast b)" dh] Cons.prems True push [OF True] by (simp add: bit_or_iff disj_assoc)
  next
    case False
    then have "i - 4 < 4" "i - 4 = n div 8 \<longleftrightarrow> i = n div 8 + 4" "i \<noteq> n div 8" using Cons.prems(1) nd by auto
    then show "bit (fst (pack_words i (b # bs) dl dh)) n = (bit dl n \<or> i = n div 8 \<and> bit b (n mod 8) \<or>
        Suc i \<le> n div 8 \<and> n div 8 - Suc i < length bs \<and> bit (bs ! (n div 8 - Suc i)) (n mod 8)) \<and>
      bit (snd (pack_words i (b # bs) dl dh)) n = (bit dh n \<or> i = n div 8 + 4 \<and> bit b (n mod 8) \<or>
        Suc i \<le> n div 8 + 4 \<and> n div 8 + 4 - Suc i < length bs \<and> bit (bs ! (n div 8 + 4 - Suc i)) (n mod 8))"
      using Cons.IH [of "Suc i" dl "dh OR push_bit (8 * (i - 4)) (ucast b)"] Cons.prems False push [of "i - 4"] by (simp add: bit_or_iff disj_assoc)
  qed
qed simp

text \<open>
  What the controller is given to send is what the driver of the other side reads: a standard frame of one to eight
  bytes, written to a mailbox and read back from the receive registers, keeps its identifier, length and data.
\<close>

theorem can_frame_roundtrip:
  assumes "cid < 0x800" "0 < length dat" "length dat \<le> 8" "length (snd buf) = 8"
  shows "can_decode (tir_value cid) (of_nat (length dat)) (fst (pack_words 0 dat 0 0)) (snd (pack_words 0 dat 0 0)) buf =
    (of_nat (length dat), cid, dat @ drop (length dat) (snd buf))"
proof -
  have byte: "ucast (drop_bit (8 * (i mod 4)) (if i < 4 then fst (pack_words 0 dat 0 0) else snd (pack_words 0 dat 0 0))) = dat ! i"
    if i: "i < length dat" for i
  proof (rule bit_word_eqI)
    fix n assume "n < LENGTH(8)"
    then have n: "n < 8" by simp
    have q: "i mod 4 < 4" "(8 * (i mod 4) + n) div 8 = i mod 4" "(8 * (i mod 4) + n) mod 8 = n" "8 * (i mod 4) + n < 32" using n by auto
    have "i < 8" using i assms(3) by simp
    then have "i mod 4 = (if i < 4 then i else i - 4)" by (auto simp: mod_if)
    then show "bit (ucast (drop_bit (8 * (i mod 4)) (if i < 4 then fst (pack_words 0 dat 0 0) else snd (pack_words 0 dat 0 0))) :: u8) n = bit (dat ! i) n"
      using bit_pack_words [of 0 dat "8 * (i mod 4) + n" 0 0] q n assms(3) i by (auto simp: bit_simps add.commute)
  qed
  have hi: "\<not> bit cid n" if "11 \<le> n" for n
  proof -
    have "take_bit 11 (unat cid) = unat cid" using assms(1) by (simp add: take_bit_nat_eq_self word_less_nat_alt)
    then have "\<not> bit (unat cid) n" using that by (metis bit_take_bit_iff not_le)
    then show ?thesis by (simp add: bit_unsigned_iff)
  qed
  have std: "tir_value cid AND 4 = 0" and stid: "drop_bit 21 (tir_value cid AND 0xFFE00000) = cid"
  proof -
    have m: "(0x7FF :: u32) = mask 11" "(4 :: u32) = push_bit 2 1" "(0xFFE00000 :: u32) = push_bit 21 (mask 11)"
      by (simp_all add: mask_eq_exp_minus_1)
    have "\<not> bit (tir_value cid) 2" by (simp add: tir_value_def bit_simps bit_1_iff)
    then show "tir_value cid AND 4 = 0" unfolding bit_iff_and_push_bit_not_eq_0 m(2) by simp
    show "drop_bit 21 (tir_value cid AND 0xFFE00000) = cid"
      unfolding tir_value_def m by (rule bit_word_eqI) (use hi leI in \<open>auto simp: bit_simps not_le\<close>)
  qed
  have l: "(of_nat (length dat) AND 0xF :: u32) = of_nat (length dat)" "(ucast (of_nat (length dat) :: u32) :: u8) = of_nat (length dat)"
    "unat (of_nat (length dat) :: u8) = length dat" "\<not> (of_nat (length dat) :: u8) > 8"
  proof -
    have "0 < length dat" "length dat \<le> 8" using assms(2,3) by auto
    then have "length dat = 1 \<or> length dat = 2 \<or> length dat = 3 \<or> length dat = 4 \<or> length dat = 5 \<or> length dat = 6 \<or> length dat = 7 \<or> length dat = 8"
      by linarith
    then show "(of_nat (length dat) AND 0xF :: u32) = of_nat (length dat)" "(ucast (of_nat (length dat) :: u32) :: u8) = of_nat (length dat)"
      "unat (of_nat (length dat) :: u8) = length dat" "\<not> (of_nat (length dat) :: u8) > 8" by auto
  qed
  have "map (\<lambda>i. ucast (drop_bit (8 * (i mod 4)) (if i < 4 then fst (pack_words 0 dat 0 0) else snd (pack_words 0 dat 0 0)))) [0..<length dat] = dat"
    using byte by (intro nth_equalityI) simp_all
  then show ?thesis using std stid l by (simp add: can_decode_def Let_def)
qed

text \<open>A flash on which every operation succeeds, and a controller whose queue runs empty.\<close>

locale boot_hw_ok = boot_hw +
  assumes ops_ok: "fst (HAL_FLASH_Unlock H w)" "fst (HAL_FLASH_Lock H w)" "fst (HAL_FLASHEx_Erase H i w)"
      "fst (program_word H ad v w)" "fst (program_byte H ad b w)"
    and drains: "drain_fifo C buf w \<noteq> None"
begin

lemma erase_sectors_ok: "fst (erase_sectors H secs addr end_addr w)"
proof (induction secs arbitrary: w)
  case (Cons sec secs)
  obtain i s n where sec: "sec = (i, s, n)" using prod_cases3 by blast
  obtain w1 where "HAL_FLASHEx_Erase H i w = (True, w1)" using ops_ok(3) [of i w] by (cases "HAL_FLASHEx_Erase H i w") auto
  then show ?case using Cons sec by simp
qed (simp add: ops_ok)

lemma intflash_erase_ok:
  assumes "unat len \<le> 0x70000"
  shows "fst (intflash_erase H SLOT0_ADDR len w)"
proof -
  let ?len = "(len + 0xFFF) AND NOT 0xFFF"
  have "(unat len + 0xFFF) div 0x1000 \<le> 0x70FFF div 0x1000" by (rule div_le_mono) (use assms in simp)
  then have "unat ?len \<le> 0x70000" unfolding round_up_4k [OF assms] by simp
  then have "\<not> SLOT0_ADDR + ?len > 0x08080000" by (simp add: SLOT0_ADDR_def word_less_nat_alt unat_word_ariths)
  moreover obtain w1 where "HAL_FLASH_Unlock H w = (True, w1)" using ops_ok(1) [of w] by (cases "HAL_FLASH_Unlock H w") auto
  moreover have "\<not> SLOT0_ADDR < fst (f4_sector_tab ! 0)" by (simp add: f4_sector_tab_def SLOT0_ADDR_def)
  ultimately show ?thesis
    using erase_sectors_ok by (simp add: intflash_erase_def Let_def)
qed

lemma write_loop_ok: "fst (write_loop H ad buf w)"
proof (induction "length buf" arbitrary: ad buf w rule: less_induct)
  case less
  show ?case
  proof (cases "buf = []")
    case False
    define n :: nat where "n = (if ad AND 3 = 0 \<and> length buf \<ge> 4 then 4 else 1)"
    obtain w1 where "(if n = 4 then program_word H ad (io_get_le32 buf) w else program_byte H ad (buf ! 0) w) = (True, w1)"
      using ops_ok(4,5) by (metis (full_types) prod.collapse)
    moreover have "length (drop n buf) < length buf" using False by (simp add: n_def)
    ultimately show ?thesis using less False by (subst write_loop.simps) (simp add: Let_def flip: n_def)
  qed (simp add: write_loop.simps ops_ok)
qed

lemma intflash_write_ok: "fst (intflash_write H ad buf w)"
proof -
  obtain w1 where "HAL_FLASH_Unlock H w = (True, w1)" using ops_ok(1) [of w] by (cases "HAL_FLASH_Unlock H w") auto
  then show ?thesis by (simp add: intflash_write_def write_loop_ok)
qed

lemma handle_data_goes_on:
  assumes "session_fits s" "active s" "0 < dlc" "dlc \<le> 8" "unat (written s) + unat dlc \<le> unat (total_len s)"
  obtains w' where "handle_data H C dat dlc s w = (s\<lparr>written := written s + ucast dlc\<rparr>, w')"
    "unat (written s + ucast dlc) = unat (written s) + unat dlc"
proof -
  have "unat (total_len s) \<le> 0x70000" using assms(1,2) by (simp add: session_fits_def SLOT0_SIZE_def word_le_nat_alt)
  moreover have "unat dlc \<le> 8" using assms(4) by (simp add: word_le_nat_alt)
  ultimately have n: "unat (written s + ucast dlc) = unat (written s) + unat dlc" using assms(5) by (simp add: unat_word_ariths)
  then have "\<not> written s + ucast dlc > total_len s" using assms(5) by (simp add: word_less_nat_alt)
  moreover obtain w1 where "intflash_write H (SLOT0_ADDR + written s) (take (unat dlc) dat) w = (True, w1)"
    using intflash_write_ok by (metis (full_types) prod.collapse)
  moreover have "dlc \<noteq> 0" using assms(3) by auto
  ultimately show thesis using that n assms(2) by (simp add: handle_data_def Let_def)
qed

text \<open>Data frames of one to eight bytes.\<close>

lemma data_frames_go_on:
  "\<forall>(dlc, cid, dat) \<in> set fs. cid = CAN_ID_DATA \<and> 0 < dlc \<and> dlc \<le> 8 \<and> length dat = 8 \<Longrightarrow> session_fits s \<Longrightarrow> active s \<Longrightarrow>
    unat (written s) + length (concat (map payload fs)) = unat (total_len s) \<Longrightarrow>
    \<exists>w'. handle_frames H C K V fs s w = Some (s\<lparr>written := total_len s\<rparr>, w')"
proof (induction fs arbitrary: s w)
  case Nil
  then have "written s = total_len s" by (simp add: word_unat_eq_iff)
  then show ?case by (metis boot_s.surjective boot_s.update_convs(3) handle_frames.simps(1))
next
  case (Cons f fs)
  obtain dlc cid dat where f: "f = (dlc, cid, dat)" using prod_cases3 by blast
  have d: "cid = CAN_ID_DATA" "0 < dlc" "dlc \<le> 8" "length dat = 8" using Cons.prems(1) f by auto
  then have nf: "dlc \<noteq> 0xFF" by auto
  have ids: "CAN_ID_DATA \<noteq> CAN_ID_CMD" by (simp add: hub_defs)
  have len: "length (payload f) = unat dlc" using d nf by (simp add: f payload_def word_le_nat_alt)
  then have le: "unat (written s) + unat dlc \<le> unat (total_len s)" using Cons.prems(4) by simp
  obtain w1 where h: "handle_data H C dat dlc s w = (s\<lparr>written := written s + ucast dlc\<rparr>, w1)"
    and n: "unat (written s + ucast dlc) = unat (written s) + unat dlc"
    using handle_data_goes_on [OF Cons.prems(2,3) d(2,3) le] by metis
  let ?s = "s\<lparr>written := written s + ucast dlc\<rparr>"
  have "session_fits ?s" using Cons.prems(2,3) n le by (auto simp: session_fits_def word_le_nat_alt word_unat_eq_iff)
  moreover have "unat (written ?s) + length (concat (map payload fs)) = unat (total_len ?s)" using Cons.prems(4) len n by simp
  ultimately obtain w' where "handle_frames H C K V fs ?s w1 = Some (?s\<lparr>written := total_len ?s\<rparr>, w')"
    using Cons.IH [of ?s w1] Cons.prems(1,3) by auto
  then show ?case using h d(1) nf ids by (auto simp: f handle_frame_def)
qed

lemma confirm_goes_on:
  assumes "active s" "written s = total_len s"
  obtains s' w' where "cmd_confirm C s w = Some (s', w')" "installed s'" "confirmed s'"
  using assms drains [of "(0, replicate 8 0)" w] by (auto simp: cmd_confirm_def Let_def)

lemma start_goes_on:
  assumes "key_mask s AND KEYHASH_FULL_MASK = KEYHASH_FULL_MASK \<longrightarrow> keybuf s = K" "64 \<le> n" "n \<le> SLOT0_SIZE"
  obtains s' w' where "cmd_start H C K n s w = (s', w')" "active s'" "written s' = 0" "total_len s' = n" "installed s' = installed s" "confirmed s' = confirmed s"
proof -
  obtain w1 where "intflash_erase H SLOT0_ADDR ((n + 0xFFF) AND NOT 0xFFF) (send_trace C TRACE_FW_START w) = (True, w1)"
    using intflash_erase_ok [OF erase_len_fits(1) [OF assms(3)]] by (metis (full_types) prod.collapse)
  moreover have "\<not> (n < 64 \<or> n > SLOT0_SIZE)" using assms(2,3) by auto
  ultimately show thesis using that assms(1) by (fastforce simp: cmd_start_def Let_def split: if_splits)
qed

lemma rescue_succeeds:
  assumes "key_mask s AND KEYHASH_FULL_MASK = KEYHASH_FULL_MASK \<longrightarrow> keybuf s = K" "64 \<le> n" "n \<le> SLOT0_SIZE"
    and "\<not> active s" "\<not> installed s"
    and "\<forall>(dlc, cid, dat) \<in> set fs. cid = CAN_ID_DATA \<and> 0 < dlc \<and> dlc \<le> 8 \<and> length dat = 8"
    and "length (concat (map payload fs)) = unat n"
  obtains s1 w1 s' w' where "cmd_start H C K n s w = (s1, w1)" "active s1" "boot_rescue_done s'"
    "handle_frames H C K V (fs @ [(8, CAN_ID_CMD, io_put_le32 FW_CMD_CONFIRM @ arg)]) s1 w1 = Some (s', w')"
proof -
  obtain s1 w1 where st: "cmd_start H C K n s w = (s1, w1)" "active s1" "written s1 = 0" "total_len s1 = n" "installed s1 = installed s"
    using start_goes_on [OF assms(1-3)] by metis
  have fit: "session_fits s1" using st assms(2,3,5) by (simp add: session_fits_def)
  have "unat (written s1) + length (concat (map payload fs)) = unat (total_len s1)" using st assms(7) by simp
  then obtain w2 where d: "handle_frames H C K V fs s1 w1 = Some (s1\<lparr>written := total_len s1\<rparr>, w2)"
    using data_frames_go_on [OF assms(6) fit st(2)] by blast
  obtain s' w' where c: "cmd_confirm C (s1\<lparr>written := total_len s1\<rparr>) w2 = Some (s', w')" "installed s'"
    by (rule confirm_goes_on [of "s1\<lparr>written := total_len s1\<rparr>" w2]) (use st(2) in simp_all)
  have app: "handle_frames H C K V (fs @ gs) s1 w1 =
      (case handle_frames H C K V fs s1 w1 of None \<Rightarrow> None | Some (s, w) \<Rightarrow> handle_frames H C K V gs s w)" for fs gs s1 w1
    by (induction H C K V fs s1 w1 rule: handle_frames.induct) (auto split: option.splits)
  have "io_get_le32 (io_put_le32 FW_CMD_CONFIRM @ arg) = FW_CMD_CONFIRM" by (simp add: io_get_le32_def io_put_le32_def FW_CMD_CONFIRM_def)
  then have "handle_frame H C K V CAN_ID_CMD (io_put_le32 FW_CMD_CONFIRM @ arg) 8 (s1\<lparr>written := total_len s1\<rparr>) w2 = Some (True, s', w')"
    using c(1) by (simp add: handle_frame_def handle_cmd_def hub_defs)
  then have "handle_frames H C K V (fs @ [(8, CAN_ID_CMD, io_put_le32 FW_CMD_CONFIRM @ arg)]) s1 w1 = Some (s', w')"
    by (simp add: app d)
  then show thesis using that st(1,2) c(2) by (simp add: boot_rescue_done_def)
qed

end

section \<open>The probe window\<close>

lemma sint_time_diff:
  assumes "\<bar>int n - int d\<bar> < 2 ^ 31"
  shows "sint (of_nat n - of_nat d :: u32) = int n - int d"
proof -
  have "(of_nat n - of_nat d :: u32) = of_int (int n - int d)" by simp
  then have "sint (of_nat n - of_nat d :: u32) = sint (of_int (int n - int d) :: u32)" by (rule arg_cong)
  also have "\<dots> = int n - int d"
    unfolding signed_of_int using assms by (simp add: signed_take_bit_int_eq_self)
  finally show ?thesis .
qed

text \<open>
  Time passes: the clock has \<open>cyc\<close> units to the millisecond, an access to the controller or the clock takes at most
  \<open>u\<close> units, and reading the clock takes some time. An access takes so little that a transmission, which polls the
  controller at most 100000 times, takes less than twelve days.
\<close>

locale boot_clock =
  fixes C :: "'w can_hw" and clk :: "'w \<Rightarrow> nat" and cyc u :: nat
  assumes rd_clk: "reg_rd C r w = (v, w') \<Longrightarrow> clk w \<le> clk w' \<and> clk w' \<le> clk w + u"
    and wr_clk: "clk w \<le> clk (reg_wr C r v w) \<and> clk (reg_wr C r v w) \<le> clk w + u"
    and pins_clk: "clk w \<le> clk (can_pins C w) \<and> clk (can_pins C w) \<le> clk w + u"
    and tick_clk: "HAL_GetTick C w = (t, w') \<Longrightarrow> t = of_nat (clk w div cyc) \<and> clk w < clk w' \<and> clk w' \<le> clk w + u"
    and cyc_pos: "0 < cyc" and fast: "100100 * u \<le> 2 ^ 30 * cyc"
begin

definition takes :: "nat \<Rightarrow> 'w \<Rightarrow> 'w \<Rightarrow> bool" where
  "takes n w w' \<longleftrightarrow> clk w \<le> clk w' \<and> clk w' \<le> clk w + n * u"

lemma takes_trans: "takes n w w' \<Longrightarrow> takes k w' w'' \<Longrightarrow> n + k \<le> m \<Longrightarrow> takes m w w''"
proof -
  assume a: "takes n w w'" "takes k w' w''" "n + k \<le> m"
  have "n * u + k * u \<le> m * u" using a(3) by (metis add_mult_distrib mult_le_mono1)
  then show ?thesis using a(1,2) by (simp add: takes_def)
qed

lemma takes_mono: "takes n w w' \<Longrightarrow> n \<le> m \<Longrightarrow> takes m w w'"
  by (rule takes_trans [of n w w' 0 w']) (simp_all add: takes_def)

lemma takes_rd: "reg_rd C r w = (v, w') \<Longrightarrow> takes 1 w w'" and takes_wr: "takes 1 w (reg_wr C r v w)" and takes_pins: "takes 1 w (can_pins C w)"
  using rd_clk wr_clk pins_clk by (auto simp: takes_def)

lemma takes_or: "takes 2 w (reg_or C r m w)" and takes_and: "takes 2 w (reg_and C r m w)"
  by (auto simp: reg_or_def reg_and_def split: prod.splits intro: takes_trans [OF takes_rd takes_wr])

lemma takes_poll: "poll_reg C r ready t w = (ok, w') \<Longrightarrow> takes t w w'"
proof (induction t arbitrary: w)
  case 0
  then show ?case by (simp add: poll_reg.simps takes_def)
next
  case (Suc t)
  obtain v w1 where r: "reg_rd C r w = (v, w1)" by fastforce
  show ?case
  proof (cases "ready v")
    case True
    then show ?thesis using Suc.prems r takes_rd [OF r] by (subst (asm) poll_reg.simps) (auto intro: takes_mono)
  next
    case False
    then have "poll_reg C r ready t w1 = (ok, w')" using Suc.prems r by (subst (asm) poll_reg.simps) simp
    from takes_trans [OF takes_rd [OF r] Suc.IH [OF this]] show ?thesis by simp
  qed
qed

lemma takes_send_box: "takes 100005 w (send_box C box cid dat w)"
proof -
  obtain dl dh where p: "pack_words 0 dat 0 0 = (dl, dh)" by fastforce
  define w4 where "w4 = reg_wr C (TIR box) (tir_value cid) (reg_wr C (TDTR box) (of_nat (length dat)) (reg_wr C (TDHR box) dh (reg_wr C (TDLR box) dl w)))"
  have 4: "takes 4 w w4" unfolding w4_def
    by (rule takes_trans [OF takes_trans [OF takes_trans [OF takes_wr takes_wr, of 2] takes_wr, of 3] takes_wr]) simp_all
  obtain ok w5 where q: "poll_reg C TSR (\<lambda>v. v AND push_bit (box * 8) 1 \<noteq> 0) 100000 w4 = (ok, w5)" by fastforce
  have 5: "takes 100004 w w5" by (rule takes_trans [OF 4 takes_poll [OF q]]) simp
  show ?thesis
    using takes_trans [OF 5 takes_wr, of 100005] takes_mono [OF 5, of 100005] p q [unfolded w4_def]
    by (cases ok) (simp_all add: send_box_def Let_def)
qed

lemma takes_send: "takes 100010 w (can_send C cid dat w)"
proof -
  obtain v1 w1 where 1: "reg_rd C TSR w = (v1, w1)" by fastforce
  obtain v2 w2 where 2: "reg_rd C TSR w1 = (v2, w2)" by fastforce
  obtain v3 w3 where 3: "reg_rd C TSR w2 = (v3, w3)" by fastforce
  have t: "takes 1 w w1" "takes 2 w w2" "takes 3 w w3"
    using takes_rd [OF 1] takes_trans [OF takes_rd [OF 1] takes_rd [OF 2], of 2]
      takes_trans [OF takes_trans [OF takes_rd [OF 1] takes_rd [OF 2], of 2] takes_rd [OF 3], of 3] by simp_all
  have "takes n w x \<Longrightarrow> n \<le> 3 \<Longrightarrow> takes 100010 w (send_box C box cid dat x)" for n x box
    by (rule takes_trans [OF _ takes_send_box]) simp_all+
  moreover have "takes 100010 w w" by (simp add: takes_def)
  moreover note takes_mono [OF t(3), of 100010]
  ultimately show ?thesis using t 1 2 3 by (simp add: can_send_def)
qed

lemma takes_answers: "takes 100010 w (send_probe C V w)" "takes 100010 w (send_trace C phase w)"
  by (simp_all add: send_probe_def send_trace_def takes_send)

lemma takes_add: "takes n w w' \<Longrightarrow> takes k w' w'' \<Longrightarrow> takes (n + k) w w''"
  by (rule takes_trans [OF _ _ le_refl])

lemmas takes_add' = takes_add [rotated]

lemma takes_filter: "takes 14 w (can_filter C w)"
proof -
  have "takes (2 + 1 + 1 + 2 + 2 + 2 + 2 + 2) w (can_filter C w)"
    unfolding can_filter_def Let_def by (rule takes_or takes_and takes_wr takes_add')+
  then show ?thesis by simp
qed

lemma takes_init: "can_init C w = (ok, w') \<Longrightarrow> takes 2100 w w'"
proof -
  assume a: "can_init C w = (ok, w')"
  obtain ok1 w1 where p: "poll_reg C MSR (\<lambda>v. v AND 1 \<noteq> 0) 1000 (reg_or C MCR 1 (can_pins C w)) = (ok1, w1)" by fastforce
  have 1: "takes (1 + 2 + 1000) w w1" by (rule takes_pins takes_or takes_poll [OF p] takes_add')+
  define w2 where "w2 = reg_and C MCR (NOT 1) (can_filter C (reg_wr C BTR (push_bit 24 0 OR push_bit 16 5 OR push_bit 20 0 OR (21 - 1)) (reg_wr C MCR (1 OR 0x10 OR 0x40) w1)))"
  have 2: "takes (1 + 1 + 14 + 2) w1 w2" unfolding w2_def by (rule takes_wr takes_filter takes_and takes_add')+
  obtain ok3 w3 where q: "poll_reg C MSR (\<lambda>v. v AND 1 = 0) 1000 w2 = (ok3, w3)" by fastforce
  have 3: "takes 2021 w w3" using takes_add [OF takes_add [OF 1 2] takes_poll [OF q]] by simp
  show ?thesis
  proof (cases ok1)
    case True
    then have "w' = w3" using a p q [unfolded w2_def] by (simp add: can_init_def Let_def)
    then show ?thesis using takes_mono [OF 3] by simp
  next
    case False
    then have "w' = w1" using a p by (simp add: can_init_def Let_def)
    then show ?thesis using takes_mono [OF 1] by simp
  qed
qed

text \<open>While no frame arrives, the window closes.\<close>

lemma can_recv_silent:
  assumes silent: "\<forall>w. fst (reg_rd C RF0R w) AND 3 = 0" and "can_recv C buf w = (dlc, buf', w')"
  shows "dlc = 0 \<and> buf' = buf \<and> takes 1 w w'"
  using assms(2) spec [OF silent, of w] takes_rd [of RF0R w] by (auto simp: can_recv_def split: prod.splits)

lemma probe_loop_ends:
  assumes silent: "\<forall>w. fst (reg_rd C RF0R w) AND 3 = 0"
    and "clk w \<le> d * cyc + 100012 * u" "d \<le> clk w div cyc + 500"
  shows "\<exists>w'. probe_loop C V False (of_nat d) np buf w = Some (False, buf, w') \<and> clk w' \<le> d * cyc + 100013 * u"
  using assms(2,3)
proof (induction "d * cyc - clk w" arbitrary: w np rule: less_induct)
  case less
  obtain now w1 where n: "now_ms C w = (now, w1)" by fastforce
  have now: "now = of_nat (clk w div cyc)" "clk w < clk w1" "clk w1 \<le> clk w + u" using tick_clk n by (auto simp: now_ms_def)
  have "clk w div cyc \<le> (d * cyc + 100012 * u) div cyc" by (rule div_le_mono) (rule less.prems(1))
  also have "\<dots> = d + 100012 * u div cyc" using cyc_pos by simp
  also have "100012 * u div cyc \<le> 2 ^ 30 * cyc div cyc" by (rule div_le_mono) (use fast in simp)
  finally have "clk w div cyc \<le> d + 2 ^ 30" using cyc_pos by simp
  then have sd: "sint (now - of_nat d) = int (clk w div cyc) - int d"
    unfolding now(1) by (intro sint_time_diff) (use less.prems(2) in auto)
  show ?case
  proof (cases "d \<le> clk w div cyc")
    case True
    then have "probe_loop C V False (of_nat d) np buf w = Some (False, buf, w1)"
      using n sd by (subst probe_loop.simps) simp
    then show ?thesis using now(3) less.prems(1) by auto
  next
    case False
    then have lt: "clk w < d * cyc" using cyc_pos by (metis div_less_iff_less_mult not_le)
    obtain np' w2 where p: "(if sint (now - np) \<ge> 0 then (now + PROBE_INTERVAL_MS, send_probe C V w1) else (np, w1)) = (np', w2)" by fastforce
    have 2: "takes 100010 w1 w2" using p takes_answers(1) [of w1 V] by (auto simp: takes_def split: if_splits)
    obtain dlc b w3 where r: "can_recv C buf w2 = (dlc, b, w3)" using prod_cases3 by blast
    note s = can_recv_silent [OF silent r]
    have 3: "takes 100011 w1 w3" using takes_add [OF 2] s by fastforce
    have nx: "probe_loop C V False (of_nat d) np buf w = probe_loop C V False (of_nat d) np' buf w3"
      using n sd False p r s by (subst probe_loop.simps) (simp add: not_le)
    have c3: "clk w < clk w3" "clk w3 \<le> d * cyc + 100012 * u" using 3 now(2,3) lt by (simp_all add: takes_def)
    have "clk w div cyc \<le> clk w3 div cyc" by (rule div_le_mono) (use c3 in simp)
    then have "d \<le> clk w3 div cyc + 500" using less.prems(2) by simp
    from less.hyps [OF _ c3(2) this, of np'] show ?thesis using nx c3(1) lt by simp
  qed
qed

lemma boot_goes_on:
  assumes silent: "\<forall>w. fst (reg_rd C RF0R w) AND 3 = 0"
  shows "\<exists>w'. boot_can_wait H C K V False buf w = Some (boot_s_zero, w') \<and> clk w' \<le> clk w + 500 * cyc + 500000 * u"
proof -
  obtain ok w1 where i: "can_init C w = (ok, w1)" by fastforce
  note t1 = takes_init [OF i]
  show ?thesis
  proof (cases ok)
    case False
    then show ?thesis using i t1 by (auto simp: boot_can_wait_def takes_def)
  next
    case True
    let ?w2 = "send_trace C TRACE_HOOK_ENTER w1"
    have t2: "takes 102110 w ?w2" using takes_add [OF t1 takes_answers(2)] by simp
    obtain now w3 where n: "now_ms C ?w2 = (now, w3)" by fastforce
    have now: "now = of_nat (clk ?w2 div cyc)" "clk ?w2 < clk w3" "clk w3 \<le> clk ?w2 + u" using tick_clk n by (auto simp: now_ms_def)
    define d where "d = clk ?w2 div cyc + 500"
    have dl: "now + PROBE_TIMEOUT_MS = of_nat d" by (simp add: now d_def PROBE_TIMEOUT_MS_def)
    have dc: "clk ?w2 \<le> d * cyc" "d * cyc \<le> clk ?w2 + 500 * cyc"
    proof -
      show "d * cyc \<le> clk ?w2 + 500 * cyc" by (simp add: d_def add_mult_distrib)
      have "clk ?w2 < (clk ?w2 div cyc + 1) * cyc" using cyc_pos by (metis add.commute dividend_less_div_times mult.commute mult_Suc plus_1_eq_Suc)
      also have "\<dots> \<le> d * cyc" by (rule mult_le_mono1) (simp add: d_def)
      finally show "clk ?w2 \<le> d * cyc" by simp
    qed
    have "clk ?w2 div cyc \<le> clk w3 div cyc" by (rule div_le_mono) (use now in simp)
    then obtain w4 where p: "probe_loop C V False (of_nat d) 0 buf w3 = Some (False, buf, w4)" "clk w4 \<le> d * cyc + 100013 * u"
      using probe_loop_ends [OF silent, where w = w3 and d = d and V = V and np = 0 and buf = buf] now dc by (auto simp: d_def)
    let ?w5 = "can_leave C (send_trace C TRACE_PROCEED w4)"
    have "takes (100010 + 2 + 2) w4 ?w5" unfolding can_leave_def by (rule takes_answers takes_or takes_add')+
    then have "clk ?w5 \<le> clk w + 500 * cyc + 500000 * u" using p(2) dc(2) t2 by (simp add: takes_def)
    then show ?thesis using i True n dl p(1) by (simp add: boot_can_wait_def Let_def)
  qed
qed

end

text \<open>
  Without a host the device starts: if no frame arrives, the probe window closes and \<open>boot_can_wait\<close> returns, half a
  second plus the time of a few transmissions after it began, with no rescue reported.
\<close>

theorem boot_continues_without_host:
  assumes "boot_clock C clk cyc u" "\<forall>w. fst (reg_rd C RF0R w) AND 3 = 0"
  shows "\<exists>w'. boot_can_wait H C K V False buf w = Some (boot_s_zero, w') \<and> \<not> boot_rescue_done boot_s_zero \<and>
    clk w' \<le> clk w + 500 * cyc + 500000 * u"
  using boot_clock.boot_goes_on [OF assms(1), of H K V buf w] assms(2) by (auto simp: boot_rescue_done_def boot_s_zero_def)

section \<open>A simulated board\<close>

text \<open>
  The cells of the flash, whether the controller is in initialisation mode, and the time in milliseconds. The bus is
  silent and every transmission completes at once.
\<close>

record sim_board =
  sb_cells :: "nat \<Rightarrow> u8"
  sb_init :: bool
  sb_time :: nat

definition board_hal :: "sim_board hal_flash" where
  "board_hal = hal_in sb_cells (\<lambda>m. sb_cells_update (\<lambda>_. m)) sim_hal"

definition board_can :: "sim_board can_hw" where
  "board_can = \<lparr>reg_rd = \<lambda>r w. (case r of MSR \<Rightarrow> if sb_init w then 1 else 0 | TSR \<Rightarrow> - 1 | _ \<Rightarrow> 0, w),
     reg_wr = \<lambda>r v w. (case r of MCR \<Rightarrow> w\<lparr>sb_init := bit v 0\<rparr> | _ \<Rightarrow> w),
     can_pins = \<lambda>w. w, HAL_GetTick = \<lambda>w. (of_nat (sb_time w), w\<lparr>sb_time := sb_time w + 1\<rparr>)\<rparr>"

interpretation board: boot_hw board_hal sb_cells board_can
proof -
  have "int_flash board_hal (\<lambda>w. sb_cells w)"
    unfolding board_hal_def by (rule int_flash_in [OF sim_hal.int_flash_axioms]) simp
  then show "boot_hw board_hal sb_cells board_can"
    by (rule boot_hw.intro) (unfold_locales, auto simp: board_can_def split: can_reg.splits)
qed

interpretation board_ok: boot_hw_ok board_hal sb_cells board_can
proof unfold_locales
  show "drain_fifo board_can buf w \<noteq> None" for buf w
    by (subst drain_fifo.simps) (simp add: can_recv_def board_can_def)
qed (simp_all add: board_hal_def act_in_def sim_hal_def)

interpretation board_time: boot_clock board_can sb_time 1 1
  by unfold_locales (auto simp: board_can_def split: can_reg.splits)

definition demo_version :: fw_ver where
  "demo_version = \<lparr>FW_VERSION_MAJOR = 1, FW_VERSION_MINOR = 2, FW_VERSION_PATCH = 3, FW_GIT_VERSION = [97, 98]\<rparr>"

definition demo_board :: sim_board where
  "demo_board = \<lparr>sb_cells = \<lambda>a. of_nat a, sb_init = False, sb_time = 0\<rparr>"

definition demo_frames :: "rx_frame list" where
  "demo_frames = map (\<lambda>i. (8, CAN_ID_DATA, map of_nat [8 * i..<8 * i + 8])) [0..<8] @ [(8, CAN_ID_CMD, io_put_le32 FW_CMD_CONFIRM @ [0, 0, 0, 0])]"

lemma demo_data:
  "\<forall>(dlc, cid, dat) \<in> set (map (\<lambda>i. (8 :: u8, CAN_ID_DATA, map of_nat [8 * i..<8 * i + 8] :: u8 list)) [0..<8]).
     cid = CAN_ID_DATA \<and> 0 < dlc \<and> dlc \<le> 8 \<and> length dat = 8"
  "concat (map payload (map (\<lambda>i. (8, CAN_ID_DATA, map of_nat [8 * i..<8 * i + 8])) [0..<8])) = map of_nat [0..<64]"
  by (auto simp: payload_def upt_rec)

lemma silent_board: "\<forall>w. fst (reg_rd board_can RF0R w) AND 3 = 0"
  by (simp add: board_can_def)

theorem rescue_keeps_boot_loader_witness:
  "\<exists>s w'. boot_can_wait board_hal board_can demo_key demo_version False (0, replicate 8 0) demo_board = Some (s, w') \<and>
     slot0_only (sb_cells demo_board) (sb_cells w')"
proof -
  obtain w' where w': "boot_can_wait board_hal board_can demo_key demo_version False (0, replicate 8 0) demo_board = Some (boot_s_zero, w')"
    using board_time.boot_goes_on [OF silent_board] by blast
  from rescue_keeps_boot_loader [OF board.boot_hw_axioms this] show ?thesis using w' by auto
qed

theorem rescue_image_stored_witness:
  "\<exists>s1 w1 s' w'. cmd_start board_hal board_can demo_key 64 boot_s_zero demo_board = (s1, w1) \<and>
     handle_frames board_hal board_can demo_key demo_version demo_frames s1 w1 = Some (s', w') \<and>
     mem_bytes (sb_cells w') (unat SLOT0_ADDR) 64 = map of_nat [0..<64]"
proof -
  have z: "\<not> active boot_s_zero" "\<not> installed boot_s_zero" "key_mask boot_s_zero = 0" by (simp_all add: boot_s_zero_def)
  have k: "key_mask boot_s_zero AND KEYHASH_FULL_MASK = KEYHASH_FULL_MASK \<longrightarrow> keybuf boot_s_zero = demo_key" by (simp add: z KEYHASH_FULL_MASK_def)
  have n: "(64 :: u32) \<le> 64" "64 \<le> SLOT0_SIZE" by (simp_all add: SLOT0_SIZE_def)
  have len: "length (concat (map payload (map (\<lambda>i. (8, CAN_ID_DATA, map of_nat [8 * i..<8 * i + 8])) [0..<8]))) = unat (64 :: u32)"
    by (simp only: demo_data) simp
  obtain s1 w1 s' w' where r: "cmd_start board_hal board_can demo_key 64 boot_s_zero demo_board = (s1, w1)" "active s1" "boot_rescue_done s'"
    "handle_frames board_hal board_can demo_key demo_version demo_frames s1 w1 = Some (s', w')"
    unfolding demo_frames_def by (rule board_ok.rescue_succeeds [OF k n z(1,2) demo_data(1) len])
  have "\<forall>(dlc, buf) \<in> set demo_frames. wf_rx dlc buf \<and> \<not> is_start (dlc, buf)"
    by (auto simp: demo_frames_def wf_rx_def is_start_def io_put_le32_def io_get_le32_def hub_defs)
  from rescue_image_stored [OF board.boot_hw_axioms r(1) z(1,2) r(2,4) this r(3)]
  have "mem_bytes (sb_cells w') (unat SLOT0_ADDR) 64 = take 64 (concat (map payload demo_frames))" by simp
  also have "\<dots> = map of_nat [0..<64]"
    unfolding demo_frames_def map_append concat_append demo_data(2) by simp
  finally show ?thesis using r by blast
qed

theorem boot_continues_without_host_witness:
  "\<exists>w'. boot_can_wait board_hal board_can demo_key demo_version False (0, replicate 8 0) demo_board = Some (boot_s_zero, w') \<and>
     sb_time w' \<le> sb_time demo_board + 500 * 1 + 500000 * 1"
  using boot_continues_without_host [OF board_time.boot_clock_axioms silent_board] by blast

theorem can_frame_roundtrip_witness:
  "can_decode (tir_value 0x103) 3 (fst (pack_words 0 [1, 2, 3] 0 0)) (snd (pack_words 0 [1, 2, 3] 0 0)) (0, [9, 9, 9, 9, 9, 9, 9, 9]) =
     (3, 0x103, [1, 2, 3, 9, 9, 9, 9, 9])"
  using can_frame_roundtrip [of "0x103" "[1, 2, 3]" "(0, [9, 9, 9, 9, 9, 9, 9, 9])"] by simp

text \<open>A board whose flash refuses to be erased.\<close>

definition worn_hal :: "sim_board hal_flash" where
  "worn_hal = board_hal\<lparr>HAL_FLASHEx_Erase := \<lambda>i w. (False, w\<lparr>sb_cells := \<lambda>_. 0xFF\<rparr>)\<rparr>"

theorem rescue_failed_restart_confirmed_witness:
  "\<exists>s' w'. cmd_confirm board_can
       (fst (cmd_start worn_hal board_can demo_key 64 (boot_s_zero\<lparr>active := True, total_len := 100, written := 100\<rparr>) demo_board))
       (snd (cmd_start worn_hal board_can demo_key 64 (boot_s_zero\<lparr>active := True, total_len := 100, written := 100\<rparr>) demo_board)) = Some (s', w') \<and>
     boot_rescue_done s'"
proof -
  have "intflash_erase worn_hal SLOT0_ADDR ((64 + 0xFFF) AND NOT 0xFFF) w = (False, snd (intflash_erase worn_hal SLOT0_ADDR ((64 + 0xFFF) AND NOT 0xFFF) w))" for w
    by (simp add: intflash_erase_def worn_hal_def board_hal_def act_in_def sim_hal_def SLOT0_ADDR_def Let_def f4_sector_tab_def)
  from rescue_failed_restart_confirmed [OF this _ _ _ _ _ silent_board, of "boot_s_zero\<lparr>active := True, total_len := 100, written := 100\<rparr>"]
  show ?thesis by (simp add: boot_s_zero_def SLOT0_SIZE_def)
qed

end
