(* ===== verification/Flash_Map.thy ===== *)
theory Flash_Map
  imports Boot_Can Config_Store
begin

unbundle bit_operations_syntax

text \<open>
  \<open>src/boot/mcuboot/flash_map_backend.c\<close>: the flash areas through which MCUboot sees the two flash devices, the
  internal flash (device 0, through \<open>intflash.c\<close>) and the NOR flash (device 1, through the back end \<open>F\<close>). Reading
  the internal flash is reading memory: \<open>rd\<close> is the byte at an address.
\<close>

definition PRIMARY_ID :: int where [hub_defs]: "PRIMARY_ID = 0"
definition SECONDARY_ID :: int where [hub_defs]: "SECONDARY_ID = 1"
definition SCRATCH_ID :: int where [hub_defs]: "SCRATCH_ID = 2"
definition SCRATCH_OFFSET :: u32 where [hub_defs]: "SCRATCH_OFFSET = 0x70000"
definition SCRATCH_SIZE :: u32 where [hub_defs]: "SCRATCH_SIZE = 0x70000"

record flash_area =
  fa_id :: u8
  fa_device_id :: u8
  fa_off :: u32
  fa_size :: u32

definition areas :: "flash_area list" where
  "areas = [\<lparr>fa_id = 0, fa_device_id = 0, fa_off = SLOT0_ADDR, fa_size = SLOT0_SIZE\<rparr>,
     \<lparr>fa_id = 1, fa_device_id = 1, fa_off = SLOT1_OFFSET, fa_size = SLOT1_SIZE\<rparr>,
     \<lparr>fa_id = 2, fa_device_id = 1, fa_off = SCRATCH_OFFSET, fa_size = SCRATCH_SIZE\<rparr>]"

definition flash_area_open :: "u8 \<Rightarrow> flash_area option" where
  "flash_area_open aid = (if unat aid \<ge> length areas then None else Some (areas ! unat aid))"

definition flash_area_read :: "'w io_flash \<Rightarrow> (u32 \<Rightarrow> 'w \<Rightarrow> u8) \<Rightarrow> flash_area \<Rightarrow> u32 \<Rightarrow> u32 \<Rightarrow> 'w \<Rightarrow> u8 list option \<times> 'w" where
  "flash_area_read F rd fap off len w =
     (if off + len > fa_size fap then (None, w)
      else if fa_device_id fap = 0 then (Some (map (\<lambda>i. rd (fa_off fap + off + of_nat i) w) [0..<unat len]), w)
      else fl_read F (fa_off fap + off) (unat len) w)"

function area_pages :: "'w io_flash \<Rightarrow> u32 \<Rightarrow> u8 list \<Rightarrow> 'w \<Rightarrow> bool \<times> 'w" where
  "area_pages F addr p w =
     (if p = [] then (True, w)
      else let chunk = unat (256 - (addr mod 256)); chunk = (if chunk > length p then length p else chunk) in
        case fl_write F addr (take chunk p) w of
          (False, w) \<Rightarrow> (False, w)
        | (True, w) \<Rightarrow> area_pages F (addr + of_nat chunk) (drop chunk p) w)"
  by pat_completeness auto
termination
proof (relation "measure (\<lambda>(F, addr, p, w). length p)")
  fix F :: "'w io_flash" and addr :: u32 and p :: "u8 list" and w c chunk r and ok :: bool and w'
  assume "p \<noteq> []" "c = unat (256 - addr mod 256)" "chunk = (if c > length p then length p else c)"
  moreover have "unat (256 - addr mod 256) > 0"
  proof -
    have "addr mod 256 < 256" by (simp add: word_mod_less_divisor)
    then show ?thesis by (simp add: word_less_nat_alt unat_sub word_le_nat_alt)
  qed
  ultimately show "((F, addr + of_nat chunk, drop chunk p, w'), F, addr, p, w) \<in> measure (\<lambda>(F, addr, p, w). length p)"
    by auto
qed auto

declare area_pages.simps [simp del]

definition flash_area_write :: "'w io_flash \<Rightarrow> 'w hal_flash \<Rightarrow> flash_area \<Rightarrow> u32 \<Rightarrow> u8 list \<Rightarrow> 'w \<Rightarrow> bool \<times> 'w" where
  "flash_area_write F H fap off src w =
     (if off + of_nat (length src) > fa_size fap then (False, w)
      else let addr = fa_off fap + off in
        if fa_device_id fap = 0 then intflash_write H addr src w else area_pages F addr src w)"

definition flash_area_erase :: "'w io_flash \<Rightarrow> 'w hal_flash \<Rightarrow> flash_area \<Rightarrow> u32 \<Rightarrow> u32 \<Rightarrow> 'w \<Rightarrow> bool \<times> 'w" where
  "flash_area_erase F H fap off len w =
     (if off + len > fa_size fap then (False, w)
      else if fa_device_id fap = 0 then intflash_erase H (fa_off fap + off) len w
      else fl_erase F (fa_off fap + off) (unat len) w)"

definition flash_area_align :: "flash_area \<Rightarrow> u32" where
  "flash_area_align fap = 1"

definition flash_area_erased_val :: "flash_area \<Rightarrow> u8" where
  "flash_area_erased_val fap = 0xFF"

text \<open>The sectors of an area as pairs of offset and size.\<close>

fun sector_list :: "u32 \<Rightarrow> u32 list \<Rightarrow> (u32 \<times> u32) list" where
  "sector_list off [] = []"
| "sector_list off (sz # szs) = (off, sz) # sector_list (off + sz) szs"

definition flash_area_get_sectors :: "int \<Rightarrow> (u32 \<times> u32) list option" where
  "flash_area_get_sectors aid =
     (if aid < 0 \<or> aid \<ge> int (length areas) then None
      else if aid = PRIMARY_ID then Some (sector_list 0 [0x10000, 0x20000, 0x20000, 0x20000])
      else Some (map (\<lambda>i. (of_nat i * 4096, 4096)) [0..<unat (fa_size (areas ! nat aid) div 4096)]))"

definition flash_area_id_from_image_slot :: "int \<Rightarrow> int" where
  "flash_area_id_from_image_slot slot = (if slot = 0 then PRIMARY_ID else SECONDARY_ID)"

definition flash_area_id_from_multi_image_slot :: "int \<Rightarrow> int \<Rightarrow> int" where
  "flash_area_id_from_multi_image_slot image_index slot = flash_area_id_from_image_slot slot"

definition flash_area_id_to_multi_image_slot :: "int \<Rightarrow> int \<Rightarrow> int" where
  "flash_area_id_to_multi_image_slot image_index area_id =
     (if area_id = PRIMARY_ID then 0 else if area_id = SECONDARY_ID then 1 else - 1)"

section \<open>Areas stay apart\<close>

text \<open>The page loop is the one of the configuration store.\<close>

lemma area_pages_write_pages: "area_pages F addr p w = write_pages F addr p w"
proof (induction "length p" arbitrary: addr p w rule: less_induct)
  case less
  show ?case
  proof (cases "p = []")
    case False
    have "unat (256 - addr mod 256) = 256 - unat addr mod 256"
      by (simp add: unat_sub word_le_nat_alt unat_mod)
    then have c: "(if unat (256 - addr mod 256) > length p then length p else unat (256 - addr mod 256)) = page_chunk addr p"
      by (simp add: page_chunk_def)
    have "length (drop (page_chunk addr p) p) < length p" using page_chunk_pos [OF False] False by simp
    then show ?thesis
      using less False by (subst area_pages.simps, subst write_pages_step) (simp_all add: Let_def c cong: prod.case_cong bool.case_cong)
  qed (simp add: area_pages.simps)
qed

text \<open>The cells of an area, on the device that holds it.\<close>

definition in_area :: "flash_area \<Rightarrow> nat \<Rightarrow> bool" where
  "in_area fap a \<longleftrightarrow> unat (fa_off fap) \<le> a \<and> a < unat (fa_off fap) + unat (fa_size fap)"

lemma areas_disjoint:
  "fap \<in> set areas \<Longrightarrow> fap' \<in> set areas \<Longrightarrow> fa_device_id fap = fa_device_id fap' \<Longrightarrow> in_area fap a \<Longrightarrow> in_area fap' a \<Longrightarrow> fap = fap'"
  by (auto simp: areas_def in_area_def hub_defs)

text \<open>Both devices in one world; working on one leaves the other alone.\<close>

locale two_flashes = i: int_flash H imem + n: nor_flash F nmem
  for H :: "'w hal_flash" and imem :: "'w \<Rightarrow> nat \<Rightarrow> u8" and F :: "'w io_flash" and nmem :: "'w \<Rightarrow> nat \<Rightarrow> u8" +
  assumes read_other: "fl_read F a k w = (r, w') \<Longrightarrow> imem w' = imem w"
    and erase_other: "fl_erase F a k w = (ok, w') \<Longrightarrow> imem w' = imem w"
    and write_other: "fl_write F a bs w = (ok, w') \<Longrightarrow> imem w' = imem w"
    and hal_other: "HAL_FLASH_Unlock H w = (ok, w') \<Longrightarrow> nmem w' = nmem w" "HAL_FLASH_Lock H w = (ok, w') \<Longrightarrow> nmem w' = nmem w"
      "HAL_FLASHEx_Erase H j w = (ok, w') \<Longrightarrow> nmem w' = nmem w" "program_word H ad v w = (ok, w') \<Longrightarrow> nmem w' = nmem w"
      "program_byte H ad b w = (ok, w') \<Longrightarrow> nmem w' = nmem w"
begin

lemma erase_sectors_other: "erase_sectors H secs a e w = (ok, w') \<Longrightarrow> nmem w' = nmem w"
proof (induction secs arbitrary: w)
  case Nil
  then show ?case using hal_other(2) by simp
next
  case (Cons sec secs)
  obtain j s k where sec: "sec = (j, s, k)" using prod_cases3 by blast
  obtain ok1 w1 where e: "HAL_FLASHEx_Erase H j w = (ok1, w1)" by fastforce
  obtain l w2 where l: "HAL_FLASH_Lock H w1 = (l, w2)" by fastforce
  show ?case using Cons.prems Cons.IH hal_other(3) [OF e] hal_other(2) [OF l] e l sec by (auto split: if_splits bool.splits)
qed

lemma intflash_erase_other: "intflash_erase H a len w = (ok, w') \<Longrightarrow> nmem w' = nmem w"
  using hal_other(1) erase_sectors_other by (fastforce simp: intflash_erase_def Let_def split: if_splits prod.splits bool.splits)

lemma write_loop_other: "write_loop H ad buf w = (ok, w') \<Longrightarrow> nmem w' = nmem w"
proof (induction "length buf" arbitrary: ad buf w rule: less_induct)
  case less
  show ?case
  proof (cases "buf = []")
    case True
    then show ?thesis using less.prems hal_other(2) by (simp add: write_loop.simps [of H ad])
  next
    case False
    define k :: nat where "k = (if ad AND 3 = 0 \<and> length buf \<ge> 4 then 4 else 1)"
    obtain ok1 w1 where p: "(if k = 4 then program_word H ad (io_get_le32 buf) w else program_byte H ad (buf ! 0) w) = (ok1, w1)" by fastforce
    have w1: "nmem w1 = nmem w" using p hal_other(4,5) by (auto split: if_splits)
    obtain l w2 where l: "HAL_FLASH_Lock H w1 = (l, w2)" by fastforce
    have "length (drop k buf) < length buf" using False by (simp add: k_def)
    then show ?thesis
      using less.hyps [of "drop k buf" "ad + of_nat k" w1] less.prems p w1 False l hal_other(2) [OF l]
      by (subst (asm) write_loop.simps) (auto simp: Let_def simp flip: k_def split: bool.splits)
  qed
qed

lemma intflash_write_other: "intflash_write H a buf w = (ok, w') \<Longrightarrow> nmem w' = nmem w"
  using hal_other(1) write_loop_other by (fastforce simp: intflash_write_def split: prod.splits bool.splits)

lemma area_pages_other: "area_pages F a bs w = (ok, w') \<Longrightarrow> imem w' = imem w"
proof -
  have "flash_keeps F imem"
    unfolding flash_keeps_def using read_other erase_other write_other by (metis prod.collapse)
  from write_pages_keeps [OF this, of a bs w] show "area_pages F a bs w = (ok, w') \<Longrightarrow> imem w' = imem w"
    by (simp add: area_pages_write_pages)
qed

lemma intflash_erase_above:
  assumes "intflash_erase H addr len w = (ok, w')" "0x08010000 \<le> addr" "a < 0x08010000 \<or> 0x08080000 \<le> a"
  shows "imem w' a = imem w a"
proof -
  obtain ok1 w1 where u: "HAL_FLASH_Unlock H w = (ok1, w1)" by fastforce
  have "imem w' a = imem w1 a" if "erase_sectors H (enumerate 0 f4_sector_tab) addr e w1 = (ok, w')" for e
  proof (rule i.erase_sectors_keeps [OF that subset_refl])
    fix j s k assume "(j, s, k) \<in> set (enumerate 0 f4_sector_tab)"
    then show "a < unat s \<or> unat s + unat k \<le> a \<or> s + k \<le> addr \<or> e \<le> s"
      using assms(2,3) by (auto simp: f4_sectors word_le_nat_alt)
  qed
  then show ?thesis
    using assms(1) u i.unlock_mem [OF u] by (auto simp: intflash_erase_def Let_def split: if_splits bool.splits)
qed

text \<open>An access that passes the check of the source and does not wrap around lies in the area.\<close>

lemma area_access:
  assumes "fap \<in> set areas" "unat off + unat len < 2 ^ 32" "\<not> off + len > fa_size fap"
  shows "unat (fa_off fap + off) = unat (fa_off fap) + unat off" "unat off + unat len \<le> unat (fa_size fap)"
    "unat (fa_off fap) + unat (fa_size fap) \<le> 0x08080000"
    "\<not> in_area fap a \<Longrightarrow> a < unat (fa_off fap + off) \<or> unat (fa_off fap + off) + unat len \<le> a"
proof -
  show le: "unat off + unat len \<le> unat (fa_size fap)"
    using assms(2,3) by (simp add: not_less word_le_nat_alt unat_word_ariths)
  show "unat (fa_off fap) + unat (fa_size fap) \<le> 0x08080000" using assms(1) by (auto simp: areas_def hub_defs)
  then show off: "unat (fa_off fap + off) = unat (fa_off fap) + unat off" using le by (simp add: unat_word_ariths)
  show "a < unat (fa_off fap + off) \<or> unat (fa_off fap + off) + unat len \<le> a" if "\<not> in_area fap a"
    using that le unfolding off in_area_def by linarith
qed

lemma flash_area_write_area:
  assumes "flash_area_write F H fap off src w = (ok, w')" "fap \<in> set areas" "unat off + length src < 2 ^ 32"
  shows "imem w' a = imem w a \<or> fa_device_id fap = 0 \<and> in_area fap a"
    and "nmem w' a = nmem w a \<or> fa_device_id fap \<noteq> 0 \<and> in_area fap a"
proof -
  have len: "unat (of_nat (length src) :: u32) = length src" using assms(3) by (simp add: unat_of_nat take_bit_nat_eq_self)
  show "imem w' a = imem w a \<or> fa_device_id fap = 0 \<and> in_area fap a" "nmem w' a = nmem w a \<or> fa_device_id fap \<noteq> 0 \<and> in_area fap a"
  proof (atomize (full), cases "off + of_nat (length src) > fa_size fap")
    case False
    note ac = area_access [OF assms(2) _ False, unfolded len, OF assms(3)]
    have b: "unat (fa_off fap + off) + length src < 2 ^ 32" using ac by simp
    show "(imem w' a = imem w a \<or> fa_device_id fap = 0 \<and> in_area fap a) \<and> (nmem w' a = nmem w a \<or> fa_device_id fap \<noteq> 0 \<and> in_area fap a)"
    proof (cases "fa_device_id fap = 0")
      case True
      then have wr: "intflash_write H (fa_off fap + off) src w = (ok, w')" using assms(1) False by (simp add: flash_area_write_def)
      then show ?thesis using intflash_write_other [OF wr] i.intflash_write_writes(1) [OF wr b, of a] ac(4) [of a] True by auto
    next
      case F: False
      then have wr: "area_pages F (fa_off fap + off) src w = (ok, w')" using assms(1) False by (simp add: flash_area_write_def Let_def)
      then show ?thesis
        using area_pages_other [OF wr] n.write_pages_frame [OF wr [unfolded area_pages_write_pages] b, of a] ac(4) [of a] F by auto
    qed
  qed (use assms(1) in \<open>simp add: flash_area_write_def\<close>)
qed

lemma flash_area_erase_area:
  assumes "flash_area_erase F H fap off len w = (ok, w')" "fap \<in> set areas" "unat off + unat len < 2 ^ 32"
  shows "imem w' a = imem w a \<or> fa_device_id fap = 0 \<and> in_area fap a"
    and "nmem w' a = nmem w a \<or> fa_device_id fap \<noteq> 0 \<and> in_area fap a"
proof (atomize (full), cases "off + len > fa_size fap")
  case False
  note ac = area_access [OF assms(2,3) False]
  show "(imem w' a = imem w a \<or> fa_device_id fap = 0 \<and> in_area fap a) \<and> (nmem w' a = nmem w a \<or> fa_device_id fap \<noteq> 0 \<and> in_area fap a)"
  proof (cases "fa_device_id fap = 0")
    case True
    then have er: "intflash_erase H (fa_off fap + off) len w = (ok, w')" using assms(1) False by (simp add: flash_area_erase_def)
    have slot: "fa_off fap = 0x08010000" "fa_size fap = 0x70000" using assms(2) True by (auto simp: areas_def hub_defs)
    have "0x08010000 \<le> fa_off fap + off" using ac(1) slot by (simp add: word_le_nat_alt)
    then show ?thesis using intflash_erase_other [OF er] intflash_erase_above [OF er, of a] True slot
      by (cases "in_area fap a") (auto simp: in_area_def)
  next
    case F: False
    then have er: "fl_erase F (fa_off fap + off) (unat len) w = (ok, w')" using assms(1) False by (simp add: flash_area_erase_def)
    then show ?thesis using erase_other [OF er] n.erase_frame [OF er, of a] ac(4) [of a] F by auto
  qed
qed (use assms(1) in \<open>simp add: flash_area_erase_def\<close>)

lemma flash_area_write_reads:
  assumes "flash_area_write F H fap off src w = (True, w')" "fap \<in> set areas" "unat off + length src < 2 ^ 32"
    and "mem_bytes (if fa_device_id fap = 0 then imem w else nmem w) (unat (fa_off fap) + unat off) (length src) = replicate (length src) 0xFF"
    and "flash_area_read F (\<lambda>a w. imem w (unat a)) fap off (of_nat (length src)) w' = (Some bs, w'')"
  shows "bs = src"
proof -
  have len: "unat (of_nat (length src) :: u32) = length src" using assms(3) by (simp add: unat_of_nat take_bit_nat_eq_self)
  have chk: "\<not> off + of_nat (length src) > fa_size fap" using assms(1) by (auto simp: flash_area_write_def)
  note ac = area_access [OF assms(2) _ chk, unfolded len, OF assms(3)]
  have b: "unat (fa_off fap + off) + length src < 2 ^ 32" using ac by simp
  show ?thesis
  proof (cases "fa_device_id fap = 0")
    case True
    then have wr: "intflash_write H (fa_off fap + off) src w = (True, w')" using assms(1) chk by (simp add: flash_area_write_def)
    have "mem_bytes (imem w') (unat (fa_off fap + off)) (length src) = src"
      using i.intflash_write_writes(2) [OF wr b] assms(4) True ac(1) by simp
    moreover have "bs = mem_bytes (imem w') (unat (fa_off fap + off)) (length src)"
    proof (rule nth_equalityI)
      have bs: "bs = map (\<lambda>i. imem w' (unat (fa_off fap + off + of_nat i))) [0..<length src]"
        using assms(5) True chk len by (auto simp: flash_area_read_def)
      show "length bs = length (mem_bytes (imem w') (unat (fa_off fap + off)) (length src))" by (simp add: bs)
      fix i assume "i < length bs"
      then have "i < length src" by (simp add: bs)
      moreover from this have "unat (fa_off fap + off + of_nat i) = unat (fa_off fap + off) + i"
        using b by (simp add: unat_word_ariths unat_of_nat)
      ultimately show "bs ! i = mem_bytes (imem w') (unat (fa_off fap + off)) (length src) ! i" by (simp add: bs)
    qed
    ultimately show ?thesis by simp
  next
    case False
    then have wr: "write_pages F (fa_off fap + off) src w = (True, w')"
      using assms(1) chk by (simp add: flash_area_write_def Let_def area_pages_write_pages)
    have "mem_bytes (nmem w') (unat (fa_off fap + off)) (length src) = src"
      using n.write_pages_data [OF wr b] assms(4) False ac(1) by simp
    moreover have "fl_read F (fa_off fap + off) (length src) w' = (Some bs, w'')" using assms(5) False chk len by (simp add: flash_area_read_def)
    ultimately show ?thesis using n.read_data by metis
  qed
qed

end

text \<open>
  The areas of the boot process stay apart: a write or an erase through one of them, of any offset and length whose sum
  does not wrap around, changes no cell outside the area on its device and no cell of the other device, whether or not it
  succeeds. So neither a swap of images nor an upgrade request reaches the boot loader, the configuration or the history.
\<close>

theorem flash_areas_stay_apart:
  assumes "two_flashes H imem F nmem" "fap \<in> set areas" "unat off + length src < 2 ^ 32" "unat off + unat len < 2 ^ 32"
    and "flash_area_write F H fap off src w = (ok, w1)" "flash_area_erase F H fap off len w = (ok', w2)" "w' \<in> {w1, w2}"
  shows "(imem w' a = imem w a \<or> fa_device_id fap = 0 \<and> in_area fap a) \<and> (nmem w' a = nmem w a \<or> fa_device_id fap \<noteq> 0 \<and> in_area fap a)"
  using two_flashes.flash_area_write_area [OF assms(1,5,2,3), of a] two_flashes.flash_area_erase_area [OF assms(1,6,2,4), of a] assms(7)
  by auto

text \<open>
  What MCUboot writes through an area to erased cells is what it reads from there, on both devices.
\<close>

theorem flash_area_write_read:
  assumes "two_flashes H imem F nmem" "fap \<in> set areas" "unat off + length src < 2 ^ 32"
    and "flash_area_write F H fap off src w = (True, w')"
    and "mem_bytes (if fa_device_id fap = 0 then imem w else nmem w) (unat (fa_off fap) + unat off) (length src) = replicate (length src) 0xFF"
    and "flash_area_read F (\<lambda>a w. imem w (unat a)) fap off (of_nat (length src)) w' = (Some bs, w'')"
  shows "bs = src"
  by (rule two_flashes.flash_area_write_reads [OF assms(1,4,2,3,5,6)])

text \<open>
  The check of the source adds offset and length without regard to the wrap-around: an erase of the last page of the
  address range passes it and erases the last sector of the boot loader.
\<close>

theorem flash_area_wrap_hits_boot_loader:
  "flash_area_erase F sim_hal (areas ! 0) 0xFFFFF000 0x1000 m = (True, m') \<Longrightarrow> a \<in> {0x0800C000..<0x08010000} \<Longrightarrow> m' a = 0xFF"
  by (auto simp: flash_area_erase_def areas_def SLOT0_ADDR_def SLOT0_SIZE_def intflash_erase_def Let_def f4_sector_tab_def sim_hal_def)

text \<open>
  The sector list that MCUboot gets covers each area without gap or overlap, and for slot 0 it is the list of the erase
  sectors 4 to 7 of the internal flash.
\<close>

theorem flash_area_sectors_tile:
  assumes "aid \<in> {0, 1, 2}"
  shows "\<exists>secs. flash_area_get_sectors aid = Some secs \<and> sector_list 0 (map snd secs) = secs \<and>
    sum_list (map (unat \<circ> snd) secs) = unat (fa_size (areas ! nat aid)) \<and>
    (aid = 0 \<longrightarrow> map (\<lambda>(off, sz). (fa_off (areas ! 0) + off, sz)) secs = drop 4 f4_sector_tab)"
proof -
  have nor: "sector_list x (map snd (map (\<lambda>i. (x + of_nat i * 4096, 4096)) [0..<n])) = map (\<lambda>i. (x + of_nat i * 4096, 4096)) [0..<n]" for x :: u32 and n
  proof (induction n arbitrary: x)
    case (Suc n)
    have "map (\<lambda>i. (x + of_nat i * 4096, 4096 :: u32)) [0..<Suc n] = (x, 4096) # map (\<lambda>i. (x + 4096 + of_nat i * 4096, 4096)) [0..<n]"
      by (simp add: map_upt_Suc algebra_simps del: upt_Suc)
    then show ?case using Suc [of "x + 4096"] by (simp add: comp_def del: upt_Suc)
  qed simp
  have sum: "sum_list (map (unat \<circ> snd) (map (\<lambda>i. (of_nat i * 4096, 4096 :: u32)) [0..<n])) = n * 4096" for n
    by (induction n) simp_all
  consider "aid = 0" | "aid = 1" | "aid = 2" using assms by auto
  then show ?thesis
  proof cases
    case 1
    then show ?thesis
      by (simp add: flash_area_get_sectors_def areas_def PRIMARY_ID_def f4_sector_tab_def SLOT0_ADDR_def SLOT0_SIZE_def)
  next
    case 2
    then show ?thesis using nor [of 0 112] sum [of 112]
      by (simp add: flash_area_get_sectors_def areas_def PRIMARY_ID_def SLOT1_SIZE_def del: upt_Suc upt_rec_numeral)
  next
    case 3
    then show ?thesis using nor [of 0 112] sum [of 112]
      by (simp add: flash_area_get_sectors_def areas_def PRIMARY_ID_def SCRATCH_SIZE_def del: upt_Suc upt_rec_numeral)
  qed
qed

section \<open>A simulated pair of devices\<close>

type_synonym sim_flashes = "(nat \<Rightarrow> u8) \<times> fake_mem"

definition pair_hal :: "sim_flashes hal_flash" where
  "pair_hal = hal_in fst (\<lambda>m v. (m, snd v)) sim_hal"

definition pair_nor :: "sim_flashes io_flash" where
  "pair_nor = flash_in snd (\<lambda>m v. (fst v, m)) fake_flash"

interpretation pair: two_flashes pair_hal fst pair_nor snd
proof -
  have "int_flash pair_hal (\<lambda>v. fst v)" unfolding pair_hal_def by (rule int_flash_in [OF sim_hal.int_flash_axioms]) simp
  moreover have "nor_flash pair_nor (\<lambda>v. snd v)" unfolding pair_nor_def by (rule nor_flash_in [OF fake.nor_flash_axioms]) simp
  ultimately show "two_flashes pair_hal fst pair_nor snd"
    by (rule two_flashes.intro) (unfold_locales, auto simp: pair_nor_def pair_hal_def act_in_def)
qed

definition blank_pair :: sim_flashes where
  "blank_pair = ((\<lambda>_. 0xFF), (\<lambda>_. 0xFF))"

theorem flash_areas_stay_apart_witness:
  "fst (snd (flash_area_write pair_nor pair_hal (areas ! 0) 4 [1, 2, 3, 4, 5] blank_pair)) 0x0800FFFF = 0xFF"
proof -
  have "areas ! 0 \<in> set areas" "\<not> in_area (areas ! 0) 0x0800FFFF" by (simp_all add: areas_def in_area_def SLOT0_ADDR_def)
  moreover obtain ok w1 ok' w2 where "flash_area_write pair_nor pair_hal (areas ! 0) 4 [1, 2, 3, 4, 5] blank_pair = (ok, w1)"
    "flash_area_erase pair_nor pair_hal (areas ! 0) 4 8 blank_pair = (ok', w2)" by (metis prod.collapse)
  ultimately show ?thesis
    using flash_areas_stay_apart [OF pair.two_flashes_axioms, of "areas ! 0" 4 "[1, 2, 3, 4, 5]" 8 blank_pair ok w1 ok' w2 w1 "0x0800FFFF"]
    by (simp add: blank_pair_def)
qed

theorem flash_area_sectors_tile_witness:
  "\<exists>secs. flash_area_get_sectors 2 = Some secs \<and> sum_list (map (unat \<circ> snd) secs) = 0x70000"
proof -
  obtain secs where "flash_area_get_sectors 2 = Some secs" "sum_list (map (unat \<circ> snd) secs) = unat (fa_size (areas ! nat 2))"
    using flash_area_sectors_tile [of 2] by auto
  then show ?thesis by (auto simp: areas_def SCRATCH_SIZE_def)
qed

theorem flash_area_wrap_hits_boot_loader_witness:
  "\<exists>m'. flash_area_erase fake_flash sim_hal (areas ! 0) 0xFFFFF000 0x1000 (\<lambda>_. 0) = (True, m') \<and> m' 0x0800F000 = 0xFF"
proof -
  obtain m' where m': "flash_area_erase fake_flash sim_hal (areas ! 0) 0xFFFFF000 0x1000 (\<lambda>_. 0) = (True, m')"
    by (simp add: flash_area_erase_def areas_def SLOT0_ADDR_def SLOT0_SIZE_def intflash_erase_def Let_def f4_sector_tab_def sim_hal_def)
  from flash_area_wrap_hits_boot_loader [OF this, of "0x0800F000"] show ?thesis using m' by auto
qed

end
