(* ===== verification/Web_Cmds.thy ===== *)
theory Web_Cmds
  imports Regmap
begin

unbundle bit_operations_syntax

text \<open>
  The commands and documents shared by the HTTP server and the WebSocket: \<open>src/web/web_json.h\<close> (looking up fields of
  a JSON text) and \<open>src/web/web_cmds.c\<close> (executing commands on the registers, building the JSON documents). A text is
  the string up to its length; the byte behind it is the NUL that the callers put there. \<open>long\<close> has 32 bits.
\<close>

section \<open>The C library\<close>

definition isspace :: "char \<Rightarrow> bool" where
  "isspace c \<longleftrightarrow> c \<in> {CHR '' '', CHR 0x09, CHR 0x0A, CHR 0x0B, CHR 0x0C, CHR 0x0D}"

text \<open>The value of a digit; 36 for any other character.\<close>

definition digit_val :: "char \<Rightarrow> nat" where
  "digit_val c =
     (let n = of_char c in
      if 48 \<le> n \<and> n \<le> 57 then n - 48 else if 97 \<le> n \<and> n \<le> 122 then n - 87 else if 65 \<le> n \<and> n \<le> 90 then n - 55 else 36)"

definition scan_digits :: "nat \<Rightarrow> string \<Rightarrow> (nat \<times> string) option" where
  "scan_digits base s =
     (let ds = takeWhile (\<lambda>c. digit_val c < base) s
      in if ds = [] then None else Some (foldl (\<lambda>n c. n * base + digit_val c) 0 ds, drop (length ds) s))"

definition scan_sign :: "string \<Rightarrow> bool \<times> string" where
  "scan_sign s = (case dropWhile isspace s of c # r \<Rightarrow> if c = CHR ''-'' then (True, r) else if c = CHR ''+'' then (False, r) else (False, c # r) | [] \<Rightarrow> (False, []))"

text \<open>\<open>strtol(s, &end, 0)\<close>: the value and the text from \<open>end\<close> on, \<open>None\<close> if \<open>end\<close> is \<open>s\<close>.\<close>

definition strtol_0 :: "string \<Rightarrow> (int \<times> string) option" where
  "strtol_0 s =
     (case scan_sign s of (neg, r) \<Rightarrow>
        let hex = (if take 2 r \<in> {''0x'', ''0X''} then scan_digits 16 (drop 2 r) else None);
            num = (case hex of Some x \<Rightarrow> Some x | None \<Rightarrow> scan_digits (if take 1 r = ''0'' then 8 else 10) r)
        in map_option (\<lambda>(n, e). (if neg then max (- int n) (- (2 ^ 31)) else min (int n) (2 ^ 31 - 1), e)) num)"

text \<open>\<open>strtoul(s, &end, 10)\<close>.\<close>

definition strtoul_10 :: "string \<Rightarrow> (u32 \<times> string) option" where
  "strtoul_10 s =
     (case scan_sign s of (neg, r) \<Rightarrow>
        map_option (\<lambda>(n, e). (if n \<ge> 2 ^ 32 then - 1 else if neg then - of_nat n else of_nat n, e)) (scan_digits 10 r))"

section \<open>JSON fields (web\_json.h)\<close>

definition blank :: "char \<Rightarrow> bool" where
  "blank c \<longleftrightarrow> c = CHR '' '' \<or> c = CHR 0x09"

text \<open>The text from the value of a key on.\<close>

function json_find_value :: "string \<Rightarrow> string \<Rightarrow> string option" where
  "json_find_value buf key =
     (if length key + 2 \<le> length buf then
        (if hd buf = CHR 0x22 \<and> take (length key) (drop 1 buf) = key \<and> buf ! (length key + 1) = CHR 0x22 then
           (case dropWhile blank (drop (length key + 2) buf) of
              c # r \<Rightarrow> if c = CHR '':'' then Some (dropWhile blank r) else json_find_value (drop 1 buf) key
            | [] \<Rightarrow> json_find_value (drop 1 buf) key)
         else json_find_value (drop 1 buf) key)
      else None)"
  by pat_completeness auto
termination
  by (relation "measure (\<lambda>(buf, key). length buf)") auto

declare json_find_value.simps [simp del]

definition json_get_i32 :: "string \<Rightarrow> string \<Rightarrow> int option" where
  "json_get_i32 buf key =
     (case json_find_value buf key of
        None \<Rightarrow> None
      | Some v \<Rightarrow>
          if v = [] then None
          else if take 4 v = ''true'' then Some 1
          else if take 5 v = ''false'' then Some 0
          else map_option fst (strtol_0 v))"

definition json_get_str :: "string \<Rightarrow> string \<Rightarrow> nat \<Rightarrow> string option" where
  "json_get_str buf key outsz =
     (case json_find_value buf key of
        None \<Rightarrow> None
      | Some v \<Rightarrow>
          if v = [] \<or> hd v \<noteq> CHR 0x22 then None
          else let v = tl v; txt = takeWhile (\<lambda>c. c \<noteq> CHR 0x22 \<and> c \<noteq> CHR 0x00) v; rest = drop (length txt) v in
            if rest = [] \<or> hd rest \<noteq> CHR 0x22 then None else Some (take (outsz - 1) txt))"

function url_query_get :: "string \<Rightarrow> string \<Rightarrow> nat \<Rightarrow> string option" where
  "url_query_get p key outsz =
     (if p = [] then None
      else let p = (if hd p = CHR ''?'' \<or> hd p = CHR ''&'' then tl p else p) in
        if take (length key + 1) p = key @ ''='' then Some (take (outsz - 1) (takeWhile (\<lambda>c. c \<noteq> CHR ''&'') (drop (length key + 1) p)))
        else url_query_get (dropWhile (\<lambda>c. c \<noteq> CHR ''&'') p) key outsz)"
  by pat_completeness auto
termination
proof (relation "measure (\<lambda>(p, key, outsz). length p)")
  fix p key :: string and outsz :: nat and q
  assume p: "p \<noteq> []" and q: "q = (if hd p = CHR ''?'' \<or> hd p = CHR ''&'' then tl p else p)"
  have "length (dropWhile (\<lambda>c. c \<noteq> CHR ''&'') q) < length p"
  proof (cases "hd p = CHR ''?'' \<or> hd p = CHR ''&''")
    case True
    then have "length q < length p" using p q by simp
    then show ?thesis using length_dropWhile_le [of "\<lambda>c. c \<noteq> CHR ''&''" q] by linarith
  next
    case False
    then obtain c r where "p = c # r" "c \<noteq> CHR ''&''" using p by (cases p) auto
    then show ?thesis using False q length_dropWhile_le [of "\<lambda>c. c \<noteq> CHR ''&''" r] by simp
  qed
  then show "((dropWhile (\<lambda>c. c \<noteq> CHR ''&'') q, key, outsz), p, key, outsz) \<in> measure (\<lambda>(p, key, outsz). length p)" by simp
qed auto

declare url_query_get.simps [simp del]

section \<open>Documents (web\_cmds.c)\<close>

text \<open>A text with backquotes for its double quotes.\<close>

definition qq :: "string \<Rightarrow> string" where
  "qq s = map (\<lambda>c. if c = CHR 0x60 then CHR 0x22 else c) s"

text \<open>Successive calls \<open>n += snprintf(buf + n, bufsz - n, ...)\<close>.\<close>

fun print_all :: "nat \<Rightarrow> string list \<Rightarrow> string \<times> nat \<Rightarrow> (string \<times> nat) option" where
  "print_all bufsz [] b = Some b"
| "print_all bufsz (s # ss) b = (case snprintf_at bufsz s b of None \<Rightarrow> None | Some b \<Rightarrow> print_all bufsz ss b)"

definition json_item :: "nat \<Rightarrow> nat \<Rightarrow> string" where
  "json_item i v = (if i = 0 then [] else '','') @ dec_str v"

text \<open>The text in the buffer and the value returned; \<open>ms\<close> is the tick count in milliseconds.\<close>

definition web_build_io_json :: "u32 \<Rightarrow> nat \<Rightarrow> 'w dev \<Rightarrow> (string \<times> nat) option" where
  "web_build_io_json ms bufsz s =
     (let di = get_input_reg (of_nat INPUT_DI_IDX) s; do_v = get_holding_reg (of_nat HOLDING_DO_IDX) s;
          di_en = get_holding_reg (of_nat HOLDING_DI_ENABLE_IDX) s; ai_en = get_holding_reg (of_nat HOLDING_AI_ENABLE_IDX) s
      in map_option (\<lambda>(buf, n). (buf, if n > bufsz then bufsz else n)) (print_all bufsz
        ([qq ''{`t`:`io`,`di`:[''] @ map (\<lambda>i. json_item i (unat (drop_bit i di AND 1))) [0..<DI_NUM] @
         [qq ''],`do`:[''] @ map (\<lambda>i. json_item i (unat (drop_bit i do_v AND 1))) [0..<DO_NUM] @
         [qq ''],`ai`:[''] @ map (\<lambda>i. json_item i (unat (get_input_reg (of_nat (INPUT_AI0_IDX + i)) s))) [0..<AI_NUM] @
         [qq ''],`di_en`:'' @ dec_str (unat di_en) @ qq '',`ai_en`:'' @ dec_str (unat ai_en) @ qq '',`ms`:'' @ dec_str (unat ms) @ ''}''])
        ([], 0)))"

definition web_build_regs_json :: "nat \<Rightarrow> 'w dev \<Rightarrow> (string \<times> nat) option" where
  "web_build_regs_json bufsz s =
     map_option (\<lambda>(buf, n). (buf, if n > bufsz then bufsz else n)) (print_all bufsz
       ([qq ''{`t`:`regs`,`holding`:[''] @ map (\<lambda>i. json_item i (unat (io_read_holding (of_nat i) s))) [0..<MODBUS_HOLDING_REGISTER_NUMBERS] @
        [qq ''],`input`:[''] @ map (\<lambda>i. json_item i (unat (get_input_reg (of_nat i) s))) [0..<MODBUS_INPUT_REGISTER_NUMBERS] @ ['']}''])
       ([], 0))"

text \<open>What the info document takes from elsewhere: the build, the MAC address if there is one, the state of the link.\<close>

record web_env =
  we_version :: "nat \<times> nat \<times> nat \<times> string"
  we_build :: string
  we_mac :: "u8 list option"
  we_usage :: "u64 \<times> u64"
  we_link :: bool

definition hex_digit :: "nat \<Rightarrow> char" where
  "hex_digit n = (if n < 10 then char_of (48 + n) else char_of (87 + n))"

definition mac_text :: "u8 list option \<Rightarrow> string" where
  "mac_text m =
     (case m of None \<Rightarrow> ''00:00:00:00:00:00''
      | Some mac \<Rightarrow> tl (concat (map (\<lambda>b. '':'' @ [hex_digit (unat b div 16), hex_digit (unat b mod 16)]) mac)))"

definition reg_dec :: "nat \<Rightarrow> 'w dev \<Rightarrow> string" where
  "reg_dec i s = dec_str (unat (get_holding_reg (of_nat i) s))"

definition info_text :: "web_env \<Rightarrow> u32 \<Rightarrow> 'w dev \<Rightarrow> string" where
  "info_text E ms s =
     (case we_version E of (major, minor, patch, git) \<Rightarrow>
      qq ''{`t`:`info`,`version`:`v'' @ dec_str major @ ''.'' @ dec_str minor @ ''.'' @ dec_str patch @ ''_'' @ git @
      qq ''`,`build`:`'' @ we_build E @ qq ''`,`board`:`io_edge_f407vet6`,`hclk_mhz`:168,`flash_kb`:512,`sram_kb`:192,`mac`:`'' @ mac_text (we_mac E) @
      qq ''`,`ip`:`'' @ reg_dec HOLDING_IP_OCTET1_IDX s @ ''.'' @ reg_dec (HOLDING_IP_OCTET1_IDX + 1) s @ ''.'' @
        reg_dec (HOLDING_IP_OCTET1_IDX + 2) s @ ''.'' @ reg_dec (HOLDING_IP_OCTET1_IDX + 3) s @
      qq ''`,`slave_id`:'' @ reg_dec HOLDING_SLAVE_ID_IDX s @ qq '',`rs485_baud`:'' @ reg_dec HOLDING_RS485_BAUDRATE_IDX s @
      qq '',`can_id`:'' @ reg_dec HOLDING_CAN_ID_IDX s @ qq '',`can_baud`:'' @ reg_dec HOLDING_CAN_BAUDRATE_IDX s @
      qq '',`uptime_ms`:'' @ dec_str (unat ms) @ qq '',`time`:'' @ dec_str (unat (io_now_epoch (clock s))) @
      qq '',`hist_en`:'' @ (if get_holding_reg (of_nat HOLDING_HISTORY_ENABLE_IDX) s \<noteq> 0 then ''1'' else ''0'') @
      qq '',`lfs_free`:'' @ dec_str (unat (ucast (fst (we_usage E)) :: u32)) @ qq '',`lfs_total`:'' @ dec_str (unat (ucast (snd (we_usage E)) :: u32)) @
      qq '',`net_up`:'' @ (if we_link E then ''true'' else ''false'') @
      qq '',`di_ms`:'' @ reg_dec HOLDING_DI_SAMPLE_MS_IDX s @ qq '',`ai_ms`:'' @ reg_dec HOLDING_AI_SAMPLE_MS_IDX s @ ''}'')"

definition web_build_info_json :: "web_env \<Rightarrow> u32 \<Rightarrow> nat \<Rightarrow> 'w dev \<Rightarrow> (string \<times> nat) option" where
  "web_build_info_json E ms bufsz s =
     map_option (\<lambda>(buf, n). (buf, if n > bufsz then bufsz else n)) (snprintf_at bufsz (info_text E ms s) ([], 0))"

section \<open>Commands\<close>

definition web_cmd_exec_do :: "'w board \<Rightarrow> int \<Rightarrow> int \<Rightarrow> 'w dev \<Rightarrow> int \<times> 'w dev" where
  "web_cmd_exec_do B index val s =
     (if index < 0 \<or> index \<ge> int DO_NUM then (- 1, s) else io_write_do_bit B (of_int index) (val \<noteq> 0) s)"

definition web_cmd_exec_reg :: "'w board \<Rightarrow> int \<Rightarrow> int \<Rightarrow> 'w dev \<Rightarrow> (int, 'w dev) outcome" where
  "web_cmd_exec_reg B addr val s =
     (if addr < 0 \<or> addr \<ge> int MODBUS_HOLDING_REGISTER_NUMBERS \<or> val < 0 \<or> val > 0xFFFF then Ret (- 1) s
      else if addr = int HOLDING_REBOOT_IDX then Ret 0 (if val \<noteq> 0 then set_reboot_status True s else s)
      else io_write_holding B (of_int addr) (of_int val) s)"

text \<open>Dotted decimal: the octets of the text, \<open>None\<close> if it is not an address.\<close>

fun parse_octets :: "nat \<Rightarrow> string \<Rightarrow> u32 list option" where
  "parse_octets 0 p = Some []"
| "parse_octets (Suc k) p =
     (case strtoul_10 p of
        None \<Rightarrow> None
      | Some (v, e) \<Rightarrow>
          if v > 255 \<or> (k > 0 \<and> (e = [] \<or> hd e \<noteq> CHR ''.'')) then None
          else map_option ((#) v) (parse_octets k (tl e)))"

definition cfg_ip :: "'w board \<Rightarrow> string \<Rightarrow> 'w dev \<Rightarrow> (string option, 'w dev) outcome" where
  "cfg_ip B json s =
     (case json_get_str json ''ip'' 16 of
        None \<Rightarrow> Ret None s
      | Some ip_str \<Rightarrow>
          (case parse_octets 4 ip_str of
             None \<Rightarrow> Ret (Some ''invalid ip'') s
           | Some oct \<Rightarrow>
               if \<not> ip_addr_valid (ucast (oct ! 0)) (ucast (oct ! 1)) (ucast (oct ! 2)) (ucast (oct ! 3)) then Ret (Some ''invalid ip'') s
               else outcome_bind (io_write_holding B (of_nat HOLDING_IP_OCTET1_IDX) (ucast (oct ! 0)) s) (\<lambda>_ s.
                 outcome_bind (io_write_holding B (of_nat (HOLDING_IP_OCTET1_IDX + 1)) (ucast (oct ! 1)) s) (\<lambda>_ s.
                 outcome_bind (io_write_holding B (of_nat (HOLDING_IP_OCTET1_IDX + 2)) (ucast (oct ! 2)) s) (\<lambda>_ s.
                 outcome_bind (io_write_holding B (of_nat (HOLDING_IP_OCTET1_IDX + 3)) (ucast (oct ! 3)) s) (\<lambda>_ s. Ret None s))))))"

text \<open>A number that is optional, checked, and written to a register.\<close>

definition cfg_num :: "'w board \<Rightarrow> string \<Rightarrow> string \<Rightarrow> (int \<Rightarrow> bool) \<Rightarrow> string \<Rightarrow> nat \<Rightarrow> 'w dev \<Rightarrow> (string option, 'w dev) outcome" where
  "cfg_num B json key ok err idx s =
     (case json_get_i32 json key of
        None \<Rightarrow> Ret None s
      | Some v \<Rightarrow> if \<not> ok v then Ret (Some err) s
          else outcome_bind (io_write_holding B (of_nat idx) (of_int v) s) (\<lambda>_ s. Ret None s))"

definition stop_on_error :: "(string option, 'w dev) outcome \<Rightarrow> ('w dev \<Rightarrow> (string option, 'w dev) outcome) \<Rightarrow> (string option, 'w dev) outcome" where
  "stop_on_error r f = outcome_bind r (\<lambda>e s. case e of None \<Rightarrow> f s | Some m \<Rightarrow> Ret (Some m) s)"

definition rs485_ok :: "int \<Rightarrow> bool" where "rs485_ok v \<longleftrightarrow> 1200 \<le> v \<and> v \<le> 115200"
definition sid_ok :: "int \<Rightarrow> bool" where "sid_ok v \<longleftrightarrow> 1 \<le> v \<and> v \<le> 247"
definition can_bps_ok :: "int \<Rightarrow> bool" where "can_bps_ok v \<longleftrightarrow> v \<in> {50, 100, 125, 250, 500, 800, 1000}"
definition can_id_ok :: "int \<Rightarrow> bool" where "can_id_ok v \<longleftrightarrow> 1 \<le> v \<and> v \<le> 0x7FF"

text \<open>\<open>Some\<close> of the error text is the result -1.\<close>

definition web_cmd_exec_cfg :: "'w board \<Rightarrow> string \<Rightarrow> 'w dev \<Rightarrow> (string option, 'w dev) outcome" where
  "web_cmd_exec_cfg B json s =
     stop_on_error (cfg_ip B json s) (\<lambda>s.
     stop_on_error (cfg_num B json ''rs485'' rs485_ok ''invalid rs485 baud'' HOLDING_RS485_BAUDRATE_IDX s) (\<lambda>s.
     stop_on_error (cfg_num B json ''sid'' sid_ok ''invalid slave id'' HOLDING_SLAVE_ID_IDX s) (\<lambda>s.
     stop_on_error (cfg_num B json ''can_bps'' can_bps_ok ''invalid can baud'' HOLDING_CAN_BAUDRATE_IDX s) (\<lambda>s.
     cfg_num B json ''can_id'' can_id_ok ''invalid can id'' HOLDING_CAN_ID_IDX s))))"

section \<open>What the commands do\<close>

text \<open>Registers whose only effect is their value.\<close>

definition plain_reg :: "nat \<Rightarrow> bool" where
  "plain_reg i \<longleftrightarrow> i < MODBUS_HOLDING_REGISTER_NUMBERS \<and>
     i \<notin> {HOLDING_DO_IDX, HOLDING_HISTORY_ENABLE_IDX, HOLDING_TIMESTAMP_LO_IDX, HOLDING_CONFIG_SAVE_IDX, HOLDING_REBOOT_IDX}"

lemma plain_write:
  assumes "wf_dev s" "plain_reg i"
  shows "io_write_holding B (of_nat i) v s = Ret 0 (s\<lparr>holding_reg := (holding_reg s)[i := v]\<rparr>)"
proof -
  have i: "i < 18" using assms(2) by (simp add: plain_reg_def hub_defs)
  then have "unat (of_nat i :: u16) = i" by (simp add: unat_of_nat)
  moreover have "(holding_reg s)[i := v] = holding_reg s" if "holding_reg s ! i = v" using that by (metis list_update_id)
  ultimately show ?thesis
    using assms i by (auto simp: io_write_holding_def wf_dev_def plain_reg_def hub_defs Let_def)
qed

lemma wf_plain [simp]: "wf_dev (s\<lparr>holding_reg := (holding_reg s)[i := v]\<rparr>) = wf_dev s"
  by (simp add: wf_dev_def)

text \<open>A configuration field: absent, invalid, or the registers it sets.\<close>

type_synonym cfg_field = "(string + (nat \<times> u16) list) option"

definition num_field :: "string \<Rightarrow> string \<Rightarrow> (int \<Rightarrow> bool) \<Rightarrow> string \<Rightarrow> nat \<Rightarrow> cfg_field" where
  "num_field json key ok err idx = map_option (\<lambda>v. if ok v then Inr [(idx, of_int v)] else Inl err) (json_get_i32 json key)"

definition ip_field :: "string \<Rightarrow> cfg_field" where
  "ip_field json = map_option (\<lambda>t. case parse_octets 4 t of
     None \<Rightarrow> Inl ''invalid ip''
   | Some oct \<Rightarrow> if ip_addr_valid (ucast (oct ! 0)) (ucast (oct ! 1)) (ucast (oct ! 2)) (ucast (oct ! 3))
       then Inr (map (\<lambda>i. (HOLDING_IP_OCTET1_IDX + i, ucast (oct ! i))) [0..<4]) else Inl ''invalid ip'') (json_get_str json ''ip'' 16)"

definition cfg_fields :: "string \<Rightarrow> cfg_field list" where
  "cfg_fields json = [ip_field json, num_field json ''rs485'' rs485_ok ''invalid rs485 baud'' HOLDING_RS485_BAUDRATE_IDX,
     num_field json ''sid'' sid_ok ''invalid slave id'' HOLDING_SLAVE_ID_IDX,
     num_field json ''can_bps'' can_bps_ok ''invalid can baud'' HOLDING_CAN_BAUDRATE_IDX,
     num_field json ''can_id'' can_id_ok ''invalid can id'' HOLDING_CAN_ID_IDX]"

text \<open>The first error, and the registers of the fields before it.\<close>

fun cfg_spec :: "cfg_field list \<Rightarrow> string option \<times> (nat \<times> u16) list" where
  "cfg_spec [] = (None, [])"
| "cfg_spec (None # fs) = cfg_spec fs"
| "cfg_spec (Some (Inl e) # fs) = (Some e, [])"
| "cfg_spec (Some (Inr u) # fs) = (case cfg_spec fs of (e, us) \<Rightarrow> (e, u @ us))"

definition set_regs :: "(nat \<times> u16) list \<Rightarrow> 'w dev \<Rightarrow> 'w dev" where
  "set_regs us s = s\<lparr>holding_reg := fold (\<lambda>(i, v) h. h[i := v]) us (holding_reg s)\<rparr>"

lemma set_regs_simps [simp]:
  "set_regs [] s = s" "set_regs ((i, v) # us) s = set_regs us (s\<lparr>holding_reg := (holding_reg s)[i := v]\<rparr>)"
  "set_regs (us @ vs) s = set_regs vs (set_regs us s)"
  by (simp_all add: set_regs_def)

lemma wf_set_regs [simp]: "wf_dev (set_regs us s) = wf_dev s"
proof -
  have "length (fold (\<lambda>(i, v) h. h[i := v]) us h) = length h" for h :: "u16 list"
    by (induction us arbitrary: h) auto
  then show ?thesis by (simp add: set_regs_def wf_dev_def)
qed

lemma cfg_num_spec:
  assumes "wf_dev s" "plain_reg idx"
  shows "cfg_num B json key ok err idx s = (case num_field json key ok err idx of
    None \<Rightarrow> Ret None s | Some (Inl e) \<Rightarrow> Ret (Some e) s | Some (Inr u) \<Rightarrow> Ret None (set_regs u s))"
  using plain_write [OF assms] by (simp add: cfg_num_def num_field_def split: option.split)

lemma cfg_ip_spec:
  assumes "wf_dev s"
  shows "cfg_ip B json s = (case ip_field json of
    None \<Rightarrow> Ret None s | Some (Inl e) \<Rightarrow> Ret (Some e) s | Some (Inr u) \<Rightarrow> Ret None (set_regs u s))"
proof -
  have w: "io_write_holding B 10 v s = Ret 0 (s\<lparr>holding_reg := (holding_reg s)[10 := v]\<rparr>)"
    "io_write_holding B 11 v s = Ret 0 (s\<lparr>holding_reg := (holding_reg s)[11 := v]\<rparr>)"
    "io_write_holding B 12 v s = Ret 0 (s\<lparr>holding_reg := (holding_reg s)[12 := v]\<rparr>)"
    "io_write_holding B 13 v s = Ret 0 (s\<lparr>holding_reg := (holding_reg s)[13 := v]\<rparr>)" if "wf_dev s" for v s
    using plain_write [OF that, of 10 B v] plain_write [OF that, of 11 B v] plain_write [OF that, of 12 B v] plain_write [OF that, of 13 B v]
    by (simp_all add: plain_reg_def hub_defs)
  have "[0..<4] = [0, 1, 2, 3 :: nat]" by (simp add: upt_rec)
  then show ?thesis
    using assms by (simp add: cfg_ip_def ip_field_def w HOLDING_IP_OCTET1_IDX_def wf_dev_def split: option.split)
qed

lemma stop_on_error_Ret [simp]: "stop_on_error (Ret None s) f = f s" "stop_on_error (Ret (Some e) s) f = Ret (Some e) s"
  by (simp_all add: stop_on_error_def)

lemma web_cfg_run:
  assumes "wf_dev s"
  shows "web_cmd_exec_cfg B json s = (case cfg_spec (cfg_fields json) of (err, us) \<Rightarrow> Ret err (set_regs us s))"
proof -
  have p: "plain_reg HOLDING_RS485_BAUDRATE_IDX" "plain_reg HOLDING_SLAVE_ID_IDX" "plain_reg HOLDING_CAN_BAUDRATE_IDX" "plain_reg HOLDING_CAN_ID_IDX"
    by (simp_all add: plain_reg_def hub_defs)
  have last: "cfg_num B json key ok err idx s = (case cfg_spec [num_field json key ok err idx] of (e, us) \<Rightarrow> Ret e (set_regs us s))"
    if "wf_dev s" "plain_reg idx" for key ok err idx s
    using that by (auto simp: cfg_num_spec split: option.split sum.split)
  have step: "stop_on_error (case f of None \<Rightarrow> Ret None s | Some (Inl e) \<Rightarrow> Ret (Some e) s | Some (Inr u) \<Rightarrow> Ret None (set_regs u s)) g =
      (case cfg_spec (f # fs) of (e, us) \<Rightarrow> Ret e (set_regs us s))"
    if "\<And>s. wf_dev s \<Longrightarrow> g s = (case cfg_spec fs of (e, us) \<Rightarrow> Ret e (set_regs us s))" "wf_dev s" for f fs g s
    using that by (auto split: option.split sum.split prod.split)
  show ?thesis
    unfolding web_cmd_exec_cfg_def cfg_fields_def
    using assms p by (auto simp: cfg_ip_spec cfg_num_spec intro!: step last)
qed

text \<open>
  The configuration command does what its fields say, in order: it changes holding registers and nothing else, it
  never restarts the device, and on the first field that is invalid it reports the error of that field with the
  registers of the fields before it already written.
\<close>

theorem web_cfg_effect:
  assumes "wf_dev s"
  shows "web_cmd_exec_cfg B json s = (case cfg_spec (cfg_fields json) of (err, us) \<Rightarrow> Ret err (set_regs us s))"
  by (rule web_cfg_run [OF assms])

text \<open>
  A register command from the web is always answered: it never restarts the device on the spot, not even when it writes
  the restart register, which only asks for a restart later; an address or a value out of range is refused
  without any change.
\<close>

theorem web_reg_always_answered:
  "\<exists>rc s'. web_cmd_exec_reg B addr val s = Ret rc s' \<and>
     (addr = int HOLDING_REBOOT_IDX \<and> 0 < val \<and> val \<le> 0xFFFF \<longrightarrow> rc = 0 \<and> s' = s\<lparr>reboot_pending := True\<rparr>) \<and>
     (addr < 0 \<or> int MODBUS_HOLDING_REGISTER_NUMBERS \<le> addr \<or> val < 0 \<or> 0xFFFF < val \<longrightarrow> rc = - 1 \<and> s' = s)"
proof -
  have nr: "unat (of_int addr :: u16) \<noteq> HOLDING_REBOOT_IDX" if "0 \<le> addr" "addr < 18" "addr \<noteq> 17"
  proof -
    have n: "addr = int (nat addr)" using that(1) by simp
    have "unat (of_nat (nat addr) :: u16) = nat addr" by (subst unat_of_nat) (use that in simp)
    then have "unat (of_int addr :: u16) = nat addr" by (metis n of_int_of_nat_eq)
    then show ?thesis using that by (simp add: hub_defs)
  qed
  have "\<exists>rc s'. io_write_holding B (of_int addr) (of_int val) s = Ret rc s'" if "0 \<le> addr" "addr < 18" "addr \<noteq> 17"
    using nr [OF that] by (auto simp: io_write_holding_def Let_def)
  then show ?thesis by (auto simp: web_cmd_exec_reg_def set_reboot_status_def hub_defs)
qed

section \<open>Numbers in JSON\<close>

lemma digit_val_dec: "n < 10 \<Longrightarrow> digit_val (char_of (48 + n)) = n"
  by (simp add: digit_val_def Let_def)

lemma dec_str_digits: "c \<in> set (dec_str n) \<Longrightarrow> digit_val c < 10"
proof (induction n rule: dec_str.induct)
  case (1 n)
  then show ?case by (auto simp: dec_str.simps [of n] digit_val_dec split: if_splits)
qed

lemma dec_str_value: "foldl (\<lambda>n c. n * 10 + digit_val c) 0 (dec_str n) = n"
proof (induction n rule: dec_str.induct)
  case (1 n)
  then show ?case by (simp add: dec_str.simps [of n] digit_val_dec)
qed

lemma dec_str_zero: "hd (dec_str n) = CHR ''0'' \<longleftrightarrow> n = 0"
proof (induction n rule: dec_str.induct)
  case (1 n)
  show ?case
  proof (cases "n < 10")
    case True
    have "digit_val (CHR ''0'') = 0" by (simp add: digit_val_def Let_def)
    then have "n = 0" if "char_of (48 + n) = CHR ''0''" using digit_val_dec [OF True] that by simp
    moreover have "char_of (48 :: nat) = CHR ''0''" by (simp add: char_of_def bit_simps)
    ultimately have "char_of (48 + n) = CHR ''0'' \<longleftrightarrow> n = 0" by auto
    then show ?thesis using True by (simp add: dec_str.simps [of n])
  next
    case False
    then show ?thesis using 1 by (simp add: dec_str.simps [of n])
  qed
qed

lemma strtol_dec:
  assumes "n < 2 ^ 31" "rest = [] \<or> digit_val (hd rest) \<ge> 10"
    and "n = 0 \<longrightarrow> rest = [] \<or> digit_val (hd rest) \<ge> 10 \<and> hd rest \<noteq> CHR ''x'' \<and> hd rest \<noteq> CHR ''X''"
  shows "map_option fst (strtol_0 (dec_str n @ rest)) = Some (int n)"
proof -
  obtain c cs where d: "dec_str n = c # cs" by (cases "dec_str n") auto
  have dv: "digit_val c < 10" using dec_str_digits [of c n] d by simp
  have "\<not> isspace c \<and> c \<noteq> CHR ''-'' \<and> c \<noteq> CHR ''+''" using dv by (auto simp: isspace_def digit_val_def Let_def)
  then have sign: "scan_sign (dec_str n @ rest) = (False, dec_str n @ rest)" by (simp add: scan_sign_def d)
  have scan: "scan_digits b (dec_str n @ rest) = Some (n, rest)" if "b = 10 \<or> b = 8 \<and> n = 0" for b
  proof -
    have z: "dec_str 0 = ''0''" by (simp add: dec_str.simps char_of_def bit_simps)
    have ds: "\<forall>c \<in> set (dec_str n). digit_val c < b"
    proof (cases "b = 10")
      case True
      then show ?thesis using dec_str_digits by blast
    next
      case False
      then show ?thesis using that z by (simp add: digit_val_def)
    qed
    have r: "takeWhile (\<lambda>c. digit_val c < b) rest = []" using assms(2) that by (cases rest) auto
    have "takeWhile (\<lambda>c. digit_val c < b) (dec_str n @ rest) = dec_str n" using ds r by (simp add: takeWhile_append2)
    moreover have "foldl (\<lambda>n c. n * b + digit_val c) 0 (dec_str n) = n"
      using that dec_str_value [of n] z by (auto simp: digit_val_def Let_def)
    ultimately show ?thesis by (simp add: scan_digits_def Let_def)
  qed
  have nohex: "take 2 (dec_str n @ rest) \<notin> {''0x'', ''0X''}"
  proof (cases "n = 0")
    case True
    then have "dec_str n = ''0''" by (simp add: dec_str.simps char_of_def bit_simps)
    then show ?thesis using assms(3) True by (cases rest) auto
  next
    case False
    then show ?thesis using dec_str_zero [of n] d by auto
  qed
  have "take 1 (dec_str n @ rest) = ''0'' \<longleftrightarrow> n = 0" using dec_str_zero [of n] d by simp
  then have "scan_digits (if take 1 (dec_str n @ rest) = ''0'' then 8 else 10) (dec_str n @ rest) = Some (n, rest)"
    by (intro scan) auto
  then show ?thesis unfolding strtol_0_def sign prod.case Let_def using nohex assms(1) by auto
qed

text \<open>
  A number in JSON is read as written: in an object whose first member is the key with a number in decimal,
  \<open>json_get_i32\<close> finds this number, whatever follows.
\<close>

theorem json_number_roundtrip:
  assumes "n < 2 ^ 31" "c \<in> {CHR '','', CHR ''}'', CHR '' ''}"
  shows "json_get_i32 (qq ''{`'' @ key @ qq ''`:'' @ dec_str n @ c # rest) key = Some (int n)"
proof -
  let ?v = "dec_str n @ c # rest"
  obtain d ds where d: "dec_str n = d # ds" by (cases "dec_str n") auto
  have dv: "digit_val d < 10" using dec_str_digits [of d n] d by simp
  have nb: "\<not> blank d" "d \<noteq> CHR ''t''" "d \<noteq> CHR ''f''" using dv by (auto simp: blank_def digit_val_def Let_def)
  have q: "qq ''{`'' @ key @ qq ''`:'' @ ?v = CHR ''{'' # CHR 0x22 # key @ CHR 0x22 # CHR '':'' # ?v" by (simp add: qq_def)
  have "json_find_value (CHR 0x22 # key @ CHR 0x22 # CHR '':'' # ?v) key = Some ?v"
    using nb by (subst json_find_value.simps) (simp add: d nth_append blank_def)
  then have "json_find_value (CHR ''{'' # CHR 0x22 # key @ CHR 0x22 # CHR '':'' # ?v) key = Some ?v"
    by (subst json_find_value.simps) simp
  moreover have "map_option fst (strtol_0 ?v) = Some (int n)"
    using assms by (intro strtol_dec) (auto simp: digit_val_def Let_def)
  ultimately show ?thesis unfolding json_get_i32_def q using nb by (auto simp: d)
qed

theorem json_number_roundtrip_witness:
  "json_get_i32 (qq ''{`'' @ ''addr'' @ qq ''`:'' @ dec_str 42 @ CHR '','' # qq ''`value`:7}'') ''addr'' = Some (int 42)"
  by (rule json_number_roundtrip) simp_all

section \<open>The documents fit\<close>

lemma print_all_exact:
  "exact bufsz b \<Longrightarrow> snd b + length (concat ss) < bufsz \<Longrightarrow>
    \<exists>b'. print_all bufsz ss b = Some b' \<and> fst b' = fst b @ concat ss \<and> exact bufsz b' \<and> snd b' = snd b + length (concat ss)"
proof (induction ss arbitrary: b)
  case (Cons s ss)
  obtain b1 where "snprintf_at bufsz s b = Some b1" "fst b1 = fst b @ s" "exact bufsz b1" "snd b1 = snd b + length s"
    using snprintf_exact [OF Cons.prems(1), of s] Cons.prems(2) by auto
  then show ?case using Cons.IH [of b1] Cons.prems(2) by auto
qed simp

lemma dec_word_length: "length (dec_str (unat (v :: u16))) \<le> 5" "length (dec_str (unat (x :: u32))) \<le> 10"
proof -
  have "unat v < 10 ^ 5" by (rule less_le_trans [OF unat_u16_lt]) simp
  then show "length (dec_str (unat v)) \<le> 5" by (intro dec_str_length) simp_all
  have "unat x < 10 ^ 10" by (rule less_le_trans [OF unat_u32_lt]) simp
  then show "length (dec_str (unat x)) \<le> 10" by (intro dec_str_length) simp_all
qed

lemma json_items_length:
  assumes "\<And>i. length (dec_str (f i)) \<le> k"
  shows "length (concat (map (\<lambda>i. json_item i (f i)) [0..<n])) \<le> n * (k + 1)"
proof (induction n)
  case (Suc n)
  have "length (json_item n (f n)) \<le> k + 1" using assms [of n] by (auto simp: json_item_def)
  then show ?case using Suc by simp
qed simp

lemma print_document:
  assumes "length (concat ss) < bufsz"
  shows "map_option (\<lambda>(buf, n). (buf, if n > bufsz then bufsz else n)) (print_all bufsz ss ([], 0)) = Some (concat ss, length (concat ss))"
proof -
  have "exact bufsz ([], 0)" using assms by (simp add: exact_def)
  from print_all_exact [OF this, of ss] assms show ?thesis by (fastforce simp: exact_def)
qed

lemma web_documents_fit:
  "\<exists>io regs. length io < 704 \<and> length regs < 704 \<and>
     (\<forall>bufsz \<ge> 704. web_build_io_json ms bufsz s = Some (io, length io) \<and> web_build_regs_json bufsz s = Some (regs, length regs))"
proof -
  note items = json_items_length [OF dec_word_length(1)]
  let ?di = "\<lambda>i. unat (drop_bit i (get_input_reg (of_nat INPUT_DI_IDX) s) AND 1)" and ?do = "\<lambda>i. unat (drop_bit i (get_holding_reg (of_nat HOLDING_DO_IDX) s) AND 1)"
    and ?ai = "\<lambda>i. unat (get_input_reg (of_nat (INPUT_AI0_IDX + i)) s)"
  let ?io = "[qq ''{`t`:`io`,`di`:[''] @ map (\<lambda>i. json_item i (?di i)) [0..<DI_NUM] @
         [qq ''],`do`:[''] @ map (\<lambda>i. json_item i (?do i)) [0..<DO_NUM] @
         [qq ''],`ai`:[''] @ map (\<lambda>i. json_item i (?ai i)) [0..<AI_NUM] @
         [qq ''],`di_en`:'' @ dec_str (unat (get_holding_reg (of_nat HOLDING_DI_ENABLE_IDX) s)) @ qq '',`ai_en`:'' @
           dec_str (unat (get_holding_reg (of_nat HOLDING_AI_ENABLE_IDX) s)) @ qq '',`ms`:'' @ dec_str (unat ms) @ ''}'']"
  let ?regs = "[qq ''{`t`:`regs`,`holding`:[''] @ map (\<lambda>i. json_item i (unat (io_read_holding (of_nat i) s))) [0..<MODBUS_HOLDING_REGISTER_NUMBERS] @
        [qq ''],`input`:[''] @ map (\<lambda>i. json_item i (unat (get_input_reg (of_nat i) s))) [0..<MODBUS_INPUT_REGISTER_NUMBERS] @ ['']}'']"
  have q: "length (qq t) = length t" for t by (simp add: qq_def)
  have l: "length (concat (map (\<lambda>i. json_item i (?di i)) [0..<DI_NUM])) \<le> 96" "length (concat (map (\<lambda>i. json_item i (?do i)) [0..<DO_NUM])) \<le> 48"
    "length (concat (map (\<lambda>i. json_item i (?ai i)) [0..<AI_NUM])) \<le> 24"
    using items [of "\<lambda>i. drop_bit i (get_input_reg (of_nat INPUT_DI_IDX) s) AND 1" 16] items [of "\<lambda>i. drop_bit i (get_holding_reg (of_nat HOLDING_DO_IDX) s) AND 1" 8]
      items [of "\<lambda>i. get_input_reg (of_nat (INPUT_AI0_IDX + i)) s" 4] by (simp_all add: DI_NUM_def DO_NUM_def AI_NUM_def)
  have io: "length (concat ?io) < 704"
    using l dec_word_length(1) [of "get_holding_reg (of_nat HOLDING_DI_ENABLE_IDX) s"] dec_word_length(1) [of "get_holding_reg (of_nat HOLDING_AI_ENABLE_IDX) s"]
      dec_word_length(2) [of ms]
    unfolding concat_append length_append by (simp add: q del: length_concat)
  have regs: "length (concat ?regs) < 704"
    using items [of "\<lambda>i. io_read_holding (of_nat i) s" 18] items [of "\<lambda>i. get_input_reg (of_nat i) s" 6]
    by (simp add: q MODBUS_HOLDING_REGISTER_NUMBERS_def MODBUS_INPUT_REGISTER_NUMBERS_def)
  have "web_build_io_json ms bufsz s = Some (concat ?io, length (concat ?io))" "web_build_regs_json bufsz s = Some (concat ?regs, length (concat ?regs))"
    if "bufsz \<ge> 704" for bufsz
    unfolding web_build_io_json_def web_build_regs_json_def Let_def using that io regs by (intro print_document; linarith)+
  then show ?thesis using io regs by blast
qed

text \<open>
  The snapshots of the device are never cut off: in the 704 bytes that the HTTP server has for a document, and so in the 768 bytes
  of the WebSocket, the document of the inputs and outputs and that of the registers are the same as in any larger buffer, and the
  length reported is that of the text.
\<close>

theorem web_documents_complete:
  "\<exists>io regs. length io < 704 \<and> length regs < 704 \<and>
     (\<forall>bufsz \<ge> 704. web_build_io_json ms bufsz s = Some (io, length io) \<and> web_build_regs_json bufsz s = Some (regs, length regs))"
  by (rule web_documents_fit)

text \<open>
  A baud rate above 65535 is accepted for the RS-485 line but does not fit its register: the command succeeds and the
  register holds the rate less 65536, for instance 49664 instead of 115200.
\<close>

theorem web_rs485_baud_truncated:
  assumes "wf_dev s" "cfg_fields json = [None, num_field json ''rs485'' rs485_ok ''invalid rs485 baud'' HOLDING_RS485_BAUDRATE_IDX, None, None, None]"
    and "json_get_i32 json ''rs485'' = Some v" "65536 \<le> v" "v \<le> 115200"
  shows "\<exists>s'. web_cmd_exec_cfg B json s = Ret None s' \<and> uint (holding_reg s' ! HOLDING_RS485_BAUDRATE_IDX) = v - 65536"
proof -
  have f: "num_field json ''rs485'' rs485_ok ''invalid rs485 baud'' HOLDING_RS485_BAUDRATE_IDX = Some (Inr [(HOLDING_RS485_BAUDRATE_IDX, of_int v)])"
    using assms(3-5) by (simp add: num_field_def rs485_ok_def)
  have "v mod 65536 = (v - 65536) mod 65536" by (rule minus_mod_self2 [symmetric])
  also have "\<dots> = v - 65536" by (rule mod_pos_pos_trivial) (use assms(4,5) in simp_all)
  finally have "v mod 65536 = v - 65536" .
  then have u: "uint (of_int v :: u16) = v - 65536" by (simp add: uint_word_of_int)
  have len: "length (holding_reg s) = 18" using assms(1) by (simp add: wf_dev_def hub_defs)
  have sp: "cfg_spec (cfg_fields json) = (None, [(HOLDING_RS485_BAUDRATE_IDX, of_int v)])" unfolding assms(2) f by simp
  have "web_cmd_exec_cfg B json s = Ret None (set_regs [(HOLDING_RS485_BAUDRATE_IDX, of_int v)] s)"
    by (simp add: web_cfg_run [OF assms(1)] sp)
  then show ?thesis using len u by (simp add: HOLDING_RS485_BAUDRATE_IDX_def)
qed

definition demo_cfg :: string where
  "demo_cfg = qq ''{`rs485`:115200}''"

lemma demo_cfg_fields:
  "json_get_i32 demo_cfg ''rs485'' = Some 115200" "json_get_str demo_cfg ''ip'' 16 = None" "json_get_i32 demo_cfg ''sid'' = None"
  "json_get_i32 demo_cfg ''can_bps'' = None" "json_get_i32 demo_cfg ''can_id'' = None"
  by (simp_all add: json_get_i32_def json_get_str_def json_find_value.simps demo_cfg_def qq_def blank_def strtol_0_def scan_sign_def
      isspace_def scan_digits_def digit_val_def Let_def)

theorem web_rs485_baud_truncated_witness:
  "\<exists>s'. web_cmd_exec_cfg sim_board demo_cfg sim_dev = Ret None s' \<and> uint (holding_reg s' ! HOLDING_RS485_BAUDRATE_IDX) = 115200 - 65536"
proof -
  have "cfg_fields demo_cfg = [None, num_field demo_cfg ''rs485'' rs485_ok ''invalid rs485 baud'' HOLDING_RS485_BAUDRATE_IDX, None, None, None]"
    by (simp add: cfg_fields_def ip_field_def num_field_def demo_cfg_fields)
  from web_rs485_baud_truncated [OF sim_dev_wf this demo_cfg_fields(1)] show ?thesis by simp
qed

theorem web_cfg_effect_witness:
  "web_cmd_exec_cfg sim_board demo_cfg sim_dev = Ret None (set_regs [(HOLDING_RS485_BAUDRATE_IDX, of_int 115200)] sim_dev)"
  unfolding web_cfg_effect [OF sim_dev_wf]
  by (simp add: cfg_fields_def ip_field_def num_field_def demo_cfg_fields rs485_ok_def)

theorem web_reg_always_answered_witness:
  "\<exists>rc s'. web_cmd_exec_reg sim_board (int HOLDING_REBOOT_IDX) 1 sim_dev = Ret rc s' \<and> rc = 0 \<and> s' = sim_dev\<lparr>reboot_pending := True\<rparr>"
  using web_reg_always_answered [of sim_board "int HOLDING_REBOOT_IDX" 1 sim_dev] by auto

theorem web_documents_complete_witness:
  "\<exists>io. web_build_io_json 5 768 sim_dev = Some (io, length io)"
  using web_documents_complete [of 5 sim_dev] by fastforce

end
