(* ===== verification/Ws_Codec.thy ===== *)
theory Ws_Codec
  imports Bytes_Crc
begin

unbundle bit_operations_syntax

text \<open>
  The encodings of \<open>src/web/ws.c\<close>: SHA-1 and Base64, which the WebSocket handshake and the key hash of an upload need.
  Characters are bytes. The loops of the hash work on a buffer that is never full between two calls; as the source does
  not say so in their conditions they are partial functions here, and that they return is proved below.
\<close>

section \<open>SHA-1\<close>

record sha1_ctx =
  sh_h :: "u32 list"
  sh_total :: "64 word"
  sh_buf :: "u8 list"

definition sha1_init :: sha1_ctx where
  "sha1_init = \<lparr>sh_h = [0x67452301, 0xEFCDAB89, 0x98BADCFE, 0x10325476, 0xC3D2E1F0], sh_total = 0, sh_buf = []\<rparr>"

definition SHA_ROL :: "u32 \<Rightarrow> nat \<Rightarrow> u32" where
  "SHA_ROL v n = push_bit n v OR drop_bit (32 - n) v"

text \<open>The sixteen words of a block and the sixty-four computed ones.\<close>

definition sha1_words :: "u8 list \<Rightarrow> u32 list" where
  "sha1_words p = map (\<lambda>i. push_bit 24 (ucast (p ! (i * 4))) OR push_bit 16 (ucast (p ! (i * 4 + 1))) OR
     push_bit 8 (ucast (p ! (i * 4 + 2))) OR ucast (p ! (i * 4 + 3))) [0..<16]"

fun sha1_expand :: "nat \<Rightarrow> u32 list \<Rightarrow> u32 list" where
  "sha1_expand 0 w = w"
| "sha1_expand (Suc k) w =
     (let i = length w in sha1_expand k (w @ [SHA_ROL (w ! (i - 3) XOR w ! (i - 8) XOR w ! (i - 14) XOR w ! (i - 16)) 1]))"

type_synonym sha1_regs = "u32 \<times> u32 \<times> u32 \<times> u32 \<times> u32"

definition sha1_step :: "nat \<Rightarrow> u32 \<Rightarrow> sha1_regs \<Rightarrow> sha1_regs" where
  "sha1_step i wi r =
     (case r of (a, b, cc, d, e) \<Rightarrow>
        let (g, k) = (if i < 20 then ((b AND cc) OR (NOT b AND d), 0x5A827999)
              else if i < 40 then (b XOR cc XOR d, 0x6ED9EBA1)
              else if i < 60 then ((b AND cc) OR (b AND d) OR (cc AND d), 0x8F1BBCDC)
              else (b XOR cc XOR d, 0xCA62C1D6))
        in (SHA_ROL a 5 + g + e + k + wi, a, SHA_ROL b 30, cc, d))"

fun sha1_rounds :: "nat \<Rightarrow> u32 list \<Rightarrow> sha1_regs \<Rightarrow> sha1_regs" where
  "sha1_rounds i [] r = r"
| "sha1_rounds i (wi # w) r = sha1_rounds (i + 1) w (sha1_step i wi r)"

definition sha1_block :: "u8 list \<Rightarrow> u32 list \<Rightarrow> u32 list" where
  "sha1_block p h =
     (case sha1_rounds 0 (sha1_expand 64 (sha1_words p)) (h ! 0, h ! 1, h ! 2, h ! 3, h ! 4) of
        (a, b, cc, d, e) \<Rightarrow> [h ! 0 + a, h ! 1 + b, h ! 2 + cc, h ! 3 + d, h ! 4 + e])"

partial_function (option) sha1_fill :: "sha1_ctx \<Rightarrow> u8 list \<Rightarrow> sha1_ctx option" where
  "sha1_fill c p =
     (if p = [] then Some c
      else let n = min (64 - length (sh_buf c)) (length p); buf = sh_buf c @ take n p in
        if length buf = 64 then sha1_fill (c\<lparr>sh_h := sha1_block buf (sh_h c), sh_buf := []\<rparr>) (drop n p)
        else sha1_fill (c\<lparr>sh_buf := buf\<rparr>) (drop n p))"

definition sha1_update :: "sha1_ctx \<Rightarrow> u8 list \<Rightarrow> sha1_ctx option" where
  "sha1_update c p = sha1_fill (c\<lparr>sh_total := sh_total c + of_nat (length p)\<rparr>) p"

partial_function (option) sha1_pad_loop :: "sha1_ctx \<Rightarrow> sha1_ctx option" where
  "sha1_pad_loop c =
     (if length (sh_buf c) \<noteq> 56 then Option.bind (sha1_update c [0]) sha1_pad_loop else Some c)"

definition sha1_final :: "sha1_ctx \<Rightarrow> u8 list option" where
  "sha1_final c =
     (let bits = push_bit 3 (sh_total c) in
      case sha1_update c [0x80] of None \<Rightarrow> None | Some c \<Rightarrow>
      case sha1_pad_loop c of None \<Rightarrow> None | Some c \<Rightarrow>
      case sha1_update c (map (\<lambda>i. ucast (drop_bit (56 - 8 * i) bits)) [0..<8]) of None \<Rightarrow> None | Some c \<Rightarrow>
      Some (concat (map (\<lambda>i. io_put_be32 (sh_h c ! i)) [0..<5])))"

section \<open>Base64\<close>

definition b64_tab :: "u8 list" where
  "b64_tab = map of_nat ([65..<91] @ [97..<123] @ [48..<58] @ [43, 47])"

definition b64_char :: "u32 \<Rightarrow> nat \<Rightarrow> u8" where
  "b64_char v n = b64_tab ! unat (drop_bit n v AND 0x3F)"

fun b64_encode :: "u8 list \<Rightarrow> u8 list" where
  "b64_encode (x # y # z # src) =
     (let v = push_bit 16 (ucast x) OR push_bit 8 (ucast y) OR ucast z
      in [b64_char v 18, b64_char v 12, b64_char v 6, b64_char v 0] @ b64_encode src)"
| "b64_encode [x, y] = (let v = push_bit 16 (ucast x) OR push_bit 8 (ucast y) in [b64_char v 18, b64_char v 12, b64_char v 6, 61])"
| "b64_encode [x] = (let v = push_bit 16 (ucast x) in [b64_char v 18, b64_char v 12, 61, 61])"
| "b64_encode [] = []"

definition b64_val :: "u8 \<Rightarrow> u32 option" where
  "b64_val ch =
     (if 65 \<le> ch \<and> ch \<le> 90 then Some (ucast ch - 65)
      else if 97 \<le> ch \<and> ch \<le> 122 then Some (ucast ch - 97 + 26)
      else if 48 \<le> ch \<and> ch \<le> 57 then Some (ucast ch - 48 + 52)
      else if ch = 43 then Some 62
      else if ch = 47 then Some 63
      else None)"

fun b64_loop :: "u8 list \<Rightarrow> nat \<Rightarrow> u32 \<Rightarrow> u32 \<Rightarrow> u8 list \<Rightarrow> u8 list option" where
  "b64_loop [] dst_max acc nbits dst = Some dst"
| "b64_loop (ch # src) dst_max acc nbits dst =
     (case b64_val ch of
        None \<Rightarrow> if ch = 61 \<or> ch = 32 \<or> ch = 13 \<or> ch = 10 then b64_loop src dst_max acc nbits dst else None
      | Some v \<Rightarrow>
          let acc = push_bit 6 acc OR v; nbits = nbits + 6 in
          if nbits \<ge> 8 then
            let nbits = nbits - 8 in
            if length dst \<ge> dst_max then None
            else b64_loop src dst_max acc nbits (dst @ [ucast (drop_bit (unat nbits) acc)])
          else b64_loop src dst_max acc nbits dst)"

definition b64_decode :: "u8 list \<Rightarrow> nat \<Rightarrow> u8 list option" where
  "b64_decode src dst_max = b64_loop src dst_max 0 0 []"

section \<open>The hash of a message\<close>

text \<open>
  The standard's description: the message is padded to a multiple of 64 bytes and its blocks go through the compression
  function. \<open>absorb\<close> gives the state after all full blocks, and the bytes left over.
\<close>

function absorb :: "u32 list \<Rightarrow> u8 list \<Rightarrow> u32 list \<times> u8 list" where
  "absorb h xs = (if length xs < 64 then (h, xs) else absorb (sha1_block (take 64 xs) h) (drop 64 xs))"
  by pat_completeness auto
termination
  by (relation "measure (\<lambda>(h, xs). length xs)") auto

declare absorb.simps [simp del]

definition sha1_padding :: "nat \<Rightarrow> u8 list" where
  "sha1_padding n = [0x80] @ replicate ((119 - n mod 64) mod 64) 0 @
     map (\<lambda>i. ucast (drop_bit (56 - 8 * i) (of_nat (8 * n) :: 64 word))) [0..<8]"

definition sha1 :: "u8 list \<Rightarrow> u8 list" where
  "sha1 msg = concat (map io_put_be32 (fst (absorb (sh_h sha1_init) (msg @ sha1_padding (length msg)))))"

lemma absorb_append: "absorb h (xs @ ys) = absorb (fst (absorb h xs)) (snd (absorb h xs) @ ys)"
proof (induction h xs rule: absorb.induct)
  case (1 h xs)
  show ?case
  proof (cases "length xs < 64")
    case True
    then show ?thesis by (simp add: absorb.simps [of h xs])
  next
    case False
    then show ?thesis using 1 by (simp add: absorb.simps [of h xs] absorb.simps [of h "xs @ ys"])
  qed
qed

lemma absorb_rest: "length (snd (absorb h xs)) = length xs mod 64"
proof (induction h xs rule: absorb.induct)
  case (1 h xs)
  then show ?case by (subst absorb.simps) (simp add: le_mod_geq)
qed

lemma absorb_state: "length h = 5 \<Longrightarrow> length (fst (absorb h xs)) = 5"
proof (induction h xs rule: absorb.induct)
  case (1 h xs)
  then show ?case by (subst absorb.simps) (simp add: sha1_block_def split: prod.splits)
qed

lemma sha1_fill_absorb:
  "length (sh_buf c) < 64 \<Longrightarrow> \<exists>c'. sha1_fill c p = Some c' \<and> (sh_h c', sh_buf c') = absorb (sh_h c) (sh_buf c @ p) \<and> sh_total c' = sh_total c"
proof (induction "length p" arbitrary: c p rule: less_induct)
  case less
  show ?case
  proof (cases "p = []")
    case True
    then show ?thesis using less.prems by (simp add: sha1_fill.simps absorb.simps)
  next
    case False
    define n where "n = min (64 - length (sh_buf c)) (length p)"
    define buf where "buf = sh_buf c @ take n p"
    have n: "0 < n" "n \<le> length p" "length buf \<le> 64" "length buf = length (sh_buf c) + n" using less.prems False by (auto simp: n_def buf_def)
    have cat: "sh_buf c @ p = buf @ drop n p" by (simp add: buf_def)
    have lt: "length (drop n p) < length p" using n(1) False by simp
    have step: "sha1_fill c p = (if length buf = 64 then sha1_fill (c\<lparr>sh_h := sha1_block buf (sh_h c), sh_buf := []\<rparr>) (drop n p)
        else sha1_fill (c\<lparr>sh_buf := buf\<rparr>) (drop n p))"
      unfolding n_def buf_def sha1_fill.simps [of c p] Let_def using False by (simp only: if_False)
    show ?thesis
    proof (cases "length buf = 64")
      case True
      let ?c = "c\<lparr>sh_h := sha1_block buf (sh_h c), sh_buf := []\<rparr>"
      have "sha1_fill c p = sha1_fill ?c (drop n p)" using step True by simp
      moreover have "absorb (sh_h c) (buf @ drop n p) = absorb (sha1_block buf (sh_h c)) (drop n p)"
        using True by (subst absorb.simps) simp
      ultimately show ?thesis using less.hyps [OF lt, of ?c] cat by simp
    next
      case F: False
      let ?c = "c\<lparr>sh_buf := buf\<rparr>"
      have "sha1_fill c p = sha1_fill ?c (drop n p)" using step F by simp
      then show ?thesis using less.hyps [OF lt, of ?c] n(3) F cat by simp
    qed
  qed
qed

text \<open>A context that has seen the bytes of \<open>msg\<close>.\<close>

definition sha1_seen :: "sha1_ctx \<Rightarrow> u8 list \<Rightarrow> bool" where
  "sha1_seen c msg \<longleftrightarrow> (sh_h c, sh_buf c) = absorb (sh_h sha1_init) msg \<and> sh_total c = of_nat (length msg)"

lemma sha1_seen_init: "sha1_seen sha1_init []"
  by (simp add: sha1_seen_def absorb.simps) (simp add: sha1_init_def)

lemma sha1_seen_buf: "sha1_seen c msg \<Longrightarrow> length (sh_buf c) = length msg mod 64"
  using absorb_rest [of "sh_h sha1_init" msg] by (metis sha1_seen_def snd_conv)

lemma sha1_seen_update:
  assumes "sha1_seen c msg"
  obtains c' where "sha1_update c p = Some c'" "sha1_seen c' (msg @ p)"
proof -
  have a: "absorb (sh_h sha1_init) msg = (sh_h c, sh_buf c)" "sh_total c = of_nat (length msg)" using assms by (auto simp: sha1_seen_def)
  have "length (sh_buf c) < 64" using sha1_seen_buf [OF assms] by simp
  then obtain c' where "sha1_update c p = Some c'" "(sh_h c', sh_buf c') = absorb (sh_h c) (sh_buf c @ p)" "sh_total c' = sh_total c + of_nat (length p)"
    using sha1_fill_absorb [of "c\<lparr>sh_total := sh_total c + of_nat (length p)\<rparr>" p] by (auto simp: sha1_update_def)
  moreover from this have "sha1_seen c' (msg @ p)" unfolding sha1_seen_def absorb_append [of _ msg] a(1) by (simp add: a(2))
  ultimately show thesis using that by blast
qed

lemma pad_mod:
  assumes "m < 64"
  shows "(120 - m) mod 64 = (if m \<le> 56 then 56 - m else 120 - m :: nat)" "(119 - m) mod 64 = (if m \<le> 55 then 55 - m else 119 - m)"
  using assms by (auto simp: mod_if)

lemma sha1_pad_loop_ends:
  "sha1_seen c msg \<Longrightarrow> \<exists>c'. sha1_pad_loop c = Some c' \<and> sha1_seen c' (msg @ replicate ((120 - length msg mod 64) mod 64) 0)"
proof (induction "(120 - length msg mod 64) mod 64" arbitrary: c msg)
  case 0
  have "length msg mod 64 < 64" by simp
  then have "length msg mod 64 = 56" using 0(1) by (auto simp: pad_mod split: if_splits)
  then show ?case using 0 sha1_seen_buf [OF 0(2)] by (subst sha1_pad_loop.simps) simp
next
  case (Suc k)
  have ne: "length (sh_buf c) \<noteq> 56" using Suc.hyps(2) sha1_seen_buf [OF Suc.prems] by auto
  obtain c1 where c1: "sha1_update c [0] = Some c1" "sha1_seen c1 (msg @ [0])" using sha1_seen_update [OF Suc.prems] by blast
  have k: "k = (120 - length (msg @ [0 :: u8]) mod 64) mod 64"
  proof -
    have "length msg mod 64 < 64" by simp
    moreover have "(length msg + 1) mod 64 = (if length msg mod 64 = 63 then 0 else length msg mod 64 + 1)" by (simp add: mod_Suc)
    ultimately show ?thesis using Suc.hyps(2) by (auto simp: pad_mod split: if_splits)
  qed
  from Suc.hyps(1) [OF this c1(2)] obtain c' where "sha1_pad_loop c1 = Some c'" "sha1_seen c' ((msg @ [0]) @ replicate k 0)"
    using k by auto
  then show ?case using ne c1(1) Suc.hyps(2) by (subst sha1_pad_loop.simps) (simp flip: Suc.hyps(2))
qed

lemma sha1_final_seen:
  assumes "sha1_seen c msg"
  shows "sha1_final c = Some (sha1 msg)"
proof -
  obtain c1 where c1: "sha1_update c [0x80] = Some c1" "sha1_seen c1 (msg @ [0x80])" using sha1_seen_update [OF assms] by blast
  have pad: "(120 - length (msg @ [0x80 :: u8]) mod 64) mod 64 = (119 - length msg mod 64) mod 64"
  proof -
    have "(length msg + 1) mod 64 = (if length msg mod 64 = 63 then 0 else length msg mod 64 + 1)" by (simp add: mod_Suc)
    then show ?thesis by (auto simp: pad_mod)
  qed
  obtain c2 where c2: "sha1_pad_loop c1 = Some c2" "sha1_seen c2 ((msg @ [0x80]) @ replicate ((119 - length msg mod 64) mod 64) 0)"
    using sha1_pad_loop_ends [OF c1(2)] pad by auto
  have tot: "push_bit 3 (sh_total c) = of_nat (8 * length msg)" using assms by (simp add: sha1_seen_def push_bit_eq_mult)
  let ?tail = "map (\<lambda>i. ucast (drop_bit (56 - 8 * i) (push_bit 3 (sh_total c)))) [0..<8] :: u8 list"
  obtain c3 where c3: "sha1_update c2 ?tail = Some c3" "sha1_seen c3 (((msg @ [0x80]) @ replicate ((119 - length msg mod 64) mod 64) 0) @ ?tail)"
    using sha1_seen_update [OF c2(2)] by blast
  have "((msg @ [0x80]) @ replicate ((119 - length msg mod 64) mod 64) 0) @ ?tail = msg @ sha1_padding (length msg)"
    by (simp add: sha1_padding_def tot)
  then have h: "sh_h c3 = fst (absorb (sh_h sha1_init) (msg @ sha1_padding (length msg)))" using c3(2) by (metis fst_conv sha1_seen_def)
  have "length (sh_h c3) = 5" unfolding h by (rule absorb_state) (simp add: sha1_init_def)
  then have "map (\<lambda>i. io_put_be32 (sh_h c3 ! i)) [0..<5] = map io_put_be32 (sh_h c3)" by (intro nth_equalityI) simp_all
  then show ?thesis using c1(1) c2(1) c3(1) by (simp add: sha1_final_def Let_def sha1_def h)
qed

text \<open>
  The streaming hash computes SHA-1: started with \<open>sha1_init\<close> and fed a message in any pieces, it always returns, and
  the result is the hash of the whole message.
\<close>

theorem sha1_streaming:
  "\<exists>c. foldl (\<lambda>c p. Option.bind c (\<lambda>c. sha1_update c p)) (Some sha1_init) ps = Some c \<and> sha1_final c = Some (sha1 (concat ps))"
proof -
  have "\<exists>c'. foldl (\<lambda>c p. Option.bind c (\<lambda>c. sha1_update c p)) (Some c) ps = Some c' \<and> sha1_seen c' (msg @ concat ps)"
    if "sha1_seen c msg" for c msg ps
    using that
  proof (induction ps arbitrary: c msg)
    case (Cons p ps)
    obtain c1 where "sha1_update c p = Some c1" "sha1_seen c1 (msg @ p)" using sha1_seen_update [OF Cons.prems] by blast
    then show ?case using Cons.IH by fastforce
  qed simp
  from this [OF sha1_seen_init] show ?thesis using sha1_final_seen by fastforce
qed

section \<open>Base64 round trip\<close>

lemma b64_val_tab: "i < 64 \<Longrightarrow> b64_val (b64_tab ! i) = Some (of_nat i)"
proof -
  have "\<forall>i \<in> set [0..<64]. b64_val (b64_tab ! i) = Some (of_nat i)" by code_simp
  then show "i < 64 \<Longrightarrow> ?thesis" by simp
qed

lemma b64_val_char: "b64_val (b64_char v n) = Some (drop_bit n v AND 0x3F)"
proof -
  have "drop_bit n v AND 0x3F = take_bit 6 (drop_bit n v)" by (simp add: take_bit_eq_mask mask_eq_exp_minus_1)
  then have "unat (drop_bit n v AND 0x3F) < 2 ^ 6" by (metis take_bit_nat_less_exp unsigned_take_bit_eq)
  then show ?thesis by (simp add: b64_char_def b64_val_tab)
qed

lemma u8_eqI:
  fixes a b :: u8
  assumes "bit a 0 = bit b 0" "bit a 1 = bit b 1" "bit a 2 = bit b 2" "bit a 3 = bit b 3"
    "bit a 4 = bit b 4" "bit a 5 = bit b 5" "bit a 6 = bit b 6" "bit a 7 = bit b 7"
  shows "a = b"
proof (rule bit_word_eqI)
  fix n assume "n < LENGTH(8)"
  then consider "n = 0" | "n = 1" | "n = 2" | "n = 3" | "n = 4" | "n = 5" | "n = 6" | "n = 7" by simp linarith
  then show "bit a n = bit b n" by cases (simp_all add: assms [simplified])
qed

lemma b64_group:
  fixes x y z :: u8 and acc :: u32
  defines "v \<equiv> push_bit 16 (ucast x) OR push_bit 8 (ucast y) OR ucast z :: u32"
  shows "ucast (drop_bit 4 (push_bit 6 (push_bit 6 acc OR (drop_bit 18 v AND 0x3F)) OR (drop_bit 12 v AND 0x3F))) = x"
    "ucast (drop_bit 2 (push_bit 6 (push_bit 6 acc OR (drop_bit 12 v AND 0x3F)) OR (drop_bit 6 v AND 0x3F))) = y"
    "ucast (push_bit 6 (push_bit 6 acc OR (drop_bit 6 v AND 0x3F)) OR (v AND 0x3F)) = z"
proof -
  have m: "(0x3F :: u32) = mask 6" by (simp add: mask_eq_exp_minus_1)
  have hi: "\<not> bit q n" if "8 \<le> n" for q :: u8 and n using that bit_imp_le_length [of q n] by auto
  show "ucast (drop_bit 4 (push_bit 6 (push_bit 6 acc OR (drop_bit 18 v AND 0x3F)) OR (drop_bit 12 v AND 0x3F))) = x"
    "ucast (drop_bit 2 (push_bit 6 (push_bit 6 acc OR (drop_bit 12 v AND 0x3F)) OR (drop_bit 6 v AND 0x3F))) = y"
    "ucast (push_bit 6 (push_bit 6 acc OR (drop_bit 6 v AND 0x3F)) OR (v AND 0x3F)) = z"
    by (rule u8_eqI; simp add: v_def m bit_simps hi)+
qed

text \<open>Four characters give back three bytes; the first two and the first three already give one and two.\<close>

lemma b64_loop_group:
  fixes x y z :: u8
  defines "v \<equiv> push_bit 16 (ucast x) OR push_bit 8 (ucast y) OR ucast z :: u32"
  shows "length dst < mx \<Longrightarrow> \<exists>acc'. \<forall>src. b64_loop (b64_char v 18 # b64_char v 12 # src) mx acc 0 dst = b64_loop src mx acc' 4 (dst @ [x])"
    and "length dst + 1 < mx \<Longrightarrow> \<exists>acc'. \<forall>src. b64_loop (b64_char v 18 # b64_char v 12 # b64_char v 6 # src) mx acc 0 dst = b64_loop src mx acc' 2 (dst @ [x, y])"
    and "length dst + 2 < mx \<Longrightarrow> \<exists>acc'. \<forall>src. b64_loop (b64_char v 18 # b64_char v 12 # b64_char v 6 # b64_char v 0 # src) mx acc 0 dst = b64_loop src mx acc' 0 (dst @ [x, y, z])"
proof -
  define c0 c1 c2 c3 where c: "c0 = drop_bit 18 v AND 0x3F" "c1 = drop_bit 12 v AND 0x3F" "c2 = drop_bit 6 v AND 0x3F" "c3 = drop_bit 0 v AND 0x3F"
  define a1 where "a1 = push_bit 6 acc OR c0"
  define a2 where "a2 = push_bit 6 a1 OR c1"
  define a3 where "a3 = push_bit 6 a2 OR c2"
  define a4 where "a4 = push_bit 6 a3 OR c3"
  have g: "ucast (drop_bit 4 a2) = x" "ucast (drop_bit 2 a3) = y" "ucast a4 = z"
    using b64_group(1) [of acc x y z] b64_group(2) [of a1 x y z] b64_group(3) [of a2 x y z]
    unfolding a4_def a3_def a2_def a1_def c v_def by simp_all
  have val: "b64_val (b64_char v 18) = Some c0" "b64_val (b64_char v 12) = Some c1" "b64_val (b64_char v 6) = Some c2" "b64_val (b64_char v 0) = Some c3"
    by (simp_all add: b64_val_char c)
  have 2: "b64_loop (b64_char v 18 # b64_char v 12 # src) mx acc 0 dst = b64_loop src mx a2 4 (dst @ [x])" if "length dst < mx" for src
    using that g(1) unfolding a2_def by (simp add: val Let_def flip: a1_def)
  have 3: "b64_loop (b64_char v 6 # src) mx a2 4 (dst @ [x]) = b64_loop src mx a3 2 (dst @ [x, y])" if "length dst + 1 < mx" for src
    using that g(2) unfolding a3_def by (simp add: val Let_def)
  have 4: "b64_loop (b64_char v 0 # src) mx a3 2 (dst @ [x, y]) = b64_loop src mx a4 0 (dst @ [x, y, z])" if "length dst + 2 < mx" for src
    using that g(3) unfolding a4_def by (simp add: val Let_def)
  show "length dst < mx \<Longrightarrow> \<exists>acc'. \<forall>src. b64_loop (b64_char v 18 # b64_char v 12 # src) mx acc 0 dst = b64_loop src mx acc' 4 (dst @ [x])"
    using 2 by blast
  show "length dst + 1 < mx \<Longrightarrow> \<exists>acc'. \<forall>src. b64_loop (b64_char v 18 # b64_char v 12 # b64_char v 6 # src) mx acc 0 dst = b64_loop src mx acc' 2 (dst @ [x, y])"
    using 2 3 by (metis add_lessD1)
  show "length dst + 2 < mx \<Longrightarrow> \<exists>acc'. \<forall>src. b64_loop (b64_char v 18 # b64_char v 12 # b64_char v 6 # b64_char v 0 # src) mx acc 0 dst = b64_loop src mx acc' 0 (dst @ [x, y, z])"
    using 2 3 4 by (intro exI [of _ a4]) simp
qed

lemma b64_loop_pad: "b64_loop (61 # src) mx acc nb dst = b64_loop src mx acc nb dst"
  by (simp add: b64_val_def)

lemma b64_loop_encode: "length dst + length src \<le> mx \<Longrightarrow> b64_loop (b64_encode src) mx acc 0 dst = Some (dst @ src)"
proof (induction src arbitrary: acc dst rule: b64_encode.induct)
  case (1 x y z src)
  then have "length dst + 2 < mx" by simp
  from b64_loop_group(3) [OF this, of x y z acc] 1 show ?case by (auto simp: Let_def simp del: b64_loop.simps)
next
  case (2 x y)
  then have "length dst + 1 < mx" by simp
  from b64_loop_group(2) [OF this, of x y 0 acc] show ?case by (auto simp: Let_def b64_loop_pad simp del: b64_loop.simps(2))
next
  case (3 x)
  then have "length dst < mx" by simp
  from b64_loop_group(1) [OF this, of x 0 0 acc] show ?case by (auto simp: Let_def b64_loop_pad simp del: b64_loop.simps(2))
qed simp

lemma b64_loop_bound: "b64_loop src mx acc nb dst = Some r \<Longrightarrow> length dst \<le> mx \<Longrightarrow> length r \<le> mx"
  by (induction src mx acc nb dst rule: b64_loop.induct) (auto simp: Let_def split: option.splits if_splits)

lemma b64_loop_mono: "b64_loop src mx acc nb dst = Some r \<Longrightarrow> mx \<le> mx' \<Longrightarrow> b64_loop src mx' acc nb dst = Some r"
proof (induction src arbitrary: acc nb dst)
  case (Cons ch src)
  show ?case
  proof (cases "b64_val ch")
    case None
    then show ?thesis using Cons by (simp split: if_splits)
  next
    case (Some v)
    then show ?thesis using Cons.prems Cons.IH [of "push_bit 6 acc OR v"] by (simp add: Let_def split: if_splits)
  qed
qed simp

text \<open>
  Base64 gives back what it was given: decoding the encoding of any bytes, into a buffer that is large enough, returns
  these bytes, and into a smaller one fails.
\<close>

theorem b64_roundtrip:
  "b64_decode (b64_encode src) mx = (if length src \<le> mx then Some src else None)"
proof (cases "length src \<le> mx")
  case True
  then show ?thesis by (simp add: b64_decode_def b64_loop_encode)
next
  case False
  have "b64_loop (b64_encode src) mx 0 0 [] \<noteq> Some r" for r
  proof
    assume r: "b64_loop (b64_encode src) mx 0 0 [] = Some r"
    then have "r = src" using b64_loop_mono [OF r, of "length src"] b64_loop_encode [of "[]" src "length src" 0] False by simp
    then show False using b64_loop_bound [OF r] False by simp
  qed
  then show ?thesis using False by (auto simp: b64_decode_def)
qed

end
