(* ===== verification/Ws.thy ===== *)
theory Ws
  imports Web_Cmds Ws_Codec Mb_Tcp Udp_Cfg
begin

unbundle bit_operations_syntax

text \<open>
  \<open>src/web/ws.c\<close> without its hash and Base64 (\<open>Ws_Codec\<close>): the WebSocket session, its frames, the commands, the worker
  of the firmware upload and the handshake. The session is the record \<open>ws\<close>; the payload received so far is the list
  \<open>ws_payload\<close>, whose length is the source's \<open>got\<close>. Bytes of the network and characters of the JSON functions are
  converted by \<open>text_of\<close> and \<open>bytes_of\<close>. The callback that tells the HTTP server about the end of a session is the last thing
  that a call does; \<open>ws_ended\<close> records that it was made.
\<close>

section \<open>The session\<close>

definition WS_RX_MAX :: nat where [hub_defs]: "WS_RX_MAX = 10 * 1024 + 16"
definition WS_TX_BUF :: nat where [hub_defs]: "WS_TX_BUF = 768"
definition WS_PUSH_MS :: u32 where [hub_defs]: "WS_PUSH_MS = 1000"
definition WS_INFO_MS :: u32 where [hub_defs]: "WS_INFO_MS = 10000"

definition text_of :: "u8 list \<Rightarrow> string" where
  "text_of p = map (\<lambda>b. char_of (unat b)) p"

definition bytes_of :: "string \<Rightarrow> u8 list" where
  "bytes_of s = map (\<lambda>c. of_nat (of_char c)) s"

primrec ws_crc16 :: "u16 \<Rightarrow> u8 list \<Rightarrow> u16" where
  "ws_crc16 seed [] = seed"
| "ws_crc16 seed (b # src) =
     (let e = ucast (seed XOR ucast b) :: u8; f = e XOR push_bit 4 e
      in ws_crc16 (drop_bit 8 seed XOR push_bit 8 (ucast f) XOR push_bit 3 (ucast f) XOR ucast (drop_bit 4 f)) src)"

datatype ws_rx_state = WS_HDR | WS_LEN16 | WS_LEN64 | WS_MASK | WS_PAYLOAD

datatype ws_fw_op = WS_FW_OP_START u32 "u8 list option" | WS_FW_OP_END u16

record 'w ws =
  ws_active :: bool
  ws_pcb :: "nat option"
  ws_on_close :: bool
  ws_ended :: bool
  ws_state :: ws_rx_state
  ws_hdr :: "u8 list"
  ws_hdr_got :: nat
  ws_op :: u8
  ws_fin :: bool
  ws_masked :: bool
  ws_mask :: "u8 list"
  ws_plen :: nat
  ws_payload :: "u8 list"
  ws_fw_crc :: u16
  ws_t_push :: u32
  ws_t_info :: u32
  ws_fw :: fw_st
  fw_op_q :: "ws_fw_op list"
  fw_replies :: "string list"
  fw_reply_idx :: u8
  ws_callbacks :: "nat list"
  ws_dev :: "'w dev"

text \<open>
  What the session uses of its surroundings: the board, lwIP with the free space of the send buffer and the posting of
  callbacks to its thread, the key hash of the device, the boot request, what the info document shows, and the start page,
  a file that the build generates.
\<close>

record 'w host =
  ho_board :: "'w board"
  ho_lwip :: "'w lwip"
  tcp_sndbuf :: "nat \<Rightarrow> 'w \<Rightarrow> u16"
  tcp_mss :: "nat \<Rightarrow> 'w \<Rightarrow> u16"
  tcpip_callback :: "'w \<Rightarrow> bool \<times> 'w"
  ho_keyhash :: "u8 list"
  boot_set_pending :: "bool \<Rightarrow> 'w \<Rightarrow> bool \<times> 'w"
  ho_env :: "'w \<Rightarrow> web_env"
  ho_index :: "u8 list"

definition in_wsdev :: "('w dev \<Rightarrow> 'w dev) \<Rightarrow> 'w ws \<Rightarrow> 'w ws" where
  "in_wsdev f s = s\<lparr>ws_dev := f (ws_dev s)\<rparr>"

definition ws_world :: "'w ws \<Rightarrow> 'w" where
  "ws_world s = world (ws_dev s)"

definition set_ws_world :: "'w \<Rightarrow> 'w ws \<Rightarrow> 'w ws" where
  "set_ws_world w s = s\<lparr>ws_dev := (ws_dev s)\<lparr>world := w\<rparr>\<rparr>"

definition ws_now_ms :: "'w host \<Rightarrow> 'w ws \<Rightarrow> u32" where
  "ws_now_ms H s = now_ms (ho_lwip H) (ws_world s)"

section \<open>Sending\<close>

definition ws_header :: "u8 \<Rightarrow> u32 \<Rightarrow> u8 list" where
  "ws_header opcode len =
     (0x80 OR opcode) #
     (if len < 126 then [ucast len]
      else if len \<le> 0xFFFF then [126, ucast (drop_bit 8 len), ucast len]
      else 127 # map (\<lambda>i. ucast (drop_bit (56 - 8 * i) len)) [0..<8])"

definition ws_send :: "'w host \<Rightarrow> u8 \<Rightarrow> u8 list \<Rightarrow> 'w ws \<Rightarrow> 'w ws" where
  "ws_send H opcode payload s =
     (case (ws_active s, ws_pcb s) of
        (True, Some p) \<Rightarrow>
          let hdr = ws_header opcode (of_nat (length payload)); N = ho_lwip H; w = ws_world s in
          if unat (tcp_sndbuf H p w) < length hdr + length payload then s
          else (case tcp_write N p hdr w of (e, w) \<Rightarrow>
            if e \<noteq> ERR_OK then set_ws_world w s
            else if payload = [] then set_ws_world (tcp_output N p w) s
            else (case tcp_write N p payload w of (e, w) \<Rightarrow>
              if e \<noteq> ERR_OK then set_ws_world w s else set_ws_world (tcp_output N p w) s))
      | _ \<Rightarrow> s)"

definition ws_send_json :: "'w host \<Rightarrow> string \<Rightarrow> 'w ws \<Rightarrow> 'w ws" where
  "ws_send_json H json s = ws_send H 0x1 (bytes_of json) s"

text \<open>A document in the transmit buffer, with its NUL, of which \<open>n\<close> bytes are sent.\<close>

definition ws_send_doc :: "'w host \<Rightarrow> (string \<times> nat) option \<Rightarrow> 'w ws \<Rightarrow> 'w ws" where
  "ws_send_doc H doc s =
     (case doc of Some (tx, n) \<Rightarrow> ws_send H 0x1 (take n (bytes_of tx @ [0])) s | None \<Rightarrow> s)"

definition ws_fw_reply_cb :: "'w host \<Rightarrow> nat \<Rightarrow> 'w ws \<Rightarrow> 'w ws" where
  "ws_fw_reply_cb H i s = ws_send_json H (fw_replies s ! i) s"

text \<open>The callback is queued for the thread of lwIP, unless the queue is full.\<close>

definition fw_reply_from_worker :: "'w host \<Rightarrow> string \<Rightarrow> 'w ws \<Rightarrow> 'w ws" where
  "fw_reply_from_worker H json s =
     (let i = unat (fw_reply_idx s AND 1);
          s = s\<lparr>fw_reply_idx := fw_reply_idx s + 1, fw_replies := (fw_replies s)[i := take 79 json]\<rparr> in
      case tcpip_callback H (ws_world s) of (ok, w) \<Rightarrow>
        let s = set_ws_world w s in if ok then s\<lparr>ws_callbacks := ws_callbacks s @ [i]\<rparr> else s)"

section \<open>The worker\<close>

definition ok_text :: string where "ok_text = qq ''{`ok`:true}''"
definition err_text :: "string \<Rightarrow> string" where "err_text m = qq ''{`ok`:false,`err`:`'' @ m @ qq ''`}''"

text \<open>One operation from the queue; \<open>None\<close> would be a turn that does not end.\<close>

definition ws_fw_task :: "'w host \<Rightarrow> ws_fw_op \<Rightarrow> 'w ws \<Rightarrow> 'w ws option" where
  "ws_fw_task H oper s =
     (let F = nor (ho_board H) in
      case oper of
        WS_FW_OP_START tot kh \<Rightarrow>
          (case fw_upg_start F (ho_keyhash H) tot kh (ws_fw s) (ws_world s) of (rc, st, w) \<Rightarrow>
            let s = set_ws_world w (s\<lparr>ws_fw := st\<rparr>) in
            Some (fw_reply_from_worker H
              (if rc = 0 then ok_text else if rc = - 2 then err_text ''keyhash mismatch''
               else if rc = - 3 then err_text ''already in progress'' else err_text ''erase/init'') s))
      | WS_FW_OP_END crc \<Rightarrow>
          let got = fw_upg_received (ws_fw s) in
          if got = 0 then Some (fw_reply_from_worker H (err_text ''no data'') (s\<lparr>ws_fw := fw_upg_abort (ws_fw s)\<rparr>))
          else if got \<noteq> fw_upg_total (ws_fw s) then
            Some (fw_reply_from_worker H (err_text ''size mismatch'') (s\<lparr>ws_fw := fw_upg_abort (ws_fw s)\<rparr>))
          else (case fw_upg_finish F (ho_keyhash H) crc (ws_fw s) (ws_world s) of
              None \<Rightarrow> None
            | Some (rc, st, w) \<Rightarrow>
                let s = set_ws_world w (s\<lparr>ws_fw := st\<rparr>) in
                if rc \<noteq> 0 then Some (fw_reply_from_worker H (err_text ''crc mismatch'') s)
                else (case boot_set_pending H True (ws_world s) of (ok, w) \<Rightarrow>
                  let s = set_ws_world w s in
                  if \<not> ok then Some (fw_reply_from_worker H (err_text ''boot_request'') s)
                  else Some (in_wsdev (set_reboot_status True) (fw_reply_from_worker H ok_text s)))))"

definition WS_FW_Q_DEPTH :: nat where [hub_defs]: "WS_FW_Q_DEPTH = 4"

definition ws_queue_op :: "'w host \<Rightarrow> ws_fw_op \<Rightarrow> 'w ws \<Rightarrow> 'w ws" where
  "ws_queue_op H oper s =
     (if length (fw_op_q s) < WS_FW_Q_DEPTH then s\<lparr>fw_op_q := fw_op_q s @ [oper]\<rparr>
      else ws_send_json H (err_text ''busy'') s)"

section \<open>Commands\<close>

definition lift_ws :: "('a, 'w dev) outcome \<Rightarrow> 'w ws \<Rightarrow> ('a, 'w ws) outcome" where
  "lift_ws r s = (case r of Ret a d \<Rightarrow> Ret a (s\<lparr>ws_dev := d\<rparr>) | Reset d \<Rightarrow> Reset (s\<lparr>ws_dev := d\<rparr>))"

definition bool_text :: "bool \<Rightarrow> string" where
  "bool_text b = qq ''{`ok`:'' @ (if b then ''true'' else ''false'') @ ''}''"

definition ws_cmd_do :: "'w host \<Rightarrow> int \<Rightarrow> int \<Rightarrow> 'w ws \<Rightarrow> 'w ws" where
  "ws_cmd_do H index val s =
     (case web_cmd_exec_do (ho_board H) index val (ws_dev s) of (rc, d) \<Rightarrow>
      let s = s\<lparr>ws_dev := d\<rparr> in
      if rc = 0 then ws_send_doc H (web_build_io_json (ws_now_ms H s) WS_TX_BUF (ws_dev s)) s
      else ws_send_json H (err_text ''bad index'') s)"

definition ws_cmd_fw_start :: "'w host \<Rightarrow> string \<Rightarrow> 'w ws \<Rightarrow> 'w ws" where
  "ws_cmd_fw_start H cmd s =
     (let fw_size = (case json_get_i32 cmd ''size'' of None \<Rightarrow> 0 | Some v \<Rightarrow> v) in
      if fw_size \<le> 0 then ws_send_json H (err_text ''bad size'') s
      else (case json_get_str cmd ''keyhash'' 64 of
          None \<Rightarrow> ws_queue_op H (WS_FW_OP_START (of_int fw_size) None) s
        | Some b64 \<Rightarrow>
            (case b64_decode (bytes_of b64) FW_KEYHASH_LEN of
               Some kh \<Rightarrow> if length kh = FW_KEYHASH_LEN then ws_queue_op H (WS_FW_OP_START (of_int fw_size) (Some kh)) s
                  else ws_send_json H (err_text ''keyhash mismatch'') s
             | None \<Rightarrow> ws_send_json H (err_text ''keyhash mismatch'') s)))"

definition ws_cmd_fw_end :: "'w host \<Rightarrow> 'w ws \<Rightarrow> 'w ws" where
  "ws_cmd_fw_end H s =
     (if \<not> fw_upg_active (ws_fw s) then ws_send_json H (err_text ''not in progress'') s
      else ws_queue_op H (WS_FW_OP_END (ws_fw_crc s)) s)"

definition ws_handle_cmd :: "'w host \<Rightarrow> string \<Rightarrow> 'w ws \<Rightarrow> (unit, 'w ws) outcome" where
  "ws_handle_cmd H cmd s =
     (let B = ho_board H; num = json_get_i32 cmd in
      if take 4 cmd = qq ''`do`'' \<and> num ''index'' \<noteq> None \<and> num ''value'' \<noteq> None then
        Ret () (ws_cmd_do H (the (num ''index'')) (the (num ''value'')) s)
      else if take 5 cmd = qq ''`reg`'' \<and> num ''addr'' \<noteq> None \<and> num ''value'' \<noteq> None then
        outcome_bind (lift_ws (web_cmd_exec_reg B (the (num ''addr'')) (the (num ''value'')) (ws_dev s)) s) (\<lambda>rc s.
          Ret () (ws_send_json H (bool_text (rc = 0)) s))
      else if take 6 cmd = qq ''`time`'' \<and> num ''ts'' \<noteq> None then
        (case dev_set_timestamp B (the (num ''ts'')) (ws_dev s) of (ok, d) \<Rightarrow>
          Ret () (ws_send_json H (bool_text ok) (s\<lparr>ws_dev := d\<rparr>)))
      else if take 5 cmd = qq ''`cfg`'' then
        outcome_bind (lift_ws (web_cmd_exec_cfg B cmd (ws_dev s)) s) (\<lambda>err s.
          Ret () (ws_send_json H (case err of None \<Rightarrow> ok_text | Some m \<Rightarrow> err_text m) s))
      else if take 6 cmd = qq ''`save`'' then
        Ret () (ws_send_json H ok_text (in_wsdev (holding_reg_save B) s))
      else if take 15 cmd = qq ''`factory_reset`'' then
        Ret () (in_wsdev (set_reboot_status True) (ws_send_json H ok_text (in_wsdev (erase_store B) s)))
      else if take 10 cmd = qq ''`fw_start`'' then Ret () (ws_cmd_fw_start H cmd s)
      else if take 8 cmd = qq ''`fw_end`'' then Ret () (ws_cmd_fw_end H s)
      else Ret () (ws_send_json H (err_text ''unknown cmd'') s))"

section \<open>Frames\<close>

definition ws_close_session :: "'w ws \<Rightarrow> 'w ws" where
  "ws_close_session s =
     (if \<not> ws_active s then s
      else s\<lparr>ws_active := False, ws_pcb := None, ws_on_close := False, ws_ended := ws_ended s \<or> ws_on_close s\<rparr>)"

definition ws_frame_done :: "'w host \<Rightarrow> 'w ws \<Rightarrow> (unit, 'w ws) outcome" where
  "ws_frame_done H s =
     (if \<not> ws_fin s then Ret () (ws_close_session (ws_send H 0x8 [] s))
      else if ws_op s = 0x1 then
        (if length (ws_payload s) < WS_RX_MAX then
           (case json_find_value (text_of (ws_payload s)) ''cmd'' of
              Some cmd \<Rightarrow> ws_handle_cmd H cmd s
            | None \<Rightarrow> Ret () s)
         else Ret () s)
      else if ws_op s = 0x2 then
        (if fw_upg_active (ws_fw s) then
           (case fw_upg_write (nor (ho_board H)) (ws_payload s) (ws_fw s) (ws_world s) of (rc, st, w) \<Rightarrow>
             let s = set_ws_world w (s\<lparr>ws_fw := st\<rparr>) in
             Ret () (if rc = 0 then s\<lparr>ws_fw_crc := ws_crc16 (ws_fw_crc s) (ws_payload s)\<rparr> else s))
         else Ret () s)
      else if ws_op s = 0x8 then Ret () (ws_close_session (ws_send H 0x8 [] s))
      else if ws_op s = 0x9 then Ret () (ws_send H 0xA (ws_payload s) s)
      else if ws_op s = 0xA then Ret () s
      else Ret () (ws_close_session s))"

text \<open>After the length: the mask, if there is one, and the payload.\<close>

definition ws_body :: "'w ws \<Rightarrow> 'w ws" where
  "ws_body s = s\<lparr>ws_hdr_got := 0, ws_state := if ws_masked s then WS_MASK else WS_PAYLOAD\<rparr>"

text \<open>
  One byte of the stream. The payload is a list of the bytes received; the terminating NUL that \<open>ws_frame_done\<close> puts behind a text frame is the end of
  the list for the JSON functions.
\<close>

definition ws_byte :: "'w host \<Rightarrow> u8 \<Rightarrow> 'w ws \<Rightarrow> (unit, 'w ws) outcome" where
  "ws_byte H b s =
     (case ws_state s of
        WS_HDR \<Rightarrow>
          let s = s\<lparr>ws_hdr := (ws_hdr s)[ws_hdr_got s := b], ws_hdr_got := ws_hdr_got s + 1\<rparr> in
          if ws_hdr_got s < 2 then Ret () s
          else let h0 = ws_hdr s ! 0; h1 = ws_hdr s ! 1;
                   s = s\<lparr>ws_fin := h0 AND 0x80 \<noteq> 0, ws_op := h0 AND 0x0F, ws_masked := h1 AND 0x80 \<noteq> 0,
                         ws_plen := unat (h1 AND 0x7F), ws_payload := [], ws_hdr_got := 0\<rparr> in
            Ret () (if ws_plen s = 126 then s\<lparr>ws_state := WS_LEN16\<rparr>
                    else if ws_plen s = 127 then s\<lparr>ws_state := WS_LEN64\<rparr>
                    else if ws_plen s > WS_RX_MAX then ws_close_session s
                    else ws_body s)
      | WS_LEN16 \<Rightarrow>
          let s = s\<lparr>ws_hdr := (ws_hdr s)[ws_hdr_got s := b], ws_hdr_got := ws_hdr_got s + 1\<rparr> in
          if ws_hdr_got s = 2 then
            let s = s\<lparr>ws_plen := unat (push_bit 8 (ucast (ws_hdr s ! 0)) OR ucast (ws_hdr s ! 1) :: u32)\<rparr> in
            Ret () (if ws_plen s > WS_RX_MAX then ws_close_session s else ws_body s)
          else Ret () s
      | WS_LEN64 \<Rightarrow>
          let s = s\<lparr>ws_hdr := (ws_hdr s)[ws_hdr_got s := b], ws_hdr_got := ws_hdr_got s + 1\<rparr> in
          if ws_hdr_got s = 8 then
            let v = foldl (\<lambda>v h. push_bit 8 v OR ucast h) (0 :: u64) (take 8 (ws_hdr s)) in
            Ret () (if unat v > WS_RX_MAX then ws_close_session s else ws_body (s\<lparr>ws_plen := unat v\<rparr>))
          else Ret () s
      | WS_MASK \<Rightarrow>
          let s = s\<lparr>ws_mask := (ws_mask s)[ws_hdr_got s := b], ws_hdr_got := ws_hdr_got s + 1\<rparr> in
          Ret () (if ws_hdr_got s = 4 then s\<lparr>ws_hdr_got := 0, ws_state := WS_PAYLOAD\<rparr> else s)
      | WS_PAYLOAD \<Rightarrow>
          let idx = length (ws_payload s) in
          if idx \<ge> WS_RX_MAX then Ret () (ws_close_session s)
          else let s = s\<lparr>ws_payload := ws_payload s @ [if ws_masked s then b XOR ws_mask s ! (idx mod 4) else b]\<rparr> in
            if length (ws_payload s) = ws_plen s then
              outcome_bind (ws_frame_done H s) (\<lambda>_ s.
                Ret () (if ws_active s then s\<lparr>ws_state := WS_HDR, ws_hdr_got := 0\<rparr> else s))
            else Ret () s)"

fun ws_feed :: "'w host \<Rightarrow> u8 list \<Rightarrow> 'w ws \<Rightarrow> (unit, 'w ws) outcome" where
  "ws_feed H [] s = Ret () s"
| "ws_feed H (b # dat) s = (if \<not> ws_active s then Ret () s else outcome_bind (ws_byte H b s) (\<lambda>_. ws_feed H dat))"

section \<open>Push and life cycle\<close>

definition ws_poll :: "'w host \<Rightarrow> 'w ws \<Rightarrow> 'w ws" where
  "ws_poll H s =
     (let now = ws_now_ms H s; ms = ws_now_ms H in
      if \<not> ws_active s then s
      else let s = (if now - ws_t_push s \<ge> WS_PUSH_MS then
                      let s = ws_send_doc H (web_build_io_json (ms s) WS_TX_BUF (ws_dev s)) s;
                          s = ws_send_doc H (web_build_regs_json WS_TX_BUF (ws_dev s)) s
                      in s\<lparr>ws_t_push := now\<rparr>
                    else s) in
        if now - ws_t_info s \<ge> WS_INFO_MS then
          (ws_send_doc H (web_build_info_json (ho_env H (ws_world s)) (ms s) WS_TX_BUF (ws_dev s)) s)\<lparr>ws_t_info := now\<rparr>
        else s)"

definition ws_detach :: "'w ws \<Rightarrow> 'w ws" where
  "ws_detach s = s\<lparr>ws_active := False, ws_pcb := None, ws_on_close := False\<rparr>"

definition ws_attach :: "'w host \<Rightarrow> nat \<Rightarrow> u8 list \<Rightarrow> 'w ws \<Rightarrow> (unit, 'w ws) outcome" where
  "ws_attach H p pending s =
     (if ws_active s then Ret () s
      else ws_feed H pending
        (s\<lparr>ws_active := True, ws_pcb := Some p, ws_on_close := True, ws_ended := False, ws_state := WS_HDR, ws_hdr_got := 0,
           ws_payload := [], ws_fw_crc := 0, ws_t_push := ws_now_ms H s - WS_PUSH_MS + 500,
           ws_t_info := ws_now_ms H s - WS_INFO_MS + 500\<rparr>))"

section \<open>Handshake\<close>

definition lower :: "char \<Rightarrow> char" where
  "lower c = (let n = of_char c in if 65 \<le> n \<and> n \<le> (90 :: nat) then char_of (n + 32) else c)"

definition strncasecmp_eq :: "string \<Rightarrow> string \<Rightarrow> nat \<Rightarrow> bool" where
  "strncasecmp_eq a b n \<longleftrightarrow> map lower (take n a) = map lower (take n b)"

definition ws_guid :: string where
  "ws_guid = ''258EAFA5-E914-47DA-95CA-C5AB0DC85B11''"

definition ws_key_field :: string where
  "ws_key_field = ''Sec-WebSocket-Key:''"

text \<open>The search; the text is what the memory holds from the request on, and \<open>n\<close> the length of the header.\<close>

fun ws_find_key :: "string \<Rightarrow> nat \<Rightarrow> string option" where
  "ws_find_key req n =
     (if length ws_key_field < n \<and> req \<noteq> [] then
        (if strncasecmp_eq req ws_key_field (length ws_key_field)
         then Some (dropWhile (\<lambda>c. c = CHR '' '') (drop (length ws_key_field) req))
         else ws_find_key (tl req) (n - 1))
      else None)"

declare ws_find_key.simps [simp del]

definition crlf :: string where "crlf = [CHR 0x0D, CHR 0x0A]"

text \<open>The response; the outer \<open>None\<close> would be a hash that does not return.\<close>

definition ws_handshake :: "string \<Rightarrow> nat \<Rightarrow> nat \<Rightarrow> string option option" where
  "ws_handshake req hdr_len resp_max =
     (case ws_find_key req hdr_len of
        None \<Rightarrow> Some None
      | Some key \<Rightarrow>
          (case Option.bind (sha1_update sha1_init (take 24 (bytes_of key))) (\<lambda>sc.
                Option.bind (sha1_update sc (bytes_of ws_guid)) sha1_final) of
             None \<Rightarrow> None
           | Some digest \<Rightarrow>
               let accept = b64_encode digest in
               if length accept \<noteq> 28 then Some None
               else let resp = ''HTTP/1.1 101 Switching Protocols'' @ crlf @ ''Upgrade: websocket'' @ crlf @ ''Connection: Upgrade'' @ crlf
                      @ ''Sec-WebSocket-Accept: '' @ text_of accept @ crlf @ crlf in
                 Some (if length resp \<ge> resp_max then None else Some resp)))"

definition ws_init :: "'w ws \<Rightarrow> 'w ws" where
  "ws_init s = s\<lparr>fw_op_q := []\<rparr>"

section \<open>What a call leaves alone\<close>

lemma ws_crc16_is_ccitt: "ws_crc16 seed src = crc16_ccitt seed src"
proof (induction src arbitrary: seed)
  case (Cons b src)
  have "ucast (seed XOR ucast b) = (ucast seed XOR b :: u8)" by (rule bit_word_eqI) (simp add: bit_simps)
  then show ?case using Cons by (simp add: ccitt_step_def Let_def)
qed simp

lemma ws_send_dev: "\<exists>w. ws_send H opcode p s = set_ws_world w s"
proof -
  have "s = set_ws_world (ws_world s) s" by (simp add: set_ws_world_def ws_world_def)
  then show ?thesis by (auto simp: ws_send_def Let_def split: bool.splits option.splits prod.splits)
qed

lemma ws_send_json_dev: "\<exists>w. ws_send_json H json s = set_ws_world w s"
  using ws_send_dev by (simp add: ws_send_json_def)

lemma ws_send_doc_dev: "\<exists>w. ws_send_doc H doc s = set_ws_world w s"
proof -
  have "s = set_ws_world (ws_world s) s" by (simp add: set_ws_world_def ws_world_def)
  then show ?thesis using ws_send_dev by (auto simp: ws_send_doc_def split: option.splits)
qed

text \<open>The second state differs from the first at most in the device and the operations queued.\<close>

definition only_dev_queue :: "'w ws \<Rightarrow> 'w ws \<Rightarrow> bool" where
  "only_dev_queue s t \<longleftrightarrow> (\<exists>d q. t = s\<lparr>ws_dev := d, fw_op_q := q\<rparr> \<and> length q \<le> max WS_FW_Q_DEPTH (length (fw_op_q s)))"

lemma only_dev_queueI:
  "only_dev_queue s s" "only_dev_queue s (s\<lparr>ws_dev := d\<rparr>)" "only_dev_queue s (set_ws_world w s)" "only_dev_queue s (in_wsdev f s)"
  unfolding only_dev_queue_def set_ws_world_def in_wsdev_def
  by (rule exI [of _ "ws_dev s"] exI [of _ d] exI [of _ "(ws_dev s)\<lparr>world := w\<rparr>"] exI [of _ "f (ws_dev s)"], rule exI [of _ "fw_op_q s"], simp)+

lemma only_dev_queue_trans: "only_dev_queue s t \<Longrightarrow> only_dev_queue t u \<Longrightarrow> only_dev_queue s u"
  unfolding only_dev_queue_def by (elim exE conjE, hypsubst, rule exI, rule exI) auto

lemma only_dev_queue_send [intro]:
  "only_dev_queue s t \<Longrightarrow> only_dev_queue s (ws_send H opcode p t)" "only_dev_queue s t \<Longrightarrow> only_dev_queue s (ws_send_json H json t)"
  "only_dev_queue s t \<Longrightarrow> only_dev_queue s (ws_send_doc H doc t)" "only_dev_queue s t \<Longrightarrow> only_dev_queue s (in_wsdev f t)"
  "only_dev_queue s t \<Longrightarrow> only_dev_queue s (t\<lparr>ws_dev := d\<rparr>)"
  using only_dev_queue_trans only_dev_queueI ws_send_dev ws_send_json_dev ws_send_doc_dev by metis+

lemma ws_queue_op_kept: "only_dev_queue s (ws_queue_op H oper s)"
proof (cases "length (fw_op_q s) < WS_FW_Q_DEPTH")
  case True
  then show ?thesis unfolding only_dev_queue_def ws_queue_op_def
    by (intro exI [of _ "ws_dev s"] exI [of _ "fw_op_q s @ [oper]"]) simp
next
  case False
  then show ?thesis by (simp add: ws_queue_op_def only_dev_queue_send only_dev_queueI)
qed

lemma only_dev_queue_cases [intro]:
  "only_dev_queue s (outcome_state a) \<Longrightarrow> only_dev_queue s (outcome_state b) \<Longrightarrow> only_dev_queue s (outcome_state (if c then a else b))"
  "only_dev_queue s t \<Longrightarrow> only_dev_queue s (outcome_state (Ret x t))"
  "(\<And>x d. only_dev_queue s (outcome_state (f x (s\<lparr>ws_dev := d\<rparr>)))) \<Longrightarrow> only_dev_queue s (outcome_state (outcome_bind (lift_ws r s) f))"
  by (auto simp: lift_ws_def only_dev_queueI split: outcome.splits)

lemma ws_cmd_kept:
  "only_dev_queue s (ws_cmd_do H index val s)" "only_dev_queue s (ws_cmd_fw_start H cmd s)" "only_dev_queue s (ws_cmd_fw_end H s)"
  unfolding ws_cmd_do_def ws_cmd_fw_start_def ws_cmd_fw_end_def Let_def
  by (auto intro: ws_queue_op_kept only_dev_queueI split: prod.split option.split)

lemma ws_handle_cmd_kept: "only_dev_queue s (outcome_state (ws_handle_cmd H cmd s))"
  unfolding ws_handle_cmd_def Let_def
  by (intro only_dev_queue_cases ws_cmd_kept only_dev_queue_send only_dev_queueI) (auto split: prod.split intro: only_dev_queueI)

text \<open>Of the receiver, the end of a frame changes nothing but the flags of the session.\<close>

definition rx_kept :: "'w ws \<Rightarrow> 'w ws \<Rightarrow> bool" where
  "rx_kept s t \<longleftrightarrow> ws_state t = ws_state s \<and> ws_hdr t = ws_hdr s \<and> ws_hdr_got t = ws_hdr_got s \<and> ws_mask t = ws_mask s \<and>
     ws_plen t = ws_plen s \<and> ws_payload t = ws_payload s \<and> length (fw_op_q t) \<le> max WS_FW_Q_DEPTH (length (fw_op_q s)) \<and>
     length (fw_replies t) = length (fw_replies s) \<and> (ws_active t \<longrightarrow> ws_active s)"

lemma only_dev_queue_rx: "only_dev_queue s t \<Longrightarrow> rx_kept s t"
  by (auto simp: only_dev_queue_def rx_kept_def)

lemma close_rx [simp]: "rx_kept s (ws_close_session t) \<longleftrightarrow> rx_kept s (t\<lparr>ws_active := False\<rparr>)"
  by (auto simp: ws_close_session_def rx_kept_def)

lemma rx_kept_send [intro]: "rx_kept s (t\<lparr>ws_active := False\<rparr>) \<Longrightarrow> rx_kept s ((ws_send H oc p t)\<lparr>ws_active := False\<rparr>)"
  using ws_send_dev [of H oc p t] by (auto simp: rx_kept_def set_ws_world_def)

lemma ws_frame_done_rx: "rx_kept s (outcome_state (ws_frame_done H s))"
proof -
  have a [simp]: "rx_kept s s" "rx_kept s (s\<lparr>ws_active := False\<rparr>)" by (simp_all add: rx_kept_def)
  have b [simp]: "rx_kept s (ws_close_session (ws_send H oc p s))" "rx_kept s (ws_close_session s)" for oc p by (simp_all add: rx_kept_send)
  have c [simp]: "rx_kept s (ws_send H oc p s)" for oc p by (intro only_dev_queue_rx only_dev_queue_send only_dev_queueI)
  have d [simp]: "rx_kept s (set_ws_world w (s\<lparr>ws_fw := st\<rparr>))" "rx_kept s ((set_ws_world w (s\<lparr>ws_fw := st\<rparr>))\<lparr>ws_fw_crc := x\<rparr>)" for w st x
    by (simp_all add: rx_kept_def set_ws_world_def)
  show ?thesis unfolding ws_frame_done_def Let_def
    by (simp add: only_dev_queue_rx [OF ws_handle_cmd_kept] del: close_rx split: option.split prod.split)
qed

section \<open>The receiver stays inside its buffers\<close>

definition hdr_limit :: "ws_rx_state \<Rightarrow> nat" where
  "hdr_limit st = (case st of WS_HDR \<Rightarrow> 2 | WS_LEN16 \<Rightarrow> 2 | WS_LEN64 \<Rightarrow> 8 | WS_MASK \<Rightarrow> 4 | WS_PAYLOAD \<Rightarrow> 1)"

text \<open>The sizes of the arrays, and indices and counters within them.\<close>

definition wf_ws :: "'w ws \<Rightarrow> bool" where
  "wf_ws s \<longleftrightarrow> length (ws_hdr s) = 10 \<and> length (ws_mask s) = 4 \<and> length (ws_payload s) \<le> WS_RX_MAX \<and>
     length (fw_op_q s) \<le> WS_FW_Q_DEPTH \<and> length (fw_replies s) = 2 \<and>
     (ws_active s \<longrightarrow> ws_hdr_got s < hdr_limit (ws_state s) \<and> (ws_state s \<in> {WS_MASK, WS_PAYLOAD} \<longrightarrow> ws_plen s \<le> WS_RX_MAX))"

lemma wf_ws_rx: "wf_ws s \<Longrightarrow> rx_kept s t \<Longrightarrow> wf_ws t"
  by (auto simp: wf_ws_def rx_kept_def)

lemma wf_ws_close: "wf_ws s \<Longrightarrow> wf_ws (ws_close_session s)"
  by (simp add: ws_close_session_def wf_ws_def)

lemma wf_ws_byte:
  assumes "wf_ws s" "ws_active s"
  shows "wf_ws (outcome_state (ws_byte H b s))"
proof (cases "ws_state s")
  case WS_HDR
  have "unat (x AND 0x7F) \<le> 127" for x :: u8
  proof -
    have "x AND 0x7F \<le> 0x7F" by (rule word_and_le1)
    then show ?thesis by (simp add: word_le_nat_alt)
  qed
  then have "unat (x AND 0x7F) \<le> 10256" for x :: u8 by (rule le_trans) simp
  then show ?thesis using assms WS_HDR unfolding ws_byte_def Let_def
    by (auto simp: wf_ws_def hdr_limit_def ws_body_def ws_close_session_def WS_RX_MAX_def)
next
  case WS_LEN16
  then show ?thesis using assms unfolding ws_byte_def Let_def by (auto simp: wf_ws_def hdr_limit_def ws_body_def ws_close_session_def)
next
  case WS_LEN64
  then show ?thesis using assms unfolding ws_byte_def Let_def by (auto simp: wf_ws_def hdr_limit_def ws_body_def ws_close_session_def)
next
  case WS_MASK
  then show ?thesis using assms unfolding ws_byte_def Let_def by (auto simp: wf_ws_def hdr_limit_def)
next
  case WS_PAYLOAD
  let ?s = "s\<lparr>ws_payload := ws_payload s @ [if ws_masked s then b XOR ws_mask s ! (length (ws_payload s) mod 4) else b]\<rparr>"
  have "wf_ws ?s" if "length (ws_payload s) < WS_RX_MAX" using assms that by (simp add: wf_ws_def)
  then have w: "wf_ws (outcome_state (ws_frame_done H ?s))" if "length (ws_payload s) < WS_RX_MAX"
    using wf_ws_rx [OF _ ws_frame_done_rx] that by blast
  then have "wf_ws (outcome_state (outcome_bind (ws_frame_done H ?s) (\<lambda>_ s. Ret () (if ws_active s then s\<lparr>ws_state := WS_HDR, ws_hdr_got := 0\<rparr> else s))))"
    if "length (ws_payload s) < WS_RX_MAX"
    using that by (cases "ws_frame_done H ?s") (auto simp: wf_ws_def hdr_limit_def)
  then show ?thesis using assms WS_PAYLOAD \<open>_ \<Longrightarrow> wf_ws ?s\<close> unfolding ws_byte_def Let_def by (auto simp: not_le wf_ws_close)
qed

lemma wf_ws_feed: "wf_ws s \<Longrightarrow> wf_ws (outcome_state (ws_feed H dat s))"
proof (induction dat arbitrary: s)
  case (Cons b dat)
  have w: "wf_ws (outcome_state (ws_byte H b s))" if "ws_active s" by (rule wf_ws_byte [OF Cons.prems that])
  show ?case
  proof (cases "ws_byte H b s")
    case (Ret x t)
    then show ?thesis using w Cons by simp
  next
    case (Reset t)
    then show ?thesis using w Cons.prems by simp
  qed
qed simp

lemma wf_ws_fields:
  "wf_ws s \<Longrightarrow> wf_ws (set_ws_world w s)" "wf_ws s \<Longrightarrow> wf_ws (in_wsdev f s)" "wf_ws s \<Longrightarrow> wf_ws (s\<lparr>ws_fw := st\<rparr>)"
  "wf_ws s \<Longrightarrow> wf_ws (s\<lparr>ws_t_push := n\<rparr>)" "wf_ws s \<Longrightarrow> wf_ws (s\<lparr>ws_t_info := n\<rparr>)"
  "wf_ws s \<Longrightarrow> wf_ws (ws_send_doc H doc s)" "wf_ws s \<Longrightarrow> wf_ws (fw_reply_from_worker H json s)"
  using ws_send_doc_dev [of H doc s]
  by (auto simp: wf_ws_def set_ws_world_def in_wsdev_def fw_reply_from_worker_def Let_def split: prod.split)

lemma wf_ws_poll: "wf_ws s \<Longrightarrow> wf_ws (ws_poll H s)"
  by (simp add: ws_poll_def Let_def wf_ws_fields)

lemma wf_ws_task: "wf_ws s \<Longrightarrow> ws_fw_task H oper s = Some t \<Longrightarrow> wf_ws t"
  unfolding ws_fw_task_def Let_def
  by (auto simp: wf_ws_fields split: ws_fw_op.splits prod.splits if_splits option.splits)

text \<open>
  (C17) No traffic can move the receiver out of its buffers. Whatever bytes arrive, in whatever pieces, the state stays well-formed: the
  header and mask bytes are stored within their arrays, the payload never grows beyond its 10256 bytes, and never are more than
  four operations queued; so it does for a new session, for the periodic push and for every turn of the worker.
\<close>

theorem ws_type_safe:
  assumes "wf_ws s"
  shows "wf_ws (outcome_state (ws_feed H dat s)) \<and> wf_ws (outcome_state (ws_attach H p dat s)) \<and> wf_ws (ws_poll H s)
    \<and> wf_ws (ws_detach s) \<and> (\<forall>oper t. ws_fw_task H oper s = Some t \<longrightarrow> wf_ws t)
    \<and> (ws_active s \<longrightarrow> ws_hdr_got s < 10 \<and> (ws_state s = WS_MASK \<longrightarrow> ws_hdr_got s < 4))"
proof (intro conjI)
  show "wf_ws (outcome_state (ws_feed H dat s))" by (rule wf_ws_feed [OF assms])
  show "wf_ws (outcome_state (ws_attach H p dat s))"
  proof (cases "ws_active s")
    case False
    then show ?thesis unfolding ws_attach_def using assms by (simp, intro wf_ws_feed) (simp add: wf_ws_def hdr_limit_def)
  qed (simp add: ws_attach_def assms)
  show "wf_ws (ws_poll H s)" by (rule wf_ws_poll [OF assms])
  show "wf_ws (ws_detach s)" using assms by (simp add: ws_detach_def wf_ws_def)
  show "\<forall>oper t. ws_fw_task H oper s = Some t \<longrightarrow> wf_ws t" using wf_ws_task [OF assms] by blast
  show "ws_active s \<longrightarrow> ws_hdr_got s < 10 \<and> (ws_state s = WS_MASK \<longrightarrow> ws_hdr_got s < 4)"
    using assms by (cases "ws_state s") (auto simp: wf_ws_def hdr_limit_def)
qed


section \<open>The stream of frames\<close>

lemma ws_feed_inactive: "\<not> ws_active s \<Longrightarrow> ws_feed H dat s = Ret () s"
  by (cases dat) simp_all

lemma ws_feed_append: "ws_feed H (xs @ ys) s = outcome_bind (ws_feed H xs s) (\<lambda>_. ws_feed H ys)"
proof (induction xs arbitrary: s)
  case (Cons b xs)
  show ?case
  proof (cases "ws_active s")
    case True
    then show ?thesis using Cons by (cases "ws_byte H b s") simp_all
  qed (simp add: ws_feed_inactive)
qed simp

text \<open>A frame as a client sends it: the bytes are masked with a key of four bytes.\<close>

record ws_frame =
  fr_fin :: bool
  fr_op :: u8
  fr_key :: "u8 list"
  fr_data :: "u8 list"

primrec mask_from :: "nat \<Rightarrow> u8 list \<Rightarrow> u8 list \<Rightarrow> u8 list" where
  "mask_from k key [] = []"
| "mask_from k key (b # p) = (b XOR key ! (k mod 4)) # mask_from (Suc k) key p"

definition fr_length :: "ws_frame \<Rightarrow> u8 list" where
  "fr_length f = (let n = length (fr_data f) in if n < 126 then [0x80 OR of_nat n] else [0x80 OR 126, of_nat (n div 256), of_nat n])"

definition client_frame :: "ws_frame \<Rightarrow> u8 list" where
  "client_frame f = ((if fr_fin f then 0x80 else 0) OR fr_op f) # fr_length f @ fr_key f @ mask_from 0 (fr_key f) (fr_data f)"

definition wf_frame_hdr :: "ws_frame \<Rightarrow> bool" where
  "wf_frame_hdr f \<longleftrightarrow> fr_op f < 16 \<and> length (fr_key f) = 4 \<and> length (fr_data f) \<le> WS_RX_MAX"

definition wf_frame_out :: "ws_frame \<Rightarrow> bool" where
  "wf_frame_out f \<longleftrightarrow> wf_frame_hdr f \<and> fr_data f \<noteq> []"

text \<open>The session between two frames, and with a frame in its fields.\<close>

definition between_frames :: "'w ws \<Rightarrow> bool" where
  "between_frames s \<longleftrightarrow> ws_state s = WS_HDR \<and> ws_hdr_got s = 0 \<and> length (ws_hdr s) = 10 \<and> length (ws_mask s) = 4"

definition frame_loaded :: "ws_frame \<Rightarrow> 'w ws \<Rightarrow> 'w ws" where
  "frame_loaded f s = s\<lparr>ws_fin := fr_fin f, ws_op := fr_op f, ws_masked := True, ws_mask := fr_key f, ws_plen := length (fr_data f),
     ws_payload := fr_data f, ws_state := WS_PAYLOAD,
     ws_hdr := (if length (fr_data f) < 126 then (ws_hdr s)[0 := client_frame f ! 0, 1 := client_frame f ! 1]
                else (ws_hdr s)[0 := client_frame f ! 2, 1 := client_frame f ! 3])\<rparr>"

definition ws_deliver :: "'w host \<Rightarrow> ws_frame \<Rightarrow> 'w ws \<Rightarrow> (unit, 'w ws) outcome" where
  "ws_deliver H f s = outcome_bind (ws_frame_done H (frame_loaded f s)) (\<lambda>_ s.
     Ret () (if ws_active s then s\<lparr>ws_state := WS_HDR, ws_hdr_got := 0\<rparr> else s))"

fun ws_deliver_all :: "'w host \<Rightarrow> ws_frame list \<Rightarrow> 'w ws \<Rightarrow> (unit, 'w ws) outcome" where
  "ws_deliver_all H [] s = Ret () s"
| "ws_deliver_all H (f # fs) s = (if \<not> ws_active s then Ret () s else outcome_bind (ws_deliver H f s) (\<lambda>_. ws_deliver_all H fs))"

fun ws_feed_all :: "'w host \<Rightarrow> u8 list list \<Rightarrow> 'w ws \<Rightarrow> (unit, 'w ws) outcome" where
  "ws_feed_all H [] s = Ret () s"
| "ws_feed_all H (p # ps) s = outcome_bind (ws_feed H p s) (\<lambda>_. ws_feed_all H ps)"

lemma ws_feed_concat: "ws_feed_all H ps s = ws_feed H (concat ps) s"
proof (induction ps arbitrary: s)
  case (Cons p ps)
  then show ?case by (cases "ws_feed H p s") (simp_all add: ws_feed_append)
qed simp

lemma feed_payload:
  assumes "ws_active s" "ws_state s = WS_PAYLOAD" "ws_masked s" "length (ws_payload s) + length p = ws_plen s" "p \<noteq> []" "ws_plen s \<le> WS_RX_MAX"
  shows "ws_feed H (mask_from (length (ws_payload s)) (ws_mask s) p) s =
    outcome_bind (ws_frame_done H (s\<lparr>ws_payload := ws_payload s @ p\<rparr>)) (\<lambda>_ s. Ret () (if ws_active s then s\<lparr>ws_state := WS_HDR, ws_hdr_got := 0\<rparr> else s))"
  using assms
proof (induction p arbitrary: s)
  case (Cons b p)
  let ?k = "ws_mask s ! (length (ws_payload s) mod 4)"
  have x: "(b XOR ?k) XOR ?k = b" by (simp add: xor.assoc)
  show ?case
  proof (cases "p = []")
    case True
    then show ?thesis using Cons.prems by (simp add: ws_byte_def Let_def x not_le)
  next
    case False
    let ?s = "s\<lparr>ws_payload := ws_payload s @ [b]\<rparr>"
    have "Suc (length (ws_payload s)) \<noteq> ws_plen s" using Cons.prems(4) False by (cases p) auto
    then have "ws_byte H (b XOR ?k) s = Ret () ?s" using Cons.prems False by (simp add: ws_byte_def Let_def x not_le)
    then show ?thesis using Cons.IH [of ?s] Cons.prems False by simp
  qed
qed simp

lemma u8_low:
  assumes "unat x < 2 ^ k" "k \<le> 7"
  shows "(x :: u8) AND mask k = x" "x AND 0x80 = 0"
proof -
  have "unat (take_bit k x) = unat x" using assms(1) by (simp add: unsigned_take_bit_eq take_bit_nat_eq_self)
  then have "take_bit k x = x" by (simp only: unsigned_word_eqI)
  then show m: "x AND mask k = x" by (simp flip: take_bit_eq_mask)
  have "\<not> bit x 7" using assms(2) m by (metis bit_and_iff bit_mask_iff not_le)
  then show "x AND 0x80 = 0" by (intro bit_word_eqI) (auto simp: bit_simps numeral_eq_Suc less_Suc_eq bit_Suc)
qed

lemma opcode_byte:
  assumes "oc < 16"
  shows "((if fin then 0x80 else 0) OR oc) AND (0x80 :: u8) \<noteq> 0 \<longleftrightarrow> fin" "((if fin then 0x80 else 0) OR oc) AND 0x0F = oc"
proof -
  have o: "oc AND 0x0F = oc" "oc AND 0x80 = 0" using u8_low [of oc 4] assms by (simp_all add: mask_eq_exp_minus_1 word_less_nat_alt)
  then show "((if fin then 0x80 else 0) OR oc) AND (0x80 :: u8) \<noteq> 0 \<longleftrightarrow> fin" "((if fin then 0x80 else 0) OR oc) AND 0x0F = oc"
    by (simp_all add: bit.conj_disj_distrib2)
qed

lemma length_byte:
  assumes "n < 128"
  shows "(0x80 OR of_nat n) AND (0x80 :: u8) \<noteq> 0" "unat ((0x80 OR of_nat n) AND (0x7F :: u8)) = n"
proof -
  have u: "unat (of_nat n :: u8) = n" using assms by (subst unat_of_nat) simp
  then have "(of_nat n :: u8) AND 0x7F = of_nat n" "(of_nat n :: u8) AND 0x80 = 0" using u8_low [of "of_nat n" 7] assms by (simp_all add: mask_eq_exp_minus_1)
  then show "(0x80 OR of_nat n) AND (0x80 :: u8) \<noteq> 0" "unat ((0x80 OR of_nat n) AND (0x7F :: u8)) = n"
    using u by (simp_all add: bit.conj_disj_distrib2)
qed

lemma length_16:
  assumes "n < 65536"
  shows "unat (push_bit 8 (ucast (of_nat (n div 256) :: u8)) OR ucast (of_nat n :: u8) :: u32) = n"
proof -
  have hi: "\<not> bit n k" if "16 \<le> k" for k
  proof -
    have "n < 2 ^ k" using assms less_le_trans [of n "2 ^ 16" "2 ^ k"] that power_increasing [of 16 k "2 :: nat"] by simp
    then show ?thesis by (simp add: bit_iff_odd)
  qed
  have d: "bit (n div 256) k \<longleftrightarrow> bit n (k + 8)" for k
    using bit_drop_bit_eq [of 8 n] by (simp add: drop_bit_eq_div add.commute fun_eq_iff)
  have "push_bit 8 (ucast (of_nat (n div 256) :: u8)) OR ucast (of_nat n :: u8) = (of_nat n :: u32)"
  proof (rule bit_word_eqI)
    fix k assume "k < LENGTH(32)"
    then show "bit (push_bit 8 (ucast (of_nat (n div 256) :: u8)) OR ucast (of_nat n :: u8) :: u32) k \<longleftrightarrow> bit (of_nat n :: u32) k"
      using hi [of k] by (cases "k < 8"; cases "k < 16") (auto simp: bit_simps d)
  qed
  then show ?thesis using assms by (simp, subst unat_of_nat) simp
qed

definition header_loaded :: "ws_frame \<Rightarrow> 'w ws \<Rightarrow> 'w ws" where
  "header_loaded f s = (frame_loaded f s)\<lparr>ws_mask := ws_mask s, ws_payload := [], ws_state := WS_MASK\<rparr>"

lemma hdr_overwrite: "xs[0 := a, Suc 0 := b, 0 := x, Suc 0 := y] = xs[0 := x, Suc 0 := y]"
  by (cases xs; cases "tl xs") auto

lemma feed_header:
  assumes "ws_active s" "between_frames s" "wf_frame_hdr f"
  shows "ws_feed H (((if fr_fin f then 0x80 else 0) OR fr_op f) # fr_length f) s = Ret () (header_loaded f s)"
proof -
  note o = opcode_byte [of "fr_op f"] and n = length_byte [of "length (fr_data f)"]
  have f: "fr_op f < 16" "length (fr_data f) \<le> 10256" using assms(3) by (simp_all add: wf_frame_hdr_def WS_RX_MAX_def)
  have s: "ws_state s = WS_HDR" "ws_hdr_got s = 0" "length (ws_hdr s) = 10" using assms(2) by (simp_all add: between_frames_def)
  let ?h = "(if fr_fin f then 0x80 else 0) OR fr_op f"
  have b0: "ws_byte H ?h s = Ret () (s\<lparr>ws_hdr := (ws_hdr s)[0 := ?h], ws_hdr_got := 1\<rparr>)" by (simp add: ws_byte_def s)
  show ?thesis
  proof (cases "length (fr_data f) < 126")
    case True
    then show ?thesis using assms(1) b0 o [OF f(1)] n s
      by (simp add: fr_length_def ws_byte_def ws_body_def header_loaded_def frame_loaded_def client_frame_def WS_RX_MAX_def Let_def)
  next
    case False
    define x y :: u8 where xy: "x = of_nat (length (fr_data f) div 256)" "y = of_nat (length (fr_data f))"
    have l: "unat (push_bit 8 (ucast x) OR ucast y :: u32) = length (fr_data f)" unfolding xy by (rule length_16) (use f(2) in simp)
    have fl: "fr_length f = [0xFE, x, y]" using False by (simp add: fr_length_def xy Let_def)
    show ?thesis using assms(1) b0 o [OF f(1)] l s f(2) False
      by (simp add: fl ws_byte_def ws_body_def header_loaded_def frame_loaded_def client_frame_def WS_RX_MAX_def Let_def hdr_overwrite)
  qed
qed

lemma feed_mask:
  assumes "ws_active s" "ws_state s = WS_MASK" "ws_hdr_got s = 0" "length (ws_mask s) = 4" "length key = 4"
  shows "ws_feed H key s = Ret () (s\<lparr>ws_mask := key, ws_state := WS_PAYLOAD\<rparr>)"
proof -
  obtain a b c d where k: "key = [a, b, c, d]" using assms(5) by (rule length_4E)
  obtain p q r t where m: "ws_mask s = [p, q, r, t]" using assms(4) by (rule length_4E)
  show ?thesis using assms(1-3) by (simp add: k m ws_byte_def Let_def)
qed

lemma feed_until_payload:
  assumes "ws_active s" "between_frames s" "wf_frame_hdr f"
  shows "ws_feed H (((if fr_fin f then 0x80 else 0) OR fr_op f) # fr_length f @ fr_key f) s =
      Ret () ((header_loaded f s)\<lparr>ws_mask := fr_key f, ws_state := WS_PAYLOAD\<rparr>)"
    "client_frame f = (((if fr_fin f then 0x80 else 0) OR fr_op f) # fr_length f @ fr_key f) @ mask_from 0 (fr_key f) (fr_data f)"
proof -
  have "ws_feed H (fr_key f) (header_loaded f s) = Ret () ((header_loaded f s)\<lparr>ws_mask := fr_key f, ws_state := WS_PAYLOAD\<rparr>)"
    using assms by (intro feed_mask) (simp_all add: header_loaded_def frame_loaded_def between_frames_def wf_frame_hdr_def)
  then show "ws_feed H (((if fr_fin f then 0x80 else 0) OR fr_op f) # fr_length f @ fr_key f) s =
      Ret () ((header_loaded f s)\<lparr>ws_mask := fr_key f, ws_state := WS_PAYLOAD\<rparr>)"
    using feed_header [OF assms, of H] by (simp only: ws_feed_append outcome_bind.simps flip: append_Cons)
qed (simp add: client_frame_def)

lemma feed_frame:
  assumes "ws_active s" "between_frames s" "wf_frame_out f"
  shows "ws_feed H (client_frame f) s = ws_deliver H f s"
proof -
  let ?m = "(header_loaded f s)\<lparr>ws_mask := fr_key f, ws_state := WS_PAYLOAD\<rparr>"
  have k: "fr_data f \<noteq> []" "length (fr_data f) \<le> WS_RX_MAX" "wf_frame_hdr f" using assms(3) by (simp_all add: wf_frame_out_def wf_frame_hdr_def)
  have "ws_feed H (mask_from 0 (fr_key f) (fr_data f)) ?m = ws_deliver H f s"
  proof -
    have m: "ws_active ?m" "ws_state ?m = WS_PAYLOAD" "ws_masked ?m" "ws_payload ?m = []" "ws_plen ?m = length (fr_data f)" "ws_mask ?m = fr_key f"
      using assms(1) by (simp_all add: header_loaded_def frame_loaded_def)
    have e: "?m\<lparr>ws_payload := fr_data f\<rparr> = frame_loaded f s" by (rule ws.equality) (simp_all add: header_loaded_def frame_loaded_def)
    from feed_payload [OF m(1-3), of "fr_data f" H] k show ?thesis
      by (simp only: m list.size add_0 append_Nil e ws_deliver_def simp_thms)
  qed
  then show ?thesis using feed_until_payload(1) [OF assms(1,2) k(3), of H] feed_until_payload(2) [OF assms(1,2) k(3)] by (simp only: ws_feed_append outcome_bind.simps)
qed

lemma deliver_between:
  assumes "ws_deliver H f s = Ret () t" "ws_active t" "between_frames s" "wf_frame_out f"
  shows "between_frames t"
proof -
  obtain u where u: "ws_frame_done H (frame_loaded f s) = Ret () u" "t = (if ws_active u then u\<lparr>ws_state := WS_HDR, ws_hdr_got := 0\<rparr> else u)"
    using assms(1) by (auto simp: ws_deliver_def outcome_bind_eq_Ret)
  have "rx_kept (frame_loaded f s) u" using ws_frame_done_rx [of "frame_loaded f s" H] u(1) by simp
  then show ?thesis using u(2) assms(2-4)
    by (auto simp: between_frames_def rx_kept_def frame_loaded_def wf_frame_out_def wf_frame_hdr_def split: if_splits)
qed

lemma feed_frames:
  assumes "between_frames s" "\<forall>f \<in> set fs. wf_frame_out f"
  shows "ws_feed H (concat (map client_frame fs)) s = ws_deliver_all H fs s"
  using assms
proof (induction fs arbitrary: s)
  case (Cons f fs)
  show ?case
  proof (cases "ws_active s")
    case True
    then have d: "ws_feed H (client_frame f) s = ws_deliver H f s" using feed_frame [of s f H] Cons.prems by simp
    show ?thesis
    proof (cases "ws_deliver H f s")
      case (Ret x t)
      have "ws_feed H (concat (map client_frame fs)) t = ws_deliver_all H fs t"
      proof (cases "ws_active t")
        case a: True
        then show ?thesis using Cons.IH [of t] deliver_between [of H f s t] Ret Cons.prems by simp
      next
        case False
        then show ?thesis by (cases fs) (simp_all add: ws_feed_inactive)
      qed
      then show ?thesis using True Ret d by (simp add: ws_feed_append)
    qed (use True d in \<open>simp add: ws_feed_append\<close>)
  qed (simp add: ws_feed_inactive)
qed simp

text \<open>
  (C16) The receiver implements the message service of a WebSocket: when a client sends masked frames with data, of at most 10256 bytes
  each, and the network delivers the bytes in any pieces, then exactly these frames are handled, in order and unmasked, until one of
  them ends the session.
\<close>

theorem ws_stream_served:
  assumes "between_frames s" "\<forall>f \<in> set fs. wf_frame_out f" "concat pieces = concat (map client_frame fs)"
  shows "ws_feed_all H pieces s = ws_deliver_all H fs s"
  unfolding ws_feed_concat assms(3) by (rule feed_frames [OF assms(1,2)])

section \<open>Empty frames\<close>

lemma feed_stuck:
  assumes "ws_active s" "ws_state s = WS_PAYLOAD" "ws_plen s = 0"
  shows "\<exists>p. ws_feed H dat s = Ret () (if length (ws_payload s) + length dat \<le> WS_RX_MAX \<or> dat = []
      then s\<lparr>ws_payload := p\<rparr> else ws_close_session (s\<lparr>ws_payload := p\<rparr>))"
  using assms
proof (induction dat arbitrary: s)
  case Nil
  then show ?case by (auto intro: exI [of _ "ws_payload s"])
next
  case (Cons b dat)
  show ?case
  proof (cases "WS_RX_MAX \<le> length (ws_payload s)")
    case True
    then have "ws_feed H (b # dat) s = Ret () (ws_close_session s)"
      using Cons.prems by (simp add: ws_byte_def Let_def ws_feed_inactive ws_close_session_def)
    then show ?thesis using True by (auto intro: exI [of _ "ws_payload s"])
  next
    case False
    define v where "v = (if ws_masked s then b XOR ws_mask s ! (length (ws_payload s) mod 4) else b)"
    let ?s = "s\<lparr>ws_payload := ws_payload s @ [v]\<rparr>"
    have b: "ws_byte H b s = Ret () ?s" using Cons.prems False by (simp add: ws_byte_def Let_def v_def)
    have c: "(length (ws_payload ?s) + length dat \<le> WS_RX_MAX \<or> dat = []) = (length (ws_payload s) + length (b # dat) \<le> WS_RX_MAX \<or> b # dat = [])"
      using False by auto
    obtain p where "ws_feed H dat ?s = Ret () (if length (ws_payload ?s) + length dat \<le> WS_RX_MAX \<or> dat = []
      then ?s\<lparr>ws_payload := p\<rparr> else ws_close_session (?s\<lparr>ws_payload := p\<rparr>))" using Cons.IH [of ?s] Cons.prems by auto
    then have "ws_feed H (b # dat) s = Ret () (if length (ws_payload s) + length (b # dat) \<le> WS_RX_MAX \<or> b # dat = []
      then s\<lparr>ws_payload := p\<rparr> else ws_close_session (s\<lparr>ws_payload := p\<rparr>))" unfolding c using Cons.prems(1) b by simp
    then show ?thesis by (rule exI)
  qed
qed

text \<open>
  A frame without data is never handled, and swallows what follows it. A ping or a close frame with no data, as clients are free to
  send them, is not answered; the bytes of all later frames are taken as its data, so that nothing they ask for is done, and
  when they have filled the buffer of 10256 bytes the session is dropped.
\<close>

theorem ws_empty_frame_swallows:
  assumes "ws_active s" "between_frames s" "wf_frame_hdr f" "fr_data f = []"
  shows "\<exists>t. ws_feed H (client_frame f @ dat) s = Ret () t \<and> ws_dev t = ws_dev s \<and> ws_fw t = ws_fw s \<and> fw_op_q t = fw_op_q s
    \<and> (ws_active t \<longleftrightarrow> length dat \<le> WS_RX_MAX)"
proof -
  let ?m = "(header_loaded f s)\<lparr>ws_mask := fr_key f, ws_state := WS_PAYLOAD\<rparr>"
  have m: "ws_active ?m" "ws_state ?m = WS_PAYLOAD" "ws_plen ?m = 0" "ws_payload ?m = []"
    using assms by (simp_all add: header_loaded_def frame_loaded_def)
  have "client_frame f = ((if fr_fin f then 0x80 else 0) OR fr_op f) # fr_length f @ fr_key f" using assms(4) by (simp add: client_frame_def)
  then have f: "ws_feed H (client_frame f @ dat) s = ws_feed H dat ?m"
    using feed_until_payload(1) [OF assms(1-3), of H] by (simp only: ws_feed_append outcome_bind.simps)
  obtain p where p: "ws_feed H dat ?m = Ret () (if length dat \<le> WS_RX_MAX \<or> dat = [] then ?m\<lparr>ws_payload := p\<rparr> else ws_close_session (?m\<lparr>ws_payload := p\<rparr>))"
    using feed_stuck [OF m(1-3), of H dat] m(4) by auto
  then show ?thesis unfolding f using assms(1)
    by (cases "length dat \<le> WS_RX_MAX") (auto simp: ws_close_session_def header_loaded_def frame_loaded_def)
qed

section \<open>Uploads\<close>

lemma ccitt_bit_inj: "ccitt_bit x = ccitt_bit y \<Longrightarrow> x = y"
proof -
  assume e: "ccitt_bit x = ccitt_bit y"
  have b: "bit (ccitt_bit x) n = bit (ccitt_bit y) n" for n using e by simp
  have z: "bit x 0 = bit y 0" using b [of 15] by (simp only: bit_ccitt_bit, simp)
  have "bit x (Suc n) = bit y (Suc n)" if "n < 15" for n
    using b [of n] z that by (simp only: bit_ccitt_bit split: if_splits) (auto split: if_splits)
  then have "bit x n = bit y n" if "n < 16" for n using z that by (cases n) simp_all
  then show "x = y" by (intro bit_word_eqI) simp
qed

lemma ccitt_step_inj: "ccitt_step x b = ccitt_step y b \<Longrightarrow> x = y"
  unfolding ccitt_step_byte ccitt_byte_def ccitt_bit_8 by (drule ccitt_bit_inj)+ simp

lemma crc16_ccitt_inj: "crc16_ccitt x src = crc16_ccitt y src \<Longrightarrow> x = y"
  by (induction src arbitrary: x y) (auto dest: ccitt_step_inj)

text \<open>Data frames go to the upgrade session, and into the checksum.\<close>

lemma deliver_data:
  assumes "fw_upg_active (ws_fw s)" "fr_fin f" "fr_op f = 2" "fw_upg_write (nor (ho_board H)) (fr_data f) (ws_fw s) (ws_world s) = (0, st, w)"
    "ws_active s"
  shows "\<exists>t. ws_deliver H f s = Ret () t \<and> ws_active t \<and> ws_fw t = st \<and> ws_world t = w \<and> ws_fw_crc t = crc16_ccitt (ws_fw_crc s) (fr_data f)
    \<and> ws_dev t = (ws_dev s)\<lparr>world := w\<rparr> \<and> fw_replies t = fw_replies s \<and> fw_reply_idx t = fw_reply_idx s"
  using assms by (simp add: ws_deliver_def ws_frame_done_def frame_loaded_def Let_def set_ws_world_def ws_world_def ws_crc16_is_ccitt)

lemma deliver_image:
  assumes "reliable_nor_flash (nor (ho_board H)) mem" "ws_active s" "fw_session (ws_fw s) (mem (ws_world s)) img"
    "\<forall>f \<in> set fs. fr_fin f \<and> fr_op f = 2" "length (img @ concat (map fr_data fs)) \<le> unat (fw_total (ws_fw s))"
  shows "\<exists>t. ws_deliver_all H fs s = Ret () t \<and> fw_session (ws_fw t) (mem (ws_world t)) (img @ concat (map fr_data fs))
    \<and> fw_total (ws_fw t) = fw_total (ws_fw s) \<and> ws_fw_crc t = crc16_ccitt (ws_fw_crc s) (concat (map fr_data fs))
    \<and> reboot_pending (ws_dev t) = reboot_pending (ws_dev s) \<and> fw_replies t = fw_replies s \<and> fw_reply_idx t = fw_reply_idx s"
  using assms(2-)
proof (induction fs arbitrary: s img)
  case (Cons f fs)
  obtain st w where w: "fw_upg_write (nor (ho_board H)) (fr_data f) (ws_fw s) (ws_world s) = (0, st, w)"
    "fw_session st (mem w) (img @ fr_data f)" "fw_total st = fw_total (ws_fw s)"
    using reliable_nor_flash.fw_upg_write_ok [OF assms(1) Cons.prems(2), of "fr_data f"] Cons.prems(4) by auto
  have "fw_upg_active (ws_fw s)" using Cons.prems(2) by (simp add: fw_session_def fw_upg_active_def)
  then obtain t where t: "ws_deliver H f s = Ret () t" "ws_active t" "ws_fw t = st" "ws_world t = w" "ws_fw_crc t = crc16_ccitt (ws_fw_crc s) (fr_data f)"
    "ws_dev t = (ws_dev s)\<lparr>world := w\<rparr>" "fw_replies t = fw_replies s" "fw_reply_idx t = fw_reply_idx s"
    using deliver_data [of s f H st w] Cons.prems(1,3) w(1) by auto
  have "fw_session (ws_fw t) (mem (ws_world t)) (img @ fr_data f)" "\<forall>f \<in> set fs. fr_fin f \<and> fr_op f = 2"
    "length ((img @ fr_data f) @ concat (map fr_data fs)) \<le> unat (fw_total (ws_fw t))"
    using Cons.prems(3,4) t(3,4) w(2,3) by simp_all
  from Cons.IH [OF t(2) this] t(3,5-8) w(3) show ?case
    by (simp add: Cons.prems(1) t(1) crc16_ccitt_append)
qed simp

lemma set_ws_world_fields:
  "ws_world (set_ws_world w s) = w" "ws_fw (set_ws_world w s) = ws_fw s" "ws_active (set_ws_world w s) = ws_active s"
  "ws_fw_crc (set_ws_world w s) = ws_fw_crc s" "reboot_pending (ws_dev (set_ws_world w s)) = reboot_pending (ws_dev s)"
  "fw_replies (set_ws_world w s) = fw_replies s" "fw_reply_idx (set_ws_world w s) = fw_reply_idx s"
  by (simp_all add: set_ws_world_def ws_world_def)

lemma reply_fields:
  "ws_fw (fw_reply_from_worker H json s) = ws_fw s" "ws_fw_crc (fw_reply_from_worker H json s) = ws_fw_crc s"
  "ws_active (fw_reply_from_worker H json s) = ws_active s"
  "reboot_pending (ws_dev (fw_reply_from_worker H json s)) = reboot_pending (ws_dev s)"
  "ws_world (fw_reply_from_worker H json s) = snd (tcpip_callback H (ws_world s))"
  "fw_reply_idx (fw_reply_from_worker H json s) = fw_reply_idx s + 1"
  "fw_replies (fw_reply_from_worker H json s) = (fw_replies s)[unat (fw_reply_idx s AND 1) := take 79 json]"
  by (simp_all add: fw_reply_from_worker_def Let_def set_ws_world_def ws_world_def split: prod.split)

lemma reply_slot: "length xs = 2 \<Longrightarrow> xs[unat (i AND 1 :: u8) := x] ! unat (i AND 1) = x"
  by (simp add: and_one_eq unat_mod)

text \<open>
  (C35) An upload through the WebSocket is accepted exactly when the running checksum was zero at its start. On a flash that works, a
  complete image that carries the key hash of the device, sent in data frames of any size, is stored; but the checksum is set to zero
  only when the session is opened and not by \<open>fw_start\<close>. When it is not zero, as after the data of another upload in the same session, even a
  refused one, unless their checksum happened to be zero, the final check compares with the wrong value: the upload is answered with \<open>crc mismatch\<close>
  and the device does not restart into it.
\<close>

theorem ws_upload_accepted_iff:
  assumes "reliable_nor_flash (nor (ho_board H)) mem" "\<forall>w. mem (snd (tcpip_callback H w)) = mem w" "\<forall>w. fst (boot_set_pending H True w)"
    and "ws_active s" "\<not> fw_upg_active (ws_fw s)" "length (fw_replies s) = 2" "\<forall>f \<in> set fs. fr_fin f \<and> fr_op f = 2"
    and "img = concat (map fr_data fs)" "64 \<le> length img" "length img \<le> 0x70000" "io_get_le32 (drop 12 img) < 0xFFFFFDFC"
    and "\<forall>m. mem_bytes m 0 (length img) = img \<longrightarrow> image_keyhash m (ho_keyhash H)"
  shows "\<exists>s0 s1 s2. ws_fw_task H (WS_FW_OP_START (of_nat (length img)) None) s = Some s0 \<and> ws_deliver_all H fs s0 = Ret () s1
    \<and> ws_fw_task H (WS_FW_OP_END (ws_fw_crc s1)) s1 = Some s2
    \<and> fw_replies s2 ! unat (fw_reply_idx s1 AND 1) = (if ws_fw_crc s = 0 then ok_text else err_text ''crc mismatch'')
    \<and> (reboot_pending (ws_dev s2) \<longleftrightarrow> reboot_pending (ws_dev s) \<or> ws_fw_crc s = 0)"
proof -
  let ?F = "nor (ho_board H)" and ?K = "ho_keyhash H" and ?n = "of_nat (length img) :: u32"
  have n: "unat ?n = length img" using assms(10) by (subst unat_of_nat) simp
  note r = assms(1) and nf = reliable_nor_flash.axioms(1) [OF assms(1)]
  obtain st0 w0 where u: "fw_upg_start ?F ?K ?n None (ws_fw s) (ws_world s) = (0, st0, w0)"
    using reliable_nor_flash.upload_ok [OF r, of "ws_fw s" "[img]" ?K "ws_world s"] assms(5,9-11) by (auto simp: fw_upg_active_def)
  note ss = nor_flash.fw_upg_start_session [OF nf u]
  define s0 where "s0 = fw_reply_from_worker H ok_text (set_ws_world w0 (s\<lparr>ws_fw := st0\<rparr>))"
  have t0: "ws_fw_task H (WS_FW_OP_START ?n None) s = Some s0" using u by (simp add: ws_fw_task_def s0_def)
  have m0: "ws_fw s0 = st0" "mem (ws_world s0) = mem w0" "ws_active s0" "ws_fw_crc s0 = ws_fw_crc s" "reboot_pending (ws_dev s0) = reboot_pending (ws_dev s)"
    "length (fw_replies s0) = 2"
    using assms(2,4,6) by (simp_all add: s0_def reply_fields set_ws_world_fields)
  have "fw_session (ws_fw s0) (mem (ws_world s0)) []" "length ([] @ concat (map fr_data fs)) \<le> unat (fw_total (ws_fw s0))"
    using ss m0 n assms(8) by simp_all
  from deliver_image [OF r m0(3) this(1) assms(7) this(2)] obtain s1 where d: "ws_deliver_all H fs s0 = Ret () s1" "fw_session (ws_fw s1) (mem (ws_world s1)) img"
    "fw_total (ws_fw s1) = ?n" "ws_fw_crc s1 = crc16_ccitt (ws_fw_crc s) img" "reboot_pending (ws_dev s1) = reboot_pending (ws_dev s)" "length (fw_replies s1) = 2"
    using ss m0 assms(8) by auto
  have got: "fw_upg_received (ws_fw s1) = ?n" "fw_upg_total (ws_fw s1) = ?n" "?n \<noteq> 0"
    using d(2,3) fw_holds_length [of "ws_fw s1" "mem (ws_world s1)" img] n assms(9) by (auto simp: fw_upg_received_def fw_upg_total_def fw_session_def)
  obtain rc st2 w2 where f: "fw_upg_finish ?F ?K (ws_fw_crc s1) (ws_fw s1) (ws_world s1) = Some (rc, st2, w2)" "rc = 0 \<longleftrightarrow> ws_fw_crc s = 0"
  proof (cases "ws_fw_crc s = 0")
    case True
    have "length img = unat (fw_total (ws_fw s1))" using d(3) n by simp
    from reliable_nor_flash.fw_upg_finish_ok [OF r d(2) this assms(9,11), of ?K] show ?thesis using that True d(4) assms(12) by auto
  next
    case False
    then have "crc16_ccitt 0 img \<noteq> ws_fw_crc s1" using crc16_ccitt_inj [of 0 img "ws_fw_crc s"] d(4) by auto
    then show ?thesis using that False nor_flash.fw_upg_finish_checks [OF nf, of "ws_fw s1" "ws_world s1" img ?K "ws_fw_crc s1" True] d(2)
      by (auto simp: fw_upg_finish_def fw_state_def)
  qed
  obtain w3 where b: "boot_set_pending H True w2 = (True, w3)" using assms(3) by (metis prod.collapse)
  have "take 79 ok_text = ok_text" "take 79 (err_text ''crc mismatch'') = err_text ''crc mismatch''" by (simp_all add: ok_text_def err_text_def qq_def)
  then have "\<exists>s2. ws_fw_task H (WS_FW_OP_END (ws_fw_crc s1)) s1 = Some s2
    \<and> fw_replies s2 ! unat (fw_reply_idx s1 AND 1) = (if ws_fw_crc s = 0 then ok_text else err_text ''crc mismatch'')
    \<and> (reboot_pending (ws_dev s2) \<longleftrightarrow> reboot_pending (ws_dev s) \<or> ws_fw_crc s = 0)"
    using got f b d(5,6)
    by (auto simp: ws_fw_task_def Let_def reply_fields reply_slot set_ws_world_fields in_wsdev_def set_reboot_status_def)
  then show ?thesis using t0 d(1) by blast
qed

section \<open>The handshake\<close>

lemma length_b64_encode: "length (b64_encode src) = (length src + 2) div 3 * 4"
proof (induction src rule: b64_encode.induct)
  case (1 x y z src)
  have "(length (x # y # z # src) + 2) div 3 = Suc ((length src + 2) div 3)" by simp
  then show ?case using 1 by (simp only: b64_encode.simps Let_def) simp
qed (simp_all add: Let_def)

lemma length_sha1: "length (sha1 msg) = 20"
proof -
  have "length (fst (absorb (sh_h sha1_init) m)) = 5" for m by (rule absorb_state) (simp add: sha1_init_def)
  moreover have "length (concat (map io_put_be32 vs)) = 4 * length vs" for vs by (induction vs) simp_all
  ultimately show ?thesis by (simp add: sha1_def)
qed

lemma sha1_two:
  "Option.bind (sha1_update sha1_init p) (\<lambda>c. Option.bind (sha1_update c q) sha1_final) = Some (sha1 (p @ q))"
proof -
  obtain c where c: "sha1_update sha1_init p = Some c" "sha1_seen c ([] @ p)" using sha1_seen_update [OF sha1_seen_init] by blast
  obtain d where "sha1_update c q = Some d" "sha1_seen d (([] @ p) @ q)" using sha1_seen_update [OF c(2)] by blast
  then show ?thesis using c(1) sha1_final_seen by simp
qed

lemma length_key_field: "length ws_key_field = 18"
  by (simp add: ws_key_field_def)

lemma skip_blanks: "dropWhile (\<lambda>c. c = CHR '' '') (replicate n (CHR '' '') @ cs) = dropWhile (\<lambda>c. c = CHR '' '') cs"
  by (induction n) simp_all

lemma ws_find_key_first:
  assumes "\<forall>i < length pre. \<not> strncasecmp_eq (drop i (pre @ req)) ws_key_field 18" "strncasecmp_eq req ws_key_field 18"
    "length pre + 18 < n" "req \<noteq> []"
  shows "ws_find_key (pre @ req) n = Some (dropWhile (\<lambda>c. c = CHR '' '') (drop 18 req))"
  using assms
proof (induction pre arbitrary: n)
  case Nil
  then show ?case by (subst ws_find_key.simps) (simp add: length_key_field)
next
  case (Cons c pre)
  have "\<not> strncasecmp_eq ((c # pre) @ req) ws_key_field 18" using Cons.prems(1) by fastforce
  moreover have "\<forall>i < length pre. \<not> strncasecmp_eq (drop i (pre @ req)) ws_key_field 18" using Cons.prems(1) by fastforce
  ultimately show ?case using Cons.IH [of "n - 1"] Cons.prems by (subst ws_find_key.simps) (simp add: length_key_field)
qed

text \<open>
  The handshake of RFC 6455: in a request with the key field, in any mix of upper and lower case and with any blanks before
  the key, the answer always comes and its accept value is the Base64 form of the SHA-1 hash of the 24 characters of the key
  and the fixed identifier.
\<close>

theorem ws_handshake_answer:
  assumes "\<forall>i < length pre. \<not> strncasecmp_eq (drop i (pre @ field @ replicate n (CHR '' '') @ key @ rest)) ws_key_field 18"
    and "map lower field = map lower ws_key_field" "length key = 24" "hd key \<noteq> CHR '' ''"
    and "length pre + 18 < hdr_len" "129 < resp_max"
  shows "ws_handshake (pre @ field @ replicate n (CHR '' '') @ key @ rest) hdr_len resp_max =
    Some (Some (''HTTP/1.1 101 Switching Protocols'' @ crlf @ ''Upgrade: websocket'' @ crlf @ ''Connection: Upgrade'' @ crlf
      @ ''Sec-WebSocket-Accept: '' @ text_of (b64_encode (sha1 (bytes_of (key @ ws_guid)))) @ crlf @ crlf))"
proof -
  let ?req = "field @ replicate n (CHR '' '') @ key @ rest"
  have f: "length field = 18" using arg_cong [OF assms(2), of length] by (simp add: length_key_field)
  have "strncasecmp_eq ?req ws_key_field 18" using assms(2) f by (simp add: strncasecmp_eq_def length_key_field)
  moreover have "?req \<noteq> []" using f by auto
  moreover have "dropWhile (\<lambda>c. c = CHR '' '') (drop 18 ?req) = key @ rest"
  proof -
    obtain k ks where "key = k # ks" using assms(3) by (cases key) auto
    then show ?thesis using f assms(4) by (simp add: skip_blanks)
  qed
  ultimately have "ws_find_key (pre @ ?req) hdr_len = Some (key @ rest)"
    using ws_find_key_first [OF assms(1)] assms(5) by simp
  moreover have "take 24 (bytes_of (key @ rest)) = bytes_of key" using assms(3) by (simp add: bytes_of_def)
  moreover have "bytes_of (key @ ws_guid) = bytes_of key @ bytes_of ws_guid" by (simp add: bytes_of_def)
  moreover have "length (b64_encode (sha1 m)) = 28" for m by (simp add: length_b64_encode length_sha1)
  ultimately show ?thesis using assms(6) by (simp add: ws_handshake_def sha1_two Let_def text_of_def crlf_def)
qed

section \<open>A session on the simulated board\<close>

definition sim_host :: "sim host" where
  "sim_host = \<lparr>ho_board = sim_board, ho_lwip = sim_lwip, tcp_sndbuf = \<lambda>p w. 2920, tcp_mss = \<lambda>p w. 1460, tcpip_callback = \<lambda>w. (True, w), ho_keyhash = demo_key,
     boot_set_pending = \<lambda>b w. (True, w), ho_env = \<lambda>w. \<lparr>we_version = (1, 0, 0, ''g0''), we_build = ''today'', we_mac = None, we_usage = (0, 0), we_link = True\<rparr>, ho_index = []\<rparr>"

definition sim_ws :: "u16 \<Rightarrow> sim ws" where
  "sim_ws crc = \<lparr>ws_active = True, ws_pcb = Some 0, ws_on_close = True, ws_ended = False, ws_state = WS_HDR, ws_hdr = replicate 10 0, ws_hdr_got = 0,
     ws_op = 0, ws_fin = False, ws_masked = False, ws_mask = replicate 4 0, ws_plen = 0, ws_payload = [], ws_fw_crc = crc, ws_t_push = 0, ws_t_info = 0,
     ws_fw = idle_fw, fw_op_q = [], fw_replies = [[], []], fw_reply_idx = 0, ws_callbacks = [], ws_dev = sim_dev\<rparr>"

definition demo_frame :: "u8 \<Rightarrow> u8 list \<Rightarrow> ws_frame" where
  "demo_frame oc p = \<lparr>fr_fin = True, fr_op = oc, fr_key = [1, 2, 3, 4], fr_data = p\<rparr>"

lemma sim_ws_between: "between_frames (sim_ws crc)"
  by (simp add: between_frames_def sim_ws_def)

theorem ws_type_safe_witness: "wf_ws (ws_poll sim_host (sim_ws 0))"
  using ws_type_safe [of "sim_ws 0" sim_host "[]" 0] by (simp add: wf_ws_def sim_ws_def hdr_limit_def)

theorem ws_stream_served_witness:
  "ws_feed_all sim_host [take 5 (client_frame (demo_frame 9 [7, 8])), drop 5 (client_frame (demo_frame 9 [7, 8]))] (sim_ws 0) =
    ws_deliver_all sim_host [demo_frame 9 [7, 8]] (sim_ws 0)"
  by (rule ws_stream_served [OF sim_ws_between]) (simp_all add: wf_frame_out_def wf_frame_hdr_def demo_frame_def WS_RX_MAX_def)

theorem ws_empty_frame_swallows_witness:
  "\<exists>t. ws_feed sim_host (client_frame (demo_frame 9 []) @ client_frame (demo_frame 8 [3, 232])) (sim_ws 0) = Ret () t \<and> ws_dev t = sim_dev \<and> ws_active t"
proof -
  have "length (client_frame (demo_frame 8 [3, 232])) \<le> WS_RX_MAX" by (simp add: client_frame_def demo_frame_def fr_length_def WS_RX_MAX_def)
  then show ?thesis
    using ws_empty_frame_swallows [of "sim_ws 0" "demo_frame 9 []" sim_host "client_frame (demo_frame 8 [3, 232])", OF _ sim_ws_between]
    by (auto simp: sim_ws_def wf_frame_hdr_def demo_frame_def)
qed

theorem ws_upload_accepted_iff_witness:
  "\<exists>s0 s1 s2. ws_fw_task sim_host (WS_FW_OP_START 552 None) (sim_ws 1) = Some s0
    \<and> ws_deliver_all sim_host [demo_frame 2 (take 300 demo_image), demo_frame 2 (drop 300 demo_image)] s0 = Ret () s1
    \<and> ws_fw_task sim_host (WS_FW_OP_END (ws_fw_crc s1)) s1 = Some s2 \<and> \<not> reboot_pending (ws_dev s2)"
proof -
  let ?fs = "[demo_frame 2 (take 300 demo_image), demo_frame 2 (drop 300 demo_image)]"
  have r: "reliable_nor_flash (nor (ho_board sim_host)) sim_nor" using sim_nor_reliable by (simp add: sim_host_def)
  have i: "demo_image = concat (map fr_data ?fs)" by (simp add: demo_frame_def)
  have k: "\<forall>m. mem_bytes m 0 (length demo_image) = demo_image \<longrightarrow> image_keyhash m (ho_keyhash sim_host)"
    using demo_image_keyhash by (simp add: sim_host_def)
  have l: "io_get_le32 (drop 12 demo_image) < 0xFFFFFDFC" by (simp add: demo_image_def io_get_le32_def)
  show ?thesis
    using ws_upload_accepted_iff [OF r _ _ _ _ _ _ i _ _ l k, of "sim_ws 1"]
    by (auto simp: sim_host_def sim_ws_def idle_fw_def demo_frame_def fw_upg_active_def sim_dev_def)
qed

theorem ws_handshake_answer_witness:
  "\<exists>r. ws_handshake ([] @ ''sec-websocket-key:'' @ replicate 1 (CHR '' '') @ ''dGhlIHNhbXBsZSBub25jZQ=='' @ crlf) 44 256 = Some (Some r)"
  by (rule exI, rule ws_handshake_answer) (simp_all add: ws_key_field_def lower_def Let_def char_of_def bit_simps)

end
