(* ===== verification/Httpd.thy ===== *)
theory Httpd
  imports Ws
begin

unbundle bit_operations_syntax

text \<open>
  \<open>src/web/httpd.c\<close>: the HTTP server. A connection is the record \<open>http_conn\<close>; the received bytes are the string \<open>hc_rx\<close>, whose length
  is the source's \<open>rx_len\<close>, and \<open>hc_rx_tail\<close> is what the buffer holds behind them up to the terminating NUL, and likewise the header and the body of the response. Connections are numbered, and the server state holds
  the WebSocket session of \<open>Ws\<close>, through which it reaches the device. The counters of bytes written and acknowledged keep their 32 bits.
  The result of an operation that may loop is a truth value: \<open>False\<close> stands for what must not happen, a loop without progress or an
  undefined buffer position.
\<close>

section \<open>Connections\<close>

definition HTTP_MAX_CONN :: nat where [hub_defs]: "HTTP_MAX_CONN = 2"
definition HTTP_RX_BUF :: nat where [hub_defs]: "HTTP_RX_BUF = 640"
definition HTTP_HDR_MAX :: nat where [hub_defs]: "HTTP_HDR_MAX = 256"
definition HTTP_BODY_BUF :: nat where [hub_defs]: "HTTP_BODY_BUF = 704"
definition HTTP_DL_CHUNK :: nat where [hub_defs]: "HTTP_DL_CHUNK = 512"
definition HTTP_RX_IDLE_MS :: u32 where [hub_defs]: "HTTP_RX_IDLE_MS = 5000"
definition HTTP_TX_STALL_MS :: u32 where [hub_defs]: "HTTP_TX_STALL_MS = 10000"
definition HTTP_IDLE_MS :: u32 where [hub_defs]: "HTTP_IDLE_MS = 60000"

datatype resp_kind = RESP_NONE | RESP_MEM | RESP_FILE

record http_conn =
  hc_pcb :: "nat option"
  hc_is_ws :: bool
  hc_rx :: string
  hc_rx_tail :: string
  hc_hdr_done :: bool
  hc_body_off :: nat
  hc_content_len :: u16
  hc_cli_close :: bool
  hc_kind :: resp_kind
  hc_keep_alive :: bool
  hc_rsp_total :: u32
  hc_written :: u32
  hc_acked :: u32
  hc_hdr :: "u8 list"
  hc_hdr_sent :: nat
  hc_body :: "u8 list"
  hc_body_sent :: nat
  hc_dl_size :: nat
  hc_dl_sent :: nat
  hc_dl_chunk :: "u8 list"
  hc_dl_chunk_len :: nat
  hc_dl_chunk_off :: nat
  hc_t_rx :: u32
  hc_t_ack :: u32
  hc_t_idle :: u32

record 'w httpd =
  http_conns :: "http_conn list"
  hd_ws_conn :: "nat option"
  hd_ws :: "'w ws"

text \<open>
  The buffer as a C string. A request that has been answered is removed by moving the rest to the front, without a new terminator: what follows
  the rest is then the end of the old contents, and the parser may read it.
\<close>

definition rx_text :: "http_conn \<Rightarrow> string" where
  "rx_text c = hc_rx c @ hc_rx_tail c"

definition upd_conn :: "nat \<Rightarrow> (http_conn \<Rightarrow> http_conn) \<Rightarrow> 'w httpd \<Rightarrow> 'w httpd" where
  "upd_conn i f s = s\<lparr>http_conns := (http_conns s)[i := f (http_conns s ! i)]\<rparr>"

definition web_dev :: "'w httpd \<Rightarrow> 'w dev" where
  "web_dev s = ws_dev (hd_ws s)"

definition set_web_dev :: "'w dev \<Rightarrow> 'w httpd \<Rightarrow> 'w httpd" where
  "set_web_dev d s = s\<lparr>hd_ws := (hd_ws s)\<lparr>ws_dev := d\<rparr>\<rparr>"

definition web_world :: "'w httpd \<Rightarrow> 'w" where
  "web_world s = world (web_dev s)"

definition set_web_world :: "'w \<Rightarrow> 'w httpd \<Rightarrow> 'w httpd" where
  "set_web_world w s = set_web_dev ((web_dev s)\<lparr>world := w\<rparr>) s"

definition http_now :: "'w host \<Rightarrow> 'w httpd \<Rightarrow> u32" where
  "http_now H s = now_ms (ho_lwip H) (web_world s)"

section \<open>Responses\<close>

definition rsp_header :: "string \<Rightarrow> string \<Rightarrow> nat \<Rightarrow> bool \<Rightarrow> string \<Rightarrow> string" where
  "rsp_header status ctype clen keep extra =
     ''HTTP/1.1 '' @ status @ crlf @ ''Content-Type: '' @ ctype @ crlf @ ''Content-Length: '' @ dec_str clen @ crlf
     @ ''Connection: '' @ (if keep then ''keep-alive'' else ''close'') @ crlf @ extra @ crlf"

definition rsp_begin :: "u32 \<Rightarrow> string \<Rightarrow> string \<Rightarrow> nat \<Rightarrow> bool \<Rightarrow> string \<Rightarrow> http_conn \<Rightarrow> bool \<times> http_conn" where
  "rsp_begin now status ctype clen keep extra c =
     (let h = rsp_header status ctype clen keep extra in
      if length h \<ge> HTTP_HDR_MAX then (False, c)
      else (True, c\<lparr>hc_hdr := bytes_of h, hc_hdr_sent := 0, hc_body_sent := 0, hc_written := 0, hc_acked := 0,
              hc_keep_alive := keep \<and> \<not> hc_cli_close c, hc_rsp_total := of_nat (length h) + of_nat clen, hc_t_ack := now\<rparr>))"

definition respond_mem :: "u32 \<Rightarrow> string \<Rightarrow> string \<Rightarrow> u8 list \<Rightarrow> bool \<Rightarrow> string \<Rightarrow> http_conn \<Rightarrow> http_conn" where
  "respond_mem now status ctype body keep extra c =
     (case rsp_begin now status ctype (length body) keep extra c of
        (False, c) \<Rightarrow> c\<lparr>hc_kind := RESP_NONE\<rparr>
      | (True, c) \<Rightarrow> c\<lparr>hc_body := body, hc_kind := RESP_MEM\<rparr>)"

definition respond_json_ok :: "u32 \<Rightarrow> http_conn \<Rightarrow> http_conn" where
  "respond_json_ok now = respond_mem now ''200 OK'' ''application/json'' (bytes_of ok_text) True []"

definition respond_json_err :: "u32 \<Rightarrow> string \<Rightarrow> string \<Rightarrow> http_conn \<Rightarrow> http_conn" where
  "respond_json_err now status err = respond_mem now status ''application/json'' (bytes_of (err_text err)) True []"

section \<open>Sending\<close>

definition web_hist_close :: "'w host \<Rightarrow> 'w httpd \<Rightarrow> 'w httpd" where
  "web_hist_close H s =
     (let d = web_dev s in
      case history_web_close (lfs (ho_board H)) (hist d) (world d) of (h, w) \<Rightarrow> set_web_dev (d\<lparr>hist := h, world := w\<rparr>) s)"

definition conn_close :: "'w host \<Rightarrow> nat \<Rightarrow> 'w httpd \<Rightarrow> 'w httpd" where
  "conn_close H i s =
     (let c = http_conns s ! i;
          s = (if hc_is_ws c then (upd_conn i (\<lambda>c. c\<lparr>hc_is_ws := False\<rparr>) s)
                 \<lparr>hd_ws_conn := if hd_ws_conn s = Some i then None else hd_ws_conn s, hd_ws := ws_detach (hd_ws s)\<rparr>
               else s);
          s = (case hc_pcb c of None \<Rightarrow> s
               | Some p \<Rightarrow> upd_conn i (\<lambda>c. c\<lparr>hc_pcb := None\<rparr>) (set_web_world (tcp_close (ho_lwip H) p (web_world s)) s));
          s = (if hc_kind c = RESP_FILE then web_hist_close H s else s)
      in upd_conn i (\<lambda>c. c\<lparr>hc_kind := RESP_NONE, hc_rx := [], hc_rx_tail := rx_text c, hc_hdr_done := False\<rparr>) s)"

definition ws_closed_cb :: "'w host \<Rightarrow> 'w httpd \<Rightarrow> 'w httpd" where
  "ws_closed_cb H s = (case hd_ws_conn s of None \<Rightarrow> s | Some i \<Rightarrow> conn_close H i (s\<lparr>hd_ws_conn := None\<rparr>))"

text \<open>A call into \<open>ws.c\<close>: the session afterwards, and the callback if it was made.\<close>

definition after_ws :: "'w host \<Rightarrow> (unit, 'w ws) outcome \<Rightarrow> 'w httpd \<Rightarrow> (bool, 'w httpd) outcome" where
  "after_ws H r s =
     (case r of
        Ret _ t \<Rightarrow> Ret True (if ws_ended t then ws_closed_cb H (s\<lparr>hd_ws := t\<lparr>ws_ended := False\<rparr>\<rparr>) else s\<lparr>hd_ws := t\<rparr>)
      | Reset t \<Rightarrow> Reset (s\<lparr>hd_ws := t\<rparr>))"

text \<open>
  The sending loops. A write gives the bytes that go out, and the world; \<open>tx\<close> tells how the loop ended.
\<close>

datatype tx_end = TX_WAIT | TX_CLOSED | TX_STUCK

function send_mem :: "'w host \<Rightarrow> nat \<Rightarrow> http_conn \<Rightarrow> 'w \<Rightarrow> tx_end \<times> http_conn \<times> 'w" where
  "send_mem H p c w =
     (if hc_hdr_sent c < length (hc_hdr c) \<or> hc_body_sent c < length (hc_body c) then
        let src = (if hc_hdr_sent c < length (hc_hdr c) then drop (hc_hdr_sent c) (hc_hdr c) else drop (hc_body_sent c) (hc_body c));
            snd_room = unat (tcp_sndbuf H p w) in
        if snd_room = 0 then (TX_WAIT, c, w)
        else let n = min (length src) snd_room in
          (case tcp_write (ho_lwip H) p (take n src) w of
             (ERR_OK, w) \<Rightarrow>
               let c = (if hc_hdr_sent c < length (hc_hdr c) then c\<lparr>hc_hdr_sent := hc_hdr_sent c + n\<rparr> else c\<lparr>hc_body_sent := hc_body_sent c + n\<rparr>)
               in send_mem H p (c\<lparr>hc_written := hc_written c + of_nat n\<rparr>) w
           | (ERR_MEM, w) \<Rightarrow> (TX_WAIT, c, w)
           | (ERR_OTHER, w) \<Rightarrow> (TX_CLOSED, c, w))
      else (TX_WAIT, c, w))"
  by pat_completeness auto
termination
  by (relation "measure (\<lambda>(H, p, c, w). (length (hc_hdr c) - hc_hdr_sent c) + (length (hc_body c) - hc_body_sent c))") auto

function send_hdr :: "'w host \<Rightarrow> nat \<Rightarrow> http_conn \<Rightarrow> 'w \<Rightarrow> tx_end \<times> http_conn \<times> 'w" where
  "send_hdr H p c w =
     (if hc_hdr_sent c < length (hc_hdr c) then
        let snd_room = unat (tcp_sndbuf H p w) in
        if snd_room = 0 then (TX_WAIT, c, w)
        else let n = min (length (hc_hdr c) - hc_hdr_sent c) snd_room in
          (case tcp_write (ho_lwip H) p (take n (drop (hc_hdr_sent c) (hc_hdr c))) w of
             (ERR_OK, w) \<Rightarrow> send_hdr H p (c\<lparr>hc_hdr_sent := hc_hdr_sent c + n, hc_written := hc_written c + of_nat n\<rparr>) w
           | (ERR_MEM, w) \<Rightarrow> (TX_WAIT, c, w)
           | (ERR_OTHER, w) \<Rightarrow> (TX_CLOSED, c, w))
      else (TX_WAIT, c, w))"
  by pat_completeness auto
termination
  by (relation "measure (\<lambda>(H, p, c, w). length (hc_hdr c) - hc_hdr_sent c)") auto

declare send_mem.simps [simp del] send_hdr.simps [simp del]

text \<open>The next piece of the file, when the last one has gone out; \<open>Some\<close> ends the loop.\<close>

definition next_chunk :: "'w lfs_ops \<Rightarrow> hist_st \<Rightarrow> http_conn \<Rightarrow> 'w \<Rightarrow> tx_end option \<times> http_conn \<times> 'w" where
  "next_chunk L h c w =
     (if hc_dl_chunk_off c = hc_dl_chunk_len c then
        if hc_dl_sent c \<ge> hc_dl_size c then (Some TX_WAIT, c, w)
        else (case history_web_read L (min (hc_dl_size c - hc_dl_sent c) HTTP_DL_CHUNK) h w of ((n, bs), w) \<Rightarrow>
          if n < 0 then (Some TX_CLOSED, c, w)
          else if n = 0 then
            (Some TX_WAIT, c\<lparr>hc_rsp_total := of_nat (length (hc_hdr c)) + of_nat (hc_dl_sent c), hc_dl_size := hc_dl_sent c\<rparr>, w)
          else (None, c\<lparr>hc_dl_chunk := bs, hc_dl_chunk_len := unat (of_int n :: u16), hc_dl_chunk_off := 0, hc_dl_sent := hc_dl_sent c + nat n\<rparr>, w))
      else (None, c, w))"

lemma next_chunk_counters: "next_chunk L h c w = (e, c', w') \<Longrightarrow> hc_written c' = hc_written c \<and> hc_acked c' = hc_acked c"
  by (auto simp: next_chunk_def split: if_splits prod.splits)

lemma window_grows:
  assumes "a < 4 * (ucast (m :: u16) :: u32)" "0 < n" "n \<le> 65535"
  shows "4 * unat m - unat (a + of_nat n) < 4 * unat m - unat a"
proof -
  have "unat (4 * (ucast m :: u32)) \<le> 4 * unat m" by (simp add: unat_word_ariths)
  moreover have "unat m \<le> 65535" using unat_u16_lt [of m] by linarith
  moreover have "unat a < unat (4 * (ucast m :: u32))" using assms(1) by (simp only: word_less_nat_alt)
  ultimately have "unat a < 4 * unat m" "unat a + n < 2 ^ 32" using assms(3) by simp_all
  moreover from this have "unat (a + of_nat n) = unat a + n" by (simp add: unat_word_ariths unat_of_nat)
  ultimately show ?thesis using assms(2) by simp
qed

function send_file :: "'w host \<Rightarrow> nat \<Rightarrow> u16 \<Rightarrow> hist_st \<Rightarrow> http_conn \<Rightarrow> 'w \<Rightarrow> tx_end \<times> http_conn \<times> 'w" where
  "send_file H p mss h c w =
     (if hc_written c - hc_acked c < 4 * ucast mss then
        (case next_chunk (lfs (ho_board H)) h c w of
           (Some e, c, w) \<Rightarrow> (e, c, w)
         | (None, c, w) \<Rightarrow>
             let snd_room = unat (tcp_sndbuf H p w); n = min (hc_dl_chunk_len c - hc_dl_chunk_off c) snd_room in
             if snd_room = 0 then (TX_WAIT, c, w)
             else if n = 0 then (TX_STUCK, c, w)
             else (case tcp_write (ho_lwip H) p (take n (drop (hc_dl_chunk_off c) (hc_dl_chunk c))) w of
                 (ERR_OK, w) \<Rightarrow> send_file H p mss h (c\<lparr>hc_dl_chunk_off := hc_dl_chunk_off c + n, hc_written := hc_written c + of_nat n\<rparr>) w
               | (ERR_MEM, w) \<Rightarrow> (TX_WAIT, c, w)
               | (ERR_OTHER, w) \<Rightarrow> (TX_CLOSED, c, w)))
      else (TX_WAIT, c, w))"
  by pat_completeness auto
termination
proof (relation "measure (\<lambda>(H, p, mss, h, c, w). 4 * unat mss - unat (hc_written c - hc_acked c))")
  fix H :: "'w host" and p mss h c and w w1 w2 :: 'w and c1 :: http_conn and y e and room n
  assume a: "hc_written c - hc_acked c < 4 * (ucast (mss :: u16) :: u32)" "(e, y) = next_chunk (lfs (ho_board H)) h c w" "e = None"
    "(c1, w1) = y" "room = unat (tcp_sndbuf H p w1)" "n = min (hc_dl_chunk_len c1 - hc_dl_chunk_off c1) room" "n \<noteq> 0"
  have k: "hc_written c1 = hc_written c" "hc_acked c1 = hc_acked c" using next_chunk_counters [of "lfs (ho_board H)" h c w e c1 w1] a(2-4) by auto
  have "n \<le> 65535" using a(5,6) unat_u16_lt [of "tcp_sndbuf H p w1"] by linarith
  from window_grows [OF a(1) _ this] a(7)
  have g: "4 * unat mss - unat (hc_written c - hc_acked c + of_nat n) < 4 * unat mss - unat (hc_written c - hc_acked c)" by simp
  have r: "hc_written c + of_nat n - hc_acked c = hc_written c - hc_acked c + of_nat n" by simp
  show "((H, p, mss, h, c1\<lparr>hc_dl_chunk_off := hc_dl_chunk_off c1 + n, hc_written := hc_written c1 + of_nat n\<rparr>, w2), H, p, mss, h, c, w)
      \<in> measure (\<lambda>(H, p, mss, h, c, w). 4 * unat mss - unat (hc_written c - hc_acked c))"
    using g k by (simp add: r)
qed auto

declare send_file.simps [simp del]

text \<open>\<open>False\<close> is a loop that does not end. After it, \<open>tcp_output\<close>, or the connection is closed.\<close>

definition store_tx :: "'w host \<Rightarrow> nat \<Rightarrow> nat \<Rightarrow> tx_end \<times> http_conn \<times> 'w \<Rightarrow> 'w httpd \<Rightarrow> bool \<times> 'w httpd" where
  "store_tx H i p r s =
     (case r of (e, c, w) \<Rightarrow>
        let s = set_web_world w (upd_conn i (\<lambda>_. c) s) in
        case e of
          TX_WAIT \<Rightarrow> (True, set_web_world (tcp_output (ho_lwip H) p (web_world s)) s)
        | TX_CLOSED \<Rightarrow> (True, conn_close H i s)
        | TX_STUCK \<Rightarrow> (False, s))"

definition pump_file :: "'w host \<Rightarrow> nat \<Rightarrow> nat \<Rightarrow> 'w httpd \<Rightarrow> bool \<times> 'w httpd" where
  "pump_file H i p s =
     (let mss = tcp_mss H p (web_world s) in
      case send_hdr H p (http_conns s ! i) (web_world s) of
        (TX_WAIT, c, w) \<Rightarrow>
          if hc_hdr_sent c < length (hc_hdr c) then store_tx H i p (TX_WAIT, c, w) s
          else store_tx H i p (send_file H p mss (hist (web_dev s)) c w) s
      | r \<Rightarrow> store_tx H i p r s)"

text \<open>
  \<open>conn_pump\<close> up to the call of \<open>http_process_rx\<close> with which it goes on to a request that was received in the meantime: the second truth
  value says that this call is due.
\<close>

definition conn_pump_send :: "'w host \<Rightarrow> nat \<Rightarrow> 'w httpd \<Rightarrow> (bool \<times> bool) \<times> 'w httpd" where
  "conn_pump_send H i s =
     (let c = http_conns s ! i in
      case (hc_pcb c, hc_kind c) of
        (None, _) \<Rightarrow> ((True, False), s)
      | (_, RESP_NONE) \<Rightarrow> ((True, False), s)
      | (Some p, k) \<Rightarrow>
          (case (if k = RESP_FILE then pump_file H i p s else store_tx H i p (send_mem H p c (web_world s)) s) of
             (ok, s) \<Rightarrow>
               let c = http_conns s ! i in
               if \<not> ok \<or> hc_pcb c = None then ((ok, False), s)
               else if hc_written c \<ge> hc_rsp_total c \<and> hc_acked c \<ge> hc_rsp_total c then
                 let s = (if hc_kind c = RESP_FILE then web_hist_close H s else s);
                     s = upd_conn i (\<lambda>c. c\<lparr>hc_kind := RESP_NONE, hc_hdr_done := False\<rparr>) s in
                 if \<not> hc_keep_alive c then ((True, False), conn_close H i s)
                 else ((True, hc_rx c \<noteq> []), upd_conn i (\<lambda>c. c\<lparr>hc_t_idle := http_now H s\<rparr>) s)
               else ((True, False), s)))"

section \<open>Requests\<close>

definition known_paths :: "string list" where
  "known_paths = [''/'', ''/api/info'', ''/api/io'', ''/api/regs'', ''/api/history'', ''/api/history/download'', ''/ws'', ''/api/do'', ''/api/reg'',
     ''/api/time'', ''/api/cfg'', ''/api/save'', ''/api/reboot'', ''/api/history/delete'']"

definition reply_with :: "nat \<Rightarrow> (http_conn \<Rightarrow> http_conn) \<Rightarrow> 'w httpd \<Rightarrow> (bool, 'w httpd) outcome" where
  "reply_with i f s = Ret True (upd_conn i f s)"

definition reply_check :: "'w host \<Rightarrow> nat \<Rightarrow> bool \<Rightarrow> string \<Rightarrow> 'w httpd \<Rightarrow> (bool, 'w httpd) outcome" where
  "reply_check H i ok err s =
     reply_with i (if ok then respond_json_ok (http_now H s) else respond_json_err (http_now H s) ''400 Bad Request'' err) s"

definition reply_doc :: "'w host \<Rightarrow> nat \<Rightarrow> (string \<times> nat) option \<Rightarrow> 'w httpd \<Rightarrow> (bool, 'w httpd) outcome" where
  "reply_doc H i doc s =
     (case doc of
        None \<Rightarrow> Ret False s
      | Some (txt, n) \<Rightarrow> reply_with i (respond_mem (http_now H s) ''200 OK'' ''application/json'' (take n (bytes_of txt @ [0])) True []) s)"

definition dispatch_history :: "'w host \<Rightarrow> nat \<Rightarrow> 'w httpd \<Rightarrow> (bool, 'w httpd) outcome" where
  "dispatch_history H i s =
     (let d = web_dev s in
      case history_web_list_json (lfs (ho_board H)) HTTP_BODY_BUF (hist d) (world d) of
        None \<Rightarrow> Ret False s
      | Some (r, w) \<Rightarrow>
          let s = set_web_world w s in
          (case r of
             None \<Rightarrow> reply_with i (respond_mem (http_now H s) ''200 OK'' ''application/json'' (bytes_of (qq ''{`files`:[]}'')) True []) s
           | Some doc \<Rightarrow> reply_doc H i (Some doc) s))"

text \<open>A file name that is missing or refused, or a file that cannot be opened: in each case the file of the web server is closed.\<close>

definition dispatch_download :: "'w host \<Rightarrow> nat \<Rightarrow> string option \<Rightarrow> 'w httpd \<Rightarrow> (bool, 'w httpd) outcome" where
  "dispatch_download H i query s =
     (let d = web_dev s; bad = (\<lambda>s. let s = web_hist_close H s in
            reply_with i (respond_json_err (http_now H s) ''400 Bad Request'' ''invalid file name'') s) in
      case Option.bind query (\<lambda>q. url_query_get q ''name'' 32) of
        None \<Rightarrow> bad s
      | Some name \<Rightarrow>
          if \<not> history_web_name_valid name then bad s
          else (case history_web_open (lfs (ho_board H)) name (hist d) (world d) of (sz, h, w) \<Rightarrow>
            let s = set_web_dev (d\<lparr>hist := h, world := w\<rparr>) s in
            if sz < 0 then bad s
            else (case rsp_begin (http_now H s) ''200 OK'' ''application/octet-stream'' (nat sz) False
                  (take 95 (qq ''Content-Disposition: attachment; filename=`'' @ name @ qq ''`'' @ crlf)) (http_conns s ! i) of
                (True, c) \<Rightarrow> reply_with i (\<lambda>_. c\<lparr>hc_dl_size := nat sz, hc_dl_sent := 0, hc_dl_chunk_len := 0, hc_dl_chunk_off := 0, hc_kind := RESP_FILE\<rparr>) s
              | (False, _) \<Rightarrow>
                  let s = web_hist_close H s in
                  reply_with i (respond_json_err (http_now H s) ''500 Internal Server Error'' ''server error'') s)))"

definition dispatch_get :: "'w host \<Rightarrow> nat \<Rightarrow> string \<Rightarrow> string option \<Rightarrow> 'w httpd \<Rightarrow> (bool, 'w httpd) outcome option" where
  "dispatch_get H i path query s =
     (let d = web_dev s; now = http_now H s in
      if path = ''/'' then Some (reply_with i (respond_mem now ''200 OK'' ''text/html'' (ho_index H) True (''Content-Encoding: gzip'' @ crlf)) s)
      else if path = ''/api/info'' then Some (reply_doc H i (web_build_info_json (ho_env H (web_world s)) now HTTP_BODY_BUF d) s)
      else if path = ''/api/io'' then Some (reply_doc H i (web_build_io_json now HTTP_BODY_BUF d) s)
      else if path = ''/api/regs'' then Some (reply_doc H i (web_build_regs_json HTTP_BODY_BUF d) s)
      else if path = ''/api/history'' then Some (dispatch_history H i s)
      else if path = ''/api/history/download'' then Some (dispatch_download H i query s)
      else None)"

definition lift_web :: "('a, 'w dev) outcome \<Rightarrow> 'w httpd \<Rightarrow> ('a, 'w httpd) outcome" where
  "lift_web r s = (case r of Ret a d \<Rightarrow> Ret a (set_web_dev d s) | Reset d \<Rightarrow> Reset (set_web_dev d s))"

definition dispatch_post :: "'w host \<Rightarrow> nat \<Rightarrow> string \<Rightarrow> string \<Rightarrow> 'w httpd \<Rightarrow> (bool, 'w httpd) outcome option" where
  "dispatch_post H i path body s =
     (let B = ho_board H; d = web_dev s; num = json_get_i32 body in
      if path = ''/api/do'' then Some
        (case (num ''index'', num ''value'') of
           (Some index, Some val) \<Rightarrow>
             (case web_cmd_exec_do B index val d of (rc, d) \<Rightarrow> reply_check H i (rc = 0) ''invalid index/value'' (set_web_dev d s))
         | _ \<Rightarrow> reply_check H i False ''invalid index/value'' s)
      else if path = ''/api/reg'' then Some
        (case (num ''addr'', num ''value'') of
           (Some addr, Some val) \<Rightarrow>
             outcome_bind (lift_web (web_cmd_exec_reg B addr val d) s) (\<lambda>rc s. reply_check H i (rc = 0) ''invalid addr/value'' s)
         | _ \<Rightarrow> reply_check H i False ''invalid addr/value'' s)
      else if path = ''/api/time'' then Some
        (case num ''ts'' of
           Some ts \<Rightarrow> (case dev_set_timestamp B ts d of (ok, d) \<Rightarrow> reply_check H i ok ''invalid timestamp'' (set_web_dev d s))
         | None \<Rightarrow> reply_check H i False ''invalid timestamp'' s)
      else if path = ''/api/save'' then Some (reply_check H i True [] (set_web_dev (holding_reg_save B d) s))
      else if path = ''/api/reboot'' then Some (reply_check H i True [] (set_web_dev (set_reboot_status True d) s))
      else if path = ''/api/cfg'' then Some
        (outcome_bind (lift_web (web_cmd_exec_cfg B body d) s) (\<lambda>err s.
           reply_check H i (err = None) (case err of None \<Rightarrow> ''bad request'' | Some m \<Rightarrow> m) s))
      else if path = ''/api/history/delete'' then Some
        (case json_get_str body ''name'' 32 of
           Some name \<Rightarrow>
             if history_web_name_valid name then
               (case history_web_remove (lfs B) name (hist d) (world d) of (rc, w) \<Rightarrow> reply_check H i (rc = 0) ''delete failed'' (set_web_world w s))
             else reply_check H i False ''delete failed'' s
         | None \<Rightarrow> reply_check H i False ''delete failed'' s)
      else None)"

definition dispatch :: "'w host \<Rightarrow> nat \<Rightarrow> string \<Rightarrow> string \<Rightarrow> string option \<Rightarrow> string \<Rightarrow> 'w httpd \<Rightarrow> (bool, 'w httpd) outcome" where
  "dispatch H i method path query body s =
     (case (if method = ''GET'' then dispatch_get H i path query s else if method = ''POST'' then dispatch_post H i path body s else None) of
        Some r \<Rightarrow> r
      | None \<Rightarrow>
          reply_with i
            (if path \<in> set known_paths then respond_json_err (http_now H s) ''405 Method Not Allowed'' ''method not allowed''
             else respond_mem (http_now H s) ''404 Not Found'' ''application/json'' (bytes_of (err_text ''not found'')) True []) s)"

section \<open>Parsing\<close>

fun find_hdr_end :: "string \<Rightarrow> nat option" where
  "find_hdr_end buf =
     (if length buf < 4 then None
      else if take 4 buf = crlf @ crlf then Some 0
      else map_option Suc (find_hdr_end (tl buf)))"

fun hdr_find :: "string \<Rightarrow> nat \<Rightarrow> string \<Rightarrow> string option" where
  "hdr_find line n key =
     (if length key < n \<and> line \<noteq> [] then
        (if strncasecmp_eq line key (length key) then Some (drop (length key) line) else hdr_find (tl line) (n - 1) key)
      else None)"

declare find_hdr_end.simps [simp del] hdr_find.simps [simp del]

definition req_blank :: "char \<Rightarrow> bool" where
  "req_blank c \<longleftrightarrow> c \<in> {CHR '' '', CHR 0x09, CHR 0x0D, CHR 0x0A}"

text \<open>The two words of the request line, each cut off at its capacity, and how many there are.\<close>

definition split_req_line :: "string \<Rightarrow> nat \<Rightarrow> nat \<Rightarrow> nat \<times> string \<times> string" where
  "split_req_line inp asz bsz =
     (let word = (\<lambda>c. \<not> req_blank c \<and> c \<noteq> CHR 0x00);
          inp = dropWhile req_blank inp;
          a = take (asz - 1) (takeWhile word inp) in
      if a = [] then (0, [], [])
      else let inp = dropWhile req_blank (dropWhile word inp); b = take (bsz - 1) (takeWhile word inp)
        in (if b = [] then 1 else 2, a, b))"

text \<open>The target of a request, split at the question mark.\<close>

definition split_target :: "string \<Rightarrow> string \<times> string option" where
  "split_target t = (takeWhile (\<lambda>c. c \<noteq> CHR ''?'') t, if CHR ''?'' \<in> set t then Some (tl (dropWhile (\<lambda>c. c \<noteq> CHR ''?'') t)) else None)"

definition conn_pump :: "('w httpd \<Rightarrow> (bool, 'w httpd) outcome) \<Rightarrow> 'w host \<Rightarrow> nat \<Rightarrow> 'w httpd \<Rightarrow> (bool, 'w httpd) outcome" where
  "conn_pump proc H i s =
     (case conn_pump_send H i s of ((ok, due), s) \<Rightarrow> if \<not> ok then Ret False s else if due then proc s else Ret True s)"

definition then_do :: "(bool, 'w httpd) outcome \<Rightarrow> ('w httpd \<Rightarrow> (bool, 'w httpd) outcome) \<Rightarrow> (bool, 'w httpd) outcome" where
  "then_do r f = outcome_bind r (\<lambda>ok s. if ok then f s else Ret False s)"

text \<open>A request that is refused: the answer goes out as far as possible and the connection is closed.\<close>

definition refuse :: "('w httpd \<Rightarrow> (bool, 'w httpd) outcome) \<Rightarrow> 'w host \<Rightarrow> nat \<Rightarrow> bool \<Rightarrow> string \<Rightarrow> 'w httpd \<Rightarrow> (bool, 'w httpd) outcome" where
  "refuse proc H i drop_keep err s =
     (let s = upd_conn i (respond_json_err (http_now H s) ''400 Bad Request'' err) s;
          s = (if drop_keep then upd_conn i (\<lambda>c. c\<lparr>hc_keep_alive := False\<rparr>) s else s) in
      then_do (conn_pump proc H i s) (\<lambda>s. Ret True (if hc_pcb (http_conns s ! i) \<noteq> None then conn_close H i s else s)))"

text \<open>After a request has been answered: its bytes are removed, the answer is sent, and the loop goes on if nothing is left to send.\<close>

definition finish_request :: "('w httpd \<Rightarrow> (bool, 'w httpd) outcome) \<Rightarrow> 'w host \<Rightarrow> nat \<Rightarrow> nat \<Rightarrow> 'w httpd \<Rightarrow> (bool, 'w httpd) outcome" where
  "finish_request proc H i used s =
     (let s = upd_conn i (\<lambda>c. c\<lparr>hc_rx := drop used (hc_rx c), hc_rx_tail := drop (length (hc_rx c) - used) (rx_text c), hc_hdr_done := False\<rparr>) s in
      then_do (conn_pump proc H i s) (\<lambda>s. if hc_kind (http_conns s ! i) \<noteq> RESP_NONE then Ret True s else proc s))"

definition ws_upgrade :: "('w httpd \<Rightarrow> (bool, 'w httpd) outcome) \<Rightarrow> 'w host \<Rightarrow> nat \<Rightarrow> nat \<Rightarrow> 'w httpd \<Rightarrow> (bool, 'w httpd) outcome" where
  "ws_upgrade proc H i hdr_len s =
     (let c = http_conns s ! i in
      case (if ws_active (hd_ws s) then Some None else ws_handshake (rx_text c) hdr_len 160) of
        None \<Rightarrow> Ret False s
      | Some None \<Rightarrow>
          finish_request proc H i (hc_body_off c)
            (upd_conn i (respond_json_err (http_now H s) ''503 Service Unavailable'' ''ws busy'') s)
      | Some (Some resp) \<Rightarrow>
          let pending = bytes_of (drop (hc_body_off c) (hc_rx c));
              s = upd_conn i (\<lambda>c. c\<lparr>hc_hdr := bytes_of resp, hc_hdr_sent := 0, hc_body := [], hc_written := 0, hc_acked := 0,
                    hc_rsp_total := of_nat (length resp), hc_kind := RESP_MEM, hc_keep_alive := True, hc_t_ack := http_now H s, hc_is_ws := True,
                    hc_rx := drop (hc_body_off c) (hc_rx c), hc_rx_tail := drop (length (hc_rx c) - hc_body_off c) (rx_text c)\<rparr>) (s\<lparr>hd_ws_conn := Some i\<rparr>) in
          then_do (after_ws H (case hc_pcb c of Some p \<Rightarrow> ws_attach H p pending (hd_ws s) | None \<Rightarrow> Ret () (hd_ws s)) s) (\<lambda>s.
            conn_pump proc H i (upd_conn i (\<lambda>c. c\<lparr>hc_rx := [], hc_rx_tail := rx_text c, hc_hdr_done := False\<rparr>) s)))"

text \<open>One turn of the loop of \<open>http_process_rx\<close>; \<open>proc\<close> is the next one.\<close>

definition process_step :: "('w httpd \<Rightarrow> (bool, 'w httpd) outcome) \<Rightarrow> 'w host \<Rightarrow> nat \<Rightarrow> 'w httpd \<Rightarrow> (bool, 'w httpd) outcome" where
  "process_step proc H i s =
     (let c = http_conns s ! i in
      if hc_kind c \<noteq> RESP_NONE then Ret True s
      else if \<not> hc_hdr_done c then
        (case find_hdr_end (hc_rx c) of
           None \<Rightarrow> if length (hc_rx c) \<ge> HTTP_RX_BUF - 1 then refuse proc H i True ''header too large'' s else Ret True s
         | Some he \<Rightarrow>
             (case split_req_line (rx_text c) 8 96 of (n, method, target) \<Rightarrow>
              if n \<noteq> 2 then refuse proc H i False ''bad request'' s
              else let cl = (case hdr_find (rx_text c) he ''Content-Length:'' of
                               None \<Rightarrow> 0 | Some v \<Rightarrow> (case strtoul_10 v of None \<Rightarrow> 0 | Some (x, _) \<Rightarrow> ucast x));
                       s = upd_conn i (\<lambda>c. c\<lparr>hc_content_len := cl, hc_cli_close := hdr_find (rx_text c) he ''Connection: close'' \<noteq> None,
                             hc_body_off := he + 4, hc_hdr_done := True\<rparr>) s in
                if cl > 128 then refuse proc H i False ''body too large'' s
                else if method \<noteq> ''GET'' then proc s
                else (case split_target target of (path, query) \<Rightarrow>
                  if path = ''/ws'' \<and> hdr_find (rx_text c) he ''Upgrade: websocket'' \<noteq> None then ws_upgrade proc H i he s
                  else then_do (dispatch H i method path query [] s) (finish_request proc H i (he + 4)))))
      else if length (hc_rx c) - hc_body_off c \<ge> unat (hc_content_len c) then
        (case split_req_line (rx_text c) 8 96 of (_, method, target) \<Rightarrow>
         case split_target target of (path, query) \<Rightarrow>
           then_do (dispatch H i method path query (take (unat (hc_content_len c)) (drop (hc_body_off c) (hc_rx c))) s)
             (finish_request proc H i (hc_body_off c + unat (hc_content_len c))))
      else Ret True s)"

text \<open>The loop, with a bound on its turns; \<open>http_fuel\<close> is enough, as shown below.\<close>

primrec http_process_rx :: "nat \<Rightarrow> 'w host \<Rightarrow> nat \<Rightarrow> 'w httpd \<Rightarrow> (bool, 'w httpd) outcome" where
  "http_process_rx 0 H i s = Ret False s"
| "http_process_rx (Suc k) H i s = process_step (http_process_rx k H i) H i s"

definition http_fuel :: "nat \<Rightarrow> 'w httpd \<Rightarrow> nat" where
  "http_fuel i s = 2 * length (hc_rx (http_conns s ! i)) + 3"

section \<open>Callbacks\<close>

definition http_recv_cb :: "'w host \<Rightarrow> nat \<Rightarrow> nat \<Rightarrow> u8 list list option \<Rightarrow> err_t \<Rightarrow> 'w httpd \<Rightarrow> (bool, 'w httpd) outcome" where
  "http_recv_cb H i p seg err s =
     (case seg of
        None \<Rightarrow> Ret True (conn_close H i s)
      | Some qs \<Rightarrow>
          let c = http_conns s ! i; dat = concat qs; taken = (\<lambda>s. set_web_world (tcp_recved (ho_lwip H) p (length dat) (web_world s)) s) in
          if err \<noteq> ERR_OK \<or> hc_pcb c = None then Ret True s
          else if hc_is_ws c then let s = taken s in after_ws H (ws_feed_all H qs (hd_ws s)) s
          else if length dat > HTTP_RX_BUF - 1 - length (hc_rx c) then
            let s = taken s in refuse (\<lambda>s. http_process_rx (http_fuel i s) H i s) H i True ''request too large'' s
          else let s = taken (upd_conn i (\<lambda>c. c\<lparr>hc_rx := hc_rx c @ text_of dat, hc_rx_tail := []\<rparr>) s);
                   s = upd_conn i (\<lambda>c. c\<lparr>hc_t_rx := http_now H s\<rparr>) s
            in http_process_rx (http_fuel i s) H i s)"

definition http_sent_cb :: "'w host \<Rightarrow> nat \<Rightarrow> u16 \<Rightarrow> 'w httpd \<Rightarrow> (bool, 'w httpd) outcome" where
  "http_sent_cb H i len s =
     (if hc_pcb (http_conns s ! i) = None then Ret True s
      else let s = upd_conn i (\<lambda>c. c\<lparr>hc_acked := hc_acked c + ucast len, hc_t_ack := http_now H s\<rparr>) s in
        if hc_is_ws (http_conns s ! i) then Ret True s
        else conn_pump (\<lambda>s. http_process_rx (http_fuel i s) H i s) H i s)"

definition http_poll_cb :: "'w host \<Rightarrow> nat \<Rightarrow> 'w httpd \<Rightarrow> 'w httpd" where
  "http_poll_cb H i s =
     (let c = http_conns s ! i; now = http_now H s in
      if hc_pcb c = None then s
      else if hc_is_ws c then s\<lparr>hd_ws := ws_poll H (hd_ws s)\<rparr>
      else if hc_kind c \<noteq> RESP_NONE then (if now - hc_t_ack c > HTTP_TX_STALL_MS then conn_close H i s else s)
      else if hc_rx c \<noteq> [] \<or> hc_hdr_done c then (if now - hc_t_rx c > HTTP_RX_IDLE_MS then conn_close H i s else s)
      else if now - hc_t_rx c > HTTP_IDLE_MS then conn_close H i s else s)"

definition http_err_cb :: "'w host \<Rightarrow> nat \<Rightarrow> 'w httpd \<Rightarrow> 'w httpd" where
  "http_err_cb H i s =
     (let c = http_conns s ! i;
          s = (if hc_is_ws c then (upd_conn i (\<lambda>c. c\<lparr>hc_is_ws := False\<rparr>) s)
                 \<lparr>hd_ws_conn := if hd_ws_conn s = Some i then None else hd_ws_conn s, hd_ws := ws_detach (hd_ws s)\<rparr>
               else s);
          s = (if hc_kind c = RESP_FILE then web_hist_close H s else s)
      in upd_conn i (\<lambda>c. c\<lparr>hc_pcb := None, hc_kind := RESP_NONE, hc_rx := [], hc_rx_tail := rx_text c, hc_hdr_done := False\<rparr>) s)"

fun free_conn :: "http_conn list \<Rightarrow> nat option" where
  "free_conn [] = None"
| "free_conn (c # cs) = (if hc_pcb c = None then Some 0 else map_option Suc (free_conn cs))"

text \<open>The fields before \<open>rx\<close> are cleared; those of the response keep their values.\<close>

definition http_accept_cb :: "'w host \<Rightarrow> nat \<Rightarrow> err_t \<Rightarrow> 'w httpd \<Rightarrow> 'w httpd" where
  "http_accept_cb H p err s =
     (if err \<noteq> ERR_OK then s
      else (case free_conn (http_conns s) of
          None \<Rightarrow> set_web_world (tcp_abort (ho_lwip H) p (web_world s)) s
        | Some i \<Rightarrow>
            upd_conn i (\<lambda>c. c\<lparr>hc_pcb := Some p, hc_is_ws := False, hc_rx := [], hc_rx_tail := rx_text c, hc_hdr_done := False, hc_body_off := 0, hc_content_len := 0,
              hc_cli_close := False, hc_t_rx := http_now H s, hc_t_ack := http_now H s, hc_t_idle := http_now H s\<rparr>) s))"

end
