(* ===== verification/Http_Service.thy ===== *)
theory Http_Service
  imports Httpd
begin

unbundle bit_operations_syntax

text \<open>
  Properties of the HTTP server (\<open>Httpd\<close>): every request is worked off by a bounded number of turns, the bytes of a response go out in
  order, reading requests change nothing, and two ways in which one request disturbs another.
\<close>

section \<open>Every request is worked off\<close>

text \<open>
  What the fields that the loop reads look like afterwards: the connection keeps its received bytes, or has been closed.
\<close>

definition rx_same :: "http_conn \<Rightarrow> http_conn \<Rightarrow> bool" where
  "rx_same c d \<longleftrightarrow> hc_rx d = hc_rx c \<and> hc_hdr_done d = hc_hdr_done c \<and> hc_body_off d = hc_body_off c \<and> hc_content_len d = hc_content_len c \<and>
     hc_kind d = hc_kind c \<and> hc_pcb d = hc_pcb c \<and> hc_acked d = hc_acked c \<and> hc_keep_alive d = hc_keep_alive c \<and> hc_is_ws d = hc_is_ws c \<and> hc_hdr d = hc_hdr c"

lemma rx_same_refl [simp]: "rx_same c c" by (simp add: rx_same_def)

lemma rx_same_trans: "rx_same a b \<Longrightarrow> rx_same b c \<Longrightarrow> rx_same a c" by (simp add: rx_same_def)

definition dl_same :: "http_conn \<Rightarrow> http_conn \<Rightarrow> bool" where
  "dl_same c d \<longleftrightarrow> hc_rsp_total d = hc_rsp_total c \<and> hc_dl_size d = hc_dl_size c \<and> hc_dl_sent d = hc_dl_sent c
     \<and> hc_dl_chunk_len d = hc_dl_chunk_len c \<and> hc_dl_chunk_off d = hc_dl_chunk_off c"

lemma dl_same_refl [simp]: "dl_same c c" by (simp add: dl_same_def)

lemma send_mem_same: "send_mem H p c w = (e, c', w') \<Longrightarrow> rx_same c c' \<and> dl_same c c' \<and> e \<noteq> TX_STUCK"
proof (induction H p c w rule: send_mem.induct)
  case (1 H p c w)
  let ?src = "if hc_hdr_sent c < length (hc_hdr c) then drop (hc_hdr_sent c) (hc_hdr c) else drop (hc_body_sent c) (hc_body c)"
  let ?n = "min (length ?src) (unat (tcp_sndbuf H p w))"
  show ?case
  proof (cases "(hc_hdr_sent c < length (hc_hdr c) \<or> hc_body_sent c < length (hc_body c)) \<and> unat (tcp_sndbuf H p w) \<noteq> 0")
    case True
    obtain x w1 where wr: "tcp_write (ho_lwip H) p (take ?n ?src) w = (x, w1)" by fastforce
    show ?thesis
    proof (cases x)
      case ERR_OK
      show ?thesis using 1(1) [of ?src "unat (tcp_sndbuf H p w)" ?n ERR_OK w1] 1(2) True wr ERR_OK
        by (subst (asm) (2) send_mem.simps) (auto simp: Let_def rx_same_def dl_same_def split: if_splits)
    next
      case ERR_MEM
      then show ?thesis using 1(2) True wr by (subst (asm) send_mem.simps) (auto simp: Let_def)
    next
      case ERR_OTHER
      then show ?thesis using 1(2) True wr by (subst (asm) send_mem.simps) (auto simp: Let_def)
    qed
  next
    case False
    then show ?thesis using 1(2) by (subst (asm) send_mem.simps) (auto simp: Let_def split: if_splits)
  qed
qed

lemma send_hdr_same: "send_hdr H p c w = (e, c', w') \<Longrightarrow> e \<noteq> TX_STUCK \<and> rx_same c c' \<and> dl_same c c'"
proof (induction H p c w rule: send_hdr.induct)
  case (1 H p c w)
  let ?n = "min (length (hc_hdr c) - hc_hdr_sent c) (unat (tcp_sndbuf H p w))"
  let ?c = "c\<lparr>hc_hdr_sent := hc_hdr_sent c + ?n, hc_written := hc_written c + of_nat ?n\<rparr>"
  show ?case
  proof (cases "hc_hdr_sent c < length (hc_hdr c) \<and> unat (tcp_sndbuf H p w) \<noteq> 0")
    case True
    obtain x w1 where wr: "tcp_write (ho_lwip H) p (take ?n (drop (hc_hdr_sent c) (hc_hdr c))) w = (x, w1)" by fastforce
    show ?thesis
    proof (cases x)
      case ERR_OK
      have s: "send_hdr H p ?c w1 = (e, c', w')"
        using 1(2) True wr ERR_OK by (subst (asm) send_hdr.simps) (simp add: Let_def)
      have "e \<noteq> TX_STUCK \<and> rx_same ?c c' \<and> dl_same ?c c'"
        using 1(1) [of "unat (tcp_sndbuf H p w)" ?n ERR_OK w1, OF _ refl _ refl _ _ s] True wr ERR_OK by simp
      then show ?thesis by (simp add: rx_same_def dl_same_def)
    next
      case ERR_MEM
      then show ?thesis using 1(2) True wr by (subst (asm) send_hdr.simps) (auto simp: Let_def)
    next
      case ERR_OTHER
      then show ?thesis using 1(2) True wr by (subst (asm) send_hdr.simps) (auto simp: Let_def)
    qed
  next
    case False
    then show ?thesis using 1(2) by (subst (asm) send_hdr.simps) (auto simp: Let_def split: if_splits)
  qed
qed

definition wf_tx :: "http_conn \<Rightarrow> bool" where
  "wf_tx c \<longleftrightarrow> hc_dl_chunk_off c \<le> hc_dl_chunk_len c \<and> hc_dl_sent c \<le> hc_dl_size c \<and> hc_dl_size c < 2 ^ 31 \<and> length (hc_hdr c) < HTTP_HDR_MAX
     \<and> (hc_kind c = RESP_FILE \<longrightarrow> hc_hdr c \<noteq> [])"

text \<open>What littlefs promises: a read gives at most as many bytes as were asked for, and a size is a signed 32-bit number.\<close>

definition lfs_reads :: "'w lfs_ops \<Rightarrow> bool" where
  "lfs_reads L \<longleftrightarrow> (\<forall>fp len w. fst (fst (lfs_file_read L fp len w)) \<le> int len) \<and> (\<forall>fp w. fst (lfs_file_size L fp w) < 2 ^ 31)"

lemma next_chunk_wf:
  assumes "next_chunk L h c w = (r, c', w')" "wf_tx c" "lfs_reads L"
  shows "rx_same c c' \<and> wf_tx c' \<and> (hc_rsp_total c' = hc_rsp_total c \<or> hc_kind c \<noteq> RESP_FILE \<or> hc_rsp_total c' \<noteq> 0) \<and> r \<noteq> Some TX_STUCK
    \<and> (r = None \<longrightarrow> hc_dl_chunk_off c' < hc_dl_chunk_len c')"
proof (cases "hc_dl_chunk_off c = hc_dl_chunk_len c \<and> hc_dl_sent c < hc_dl_size c")
  case True
  define want where "want = min (hc_dl_size c - hc_dl_sent c) HTTP_DL_CHUNK"
  obtain n bs w1 where r: "history_web_read L want h w = ((n, bs), w1)" by (metis prod_cases3 prod.collapse)
  have n: "n \<le> int want"
  proof (cases "web_fp_open h")
    case True
    then have "fst (fst (lfs_file_read L web_fp want w)) = n" using r by (simp add: history_web_read_def)
    then show ?thesis using assms(3) unfolding lfs_reads_def by metis
  qed (use r in \<open>simp add: history_web_read_def\<close>)
  have w: "want \<le> 512" "want \<le> hc_dl_size c - hc_dl_sent c" unfolding want_def HTTP_DL_CHUNK_def by simp_all
  have "hc_hdr c \<noteq> [] \<Longrightarrow> of_nat (length (hc_hdr c)) + (of_nat (hc_dl_sent c) :: u32) \<noteq> 0"
  proof -
    assume ne: "hc_hdr c \<noteq> []"
    have "length (hc_hdr c) + hc_dl_sent c < 2 ^ 32" using assms(2) by (simp add: wf_tx_def HTTP_HDR_MAX_def)
    then have "unat (of_nat (length (hc_hdr c) + hc_dl_sent c) :: u32) = length (hc_hdr c) + hc_dl_sent c" by (subst unat_of_nat) simp
    then show ?thesis using ne by (metis add_is_0 length_0_conv of_nat_add unat_0)
  qed
  moreover have "0 < unat (of_int n :: u16)" if "0 < n"
  proof -
    have "of_int n = (of_nat (nat n) :: u16)" using that by simp
    moreover have "unat (of_nat (nat n) :: u16) = nat n" using n w(1) by (simp add: unat_of_nat)
    ultimately show ?thesis using that by simp
  qed
  ultimately show ?thesis using assms(1,2) True n w unfolding next_chunk_def want_def [symmetric] r
    by (auto simp: rx_same_def wf_tx_def split: if_splits)
next
  case False
  then have "(r, c', w') = (if hc_dl_chunk_off c = hc_dl_chunk_len c then (Some TX_WAIT, c, w) else (None, c, w))"
    using assms(1) by (auto simp: next_chunk_def)
  then show ?thesis using assms(2) by (auto simp: wf_tx_def split: if_splits)
qed

lemma send_file_wf:
  assumes "lfs_reads (lfs (ho_board H))"
  shows "send_file H p mss h c w = (e, c', w') \<Longrightarrow> wf_tx c \<Longrightarrow> hc_kind c = RESP_FILE \<Longrightarrow>
    rx_same c c' \<and> wf_tx c' \<and> (hc_rsp_total c' = hc_rsp_total c \<or> hc_rsp_total c' \<noteq> 0) \<and> e \<noteq> TX_STUCK"
  using assms
proof (induction H p mss h c w rule: send_file.induct)
  case (1 H p mss h c w)
  show ?case
  proof (cases "hc_written c - hc_acked c < 4 * ucast mss")
    case True
    obtain r c1 w1 where nc: "next_chunk (lfs (ho_board H)) h c w = (r, c1, w1)" by (metis prod_cases3)
    note wf = next_chunk_wf [OF nc 1(3,5)]
    let ?n = "min (hc_dl_chunk_len c1 - hc_dl_chunk_off c1) (unat (tcp_sndbuf H p w1))"
    let ?c = "c1\<lparr>hc_dl_chunk_off := hc_dl_chunk_off c1 + ?n, hc_written := hc_written c1 + of_nat ?n\<rparr>"
    show ?thesis
    proof (cases "r = None \<and> unat (tcp_sndbuf H p w1) \<noteq> 0")
      case n: True
      then have n0: "?n \<noteq> 0" using wf by simp
      have wf': "wf_tx ?c" "hc_kind ?c = RESP_FILE" "rx_same c1 ?c" using wf n 1(4) by (auto simp: wf_tx_def rx_same_def)
      obtain x w2 where wr: "tcp_write (ho_lwip H) p (take ?n (drop (hc_dl_chunk_off c1) (hc_dl_chunk c1))) w1 = (x, w2)" by fastforce
      show ?thesis
      proof (cases x)
        case ERR_OK
        have s: "send_file H p mss h ?c w2 = (e, c', w')"
          using 1(2) True nc n n0 wr ERR_OK by (subst (asm) send_file.simps) (simp add: Let_def)
        have "rx_same ?c c' \<and> wf_tx c' \<and> (hc_rsp_total c' = hc_rsp_total ?c \<or> hc_rsp_total c' \<noteq> 0) \<and> e \<noteq> TX_STUCK"
          using 1(1) [of None "(c1, w1)" c1 w1 "unat (tcp_sndbuf H p w1)" ?n ERR_OK w2, OF True _ _ _ refl refl _ _ _ _ s wf'(1,2) 1(5)] nc n n0 wr ERR_OK by simp
        then show ?thesis using wf wf'(3) 1(4) rx_same_trans by (auto simp: rx_same_def)
      qed (use 1(2,4) True nc n n0 wr wf in \<open>subst (asm) send_file.simps, auto simp: Let_def\<close>)+
    next
      case False
      then show ?thesis using 1(2,4) True nc wf by (subst (asm) send_file.simps) (auto simp: Let_def split: option.splits)
    qed
  next
    case False
    then show ?thesis using 1(2,3) by (subst (asm) send_file.simps) auto
  qed
qed

lemma upd_conn_simps [simp]:
  "i < length (http_conns s) \<Longrightarrow> http_conns (upd_conn i f s) ! i = f (http_conns s ! i)"
  "length (http_conns (upd_conn i f s)) = length (http_conns s)"
  "web_dev (upd_conn i f s) = web_dev s" "web_world (upd_conn i f s) = web_world s" "hd_ws (upd_conn i f s) = hd_ws s"
  "hd_ws_conn (upd_conn i f s) = hd_ws_conn s"
  "http_conns (set_web_dev d s) = http_conns s" "http_conns (set_web_world w s) = http_conns s"
  "web_dev (set_web_dev d s) = d" "web_world (set_web_world w s) = w" "hd_ws_conn (set_web_dev d s) = hd_ws_conn s"
  by (simp_all add: upd_conn_def web_dev_def web_world_def set_web_dev_def set_web_world_def)

lemma web_hist_close_conns [simp]: "http_conns (web_hist_close H s) = http_conns s"
  by (simp add: web_hist_close_def Let_def split: prod.split)

definition closed_conn :: "http_conn \<Rightarrow> bool" where
  "closed_conn c \<longleftrightarrow> hc_pcb c = None \<and> hc_kind c = RESP_NONE \<and> hc_rx c = [] \<and> \<not> hc_hdr_done c"

lemma conn_close_result:
  assumes "i < length (http_conns s)"
  shows "length (http_conns (conn_close H i s)) = length (http_conns s)" "closed_conn (http_conns (conn_close H i s) ! i)"
    "wf_tx (http_conns s ! i) \<Longrightarrow> wf_tx (http_conns (conn_close H i s) ! i)"
  using assms by (auto simp: conn_close_def Let_def closed_conn_def wf_tx_def split: option.split)

text \<open>The response has just been put together, or there is none.\<close>

definition settled :: "http_conn \<Rightarrow> bool" where
  "settled c \<longleftrightarrow> hc_kind c = RESP_NONE \<or> hc_acked c = 0 \<and> hc_rsp_total c \<noteq> 0"

lemma store_tx_result:
  assumes "i < length (http_conns s)" "wf_tx c" "e \<noteq> TX_STUCK" "rx_same (http_conns s ! i) c"
  shows "\<exists>s'. store_tx H i p (e, c, w) s = (True, s') \<and> length (http_conns s') = length (http_conns s) \<and> wf_tx (http_conns s' ! i) \<and>
    (http_conns s' ! i = c \<or> closed_conn (http_conns s' ! i))"
  using assms conn_close_result [of i "set_web_world w (upd_conn i (\<lambda>_. c) s)" H]
  by (cases e) (simp_all add: store_tx_def Let_def)

lemma pump_file_result:
  assumes "i < length (http_conns s)" "wf_tx (http_conns s ! i)" "hc_kind (http_conns s ! i) = RESP_FILE" "lfs_reads (lfs (ho_board H))"
  shows "\<exists>s'. pump_file H i p s = (True, s') \<and> length (http_conns s') = length (http_conns s) \<and> wf_tx (http_conns s' ! i) \<and>
    (closed_conn (http_conns s' ! i) \<or> rx_same (http_conns s ! i) (http_conns s' ! i) \<and>
     (hc_rsp_total (http_conns s' ! i) = hc_rsp_total (http_conns s ! i) \<or> hc_rsp_total (http_conns s' ! i) \<noteq> 0))"
proof -
  let ?c = "http_conns s ! i"
  obtain e c w where sh: "send_hdr H p ?c (web_world s) = (e, c, w)" by (metis prod_cases3)
  have h: "e \<noteq> TX_STUCK" "rx_same ?c c" "dl_same ?c c" using send_hdr_same [OF sh] by auto
  have wf: "wf_tx c" using assms(2) h(2,3) by (simp add: wf_tx_def rx_same_def dl_same_def)
  note st = store_tx_result [OF assms(1) wf h(1,2), of H p w]
  show ?thesis
  proof (cases "e = TX_WAIT \<and> \<not> hc_hdr_sent c < length (hc_hdr c)")
    case True
    obtain e2 c2 w2 where sf: "send_file H p (tcp_mss H p (web_world s)) (hist (web_dev s)) c w = (e2, c2, w2)" by (metis prod_cases3)
    have k: "hc_kind c = RESP_FILE" using h(2) assms(3) by (simp add: rx_same_def)
    note f = send_file_wf [OF assms(4) sf wf k]
    have "rx_same ?c c2" using f h(2) rx_same_trans by blast
    from store_tx_result [OF assms(1) _ _ this, of e2 H p w2] f h(3) \<open>rx_same ?c c2\<close> show ?thesis
      using True sh sf by (auto simp: pump_file_def Let_def dl_same_def)
  next
    case False
    then show ?thesis using st sh h by (cases e) (auto simp: pump_file_def Let_def dl_same_def)
  qed
qed

lemma conn_pump_send_result:
  assumes "i < length (http_conns s)" "wf_tx (http_conns s ! i)" "lfs_reads (lfs (ho_board H))" "settled (http_conns s ! i)"
  shows "\<exists>s'. conn_pump_send H i s = ((True, False), s') \<and> length (http_conns s') = length (http_conns s) \<and> wf_tx (http_conns s' ! i) \<and>
    (closed_conn (http_conns s' ! i) \<or> rx_same (http_conns s ! i) (http_conns s' ! i))"
proof -
  let ?c = "http_conns s ! i"
  show ?thesis
  proof (cases "hc_pcb ?c = None \<or> hc_kind ?c = RESP_NONE")
    case True
    then show ?thesis using assms(2) by (auto simp: conn_pump_send_def Let_def split: option.split resp_kind.split)
  next
    case False
    then obtain p where p: "hc_pcb ?c = Some p" and k: "hc_kind ?c \<noteq> RESP_NONE" by auto
    have a: "hc_acked ?c = 0" "hc_rsp_total ?c \<noteq> 0" using assms(4) k by (simp_all add: settled_def)
    obtain s' where s': "(if hc_kind ?c = RESP_FILE then pump_file H i p s else store_tx H i p (send_mem H p ?c (web_world s)) s) = (True, s')"
      "length (http_conns s') = length (http_conns s)" "wf_tx (http_conns s' ! i)"
      "closed_conn (http_conns s' ! i) \<or> rx_same ?c (http_conns s' ! i) \<and> hc_rsp_total (http_conns s' ! i) \<noteq> 0"
    proof (cases "hc_kind ?c = RESP_FILE")
      case True
      then show ?thesis using pump_file_result [OF assms(1,2) True assms(3), of p] a that by auto
    next
      case F: False
      obtain e c w where sm: "send_mem H p ?c (web_world s) = (e, c, w)" by (metis prod_cases3)
      note m = send_mem_same [OF sm]
      have "wf_tx c" using assms(2) m by (simp add: wf_tx_def rx_same_def dl_same_def)
      from store_tx_result [OF assms(1) this _ conjunct1 [OF m], of e H p w] m show ?thesis using F a that sm by (auto simp: dl_same_def)
    qed
    have "\<not> hc_acked (http_conns s' ! i) \<ge> hc_rsp_total (http_conns s' ! i)" if "hc_pcb (http_conns s' ! i) \<noteq> None"
      using s'(4) that a by (auto simp: closed_conn_def rx_same_def)
    then show ?thesis using p k s' by (cases "hc_kind ?c") (auto simp: conn_pump_send_def Let_def)
  qed
qed

definition answered :: "http_conn \<Rightarrow> http_conn \<Rightarrow> bool" where
  "answered c d \<longleftrightarrow> hc_rx d = hc_rx c \<and> hc_hdr_done d = hc_hdr_done c \<and> hc_body_off d = hc_body_off c \<and> hc_content_len d = hc_content_len c
     \<and> hc_pcb d = hc_pcb c \<and> hc_is_ws d = hc_is_ws c \<and> settled d \<and> wf_tx d"

lemma rsp_begin_answered:
  assumes "rsp_begin now st ct clen keep ex c = (True, c')" "clen < 2 ^ 31" "wf_tx c"
  shows "answered c (c'\<lparr>hc_body := b, hc_kind := k\<rparr>)" "hc_hdr c' \<noteq> []" "length (hc_hdr c') < HTTP_HDR_MAX"
    "hc_acked c' = 0" "hc_rsp_total c' \<noteq> 0"
    "hc_rx c' = hc_rx c" "hc_hdr_done c' = hc_hdr_done c" "hc_body_off c' = hc_body_off c" "hc_content_len c' = hc_content_len c" "hc_pcb c' = hc_pcb c"
    "hc_is_ws c' = hc_is_ws c"
proof -
  let ?h = "rsp_header st ct clen keep ex"
  have h: "length ?h < 256" "?h \<noteq> []" using assms(1) by (auto simp: rsp_begin_def Let_def HTTP_HDR_MAX_def rsp_header_def split: if_splits)
  have "length ?h + clen < 2 ^ 32" using h assms(2) by simp
  then have "unat (of_nat (length ?h + clen) :: u32) = length ?h + clen" by (subst unat_of_nat) simp
  then have "of_nat (length ?h) + (of_nat clen :: u32) \<noteq> 0" using h by (metis add_is_0 length_0_conv of_nat_add unat_0)
  then show "answered c (c'\<lparr>hc_body := b, hc_kind := k\<rparr>)" "hc_hdr c' \<noteq> []" "length (hc_hdr c') < HTTP_HDR_MAX"
    "hc_acked c' = 0" "hc_rsp_total c' \<noteq> 0"
    "hc_rx c' = hc_rx c" "hc_hdr_done c' = hc_hdr_done c" "hc_body_off c' = hc_body_off c" "hc_content_len c' = hc_content_len c" "hc_pcb c' = hc_pcb c"
    "hc_is_ws c' = hc_is_ws c"
    using assms h by (auto simp: rsp_begin_def Let_def answered_def settled_def wf_tx_def bytes_of_def split: if_splits)
qed

lemma respond_mem_answered [simp]:
  assumes "length body < 2 ^ 31" "wf_tx c"
  shows "answered c (respond_mem now st ct body keep ex c)"
proof (cases "rsp_begin now st ct (length body) keep ex c")
  case (Pair ok c')
  show ?thesis
  proof (cases ok)
    case True
    then show ?thesis using rsp_begin_answered(1) [of now st ct "length body" keep ex c c' RESP_MEM body] Pair assms by (simp add: respond_mem_def)
  next
    case False
    then show ?thesis using Pair assms
      by (auto simp: respond_mem_def rsp_begin_def Let_def answered_def settled_def wf_tx_def split: if_splits)
  qed
qed

lemma json_answered [simp]:
  "wf_tx c \<Longrightarrow> answered c (respond_json_ok now c)"
  "length err < 2 ^ 30 \<Longrightarrow> wf_tx c \<Longrightarrow> answered c (respond_json_err now st err c)"
  by (simp_all add: respond_json_ok_def respond_json_err_def bytes_of_def ok_text_def err_text_def qq_def)

text \<open>A request is answered: whatever else happened, the connection has a response and its received bytes.\<close>

definition answers :: "nat \<Rightarrow> 'w httpd \<Rightarrow> (bool, 'w httpd) outcome \<Rightarrow> bool" where
  "answers i s r \<longleftrightarrow> (\<forall>ok s'. r = Ret ok s' \<longrightarrow> ok \<and> length (http_conns s') = length (http_conns s) \<and> answered (http_conns s ! i) (http_conns s' ! i))"

lemma reply_with_answers:
  "http_conns t = http_conns s \<Longrightarrow> i < length (http_conns s) \<Longrightarrow> answered (http_conns s ! i) (f (http_conns s ! i)) \<Longrightarrow> answers i s (reply_with i f t)"
  by (simp add: answers_def reply_with_def)

lemma reply_check_answers:
  "http_conns t = http_conns s \<Longrightarrow> i < length (http_conns s) \<Longrightarrow> wf_tx (http_conns s ! i) \<Longrightarrow> length err < 2 ^ 30 \<Longrightarrow> answers i s (reply_check H i ok err t)"
  unfolding reply_check_def by (rule reply_with_answers) auto

lemma reply_doc_answers:
  assumes "http_conns t = http_conns s" "i < length (http_conns s)" "wf_tx (http_conns s ! i)" "doc = Some (txt, n)" "n < 2 ^ 30"
  shows "answers i s (reply_doc H i doc t)"
  unfolding reply_doc_def assms(4) using assms by (auto intro!: reply_with_answers)

lemma stop_on_error_short:
  "stop_on_error r f = Ret (Some m) t \<Longrightarrow> (\<And>m t. r = Ret (Some m) t \<Longrightarrow> length m < 100) \<Longrightarrow> (\<And>u m t. f u = Ret (Some m) t \<Longrightarrow> length m < 100) \<Longrightarrow> length m < 100"
  by (cases r) (auto simp: stop_on_error_def split: option.splits)

lemma cfg_part_short:
  "cfg_ip B json s = Ret (Some m) t \<Longrightarrow> length m < 100" "length err < 100 \<Longrightarrow> cfg_num B json key ok err idx s = Ret (Some m) t \<Longrightarrow> length m < 100"
  by (auto simp: cfg_ip_def cfg_num_def outcome_bind_eq_Ret split: option.splits if_splits)

lemma web_cfg_error_short: "web_cmd_exec_cfg B json s = Ret (Some m) t \<Longrightarrow> length m < 100"
  unfolding web_cmd_exec_cfg_def
  by (erule stop_on_error_short; (erule stop_on_error_short | erule cfg_part_short | erule cfg_part_short(2) [rotated] | simp)+)

lemma history_open_size: "lfs_reads L \<Longrightarrow> history_web_open L name h w = (sz, h', w') \<Longrightarrow> sz < 2 ^ 31"
  unfolding history_web_open_def Let_def lfs_reads_def
  by (auto split: if_splits prod.splits) (metis fst_conv)

lemma dispatch_download_answers:
  assumes "i < length (http_conns s)" "wf_tx (http_conns s ! i)" "lfs_reads (lfs (ho_board H))"
  shows "answers i s (dispatch_download H i query s)"
proof -
  let ?bad = "\<lambda>t. let t = web_hist_close H t in reply_with i (respond_json_err (http_now H t) ''400 Bad Request'' ''invalid file name'') t"
  have bad: "answers i s (?bad t)" if "http_conns t = http_conns s" for t
    unfolding Let_def using that assms(1,2) by (intro reply_with_answers) simp_all
  show ?thesis
  proof (cases "\<exists>name. Option.bind query (\<lambda>q. url_query_get q ''name'' 32) = Some name \<and> history_web_name_valid name")
    case True
    then obtain name where n: "Option.bind query (\<lambda>q. url_query_get q ''name'' 32) = Some name" "history_web_name_valid name" by blast
    obtain sz h w where o: "history_web_open (lfs (ho_board H)) name (hist (web_dev s)) (world (web_dev s)) = (sz, h, w)" by (metis prod_cases3)
    let ?s = "set_web_dev ((web_dev s)\<lparr>hist := h, world := w\<rparr>) s"
    let ?ex = "take 95 (qq ''Content-Disposition: attachment; filename=`'' @ name @ qq ''`'' @ crlf)"
    obtain ok c where rb: "rsp_begin (http_now H ?s) ''200 OK'' ''application/octet-stream'' (nat sz) False ?ex (http_conns s ! i) = (ok, c)" by fastforce
    let ?c = "c\<lparr>hc_dl_size := nat sz, hc_dl_sent := 0, hc_dl_chunk_len := 0, hc_dl_chunk_off := 0, hc_kind := RESP_FILE\<rparr>"
    have sz: "nat sz < 2 ^ 31" using history_open_size [OF assms(3) o] by simp
    have "answered (http_conns s ! i) ?c" if ok
    proof -
      have "rsp_begin (http_now H ?s) ''200 OK'' ''application/octet-stream'' (nat sz) False ?ex (http_conns s ! i) = (True, c)" using rb that by simp
      from rsp_begin_answered(2-) [OF this sz assms(2)] show ?thesis using sz by (simp add: answered_def settled_def wf_tx_def)
    qed
    then have good: "answers i s (reply_with i (\<lambda>_. ?c) ?s)" if ok using that assms(1) by (intro reply_with_answers) simp_all
    have err: "answers i s (reply_with i (respond_json_err now ''500 Internal Server Error'' ''server error'') (web_hist_close H ?s))" for now
      using assms(1,2) by (intro reply_with_answers) simp_all
    show ?thesis using n o rb bad [of ?s] good err
      by (cases ok) (auto simp: dispatch_download_def Let_def)
  next
    case False
    then show ?thesis using bad [of s] by (auto simp: dispatch_download_def Let_def split: option.split)
  qed
qed

lemma dispatch_get_answers:
  assumes "i < length (http_conns s)" "wf_tx (http_conns s ! i)" "lfs_reads (lfs (ho_board H))" "length (ho_index H) < 2 ^ 31"
    "dispatch_get H i path query s = Some r"
  shows "answers i s r"
proof -
  note a = assms(1,2)
  have p: "answers i s (reply_with i (respond_mem now st ct b keep ex) s)" if "length b < 2 ^ 31" for now st ct b keep ex
    using a that by (intro reply_with_answers) simp_all
  obtain io regs where d: "length io < 704" "length regs < 704" "web_build_io_json (http_now H s) 704 (web_dev s) = Some (io, length io)"
    "web_build_regs_json 704 (web_dev s) = Some (regs, length regs)" using web_documents_fit [of "http_now H s" "web_dev s"] by (metis order_refl)
  obtain tx n where i: "web_build_info_json (ho_env H (web_world s)) (http_now H s) 704 (web_dev s) = Some (tx, n)" "n \<le> 704"
    by (auto simp: web_build_info_json_def snprintf_at_def)
  have docs: "answers i s (reply_doc H i (web_build_info_json (ho_env H (web_world s)) (http_now H s) 704 (web_dev s)) s)"
    "answers i s (reply_doc H i (web_build_io_json (http_now H s) 704 (web_dev s)) s)" "answers i s (reply_doc H i (web_build_regs_json 704 (web_dev s)) s)"
    using reply_doc_answers [OF refl a i(1), of H] reply_doc_answers [OF refl a d(3), of H] reply_doc_answers [OF refl a d(4), of H] i(2) d(1,2) by simp_all
  have "answers i s (dispatch_history H i s)"
  proof -
    obtain x w where l: "history_web_list_json (lfs (ho_board H)) 704 (hist (web_dev s)) (world (web_dev s)) = Some (x, w)"
      "case x of None \<Rightarrow> True | Some (txt, n) \<Rightarrow> n < 704"
      using history_list_fits [of 704 "lfs (ho_board H)" "hist (web_dev s)" "world (web_dev s)"] by (fastforce split: option.splits)
    show ?thesis
    proof (cases x)
      case None
      then show ?thesis using a l by (auto simp: dispatch_history_def Let_def HTTP_BODY_BUF_def bytes_of_def qq_def intro!: reply_with_answers)
    next
      case (Some doc)
      then obtain tx n where "doc = (tx, n)" "n < 704" using l(2) by (cases doc) auto
      then show ?thesis using a l Some reply_doc_answers [of "set_web_world w s" s i "Some doc" tx n H]
        by (simp add: dispatch_history_def Let_def HTTP_BODY_BUF_def)
    qed
  qed
  then show ?thesis using assms(4,5) docs p dispatch_download_answers [OF assms(1-3), of query]
    by (auto simp: dispatch_get_def Let_def HTTP_BODY_BUF_def split: if_splits)
qed

lemma dispatch_post_answers:
  assumes "i < length (http_conns s)" "wf_tx (http_conns s ! i)" "dispatch_post H i path body s = Some r"
  shows "answers i s r"
proof -
  have c: "answers i s (reply_check H i ok err t)" if "http_conns t = http_conns s" "length err < 100" for ok err t
    using that assms(1,2) by (intro reply_check_answers) simp_all
  have b: "answers i s (outcome_bind (lift_web x s) f)" if "\<And>v d. x = Ret v d \<Longrightarrow> answers i s (f v (set_web_dev d s))" for x f
    using that by (cases x) (auto simp: lift_web_def answers_def)
  have cfg: "answers i s (outcome_bind (lift_web (web_cmd_exec_cfg (ho_board H) body (web_dev s)) s) (\<lambda>err s.
      reply_check H i (err = None) (case err of None \<Rightarrow> ''bad request'' | Some m \<Rightarrow> m) s))"
    by (rule b) (auto intro!: c dest: web_cfg_error_short split: option.split)
  have reg: "answers i s (outcome_bind (lift_web x s) (\<lambda>rc s. reply_check H i (P rc) ''invalid addr/value'' s))" for x P
    by (rule b) (auto intro!: c)
  show ?thesis using assms(3) unfolding dispatch_post_def Let_def
    by (auto simp: cfg reg c split: if_splits option.splits prod.splits)
qed

lemma dispatch_answers:
  assumes "i < length (http_conns s)" "wf_tx (http_conns s ! i)" "lfs_reads (lfs (ho_board H))" "length (ho_index H) < 2 ^ 31"
  shows "answers i s (dispatch H i method path query body s)"
proof (cases "if method = ''GET'' then dispatch_get H i path query s else if method = ''POST'' then dispatch_post H i path body s else None")
  case None
  then show ?thesis using assms unfolding dispatch_def
    by (auto simp: bytes_of_def err_text_def qq_def intro!: reply_with_answers)
next
  case (Some r)
  then show ?thesis using assms dispatch_get_answers dispatch_post_answers unfolding dispatch_def by (auto split: if_splits)
qed

definition works :: "(bool, 'w httpd) outcome \<Rightarrow> bool" where
  "works r \<longleftrightarrow> (\<forall>s. r \<noteq> Ret False s)"

definition wf_http :: "nat \<Rightarrow> 'w httpd \<Rightarrow> bool" where
  "wf_http i s \<longleftrightarrow> i < length (http_conns s) \<and> wf_tx (http_conns s ! i) \<and>
     (hc_hdr_done (http_conns s ! i) \<longrightarrow> 4 \<le> hc_body_off (http_conns s ! i) \<and> hc_body_off (http_conns s ! i) \<le> length (hc_rx (http_conns s ! i)))"

text \<open>The work left: two turns for each request, of at least four bytes.\<close>

definition work_left :: "nat \<Rightarrow> 'w httpd \<Rightarrow> nat" where
  "work_left i s = 2 * length (hc_rx (http_conns s ! i)) + (if hc_hdr_done (http_conns s ! i) then 0 else 1)"

definition host_ok :: "'w host \<Rightarrow> bool" where
  "host_ok H \<longleftrightarrow> lfs_reads (lfs (ho_board H)) \<and> length (ho_index H) < 2 ^ 31"

lemma conn_pump_settled:
  assumes "host_ok H" "i < length (http_conns s)" "wf_tx (http_conns s ! i)" "settled (http_conns s ! i)"
  shows "\<exists>s'. conn_pump proc H i s = Ret True s' \<and> length (http_conns s') = length (http_conns s) \<and> wf_tx (http_conns s' ! i) \<and>
    (closed_conn (http_conns s' ! i) \<or> rx_same (http_conns s ! i) (http_conns s' ! i))"
  using conn_pump_send_result [OF assms(2,3) _ assms(4), of H] assms(1) by (auto simp: conn_pump_def host_ok_def)

lemma refuse_works:
  assumes "host_ok H" "wf_http i s" "length err < 100"
  shows "works (refuse proc H i keep err s)"
proof -
  let ?t = "upd_conn i (respond_json_err (http_now H s) ''400 Bad Request'' err) s"
  let ?u = "if keep then upd_conn i (\<lambda>c. c\<lparr>hc_keep_alive := False\<rparr>) ?t else ?t"
  have i: "i < length (http_conns s)" "wf_tx (http_conns s ! i)" using assms(2) by (simp_all add: wf_http_def)
  have "answered (http_conns s ! i) (http_conns ?t ! i)" using i assms(3) by simp
  then have "settled (http_conns ?u ! i)" "wf_tx (http_conns ?u ! i)" "i < length (http_conns ?u)"
    using i by (auto simp: answered_def settled_def wf_tx_def)
  from conn_pump_settled [OF assms(1) this(3,2,1), of proc] show ?thesis
    by (auto simp: works_def refuse_def Let_def then_do_def)
qed

lemma finish_works:
  assumes "host_ok H" "i < length (http_conns s)" "wf_tx (http_conns s ! i)" "settled (http_conns s ! i)"
    and "\<And>t. wf_http i t \<Longrightarrow> work_left i t < k \<Longrightarrow> works (proc t)" "4 \<le> used" "used \<le> length (hc_rx (http_conns s ! i))"
    "2 * length (hc_rx (http_conns s ! i)) \<le> k"
  shows "works (finish_request proc H i used s)"
proof -
  let ?u = "upd_conn i (\<lambda>c. c\<lparr>hc_rx := drop used (hc_rx c), hc_rx_tail := drop (length (hc_rx c) - used) (rx_text c), hc_hdr_done := False\<rparr>) s"
  have u: "i < length (http_conns ?u)" "wf_tx (http_conns ?u ! i)" "settled (http_conns ?u ! i)" "length (hc_rx (http_conns ?u ! i)) + 4 \<le> length (hc_rx (http_conns s ! i))"
    "\<not> hc_hdr_done (http_conns ?u ! i)"
    using assms(2-4,6,7) by (auto simp: settled_def wf_tx_def)
  obtain t where t: "conn_pump proc H i ?u = Ret True t" "length (http_conns t) = length (http_conns ?u)" "wf_tx (http_conns t ! i)"
    "closed_conn (http_conns t ! i) \<or> rx_same (http_conns ?u ! i) (http_conns t ! i)" using conn_pump_settled [OF assms(1) u(1-3), of proc] by blast
  have "wf_http i t" "work_left i t < k"
    using t(2-4) u assms(2,6,7,8) by (auto simp: wf_http_def work_left_def closed_conn_def rx_same_def)
  then have "works (proc t)" by (rule assms(5))
  then show ?thesis using t(1) by (simp add: finish_request_def Let_def then_do_def works_def)
qed

lemma dispatch_finish_works:
  assumes "host_ok H" "wf_http i s" "\<And>t. wf_http i t \<Longrightarrow> work_left i t < k \<Longrightarrow> works (proc t)" "4 \<le> used" "used \<le> length (hc_rx (http_conns s ! i))"
    "2 * length (hc_rx (http_conns s ! i)) \<le> k"
  shows "works (then_do (dispatch H i method path query body s) (finish_request proc H i used))"
proof -
  have i: "i < length (http_conns s)" "wf_tx (http_conns s ! i)" using assms(2) by (simp_all add: wf_http_def)
  have a: "answers i s (dispatch H i method path query body s)" using dispatch_answers [OF i] assms(1) by (simp add: host_ok_def)
  show ?thesis
  proof (cases "dispatch H i method path query body s")
    case (Ret ok t)
    then have "ok" "length (http_conns t) = length (http_conns s)" "answered (http_conns s ! i) (http_conns t ! i)" using a by (auto simp: answers_def)
    then show ?thesis using finish_works [OF assms(1), of i t k proc used] assms(3-6) i Ret
      by (auto simp: then_do_def answered_def)
  next
    case (Reset t)
    then show ?thesis by (simp add: then_do_def works_def)
  qed
qed

lemma ws_handshake_total: "ws_handshake req n m \<noteq> None"
  by (simp add: ws_handshake_def sha1_two Let_def split: option.split)

lemma ws_handshake_short: "ws_handshake req n m = Some (Some resp) \<Longrightarrow> length resp < m \<and> resp \<noteq> []"
  by (auto simp: ws_handshake_def Let_def split: option.splits if_splits)

lemma ws_upgrade_works:
  assumes "host_ok H" "wf_http i s" "\<And>t. wf_http i t \<Longrightarrow> work_left i t < k \<Longrightarrow> works (proc t)" "hc_hdr_done (http_conns s ! i)"
    "2 * length (hc_rx (http_conns s ! i)) \<le> k"
  shows "works (ws_upgrade proc H i he s)"
proof -
  let ?c = "http_conns s ! i"
  have i: "i < length (http_conns s)" "wf_tx ?c" "4 \<le> hc_body_off ?c" "hc_body_off ?c \<le> length (hc_rx ?c)" using assms(2,4) by (simp_all add: wf_http_def)
  obtain r where r: "(if ws_active (hd_ws s) then Some None else ws_handshake (rx_text ?c) he 160) = Some r"
    using ws_handshake_total [of "rx_text ?c" he 160] by (cases "ws_active (hd_ws s)") auto
  show ?thesis
  proof (cases r)
    case None
    let ?t = "upd_conn i (respond_json_err (http_now H s) ''503 Service Unavailable'' ''ws busy'') s"
    have "answered ?c (http_conns ?t ! i)" using i by simp
    then show ?thesis using finish_works [OF assms(1), of i ?t k proc "hc_body_off ?c"] assms(3,5) i r None
      by (simp add: ws_upgrade_def Let_def answered_def)
  next
    case (Some resp)
    then have rs: "length resp < 160" "resp \<noteq> []" using r ws_handshake_short by (auto split: if_splits)
    define s1 where "s1 = upd_conn i (\<lambda>c. c\<lparr>hc_hdr := bytes_of resp, hc_hdr_sent := 0, hc_body := [], hc_written := 0, hc_acked := 0,
                    hc_rsp_total := of_nat (length resp), hc_kind := RESP_MEM, hc_keep_alive := True, hc_t_ack := http_now H s, hc_is_ws := True,
                    hc_rx := drop (hc_body_off c) (hc_rx c), hc_rx_tail := drop (length (hc_rx c) - hc_body_off c) (rx_text c)\<rparr>) (s\<lparr>hd_ws_conn := Some i\<rparr>)"
    have l1: "http_conns s1 = http_conns (upd_conn i (\<lambda>c. c\<lparr>hc_hdr := bytes_of resp, hc_hdr_sent := 0, hc_body := [], hc_written := 0, hc_acked := 0,
                    hc_rsp_total := of_nat (length resp), hc_kind := RESP_MEM, hc_keep_alive := True, hc_t_ack := http_now H s, hc_is_ws := True,
                    hc_rx := drop (hc_body_off c) (hc_rx c), hc_rx_tail := drop (length (hc_rx c) - hc_body_off c) (rx_text c)\<rparr>) s)" by (simp add: s1_def upd_conn_def)
    have "unat (of_nat (length resp) :: u32) = length resp" using rs by (subst unat_of_nat) simp
    then have "of_nat (length resp) \<noteq> (0 :: u32)" using rs(2) by (metis length_0_conv unat_0)
    then have c1: "i < length (http_conns s1)" "wf_tx (http_conns s1 ! i)" "settled (http_conns s1 ! i)" "hd_ws_conn s1 = Some i"
      using i rs unfolding l1 by (simp_all add: wf_tx_def settled_def HTTP_HDR_MAX_def bytes_of_def s1_def)
    let ?x = "case hc_pcb ?c of Some p \<Rightarrow> ws_attach H p (bytes_of (drop (hc_body_off ?c) (hc_rx ?c))) (hd_ws s1) | None \<Rightarrow> Ret () (hd_ws s1)"
    have "works (then_do (after_ws H ?x s1) (\<lambda>t. conn_pump proc H i (upd_conn i (\<lambda>c. c\<lparr>hc_rx := [], hc_rx_tail := rx_text c, hc_hdr_done := False\<rparr>) t)))"
    proof (cases "after_ws H ?x s1")
      case (Ret ok t)
      have "ok \<and> i < length (http_conns t) \<and> wf_tx (http_conns t ! i) \<and> settled (http_conns t ! i)"
      proof (cases ?x)
        case (Ret z u)
        let ?s2 = "s1\<lparr>hd_ws := u\<lparr>ws_ended := False\<rparr>, hd_ws_conn := None\<rparr>"
        have "i < length (http_conns ?s2)" "wf_tx (http_conns ?s2 ! i)" using c1 by simp_all
        note cl = conn_close_result [OF this(1), of H] and w = this(2)
        show ?thesis using \<open>after_ws H ?x s1 = Ret ok t\<close> Ret c1 cl(1,2) cl(3) [OF w]
          by (auto simp: after_ws_def ws_closed_cb_def closed_conn_def settled_def split: if_splits)
      next
        case (Reset u)
        then show ?thesis using \<open>after_ws H ?x s1 = Ret ok t\<close> by (simp add: after_ws_def)
      qed
      then have p: "ok" "i < length (http_conns t)" "wf_tx (http_conns (upd_conn i (\<lambda>c. c\<lparr>hc_rx := [], hc_rx_tail := rx_text c, hc_hdr_done := False\<rparr>) t) ! i)"
        "settled (http_conns (upd_conn i (\<lambda>c. c\<lparr>hc_rx := [], hc_rx_tail := rx_text c, hc_hdr_done := False\<rparr>) t) ! i)" by (auto simp: wf_tx_def settled_def)
      from conn_pump_settled [OF assms(1) _ p(3,4), of proc] p(1,2) show ?thesis by (auto simp: then_do_def works_def Ret)
    next
      case (Reset t)
      then show ?thesis by (simp add: then_do_def works_def)
    qed
    then show ?thesis unfolding ws_upgrade_def Let_def r Some by (simp only: option.case s1_def)
  qed
qed

lemma find_hdr_end_bound: "find_hdr_end buf = Some he \<Longrightarrow> he + 4 \<le> length buf"
proof (induction buf arbitrary: he rule: find_hdr_end.induct)
  case (1 buf)
  then show ?case by (subst (asm) (2) find_hdr_end.simps) (fastforce split: if_splits)
qed

lemma process_step_works:
  assumes "host_ok H" "wf_http i s" "work_left i s \<le> k" "\<And>t. wf_http i t \<Longrightarrow> work_left i t < k \<Longrightarrow> works (proc t)"
  shows "works (process_step proc H i s)"
proof -
  let ?c = "http_conns s ! i"
  have i: "i < length (http_conns s)" "wf_tx ?c" using assms(2) by (simp_all add: wf_http_def)
  have k: "2 * length (hc_rx ?c) \<le> k" using assms(3) by (simp add: work_left_def)
  have t: "works (Ret True s)" by (simp add: works_def)
  obtain n meth target where sp: "split_req_line (rx_text ?c) 8 96 = (n, meth, target)" by (metis prod_cases3)
  obtain path query where tg: "split_target target = (path, query)" by fastforce
  show ?thesis
  proof (cases "hc_kind ?c \<noteq> RESP_NONE \<or> hc_hdr_done ?c")
    case True
    have "works (then_do (dispatch H i meth path query (take (unat (hc_content_len ?c)) (drop (hc_body_off ?c) (hc_rx ?c))) s)
       (finish_request proc H i (hc_body_off ?c + unat (hc_content_len ?c))))" if "hc_hdr_done ?c" "unat (hc_content_len ?c) \<le> length (hc_rx ?c) - hc_body_off ?c"
      using that assms(2) k by (intro dispatch_finish_works [OF assms(1,2,4)]) (auto simp: wf_http_def)
    then show ?thesis using True sp tg t by (auto simp: process_step_def Let_def)
  next
    case False
    then have k1: "2 * length (hc_rx ?c) < k" using assms(3) by (simp add: work_left_def)
    show ?thesis
    proof (cases "find_hdr_end (hc_rx ?c)")
      case None
      then show ?thesis using False t refuse_works [OF assms(1,2), of "''header too large''" proc True] by (auto simp: process_step_def Let_def)
    next
      case (Some he)
      define cl :: u16 where "cl = (case hdr_find (rx_text ?c) he ''Content-Length:'' of
         None \<Rightarrow> 0 | Some v \<Rightarrow> (case strtoul_10 v of None \<Rightarrow> 0 | Some (x, _) \<Rightarrow> ucast x))"
      define u where "u = upd_conn i (\<lambda>c. c\<lparr>hc_content_len := cl, hc_cli_close := hdr_find (rx_text c) he ''Connection: close'' \<noteq> None,
         hc_body_off := he + 4, hc_hdr_done := True\<rparr>) s"
      have u: "wf_http i u" "work_left i u < k" "hc_rx (http_conns u ! i) = hc_rx ?c" "hc_hdr_done (http_conns u ! i)"
        using i find_hdr_end_bound [OF Some] k1 by (auto simp: wf_http_def work_left_def u_def wf_tx_def)
      have "works (then_do (dispatch H i m path query [] u) (finish_request proc H i (he + 4)))" for m
        using u k find_hdr_end_bound [OF Some] by (intro dispatch_finish_works [OF assms(1) u(1) assms(4)]) auto
      moreover have "works (ws_upgrade proc H i he u)" using u k by (intro ws_upgrade_works [OF assms(1) u(1) assms(4)]) auto
      moreover have "works (proc u)" using assms(4) u by blast
      moreover have "works (refuse proc H i False ''body too large'' u)" "works (refuse proc H i False ''bad request'' s)"
        using refuse_works [OF assms(1)] u(1) assms(2) by auto
      ultimately show ?thesis using False Some sp tg
        by (simp add: process_step_def Let_def cl_def [symmetric] u_def [symmetric] del: not_None_eq)
    qed
  qed
qed

text \<open>
  (C18) Every call of the request loop ends. Whatever bytes a client has sent, however many requests they hold and whatever the network and the
  file system do, the loop returns after at most twice as many turns as there are bytes, plus three; no inner loop runs without progress and
  no document is printed past its buffer. The file system is only required to read no more than it was asked for, with sizes below 2 GiB, and the
  start page to be smaller than 2 GiB.
\<close>

theorem http_requests_end:
  assumes "host_ok H" "wf_http i s" "http_fuel i s \<le> k"
  shows "http_process_rx k H i s \<noteq> Ret False s'"
proof -
  have "works (http_process_rx k H i t)" if "wf_http i t" "work_left i t < k" for t k
    using that
  proof (induction k arbitrary: t)
    case (Suc k)
    show ?case unfolding http_process_rx.simps
      by (rule process_step_works [OF assms(1) Suc.prems(1)]) (use Suc in auto)
  qed simp
  from this [OF assms(2), of k] assms(3) show ?thesis by (simp add: works_def work_left_def http_fuel_def)
qed

section \<open>Reading requests change nothing\<close>

text \<open>
  The device as the rest of the firmware sees it: the registers, the clock as it runs in memory, the record of the configuration store and the
  restart flag. The world behind the drivers is left out, since a request may open a file, bring buffered history data to it and send bytes;
  what a request does to the flash cells and to the registers of the real-time clock is therefore not part of this comparison.
\<close>

definition dev_kept :: "'w dev \<Rightarrow> 'w dev \<Rightarrow> bool" where
  "dev_kept d e \<longleftrightarrow> holding_reg e = holding_reg d \<and> input_reg e = input_reg d \<and> clock e = clock d \<and> store e = store d
     \<and> reboot_pending e = reboot_pending d"

lemma dev_kept_simps [simp]: "dev_kept d d" "dev_kept d (d\<lparr>hist := h, world := w\<rparr>)" "dev_kept d (d\<lparr>world := w\<rparr>)"
  by (simp_all add: dev_kept_def)

lemma web_hist_close_kept: "dev_kept d (web_dev s) \<Longrightarrow> dev_kept d (web_dev (web_hist_close H s))"
  by (auto simp: web_hist_close_def Let_def dev_kept_def split: prod.split)

text \<open>
  (C20) A request that is not a \<open>POST\<close> never changes the registers, the clock, the saved configuration or the restart flag, whatever its method, path and
  query, and it never restarts the device.
\<close>

theorem http_get_reads_only:
  assumes "method \<noteq> ''POST''"
  shows "\<exists>ok s'. dispatch H i method path query body s = Ret ok s' \<and> dev_kept (web_dev s) (web_dev s')"
proof -
  define P where "P r \<longleftrightarrow> (\<exists>ok s'. r = Ret ok s' \<and> dev_kept (web_dev s) (web_dev s'))" for r :: "(bool, 'a httpd) outcome"
  have r: "P (reply_with i f t)" if "dev_kept (web_dev s) (web_dev t)" for f t using that by (auto simp: reply_with_def P_def)
  have d: "P (reply_doc H i doc t)" if "dev_kept (web_dev s) (web_dev t)" for doc t
    using that r [OF that] by (auto simp: reply_doc_def P_def split: option.split)
  have w: "dev_kept (web_dev s) (web_dev (set_web_world x s))" for x by (simp add: set_web_world_def)
  have bad: "P (reply_with i f (web_hist_close H t))" if "dev_kept (web_dev s) (web_dev t)" for f t
    by (rule r, rule web_hist_close_kept, rule that)
  have f: "P (Ret ok s)" for ok by (simp add: P_def)
  have h: "P (dispatch_history H i s)"
    unfolding dispatch_history_def Let_def by (auto intro!: r d w f split: option.split)
  have dl: "P (dispatch_download H i query s)"
    unfolding dispatch_download_def Let_def by (auto intro!: r bad split: option.split prod.split bool.split)
  have "P r'" if "dispatch_get H i path query s = Some r'" for r'
    using that h dl unfolding dispatch_get_def Let_def by (auto intro!: r d split: if_splits)
  then have "P (dispatch H i method path query body s)" using assms unfolding dispatch_def by (auto intro!: r split: option.split)
  then show ?thesis by (simp add: P_def)
qed

section \<open>One download at a time\<close>

text \<open>
  A download request with a bad file name ends the download of another client. The server has one open file, and the error path of the request
  closes it without asking whose it is: when the other connection needs the next piece of its file, the read fails and the connection is closed
  although its client has received only a part.
\<close>

theorem http_download_cut_by_other:
  assumes "Option.bind query (\<lambda>q. url_query_get q ''name'' 32) = None \<or> (\<exists>n. Option.bind query (\<lambda>q. url_query_get q ''name'' 32) = Some n \<and> \<not> history_web_name_valid n)"
    and "i < length (http_conns s)" "j < length (http_conns s)" "i \<noteq> j" "hc_pcb (http_conns s ! j) = Some p" "hc_kind (http_conns s ! j) = RESP_FILE"
    and "hc_hdr_sent (http_conns s ! j) = length (hc_hdr (http_conns s ! j))"
    and "hc_dl_chunk_off (http_conns s ! j) = hc_dl_chunk_len (http_conns s ! j)" "hc_dl_sent (http_conns s ! j) < hc_dl_size (http_conns s ! j)"
    and "\<forall>w. hc_written (http_conns s ! j) - hc_acked (http_conns s ! j) < 4 * ucast (tcp_mss H p w)"
  shows "\<exists>s1 s2. dispatch H i ''GET'' ''/api/history/download'' query body s = Ret True s1 \<and> conn_pump_send H j s1 = ((True, False), s2)
    \<and> hc_pcb (http_conns s2 ! j) = None"
proof -
  let ?t = "web_hist_close H s"
  let ?s1 = "upd_conn i (respond_json_err (http_now H ?t) ''400 Bad Request'' ''invalid file name'') ?t"
  have d: "dispatch H i ''GET'' ''/api/history/download'' query body s = Ret True ?s1"
    using assms(1) by (auto simp: dispatch_def dispatch_get_def dispatch_download_def Let_def reply_with_def)
  let ?c = "http_conns s ! j"
  have c: "http_conns ?s1 ! j = ?c" "j < length (http_conns ?s1)" using assms(3,4) by (simp_all add: upd_conn_def)
  define h where "h = hist (web_dev ?s1)"
  have "\<not> web_fp_open h" unfolding h_def by (auto simp: web_hist_close_def history_web_close_def Let_def)
  then have "next_chunk (lfs (ho_board H)) h ?c w = (Some TX_CLOSED, ?c, w)" for w using assms(8,9) by (simp add: next_chunk_def history_web_read_def)
  then have "send_file H p (tcp_mss H p x) h ?c w = (TX_CLOSED, ?c, w)" for x w using assms(10) by (subst send_file.simps) simp
  moreover have "send_hdr H p ?c w = (TX_WAIT, ?c, w)" for w using assms(7) by (simp add: send_hdr.simps)
  ultimately have pf: "pump_file H j p ?s1 = (True, conn_close H j (set_web_world (web_world ?s1) (upd_conn j (\<lambda>_. ?c) ?s1)))"
    using assms(7) c(1) unfolding pump_file_def Let_def h_def [symmetric] by (simp add: store_tx_def Let_def)
  let ?s2 = "conn_close H j (set_web_world (web_world ?s1) (upd_conn j (\<lambda>_. ?c) ?s1))"
  have "hc_pcb (http_conns ?s2 ! j) = None" using conn_close_result(2) [of j "set_web_world (web_world ?s1) (upd_conn j (\<lambda>_. ?c) ?s1)" H] c(2)
    by (simp add: closed_conn_def)
  moreover from this have "conn_pump_send H j ?s1 = ((True, False), ?s2)"
    using assms(5,6) pf c(1) unfolding conn_pump_send_def Let_def by simp
  ultimately show ?thesis using d by blast
qed

section \<open>The length of a body\<close>

text \<open>
  The content length is kept in 16 bits before it is checked against the limit of 128: a request that announces 65536 bytes or a little more passes as one with
  the remainder, so that it is executed with that much of its body and the rest is taken for the next request.
\<close>

theorem http_content_length_wraps:
  assumes "i < length (http_conns s)" "hc_kind (http_conns s ! i) = RESP_NONE" "\<not> hc_hdr_done (http_conns s ! i)"
    and "find_hdr_end (hc_rx (http_conns s ! i)) = Some he" "split_req_line (rx_text (http_conns s ! i)) 8 96 = (2, method, target)" "method \<noteq> ''GET''"
    and "hdr_find (rx_text (http_conns s ! i)) he ''Content-Length:'' = Some v" "strtoul_10 v = Some (x, e)" "unat x mod 65536 \<le> 128"
  shows "\<exists>s'. process_step proc H i s = proc s' \<and> unat (hc_content_len (http_conns s' ! i)) = unat x mod 65536 \<and> hc_hdr_done (http_conns s' ! i)"
proof -
  have u: "unat (ucast x :: u16) = unat x mod 65536" by (simp add: unsigned_ucast_eq take_bit_eq_mod)
  then have "\<not> (ucast x :: u16) > 128" using assms(9) by (simp add: word_less_nat_alt)
  then show ?thesis using assms u by (auto simp: process_step_def Let_def)
qed

section \<open>The bytes of a response\<close>

text \<open>
  The bytes that a connection still has to send: the rest of the header, then the rest of the body or, for a file, what is left of the piece
  that was read last and the unread part of the file (\<open>unread\<close>) up to the size that was announced.
\<close>

definition tx_rest :: "http_conn \<Rightarrow> u8 list \<Rightarrow> u8 list" where
  "tx_rest c unread = drop (hc_hdr_sent c) (hc_hdr c) @
     (if hc_kind c = RESP_FILE
      then drop (hc_dl_chunk_off c) (take (hc_dl_chunk_len c) (hc_dl_chunk c)) @ take (hc_dl_size c - hc_dl_sent c) unread
      else drop (hc_body_sent c) (hc_body c))"

text \<open>The counters of a response that is being sent agree with its positions.\<close>

definition tx_ok :: "http_conn \<Rightarrow> bool" where
  "tx_ok c \<longleftrightarrow> hc_hdr_sent c \<le> length (hc_hdr c) \<and>
     (if hc_kind c = RESP_FILE
      then hc_dl_chunk_off c \<le> hc_dl_chunk_len c \<and> hc_dl_chunk_len c \<le> length (hc_dl_chunk c) \<and> hc_dl_sent c \<le> hc_dl_size c \<and>
           unat (hc_written c) + (hc_dl_chunk_len c - hc_dl_chunk_off c) = hc_hdr_sent c + hc_dl_sent c \<and>
           unat (hc_rsp_total c) = length (hc_hdr c) + hc_dl_size c
      else unat (hc_written c) = hc_hdr_sent c + min (hc_body_sent c) (length (hc_body c)) \<and>
           unat (hc_rsp_total c) = length (hc_hdr c) + length (hc_body c))"

lemma tx_ok_written: "tx_ok c \<Longrightarrow> hc_kind c \<noteq> RESP_NONE \<Longrightarrow> hc_rsp_total c \<le> hc_written c \<Longrightarrow> tx_rest c unread = []"
  by (auto simp: tx_ok_def tx_rest_def word_le_nat_alt split: if_splits)

lemma written_add:
  assumes "unat (a :: u32) + n \<le> unat (t :: u32)"
  shows "unat (a + of_nat n) = unat a + n"
proof -
  have "unat a + n < 2 ^ 32" using assms by (auto intro: le_less_trans)
  then show ?thesis by (simp add: unat_word_ariths unat_of_nat)
qed

lemma tx_ok_mem_step:
  assumes "tx_ok c" "hc_kind c \<noteq> RESP_FILE" "n \<le> length (if hc_hdr_sent c < length (hc_hdr c) then drop (hc_hdr_sent c) (hc_hdr c) else drop (hc_body_sent c) (hc_body c))"
  shows "tx_ok ((if hc_hdr_sent c < length (hc_hdr c) then c\<lparr>hc_hdr_sent := hc_hdr_sent c + n\<rparr> else c\<lparr>hc_body_sent := hc_body_sent c + n\<rparr>)\<lparr>hc_written := hc_written c + of_nat n\<rparr>)"
proof -
  have "unat (hc_written c + of_nat n) = unat (hc_written c) + n"
    by (rule written_add [of _ _ "hc_rsp_total c"]) (use assms in \<open>auto simp: tx_ok_def split: if_splits\<close>)
  then show ?thesis using assms by (auto simp: tx_ok_def)
qed

lemma tx_ok_hdr_step:
  assumes "tx_ok c" "hc_kind c = RESP_FILE" "hc_hdr_sent c + n \<le> length (hc_hdr c)"
  shows "tx_ok (c\<lparr>hc_hdr_sent := hc_hdr_sent c + n, hc_written := hc_written c + of_nat n\<rparr>)"
proof -
  have "unat (hc_written c + of_nat n) = unat (hc_written c) + n"
    by (rule written_add [of _ _ "hc_rsp_total c"]) (use assms in \<open>auto simp: tx_ok_def\<close>)
  then show ?thesis using assms by (auto simp: tx_ok_def)
qed

lemma tx_ok_file_step:
  assumes "tx_ok c" "hc_kind c = RESP_FILE" "n \<le> hc_dl_chunk_len c - hc_dl_chunk_off c"
  shows "tx_ok (c\<lparr>hc_dl_chunk_off := hc_dl_chunk_off c + n, hc_written := hc_written c + of_nat n\<rparr>)"
proof -
  have "unat (hc_written c + of_nat n) = unat (hc_written c) + n"
    by (rule written_add [of _ _ "hc_rsp_total c"]) (use assms in \<open>auto simp: tx_ok_def\<close>)
  then show ?thesis using assms by (auto simp: tx_ok_def)
qed

lemma chunk_split:
  assumes "n \<le> b - a" "b \<le> length xs"
  shows "take n (drop a (take b xs) @ ys) = take n (drop a xs)" "drop n (drop a (take b xs) @ ys) = drop (a + n) (take b xs) @ ys"
proof -
  have n: "n - length (drop a (take b xs)) = 0" using assms by simp
  show "take n (drop a (take b xs) @ ys) = take n (drop a xs)" unfolding take_append n using assms(1) by (simp add: drop_take)
  show "drop n (drop a (take b xs) @ ys) = drop (a + n) (take b xs) @ ys" unfolding drop_append n by (simp add: add.commute)
qed

text \<open>
  What the server relies on. \<open>sent p w\<close> are the bytes of the connection \<open>p\<close> that lwIP has accepted: a write that succeeds appends its bytes, nothing
  else changes them. \<open>unread w\<close> is what lies behind the position of the open file: a read that succeeds gives the next bytes, at least one
  unless nothing was asked for or the file is at its end, and moves the position behind them.
\<close>

locale web_stream =
  fixes H :: "'w host" and sent :: "nat \<Rightarrow> 'w \<Rightarrow> u8 list" and unread :: "'w \<Rightarrow> u8 list"
  assumes write_sent: "tcp_write (ho_lwip H) p bs w = (e, w') \<Longrightarrow> sent p w' = (if e = ERR_OK then sent p w @ bs else sent p w)"
    and write_unread: "tcp_write (ho_lwip H) p bs w = (e, w') \<Longrightarrow> unread w' = unread w"
    and output_sent: "sent p (tcp_output (ho_lwip H) p w) = sent p w"
    and output_unread: "unread (tcp_output (ho_lwip H) p w) = unread w"
    and close_sent: "sent p (tcp_close (ho_lwip H) p w) = sent p w"
    and read_sent: "sent p (snd (lfs_file_read (lfs (ho_board H)) web_fp n w)) = sent p w"
    and file_close_sent: "sent p (snd (lfs_file_close (lfs (ho_board H)) web_fp w)) = sent p w"
    and read_next: "lfs_file_read (lfs (ho_board H)) web_fp n w = ((k, bs), w') \<Longrightarrow> 0 \<le> k \<Longrightarrow>
      nat k \<le> n \<and> nat k \<le> length bs \<and> nat k \<le> length (unread w) \<and> take (nat k) bs = take (nat k) (unread w) \<and> unread w' = drop (nat k) (unread w)
      \<and> (k = 0 \<longrightarrow> n = 0 \<or> unread w = [])"
begin

text \<open>From one state of the connection to another: the next bytes have gone out, and exactly those are marked.\<close>

definition sends :: "nat \<Rightarrow> http_conn \<Rightarrow> 'w \<Rightarrow> http_conn \<Rightarrow> 'w \<Rightarrow> bool" where
  "sends p c w c' w' \<longleftrightarrow> rx_same c c' \<and> tx_ok c' \<and>
     (\<exists>n. sent p w' = sent p w @ take n (tx_rest c (unread w)) \<and> tx_rest c' (unread w') = drop n (tx_rest c (unread w)))"

lemma sends_refl: "tx_ok c \<Longrightarrow> sends p c w c w"
  unfolding sends_def by (intro conjI exI [of _ 0]) auto

lemma sends_idle: "tx_ok c' \<Longrightarrow> rx_same c c' \<Longrightarrow> sent p w' = sent p w \<Longrightarrow> tx_rest c' (unread w') = tx_rest c (unread w) \<Longrightarrow> sends p c w c' w'"
  unfolding sends_def by (intro conjI exI [of _ 0]) auto

lemma sends_write:
  assumes "tcp_write (ho_lwip H) p bs w = (ERR_OK, w')" "bs = take n (tx_rest c (unread w))" "tx_rest c' (unread w) = drop n (tx_rest c (unread w))"
    and "tx_ok c'" "rx_same c c'"
  shows "sends p c w c' w'"
  unfolding sends_def using assms write_sent [OF assms(1)] write_unread [OF assms(1)] by (intro conjI exI [of _ n]) auto

lemma sends_trans:
  assumes "sends p c w c1 w1" "sends p c1 w1 c2 w2"
  shows "sends p c w c2 w2"
proof -
  obtain n m where n: "sent p w1 = sent p w @ take n (tx_rest c (unread w))" "tx_rest c1 (unread w1) = drop n (tx_rest c (unread w))"
    and m: "sent p w2 = sent p w1 @ take m (tx_rest c1 (unread w1))" "tx_rest c2 (unread w2) = drop m (tx_rest c1 (unread w1))"
    using assms unfolding sends_def by blast
  have "sent p w2 = sent p w @ take (n + m) (tx_rest c (unread w))" "tx_rest c2 (unread w2) = drop (n + m) (tx_rest c (unread w))"
    unfolding take_add using n m by (simp_all add: add.commute)
  then show ?thesis using assms rx_same_trans unfolding sends_def by blast
qed

definition broken :: "nat \<Rightarrow> hist_st \<Rightarrow> bool" where
  "broken p h \<longleftrightarrow> (\<exists>bs w. fst (tcp_write (ho_lwip H) p bs w) = ERR_OTHER) \<or> (\<exists>n w. fst (fst (history_web_read (lfs (ho_board H)) n h w)) < 0)"

text \<open>How a sending loop ends: behind the bytes that it sent, or with a failure after them.\<close>

definition tx_result :: "nat \<Rightarrow> hist_st \<Rightarrow> http_conn \<Rightarrow> 'w \<Rightarrow> tx_end \<times> http_conn \<times> 'w \<Rightarrow> bool" where
  "tx_result p h c w r \<longleftrightarrow> (case r of (e, c', w') \<Rightarrow>
     \<exists>c1 w1. sends p c w c1 w1 \<and> sent p w' = sent p w1 \<and> rx_same c c' \<and> (if e = TX_CLOSED then broken p h else c' = c1 \<and> w' = w1))"

lemma tx_result_sends: "e \<noteq> TX_CLOSED \<Longrightarrow> tx_result p h c w (e, c', w') \<longleftrightarrow> sends p c w c' w'"
  by (auto simp: tx_result_def sends_def)

lemma tx_result_trans: "sends p c w c1 w1 \<Longrightarrow> tx_result p h c1 w1 r \<Longrightarrow> tx_result p h c w r"
proof -
  assume a: "sends p c w c1 w1" and "tx_result p h c1 w1 r"
  then obtain e c' w' c2 w2 where b: "r = (e, c', w')" "sends p c1 w1 c2 w2" "sent p w' = sent p w2" "rx_same c1 c'"
      "if e = TX_CLOSED then broken p h else c' = c2 \<and> w' = w2" unfolding tx_result_def by (cases r) fastforce
  have "sends p c w c2 w2" by (rule sends_trans [OF a b(2)])
  moreover have "rx_same c c'" using a b(4) rx_same_trans unfolding sends_def by blast
  ultimately show ?thesis using b(3,5) unfolding tx_result_def b(1) by auto
qed

lemma tx_result_mem_full: "tx_ok c \<Longrightarrow> tcp_write (ho_lwip H) p bs w = (ERR_MEM, w') \<Longrightarrow> tx_result p h c w (TX_WAIT, c, w')"
  by (subst tx_result_sends) (auto intro!: sends_idle simp: write_sent write_unread)

lemma tx_result_failed: "tx_ok c \<Longrightarrow> tcp_write (ho_lwip H) p bs w = (ERR_OTHER, w') \<Longrightarrow> tx_result p h c w (TX_CLOSED, c, w')"
proof -
  assume ok: "tx_ok c" and wr: "tcp_write (ho_lwip H) p bs w = (ERR_OTHER, w')"
  have "broken p h" unfolding broken_def using wr by (metis fst_conv)
  then show ?thesis using sends_refl [OF ok] write_sent [OF wr] by (auto simp: tx_result_def)
qed

lemma send_mem_sends: "tx_ok c \<Longrightarrow> hc_kind c \<noteq> RESP_FILE \<Longrightarrow> tx_result p h c w (send_mem H p c w)"
proof (induction "length (hc_hdr c) - hc_hdr_sent c + (length (hc_body c) - hc_body_sent c)" arbitrary: c w rule: less_induct)
  case less
  let ?h = "hc_hdr_sent c < length (hc_hdr c)"
  let ?src = "if ?h then drop (hc_hdr_sent c) (hc_hdr c) else drop (hc_body_sent c) (hc_body c)"
  let ?n = "min (length ?src) (unat (tcp_sndbuf H p w))"
  let ?c = "(if ?h then c\<lparr>hc_hdr_sent := hc_hdr_sent c + ?n\<rparr> else c\<lparr>hc_body_sent := hc_body_sent c + ?n\<rparr>)\<lparr>hc_written := hc_written c + of_nat ?n\<rparr>"
  show ?case
  proof (cases "(?h \<or> hc_body_sent c < length (hc_body c)) \<and> unat (tcp_sndbuf H p w) \<noteq> 0")
    case True
    obtain x w1 where wr: "tcp_write (ho_lwip H) p (take ?n ?src) w = (x, w1)" by fastforce
    show ?thesis
    proof (cases x)
      case ERR_OK
      have ok: "tx_ok ?c" using tx_ok_mem_step [OF less.prems, of ?n] by simp
      have "sends p c w ?c w1"
      proof (rule sends_write [OF wr [unfolded ERR_OK]])
        show "take ?n ?src = take ?n (tx_rest c (unread w))" using True less.prems by (simp add: tx_rest_def)
        show "tx_rest ?c (unread w) = drop ?n (tx_rest c (unread w))" using True less.prems by (simp add: tx_rest_def add.commute)
      qed (use ok in \<open>auto simp: rx_same_def\<close>)
      moreover have "tx_result p h ?c w1 (send_mem H p ?c w1)" by (rule less.hyps [OF _ ok]) (use True less.prems in auto)
      ultimately have "tx_result p h c w (send_mem H p ?c w1)" by (rule tx_result_trans)
      moreover have "send_mem H p c w = send_mem H p ?c w1" using True wr ERR_OK by (subst send_mem.simps) (simp add: Let_def)
      ultimately show ?thesis by simp
    next
      case ERR_MEM
      then have "send_mem H p c w = (TX_WAIT, c, w1)" using True wr by (subst send_mem.simps) (simp add: Let_def)
      then show ?thesis using tx_result_mem_full [OF less.prems(1)] wr ERR_MEM by simp
    next
      case ERR_OTHER
      then have "send_mem H p c w = (TX_CLOSED, c, w1)" using True wr by (subst send_mem.simps) (simp add: Let_def)
      then show ?thesis using tx_result_failed [OF less.prems(1)] wr ERR_OTHER by simp
    qed
  next
    case False
    then have "send_mem H p c w = (TX_WAIT, c, w)" by (subst send_mem.simps) (auto simp: Let_def)
    then show ?thesis using sends_refl [OF less.prems(1)] by (simp add: tx_result_sends)
  qed
qed

lemma send_hdr_sends: "tx_ok c \<Longrightarrow> hc_kind c = RESP_FILE \<Longrightarrow> tx_result p h c w (send_hdr H p c w)"
proof (induction "length (hc_hdr c) - hc_hdr_sent c" arbitrary: c w rule: less_induct)
  case less
  let ?n = "min (length (hc_hdr c) - hc_hdr_sent c) (unat (tcp_sndbuf H p w))"
  let ?bs = "take ?n (drop (hc_hdr_sent c) (hc_hdr c))"
  let ?c = "c\<lparr>hc_hdr_sent := hc_hdr_sent c + ?n, hc_written := hc_written c + of_nat ?n\<rparr>"
  show ?case
  proof (cases "hc_hdr_sent c < length (hc_hdr c) \<and> unat (tcp_sndbuf H p w) \<noteq> 0")
    case True
    obtain x w1 where wr: "tcp_write (ho_lwip H) p ?bs w = (x, w1)" by fastforce
    show ?thesis
    proof (cases x)
      case ERR_OK
      have ok: "tx_ok ?c" by (rule tx_ok_hdr_step [OF less.prems]) (use True in auto)
      have "sends p c w ?c w1"
      proof (rule sends_write [OF wr [unfolded ERR_OK]])
        show "?bs = take ?n (tx_rest c (unread w))" "tx_rest ?c (unread w) = drop ?n (tx_rest c (unread w))"
          using True less.prems by (auto simp: tx_rest_def add.commute)
      qed (use ok in \<open>auto simp: rx_same_def\<close>)
      moreover have "tx_result p h ?c w1 (send_hdr H p ?c w1)" by (rule less.hyps [OF _ ok]) (use True less.prems in auto)
      ultimately have "tx_result p h c w (send_hdr H p ?c w1)" by (rule tx_result_trans)
      moreover have "send_hdr H p c w = send_hdr H p ?c w1" using True wr ERR_OK by (subst send_hdr.simps) (simp add: Let_def)
      ultimately show ?thesis by simp
    next
      case ERR_MEM
      then have "send_hdr H p c w = (TX_WAIT, c, w1)" using True wr by (subst send_hdr.simps) (simp add: Let_def)
      then show ?thesis using tx_result_mem_full [OF less.prems(1)] wr ERR_MEM by simp
    next
      case ERR_OTHER
      then have "send_hdr H p c w = (TX_CLOSED, c, w1)" using True wr by (subst send_hdr.simps) (simp add: Let_def)
      then show ?thesis using tx_result_failed [OF less.prems(1)] wr ERR_OTHER by simp
    qed
  next
    case False
    then have "send_hdr H p c w = (TX_WAIT, c, w)" by (subst send_hdr.simps) (auto simp: Let_def)
    then show ?thesis using sends_refl [OF less.prems(1)] by (simp add: tx_result_sends)
  qed
qed

text \<open>Reading the next piece moves bytes from the unread part of the file to the piece, and no others.\<close>

lemma next_chunk_sends:
  assumes "tx_ok c" "hc_kind c = RESP_FILE" "hc_hdr_sent c = length (hc_hdr c)" "next_chunk (lfs (ho_board H)) h c w = (r, c', w')"
  shows "tx_result p h c w (case r of None \<Rightarrow> TX_WAIT | Some e \<Rightarrow> e, c', w')"
proof (cases "hc_dl_chunk_off c = hc_dl_chunk_len c \<and> hc_dl_sent c < hc_dl_size c")
  case True
  let ?want = "min (hc_dl_size c - hc_dl_sent c) HTTP_DL_CHUNK"
  obtain k bs w1 where rd: "history_web_read (lfs (ho_board H)) ?want h w = ((k, bs), w1)" by (metis prod_cases3 prod.collapse)
  have want: "?want \<le> 512" "?want \<noteq> 0" "?want \<le> hc_dl_size c - hc_dl_sent c" using True by (auto simp: HTTP_DL_CHUNK_def)
  have s: "sent p w1 = sent p w" using rd read_sent [of p ?want w] by (auto simp: history_web_read_def split: if_splits)
  show ?thesis
  proof (cases "k < 0")
    case neg: True
    then have "r = Some TX_CLOSED" "c' = c" "w' = w1" using assms(4) True rd by (auto simp: next_chunk_def)
    moreover have "broken p h" unfolding broken_def using rd neg by (metis fst_conv)
    ultimately show ?thesis using s sends_refl [OF assms(1), of p w] by (auto simp: tx_result_def)
  next
    case pos: False
    then have "lfs_file_read (lfs (ho_board H)) web_fp ?want w = ((k, bs), w1)" using rd by (simp add: history_web_read_def split: if_splits)
    from read_next [OF this] pos have n: "nat k \<le> ?want" "nat k \<le> length bs" "nat k \<le> length (unread w)" "take (nat k) bs = take (nat k) (unread w)"
      "unread w1 = drop (nat k) (unread w)" "k = 0 \<longrightarrow> unread w = []" using want(2) by auto
    show ?thesis
    proof (cases "k = 0")
      case zero: True
      let ?c = "c\<lparr>hc_rsp_total := of_nat (length (hc_hdr c)) + of_nat (hc_dl_sent c), hc_dl_size := hc_dl_sent c\<rparr>"
      have r: "r = Some TX_WAIT" "c' = ?c" "w' = w1" using assms(4) True rd zero by (auto simp: next_chunk_def)
      have t: "unat (of_nat (length (hc_hdr c)) + of_nat (hc_dl_sent c) :: u32) = length (hc_hdr c) + hc_dl_sent c"
      proof -
        have "unat (of_nat (length (hc_hdr c) + hc_dl_sent c) :: u32) = length (hc_hdr c) + hc_dl_sent c"
          using assms(1,2) unsigned_less [of "hc_rsp_total c", where 'a = nat] by (subst unat_of_nat) (simp add: tx_ok_def)
        then show ?thesis by simp
      qed
      have "tx_ok ?c" using assms(1,2) t by (simp add: tx_ok_def)
      then have "sends p c w ?c w1" by (rule sends_idle) (use s n zero assms(2) in \<open>auto simp: rx_same_def tx_rest_def\<close>)
      then show ?thesis unfolding r by (simp add: tx_result_sends)
    next
      case more: False
      let ?c = "c\<lparr>hc_dl_chunk := bs, hc_dl_chunk_len := unat (of_int k :: u16), hc_dl_chunk_off := 0, hc_dl_sent := hc_dl_sent c + nat k\<rparr>"
      have r: "r = None" "c' = ?c" "w' = w1" using assms(4) True rd pos more by (auto simp: next_chunk_def)
      have u: "unat (of_int k :: u16) = nat k"
      proof -
        have "of_int k = (of_nat (nat k) :: u16)" using pos by simp
        moreover have "nat k \<le> 512" using n(1) want(1) by (rule le_trans)
        ultimately show ?thesis by (simp add: unat_of_nat)
      qed
      have ok: "tx_ok ?c" using assms(1,2) True n(1,2) want(3) u by (auto simp: tx_ok_def)
      have "take (hc_dl_size c - hc_dl_sent c) (unread w) = take (nat k) (unread w) @ take (hc_dl_size c - (hc_dl_sent c + nat k)) (drop (nat k) (unread w))"
        using n(1) want(3) by (metis diff_diff_left le_add_diff_inverse le_trans take_add)
      then have "sends p c w ?c w1" using True ok s n u assms(2) by (intro sends_idle) (auto simp: rx_same_def tx_rest_def)
      then show ?thesis unfolding r by (simp add: tx_result_sends)
    qed
  qed
next
  case False
  then have "c' = c" "w' = w" "r = None \<or> r = Some TX_WAIT" using assms(4) by (auto simp: next_chunk_def split: if_splits)
  then show ?thesis using sends_refl [OF assms(1)] by (auto simp: tx_result_sends)
qed

lemma send_file_sends:
  "tx_ok c \<Longrightarrow> hc_kind c = RESP_FILE \<Longrightarrow> hc_hdr_sent c = length (hc_hdr c) \<Longrightarrow> tx_result p h c w (send_file H p mss h c w)"
proof (induction "4 * unat mss - unat (hc_written c - hc_acked c)" arbitrary: c w rule: less_induct)
  case less
  show ?case
  proof (cases "hc_written c - hc_acked c < 4 * ucast mss")
    case win: True
    obtain r c1 w1 where nc: "next_chunk (lfs (ho_board H)) h c w = (r, c1, w1)" by (metis prod_cases3)
    note ch = next_chunk_sends [OF less.prems nc, of p]
    show ?thesis
    proof (cases r)
      case (Some e)
      then show ?thesis using ch win nc by (subst send_file.simps) simp
    next
      case None
      then have s1: "sends p c w c1 w1" using ch by (simp add: tx_result_sends)
      have k1: "tx_ok c1" "hc_kind c1 = RESP_FILE" using s1 less.prems by (auto simp: sends_def rx_same_def)
      have hd: "hc_hdr_sent c1 = length (hc_hdr c1)" using nc less.prems(3) None by (auto simp: next_chunk_def split: if_splits prod.splits)
      let ?n = "min (hc_dl_chunk_len c1 - hc_dl_chunk_off c1) (unat (tcp_sndbuf H p w1))"
      let ?bs = "take ?n (drop (hc_dl_chunk_off c1) (hc_dl_chunk c1))"
      let ?c = "c1\<lparr>hc_dl_chunk_off := hc_dl_chunk_off c1 + ?n, hc_written := hc_written c1 + of_nat ?n\<rparr>"
      show ?thesis
      proof (cases "?n = 0")
        case True
        then have "\<exists>e. send_file H p mss h c w = (e, c1, w1) \<and> e \<noteq> TX_CLOSED" using win nc None by (subst send_file.simps) (auto simp: Let_def)
        then show ?thesis using s1 by (auto simp: tx_result_sends)
      next
        case n: False
        obtain x w2 where wr: "tcp_write (ho_lwip H) p ?bs w1 = (x, w2)" by fastforce
        have "tx_result p h c1 w1 (send_file H p mss h c w)"
        proof (cases x)
          case ERR_OK
          have ok: "tx_ok ?c" by (rule tx_ok_file_step [OF k1]) simp
          have "sends p c1 w1 ?c w2"
          proof (rule sends_write [OF wr [unfolded ERR_OK]])
            show "?bs = take ?n (tx_rest c1 (unread w1))" "tx_rest ?c (unread w1) = drop ?n (tx_rest c1 (unread w1))"
              using k1 hd chunk_split [of ?n "hc_dl_chunk_len c1" "hc_dl_chunk_off c1" "hc_dl_chunk c1"] by (simp_all add: tx_rest_def tx_ok_def)
          qed (use ok in \<open>auto simp: rx_same_def\<close>)
          moreover have "tx_result p h ?c w2 (send_file H p mss h ?c w2)"
          proof (rule less.hyps [OF _ ok])
            have c: "hc_written c1 = hc_written c" "hc_acked c1 = hc_acked c" using next_chunk_counters [OF nc] by simp_all
            have "?n \<le> 65535" using unat_u16_lt [of "tcp_sndbuf H p w1"] by linarith
            from window_grows [OF win _ this] n c
            show "4 * unat mss - unat (hc_written ?c - hc_acked ?c) < 4 * unat mss - unat (hc_written c - hc_acked c)" by (simp add: add_diff_eq algebra_simps)
          qed (use k1 hd in simp_all)
          ultimately have "tx_result p h c1 w1 (send_file H p mss h ?c w2)" by (rule tx_result_trans)
          moreover have "send_file H p mss h c w = send_file H p mss h ?c w2" using win nc None n wr ERR_OK by (subst send_file.simps) (auto simp: Let_def)
          ultimately show ?thesis by simp
        next
          case ERR_MEM
          then have "send_file H p mss h c w = (TX_WAIT, c1, w2)" using win nc None n wr by (subst send_file.simps) (auto simp: Let_def)
          then show ?thesis using tx_result_mem_full [OF k1(1)] wr ERR_MEM by simp
        next
          case ERR_OTHER
          then have "send_file H p mss h c w = (TX_CLOSED, c1, w2)" using win nc None n wr by (subst send_file.simps) (auto simp: Let_def)
          then show ?thesis using tx_result_failed [OF k1(1)] wr ERR_OTHER by simp
        qed
        then show ?thesis by (rule tx_result_trans [OF s1])
      qed
    qed
  next
    case False
    then show ?thesis using sends_refl [OF less.prems(1)] by (subst send_file.simps) (simp add: tx_result_sends)
  qed
qed

lemma web_hist_close_sent: "sent p (web_world (web_hist_close H s)) = sent p (web_world s)"
  by (auto simp: web_hist_close_def history_web_close_def Let_def web_world_def web_dev_def set_web_dev_def file_close_sent)

lemma conn_close_sent:
  assumes "hc_pcb (http_conns s ! i) = Some p"
  shows "sent p (web_world (conn_close H i s)) = sent p (web_world s)"
proof -
  have d: "web_world (t\<lparr>hd_ws_conn := x, hd_ws := ws_detach (hd_ws t')\<rparr>) = web_world t'" for t t' :: "'w httpd" and x
    by (simp add: web_world_def web_dev_def ws_detach_def)
  show ?thesis using assms by (simp add: conn_close_def Let_def web_hist_close_sent close_sent d)
qed

text \<open>A turn of the sender: the connection as it is after the bytes that went out, or closed because something failed.\<close>

definition pumped :: "nat \<Rightarrow> hist_st \<Rightarrow> http_conn \<Rightarrow> 'w \<Rightarrow> http_conn \<Rightarrow> 'w \<Rightarrow> bool" where
  "pumped p h c w c' w' \<longleftrightarrow> sends p c w c' w' \<or> closed_conn c' \<and> broken p h \<and> (\<exists>n. sent p w' = sent p w @ take n (tx_rest c (unread w)))"

lemma store_tx_pumped:
  assumes "i < length (http_conns s)" "hc_pcb (http_conns s ! i) = Some p" "tx_result p h (http_conns s ! i) (web_world s) r"
    and "store_tx H i p r s = (ok, s')"
  shows "pumped p h (http_conns s ! i) (web_world s) (http_conns s' ! i) (web_world s') \<and> length (http_conns s') = length (http_conns s)"
proof -
  obtain e c w where r: "r = (e, c, w)" by (metis prod_cases3)
  obtain c1 w1 where t: "sends p (http_conns s ! i) (web_world s) c1 w1" "sent p w = sent p w1" "rx_same (http_conns s ! i) c"
    "if e = TX_CLOSED then broken p h else c = c1 \<and> w = w1" using assms(3) unfolding tx_result_def r by blast
  let ?u = "set_web_world w (upd_conn i (\<lambda>_. c) s)"
  show ?thesis
  proof (cases "e = TX_CLOSED")
    case True
    have p: "hc_pcb (http_conns ?u ! i) = Some p" using t(3) assms(1,2) by (simp add: rx_same_def)
    have s': "s' = conn_close H i ?u" using assms(4) True r by (simp add: store_tx_def Let_def)
    show ?thesis unfolding pumped_def s' conn_close_sent [OF p]
      using conn_close_result [of i ?u H] assms(1) t True by (auto simp: sends_def)
  next
    case False
    then have "http_conns s' ! i = c" "length (http_conns s') = length (http_conns s)" "web_world s' = w \<or> web_world s' = tcp_output (ho_lwip H) p w"
      using assms(1,4) r by (cases e; auto simp: store_tx_def Let_def)+
    moreover have "sends p (http_conns s ! i) (web_world s) c w" using t False by simp
    ultimately show ?thesis unfolding pumped_def sends_def by (auto simp: output_sent output_unread)
  qed
qed

lemma pump_pumped:
  assumes "i < length (http_conns s)" "hc_pcb (http_conns s ! i) = Some p" "tx_ok (http_conns s ! i)"
    and "(if hc_kind (http_conns s ! i) = RESP_FILE then pump_file H i p s else store_tx H i p (send_mem H p (http_conns s ! i) (web_world s)) s) = (ok, s')"
  shows "pumped p (hist (web_dev s)) (http_conns s ! i) (web_world s) (http_conns s' ! i) (web_world s') \<and> length (http_conns s') = length (http_conns s)"
proof -
  let ?c = "http_conns s ! i" and ?w = "web_world s" and ?h = "hist (web_dev s)"
  have "\<exists>r. tx_result p ?h ?c ?w r \<and> store_tx H i p r s = (ok, s')"
  proof (cases "hc_kind ?c = RESP_FILE")
    case True
    obtain e c w where sh: "send_hdr H p ?c ?w = (e, c, w)" by (metis prod_cases3)
    have t: "tx_result p ?h ?c ?w (e, c, w)" using send_hdr_sends [OF assms(3) True, of p ?h ?w] sh by simp
    show ?thesis
    proof (cases "e = TX_WAIT \<and> \<not> hc_hdr_sent c < length (hc_hdr c)")
      case F: True
      then have s: "sends p ?c ?w c w" using t by (simp add: tx_result_sends)
      then have k: "tx_ok c" "hc_kind c = RESP_FILE" "hc_hdr_sent c = length (hc_hdr c)" using True F by (auto simp: sends_def rx_same_def tx_ok_def)
      have "tx_result p ?h ?c ?w (send_file H p (tcp_mss H p ?w) ?h c w)" by (rule tx_result_trans [OF s send_file_sends [OF k]])
      moreover have "store_tx H i p (send_file H p (tcp_mss H p ?w) ?h c w) s = (ok, s')" using assms(4) True F sh by (simp add: pump_file_def Let_def)
      ultimately show ?thesis by blast
    next
      case False
      then show ?thesis using assms(4) True sh t by (cases e) (auto simp: pump_file_def Let_def)
    qed
  next
    case False
    then have "store_tx H i p (send_mem H p ?c ?w) s = (ok, s')" using assms(4) by simp
    then show ?thesis using send_mem_sends [OF assms(3) False, of p ?h ?w] by blast
  qed
  then show ?thesis using store_tx_pumped [OF assms(1,2)] by blast
qed

lemma conn_pump_send_sends:
  assumes "i < length (http_conns s)" "hc_pcb (http_conns s ! i) = Some p" "hc_kind (http_conns s ! i) \<noteq> RESP_NONE" "tx_ok (http_conns s ! i)"
    and "conn_pump_send H i s = (r, s')"
  shows "\<exists>n. sent p (web_world s') = sent p (web_world s) @ take n (tx_rest (http_conns s ! i) (unread (web_world s)))
    \<and> (hc_kind (http_conns s' ! i) \<noteq> RESP_NONE \<longrightarrow> tx_ok (http_conns s' ! i)
        \<and> tx_rest (http_conns s' ! i) (unread (web_world s')) = drop n (tx_rest (http_conns s ! i) (unread (web_world s))))
    \<and> (hc_kind (http_conns s' ! i) = RESP_NONE \<longrightarrow> length (tx_rest (http_conns s ! i) (unread (web_world s))) \<le> n
        \<or> hc_pcb (http_conns s' ! i) = None \<and> broken p (hist (web_dev s)))"
proof -
  let ?c = "http_conns s ! i" and ?w = "web_world s"
  obtain ok s1 where s1: "(if hc_kind ?c = RESP_FILE then pump_file H i p s else store_tx H i p (send_mem H p ?c ?w) s) = (ok, s1)" by fastforce
  note pm = pump_pumped [OF assms(1,2,4) s1]
  let ?c1 = "http_conns s1 ! i"
  let ?t = "upd_conn i (\<lambda>c. c\<lparr>hc_kind := RESP_NONE, hc_hdr_done := False\<rparr>) (if hc_kind ?c1 = RESP_FILE then web_hist_close H s1 else s1)"
  let ?done = "ok \<and> hc_pcb ?c1 \<noteq> None \<and> hc_written ?c1 \<ge> hc_rsp_total ?c1 \<and> hc_acked ?c1 \<ge> hc_rsp_total ?c1"
  have s': "s' = (if \<not> ?done then s1 else if \<not> hc_keep_alive ?c1 then conn_close H i ?t else upd_conn i (\<lambda>c. c\<lparr>hc_t_idle := http_now H ?t\<rparr>) ?t)"
    using assms(2,3,5) s1 by (auto simp: conn_pump_send_def Let_def split: resp_kind.splits if_splits)
  show ?thesis
  proof (cases "sends p ?c ?w ?c1 (web_world s1)")
    case True
    then obtain n where n: "sent p (web_world s1) = sent p ?w @ take n (tx_rest ?c (unread ?w))" "tx_rest ?c1 (unread (web_world s1)) = drop n (tx_rest ?c (unread ?w))"
      "tx_ok ?c1" "hc_pcb ?c1 = Some p" "hc_kind ?c1 \<noteq> RESP_NONE" using assms(2,3) unfolding sends_def by (auto simp: rx_same_def)
    show ?thesis
    proof (cases ?done)
      case d: True
      have i: "i < length (http_conns s1)" using pm assms(1) by simp
      have t: "hc_pcb (http_conns ?t ! i) = Some p" "sent p (web_world ?t) = sent p (web_world s1)" "i < length (http_conns ?t)"
        "hc_kind (http_conns ?t ! i) = RESP_NONE" using n(4) i by (simp_all add: web_hist_close_sent)
      have "sent p (web_world s') = sent p (web_world s1)" using d s' conn_close_sent [OF t(1)] t(2) by simp
      moreover have "hc_kind (http_conns s' ! i) = RESP_NONE" using d s' conn_close_result(2) [OF t(3), of H] t(3,4) by (auto simp: closed_conn_def)
      moreover have "drop n (tx_rest ?c (unread ?w)) = []" using n(2) tx_ok_written [OF n(3,5)] d by simp
      ultimately show ?thesis using n(1) by (intro exI [of _ n]) simp
    next
      case False
      then show ?thesis using s' n by (intro exI [of _ n]) simp
    qed
  next
    case False
    then obtain n where "closed_conn ?c1" "broken p (hist (web_dev s))" "sent p (web_world s1) = sent p ?w @ take n (tx_rest ?c (unread ?w))"
      using pm by (auto simp: pumped_def)
    moreover from this have "s' = s1" using s' by (simp add: closed_conn_def)
    ultimately show ?thesis by (intro exI [of _ n]) (simp add: closed_conn_def)
  qed
qed

end

text \<open>A response starts with its counters at zero, whether it comes from memory or from a file, and all of it is still to be sent.\<close>

lemma respond_mem_tx_ok:
  assumes "length body < 2 ^ 31" "hc_kind (respond_mem now st ct body keep ex c) \<noteq> RESP_NONE"
  shows "tx_ok (respond_mem now st ct body keep ex c)"
    "tx_rest (respond_mem now st ct body keep ex c) unread = bytes_of (rsp_header st ct (length body) keep ex) @ body"
proof -
  let ?h = "rsp_header st ct (length body) keep ex"
  have h: "length ?h < 256" using assms(2) by (auto simp: respond_mem_def rsp_begin_def Let_def HTTP_HDR_MAX_def split: if_splits)
  then have "unat (of_nat (length ?h + length body) :: u32) = length ?h + length body" using assms(1) by (subst unat_of_nat) simp
  then show "tx_ok (respond_mem now st ct body keep ex c)"
    "tx_rest (respond_mem now st ct body keep ex c) unread = bytes_of ?h @ body"
    using h by (simp_all add: respond_mem_def rsp_begin_def Let_def HTTP_HDR_MAX_def tx_ok_def tx_rest_def bytes_of_def)
qed

lemma dispatch_download_tx_ok:
  assumes "i < length (http_conns s)" "lfs_reads (lfs (ho_board H))" "dispatch_download H i query s = Ret ok s'" "hc_kind (http_conns s' ! i) = RESP_FILE"
  shows "tx_ok (http_conns s' ! i)" "hc_hdr_sent (http_conns s' ! i) = 0"
    "tx_rest (http_conns s' ! i) unread = hc_hdr (http_conns s' ! i) @ take (hc_dl_size (http_conns s' ! i)) unread"
proof -
  have k: "hc_kind (respond_json_err now st e c) \<noteq> RESP_FILE" for now st e c
    by (simp add: respond_json_err_def respond_mem_def split: prod.split bool.split)
  obtain sz h w name where o: "history_web_open (lfs (ho_board H)) name (hist (web_dev s)) (world (web_dev s)) = (sz, h, w)"
    and c: "\<exists>now ex c. rsp_begin now ''200 OK'' ''application/octet-stream'' (nat sz) False ex (http_conns s ! i) = (True, c) \<and> http_conns s' ! i =
      c\<lparr>hc_dl_size := nat sz, hc_dl_sent := 0, hc_dl_chunk_len := 0, hc_dl_chunk_off := 0, hc_kind := RESP_FILE\<rparr>"
    using assms(1,3,4) k unfolding dispatch_download_def Let_def
    by (fastforce simp: reply_with_def split: option.splits if_splits prod.splits bool.splits)
  have sz: "nat sz < 2 ^ 31" using history_open_size [OF assms(2) o] by simp
  obtain now ex c where b: "rsp_begin now ''200 OK'' ''application/octet-stream'' (nat sz) False ex (http_conns s ! i) = (True, c)"
    "http_conns s' ! i = c\<lparr>hc_dl_size := nat sz, hc_dl_sent := 0, hc_dl_chunk_len := 0, hc_dl_chunk_off := 0, hc_kind := RESP_FILE\<rparr>" using c by blast
  let ?h = "rsp_header ''200 OK'' ''application/octet-stream'' (nat sz) False ex"
  have h: "length ?h < 256" using b(1) by (auto simp: rsp_begin_def Let_def HTTP_HDR_MAX_def split: if_splits)
  then have "unat (of_nat (length ?h + nat sz) :: u32) = length ?h + nat sz" using sz by (subst unat_of_nat) simp
  then show "tx_ok (http_conns s' ! i)" "hc_hdr_sent (http_conns s' ! i) = 0"
    "tx_rest (http_conns s' ! i) unread = hc_hdr (http_conns s' ! i) @ take (hc_dl_size (http_conns s' ! i)) unread"
    using b h by (auto simp: rsp_begin_def Let_def HTTP_HDR_MAX_def tx_ok_def tx_rest_def bytes_of_def)
qed


section \<open>A server on the simulated board\<close>

definition idle_conn :: http_conn where
  "idle_conn = \<lparr>hc_pcb = None, hc_is_ws = False, hc_rx = [], hc_rx_tail = [], hc_hdr_done = False, hc_body_off = 0, hc_content_len = 0, hc_cli_close = False,
     hc_kind = RESP_NONE, hc_keep_alive = False, hc_rsp_total = 0, hc_written = 0, hc_acked = 0, hc_hdr = [], hc_hdr_sent = 0, hc_body = [], hc_body_sent = 0,
     hc_dl_size = 0, hc_dl_sent = 0, hc_dl_chunk = [], hc_dl_chunk_len = 0, hc_dl_chunk_off = 0, hc_t_rx = 0, hc_t_ack = 0, hc_t_idle = 0\<rparr>"

definition sim_httpd :: "http_conn \<Rightarrow> http_conn \<Rightarrow> sim httpd" where
  "sim_httpd a b = \<lparr>http_conns = [a, b], hd_ws_conn = None, hd_ws = sim_ws 0\<rparr>"

definition demo_request :: string where
  "demo_request = ''POST /api/save HTTP/1.1'' @ crlf @ ''Content-Length: 65536'' @ crlf @ crlf"

lemma sim_host_ok: "host_ok sim_host"
  unfolding host_ok_def lfs_reads_def by (auto simp: sim_host_def sim_lfs_def list_lfs_def)

theorem http_requests_end_witness:
  "\<forall>s'. http_process_rx 200 sim_host 0 (sim_httpd (idle_conn\<lparr>hc_pcb := Some 1, hc_rx := demo_request\<rparr>) idle_conn) \<noteq> Ret False s'"
proof -
  have "length demo_request = 50" by (simp add: demo_request_def crlf_def)
  then show ?thesis
    by (intro allI http_requests_end [OF sim_host_ok]) (simp_all add: wf_http_def sim_httpd_def wf_tx_def idle_conn_def HTTP_HDR_MAX_def http_fuel_def)
qed

theorem http_get_reads_only_witness:
  "\<exists>ok s'. dispatch sim_host 0 ''GET'' ''/api/save'' None [] (sim_httpd idle_conn idle_conn) = Ret ok s' \<and> dev_kept sim_dev (web_dev s')"
  using http_get_reads_only [of "''GET''" sim_host 0 "''/api/save''" None "[]" "sim_httpd idle_conn idle_conn"]
  by (simp add: web_dev_def sim_httpd_def sim_ws_def)

theorem http_download_cut_by_other_witness:
  "\<exists>s1 s2. dispatch sim_host 0 ''GET'' ''/api/history/download'' None [] (sim_httpd idle_conn (idle_conn\<lparr>hc_pcb := Some 1, hc_kind := RESP_FILE, hc_dl_size := 100\<rparr>)) = Ret True s1
    \<and> conn_pump_send sim_host 1 s1 = ((True, False), s2) \<and> hc_pcb (http_conns s2 ! 1) = None"
  by (rule http_download_cut_by_other [where p = 1]) (simp_all add: sim_httpd_def idle_conn_def sim_host_def)

lemma demo_request_parsed:
  "find_hdr_end demo_request = Some 46" "split_req_line demo_request 8 96 = (2, ''POST'', ''/api/save'')"
  "hdr_find demo_request 46 ''Content-Length:'' = Some ('' 65536'' @ crlf @ crlf)"
proof -
  show "find_hdr_end demo_request = Some 46" by (simp add: demo_request_def crlf_def find_hdr_end.simps)
  show "split_req_line demo_request 8 96 = (2, ''POST'', ''/api/save'')" by (simp add: demo_request_def crlf_def split_req_line_def req_blank_def Let_def)
  show "hdr_find demo_request 46 ''Content-Length:'' = Some ('' 65536'' @ crlf @ crlf)"
    by (simp add: demo_request_def crlf_def hdr_find.simps strncasecmp_eq_def lower_def char_of_def bit_simps Let_def)
qed

theorem http_content_length_wraps_witness:
  "\<exists>s'. process_step (http_process_rx 5 sim_host 0) sim_host 0 (sim_httpd (idle_conn\<lparr>hc_pcb := Some 1, hc_rx := demo_request\<rparr>) idle_conn) = http_process_rx 5 sim_host 0 s'
    \<and> unat (hc_content_len (http_conns s' ! 0)) = 0"
proof -
  have "strtoul_10 ('' 65536'' @ crlf @ crlf) = Some (65536, crlf @ crlf)"
    by (simp add: strtoul_10_def scan_sign_def scan_digits_def isspace_def digit_val_def crlf_def Let_def)
  from http_content_length_wraps [of 0 "sim_httpd (idle_conn\<lparr>hc_pcb := Some 1, hc_rx := demo_request\<rparr>) idle_conn" 46 "''POST''" "''/api/save''" _ 65536,
      OF _ _ _ _ _ _ _ this] show ?thesis
    by (auto simp: sim_httpd_def idle_conn_def rx_text_def demo_request_parsed)
qed

text \<open>
  A network and a file in the list of texts of the simulated world: the first is the unread part of the file, the others are what has been sent.
\<close>

definition log_unread :: "sim \<Rightarrow> u8 list" where
  "log_unread w = (case sim_files w of [] \<Rightarrow> [] | t # ts \<Rightarrow> bytes_of t)"

definition log_sent :: "nat \<Rightarrow> sim \<Rightarrow> u8 list" where
  "log_sent p w = concat (map bytes_of (drop 1 (sim_files w)))"

definition log_host :: "sim host" where
  "log_host = sim_host\<lparr>ho_board := sim_board\<lparr>lfs := sim_lfs\<lparr>lfs_file_read := \<lambda>fp n w. ((int (length (take n (log_unread w))), take n (log_unread w)),
        w\<lparr>sim_files := text_of (drop n (log_unread w)) # drop 1 (sim_files w)\<rparr>)\<rparr>\<rparr>,
     ho_lwip := sim_lwip\<lparr>tcp_write := \<lambda>p bs w. (ERR_OK, w\<lparr>sim_files := text_of (log_unread w) # drop 1 (sim_files w) @ [text_of bs]\<rparr>)\<rparr>\<rparr>"

lemma text_of_bytes_of: "bytes_of (text_of bs) = bs"
  by (simp add: bytes_of_def text_of_def comp_def)

interpretation logged: web_stream log_host log_sent log_unread
proof unfold_locales
  fix n w k bs w'
  assume "lfs_file_read (lfs (ho_board log_host)) web_fp n w = ((k, bs), w')"
  then have "k = int (length (take n (log_unread w)))" "bs = take n (log_unread w)" "log_unread w' = drop n (log_unread w)"
    by (auto simp: log_host_def log_unread_def text_of_bytes_of)
  then show "nat k \<le> n \<and> nat k \<le> length bs \<and> nat k \<le> length (log_unread w) \<and> take (nat k) bs = take (nat k) (log_unread w)
      \<and> log_unread w' = drop (nat k) (log_unread w) \<and> (k = 0 \<longrightarrow> n = 0 \<or> log_unread w = [])"
    by (cases "length (log_unread w) \<le> n") (simp_all add: min_def)
qed (auto simp: log_host_def sim_host_def sim_lwip_def sim_lfs_def log_sent_def log_unread_def text_of_bytes_of)

definition download_server :: "sim httpd" where
  "download_server = set_web_world (sim_world\<lparr>sim_files := [''abc'']\<rparr>)
     (sim_httpd (idle_conn\<lparr>hc_pcb := Some 1, hc_kind := RESP_FILE, hc_hdr := [72, 84], hc_rsp_total := 5, hc_dl_size := 3\<rparr>) idle_conn)"


end
