(* ===== verification/Log_Ring.thy ===== *)
theory Log_Ring
  imports Sys_Time
begin

unbundle bit_operations_syntax

text \<open>
  The log of \<open>src/sys/log.c\<close>: lines are formatted by the calling task and put into a ring of 4096
  bytes; one logger task sends the ring to the UART. The definitions follow the source function by
  function; the reads and writes of the shared variables are also the steps of a transition system in
  which the tasks that log and the logger task interleave in any order. The theorems relate every
  interleaving to a queue of bytes.

  The UART is a parameter: \<open>T n\<close> of the \<open>n\<close> bytes of one call of \<open>HAL_UART_Transmit\<close> leave before
  its timeout of \<open>LOG_TMO_MS\<close>.
\<close>

section \<open>State\<close>

definition LOG_LINE_MAX :: nat where [hub_defs]: "LOG_LINE_MAX = 160"
definition LOG_RING_SIZE :: u32 where [hub_defs]: "LOG_RING_SIZE = 4096"
definition LOG_RING_MASK :: u32 where [hub_defs]: "LOG_RING_MASK = LOG_RING_SIZE - 1"

record log_st =
  log_ring :: string
  ring_head :: u32
  ring_tail :: u32
  log_push_lock :: bool
  log_task_handle :: bool
  log_dropped :: u32
  log_uart :: bool
  log_notified :: bool

definition log_power_on :: log_st where
  "log_power_on = \<lparr>log_ring = replicate 4096 (CHR 0x00), ring_head = 0, ring_tail = 0, log_push_lock = False,
     log_task_handle = False, log_dropped = 0, log_uart = False, log_notified = False\<rparr>"

text \<open>\<open>log_init\<close> after its calls of the HAL and of FreeRTOS, which stop the program when they fail.\<close>

definition log_init :: "log_st \<Rightarrow> log_st" where
  "log_init s = s\<lparr>log_uart := True, log_push_lock := True, log_task_handle := True\<rparr>"

section \<open>Putting a line into the ring\<close>

definition memcpy_at :: "nat \<Rightarrow> 'a list \<Rightarrow> 'a list \<Rightarrow> 'a list" where
  "memcpy_at off bs r = take off r @ bs @ drop (off + length bs) r"

definition ring_space :: "log_st \<Rightarrow> u32" where
  "ring_space s = LOG_RING_SIZE - (ring_head s - ring_tail s)"

definition ring_copy :: "u32 \<Rightarrow> string \<Rightarrow> u16 \<Rightarrow> log_st \<Rightarrow> log_st" where
  "ring_copy head buf len s =
     (let off = head AND LOG_RING_MASK;
          first = LOG_RING_SIZE - off;
          first = (if first > ucast len then ucast len else first);
          r = memcpy_at (unat off) (take (unat first) buf) (log_ring s);
          r = (if (ucast len :: u32) > first
               then memcpy_at 0 (take (unat len - unat first) (drop (unat first) buf)) r else r)
      in s\<lparr>log_ring := r\<rparr>)"

definition notify_logger :: "log_st \<Rightarrow> log_st" where
  "notify_logger s = (if log_task_handle s then s\<lparr>log_notified := True\<rparr> else s)"

definition log_push :: "string \<Rightarrow> u16 \<Rightarrow> log_st \<Rightarrow> log_st" where
  "log_push buf len s =
     (if len = 0 \<or> \<not> log_push_lock s then s
      else let head = ring_head s
           in notify_logger
             (if (ucast len :: u32) > ring_space s then s\<lparr>log_dropped := log_dropped s + 1\<rparr>
              else (ring_copy head buf len s)\<lparr>ring_head := head + ucast len\<rparr>))"

text \<open>
  \<open>log_vline\<close>: the text that \<open>vsnprintf\<close> would print without a limit is \<open>msg\<close>, \<open>None\<close> when it
  reports an error.
\<close>

definition line_bytes :: "string \<Rightarrow> string option \<Rightarrow> string" where
  "line_bytes prefix msg =
     (let buf = prefix @ (case msg of None \<Rightarrow> [] | Some m \<Rightarrow> take (LOG_LINE_MAX - length prefix - 1) m);
          n = length prefix + (case msg of None \<Rightarrow> 0 | Some m \<Rightarrow> length m);
          n = (if n > LOG_LINE_MAX - 3 then LOG_LINE_MAX - 3 else n)
      in take n buf @ [CHR 0x0D, CHR 0x0A])"

definition log_vline :: "string \<Rightarrow> string option \<Rightarrow> log_st \<Rightarrow> log_st" where
  "log_vline prefix msg s = log_push (line_bytes prefix msg) (of_nat (length (line_bytes prefix msg))) s"

definition pad_dec :: "nat \<Rightarrow> nat \<Rightarrow> string" where
  "pad_dec k n = replicate (k - length (dec_str n)) (CHR ''0'') @ dec_str n"

definition log_prefix :: "char \<Rightarrow> u32 \<Rightarrow> u32 \<Rightarrow> string" where
  "log_prefix level epoch ms =
     (let t = (epoch + 8 * 3600) mod 86400
      in case gmtime_r (unat t) of
           None \<Rightarrow> []
         | Some tm \<Rightarrow> take 23 (''['' @ pad_dec 2 (nat (tm_hour tm)) @ '':'' @ pad_dec 2 (nat (tm_min tm)) @ '':'' @
             pad_dec 2 (nat (tm_sec tm)) @ ''.'' @ pad_dec 3 (unat ms) @ '']['' @ [level] @ ''] ''))"

definition log_write :: "char \<Rightarrow> string option \<Rightarrow> 'w hal_rtc \<Rightarrow> time_st \<Rightarrow> 'w \<Rightarrow> log_st \<Rightarrow> log_st" where
  "log_write level msg H t w s = log_vline (log_prefix level (io_now_epoch t) (io_now_ms H t w)) msg s"

definition log_line :: "string option \<Rightarrow> log_st \<Rightarrow> log_st" where
  "log_line msg s = log_vline [] msg s"

definition log_raw :: "string \<Rightarrow> u16 \<Rightarrow> log_st \<Rightarrow> log_st" where
  "log_raw buf len s = log_push buf len s"

text \<open>The exit of \<open>printf\<close>: the length is narrowed, the full length is reported as written.\<close>

definition syscall_write :: "string \<Rightarrow> int \<Rightarrow> log_st \<Rightarrow> int \<times> log_st" where
  "syscall_write buf len s = (len, log_push buf (word_of_int len) s)"

section \<open>The logger task\<close>

definition log_emit :: "(nat \<Rightarrow> nat) \<Rightarrow> string \<Rightarrow> log_st \<Rightarrow> string" where
  "log_emit T buf s = (if \<not> log_uart s then [] else take (T (length buf)) buf)"

definition chunk_of :: "u32 \<Rightarrow> u32 \<Rightarrow> u32" where
  "chunk_of tail used =
     (let chunk = LOG_RING_SIZE - (tail AND LOG_RING_MASK) in if chunk > used then used else chunk)"

definition chunk_bytes :: "u32 \<Rightarrow> u32 \<Rightarrow> log_st \<Rightarrow> string" where
  "chunk_bytes tail chunk s = take (unat chunk) (drop (unat (tail AND LOG_RING_MASK)) (log_ring s))"

definition drop_msg :: "u32 \<Rightarrow> string" where
  "drop_msg d = take 47 (''[W] '' @ dec_str (unat d) @ '' log lines dropped'' @ [CHR 0x0D, CHR 0x0A])"

subsection \<open>Words modulo the ring\<close>

lemma ring_off: "unat (t AND LOG_RING_MASK) = unat t mod 4096"
proof -
  have "LOG_RING_MASK = mask 12" by (simp add: hub_defs mask_eq_exp_minus_1)
  then have "t AND LOG_RING_MASK = take_bit 12 t" by (simp only: take_bit_eq_mask)
  then have "unat (t AND LOG_RING_MASK) = take_bit 12 (unat t)" by (simp only: unsigned_take_bit_eq)
  then show ?thesis by (simp add: take_bit_eq_mod)
qed

lemma ring_rest: "unat (LOG_RING_SIZE - (t AND LOG_RING_MASK)) = 4096 - unat t mod 4096"
proof -
  have z: "unat LOG_RING_SIZE = 4096" by (simp add: hub_defs)
  have "unat t mod 4096 \<le> 4096" by simp
  then have "t AND LOG_RING_MASK \<le> LOG_RING_SIZE" by (simp only: word_le_nat_alt ring_off z)
  then show ?thesis by (simp only: unat_sub ring_off z)
qed

lemma unat_chunk_of: "unat (chunk_of t used) = min (4096 - unat t mod 4096) (unat used)"
  by (auto simp: chunk_of_def Let_def word_less_nat_alt ring_rest)

lemma unat_shift_mod: "unat ((t :: u32) + of_nat n) mod 4096 = (unat t + n) mod 4096"
proof -
  have "unat (t + of_nat n) = (unat t + n) mod (2 ^ 32)" by (simp add: unat_word_ariths unat_of_nat mod_simps)
  moreover have "(4096 :: nat) dvd 2 ^ 32" using le_imp_power_dvd [of 12 32 "2 :: nat"] by simp
  then have "(x mod (2 ^ 32)) mod 4096 = x mod 4096" for x :: nat by (rule mod_mod_cancel)
  ultimately show ?thesis by simp
qed

text \<open>One turn of the inner loops of \<open>log_task_fn\<close>, without another task in between.\<close>

function log_drain :: "(nat \<Rightarrow> nat) \<Rightarrow> log_st \<Rightarrow> string \<times> log_st" where
  "log_drain T s =
     (let tail = ring_tail s; used = ring_head s - tail
      in if used = 0 then ([], s)
         else let chunk = chunk_of tail used;
                  sent = log_emit T (chunk_bytes tail chunk s) s;
                  (more, s') = log_drain T (s\<lparr>ring_tail := tail + chunk\<rparr>)
              in (sent @ more, s'))"
  by pat_completeness auto
termination
proof (relation "measure (\<lambda>(T, s). unat (ring_head s - ring_tail s))")
  fix T :: "nat \<Rightarrow> nat" and s tail used chunk
  assume h: "tail = ring_tail s" "used = ring_head s - tail" "used \<noteq> 0" "chunk = chunk_of tail used"
  have "unat tail mod 4096 < 4096" by simp
  then have c: "0 < unat chunk" "unat chunk \<le> unat used" using h by (auto simp: unat_chunk_of unat_gt_0)
  then have "chunk \<le> used" by (simp add: word_le_nat_alt)
  then have "unat (used - chunk) < unat used" using c by (simp add: unat_sub)
  moreover have "ring_head s - (tail + chunk) = used - chunk" using h by simp
  ultimately show "((T, s\<lparr>ring_tail := tail + chunk\<rparr>), T, s) \<in> measure (\<lambda>(T, s). unat (ring_head s - ring_tail s))"
    using h by (simp add: diff_diff_eq)
qed simp

declare log_drain.simps [simp del]

definition log_task_turn :: "(nat \<Rightarrow> nat) \<Rightarrow> log_st \<Rightarrow> string \<times> log_st" where
  "log_task_turn T s =
     (let s = s\<lparr>log_notified := False\<rparr>;
          (sent, s) = log_drain T s;
          d = log_dropped s
      in if d \<noteq> 0 then (sent @ log_emit T (drop_msg d) s, s\<lparr>log_dropped := 0\<rparr>) else (sent, s))"

section \<open>Waiting for the log to be sent\<close>

text \<open>
  \<open>log_flush\<close> looks at the shared variables every 2 ms. The argument is what it sees at each turn:
  the condition of its loop and the tick count. \<open>Some True\<close> is the return after the log was seen
  empty, \<open>Some False\<close> the return at the deadline, \<open>None\<close> that it still waits.
\<close>

definition log_busy :: "log_st \<Rightarrow> bool" where
  "log_busy s \<longleftrightarrow> ring_head s \<noteq> ring_tail s \<or> log_dropped s \<noteq> 0"

fun flush_loop :: "u32 \<Rightarrow> (log_st \<times> u32) list \<Rightarrow> bool option" where
  "flush_loop deadline [] = None"
| "flush_loop deadline ((s, now) # later) =
     (if \<not> log_busy s then Some True
      else if 0 \<le>s now - deadline then Some False
      else flush_loop deadline later)"

definition log_flush :: "u32 \<Rightarrow> u32 \<Rightarrow> (log_st \<times> u32) list \<Rightarrow> bool option" where
  "log_flush now timeout_ms seen = flush_loop (now + timeout_ms) seen"

section \<open>All interleavings\<close>

text \<open>
  The tasks that log are serialised by \<open>log_push_lock\<close>: at most one of them is between taking and
  giving it (\<open>producer\<close>), and any number have given it and not yet notified the logger (\<open>lg_giving\<close>).
  A constructor of \<open>producer\<close> or \<open>logger\<close> is the place the task has reached, with the local variables it
  still needs. Every step reads or writes the shared variables once, so another task can run between
  any two of them.
\<close>

datatype producer =
    Unlocked
  | Copying string u16 u32
  | Publishing string u16 u32
  | Full string u16
  | Bumping string u16 u32

datatype logger =
    Waiting
  | Scanning
  | Sending u32 u32
  | Sent u32 u32
  | Caught_up
  | Clearing u32
  | Reporting u32

record log_sys =
  lg_st :: log_st
  lg_producer :: producer
  lg_giving :: nat
  lg_logger :: logger

datatype log_event = Accept string | Drop string | Hand_out string | Report u32 | Silent

text \<open>What the tasks that log do.\<close>

inductive push_step :: "log_event \<Rightarrow> log_sys \<Rightarrow> log_sys \<Rightarrow> bool" where
  push_fits: "lg_producer y = Unlocked \<Longrightarrow> log_push_lock (lg_st y) \<Longrightarrow> len \<noteq> 0 \<Longrightarrow> unat len \<le> length buf
    \<Longrightarrow> ucast len \<le> ring_space (lg_st y)
    \<Longrightarrow> push_step Silent y (y\<lparr>lg_producer := Copying buf len (ring_head (lg_st y))\<rparr>)"
| push_full: "lg_producer y = Unlocked \<Longrightarrow> log_push_lock (lg_st y) \<Longrightarrow> len \<noteq> 0 \<Longrightarrow> unat len \<le> length buf
    \<Longrightarrow> ring_space (lg_st y) < ucast len
    \<Longrightarrow> push_step Silent y (y\<lparr>lg_producer := Full buf len\<rparr>)"
| push_copy: "lg_producer y = Copying buf len head
    \<Longrightarrow> push_step Silent y (y\<lparr>lg_st := ring_copy head buf len (lg_st y), lg_producer := Publishing buf len head\<rparr>)"
| push_publish: "lg_producer y = Publishing buf len head
    \<Longrightarrow> push_step (Accept (take (unat len) buf)) y
          (y\<lparr>lg_st := (lg_st y)\<lparr>ring_head := head + ucast len\<rparr>, lg_producer := Unlocked, lg_giving := Suc (lg_giving y)\<rparr>)"
| push_read_dropped: "lg_producer y = Full buf len
    \<Longrightarrow> push_step Silent y (y\<lparr>lg_producer := Bumping buf len (log_dropped (lg_st y))\<rparr>)"
| push_bump: "lg_producer y = Bumping buf len d
    \<Longrightarrow> push_step (Drop (take (unat len) buf)) y
          (y\<lparr>lg_st := (lg_st y)\<lparr>log_dropped := d + 1\<rparr>, lg_producer := Unlocked, lg_giving := Suc (lg_giving y)\<rparr>)"
| push_notify: "lg_giving y = Suc k
    \<Longrightarrow> push_step Silent y (y\<lparr>lg_st := notify_logger (lg_st y), lg_giving := k\<rparr>)"

text \<open>What the logger task does; it blocks in \<open>Waiting\<close> until it is notified.\<close>

fun logger_step :: "log_sys \<Rightarrow> (log_event \<times> log_sys) option" where
  "logger_step y =
     (let s = lg_st y in
      case lg_logger y of
        Waiting \<Rightarrow> if log_notified s then Some (Silent, y\<lparr>lg_st := s\<lparr>log_notified := False\<rparr>, lg_logger := Scanning\<rparr>) else None
      | Scanning \<Rightarrow> Some (Silent, let tail = ring_tail s; used = ring_head s - tail
          in if used = 0 then y\<lparr>lg_logger := Caught_up\<rparr> else y\<lparr>lg_logger := Sending tail (chunk_of tail used)\<rparr>)
      | Sending tail chunk \<Rightarrow> Some (Hand_out (chunk_bytes tail chunk s), y\<lparr>lg_logger := Sent tail chunk\<rparr>)
      | Sent tail chunk \<Rightarrow> Some (Silent, y\<lparr>lg_st := s\<lparr>ring_tail := tail + chunk\<rparr>, lg_logger := Scanning\<rparr>)
      | Caught_up \<Rightarrow> Some (Silent, let d = log_dropped s
          in if d \<noteq> 0 then y\<lparr>lg_logger := Clearing d\<rparr> else y\<lparr>lg_logger := Waiting\<rparr>)
      | Clearing d \<Rightarrow> Some (Silent, y\<lparr>lg_st := s\<lparr>log_dropped := 0\<rparr>, lg_logger := Reporting d\<rparr>)
      | Reporting d \<Rightarrow> Some (Report d, y\<lparr>lg_logger := Waiting\<rparr>))"

inductive log_run :: "log_event list \<Rightarrow> log_sys \<Rightarrow> log_sys \<Rightarrow> bool" where
  run_none: "log_run [] y y"
| run_push: "log_run es x y \<Longrightarrow> push_step e y z \<Longrightarrow> log_run (es @ [e]) x z"
| run_logger: "log_run es x y \<Longrightarrow> logger_step y = Some (e, z) \<Longrightarrow> log_run (es @ [e]) x z"

definition log_start :: log_sys where
  "log_start = \<lparr>lg_st = log_init log_power_on, lg_producer = Unlocked, lg_giving = 0, lg_logger = Waiting\<rparr>"

text \<open>The steps of a task that nothing interrupts are the function \<open>log_push\<close>.\<close>

lemma log_push_steps:
  assumes "lg_producer y = Unlocked" "log_push_lock (lg_st y)" "len \<noteq> 0" "unat len \<le> length buf"
  shows "\<exists>es. log_run es y (y\<lparr>lg_st := log_push buf len (lg_st y)\<rparr>)"
proof (cases "ring_space (lg_st y) < ucast len")
  case True
  have "log_run [Silent] y (y\<lparr>lg_producer := Full buf len\<rparr>)" using run_push [OF run_none push_full [OF assms True]] by simp
  from run_push [OF this push_read_dropped] have "log_run [Silent, Silent] y (y\<lparr>lg_producer := Bumping buf len (log_dropped (lg_st y))\<rparr>)" by simp
  from run_push [OF run_push [OF this push_bump] push_notify] show ?thesis
    using assms True by (cases y) (auto simp: log_push_def Let_def)
next
  case False
  have "log_run [Silent] y (y\<lparr>lg_producer := Copying buf len (ring_head (lg_st y))\<rparr>)"
    using run_push [OF run_none push_fits [OF assms]] False by (simp add: not_less)
  from run_push [OF this push_copy] have "log_run [Silent, Silent] y
      (y\<lparr>lg_st := ring_copy (ring_head (lg_st y)) buf len (lg_st y), lg_producer := Publishing buf len (ring_head (lg_st y))\<rparr>)" by simp
  from run_push [OF run_push [OF this push_publish] push_notify] show ?thesis
    using assms False by (cases y) (auto simp: log_push_def Let_def)
qed

section \<open>The queue the ring implements\<close>

text \<open>
  The specification: a queue of at most 4096 bytes. Accepting a line appends all of it, handing out
  takes bytes from the front.
\<close>

fun fifo_step :: "log_event \<Rightarrow> string \<Rightarrow> string option" where
  "fifo_step (Accept l) q = (if length q + length l \<le> 4096 then Some (q @ l) else None)"
| "fifo_step (Hand_out c) q = (if c \<noteq> [] \<and> take (length c) q = c then Some (drop (length c) q) else None)"
| "fifo_step (Drop l) q = Some q"
| "fifo_step (Report d) q = (if 0 < d then Some q else None)"
| "fifo_step Silent q = Some q"

fun fifo_run :: "log_event list \<Rightarrow> string \<Rightarrow> string option" where
  "fifo_run [] q = Some q"
| "fifo_run (e # es) q = Option.bind (fifo_step e q) (fifo_run es)"

lemma fifo_run_snoc: "fifo_run (es @ [e]) q = Option.bind (fifo_run es q) (fifo_step e)"
  by (induction es arbitrary: q) (auto simp: bind_assoc split: bind_split)

text \<open>The bytes of a trace.\<close>

fun accepted :: "log_event list \<Rightarrow> string" where
  "accepted (Accept l # es) = l @ accepted es"
| "accepted (_ # es) = accepted es"
| "accepted [] = []"

fun handed_out :: "log_event list \<Rightarrow> string" where
  "handed_out (Hand_out c # es) = c @ handed_out es"
| "handed_out (_ # es) = handed_out es"
| "handed_out [] = []"

lemma fifo_run_bytes: "fifo_run es q = Some q' \<Longrightarrow> q @ accepted es = handed_out es @ q'"
proof (induction es arbitrary: q)
  case (Cons e es)
  then obtain p where p: "fifo_step e q = Some p" "fifo_run es p = Some q'" by (auto split: bind_splits)
  then have "p @ accepted es = handed_out es @ q'" using Cons.IH by blast
  then show ?case using p(1) by (cases e) (auto split: if_splits, metis append.assoc append_take_drop_id)
qed simp

section \<open>The ring holds the queue\<close>

definition ring_bytes :: "string \<Rightarrow> u32 \<Rightarrow> nat \<Rightarrow> string" where
  "ring_bytes r t n = map (\<lambda>i. r ! ((unat t + i) mod 4096)) [0..<n]"

lemma length_ring_bytes [simp]: "length (ring_bytes r t n) = n"
  by (simp add: ring_bytes_def)

lemma ring_bytes_add: "ring_bytes r t (n + k) = ring_bytes r t n @ ring_bytes r (t + of_nat n) k"
proof (rule nth_equalityI)
  fix i assume i: "i < length (ring_bytes r t (n + k))"
  show "ring_bytes r t (n + k) ! i = (ring_bytes r t n @ ring_bytes r (t + of_nat n) k) ! i"
  proof (cases "i < n")
    case False
    have "(unat (t + of_nat n) + (i - n)) mod 4096 = (unat (t + of_nat n) mod 4096 + (i - n)) mod 4096" by (simp add: mod_simps)
    also have "\<dots> = (unat t + i) mod 4096" using False by (simp only: unat_shift_mod mod_add_left_eq) (simp add: mod_simps)
    finally show ?thesis using i False less_diff_conv2 [of n i k] by (simp add: ring_bytes_def nth_append)
  qed (use i in \<open>simp add: ring_bytes_def nth_append\<close>)
qed simp

lemma ring_bytes_chunk:
  assumes "length r = 4096" "n \<le> 4096 - unat t mod 4096"
  shows "take n (drop (unat t mod 4096) r) = ring_bytes r t n"
proof (rule nth_equalityI)
  fix i assume "i < length (take n (drop (unat t mod 4096) r))"
  then have i: "i < n" by simp
  have "unat t mod 4096 < 4096" by simp
  then have "unat t mod 4096 + i < 4096" using i assms(2) by linarith
  then have "(unat t + i) mod 4096 = unat t mod 4096 + i" by (metis mod_add_left_eq mod_less)
  then show "take n (drop (unat t mod 4096) r) ! i = ring_bytes r t n ! i" using i assms by (simp add: ring_bytes_def)
qed (use assms in simp)

lemma length_memcpy_at [simp]: "off + length bs \<le> length r \<Longrightarrow> length (memcpy_at off bs r) = length r"
  by (simp add: memcpy_at_def)

lemma nth_memcpy_at:
  "off + length bs \<le> length r \<Longrightarrow> j < length r
    \<Longrightarrow> memcpy_at off bs r ! j = (if off \<le> j \<and> j < off + length bs then bs ! (j - off) else r ! j)"
  by (auto simp: memcpy_at_def nth_append)

lemma ring_copy_rest [simp]:
  "ring_head (ring_copy h b l s) = ring_head s" "ring_tail (ring_copy h b l s) = ring_tail s"
  "log_dropped (ring_copy h b l s) = log_dropped s" "log_notified (ring_copy h b l s) = log_notified s"
  "log_task_handle (ring_copy h b l s) = log_task_handle s" "log_push_lock (ring_copy h b l s) = log_push_lock s"
  by (simp_all add: ring_copy_def Let_def)

lemma ring_copy_cases:
  assumes "off = unat head mod 4096" "first = min (4096 - off) (unat len)"
  shows "log_ring (ring_copy head buf len s) =
    (if unat len \<le> first then memcpy_at off (take first buf) (log_ring s)
     else memcpy_at 0 (take (unat len - first) (drop first buf)) (memcpy_at off (take first buf) (log_ring s)))"
  unfolding assms by (auto simp: ring_copy_def Let_def ring_off ring_rest word_less_nat_alt min_def)

lemma ring_copy_nth:
  assumes "length (log_ring s) = 4096" "unat len \<le> 4096" "unat len \<le> length buf"
  shows "length (log_ring (ring_copy head buf len s)) = 4096"
    and "i < 4096 \<Longrightarrow> log_ring (ring_copy head buf len s) ! ((unat head + i) mod 4096) =
      (if i < unat len then buf ! i else log_ring s ! ((unat head + i) mod 4096))"
proof -
  define off where "off = unat head mod 4096"
  define first where "first = min (4096 - off) (unat len)"
  note c = ring_copy_cases [OF off_def first_def, of buf s]
  have o: "off < 4096" by (simp add: off_def)
  show "length (log_ring (ring_copy head buf len s)) = 4096" using assms o by (simp add: c first_def)
  assume i: "i < 4096"
  have j: "(unat head + i) mod 4096 = (if off + i < 4096 then off + i else off + i - 4096)"
  proof -
    have "(unat head + i) mod 4096 = (off + i) mod 4096" by (simp add: off_def mod_simps)
    then show ?thesis using o i by (simp add: mod_if)
  qed
  show "log_ring (ring_copy head buf len s) ! ((unat head + i) mod 4096) =
      (if i < unat len then buf ! i else log_ring s ! ((unat head + i) mod 4096))"
  proof (cases "unat len \<le> 4096 - off")
    case True
    then show ?thesis using assms o i by (auto simp: c j first_def nth_memcpy_at)
  next
    case False
    then have "first = 4096 - off" by (simp add: first_def)
    then show ?thesis using False assms o i by (simp add: c j nth_memcpy_at) linarith
  qed
qed

text \<open>Copying into the free part of the ring stores the line and leaves the bytes before it.\<close>

lemma ring_copy_bytes:
  assumes "length (log_ring s) = 4096" "unat len \<le> 4096" "unat len \<le> length buf"
  shows "ring_bytes (log_ring (ring_copy head buf len s)) head (unat len) = take (unat len) buf"
  by (rule nth_equalityI) (use assms ring_copy_nth(2) [OF assms] in \<open>simp_all add: ring_bytes_def\<close>)

lemma ring_copy_keeps:
  assumes "length (log_ring s) = 4096" "unat len \<le> length buf" "unat (head - t) + unat len \<le> 4096"
  shows "ring_bytes (log_ring (ring_copy head buf len s)) t (unat (head - t)) = ring_bytes (log_ring s) t (unat (head - t))"
proof -
  have l: "unat len \<le> 4096" using assms(3) by simp
  have "log_ring (ring_copy head buf len s) ! ((unat t + j) mod 4096) = log_ring s ! ((unat t + j) mod 4096)"
    if j: "j < unat (head - t)" for j
  proof -
    define i where "i = 4096 - unat (head - t) + j"
    have "unat head mod 4096 = unat (t + of_nat (unat (head - t))) mod 4096" by simp
    then have h: "unat head mod 4096 = (unat t + unat (head - t)) mod 4096" by (simp only: unat_shift_mod)
    have "(unat head + i) mod 4096 = (unat t + unat (head - t) + i) mod 4096" using h by (metis mod_add_left_eq)
    also have "unat t + unat (head - t) + i = unat t + j + 4096" using j assms(3) by (simp add: i_def)
    finally have e: "(unat t + j) mod 4096 = (unat head + i) mod 4096" by simp
    have "i < 4096" "\<not> i < unat len" using j assms(3) by (auto simp: i_def)
    then show ?thesis using ring_copy_nth(2) [OF assms(1) l assms(2), of i head] by (simp only: e if_False)
  qed
  then show ?thesis by (simp add: ring_bytes_def)
qed

text \<open>
  The bytes the logger has not handed out yet start at \<open>ring_tail\<close>, or behind the chunk it has just
  sent and not yet released.
\<close>

definition taken :: "log_sys \<Rightarrow> u32" where
  "taken y = (case lg_logger y of Sent tail chunk \<Rightarrow> tail + chunk | _ \<Rightarrow> ring_tail (lg_st y))"

definition queue_of :: "log_sys \<Rightarrow> string" where
  "queue_of y = ring_bytes (log_ring (lg_st y)) (taken y) (unat (ring_head (lg_st y) - taken y))"

definition ring_used :: "log_st \<Rightarrow> nat" where
  "ring_used s = unat (ring_head s - ring_tail s)"

definition chunk_ok :: "u32 \<Rightarrow> u32 \<Rightarrow> log_st \<Rightarrow> bool" where
  "chunk_ok tail chunk s \<longleftrightarrow> tail = ring_tail s \<and> 0 < unat chunk \<and> unat chunk \<le> 4096 - unat tail mod 4096 \<and> unat chunk \<le> ring_used s"

definition line_fits :: "string \<Rightarrow> u16 \<Rightarrow> u32 \<Rightarrow> log_st \<Rightarrow> bool" where
  "line_fits buf len head s \<longleftrightarrow> head = ring_head s \<and> unat len \<le> length buf \<and> ring_used s + unat len \<le> 4096"

definition logger_ok :: "log_sys \<Rightarrow> bool" where
  "logger_ok y \<longleftrightarrow> (case lg_logger y of
      Sending tail chunk \<Rightarrow> chunk_ok tail chunk (lg_st y)
    | Sent tail chunk \<Rightarrow> chunk_ok tail chunk (lg_st y)
    | Clearing d \<Rightarrow> 0 < d | Reporting d \<Rightarrow> 0 < d | _ \<Rightarrow> True)"

definition producer_ok :: "log_sys \<Rightarrow> bool" where
  "producer_ok y \<longleftrightarrow> (case lg_producer y of
      Copying buf len head \<Rightarrow> line_fits buf len head (lg_st y)
    | Publishing buf len head \<Rightarrow> line_fits buf len head (lg_st y)
        \<and> ring_bytes (log_ring (lg_st y)) head (unat len) = take (unat len) buf
    | _ \<Rightarrow> True)"

definition ring_ok :: "log_sys \<Rightarrow> bool" where
  "ring_ok y \<longleftrightarrow> length (log_ring (lg_st y)) = 4096 \<and> ring_used (lg_st y) \<le> 4096 \<and> logger_ok y \<and> producer_ok y"

lemmas ring_ok_defs = ring_ok_def logger_ok_def producer_ok_def

lemma used_after_chunk:
  "unat chunk \<le> unat (h - t) \<Longrightarrow> unat ((h :: u32) - (t + chunk)) = unat (h - t) - unat chunk"
  by (metis diff_diff_eq unat_sub word_le_nat_alt)

lemma used_after_push:
  assumes "unat (h - t) + unat (len :: u16) \<le> 4096"
  shows "unat ((h :: u32) + ucast len - t) = unat (h - t) + unat len"
proof -
  have "h + ucast len - t = (h - t) + of_nat (unat len)" by (simp add: algebra_simps)
  moreover have "unat ((h - t) + of_nat (unat len)) = unat (h - t) + unat len" using assms by (intro unat_plus_of_nat) simp
  ultimately show ?thesis by (simp only:)
qed

lemma taken_used:
  assumes "ring_ok y"
  shows "unat (ring_head (lg_st y) - taken y) \<le> ring_used (lg_st y)"
  using assms by (auto simp: ring_ok_defs taken_def ring_used_def chunk_ok_def used_after_chunk split: logger.splits)

lemma space_used:
  assumes "ring_used s \<le> 4096"
  shows "(ucast (len :: u16) :: u32) \<le> ring_space s \<longleftrightarrow> ring_used s + unat len \<le> 4096"
proof -
  have z: "unat LOG_RING_SIZE = 4096" by (simp add: hub_defs)
  have "ring_head s - ring_tail s \<le> LOG_RING_SIZE" using assms by (simp only: word_le_nat_alt z ring_used_def)
  then have "unat (ring_space s) = 4096 - ring_used s" by (simp only: ring_space_def unat_sub z ring_used_def)
  then show ?thesis using assms by (auto simp: word_le_nat_alt)
qed

lemma queue_of_cong:
  assumes "lg_logger z = lg_logger y" "ring_tail (lg_st z) = ring_tail (lg_st y)" "ring_head (lg_st z) = ring_head (lg_st y)"
    and "log_ring (lg_st z) = log_ring (lg_st y)"
  shows "queue_of z = queue_of y" "taken z = taken y"
  using assms by (simp_all add: queue_of_def taken_def split: logger.split)

lemma push_publish_sim:
  assumes y: "ring_ok y" "lg_producer y = Publishing buf len head"
    and z: "z = y\<lparr>lg_st := (lg_st y)\<lparr>ring_head := head + ucast len\<rparr>, lg_producer := Unlocked, lg_giving := Suc (lg_giving y)\<rparr>"
  shows "ring_ok z" "fifo_step (Accept (take (unat len) buf)) (queue_of y) = Some (queue_of z)"
proof -
  let ?s = "lg_st y"
  have p: "head = ring_head ?s" "unat len \<le> length buf" "ring_used ?s + unat len \<le> 4096"
    "ring_bytes (log_ring ?s) head (unat len) = take (unat len) buf"
    using y by (auto simp: ring_ok_defs line_fits_def)
  have u: "ring_used (lg_st z) = ring_used ?s + unat len" using p by (simp add: z ring_used_def used_after_push)
  then show "ring_ok z" using y(1) p(3) by (auto simp: ring_ok_defs chunk_ok_def z split: logger.splits)
  have t: "taken z = taken y" by (simp add: taken_def z split: logger.split)
  have l: "unat (head - taken y) + unat len \<le> 4096" using taken_used [OF y(1)] p by simp
  have "queue_of z = ring_bytes (log_ring ?s) (taken y) (unat (head - taken y) + unat len)"
    using used_after_push [OF l] by (simp add: queue_of_def t) (simp add: z)
  also have "\<dots> = queue_of y @ take (unat len) buf"
    using p by (simp add: ring_bytes_add queue_of_def)
  finally show "fifo_step (Accept (take (unat len) buf)) (queue_of y) = Some (queue_of z)"
    using l p by (simp add: queue_of_def)
qed

lemma push_copy_sim:
  assumes y: "ring_ok y" "lg_producer y = Copying buf len head"
    and z: "z = y\<lparr>lg_st := ring_copy head buf len (lg_st y), lg_producer := Publishing buf len head\<rparr>"
  shows "ring_ok z" "queue_of z = queue_of y"
proof -
  let ?s = "lg_st y"
  have p: "head = ring_head ?s" "unat len \<le> length buf" "ring_used ?s + unat len \<le> 4096" "length (log_ring ?s) = 4096"
    using y by (simp_all add: ring_ok_defs line_fits_def)
  then have l: "unat len \<le> 4096" by simp
  have u: "ring_used (lg_st z) = ring_used ?s" by (simp add: z ring_used_def)
  then show "ring_ok z" using y(1) p ring_copy_nth(1) [OF p(4) l p(2)] ring_copy_bytes [OF p(4) l p(2)]
    by (auto simp: ring_ok_defs chunk_ok_def line_fits_def z split: logger.splits)
  have t: "taken z = taken y" by (simp add: taken_def z split: logger.split)
  have "unat (head - taken y) + unat len \<le> 4096" using taken_used [OF y(1)] p by simp
  then show "queue_of z = queue_of y" using ring_copy_keeps [OF p(4,2)] p(1) by (simp add: queue_of_def t) (simp add: z)
qed

lemma push_step_sim:
  assumes "push_step e y z" "ring_ok y"
  shows "ring_ok z \<and> fifo_step e (queue_of y) = Some (queue_of z)"
  using assms
proof (induction rule: push_step.induct)
  case (push_fits y len buf)
  then have u: "ring_used (lg_st y) \<le> 4096" by (simp add: ring_ok_def)
  then show ?case using push_fits space_used [OF u, of len] queue_of_cong(1) [of "y\<lparr>lg_producer := Copying buf len (ring_head (lg_st y))\<rparr>" y]
    by (auto simp: ring_ok_defs line_fits_def split: logger.splits)
next
  case (push_full y len buf)
  then show ?case using queue_of_cong(1) [of "y\<lparr>lg_producer := Full buf len\<rparr>" y] by (auto simp: ring_ok_defs split: logger.splits)
next
  case (push_copy y buf len head)
  then show ?case using push_copy_sim [OF push_copy(2,1)] by simp
next
  case (push_publish y buf len head)
  then show ?case using push_publish_sim [OF push_publish(2,1)] by simp
next
  case (push_read_dropped y buf len)
  then show ?case using queue_of_cong(1) [of "y\<lparr>lg_producer := Bumping buf len (log_dropped (lg_st y))\<rparr>" y] by (auto simp: ring_ok_defs split: logger.splits)
next
  case (push_bump y buf len d)
  then show ?case by (auto simp: ring_ok_defs chunk_ok_def ring_used_def queue_of_def taken_def split: logger.splits)
next
  case (push_notify y k)
  then show ?case by (auto simp: ring_ok_defs chunk_ok_def line_fits_def ring_used_def queue_of_def taken_def notify_logger_def
        split: logger.splits producer.splits)
qed

lemma logger_send_sim:
  assumes y: "ring_ok y" "lg_logger y = Sending tail chunk" and z: "z = y\<lparr>lg_logger := Sent tail chunk\<rparr>"
  shows "ring_ok z" "fifo_step (Hand_out (chunk_bytes tail chunk (lg_st y))) (queue_of y) = Some (queue_of z)"
proof -
  let ?s = "lg_st y"
  have c: "tail = ring_tail ?s" "0 < unat chunk" "unat chunk \<le> 4096 - unat tail mod 4096" "unat chunk \<le> ring_used ?s"
    "length (log_ring ?s) = 4096" using y by (auto simp: ring_ok_defs chunk_ok_def)
  show "ring_ok z" using y by (auto simp: ring_ok_defs z split: producer.splits)
  have b: "chunk_bytes tail chunk ?s = ring_bytes (log_ring ?s) tail (unat chunk)"
    using ring_bytes_chunk [OF c(5,3)] by (simp add: chunk_bytes_def ring_off)
  have "ring_used ?s = unat chunk + unat (ring_head ?s - (tail + chunk))"
    using c by (simp add: ring_used_def used_after_chunk)
  then have "queue_of y = ring_bytes (log_ring ?s) tail (unat chunk) @ queue_of z"
    using c(1) y(2) by (simp add: queue_of_def taken_def z ring_bytes_add flip: ring_used_def)
  then show "fifo_step (Hand_out (chunk_bytes tail chunk ?s)) (queue_of y) = Some (queue_of z)"
    using c(2) b by (auto simp flip: length_greater_0_conv)
qed

lemma logger_release_sim:
  assumes y: "ring_ok y" "lg_logger y = Sent tail chunk"
    and z: "z = y\<lparr>lg_st := (lg_st y)\<lparr>ring_tail := tail + chunk\<rparr>, lg_logger := Scanning\<rparr>"
  shows "ring_ok z" "queue_of z = queue_of y" "ring_used (lg_st z) < ring_used (lg_st y)"
proof -
  have c: "tail = ring_tail (lg_st y)" "0 < unat chunk" "unat chunk \<le> ring_used (lg_st y)"
    using y by (auto simp: ring_ok_defs chunk_ok_def)
  have u: "ring_used (lg_st z) = ring_used (lg_st y) - unat chunk" using c by (simp add: z ring_used_def used_after_chunk)
  then show "ring_ok z" using y by (auto simp: ring_ok_defs line_fits_def z split: producer.splits)
  show "queue_of z = queue_of y" by (simp add: queue_of_def taken_def y(2)) (simp add: z)
  show "ring_used (lg_st z) < ring_used (lg_st y)" using u c by linarith
qed

lemma logger_scan_sim:
  assumes y: "ring_ok y" "lg_logger y = Scanning" and u: "ring_head (lg_st y) - ring_tail (lg_st y) \<noteq> 0"
    and z: "z = y\<lparr>lg_logger := Sending (ring_tail (lg_st y)) (chunk_of (ring_tail (lg_st y)) (ring_head (lg_st y) - ring_tail (lg_st y)))\<rparr>"
  shows "ring_ok z" "queue_of z = queue_of y"
proof -
  have "0 < ring_used (lg_st y)" using u by (simp add: ring_used_def unat_gt_0)
  moreover have "unat (ring_tail (lg_st y)) mod 4096 < 4096" by simp
  ultimately have "chunk_ok (ring_tail (lg_st y)) (chunk_of (ring_tail (lg_st y)) (ring_head (lg_st y) - ring_tail (lg_st y))) (lg_st y)"
    by (simp add: chunk_ok_def unat_chunk_of flip: ring_used_def)
  then show "ring_ok z" using y by (auto simp: ring_ok_defs z split: producer.splits)
  show "queue_of z = queue_of y" by (simp add: queue_of_def taken_def y(2)) (simp add: z)
qed

lemma logger_step_sim:
  assumes "logger_step y = Some (e, z)" "ring_ok y"
  shows "ring_ok z \<and> fifo_step e (queue_of y) = Some (queue_of z)"
proof (cases "lg_logger y")
  case Waiting
  then show ?thesis using assms by (auto simp: Let_def ring_ok_defs line_fits_def ring_used_def queue_of_def taken_def split: producer.splits if_splits)
next
  case Scanning
  then show ?thesis
  proof (cases "ring_head (lg_st y) - ring_tail (lg_st y) = 0")
    case True
    then show ?thesis using assms Scanning by (auto simp: Let_def ring_ok_defs queue_of_def taken_def split: producer.splits)
  next
    case False
    then show ?thesis using assms Scanning logger_scan_sim [OF assms(2) Scanning False] by (auto simp: Let_def)
  qed
next
  case (Sending tail chunk)
  then show ?thesis using assms logger_send_sim [OF assms(2) Sending] by (auto simp: Let_def)
next
  case (Sent tail chunk)
  then show ?thesis using assms logger_release_sim [OF assms(2) Sent] by (auto simp: Let_def)
next
  case Caught_up
  then show ?thesis using assms by (auto simp: Let_def ring_ok_defs queue_of_def taken_def word_gt_0 split: producer.splits if_splits)
next
  case (Clearing d)
  then show ?thesis using assms by (auto simp: Let_def ring_ok_defs line_fits_def ring_used_def queue_of_def taken_def split: producer.splits)
next
  case (Reporting d)
  then show ?thesis using assms by (auto simp: Let_def ring_ok_defs queue_of_def taken_def split: producer.splits)
qed

lemma log_start_ok: "ring_ok log_start" "queue_of log_start = []"
  by (simp_all add: log_start_def ring_ok_defs ring_used_def log_init_def log_power_on_def queue_of_def taken_def ring_bytes_def)

lemma log_run_sim:
  assumes "log_run es x y" "ring_ok x"
  shows "ring_ok y \<and> fifo_run es (queue_of x) = Some (queue_of y)"
  using assms
proof (induction rule: log_run.induct)
  case (run_push es x y e z)
  then show ?case using push_step_sim [OF run_push(2)] by (simp add: fifo_run_snoc)
next
  case (run_logger es x y e z)
  then show ?case using logger_step_sim [OF run_logger(2)] by (simp add: fifo_run_snoc del: logger_step.simps)
qed simp

text \<open>
  (C26) Whatever the tasks that log and the logger task do and however they are interleaved, the ring is a
  queue of bytes: every accepted line is appended whole, the logger hands out exactly the accepted bytes
  in their order, and at most 4096 of them wait. The counters may wrap around.
\<close>

theorem log_refines_fifo:
  assumes "log_run es log_start y"
  shows "fifo_run es [] = Some (queue_of y) \<and> accepted es = handed_out es @ queue_of y \<and> length (queue_of y) \<le> 4096"
proof -
  have r: "ring_ok y" "fifo_run es [] = Some (queue_of y)" using log_run_sim [OF assms log_start_ok(1)] by (simp_all add: log_start_ok(2))
  have "length (queue_of y) \<le> 4096" using taken_used [OF r(1)] r(1) by (simp add: queue_of_def ring_ok_def)
  then show ?thesis using r(2) fifo_run_bytes [OF r(2)] by simp
qed

section \<open>The logger falls asleep only when it is done\<close>

text \<open>A line or a drop that the logger will not see in its present round has a notification on its way.\<close>

definition wake_ok :: "log_sys \<Rightarrow> bool" where
  "wake_ok y \<longleftrightarrow> log_task_handle (lg_st y) \<and>
     (log_notified (lg_st y) \<or> 0 < lg_giving y \<or>
      (case lg_logger y of
         Waiting \<Rightarrow> \<not> log_busy (lg_st y)
       | Reporting d \<Rightarrow> \<not> log_busy (lg_st y)
       | Caught_up \<Rightarrow> ring_head (lg_st y) = ring_tail (lg_st y)
       | Clearing d \<Rightarrow> ring_head (lg_st y) = ring_tail (lg_st y)
       | _ \<Rightarrow> True))"

lemma push_step_wake:
  assumes "push_step e y z" "wake_ok y"
  shows "wake_ok z"
  using assms by (induction rule: push_step.induct) (auto simp: wake_ok_def notify_logger_def log_busy_def split: logger.splits)

lemma logger_step_wake:
  assumes "logger_step y = Some (e, z)" "wake_ok y"
  shows "wake_ok z"
  using assms by (cases "lg_logger y") (auto simp: wake_ok_def Let_def log_busy_def split: if_splits)

lemma log_run_wake:
  assumes "log_run es x y" "wake_ok x"
  shows "wake_ok y"
  using assms by (induction rule: log_run.induct) (auto intro: push_step_wake logger_step_wake simp del: logger_step.simps)

text \<open>The logger task alone, until it blocks, with the number of its steps as fuel.\<close>

fun logger_alone :: "nat \<Rightarrow> log_sys \<Rightarrow> log_sys" where
  "logger_alone 0 y = y"
| "logger_alone (Suc n) y = (case logger_step y of None \<Rightarrow> y | Some (e, z) \<Rightarrow> logger_alone n z)"

fun logger_work :: "log_sys \<Rightarrow> nat" where
  "logger_work y =
     (if log_notified (lg_st y) then 5 + 3 * ring_used (lg_st y) else 0) +
     (case lg_logger y of Waiting \<Rightarrow> 0 | Reporting d \<Rightarrow> 1 | Clearing d \<Rightarrow> 2 | Caught_up \<Rightarrow> 3
      | Scanning \<Rightarrow> 4 + 3 * ring_used (lg_st y) | Sending t c \<Rightarrow> 3 + 3 * ring_used (lg_st y) | Sent t c \<Rightarrow> 2 + 3 * ring_used (lg_st y))"

lemma logger_step_work:
  assumes "logger_step y = Some (e, z)" "ring_ok y"
  shows "logger_work z < logger_work y"
proof (cases "\<exists>t c. lg_logger y = Sent t c")
  case True
  then obtain t c where s: "lg_logger y = Sent t c" by blast
  then show ?thesis using assms logger_release_sim(3) [OF assms(2) s] by (auto simp: Let_def)
next
  case False
  then show ?thesis using assms(1) by (cases "lg_logger y") (auto simp: Let_def ring_used_def split: if_splits)
qed

lemma logger_alone_blocks:
  assumes "ring_ok y" "wake_ok y" "lg_giving y = 0" "logger_work y \<le> n"
  shows "logger_step (logger_alone n y) = None \<and> wake_ok (logger_alone n y) \<and> lg_giving (logger_alone n y) = 0"
  using assms
proof (induction n arbitrary: y)
  case 0
  then have "logger_step y = None" using logger_step_work [of y] by (cases "logger_step y") (auto simp del: logger_step.simps)
  then show ?case using 0 by (simp del: logger_step.simps)
next
  case (Suc n)
  show ?case
  proof (cases "logger_step y")
    case None
    then show ?thesis using Suc.prems by (simp del: logger_step.simps)
  next
    case (Some a)
    obtain e z where z: "logger_step y = Some (e, z)" using Some by (cases a) simp
    have "lg_giving z = lg_giving y" using z by (cases "lg_logger y") (auto simp: Let_def split: if_splits)
    moreover have "logger_work z \<le> n" using logger_step_work [OF z Suc.prems(1)] Suc.prems(4) by linarith
    ultimately show ?thesis
      using Suc.IH [of z] Suc.prems logger_step_sim [OF z Suc.prems(1)] logger_step_wake [OF z Suc.prems(2)] z by (simp del: logger_step.simps logger_work.simps)
  qed
qed

text \<open>
  (C27) No notification is lost: in every reachable state in which no task stands between publishing a line
  and notifying the logger, the logger task on its own sends everything and reports every drop it
  knows of within 24,600 of its steps before it blocks, and
  \<open>log_flush\<close> returns at its next look.
\<close>

theorem log_drains:
  assumes "log_run es log_start y" "lg_giving y = 0" "24600 \<le> n"
  shows "logger_step (logger_alone n y) = None \<and> \<not> log_busy (lg_st (logger_alone n y))
    \<and> flush_loop deadline [(lg_st (logger_alone n y), now)] = Some True"
proof -
  have r: "ring_ok y" "wake_ok y" using log_run_sim [OF assms(1) log_start_ok(1)] log_run_wake [OF assms(1)]
    by (simp_all add: wake_ok_def log_start_def log_init_def log_power_on_def log_busy_def)
  have "ring_used (lg_st y) \<le> 4096" using r(1) by (simp add: ring_ok_def)
  then have "logger_work y \<le> n" using assms(3) by (cases "lg_logger y") auto
  then have b: "logger_step (logger_alone n y) = None" "wake_ok (logger_alone n y)" "lg_giving (logger_alone n y) = 0"
    using logger_alone_blocks [OF r assms(2)] by blast+
  then have "\<not> log_busy (lg_st (logger_alone n y))"
    by (cases "lg_logger (logger_alone n y)") (auto simp: wake_ok_def Let_def split: if_splits)
  then show ?thesis using b(1) by simp
qed

section \<open>Where bytes and counts are lost\<close>

text \<open>
  The timeout of a transmission covers all of a chunk and its result is ignored: at 115,200 baud
  1152 bytes leave in the 100 ms, so when more than that waits in one piece, the logger sends the
  first 1152 bytes, releases all of them and counts no drop.
\<close>

theorem log_burst_cut:
  assumes "log_uart s" "length (log_ring s) = 4096" "0 < ring_used s" "ring_used s \<le> 4096 - unat (ring_tail s) mod 4096"
    and "log_dropped s = 0"
  shows "log_task_turn (\<lambda>n. min n 1152) s =
    (take 1152 (ring_bytes (log_ring s) (ring_tail s) (ring_used s)), s\<lparr>log_notified := False, ring_tail := ring_head s\<rparr>)"
proof -
  let ?s = "s\<lparr>log_notified := False\<rparr>"
  define chunk where "chunk = chunk_of (ring_tail s) (ring_head s - ring_tail s)"
  have u: "unat (ring_head s - ring_tail s) = ring_used s" by (simp add: ring_used_def)
  have "unat chunk = unat (ring_head s - ring_tail s)" using assms(4) by (simp add: chunk_def unat_chunk_of u)
  then have c: "chunk = ring_head s - ring_tail s" by (simp only: word_unat_eq_iff)
  have b: "chunk_bytes (ring_tail s) chunk ?s = ring_bytes (log_ring s) (ring_tail s) (ring_used s)"
    using ring_bytes_chunk [OF assms(2,4)] by (simp add: chunk_bytes_def ring_off c u)
  have e: "log_drain T (?s\<lparr>ring_tail := ring_head s\<rparr>) = ([], ?s\<lparr>ring_tail := ring_head s\<rparr>)" for T
    by (subst log_drain.simps) simp
  have "ring_head s \<noteq> ring_tail s" using assms(3) by (auto simp: ring_used_def)
  then have "log_drain (\<lambda>n. min n 1152) ?s = (take 1152 (ring_bytes (log_ring s) (ring_tail s) (ring_used s)), ?s\<lparr>ring_tail := ring_head s\<rparr>)"
    using b e assms(1,3) by (subst log_drain.simps) (simp add: Let_def chunk_def [symmetric] log_emit_def, simp add: c min_def)
  then show ?thesis using assms(5) by (simp add: log_task_turn_def Let_def)
qed

fun drops :: "log_event list \<Rightarrow> nat" where
  "drops (Drop l # es) = Suc (drops es)"
| "drops (_ # es) = drops es"
| "drops [] = 0"

fun reported :: "log_event list \<Rightarrow> nat" where
  "reported (Report d # es) = unat d + reported es"
| "reported (_ # es) = reported es"
| "reported [] = 0"

definition long_line :: string where
  "long_line = replicate 4097 (CHR ''x'')"

lemma push_long_line:
  assumes "log_run es x y" "lg_producer y = Unlocked" "log_push_lock (lg_st y)" "ring_head (lg_st y) = ring_tail (lg_st y)"
  shows "log_run (es @ [Silent, Silent, Drop long_line]) x
    (y\<lparr>lg_st := (lg_st y)\<lparr>log_dropped := log_dropped (lg_st y) + 1\<rparr>, lg_producer := Unlocked, lg_giving := Suc (lg_giving y)\<rparr>)"
proof -
  have "log_run (es @ [Silent]) x (y\<lparr>lg_producer := Full long_line 4097\<rparr>)"
    using assms by (intro run_push [OF assms(1)] push_full) (simp_all add: long_line_def ring_space_def hub_defs)
  from run_push [OF this push_read_dropped] have "log_run (es @ [Silent, Silent]) x (y\<lparr>lg_producer := Bumping long_line 4097 (log_dropped (lg_st y))\<rparr>)"
    by simp
  from run_push [OF this push_bump] show ?thesis by (simp add: long_line_def)
qed

lemma notify_once:
  assumes "log_run es x y" "lg_giving y = Suc k" "log_task_handle (lg_st y)"
  shows "log_run (es @ [Silent]) x (y\<lparr>lg_st := (lg_st y)\<lparr>log_notified := True\<rparr>, lg_giving := k\<rparr>)"
  using run_push [OF assms(1) push_notify [OF assms(2)]] assms(3) by (simp add: notify_logger_def)

text \<open>
  The count of dropped lines can lose drops: between reading \<open>log_dropped\<close> and clearing it the logger
  holds no lock, so a drop in between is overwritten. In this run two lines are dropped, one is
  reported, and the logger is asleep with nothing left to report.
\<close>

theorem log_drop_lost:
  "\<exists>es y. log_run es log_start y \<and> drops es = 2 \<and> reported es = 1 \<and> logger_step y = None \<and> lg_giving y = 0 \<and> \<not> log_busy (lg_st y)"
proof -
  define s0 where "s0 = log_init log_power_on"
  have s0: "log_push_lock s0" "log_task_handle s0" "ring_head s0 = 0" "ring_tail s0 = 0" "log_dropped s0 = 0" "\<not> log_notified s0"
    by (simp_all add: s0_def log_init_def log_power_on_def)
  have r0: "log_run [] log_start log_start" by (rule run_none)
  have r1: "log_run [Silent, Silent, Drop long_line] log_start \<lparr>lg_st = s0\<lparr>log_dropped := 1\<rparr>, lg_producer = Unlocked, lg_giving = 1, lg_logger = Waiting\<rparr>"
    using push_long_line [OF r0] s0 by (simp add: log_start_def s0_def [symmetric])
  have r2: "log_run [Silent, Silent, Drop long_line, Silent] log_start
      \<lparr>lg_st = s0\<lparr>log_dropped := 1, log_notified := True\<rparr>, lg_producer = Unlocked, lg_giving = 0, lg_logger = Waiting\<rparr>"
    using notify_once [OF r1] s0 by simp
  have r3: "log_run [Silent, Silent, Drop long_line, Silent, Silent, Silent, Silent] log_start
      \<lparr>lg_st = s0\<lparr>log_dropped := 1, log_notified := False\<rparr>, lg_producer = Unlocked, lg_giving = 0, lg_logger = Clearing 1\<rparr>"
    using run_logger [OF run_logger [OF run_logger [OF r2]]] s0 by (simp add: Let_def)
  have r4: "log_run [Silent, Silent, Drop long_line, Silent, Silent, Silent, Silent, Silent, Silent, Drop long_line] log_start
      \<lparr>lg_st = s0\<lparr>log_notified := False, log_dropped := 2\<rparr>, lg_producer = Unlocked, lg_giving = 1, lg_logger = Clearing 1\<rparr>"
    using push_long_line [OF r3] s0 by simp
  have r5: "log_run [Silent, Silent, Drop long_line, Silent, Silent, Silent, Silent, Silent, Silent, Drop long_line, Silent, Report 1] log_start
      \<lparr>lg_st = s0\<lparr>log_notified := False, log_dropped := 0\<rparr>, lg_producer = Unlocked, lg_giving = 1, lg_logger = Waiting\<rparr>"
    using run_logger [OF run_logger [OF r4]] s0 by (simp add: Let_def)
  have r6: "log_run [Silent, Silent, Drop long_line, Silent, Silent, Silent, Silent, Silent, Silent, Drop long_line, Silent, Report 1, Silent] log_start
      \<lparr>lg_st = s0\<lparr>log_dropped := 0, log_notified := True\<rparr>, lg_producer = Unlocked, lg_giving = 0, lg_logger = Waiting\<rparr>"
    using notify_once [OF r5] s0 by simp
  have r7: "log_run [Silent, Silent, Drop long_line, Silent, Silent, Silent, Silent, Silent, Silent, Drop long_line, Silent, Report 1, Silent, Silent, Silent, Silent] log_start
      \<lparr>lg_st = s0\<lparr>log_dropped := 0, log_notified := False\<rparr>, lg_producer = Unlocked, lg_giving = 0, lg_logger = Waiting\<rparr>"
    using run_logger [OF run_logger [OF run_logger [OF r6]]] s0 by (simp add: Let_def)
  show ?thesis by (intro exI conjI, rule r7) (simp_all add: log_busy_def Let_def s0)
qed

section \<open>Lines\<close>

lemma pad_dec_length: "0 < k \<Longrightarrow> n < 10 ^ k \<Longrightarrow> length (pad_dec k n) = k"
  using dec_str_length [of k n] by (simp add: pad_dec_def)

lemma log_prefix_length:
  assumes "unat ms < 1000"
  shows "length (log_prefix level epoch ms) = 18"
proof -
  define t where "t = unat ((epoch + 8 * 3600) mod 86400)"
  have t: "t < 86400" by (simp add: t_def unat_mod)
  obtain tm where tm: "gmtime_r t = Some tm" "tm_hour tm = int (t mod 86400 div 3600)" "tm_min tm = int (t mod 86400 div 60 mod 60)" "tm_sec tm = int (t mod 86400 mod 60)"
  proof -
    obtain y yd where y: "split_year 1970 0 = (y, yd)" by fastforce
    obtain m md where "split_month 0 (month_lens y) yd = (m, md)" by fastforce
    then show thesis using that t y by (simp add: gmtime_r_def Let_def)
  qed
  have "t mod 86400 div 3600 < 24" using t by (simp add: div_less_iff_less_mult)
  moreover have "t div 60 mod 60 < 60" "t mod 60 < 60" by simp_all
  ultimately show ?thesis using tm(2-) t assms
    by (simp only: log_prefix_def Let_def t_def [symmetric] tm(1) option.case) (simp add: pad_dec_length)
qed

text \<open>
  A log line keeps the shape of its documentation: a prefix of 18 characters, as much of the text as
  fits, and the line end, 159 bytes at most; it is queued whole or not at all.
\<close>

theorem log_line_shape:
  "\<exists>prefix. length prefix = 18 \<and> log_write level (Some m) H t w s =
      (let line = prefix @ take 139 m @ [CHR 0x0D, CHR 0x0A] in log_push line (of_nat (length line)) s)
    \<and> length (prefix @ take 139 m @ [CHR 0x0D, CHR 0x0A]) \<le> 159"
proof -
  define prefix where "prefix = log_prefix level (io_now_epoch t) (io_now_ms H t w)"
  have l: "length prefix = 18" unfolding prefix_def by (rule log_prefix_length [OF io_now_ms_bound])
  have "line_bytes prefix (Some m) = prefix @ take 139 m @ [CHR 0x0D, CHR 0x0A]"
    using l by (auto simp: line_bytes_def Let_def hub_defs)
  then have "log_write level (Some m) H t w s = (let line = prefix @ take 139 m @ [CHR 0x0D, CHR 0x0A] in log_push line (of_nat (length line)) s)"
    by (simp add: log_write_def log_vline_def prefix_def [symmetric] Let_def)
  then show ?thesis using l by (intro exI [of _ prefix]) auto
qed

section \<open>Instances\<close>

lemma demo_run: "\<exists>y. log_run [Silent, Silent, Accept ''ok'', Silent] log_start y \<and> lg_giving y = 0"
proof -
  have a: "log_run ([] @ [Silent]) log_start (log_start\<lparr>lg_producer := Copying ''ok'' 2 (ring_head (lg_st log_start))\<rparr>)"
    by (intro run_push [OF run_none] push_fits) (simp_all add: log_start_def log_init_def log_power_on_def ring_space_def hub_defs)
  obtain y where y: "log_run [Silent, Silent] log_start y" "lg_producer y = Publishing ''ok'' 2 (ring_head (lg_st log_start))" "lg_giving y = 0" "log_task_handle (lg_st y)"
    using run_push [OF a push_copy] by (force simp: log_start_def log_init_def)
  have "\<exists>z. log_run [Silent, Silent, Accept ''ok''] log_start z \<and> lg_giving z = Suc 0 \<and> log_task_handle (lg_st z)"
    using run_push [OF y(1) push_publish [OF y(2)]] y(3,4) by force
  then show ?thesis using notify_once by force
qed

theorem log_refines_fifo_witness:
  "\<exists>y. log_run [Silent, Silent, Accept ''ok'', Silent] log_start y
    \<and> fifo_run [Silent, Silent, Accept ''ok'', Silent] [] = Some (queue_of y) \<and> queue_of y = ''ok''"
  using demo_run log_refines_fifo [of "[Silent, Silent, Accept ''ok'', Silent]"] by fastforce

theorem log_drains_witness:
  "\<exists>y. log_run [Silent, Silent, Accept ''ok'', Silent] log_start y \<and> lg_giving y = 0
    \<and> logger_step (logger_alone 24600 y) = None \<and> \<not> log_busy (lg_st (logger_alone 24600 y))"
  using demo_run log_drains [of "[Silent, Silent, Accept ''ok'', Silent]" _ 24600] by blast

definition burst_st :: log_st where
  "burst_st = \<lparr>log_ring = replicate 4096 (CHR ''x''), ring_head = 0x100004B0, ring_tail = 0x10000000, log_push_lock = True,
     log_task_handle = True, log_dropped = 0, log_uart = True, log_notified = True\<rparr>"

theorem log_burst_cut_witness:
  "length (fst (log_task_turn (\<lambda>n. min n 1152) burst_st)) = 1152 \<and> ring_used burst_st = 1200
    \<and> snd (log_task_turn (\<lambda>n. min n 1152) burst_st) = burst_st\<lparr>log_notified := False, ring_tail := 0x100004B0\<rparr>"
proof -
  have "ring_used burst_st = 1200" by (simp add: ring_used_def burst_st_def)
  then show ?thesis using log_burst_cut [of burst_st] by (simp add: burst_st_def)
qed

end
