(* ===== verification/Ftpd.thy ===== *)
theory Ftpd
  imports Web_Cmds
begin

unbundle bit_operations_syntax

text \<open>
  The FTP server of \<open>src/net/ftpd.c\<close>: one task serves up to three sessions; a command is handled
  to its end, with its transfer, before the next one. The sockets of lwIP, littlefs and the tick are
  parameters (record \<open>ftp_host\<close>). The file that a transfer has open is a local variable of the command, so
  the file operations need no handle. \<open>history_fs_lock\<close> and \<open>history_fs_unlock\<close> only exclude the history task
  and do not appear. A transfer loop may run as long as the peer sends, so a command is a partial
  function: \<open>None\<close> means that it never returns.

  Text is a list of characters without its terminating zero; \<open>cstr\<close> is the C string at the start of a buffer.
\<close>

section \<open>Interfaces\<close>

record ftp_flags =
  of_write :: bool
  of_creat :: bool
  of_trunc :: bool
  of_append :: bool

record 'w ftp_host =
  so_send :: "int \<Rightarrow> string \<Rightarrow> 'w \<Rightarrow> int \<times> 'w"
  so_recv :: "int \<Rightarrow> nat \<Rightarrow> 'w \<Rightarrow> (int \<times> string \<times> bool) \<times> 'w"
  so_close :: "int \<Rightarrow> 'w \<Rightarrow> 'w"
  so_socket :: "'w \<Rightarrow> int \<times> 'w"
  so_bind :: "int \<Rightarrow> u16 \<Rightarrow> 'w \<Rightarrow> int \<times> 'w"
  so_listen :: "int \<Rightarrow> nat \<Rightarrow> 'w \<Rightarrow> int \<times> 'w"
  so_getport :: "int \<Rightarrow> 'w \<Rightarrow> u16 \<times> 'w"
  so_connect :: "int \<Rightarrow> u8 list \<times> u16 \<Rightarrow> 'w \<Rightarrow> int \<times> 'w"
  so_select :: "int list \<Rightarrow> nat \<Rightarrow> 'w \<Rightarrow> (int \<times> int list) \<times> 'w"
  so_accept :: "int \<Rightarrow> 'w \<Rightarrow> int \<times> 'w"
  so_timeout :: "int \<Rightarrow> nat \<Rightarrow> 'w \<Rightarrow> 'w"
  so_netif :: "'w \<Rightarrow> u8 list option"
  so_aton :: "string \<Rightarrow> u8 list option"
  fh_tick_ms :: "'w \<Rightarrow> u32"
  fh_clock :: "'w \<Rightarrow> time_st"
  fh_behind :: "nat \<Rightarrow> 'w \<Rightarrow> string"
  fh_lfs :: "'w lfs_ops"
  fh_hist :: "'w \<Rightarrow> hist_st"
  fs_mounted :: "'w \<Rightarrow> bool"
  fs_stat :: "string \<Rightarrow> 'w \<Rightarrow> lfs_info option \<times> 'w"
  fs_list :: "string \<Rightarrow> 'w \<Rightarrow> lfs_info list option \<times> 'w"
  fs_open :: "string \<Rightarrow> ftp_flags \<Rightarrow> 'w \<Rightarrow> bool \<times> 'w"
  fs_size :: "'w \<Rightarrow> int \<times> 'w"
  fs_seek :: "int \<Rightarrow> bool \<Rightarrow> 'w \<Rightarrow> int \<times> 'w"
  fs_read :: "nat \<Rightarrow> 'w \<Rightarrow> (int \<times> string) \<times> 'w"
  fs_write :: "string \<Rightarrow> 'w \<Rightarrow> int \<times> 'w"
  fs_close :: "'w \<Rightarrow> 'w"
  fs_remove :: "string \<Rightarrow> 'w \<Rightarrow> int \<times> 'w"
  fs_mkdir :: "string \<Rightarrow> 'w \<Rightarrow> int \<times> 'w"
  fs_rename :: "string \<Rightarrow> string \<Rightarrow> 'w \<Rightarrow> int \<times> 'w"

definition FTP_MAX_CLIENTS :: nat where [hub_defs]: "FTP_MAX_CLIENTS = 3"
definition FTP_SESSION_TIMEOUT_MS :: u32 where [hub_defs]: "FTP_SESSION_TIMEOUT_MS = 120 * 1000"
definition FTP_CTRL_TIMEOUT_MS :: nat where [hub_defs]: "FTP_CTRL_TIMEOUT_MS = 10000"
definition FTP_DATA_TIMEOUT_MS :: nat where [hub_defs]: "FTP_DATA_TIMEOUT_MS = 15000"
definition FTP_CTRL_PORT :: u16 where [hub_defs]: "FTP_CTRL_PORT = 21"
definition FTP_PASS :: string where [hub_defs]: "FTP_PASS = ''admin''"
definition FTP_BUF_SIZE :: nat where [hub_defs]: "FTP_BUF_SIZE = 512"

record ftp_session =
  ctrl :: int
  authed :: bool
  anon :: bool
  data_listen :: int
  data_is_port :: bool
  port_addr :: "u8 list \<times> u16"
  cwd :: string
  type_ascii :: bool
  rest :: u32
  rename_from :: string
  rename_pending :: bool
  pending_cr :: bool
  last_activity :: u32

definition zero_session :: ftp_session where
  "zero_session = \<lparr>ctrl = 0, authed = False, anon = False, data_listen = 0, data_is_port = False, port_addr = ([0, 0, 0, 0], 0), cwd = [],
     type_ascii = False, rest = 0, rename_from = [], rename_pending = False, pending_cr = False, last_activity = 0\<rparr>"

definition CR :: char where [hub_defs]: "CR = CHR 0x0D"
definition LF :: char where [hub_defs]: "LF = CHR 0x0A"

definition cstr :: "string \<Rightarrow> string" where
  "cstr s = takeWhile (\<lambda>c. c \<noteq> CHR 0x00) s"

definition now_ms :: "'w ftp_host \<Rightarrow> 'w \<Rightarrow> u32" where
  "now_ms H w = fh_tick_ms H w"

section \<open>Sending\<close>

text \<open>The arguments of \<open>ftp_send\<close> are constants of fewer than 510 characters.\<close>

definition ftp_send :: "'w ftp_host \<Rightarrow> int \<Rightarrow> string \<Rightarrow> 'w \<Rightarrow> 'w" where
  "ftp_send H s msg w = snd (so_send H s (take (FTP_BUF_SIZE - 1) (msg @ [CR, LF])) w)"

definition ftp_sendf :: "'w ftp_host \<Rightarrow> int \<Rightarrow> string \<Rightarrow> 'w \<Rightarrow> 'w" where
  "ftp_sendf H s txt w =
     (let len = length txt; len = (if len + 2 \<ge> FTP_BUF_SIZE then FTP_BUF_SIZE - 3 else len)
      in snd (so_send H s (take len txt @ [CR, LF]) w))"

function send_all :: "'w ftp_host \<Rightarrow> int \<Rightarrow> string \<Rightarrow> 'w \<Rightarrow> bool \<times> 'w" where
  "send_all H s buf w =
     (if buf = [] then (True, w)
      else case so_send H s buf w of (n, w) \<Rightarrow> if n \<le> 0 then (False, w) else send_all H s (drop (nat n) buf) w)"
  by pat_completeness auto
termination by (relation "measure (\<lambda>(H, s, buf, w). length buf)") auto

declare send_all.simps [simp del]

section \<open>Paths\<close>

definition SL :: char where [hub_defs]: "SL = CHR ''/''"

definition norm_part :: "string list \<Rightarrow> string \<Rightarrow> string list" where
  "norm_part parts c =
     (if c = ''.'' then parts
      else if c = ''..'' then (if parts \<noteq> [] then butlast parts else parts)
      else if length parts < 16 then parts @ [take 47 c] else parts)"

function norm_parts :: "string list \<Rightarrow> string \<Rightarrow> string list" where
  "norm_parts parts p =
     (let p = dropWhile (\<lambda>c. c = SL) p
      in if p = [] then parts
         else norm_parts (norm_part parts (takeWhile (\<lambda>c. c \<noteq> SL) p)) (dropWhile (\<lambda>c. c \<noteq> SL) p))"
  by pat_completeness auto
termination
proof (relation "measure (\<lambda>(parts, p). length p)")
  fix parts p x
  assume x: "x = dropWhile (\<lambda>c. c = SL) p" "x \<noteq> []"
  obtain c r where c: "x = c # r" using x(2) by (metis neq_Nil_conv)
  have "hd x \<noteq> SL" unfolding x(1) by (rule hd_dropWhile) (use x in \<open>simp only: not_False_eq_True\<close>)
  then have "c \<noteq> SL" using c by simp
  then have "length (dropWhile (\<lambda>c. c \<noteq> SL) x) \<le> length r" using c by (simp add: length_dropWhile_le)
  moreover have "length x \<le> length p" using x by (simp add: length_dropWhile_le)
  ultimately show "((norm_part parts (takeWhile (\<lambda>c. c \<noteq> SL) x), dropWhile (\<lambda>c. c \<noteq> SL) x), parts, p) \<in> measure (\<lambda>(parts, p). length p)"
    using c by simp
qed simp

declare norm_parts.simps [simp del]

fun join_parts :: "nat \<Rightarrow> string \<Rightarrow> string list \<Rightarrow> string" where
  "join_parts outlen out [] = out"
| "join_parts outlen out (p # ps) =
     (if length out < outlen - 1
      then if length out + length p + 1 \<ge> outlen then out else join_parts outlen (out @ p @ [SL]) ps
      else out)"

definition norm_path :: "nat \<Rightarrow> string \<Rightarrow> string \<Rightarrow> string" where
  "norm_path outlen dir input =
     (let base = (if take 1 input = ''/'' then [] else dir);
          tmp = take 159 (base @ ''/'' @ input);
          out = join_parts outlen (if 0 < outlen - 1 then [SL] else []) (norm_parts [] tmp)
      in if length out > 1 \<and> last out = SL then butlast out else out)"

definition fs_path :: "string \<Rightarrow> string \<Rightarrow> string" where
  "fs_path dir client_path = norm_path FTP_BUF_SIZE dir client_path"

definition get_local_ip :: "'w ftp_host \<Rightarrow> 'w \<Rightarrow> u8 list" where
  "get_local_ip H w = (case so_netif H w of None \<Rightarrow> [0, 0, 0, 0] | Some a4 \<Rightarrow> a4)"

section \<open>ASCII transfers\<close>

fun ascii_crlf :: "string \<Rightarrow> string" where
  "ascii_crlf [] = []"
| "ascii_crlf (c # cs) = (if c = LF then CR # c # ascii_crlf cs else c # ascii_crlf cs)"

fun strip_pairs :: "string \<Rightarrow> string" where
  "strip_pairs (c # d # cs) = (if c = CR \<and> d = LF then strip_pairs (d # cs) else c # strip_pairs (d # cs))"
| "strip_pairs [c] = [c]"
| "strip_pairs [] = []"

definition ascii_strip_cr :: "string \<Rightarrow> bool \<Rightarrow> string \<times> bool" where
  "ascii_strip_cr buf pending =
     (let start = (if pending \<and> 0 < length buf \<and> hd buf = LF then 1 else 0 :: nat);
          out = strip_pairs (drop start buf)
      in if length buf > start \<and> last buf = CR then (if 0 < length out then butlast out else out, True) else (out, False))"

section \<open>Listing\<close>

definition ftp_months :: "string list" where
  "ftp_months = [''Jan'', ''Feb'', ''Mar'', ''Apr'', ''May'', ''Jun'', ''Jul'', ''Aug'', ''Sep'', ''Oct'', ''Nov'', ''Dec'']"

definition isdigit :: "char \<Rightarrow> bool" where
  "isdigit c \<longleftrightarrow> CHR ''0'' \<le> c \<and> c \<le> CHR ''9''"

text \<open>The numbers that the loop of \<open>parse_hist_time\<close> reads, each at two characters after the one before.\<close>

fun hist_numbers :: "nat list \<Rightarrow> string \<Rightarrow> u32 list option" where
  "hist_numbers [] s = Some []"
| "hist_numbers (i # is) s =
     (let s = (if i = 2 then dropWhile (\<lambda>c. c = CHR ''_'') s else s)
      in if length s < 2 \<or> \<not> isdigit (s ! 0) \<or> \<not> isdigit (s ! 1) then None
         else case strtoul_10 s of
           None \<Rightarrow> None
         | Some (x, e) \<Rightarrow> map_option (\<lambda>v. x # v) (hist_numbers is (drop 2 s)))"

definition parse_hist_time :: "string \<Rightarrow> (nat \<times> nat \<times> nat \<times> nat) option" where
  "parse_hist_time name =
     (if take 5 name \<noteq> ''data_'' then None
      else case hist_numbers [0..<4] (drop 5 name) of
        Some [mo, da, ho, mi] \<Rightarrow>
          if mo < 1 \<or> mo > 12 \<or> da < 1 \<or> da > 31 \<or> ho > 23 \<or> mi > 59 then None
          else Some (unat mo, unat da, unat ho, unat mi)
      | _ \<Rightarrow> None)"

definition pad_to :: "nat \<Rightarrow> char \<Rightarrow> nat \<Rightarrow> string" where
  "pad_to k c n = replicate (k - length (dec_str n)) c @ dec_str n"

definition ls_time :: "nat \<Rightarrow> nat \<Rightarrow> nat \<Rightarrow> nat \<Rightarrow> string" where
  "ls_time mon day hour minute =
     ftp_months ! mon @ '' '' @ pad_to 2 (CHR '' '') day @ '' '' @ pad_to 2 (CHR ''0'') hour @ '':'' @ pad_to 2 (CHR ''0'') minute"

definition format_ls_time :: "u32 \<Rightarrow> string \<Rightarrow> string" where
  "format_ls_time epoch name =
     (case parse_hist_time name of
        Some (mon, day, hour, minute) \<Rightarrow> ls_time (mon - 1) day hour minute
      | None \<Rightarrow>
          (case gmtime_r (unat epoch) of
             None \<Rightarrow> ls_time 0 1 0 0
           | Some lt \<Rightarrow> ls_time (nat (tm_mon lt)) (nat (tm_mday lt)) (nat (tm_hour lt)) (nat (tm_min lt))))"

definition ls_line :: "bool \<Rightarrow> string \<Rightarrow> u32 \<Rightarrow> u32 \<Rightarrow> string \<Rightarrow> string" where
  "ls_line long_fmt kind epoch len name =
     (if long_fmt then kind @ '' 1 owner group '' @ pad_to 10 (CHR '' '') (unat len) @ '' '' @ format_ls_time epoch name @ '' '' @ name @ [CR, LF]
      else name @ [CR, LF])"

section \<open>Data connections\<close>

definition data_listen_open :: "'w ftp_host \<Rightarrow> ftp_session \<Rightarrow> 'w \<Rightarrow> int \<times> u16 \<times> ftp_session \<times> 'w" where
  "data_listen_open H s w =
     (let w = (if data_listen s \<ge> 0 then so_close H (data_listen s) w else w);
          (fd, w) = so_socket H w;
          s = s\<lparr>data_is_port := False, data_listen := fd\<rparr>
      in if fd < 0 then (- 1, 0, s, w)
         else let (rb, w) = so_bind H fd 0 w; (rl, w) = (if rb < 0 then (rb, w) else so_listen H fd 1 w)
           in if rl < 0 then (- 2, 0, s\<lparr>data_listen := - 1\<rparr>, so_close H fd w)
              else let (port, w) = so_getport H fd w in (0, port, s, w))"

definition passive_failed :: "int \<Rightarrow> string" where
  "passive_failed rc = (if rc = - 2 then ''425 Passive bind failed'' else ''425 Cannot open passive connection'')"

definition cmd_pasv :: "'w ftp_host \<Rightarrow> ftp_session \<Rightarrow> 'w \<Rightarrow> ftp_session \<times> 'w" where
  "cmd_pasv H s w =
     (case data_listen_open H s w of (rc, port, s, w) \<Rightarrow>
      if rc \<noteq> 0 then (s, ftp_send H (ctrl s) (passive_failed rc) w)
      else let a4 = get_local_ip H w; dec = (\<lambda>b. dec_str (unat (b :: u8)))
        in (s, ftp_sendf H (ctrl s) (''227 Entering Passive Mode ('' @ dec (a4 ! 0) @ '','' @ dec (a4 ! 1) @ '','' @ dec (a4 ! 2) @ '','' @ dec (a4 ! 3) @ '',''
             @ dec_str (unat (drop_bit 8 port AND 0xFF)) @ '','' @ dec_str (unat (port AND 0xFF)) @ '')'') w))"

definition cmd_epsv :: "'w ftp_host \<Rightarrow> ftp_session \<Rightarrow> 'w \<Rightarrow> ftp_session \<times> 'w" where
  "cmd_epsv H s w =
     (case data_listen_open H s w of (rc, port, s, w) \<Rightarrow>
      if rc \<noteq> 0 then (s, ftp_send H (ctrl s) (passive_failed rc) w)
      else (s, ftp_sendf H (ctrl s) (''229 Entering Extended Passive Mode (|||'' @ dec_str (unat port) @ ''|)'') w))"

fun port_numbers :: "nat list \<Rightarrow> string \<Rightarrow> u32 list option" where
  "port_numbers [] arg = Some []"
| "port_numbers (i # is) arg =
     (case strtoul_10 arg of
        None \<Rightarrow> None
      | Some (x, e) \<Rightarrow>
          if x > 255 \<or> (i < 5 \<and> take 1 e \<noteq> '','') then None
          else map_option (\<lambda>v. x # v) (port_numbers is (drop 1 e)))"

definition close_listen :: "'w ftp_host \<Rightarrow> ftp_session \<Rightarrow> 'w \<Rightarrow> ftp_session \<times> 'w" where
  "close_listen H s w =
     (if data_listen s \<ge> 0 then (s\<lparr>data_listen := - 1\<rparr>, so_close H (data_listen s) w) else (s, w))"

definition cmd_port :: "'w ftp_host \<Rightarrow> ftp_session \<Rightarrow> string \<Rightarrow> 'w \<Rightarrow> ftp_session \<times> 'w" where
  "cmd_port H s arg w =
     (case port_numbers [0..<6] arg of
        None \<Rightarrow> (s, ftp_send H (ctrl s) ''501 Syntax error in parameters'' w)
      | Some v \<Rightarrow>
          let (s, w) = close_listen H s w
          in (s\<lparr>port_addr := (map ucast (take 4 v), ucast (push_bit 8 (v ! 4) OR v ! 5)), data_is_port := True\<rparr>,
              ftp_send H (ctrl s) ''200 PORT command successful'' w))"

definition bar :: char where [hub_defs]: "bar = CHR ''|''"

definition strtoul_value :: "string \<Rightarrow> u32" where
  "strtoul_value s = (case strtoul_10 s of None \<Rightarrow> 0 | Some (x, _) \<Rightarrow> x)"

definition eprt_fields :: "string \<Rightarrow> (u32 \<times> string \<times> u32) option" where
  "eprt_fields arg =
     (let r = drop 1 arg; p1 = dropWhile (\<lambda>c. c \<noteq> bar) r; q = drop 1 p1; p2 = dropWhile (\<lambda>c. c \<noteq> bar) q
      in if take 1 arg \<noteq> [bar] \<or> p1 = [] \<or> p2 = [] then None
         else Some (strtoul_value r, takeWhile (\<lambda>c. c \<noteq> bar) q, strtoul_value (drop 1 p2)))"

definition cmd_eprt :: "'w ftp_host \<Rightarrow> ftp_session \<Rightarrow> string \<Rightarrow> 'w \<Rightarrow> ftp_session \<times> 'w" where
  "cmd_eprt H s arg w =
     (let bad = (s, ftp_send H (ctrl s) ''522 Network protocol not supported, use (1)'' w)
      in case eprt_fields arg of
           None \<Rightarrow> bad
         | Some (proto, ipstr, port) \<Rightarrow>
             if proto \<noteq> 1 \<or> port = 0 \<or> port > 0xFFFF \<or> ipstr = [] \<or> length ipstr \<ge> 32 then bad
             else (case so_aton H ipstr of
                     None \<Rightarrow> (s, ftp_send H (ctrl s) ''501 Bad address'' w)
                   | Some a4 \<Rightarrow>
                       let (s, w) = close_listen H s w
                       in (s\<lparr>port_addr := (a4, ucast port), data_is_port := True\<rparr>, ftp_send H (ctrl s) ''200 EPRT command successful'' w)))"

definition open_data :: "'w ftp_host \<Rightarrow> ftp_session \<Rightarrow> 'w \<Rightarrow> int \<times> ftp_session \<times> 'w" where
  "open_data H s w =
     (if data_is_port s
      then let s = s\<lparr>data_is_port := False\<rparr>; (d, w) = so_socket H w
        in if d < 0 then (- 1, s, w)
           else (case so_connect H d (port_addr s) w of (rc, w) \<Rightarrow>
                 if rc < 0 then (- 1, s, so_close H d w) else (d, s, so_timeout H d FTP_DATA_TIMEOUT_MS w))
      else if data_listen s < 0 then (- 1, s, w)
      else (case so_select H [data_listen s] FTP_DATA_TIMEOUT_MS w of ((n, ready), w) \<Rightarrow>
            if n \<le> 0 \<or> data_listen s \<notin> set ready then (- 1, s\<lparr>data_listen := - 1\<rparr>, so_close H (data_listen s) w)
            else let (d, w) = so_accept H (data_listen s) w;
                     w = so_close H (data_listen s) w;
                     s = s\<lparr>data_listen := - 1\<rparr>
              in (d, s, if d \<ge> 0 then so_timeout H d FTP_DATA_TIMEOUT_MS w else w)))"

definition drop_data_listen :: "'w ftp_host \<Rightarrow> ftp_session \<Rightarrow> 'w \<Rightarrow> ftp_session \<times> 'w" where
  "drop_data_listen H s w =
     (let (s, w) = close_listen H s w in (s\<lparr>data_is_port := False\<rparr>, w))"

section \<open>LIST, RETR and STOR\<close>

text \<open>
  The bytes that are sent for a line printed into the buffer of the session: \<open>snprintf\<close> returns the length the whole text would
  have, and that many bytes are sent from the buffer even when it is too small; \<open>fh_behind\<close> is the memory behind the buffer.
\<close>

definition printed :: "'w ftp_host \<Rightarrow> string \<Rightarrow> 'w \<Rightarrow> string" where
  "printed H line w =
     (if length line < FTP_BUF_SIZE then line
      else take (FTP_BUF_SIZE - 1) line @ [CHR 0x00] @ fh_behind H (length line - FTP_BUF_SIZE) w)"

fun list_loop :: "'w ftp_host \<Rightarrow> int \<Rightarrow> bool \<Rightarrow> lfs_info list \<Rightarrow> 'w \<Rightarrow> 'w" where
  "list_loop H data long_fmt [] w = w"
| "list_loop H data long_fmt (i # infos) w =
     (if li_name i = ''.'' \<or> li_name i = ''..'' then list_loop H data long_fmt infos w
      else case send_all H data
          (printed H (ls_line long_fmt (if li_reg i then ''-rw-r--r--'' else ''drwxr-xr-x'') (io_now_epoch (fh_clock H w)) (li_size i) (li_name i)) w) w of
        (ok, w) \<Rightarrow> if ok then list_loop H data long_fmt infos w else w)"

definition base_name :: "string \<Rightarrow> string" where
  "base_name path = rev (takeWhile (\<lambda>c. c \<noteq> SL) (rev path))"

definition cmd_list :: "'w ftp_host \<Rightarrow> ftp_session \<Rightarrow> string \<Rightarrow> bool \<Rightarrow> 'w \<Rightarrow> ftp_session \<times> 'w" where
  "cmd_list H s path long_fmt w =
     (let fspath = fs_path (cwd s) path
      in case (if fs_mounted H w then fs_stat H fspath w else (None, w)) of
           (None, w) \<Rightarrow> drop_data_listen H s (ftp_send H (ctrl s) ''550 No such file or directory'' w)
         | (Some st, w) \<Rightarrow>
             (case open_data H s w of (data, s, w) \<Rightarrow>
              if data < 0 then (s, ftp_send H (ctrl s) ''425 No data connection'' w)
              else if li_reg st
              then let base = base_name path;
                       w = ftp_send H (ctrl s) ''150 Here comes the file listing'' w;
                       w = snd (send_all H data (printed H
                             (ls_line long_fmt ''-rw-r--r--'' (io_now_epoch (fh_clock H w)) (li_size st) base) w) w)
                in (s, ftp_send H (ctrl s) ''226 Transfer complete'' (so_close H data w))
              else let w = ftp_send H (ctrl s) ''150 Here comes the directory listing'' w;
                       w = (if fs_mounted H w
                            then case fs_list H fspath w of (None, w) \<Rightarrow> w | (Some infos, w) \<Rightarrow> list_loop H data long_fmt infos w
                            else w)
                in (s, ftp_send H (ctrl s) ''226 Directory send OK'' (so_close H data w))))"

partial_function (option) retr_loop :: "'w ftp_host \<Rightarrow> int \<Rightarrow> bool \<Rightarrow> 'w \<Rightarrow> 'w option" where
  "retr_loop H data ascii w =
     (case (if fs_mounted H w then fs_read H (FTP_BUF_SIZE div 2) w else ((- 1, []), w)) of ((n, bs), w) \<Rightarrow>
      if n \<le> 0 then Some w
      else (case send_all H data (if ascii then ascii_crlf (take (nat n) bs) else take (nat n) bs) w of (ok, w) \<Rightarrow>
            if ok then retr_loop H data ascii w else Some w))"

definition retr_open :: "'w ftp_host \<Rightarrow> string \<Rightarrow> u32 \<Rightarrow> 'w \<Rightarrow> bool \<times> 'w" where
  "retr_open H fspath off w =
     (if \<not> fs_mounted H w then (False, w)
      else (case fs_open H fspath \<lparr>of_write = False, of_creat = False, of_trunc = False, of_append = False\<rparr> w of
              (False, w) \<Rightarrow> (False, w)
            | (True, w) \<Rightarrow>
                (case fs_size H w of (sz, w) \<Rightarrow>
                 if sz < 0 then (False, fs_close H w)
                 else if off > 0 then
                   (case fs_seek H (sint off) False w of (rc, w) \<Rightarrow> if rc < 0 then (False, fs_close H w) else (True, w))
                 else (True, w))))"

definition cmd_retr :: "'w ftp_host \<Rightarrow> ftp_session \<Rightarrow> string \<Rightarrow> 'w \<Rightarrow> (ftp_session \<times> 'w) option" where
  "cmd_retr H s path w =
     (if \<not> authed s then Some (drop_data_listen H s (ftp_send H (ctrl s) ''530 Not logged in'' w))
      else case retr_open H (fs_path (cwd s) path) (rest s) w of
        (False, w) \<Rightarrow> Some (drop_data_listen H (s\<lparr>rest := 0\<rparr>) (ftp_send H (ctrl s) ''550 Failed to open file'' w))
      | (True, w) \<Rightarrow>
          let w = ftp_send H (ctrl s) ''150 Opening data connection'' w
          in case open_data H s w of (data, s, w) \<Rightarrow>
            if data < 0 then Some (s\<lparr>rest := 0\<rparr>, ftp_send H (ctrl s) ''425 No data connection'' (fs_close H w))
            else (case retr_loop H data (type_ascii s) w of
                    None \<Rightarrow> None
                  | Some w \<Rightarrow> Some (s\<lparr>rest := 0\<rparr>, ftp_send H (ctrl s) ''226 Transfer complete'' (so_close H data (fs_close H w)))))"

partial_function (option) stor_loop :: "'w ftp_host \<Rightarrow> int \<Rightarrow> bool \<Rightarrow> bool \<Rightarrow> 'w \<Rightarrow> (bool \<times> 'w) option" where
  "stor_loop H data ascii pending w =
     (case so_recv H data FTP_BUF_SIZE w of ((n, bs, wb), w) \<Rightarrow>
      if n \<le> 0 then Some (pending, w)
      else (case (if ascii then ascii_strip_cr (take (nat n) bs) pending else (take (nat n) bs, pending)) of (out, pending) \<Rightarrow>
            if out = [] then stor_loop H data ascii pending w
            else (case (if fs_mounted H w then fs_write H out w else (- 1, w)) of (wr, w) \<Rightarrow>
                  if wr \<noteq> int (length out) then Some (pending, w) else stor_loop H data ascii pending w)))"

definition stor_open :: "'w ftp_host \<Rightarrow> string \<Rightarrow> bool \<Rightarrow> u32 \<Rightarrow> 'w \<Rightarrow> bool \<times> 'w" where
  "stor_open H fspath is_appe off w =
     (let flags = \<lparr>of_write = True, of_creat = True, of_trunc = \<not> is_appe \<and> off = 0, of_append = is_appe\<rparr>
      in if \<not> fs_mounted H w then (False, w)
         else (case fs_open H fspath flags w of
                 (False, w) \<Rightarrow> (False, w)
               | (True, w) \<Rightarrow> (True, if is_appe then snd (fs_seek H 0 True w) else if off > 0 then snd (fs_seek H (sint off) False w) else w)))"

definition cmd_stor :: "'w ftp_host \<Rightarrow> ftp_session \<Rightarrow> string \<Rightarrow> bool \<Rightarrow> 'w \<Rightarrow> (ftp_session \<times> 'w) option" where
  "cmd_stor H s path is_appe w =
     (if \<not> authed s \<or> anon s then Some (drop_data_listen H s (ftp_send H (ctrl s) ''530 Permission denied'' w))
      else case stor_open H (fs_path (cwd s) path) is_appe (rest s) w of
        (False, w) \<Rightarrow> Some (drop_data_listen H s (ftp_send H (ctrl s) ''550 Failed to open file'' w))
      | (True, w) \<Rightarrow>
          let w = ftp_send H (ctrl s) ''150 Ok to send data'' w
          in case open_data H s w of (data, s, w) \<Rightarrow>
            if data < 0 then Some (s\<lparr>rest := 0\<rparr>, ftp_send H (ctrl s) ''425 No data connection'' (fs_close H w))
            else (case stor_loop H data (type_ascii s) False w of
                    None \<Rightarrow> None
                  | Some (pending, w) \<Rightarrow>
                      Some (s\<lparr>pending_cr := pending, rest := 0\<rparr>,
                        ftp_send H (ctrl s) ''226 Transfer complete'' (so_close H data (fs_close H w)))))"

section \<open>Commands\<close>

definition toupper_az :: "char \<Rightarrow> char" where
  "toupper_az c = (if CHR ''a'' \<le> c \<and> c \<le> CHR ''z'' then char_of (of_char c - 32 :: nat) else c)"

definition cmd_word :: "string \<Rightarrow> string" where
  "cmd_word line = map toupper_az (take 7 (takeWhile (\<lambda>c. c \<noteq> CHR '' '') line))"

definition cmd_arg :: "string \<Rightarrow> string" where
  "cmd_arg line = drop 1 (dropWhile (\<lambda>c. c \<noteq> CHR '' '') line)"

definition may_write :: "ftp_session \<Rightarrow> bool" where
  "may_write s \<longleftrightarrow> authed s \<and> \<not> anon s"

text \<open>A change of the file system that is tried only with write permission; \<open>-1\<close> when it is not.\<close>

definition guarded :: "'w ftp_host \<Rightarrow> bool \<Rightarrow> ('w \<Rightarrow> int \<times> 'w) \<Rightarrow> 'w \<Rightarrow> int \<times> 'w" where
  "guarded H allowed f w = (if allowed \<and> fs_mounted H w then f w else (- 1, w))"

definition feat_text :: string where
  "feat_text = ''211-Features:'' @ [CR, LF] @ '' SIZE'' @ [CR, LF] @ '' PASV'' @ [CR, LF] @ '' EPSV'' @ [CR, LF] @ '' PORT'' @ [CR, LF]
     @ '' EPRT'' @ [CR, LF] @ '' REST STREAM'' @ [CR, LF] @ '' TYPE A;I'' @ [CR, LF] @ '' NLST'' @ [CR, LF] @ '' MKD'' @ [CR, LF] @ '' RMD'' @ [CR, LF] @ ''211 END''"

definition cmd_size :: "'w ftp_host \<Rightarrow> ftp_session \<Rightarrow> string \<Rightarrow> 'w \<Rightarrow> 'w" where
  "cmd_size H s arg w =
     (case (if fs_mounted H w then fs_stat H (fs_path (cwd s) arg) w else (None, w)) of
        (Some st, w) \<Rightarrow>
          if li_reg st then ftp_sendf H (ctrl s) (''213 '' @ dec_str (unat (li_size st))) w else ftp_send H (ctrl s) ''550 Not found'' w
      | (None, w) \<Rightarrow> ftp_send H (ctrl s) ''550 Not found'' w)"

definition cmd_rnfr :: "'w ftp_host \<Rightarrow> ftp_session \<Rightarrow> string \<Rightarrow> 'w \<Rightarrow> ftp_session \<times> 'w" where
  "cmd_rnfr H s arg w =
     (let fspath = fs_path (cwd s) arg
      in case (if may_write s \<and> fs_mounted H w then fs_stat H fspath w else (None, w)) of
           (None, w) \<Rightarrow> (s, ftp_send H (ctrl s) ''550 No such file'' w)
         | (Some st, w) \<Rightarrow> (s\<lparr>rename_from := take 127 fspath, rename_pending := True\<rparr>, ftp_send H (ctrl s) ''350 Ready for RNTO'' w))"

definition cmd_rnto :: "'w ftp_host \<Rightarrow> ftp_session \<Rightarrow> string \<Rightarrow> 'w \<Rightarrow> ftp_session \<times> 'w" where
  "cmd_rnto H s arg w =
     (case guarded H (rename_pending s \<and> may_write s) (fs_rename H (rename_from s) (fs_path (cwd s) arg)) w of (rc, w) \<Rightarrow>
      (s\<lparr>rename_pending := False\<rparr>, ftp_send H (ctrl s) (if rc = 0 then ''250 Rename successful'' else ''550 Rename failed'') w))"

definition cmd_remove :: "'w ftp_host \<Rightarrow> ftp_session \<Rightarrow> string \<Rightarrow> string \<Rightarrow> string \<Rightarrow> 'w \<Rightarrow> 'w" where
  "cmd_remove H s arg done failed w =
     (case guarded H (may_write s) (fs_remove H (fs_path (cwd s) arg)) w of (rc, w) \<Rightarrow>
      ftp_send H (ctrl s) (if rc = 0 then done else failed) w)"

definition cmd_mkd :: "'w ftp_host \<Rightarrow> ftp_session \<Rightarrow> string \<Rightarrow> 'w \<Rightarrow> 'w" where
  "cmd_mkd H s arg w =
     (case guarded H (may_write s) (fs_mkdir H (fs_path (cwd s) arg)) w of (rc, w) \<Rightarrow>
      if rc = 0 then ftp_sendf H (ctrl s) (''257 '' @ dq @ arg @ dq @ '' created'') w
      else ftp_send H (ctrl s) ''550 Cannot create directory'' w)"

definition ftp_sync :: "'w ftp_host \<Rightarrow> 'w \<Rightarrow> 'w" where
  "ftp_sync H w = history_sync (fh_lfs H) (fh_hist H w) w"

text \<open>The commands about the session itself; \<open>None\<close> when the word is another one.\<close>

definition session_command :: "'w ftp_host \<Rightarrow> ftp_session \<Rightarrow> string \<Rightarrow> string \<Rightarrow> 'w \<Rightarrow> (ftp_session \<times> 'w) option" where
  "session_command H s cmd arg w =
     (let say = (\<lambda>s msg. Some (s, ftp_send H (ctrl s) msg w)) in
      if cmd = ''USER'' then say (s\<lparr>anon := arg = ''anonymous'' \<or> arg = ''ftp'', rename_pending := False\<rparr>) ''331 Please specify the password''
      else if cmd = ''PASS'' then
        (if anon s \<or> arg = FTP_PASS then say (s\<lparr>authed := True\<rparr>) ''230 Login successful''
         else say (s\<lparr>authed := False\<rparr>) ''530 Login incorrect'')
      else if cmd = ''SYST'' then say s ''215 UNIX Type: L8''
      else if cmd = ''FEAT'' then say s feat_text
      else if cmd = ''TYPE'' then say (s\<lparr>type_ascii := take 1 arg = ''A'' \<or> take 1 arg = ''a''\<rparr>) ''200 Type set''
      else if cmd = ''PWD'' then Some (s, ftp_sendf H (ctrl s) (''257 '' @ dq @ cwd s @ dq @ '' is the current directory'') w)
      else if cmd = ''CWD'' then say (s\<lparr>cwd := norm_path 64 (cwd s) arg\<rparr>) ''250 Directory successfully changed''
      else if cmd = ''CDUP'' then say (s\<lparr>cwd := norm_path 64 (cwd s) ''..''\<rparr>) ''250 Directory successfully changed''
      else if cmd = ''PASV'' then Some (cmd_pasv H s w)
      else if cmd = ''EPSV'' then Some (cmd_epsv H s w)
      else if cmd = ''PORT'' then Some (cmd_port H s arg w)
      else if cmd = ''EPRT'' then Some (cmd_eprt H s arg w)
      else if cmd = ''REST'' then
        (let s = s\<lparr>rest := strtoul_value arg\<rparr>
         in Some (s, ftp_sendf H (ctrl s) (''350 Restart position accepted ('' @ dec_str (unat (rest s)) @ '')'') w))
      else if cmd = ''QUIT'' then Some (s\<lparr>ctrl := - 1\<rparr>, so_close H (ctrl s) (ftp_send H (ctrl s) ''221 Goodbye'' w))
      else if cmd = ''NOOP'' \<or> cmd = ''ALLO'' then say s ''200 OK''
      else None)"

definition file_command :: "'w ftp_host \<Rightarrow> ftp_session \<Rightarrow> string \<Rightarrow> string \<Rightarrow> 'w \<Rightarrow> (ftp_session \<times> 'w) option" where
  "file_command H s cmd arg w =
     (if cmd = ''LIST'' \<or> cmd = ''NLST'' then Some (cmd_list H s arg (cmd = ''LIST'') (ftp_sync H w))
      else if cmd = ''RETR'' then cmd_retr H s arg (ftp_sync H w)
      else if cmd = ''STOR'' \<or> cmd = ''APPE'' then cmd_stor H s arg (cmd = ''APPE'') w
      else if cmd = ''DELE'' then Some (s, cmd_remove H s arg ''250 Delete OK'' ''550 Delete failed'' w)
      else if cmd = ''MKD'' \<or> cmd = ''XMKD'' then Some (s, cmd_mkd H s arg w)
      else if cmd = ''RMD'' \<or> cmd = ''XRMD'' then Some (s, cmd_remove H s arg ''250 Remove OK'' ''550 Cannot remove'' w)
      else if cmd = ''SIZE'' then Some (s, cmd_size H s arg w)
      else if cmd = ''RNFR'' then Some (cmd_rnfr H s arg w)
      else if cmd = ''RNTO'' then Some (cmd_rnto H s arg w)
      else Some (s, ftp_send H (ctrl s) ''502 Command not implemented'' w))"

definition handle_command :: "'w ftp_host \<Rightarrow> ftp_session \<Rightarrow> string \<Rightarrow> 'w \<Rightarrow> (ftp_session \<times> 'w) option" where
  "handle_command H s line w =
     (let cmd = cmd_word line; arg = cmd_arg line; s = s\<lparr>last_activity := now_ms H w\<rparr>
      in case session_command H s cmd arg w of
           Some r \<Rightarrow> Some r
         | None \<Rightarrow> file_command H s cmd arg w)"

section \<open>Sessions\<close>

fun recv_bytes :: "'w ftp_host \<Rightarrow> int \<Rightarrow> nat \<Rightarrow> string \<Rightarrow> 'w \<Rightarrow> (int + string) \<times> 'w" where
  "recv_bytes H fd 0 line w = (Inr line, w)"
| "recv_bytes H fd (Suc n) line w =
     (case so_recv H fd 1 w of ((k, bs, wb), w) \<Rightarrow>
      if k \<le> 0 then (Inl (if k < 0 \<and> wb then - 1 else 0), w)
      else if hd bs = LF then (Inr line, w)
      else recv_bytes H fd n (line @ [hd bs]) w)"

definition trim_eol :: "string \<Rightarrow> string" where
  "trim_eol line = rev (dropWhile (\<lambda>c. c = CR \<or> c = LF) (rev line))"

definition recv_line :: "'w ftp_host \<Rightarrow> int \<Rightarrow> nat \<Rightarrow> 'w \<Rightarrow> (int \<times> string) \<times> 'w" where
  "recv_line H fd maxlen w =
     (case recv_bytes H fd (maxlen - 1) [] w of
        (Inl rc, w) \<Rightarrow> ((rc, []), w)
      | (Inr line, w) \<Rightarrow> ((int (length (trim_eol line)), trim_eol line), w))"

definition close_session :: "'w ftp_host \<Rightarrow> ftp_session \<Rightarrow> 'w \<Rightarrow> ftp_session \<times> 'w" where
  "close_session H s w =
     (let w = (if ctrl s \<ge> 0 then so_close H (ctrl s) w else w);
          w = (if data_listen s \<ge> 0 then so_close H (data_listen s) w else w)
      in (zero_session\<lparr>ctrl := - 1, data_listen := - 1, cwd := ''/''\<rparr>, w))"

definition ftp_sessions_init :: "ftp_session list" where
  "ftp_sessions_init = replicate FTP_MAX_CLIENTS (zero_session\<lparr>ctrl := - 1, data_listen := - 1, cwd := ''/''\<rparr>)"

definition ftp_listen :: "'w ftp_host \<Rightarrow> 'w \<Rightarrow> int option \<times> 'w" where
  "ftp_listen H w =
     (case so_socket H w of (serv, w) \<Rightarrow>
      if serv < 0 then (None, w)
      else (case so_bind H serv FTP_CTRL_PORT w of (rb, w) \<Rightarrow>
            if rb < 0 then (None, w)
            else (case so_listen H serv FTP_MAX_CLIENTS w of (rl, w) \<Rightarrow> (if rl < 0 then None else Some serv, w))))"

definition free_session :: "ftp_session list \<Rightarrow> nat option" where
  "free_session ss = List.find (\<lambda>i. ctrl (ss ! i) < 0) [0..<FTP_MAX_CLIENTS]"

definition accept_client :: "'w ftp_host \<Rightarrow> int \<Rightarrow> ftp_session list \<Rightarrow> 'w \<Rightarrow> ftp_session list \<times> 'w" where
  "accept_client H serv ss w =
     (case so_accept H serv w of (c, w) \<Rightarrow>
      if c < 0 then (ss, w)
      else (case free_session ss of
              None \<Rightarrow> (ss, so_close H c (snd (so_send H c (''421 Too many users'' @ [CR, LF]) w)))
            | Some i \<Rightarrow>
                (ss[i := zero_session\<lparr>ctrl := c, data_listen := - 1, last_activity := now_ms H w, cwd := ''/''\<rparr>],
                 ftp_send H c ''220 io-edge-hub FTP service ready'' (so_timeout H c FTP_CTRL_TIMEOUT_MS w))))"

definition serve_session :: "'w ftp_host \<Rightarrow> ftp_session \<Rightarrow> 'w \<Rightarrow> (ftp_session \<times> 'w) option" where
  "serve_session H s w =
     (case recv_line H (ctrl s) FTP_BUF_SIZE w of ((rl, line), w) \<Rightarrow>
      if rl > 0 then handle_command H s (cstr line) w
      else if rl = 0 then Some (close_session H s w)
      else Some (s, w))"

fun serve_ready :: "'w ftp_host \<Rightarrow> int list \<Rightarrow> nat list \<Rightarrow> ftp_session list \<Rightarrow> 'w \<Rightarrow> (ftp_session list \<times> 'w) option" where
  "serve_ready H ready [] ss w = Some (ss, w)"
| "serve_ready H ready (i # is) ss w =
     (if ctrl (ss ! i) \<ge> 0 \<and> ctrl (ss ! i) \<in> set ready
      then (case serve_session H (ss ! i) w of None \<Rightarrow> None | Some (s, w) \<Rightarrow> serve_ready H ready is (ss[i := s]) w)
      else serve_ready H ready is ss w)"

fun close_idle :: "'w ftp_host \<Rightarrow> u32 \<Rightarrow> nat list \<Rightarrow> ftp_session list \<Rightarrow> 'w \<Rightarrow> ftp_session list \<times> 'w" where
  "close_idle H now [] ss w = (ss, w)"
| "close_idle H now (i # is) ss w =
     (if ctrl (ss ! i) \<ge> 0 \<and> now - last_activity (ss ! i) > FTP_SESSION_TIMEOUT_MS
      then (case close_session H (ss ! i) w of (s, w) \<Rightarrow> close_idle H now is (ss[i := s]) w)
      else close_idle H now is ss w)"

definition ftp_turn :: "'w ftp_host \<Rightarrow> int \<Rightarrow> ftp_session list \<Rightarrow> 'w \<Rightarrow> (ftp_session list \<times> 'w) option" where
  "ftp_turn H serv ss w =
     (let fds = serv # map ctrl (filter (\<lambda>s. ctrl s \<ge> 0) ss)
      in case so_select H fds 1000 w of ((n, ready), w) \<Rightarrow>
        let served = (if n > 0
              then let (ss, w) = (if serv \<in> set ready then accept_client H serv ss w else (ss, w))
                in serve_ready H ready [0..<FTP_MAX_CLIENTS] ss w
              else Some (ss, w))
        in case served of
             None \<Rightarrow> None
           | Some (ss, w) \<Rightarrow> Some (close_idle H (now_ms H w) [0..<FTP_MAX_CLIENTS] ss w))"

end
