(* ===== verification/Ftp_Service.thy ===== *)
theory Ftp_Service
  imports Ftpd "HOL-Library.AList"
begin

unbundle bit_operations_syntax

text \<open>
  What the FTP server does: paths stay below the root, transfers carry the bytes of the file, a session
  that may only read changes nothing; and the cases in which it does something else than its
  comments say.
\<close>

section \<open>Paths\<close>

definition plain_part :: "string \<Rightarrow> bool" where
  "plain_part p \<longleftrightarrow> p \<noteq> [] \<and> p \<noteq> ''.'' \<and> p \<noteq> ''..'' \<and> SL \<notin> set p \<and> length p \<le> 47"

lemma norm_part_plain:
  assumes "\<forall>p\<in>set parts. plain_part p" "length parts \<le> 16" "c \<noteq> []" "SL \<notin> set c"
  shows "(\<forall>p\<in>set (norm_part parts c). plain_part p) \<and> length (norm_part parts c) \<le> 16"
proof -
  have keep: "take 47 c \<noteq> x" if "c \<noteq> x" "length x < 47" for x
  proof
    assume "take 47 c = x"
    then have "length c < 47" using that(2) by auto
    then show False using \<open>take 47 c = x\<close> that(1) by simp
  qed
  have "plain_part (take 47 c)" if "c \<noteq> ''.''" "c \<noteq> ''..''"
    using keep [OF that(1)] keep [OF that(2)] assms(3,4) by (auto simp: plain_part_def dest: in_set_takeD)
  then show ?thesis using assms by (auto simp: norm_part_def dest: in_set_butlastD)
qed

lemma norm_parts_plain:
  "\<forall>p\<in>set parts. plain_part p \<Longrightarrow> length parts \<le> 16
    \<Longrightarrow> (\<forall>p\<in>set (norm_parts parts s). plain_part p) \<and> length (norm_parts parts s) \<le> 16"
proof (induction parts s rule: norm_parts.induct)
  case (1 parts s)
  define x where "x = dropWhile (\<lambda>c. c = SL) s"
  have e: "norm_parts parts s = (if x = [] then parts else norm_parts (norm_part parts (takeWhile (\<lambda>c. c \<noteq> SL) x)) (dropWhile (\<lambda>c. c \<noteq> SL) x))"
    by (subst norm_parts.simps) (simp add: Let_def x_def)
  show ?case
  proof (cases "x = []")
    case True
    then show ?thesis using 1(2,3) by (simp add: e)
  next
    case False
    have "hd x \<noteq> SL" unfolding x_def by (rule hd_dropWhile) (use False x_def in \<open>simp only: not_False_eq_True\<close>)
    then have c: "takeWhile (\<lambda>c. c \<noteq> SL) x \<noteq> []" using False by (cases x) auto
    have "SL \<notin> set (takeWhile (\<lambda>c. c \<noteq> SL) x)" by (auto dest: set_takeWhileD)
    from norm_part_plain [OF 1(2,3) c this] show ?thesis using 1(1) [OF x_def False] False by (simp add: e)
  qed
qed

lemma join_parts_prefix:
  assumes "length out < outlen"
  shows "\<exists>k. join_parts outlen out ps = out @ concat (map (\<lambda>p. p @ [SL]) (take k ps)) \<and> length (join_parts outlen out ps) < outlen"
  using assms
proof (induction ps arbitrary: out)
  case (Cons p ps)
  show ?case
  proof (cases "length out < outlen - 1 \<and> length out + length p + 1 < outlen")
    case True
    then obtain k where "join_parts outlen (out @ p @ [SL]) ps = (out @ p @ [SL]) @ concat (map (\<lambda>p. p @ [SL]) (take k ps))"
        "length (join_parts outlen (out @ p @ [SL]) ps) < outlen"
      using Cons.IH [of "out @ p @ [SL]"] by auto
    then show ?thesis using True by (intro exI [of _ "Suc k"]) simp
  next
    case False
    then have "join_parts outlen out (p # ps) = out" by auto
    then show ?thesis using Cons.prems by (intro exI [of _ 0]) simp
  qed
qed simp

definition path_of :: "string list \<Rightarrow> string" where
  "path_of ps = (if ps = [] then [SL] else concat (map (\<lambda>p. SL # p) ps))"

lemma slash_concat: "SL # concat (map (\<lambda>p. p @ [SL]) ps) = concat (map (\<lambda>p. SL # p) ps) @ [SL]"
  by (induction ps) auto

lemma join_butlast:
  assumes "out = [SL] @ concat (map (\<lambda>p. p @ [SL]) ps)" "\<forall>p\<in>set ps. p \<noteq> []"
  shows "(if length out > 1 \<and> last out = SL then butlast out else out) = path_of ps"
proof (cases ps)
  case Nil
  then show ?thesis using assms by (simp add: path_of_def)
next
  case (Cons p qs)
  have "out = concat (map (\<lambda>p. SL # p) ps) @ [SL]" using assms(1) by (simp add: slash_concat)
  then show ?thesis using Cons by (simp add: path_of_def butlast_append)
qed

text \<open>
  Every path the server hands to the file system is an absolute path of plain components: whatever the client sends and
  whatever its directory, no \<open>..\<close> is left and the text fits its buffer.
\<close>

theorem ftp_path_confined:
  assumes "2 \<le> outlen"
  shows "\<exists>ps. norm_path outlen dir input = path_of ps \<and> (\<forall>p\<in>set ps. plain_part p) \<and> length ps \<le> 16
    \<and> length (norm_path outlen dir input) < outlen"
proof -
  define ps where "ps = norm_parts [] (take 159 ((if take 1 input = ''/'' then [] else dir) @ ''/'' @ input))"
  have ps: "\<forall>p\<in>set ps. plain_part p" "length ps \<le> 16" using norm_parts_plain [of "[]"] by (auto simp: ps_def)
  obtain k where k: "join_parts outlen [SL] ps = [SL] @ concat (map (\<lambda>p. p @ [SL]) (take k ps))" "length (join_parts outlen [SL] ps) < outlen"
    using join_parts_prefix [of "[SL]" outlen ps] assms by auto
  have "norm_path outlen dir input = (let out = join_parts outlen [SL] ps in if length out > 1 \<and> last out = SL then butlast out else out)"
    using assms by (simp add: norm_path_def Let_def ps_def)
  moreover have t: "\<forall>p\<in>set (take k ps). plain_part p" using ps(1) by (meson in_set_takeD)
  moreover have "(let out = join_parts outlen [SL] ps in if length out > 1 \<and> last out = SL then butlast out else out) = path_of (take k ps)"
    using join_butlast [OF k(1)] t by (simp add: Let_def plain_part_def)
  moreover have "length (let out = join_parts outlen [SL] ps in if length out > 1 \<and> last out = SL then butlast out else out) < outlen"
    using k(2) by (auto simp: Let_def)
  ultimately show ?thesis using ps(2) by (intro exI [of _ "take k ps"]) simp
qed

theorem ftp_path_confined_witness:
  "\<exists>ps. norm_path 64 ''/data'' ''../../etc/./x'' = path_of ps \<and> (\<forall>p\<in>set ps. plain_part p)"
  using ftp_path_confined [of 64 "''/data''" "''../../etc/./x''"] by auto

section \<open>ASCII uploads\<close>

text \<open>What an ASCII upload writes when its data arrives in the pieces \<open>css\<close>.\<close>

fun store_ascii :: "bool \<Rightarrow> string list \<Rightarrow> string" where
  "store_ascii pending [] = []"
| "store_ascii pending (c # cs) = (case ascii_strip_cr c pending of (out, pending) \<Rightarrow> out @ store_ascii pending cs)"

lemma strip_cons: "c \<noteq> CR \<Longrightarrow> strip_pairs (c # r) = c # strip_pairs r"
  by (cases r) auto

lemma strip_append: "x = [] \<or> last x \<noteq> CR \<Longrightarrow> strip_pairs (x @ y) = strip_pairs x @ strip_pairs y"
  by (induction x rule: strip_pairs.induct) (auto simp: strip_cons)

lemma ascii_crlf_append: "ascii_crlf (a @ b) = ascii_crlf a @ ascii_crlf b"
  by (induction a) auto

lemma last_ascii_crlf: "CR \<notin> set d \<Longrightarrow> ascii_crlf d = [] \<or> last (ascii_crlf d) \<noteq> CR"
  by (induction d) (auto simp: hub_defs)

lemma strip_crlf: "CR \<notin> set d \<Longrightarrow> strip_pairs (ascii_crlf d) = d"
proof (induction d)
  case (Cons c cs)
  have "LF \<noteq> CR" by (simp add: hub_defs)
  then show ?case using Cons by (auto simp: strip_cons)
qed simp

lemma store_ascii_pieces: "\<forall>c\<in>set css. c \<noteq> [] \<and> last c \<noteq> CR \<Longrightarrow> store_ascii False css = strip_pairs (concat css)"
  by (induction css) (auto simp: ascii_strip_cr_def Let_def strip_append)

text \<open>
  An ASCII upload stores the text that the client converted, with its line ends back to single line feeds, when no
  piece that arrives ends between a carriage return and its line feed.
\<close>

theorem ftp_ascii_roundtrip:
  assumes "CR \<notin> set d" "concat css = ascii_crlf d" "\<forall>c\<in>set css. c \<noteq> [] \<and> last c \<noteq> CR"
  shows "store_ascii False css = d"
  using store_ascii_pieces [OF assms(3)] strip_crlf [OF assms(1)] assms(2) by simp

text \<open>
  When a piece does end there, the line end is lost: the carriage return is taken off the end of the first piece and the line
  feed is skipped at the start of the second, although the two together should leave one line feed.
\<close>

theorem ftp_ascii_newline_lost:
  assumes "CR \<notin> set a" "CR \<notin> set b"
  shows "(ascii_crlf a @ [CR]) @ (LF # ascii_crlf b) = ascii_crlf (a @ LF # b) \<and> store_ascii False [ascii_crlf a @ [CR], LF # ascii_crlf b] = a @ b"
proof -
  have "strip_pairs (ascii_crlf a @ [CR]) = a @ [CR]" using strip_append [OF last_ascii_crlf [OF assms(1)]] strip_crlf [OF assms(1)] by simp
  then have "ascii_strip_cr (ascii_crlf a @ [CR]) False = (a, True)" by (simp add: ascii_strip_cr_def)
  moreover have "ascii_strip_cr (LF # ascii_crlf b) True = (b, False)"
    using strip_crlf [OF assms(2)] last_ascii_crlf [OF assms(2)] by (auto simp: ascii_strip_cr_def Let_def)
  ultimately show ?thesis by (simp add: ascii_crlf_append)
qed

section \<open>Transfers\<close>

text \<open>
  A transfer over a connection and a file system that work: \<open>content\<close> is what is left of the open file, \<open>out\<close> what was
  sent on the connection, \<open>inp\<close> the pieces that will arrive and \<open>stored\<close> what was written.
\<close>

locale ftp_transfer =
  fixes H :: "'w ftp_host" and d :: int and content :: "'w \<Rightarrow> string" and out :: "'w \<Rightarrow> string"
    and inp :: "'w \<Rightarrow> string list" and stored :: "'w \<Rightarrow> string"
  assumes mounted: "fs_mounted H w"
    and file_read: "fs_read H n w = ((k, bs), w') \<Longrightarrow> 0 < n
      \<Longrightarrow> k = int (length bs) \<and> bs = take n (content w) \<and> content w' = drop n (content w) \<and> out w' = out w"
    and conn_send: "so_send H d buf w = (k, w') \<Longrightarrow> buf \<noteq> [] \<Longrightarrow> 0 < k \<and> k \<le> int (length buf) \<and> out w' = out w @ take (nat k) buf \<and> content w' = content w"
    and conn_end: "so_recv H d FTP_BUF_SIZE w = ((k, bs, wb), w') \<Longrightarrow> inp w = [] \<Longrightarrow> k \<le> 0 \<and> stored w' = stored w"
    and conn_recv: "so_recv H d FTP_BUF_SIZE w = ((k, bs, wb), w') \<Longrightarrow> inp w = c # cs
      \<Longrightarrow> bs = c \<and> k = int (length c) \<and> c \<noteq> [] \<and> inp w' = cs \<and> stored w' = stored w"
    and file_write: "fs_write H buf w = (k, w') \<Longrightarrow> k = int (length buf) \<and> stored w' = stored w @ buf \<and> inp w' = inp w"
begin

lemma send_all_ok: "\<exists>w'. send_all H d buf w = (True, w') \<and> out w' = out w @ buf \<and> content w' = content w"
proof (induction "length buf" arbitrary: buf w rule: less_induct)
  case less
  show ?case
  proof (cases "buf = []")
    case False
    obtain k v where v: "so_send H d buf w = (k, v)" by fastforce
    note s = conn_send [OF v False]
    have "length (drop (nat k) buf) < length buf" using s False by simp
    from less [OF this, of v] obtain w' where w': "send_all H d (drop (nat k) buf) v = (True, w')"
        "out w' = out v @ drop (nat k) buf" "content w' = content v" by blast
    show ?thesis using False v s w' by (subst send_all.simps) simp
  qed (simp add: send_all.simps)
qed

lemma retr_loop_ok:
  "\<exists>w'. retr_loop H d ascii w = Some w' \<and> out w' = out w @ (if ascii then ascii_crlf (content w) else content w)"
proof (induction "length (content w)" arbitrary: w rule: less_induct)
  case less
  obtain k bs v where v: "fs_read H (FTP_BUF_SIZE div 2) w = ((k, bs), v)" by (metis prod.collapse)
  have z: "0 < FTP_BUF_SIZE div 2" by (simp add: hub_defs)
  have r: "k = int (length bs)" "content w = bs @ content v" "out v = out w" "bs = [] \<longrightarrow> content w = []"
    using file_read [OF v z] z by auto
  show ?case
  proof (cases "bs = []")
    case True
    then show ?thesis using v r mounted by (subst retr_loop.simps) simp
  next
    case False
    define b where "b = (if ascii then ascii_crlf bs else bs)"
    obtain u where u: "send_all H d b v = (True, u)" "out u = out v @ b" "content u = content v" using send_all_ok by blast
    have "length (content u) < length (content w)" using u(3) r(2) False by simp
    from less [OF this] obtain w' where w': "retr_loop H d ascii u = Some w'"
      "out w' = out u @ (if ascii then ascii_crlf (content u) else content u)" by blast
    have "out w' = out w @ (if ascii then ascii_crlf (content w) else content w)"
      using w'(2) u(2,3) r(2,3) by (simp add: b_def ascii_crlf_append)
    moreover have "retr_loop H d ascii w = Some w'"
      using v r(1) False mounted u(1) w'(1) by (subst retr_loop.simps) (cases ascii; simp add: b_def)
    ultimately show ?thesis by blast
  qed
qed

lemma stor_loop_ok:
  "\<exists>p w'. stor_loop H d ascii pending w = Some (p, w') \<and> stored w' = stored w @ (if ascii then store_ascii pending (inp w) else concat (inp w))"
proof (induction "inp w" arbitrary: w pending)
  case Nil
  obtain k bs wb v where v: "so_recv H d FTP_BUF_SIZE w = ((k, bs, wb), v)" by (metis prod.collapse)
  then show ?case using conn_end [OF v] Nil by (subst stor_loop.simps) (auto simp flip: Nil)
next
  case (Cons c cs)
  obtain k bs wb v where v: "so_recv H d FTP_BUF_SIZE w = ((k, bs, wb), v)" by (metis prod.collapse)
  have r: "bs = c" "k = int (length c)" "c \<noteq> []" "inp v = cs" "stored v = stored w" using conn_recv [OF v Cons(2) [symmetric]] by auto
  obtain t p where t: "(if ascii then ascii_strip_cr c pending else (c, pending)) = (t, p)" by fastforce
  have spec: "(if ascii then store_ascii pending (inp w) else concat (inp w)) = t @ (if ascii then store_ascii p cs else concat cs)"
    using t Cons(2) by (auto simp flip: Cons(2) split: if_splits)
  show ?case
  proof (cases "t = []")
    case True
    have "stor_loop H d ascii pending w = stor_loop H d ascii p v" using v r t True mounted by (subst stor_loop.simps) (cases ascii; simp)
    then show ?thesis using Cons(1) [of v p] r True spec by auto
  next
    case False
    obtain k2 u where u: "fs_write H t v = (k2, u)" by fastforce
    have "stor_loop H d ascii pending w = stor_loop H d ascii p u" using v r t False u file_write [OF u] mounted by (subst stor_loop.simps) (cases ascii; simp)
    then show ?thesis using Cons(1) [of u p] r file_write [OF u] spec by auto
  qed
qed

end

lemma sint_nonneg_unat:
  assumes "0 \<le> sint (v :: u32)"
  shows "nat (sint v) = unat v"
proof -
  have "uint (of_int (sint v) :: u32) = sint v" using assms sint_lt [of v] by (simp add: uint_word_of_int take_bit_eq_mod del: of_int_sint)
  then show ?thesis by (simp add: unat_eq_nat_uint)
qed

text \<open>
  The file behind a transfer: \<open>ftext p w\<close> is the text of the file with the path \<open>p\<close>, and \<open>whole\<close> the text of the open file. A file that is
  opened for reading is positioned at its start, \<open>lfs_file_seek\<close> takes an offset that is not negative and puts the position there, and
  neither the size nor the sockets move it.
\<close>

locale ftp_download = ftp_transfer +
  fixes ftext :: "string \<Rightarrow> 'w \<Rightarrow> string option" and whole :: "'w \<Rightarrow> string"
  assumes file_open: "fs_open H p \<lparr>of_write = False, of_creat = False, of_trunc = False, of_append = False\<rparr> w = (True, w')
      \<Longrightarrow> ftext p w = Some (whole w') \<and> content w' = whole w'"
    and file_size: "content (snd (fs_size H w)) = content w" "whole (snd (fs_size H w)) = whole w"
    and file_seek: "fs_seek H off False w = (rc, w') \<Longrightarrow> 0 \<le> rc \<Longrightarrow> 0 \<le> off \<and> content w' = drop (nat off) (whole w)"
    and net_content [simp]: "content (snd (so_send H fd buf w)) = content w" "content (so_close H fd w) = content w" "content (snd (so_socket H w)) = content w"
      "content (snd (so_connect H fd addr w)) = content w" "content (snd (so_select H fds n w)) = content w" "content (snd (so_accept H fd w)) = content w"
      "content (so_timeout H fd n w) = content w"
begin

lemma ftp_send_content [simp]: "content (ftp_send H fd msg w) = content w"
  by (simp add: ftp_send_def)

lemma open_data_content: "open_data H s w = (data, s', w') \<Longrightarrow> content w' = content w"
  by (auto simp: open_data_def Let_def split_beta split: if_splits)

lemma retr_open_content:
  assumes "retr_open H p off w = (True, w')"
  shows "\<exists>t. ftext p w = Some t \<and> content w' = drop (unat off) t"
proof -
  let ?rd = "\<lparr>of_write = False, of_creat = False, of_trunc = False, of_append = False\<rparr>"
  obtain w1 where w1: "fs_open H p ?rd w = (True, w1)" using assms mounted by (auto simp: retr_open_def split: prod.splits bool.splits)
  obtain sz w2 where w2: "fs_size H w1 = (sz, w2)" by fastforce
  have c: "content w2 = content w1" "whole w2 = whole w1" using file_size [of w1] w2 by simp_all
  show ?thesis
  proof (cases "off > 0")
    case True
    obtain rc w3 where w3: "fs_seek H (sint off) False w2 = (rc, w3)" by fastforce
    have rc: "0 \<le> rc" "w' = w3" using assms True w1 w2 w3 mounted by (auto simp: retr_open_def split: if_splits)
    have k: "0 \<le> sint off" "content w' = drop (nat (sint off)) (whole w2)" using file_seek [OF w3 rc(1)] rc(2) by simp_all
    have "nat (sint off) = unat off" using k(1) by (rule sint_nonneg_unat)
    then show ?thesis using file_open [OF w1] c k by simp
  next
    case False
    then have "w' = w2" "off = 0" using assms w1 w2 mounted by (auto simp: retr_open_def word_greater_zero_iff split: if_splits)
    then show ?thesis using file_open [OF w1] c by simp
  qed
qed

end

text \<open>
  (C22) A download is complete: with a connection and a file system that work, \<open>RETR\<close> on a file that can be opened returns and has sent
  exactly the text of the file behind the restart position, in ASCII mode with every line feed preceded by a carriage return.
\<close>

theorem ftp_download_complete:
  assumes "ftp_download H d content out inp stored ftext whole" "authed s" "0 \<le> d"
    and "retr_open H (fs_path (cwd s) path) (rest s) w = (True, w1)"
    and "open_data H s (ftp_send H (ctrl s) ''150 Opening data connection'' w1) = (d, s2, w2)"
  shows "\<exists>t w3. ftext (fs_path (cwd s) path) w = Some t
    \<and> cmd_retr H s path w = Some (s2\<lparr>rest := 0\<rparr>, ftp_send H (ctrl s2) ''226 Transfer complete'' (so_close H d (fs_close H w3)))
    \<and> out w3 = out w2 @ (if type_ascii s2 then ascii_crlf (drop (unat (rest s)) t) else drop (unat (rest s)) t)"
proof -
  note T = ftp_download.axioms(1) [OF assms(1)]
  obtain t where t: "ftext (fs_path (cwd s) path) w = Some t" "content w1 = drop (unat (rest s)) t"
    using ftp_download.retr_open_content [OF assms(1,4)] by blast
  have "content w2 = content w1"
    using ftp_download.open_data_content [OF assms(1,5)] ftp_download.ftp_send_content [OF assms(1)] by simp
  then show ?thesis using t ftp_transfer.retr_loop_ok [OF T, of "type_ascii s2" w2] assms(2-) by (auto simp: cmd_retr_def Let_def)
qed

text \<open>
  An upload is stored: \<open>STOR\<close> and \<open>APPE\<close> return when the client closes the connection and have written the bytes that
  arrived, in ASCII mode after \<open>ascii_strip_cr\<close> on every piece.
\<close>

theorem ftp_upload_stored:
  assumes "ftp_transfer H d content out inp stored" "authed s" "\<not> anon s" "0 \<le> d"
    and "stor_open H (fs_path (cwd s) path) appe (rest s) w = (True, w1)"
    and "open_data H s (ftp_send H (ctrl s) ''150 Ok to send data'' w1) = (d, s2, w2)"
  shows "\<exists>p w3. cmd_stor H s path appe w = Some (s2\<lparr>pending_cr := p, rest := 0\<rparr>, ftp_send H (ctrl s2) ''226 Transfer complete'' (so_close H d (fs_close H w3)))
    \<and> stored w3 = stored w2 @ (if type_ascii s2 then store_ascii False (inp w2) else concat (inp w2))"
  using ftp_transfer.stor_loop_ok [OF assms(1), of "type_ascii s2" False w2] assms(2-) by (auto simp: cmd_stor_def Let_def)

text \<open>
  A failed upload is reported as complete: when the file system refuses the data (a full disk), the transfer
  stops and the client is told \<open>226 Transfer complete\<close>.
\<close>

theorem ftp_failed_upload_reported_complete:
  assumes "authed s" "\<not> anon s" "0 \<le> d" "stor_open H (fs_path (cwd s) path) appe (rest s) w = (True, w1)"
    and "open_data H s (ftp_send H (ctrl s) ''150 Ok to send data'' w1) = (d, s2, w2)" "\<not> type_ascii s2"
    and "so_recv H d FTP_BUF_SIZE w2 = ((int (length bs), bs, wb), w3)" "bs \<noteq> []"
    and "fs_mounted H w3" "fs_write H bs w3 = (k, w4)" "k \<noteq> int (length bs)"
  shows "cmd_stor H s path appe w = Some (s2\<lparr>pending_cr := False, rest := 0\<rparr>, ftp_send H (ctrl s2) ''226 Transfer complete'' (so_close H d (fs_close H w4)))"
proof -
  have "stor_loop H d False False w2 = Some (False, w4)" using assms(7-) by (subst stor_loop.simps) simp
  then show ?thesis using assms(1-6) by (simp add: cmd_stor_def Let_def)
qed

section \<open>Permissions\<close>

text \<open>
  What a file system shows (\<open>fsv\<close>: names and contents), with the operations that do not change it: everything on the network,
  looking at files, reading them, and flushing the history file. The contents are those that
  a reader sees: data that \<open>history.c\<close> has written and littlefs still holds in the buffer of the open history file count as contents, and
  \<open>lfs_file_sync\<close>, which \<open>history_sync\<close> calls so that readers see them, brings them to the flash without changing what is shown (\<open>view_sync\<close>).
\<close>

locale ftp_view =
  fixes H :: "'w ftp_host" and fsv :: "'w \<Rightarrow> 'v"
  assumes view_net [simp]: "fsv (snd (so_send H fd buf w)) = fsv w" "fsv (snd (so_recv H fd n w)) = fsv w" "fsv (so_close H fd w) = fsv w"
      "fsv (snd (so_socket H w)) = fsv w" "fsv (snd (so_bind H fd port w)) = fsv w" "fsv (snd (so_listen H fd n w)) = fsv w"
      "fsv (snd (so_getport H fd w)) = fsv w" "fsv (snd (so_connect H fd addr w)) = fsv w" "fsv (snd (so_select H fds n w)) = fsv w"
      "fsv (snd (so_accept H fd w)) = fsv w" "fsv (so_timeout H fd n w) = fsv w"
    and view_read [simp]: "fsv (snd (fs_stat H p w)) = fsv w" "fsv (snd (fs_list H p w)) = fsv w" "fsv (snd (fs_size H w)) = fsv w"
      "fsv (snd (fs_seek H off e w)) = fsv w" "fsv (snd (fs_read H n w)) = fsv w" "fsv (fs_close H w) = fsv w"
      "\<not> of_write fl \<Longrightarrow> fsv (snd (fs_open H p fl w)) = fsv w"
    and view_sync [simp]: "fsv (snd (lfs_file_sync (fh_lfs H) fp w)) = fsv w"
begin

lemma view_ftp_send [simp]: "fsv (ftp_send H fd msg w) = fsv w" "fsv (ftp_sendf H fd msg w) = fsv w"
  by (simp_all add: ftp_send_def ftp_sendf_def Let_def)

lemma view_ftp_sync [simp]: "fsv (ftp_sync H w) = fsv w"
  by (simp add: ftp_sync_def history_sync_def hist_file_sync_def split_beta)

lemma view_send_all [simp]: "fsv (snd (send_all H fd buf w)) = fsv w"
proof (induction "length buf" arbitrary: buf w rule: less_induct)
  case less
  obtain k v where v: "so_send H fd buf w = (k, v)" by fastforce
  have "fsv v = fsv w" using view_net(1) [of fd buf w] v by simp
  then show ?case using less [of "drop (nat k) buf" v] v by (subst send_all.simps) (auto split: if_splits)
qed

lemma view_listen [simp]: "fsv (snd (close_listen H s w)) = fsv w" "fsv (snd (drop_data_listen H s w)) = fsv w"
  by (simp_all add: close_listen_def drop_data_listen_def split_beta Let_def)

lemma view_data_listen_open [simp]: "fsv (snd (snd (snd (data_listen_open H s w)))) = fsv w"
  by (simp add: data_listen_open_def split_beta Let_def)

lemma view_open_data [simp]: "fsv (snd (snd (open_data H s w))) = fsv w"
  by (simp add: open_data_def split_beta Let_def)

lemma view_cmds [simp]: "fsv (snd (cmd_pasv H s w)) = fsv w" "fsv (snd (cmd_epsv H s w)) = fsv w" "fsv (snd (cmd_port H s arg w)) = fsv w"
  "fsv (snd (cmd_eprt H s arg w)) = fsv w"
  by (simp_all add: cmd_pasv_def cmd_epsv_def cmd_port_def cmd_eprt_def split_beta Let_def split: option.split)

lemma view_list_loop [simp]: "fsv (list_loop H data long_fmt infos w) = fsv w"
  by (induction infos arbitrary: w) (simp_all add: split_beta)

lemma view_cmd_list [simp]: "fsv (snd (cmd_list H s path long_fmt w)) = fsv w"
  by (auto simp: cmd_list_def split_beta Let_def split: option.split)

end

context ftp_view
begin

lemma view_retr_loop: "retr_loop H' data ascii w = Some w' \<Longrightarrow> H' = H \<Longrightarrow> fsv w' = fsv w"
proof (induction H' data ascii w w' rule: retr_loop.raw_induct [rotated, consumes 1, case_names step])
  case (step f H' data ascii w w')
  define rd where "rd = (if fs_mounted H w then fs_read H (FTP_BUF_SIZE div 2) w else ((- 1, []), w))"
  obtain n bs v where v: "rd = ((n, bs), v)" by (metis prod.collapse)
  have "fsv (snd rd) = fsv w" by (simp add: rd_def)
  then have fv: "fsv v = fsv w" by (simp add: v)
  define b where "b = (if ascii then ascii_crlf (take (nat n) bs) else take (nat n) bs)"
  obtain ok u where u: "send_all H data b v = (ok, u)" by fastforce
  have fu: "fsv u = fsv w" using view_send_all [of data b v] u fv by simp
  have h: "H' = H" by fact
  have "(if n \<le> 0 then Some v else if ok then f H data ascii u else Some u) = Some w'"
    using step(2) [unfolded h] by (simp only: rd_def [symmetric] v prod.case b_def [symmetric] u)
  then show ?case using fv fu step(1) [of H data ascii u w'] by (auto split: if_splits)
qed

lemma view_retr_open [simp]: "fsv (snd (retr_open H p off w)) = fsv w"
  by (simp add: retr_open_def split_beta split: bool.split)

text \<open>A result that shows the same files, or none.\<close>

definition shows_same :: "'w \<Rightarrow> ('a \<times> 'w) option \<Rightarrow> bool" where
  "shows_same w r \<longleftrightarrow> (\<forall>s' w'. r = Some (s', w') \<longrightarrow> fsv w' = fsv w)"

lemma shows_same_if: "shows_same w a \<Longrightarrow> shows_same w b \<Longrightarrow> shows_same w (if c then a else b)"
  by simp

lemma shows_same_Some: "fsv (snd p) = fsv w \<Longrightarrow> shows_same w (Some p)"
  by (cases p) (simp add: shows_same_def)

lemma shows_same_None: "shows_same w None"
  by (simp add: shows_same_def)

lemmas shows_same_intros = shows_same_if shows_same_Some shows_same_None

lemma view_cmd_retr: "shows_same w (cmd_retr H s path w)"
proof -
  obtain ok w1 where o: "retr_open H (fs_path (cwd s) path) (rest s) w = (ok, w1)" by fastforce
  have f1: "fsv w1 = fsv w" using view_retr_open [of "fs_path (cwd s) path" "rest s" w] o by simp
  define w2 where "w2 = ftp_send H (ctrl s) ''150 Opening data connection'' w1"
  obtain d s3 w3 where d: "open_data H s w2 = (d, s3, w3)" by (metis prod_cases3)
  have f3: "fsv w3 = fsv w" using view_open_data [of s w2, unfolded d] f1 by (simp add: w2_def)
  have "shows_same w (case retr_loop H d (type_ascii s3) w3 of None \<Rightarrow> None
      | Some w \<Rightarrow> Some (s3\<lparr>rest := 0\<rparr>, ftp_send H (ctrl s3) ''226 Transfer complete'' (so_close H d (fs_close H w))))"
    using f3 by (cases "retr_loop H d (type_ascii s3) w3") (simp_all add: shows_same_def view_retr_loop [OF _ refl])
  then have "shows_same w (if d < 0 then Some (s3\<lparr>rest := 0\<rparr>, ftp_send H (ctrl s3) ''425 No data connection'' (fs_close H w3))
      else case retr_loop H d (type_ascii s3) w3 of None \<Rightarrow> None
      | Some w \<Rightarrow> Some (s3\<lparr>rest := 0\<rparr>, ftp_send H (ctrl s3) ''226 Transfer complete'' (so_close H d (fs_close H w))))"
    by (intro shows_same_if shows_same_Some) (simp_all add: f3)
  moreover have "shows_same w (Some (drop_data_listen H (s\<lparr>rest := 0\<rparr>) (ftp_send H (ctrl s) ''550 Failed to open file'' w1)))"
    by (rule shows_same_Some) (simp add: f1)
  moreover have "shows_same w (Some (drop_data_listen H s (ftp_send H (ctrl s) ''530 Not logged in'' w)))"
    by (rule shows_same_Some) simp
  ultimately show ?thesis unfolding cmd_retr_def o
    by (cases ok; cases "authed s") (simp_all only: Let_def w2_def [symmetric] d prod.case bool.case if_True if_False not_True_eq_False not_False_eq_True)
qed

lemma view_session_command: "shows_same w (session_command H s cmd arg w)"
  unfolding session_command_def Let_def by (intro shows_same_intros) simp_all

lemma view_file_command:
  assumes "\<not> may_write s"
  shows "shows_same w (file_command H s cmd arg w)"
proof -
  have r: "shows_same w (cmd_retr H s arg (ftp_sync H w))" using view_cmd_retr [of "ftp_sync H w" s arg] by (simp add: shows_same_def)
  have g: "guarded H (may_write s) f w = (- 1, w)" "guarded H (rename_pending s \<and> may_write s) f w = (- 1, w)" for f
    using assms by (simp_all add: guarded_def)
  have "shows_same w (cmd_stor H s arg a w)" for a using assms by (auto simp: cmd_stor_def may_write_def intro!: shows_same_intros)
  moreover have "fsv (cmd_remove H s arg a b w) = fsv w" "fsv (cmd_mkd H s arg w) = fsv w" "fsv (snd (cmd_rnto H s arg w)) = fsv w" for a b
    by (simp_all add: cmd_remove_def cmd_mkd_def cmd_rnto_def g)
  moreover have "fsv (cmd_size H s arg w) = fsv w" "fsv (snd (cmd_rnfr H s arg w)) = fsv w"
    using assms by (simp_all add: cmd_size_def cmd_rnfr_def split_beta Let_def split: option.split)
  ultimately show ?thesis using r unfolding file_command_def by (intro shows_same_intros) simp_all
qed

lemma view_handle_command:
  assumes "\<not> may_write s" "handle_command H s line w = Some (s', w')"
  shows "fsv w' = fsv w"
proof -
  let ?s = "s\<lparr>last_activity := now_ms H w\<rparr>"
  have "\<not> may_write ?s" using assms(1) by (simp add: may_write_def)
  then show ?thesis using assms(2) view_session_command [of w ?s "cmd_word line" "cmd_arg line"] view_file_command [of ?s w "cmd_word line" "cmd_arg line"]
    by (auto simp: handle_command_def Let_def shows_same_def split: option.splits)
qed

end

text \<open>
  (C21) A session without write permission changes no file: whatever command line it sends, the names and contents of the file system
  are the same afterwards.
\<close>

theorem ftp_reader_changes_nothing:
  assumes "ftp_view H fsv" "\<not> may_write s" "handle_command H s line w = Some (s', w')"
  shows "fsv w' = fsv w"
  using ftp_view.view_handle_command [OF assms] .

text \<open>
  The permission can be taken without the password: an anonymous login is accepted with any password, and a second
  \<open>USER\<close> takes the anonymous mark away but leaves the session logged in.
\<close>

theorem ftp_anonymous_becomes_admin:
  "\<exists>s1 w1 s2 w2 s3 w3. handle_command H s ''USER anonymous'' w = Some (s1, w1) \<and> handle_command H s1 ''PASS x'' w1 = Some (s2, w2)
    \<and> handle_command H s2 ''USER x'' w2 = Some (s3, w3) \<and> \<not> may_write s2 \<and> may_write s3"
  by (simp add: handle_command_def session_command_def cmd_word_def cmd_arg_def toupper_az_def may_write_def Let_def)

section \<open>A simulated host\<close>

text \<open>
  A host for examples: files as an association list with one open file, one data connection (descriptor 7) whose incoming
  stream is \<open>sf_in\<close>, and the replies on every other descriptor in \<open>sf_said\<close>. The history file is closed.
\<close>

record sim_ftp =
  sf_files :: "(string \<times> string) list"
  sf_path :: string
  sf_pos :: nat
  sf_in :: string
  sf_out :: string
  sf_said :: "string list"

definition sf_file :: "sim_ftp \<Rightarrow> string" where
  "sf_file w = (case map_of (sf_files w) (sf_path w) of None \<Rightarrow> [] | Some t \<Rightarrow> t)"

definition sf_open :: "string \<Rightarrow> ftp_flags \<Rightarrow> sim_ftp \<Rightarrow> bool \<times> sim_ftp" where
  "sf_open p fl w =
     (let w' = w\<lparr>sf_path := p, sf_pos := 0\<rparr> in
      case map_of (sf_files w) p of
        Some t \<Rightarrow> (True, if of_write fl \<and> of_trunc fl then w'\<lparr>sf_files := AList.update p [] (sf_files w)\<rparr> else w')
      | None \<Rightarrow> if of_write fl \<and> of_creat fl then (True, w'\<lparr>sf_files := AList.update p [] (sf_files w)\<rparr>) else (False, w))"

definition sf_write :: "string \<Rightarrow> sim_ftp \<Rightarrow> int \<times> sim_ftp" where
  "sf_write buf w =
     (int (length buf),
      w\<lparr>sf_files := AList.update (sf_path w) (take (sf_pos w) (sf_file w) @ buf @ drop (sf_pos w + length buf) (sf_file w)) (sf_files w),
        sf_pos := sf_pos w + length buf\<rparr>)"

definition sf_info :: "string \<times> string \<Rightarrow> lfs_info" where
  "sf_info f = \<lparr>li_reg = True, li_name = fst f, li_size = of_nat (length (snd f))\<rparr>"

definition sf_lfs :: "sim_ftp lfs_ops" where
  "sf_lfs = \<lparr>lfs_dir_list = (\<lambda>p w. (Some (map sf_info (sf_files w)), w)), lfs_file_open = (\<lambda>fp p fl w. (- 1, w)), lfs_file_size = (\<lambda>fp w. (- 1, w)),
     lfs_file_write = (\<lambda>fp bs w. (- 1, w)), lfs_file_read = (\<lambda>fp n w. ((- 1, []), w)), lfs_file_sync = (\<lambda>fp w. (- 1, w)),
     lfs_file_close = (\<lambda>fp w. (- 1, w)), lfs_remove = (\<lambda>p w. (- 1, w))\<rparr>"

definition sim_ftp_host :: "sim_ftp ftp_host" where
  "sim_ftp_host =
     \<lparr>so_send = (\<lambda>fd buf w. (int (length buf), if fd = 7 then w\<lparr>sf_out := sf_out w @ buf\<rparr> else w\<lparr>sf_said := sf_said w @ [buf]\<rparr>)),
      so_recv = (\<lambda>fd n w. ((int (length (take n (sf_in w))), take n (sf_in w), False), w\<lparr>sf_in := drop n (sf_in w)\<rparr>)),
      so_close = (\<lambda>fd w. w), so_socket = (\<lambda>w. (7, w)), so_bind = (\<lambda>fd p w. (0, w)), so_listen = (\<lambda>fd n w. (0, w)),
      so_getport = (\<lambda>fd w. (40000, w)), so_connect = (\<lambda>fd a w. (0, w)), so_select = (\<lambda>fds n w. ((1, fds), w)), so_accept = (\<lambda>fd w. (7, w)),
      so_timeout = (\<lambda>fd n w. w), so_netif = (\<lambda>w. Some [192, 168, 12, 101]), so_aton = (\<lambda>t. None),
      fh_tick_ms = (\<lambda>w. 1000), fh_clock = (\<lambda>w. \<lparr>rtc_ready = True, epoch_cache = 0, second_tick = 0\<rparr>), fh_behind = (\<lambda>n w. replicate n (CHR ''?'')), fh_lfs = sf_lfs, fh_hist = (\<lambda>w. history_init True hist_power_on),
      fs_mounted = (\<lambda>w. True), fs_stat = (\<lambda>p w. (map_option (\<lambda>t. sf_info (p, t)) (map_of (sf_files w) p), w)),
      fs_list = (\<lambda>p w. (Some (map sf_info (sf_files w)), w)), fs_open = sf_open, fs_size = (\<lambda>w. (int (length (sf_file w)), w)),
      fs_seek = (\<lambda>off e w. if e then (0, w\<lparr>sf_pos := length (sf_file w)\<rparr>) else if off < 0 then (- 22, w) else (off, w\<lparr>sf_pos := nat off\<rparr>)),
      fs_read = (\<lambda>n w. ((int (length (take n (drop (sf_pos w) (sf_file w)))), take n (drop (sf_pos w) (sf_file w))), w\<lparr>sf_pos := sf_pos w + n\<rparr>)),
      fs_write = sf_write, fs_close = (\<lambda>w. w), fs_remove = (\<lambda>p w. (0, w\<lparr>sf_files := AList.delete p (sf_files w)\<rparr>)), fs_mkdir = (\<lambda>p w. (- 1, w)),
      fs_rename = (\<lambda>p q w. (- 1, w))\<rparr>"

function pieces :: "string \<Rightarrow> string list" where
  "pieces s = (if s = [] then [] else take FTP_BUF_SIZE s # pieces (drop FTP_BUF_SIZE s))"
  by pat_completeness auto
termination by (relation "measure length") (auto simp: hub_defs)

declare pieces.simps [simp del]

definition sf_stored :: "sim_ftp \<Rightarrow> string" where
  "sf_stored w = take (sf_pos w) (sf_file w)"

definition sf_left :: "sim_ftp \<Rightarrow> string" where
  "sf_left w = drop (sf_pos w) (sf_file w)"

interpretation sim: ftp_transfer sim_ftp_host 7 sf_left sf_out "\<lambda>w. pieces (sf_in w)" sf_stored
proof
  fix bs :: string and w w' :: sim_ftp and k wb c cs
  assume r: "so_recv sim_ftp_host 7 FTP_BUF_SIZE w = ((k, bs, wb), w')" "pieces (sf_in w) = c # cs"
  then have "sf_in w \<noteq> []" by (auto simp: pieces.simps)
  moreover have "c = take FTP_BUF_SIZE (sf_in w)" "cs = pieces (drop FTP_BUF_SIZE (sf_in w))"
    using r(2) by (auto simp: pieces.simps [of "sf_in w"] split: if_splits)
  ultimately show "bs = c \<and> k = int (length c) \<and> c \<noteq> [] \<and> pieces (sf_in w') = cs \<and> sf_stored w' = sf_stored w"
    using r(1) by (auto simp: sim_ftp_host_def sf_stored_def sf_file_def hub_defs)
next
  fix buf :: string and w w' :: sim_ftp and k
  assume "fs_write sim_ftp_host buf w = (k, w')"
  then show "k = int (length buf) \<and> sf_stored w' = sf_stored w @ buf \<and> pieces (sf_in w') = pieces (sf_in w)"
    by (auto simp: sim_ftp_host_def sf_write_def sf_stored_def sf_file_def update_conv' split: option.split)
next
  fix bs :: string and w w' :: sim_ftp and k wb
  assume r: "so_recv sim_ftp_host 7 FTP_BUF_SIZE w = ((k, bs, wb), w')" "pieces (sf_in w) = []"
  then have "sf_in w = []" by (auto simp: pieces.simps [of "sf_in w"] split: if_splits)
  then show "k \<le> 0 \<and> sf_stored w' = sf_stored w" using r(1) by (auto simp: sim_ftp_host_def sf_stored_def sf_file_def)
qed (auto simp: sim_ftp_host_def sf_left_def sf_file_def ac_simps)

definition sf_lookup :: "string \<Rightarrow> sim_ftp \<Rightarrow> string option" where
  "sf_lookup p w = map_of (sf_files w) p"

interpretation sim_file: ftp_download sim_ftp_host 7 sf_left sf_out "\<lambda>w. pieces (sf_in w)" sf_stored sf_lookup sf_file
  by unfold_locales
    (auto simp: sim_ftp_host_def sf_open_def sf_left_def sf_file_def sf_lookup_def Let_def split: option.splits if_splits)

interpretation sim_view: ftp_view sim_ftp_host sf_files
  by unfold_locales (auto simp: sim_ftp_host_def sf_open_def sf_lfs_def Let_def split: option.split)

section \<open>Listing\<close>

lemma digit_of:
  assumes "n < 10"
  shows "isdigit (char_of (48 + n)) \<and> digit_val (char_of (48 + n)) = n \<and> \<not> isspace (char_of (48 + n))
    \<and> char_of (48 + n) \<noteq> CHR ''-'' \<and> char_of (48 + n) \<noteq> CHR ''+''"
proof -
  have "n = 0 \<or> n = 1 \<or> n = 2 \<or> n = 3 \<or> n = 4 \<or> n = 5 \<or> n = 6 \<or> n = 7 \<or> n = 8 \<or> n = 9" using assms by arith
  then show ?thesis by (elim disjE) (simp_all add: isdigit_def digit_val_def isspace_def char_of_def bit_simps less_eq_char_def)
qed

lemma four_digits_read:
  assumes "m < 100" "d < 100"
  shows "\<exists>e. strtoul_10 (pr02 (int m) @ pr02 (int d) @ ''_'' @ r) = Some (of_nat (m * 100 + d), e)"
proof -
  have q: "m div 10 < 10" "d div 10 < 10" "m mod 10 < 10" "d mod 10 < 10" using assms by auto
  note dg = digit_of [OF q(1)] digit_of [OF q(2)] digit_of [OF q(3)] digit_of [OF q(4)]
  have u: "\<not> digit_val CHR ''_'' < 10" by (simp add: digit_val_def)
  have v: "((m div 10 * 10 + m mod 10) * 10 + d div 10) * 10 + d mod 10 = m * 100 + d" by presburger
  have "m * 100 + d < 2 ^ 32" using assms by simp
  then show ?thesis using dg q u v by (simp add: strtoul_10_def scan_sign_def scan_digits_def pr02_def Let_def)
qed

lemma hist_time_of_digits:
  assumes "1 \<le> m" "m < 100" "d < 100"
  shows "parse_hist_time (''data_'' @ pr02 (int m) @ pr02 (int d) @ ''_'' @ r) = None"
proof -
  obtain e where e: "strtoul_10 (pr02 (int m) @ pr02 (int d) @ ''_'' @ r) = Some (of_nat (m * 100 + d), e)" using four_digits_read assms by blast
  have big: "(of_nat (m * 100 + d) :: u32) > 12" using assms by (simp add: word_less_nat_alt unat_of_nat del: of_nat_add of_nat_mult)
  have f: "hist_numbers (0 # js) s = None \<or> (\<exists>v. hist_numbers (0 # js) s = Some (x # v))" if "strtoul_10 s = Some (x, e)" for js s x
    using that by (auto simp: Let_def)
  have "[0..<4] = 0 # [1..<4]" by (simp add: upt_rec)
  then have x: "hist_numbers [0..<4] (pr02 (int m) @ pr02 (int d) @ ''_'' @ r) = None
      \<or> (\<exists>v. hist_numbers [0..<4] (pr02 (int m) @ pr02 (int d) @ ''_'' @ r) = Some (of_nat (m * 100 + d) # v))"
    using f [OF e] by simp
  show ?thesis using x big by (auto simp: parse_hist_time_def split: list.split)
qed

text \<open>
  The time in a listing is never the time of a history file: \<open>strtoul\<close> reads month and day as one number, so
  that the time in the name of every file that the history task creates is refused and the present time is shown.
\<close>

theorem ftp_list_shows_present_time:
  "format_ls_time epoch (make_hist_name created) = format_ls_time epoch ''''"
proof -
  have "parse_hist_time (make_hist_name created) = None"
  proof (cases "gmtime_r (unat created + 8 * 3600)")
    case None
    have "pr02 (int 1) = ''01''" by (simp add: pr02_def char_of_def bit_simps)
    then have "make_hist_name created = ''data_'' @ pr02 (int 1) @ pr02 (int 1) @ ''_'' @ ''000000.raw''"
      using None by (simp add: make_hist_name_def)
    then show ?thesis using hist_time_of_digits [of 1 1] by simp
  next
    case (Some lt)
    define m where "m = nat (clamp (tm_mon lt + 1) 1 12)"
    define d where "d = nat (clamp (tm_mday lt) 1 31)"
    have "int m = clamp (tm_mon lt + 1) 1 12" "int d = clamp (tm_mday lt) 1 31" "1 \<le> m" "m < 100" "d < 100"
      by (auto simp: m_def d_def clamp_def)
    then show ?thesis using Some hist_time_of_digits [of m d] by (simp add: make_hist_name_def)
  qed
  then show ?thesis by (simp add: format_ls_time_def parse_hist_time_def)
qed

section \<open>Command lines\<close>

text \<open>
  An empty line ends the session: \<open>recv_line\<close> returns the length without the line end, and zero means to its caller that the
  connection was closed.
\<close>

theorem ftp_empty_line_closes:
  assumes "so_recv H (ctrl s) 1 w = ((1, [CR], a), w1)" "so_recv H (ctrl s) 1 w1 = ((1, [LF], b), w2)"
  shows "serve_session H s w = Some (close_session H s w2)"
proof -
  have "LF \<noteq> CR" by (simp add: hub_defs)
  then have "recv_bytes H (ctrl s) (Suc (Suc k)) [] w = (Inr [CR], w2)" for k using assms by simp
  from this [of 509] have "recv_bytes H (ctrl s) (FTP_BUF_SIZE - 1) [] w = (Inr [CR], w2)" by (simp add: hub_defs)
  then have "recv_line H (ctrl s) FTP_BUF_SIZE w = ((0, []), w2)" by (simp only: recv_line_def) (simp add: trim_eol_def)
  then show ?thesis by (simp add: serve_session_def)
qed

section \<open>Examples\<close>

definition sf_start :: sim_ftp where
  "sf_start = \<lparr>sf_files = [(''/a'', ''x'' @ [LF] @ ''yz'')], sf_path = [], sf_pos = 0, sf_in = ''hello'', sf_out = [], sf_said = []\<rparr>"

definition sf_session :: ftp_session where
  "sf_session = zero_session\<lparr>ctrl := 5, data_listen := 6, cwd := ''/'', authed := True, anon := True, rest := 1\<rparr>"

theorem ftp_ascii_roundtrip_witness:
  "store_ascii False [''ab'' @ [CR, LF], ''c''] = ''ab'' @ [LF] @ ''c''"
  using ftp_ascii_roundtrip [of "''ab'' @ [LF] @ ''c''" "[''ab'' @ [CR, LF], ''c'']"] by (simp add: hub_defs)

theorem ftp_ascii_newline_lost_witness:
  "store_ascii False [ascii_crlf ''ab'' @ [CR], LF # ascii_crlf ''c''] = ''ab'' @ ''c''"
proof -
  have "CR \<notin> set ''ab''" "CR \<notin> set ''c''" by (simp_all add: hub_defs)
  from ftp_ascii_newline_lost [OF this] show ?thesis by simp
qed

lemma sf_dele: "\<exists>s' w'. handle_command sim_ftp_host sf_session ''DELE a'' sf_start = Some (s', w')"
proof -
  have "cmd_word ''DELE a'' = ''DELE''" by (simp add: cmd_word_def toupper_az_def)
  then show ?thesis by (simp add: handle_command_def session_command_def file_command_def Let_def)
qed

theorem ftp_reader_changes_nothing_witness:
  "\<exists>s' w'. handle_command sim_ftp_host sf_session ''DELE a'' sf_start = Some (s', w') \<and> sf_files w' = sf_files sf_start"
proof -
  have "\<not> may_write sf_session" by (simp add: sf_session_def may_write_def)
  with ftp_reader_changes_nothing [OF sim_view.ftp_view_axioms] sf_dele show ?thesis by blast
qed

theorem ftp_empty_line_closes_witness:
  "serve_session sim_ftp_host sf_session (sf_start\<lparr>sf_in := [CR, LF]\<rparr>) = Some (close_session sim_ftp_host sf_session (sf_start\<lparr>sf_in := []\<rparr>))"
  by (rule ftp_empty_line_closes [where ?w1.0 = "sf_start\<lparr>sf_in := [LF]\<rparr>" and a = False and b = False])
    (simp_all add: sim_ftp_host_def sf_start_def sf_session_def)

theorem ftp_download_complete_witness:
  "\<exists>s' w'. cmd_retr sim_ftp_host sf_session ''a'' sf_start = Some (s', w') \<and> sf_out w' = LF # ''yz''"
proof -
  define w1 where "w1 = sf_start\<lparr>sf_path := ''/a'', sf_pos := 1\<rparr>"
  define w2 where "w2 = ftp_send sim_ftp_host 5 ''150 Opening data connection'' w1"
  define s2 where "s2 = sf_session\<lparr>data_listen := - 1\<rparr>"
  have p: "fs_path (cwd sf_session) ''a'' = ''/a''"
    by (simp add: sf_session_def fs_path_def norm_path_def norm_parts.simps norm_part_def hub_defs Let_def)
  have o: "retr_open sim_ftp_host (fs_path (cwd sf_session) ''a'') (rest sf_session) sf_start = (True, w1)"
    unfolding p by (simp add: sf_session_def retr_open_def sim_ftp_host_def sf_open_def sf_start_def w1_def Let_def)
  have d: "open_data sim_ftp_host sf_session (ftp_send sim_ftp_host (ctrl sf_session) ''150 Opening data connection'' w1) = (7, s2, w2)"
    by (simp add: open_data_def sf_session_def zero_session_def sim_ftp_host_def w2_def s2_def Let_def)
  have l: "sf_lookup ''/a'' sf_start = Some (CHR ''x'' # LF # ''yz'')" "rest sf_session = 1" "sf_out w2 = []" "\<not> type_ascii s2" "ctrl s2 = 5"
    by (simp_all add: w2_def w1_def ftp_send_def sim_ftp_host_def sf_lookup_def sf_start_def s2_def sf_session_def zero_session_def)
  obtain w3 where r: "cmd_retr sim_ftp_host sf_session ''a'' sf_start = Some (s2\<lparr>rest := 0\<rparr>,
      ftp_send sim_ftp_host (ctrl s2) ''226 Transfer complete'' (so_close sim_ftp_host 7 (fs_close sim_ftp_host w3)))" "sf_out w3 = LF # ''yz''"
    using ftp_download_complete [OF sim_file.ftp_download_axioms _ _ o d] l unfolding p by (auto simp: sf_session_def)
  moreover have "sf_out (ftp_send sim_ftp_host 5 m (so_close sim_ftp_host 7 (fs_close sim_ftp_host w3))) = sf_out w3" for m
    by (simp add: ftp_send_def sim_ftp_host_def)
  ultimately show ?thesis using l(5) by auto
qed

definition sf_admin :: ftp_session where
  "sf_admin = zero_session\<lparr>ctrl := 5, data_listen := 6, cwd := ''/'', authed := True\<rparr>"

definition full_disk :: "sim_ftp ftp_host" where
  "full_disk = sim_ftp_host\<lparr>fs_write := \<lambda>buf w. (- 28, w)\<rparr>"

lemma sf_admin_path: "fs_path (cwd sf_admin) ''b'' = ''/b''"
  by (simp add: sf_admin_def fs_path_def norm_path_def norm_parts.simps norm_part_def hub_defs Let_def)

definition sf_created :: sim_ftp where
  "sf_created = sf_start\<lparr>sf_path := ''/b'', sf_pos := 0, sf_files := sf_files sf_start @ [(''/b'', [])]\<rparr>"

lemma sf_stor_open:
  "stor_open sim_ftp_host (fs_path (cwd sf_admin) ''b'') False (rest sf_admin) sf_start = (True, sf_created)"
  "stor_open full_disk (fs_path (cwd sf_admin) ''b'') False (rest sf_admin) sf_start = (True, sf_created)"
  unfolding sf_admin_path
  by (simp_all add: sf_admin_def zero_session_def stor_open_def full_disk_def sim_ftp_host_def sf_open_def sf_start_def sf_created_def Let_def)

lemma sf_open_data:
  "open_data sim_ftp_host sf_admin w = (7, sf_admin\<lparr>data_listen := - 1\<rparr>, w)"
  "open_data full_disk sf_admin w = (7, sf_admin\<lparr>data_listen := - 1\<rparr>, w)"
  by (simp_all add: open_data_def sf_admin_def zero_session_def full_disk_def sim_ftp_host_def Let_def)

lemma sf_pieces: "pieces ''hello'' = [''hello'']"
  by (simp add: pieces.simps hub_defs)

theorem ftp_upload_stored_witness:
  "\<exists>s' w3 w'. cmd_stor sim_ftp_host sf_admin ''b'' False sf_start = Some (s', w') \<and> sf_stored w3 = ''hello''
    \<and> w' = ftp_send sim_ftp_host 5 ''226 Transfer complete'' (so_close sim_ftp_host 7 (fs_close sim_ftp_host w3))"
proof -
  define w2 where "w2 = ftp_send sim_ftp_host (ctrl sf_admin) ''150 Ok to send data'' sf_created"
  have o: "open_data sim_ftp_host sf_admin (ftp_send sim_ftp_host (ctrl sf_admin) ''150 Ok to send data'' sf_created) = (7, sf_admin\<lparr>data_listen := - 1\<rparr>, w2)"
    by (simp add: sf_open_data w2_def)
  have "sf_stored w2 = []" "sf_in w2 = ''hello''"
    by (simp_all add: w2_def ftp_send_def sim_ftp_host_def sf_admin_def sf_stored_def sf_created_def sf_start_def)
  moreover have s: "authed sf_admin" "\<not> anon sf_admin" "(0 :: int) \<le> 7" "ctrl sf_admin = 5" "\<not> type_ascii sf_admin"
    by (simp_all add: sf_admin_def zero_session_def)
  ultimately obtain q w3 where "cmd_stor sim_ftp_host sf_admin ''b'' False sf_start = Some (sf_admin\<lparr>data_listen := - 1, pending_cr := q, rest := 0\<rparr>,
      ftp_send sim_ftp_host 5 ''226 Transfer complete'' (so_close sim_ftp_host 7 (fs_close sim_ftp_host w3)))" "sf_stored w3 = ''hello''"
    using ftp_upload_stored [OF sim.ftp_transfer_axioms s(1-3) sf_stor_open(1) o] sf_pieces by auto
  then show ?thesis by blast
qed

theorem ftp_failed_upload_reported_complete_witness:
  "\<exists>s' w4. cmd_stor full_disk sf_admin ''b'' False sf_start = Some (s', ftp_send full_disk 5 ''226 Transfer complete'' w4)"
proof -
  define w2 where "w2 = ftp_send full_disk (ctrl sf_admin) ''150 Ok to send data'' sf_created"
  have o: "open_data full_disk sf_admin (ftp_send full_disk (ctrl sf_admin) ''150 Ok to send data'' sf_created) = (7, sf_admin\<lparr>data_listen := - 1\<rparr>, w2)"
    by (simp add: sf_open_data w2_def)
  have "sf_in w2 = ''hello''"
    by (simp add: w2_def ftp_send_def full_disk_def sim_ftp_host_def sf_admin_def sf_created_def sf_start_def)
  then have "so_recv full_disk 7 FTP_BUF_SIZE w2 = ((int (length ''hello''), ''hello'', False), w2\<lparr>sf_in := []\<rparr>)"
    by (simp add: full_disk_def sim_ftp_host_def hub_defs)
  moreover have s: "authed sf_admin" "\<not> anon sf_admin" "(0 :: int) \<le> 7" "ctrl sf_admin = 5" "\<not> type_ascii sf_admin"
    by (simp_all add: sf_admin_def zero_session_def)
  moreover have "fs_mounted full_disk w" "fs_write full_disk ''hello'' w = (- 28, w)" for w
    by (simp_all add: full_disk_def sim_ftp_host_def)
  ultimately have "cmd_stor full_disk sf_admin ''b'' False sf_start = Some (sf_admin\<lparr>data_listen := - 1, pending_cr := False, rest := 0\<rparr>,
      ftp_send full_disk 5 ''226 Transfer complete'' (so_close full_disk 7 (fs_close full_disk (w2\<lparr>sf_in := []\<rparr>))))"
    using ftp_failed_upload_reported_complete [OF s(1-3) sf_stor_open(2) o, of "''hello''" False
        "w2\<lparr>sf_in := []\<rparr>" "- 28" "w2\<lparr>sf_in := []\<rparr>"] by simp
  then show ?thesis by blast
qed

end
