(* ===== verification/Shell.thy ===== *)
theory Shell
  imports Web_Cmds
begin

unbundle bit_operations_syntax

text \<open>
  The shell on the debug UART, \<open>src/sys/shell.c\<close>: the ring between interrupt and task, the line editor with cursor, history and
  completion, and the commands. A command gives the lines that it hands to \<open>log_line\<close> and the new state of the device; the output of
  the editor is the list of its calls of \<open>log_raw\<close> and \<open>log_line\<close>. The edited line is the text up to its NUL, so that \<open>n\<close> is its length.
  What comes from the kernel or the build is the record \<open>sh_env\<close>.
\<close>

definition SH_RING_MAX :: nat where [hub_defs]: "SH_RING_MAX = 128"
definition SH_LINE_MAX :: nat where [hub_defs]: "SH_LINE_MAX = 96"
definition SH_ARG_MAX :: nat where [hub_defs]: "SH_ARG_MAX = 6"
definition SH_HIST_MAX :: nat where [hub_defs]: "SH_HIST_MAX = 8"

section \<open>The ring of received characters\<close>

record sh_rx =
  sh_ring :: "u8 list"
  sh_head :: u8
  sh_tail :: u8

text \<open>
  The interrupt: \<open>sr\<close> is the status read first, \<open>sr2\<close> the one read again after an error, \<open>dr\<close> the data register. The second
  component is the notification of the task.
\<close>

definition sr_error :: "u32 \<Rightarrow> bool" where
  "sr_error sr \<longleftrightarrow> sr AND 0x0F \<noteq> 0"

definition USART1_IRQHandler :: "u32 \<Rightarrow> u32 \<Rightarrow> u8 \<Rightarrow> sh_rx \<Rightarrow> sh_rx \<times> bool" where
  "USART1_IRQHandler sr sr2 dr r =
     (let sr = (if sr_error sr then sr2 else sr)
      in if sr AND 0x20 \<noteq> 0
         then let nxt = of_nat ((unat (sh_head r) + 1) mod SH_RING_MAX)
              in (if nxt \<noteq> sh_tail r then r\<lparr>sh_ring := (sh_ring r)[unat (sh_head r) := dr], sh_head := nxt\<rparr> else r, True)
         else (r, False))"

text \<open>\<open>None\<close> while the task waits for a notification.\<close>

definition sh_getchar :: "sh_rx \<Rightarrow> (u8 \<times> sh_rx) option" where
  "sh_getchar r =
     (if sh_tail r = sh_head r then None
      else Some (sh_ring r ! unat (sh_tail r), r\<lparr>sh_tail := of_nat ((unat (sh_tail r) + 1) mod SH_RING_MAX)\<rparr>))"

section \<open>History\<close>

record sh_history =
  sh_hist :: "string list"
  sh_hist_len :: nat
  sh_hist_newest :: nat

definition hist_store :: "string \<Rightarrow> sh_history \<Rightarrow> sh_history" where
  "hist_store line h =
     (if sh_hist_len h \<noteq> 0 \<and> sh_hist h ! sh_hist_newest h = line then h
      else let i = (sh_hist_newest h + 1) mod SH_HIST_MAX
           in \<lparr>sh_hist = (sh_hist h)[i := line], sh_hist_len = (if sh_hist_len h < SH_HIST_MAX then sh_hist_len h + 1 else sh_hist_len h),
               sh_hist_newest = i\<rparr>)"

definition hist_get :: "nat \<Rightarrow> sh_history \<Rightarrow> string option" where
  "hist_get nav h = (if nav \<ge> sh_hist_len h then None else Some (sh_hist h ! ((sh_hist_newest h + SH_HIST_MAX - nav) mod SH_HIST_MAX)))"

section \<open>Parsing\<close>

function sh_split :: "string \<Rightarrow> nat \<Rightarrow> string list" where
  "sh_split p maxn =
     (let q = dropWhile blank p
      in if p = [] \<or> maxn = 0 \<or> q = [] then []
         else takeWhile (\<lambda>c. \<not> blank c) q # sh_split (dropWhile (\<lambda>c. \<not> blank c) q) (maxn - 1))"
  by pat_completeness auto
termination by (relation "measure (\<lambda>(p, maxn). maxn)") auto

declare sh_split.simps [simp del]

text \<open>\<open>strtoul(s, &end, 0)\<close>: the value and the text from \<open>end\<close> on.\<close>

definition strtoul_0 :: "string \<Rightarrow> u32 \<times> string" where
  "strtoul_0 s =
     (case scan_sign s of (neg, r) \<Rightarrow>
        let hex = (if take 2 r \<in> {''0x'', ''0X''} then scan_digits 16 (drop 2 r) else None);
            num = (case hex of Some x \<Rightarrow> Some x | None \<Rightarrow> scan_digits (if take 1 r = ''0'' then 8 else 10) r)
        in case num of
             None \<Rightarrow> (0, s)
           | Some (n, e) \<Rightarrow> (if n \<ge> 2 ^ 32 then - 1 else if neg then - of_nat n else of_nat n, e))"

definition parse_ul :: "string \<Rightarrow> u32 option" where
  "parse_ul s = (if s = [] then None else case strtoul_0 s of (v, e) \<Rightarrow> if e \<noteq> [] then None else Some v)"

fun ip_octets :: "nat list \<Rightarrow> string \<Rightarrow> u8 list option" where
  "ip_octets [] p = Some []"
| "ip_octets (i # js) p =
     (case strtoul_10 p of
        None \<Rightarrow> None
      | Some (v, e) \<Rightarrow>
          if v > 255 \<or> (i < 3 \<and> take 1 e \<noteq> ''.'') \<or> (i = 3 \<and> e \<noteq> []) then None
          else map_option ((#) (ucast v)) (ip_octets js (drop 1 e)))"

definition parse_ip :: "string \<Rightarrow> u8 list option" where
  "parse_ip s = ip_octets [0..<4] s"

section \<open>Printing\<close>

fun hex_str :: "nat \<Rightarrow> string" where
  "hex_str n = (if n < 16 then [hex_digit n] else hex_str (n div 16) @ [hex_digit (n mod 16)])"

declare hex_str.simps [simp del]

definition pad_l :: "nat \<Rightarrow> char \<Rightarrow> string \<Rightarrow> string" where
  "pad_l k c s = replicate (k - length s) c @ s"

definition pad_r :: "nat \<Rightarrow> string \<Rightarrow> string" where
  "pad_r k s = s @ replicate (k - length s) (CHR '' '')"

definition hexw :: "nat \<Rightarrow> nat \<Rightarrow> string" where
  "hexw k n = pad_l k (CHR ''0'') (hex_str n)"

section \<open>Top-level commands\<close>

datatype task_state = eRunning | eReady | eBlocked | eSuspended | eDeleted | eInvalid

record sh_task =
  pcTaskName :: string
  eCurrentState :: task_state
  uxCurrentPriority :: nat
  usStackHighWaterMark :: nat
  xTaskNumber :: nat

record sh_env =
  se_version :: string
  se_build :: string
  se_mac :: "u8 list"
  se_link :: bool
  se_ticks :: u32
  se_tasks :: "sh_task list option"

definition cmd_help :: "string list" where
  "cmd_help = [''commands:'', ''  help    this help'', ''  tasks   task list (state / priority / min stack)'',
     ''  reboot  graceful reboot (history sync + ~3s)'', ''  io      io-edge-hub debug commands ('' @ [CHR 0x27] @ ''io help'' @ [CHR 0x27] @ '')'']"

fun task_state_char :: "task_state \<Rightarrow> char" where
  "task_state_char eRunning = CHR ''X''"
| "task_state_char eReady = CHR ''R''"
| "task_state_char eBlocked = CHR ''B''"
| "task_state_char eSuspended = CHR ''S''"
| "task_state_char eDeleted = CHR ''D''"
| "task_state_char eInvalid = CHR ''?''"

definition task_line :: "sh_task \<Rightarrow> string" where
  "task_line t = pad_r 16 (pcTaskName t) @ '' '' @ [task_state_char (eCurrentState t)] @ ''   '' @ pad_r 4 (dec_str (uxCurrentPriority t)) @ ''  ''
     @ pad_r 5 (dec_str (usStackHighWaterMark t)) @ ''  '' @ dec_str (xTaskNumber t)"

definition cmd_tasks :: "sh_env \<Rightarrow> string list" where
  "cmd_tasks E =
     (case se_tasks E of
        None \<Rightarrow> [''tasks: out of memory'']
      | Some ts \<Rightarrow> [pad_r 16 ''task'' @ '' st  prio  stack  num''] @ map task_line ts
          @ [''st: X=running R=ready B=blocked S=suspended; stack = min free (words)''])"

definition cmd_reboot :: "'w dev \<Rightarrow> string list \<times> 'w dev" where
  "cmd_reboot s = ([''rebooting (history sync + ~3s)...''], set_reboot_status True s)"

section \<open>Commands on the device\<close>

definition rd :: "nat \<Rightarrow> 'w dev \<Rightarrow> nat" where
  "rd i s = unat (io_read_holding (of_nat i) s)"

definition ai_of :: "nat \<Rightarrow> 'w dev \<Rightarrow> nat" where
  "ai_of i s = unat (get_input_reg (of_nat (INPUT_AI0_IDX + i)) s)"

definition info_time :: "'w dev \<Rightarrow> string" where
  "info_time s =
     (case gmtime_r (unat (io_now_epoch (clock s)) + 8 * 3600) of
        None \<Rightarrow> ''1970-01-01 00:00:00''
      | Some t \<Rightarrow>
          if tm_year t + 1900 \<ge> 2020
          then pad_l 4 (CHR ''0'') (dec_str (nat (tm_year t + 1900))) @ ''-'' @ pr02 (tm_mon t + 1) @ ''-'' @ pr02 (tm_mday t) @ '' ''
             @ pr02 (tm_hour t) @ '':'' @ pr02 (tm_min t) @ '':'' @ pr02 (tm_sec t)
          else ''1970-01-01 00:00:00'')"

definition cmd_io_info :: "sh_env \<Rightarrow> 'w dev \<Rightarrow> string list" where
  "cmd_io_info E s =
     [''version : v'' @ se_version E,
      ''build   : '' @ se_build E,
      ''board   : io_edge_f407vet6'',
      ''mac     : '' @ mac_text (Some (se_mac E)),
      ''ip      : '' @ dec_str (rd HOLDING_IP_OCTET1_IDX s) @ ''.'' @ dec_str (rd (HOLDING_IP_OCTET1_IDX + 1) s) @ ''.''
        @ dec_str (rd (HOLDING_IP_OCTET1_IDX + 2) s) @ ''.'' @ dec_str (rd (HOLDING_IP_OCTET1_IDX + 3) s) @ ''/24'',
      ''link    : '' @ (if se_link E then ''up'' else ''down''),
      ''rs485   : '' @ dec_str (rd HOLDING_RS485_BAUDRATE_IDX s) @ '' bps, slave id '' @ dec_str (rd HOLDING_SLAVE_ID_IDX s) @ '' (8N1)'',
      ''can     : id 0x'' @ hexw 3 (rd HOLDING_CAN_ID_IDX s) @ '', '' @ dec_str (rd HOLDING_CAN_BAUDRATE_IDX s) @ '' kbit/s'',
      ''uptime  : '' @ dec_str (unat (se_ticks E div configTICK_RATE_HZ)) @ '' s'',
      ''time    : '' @ info_time s @ '' ('' @ dec_str (unat (io_now_epoch (clock s))) @ '')'']"

text \<open>A row of eight channels from \<open>row\<close> on.\<close>

definition bits_row :: "string \<Rightarrow> u16 \<Rightarrow> nat \<Rightarrow> string" where
  "bits_row name v row = name @ pad_r 2 (dec_str (row + 1)) @ ''-'' @ pad_r 2 (dec_str (row + 8)) @ '' :''
     @ concat (map (\<lambda>i. '' '' @ dec_str (unat (drop_bit (row + i) v AND 1))) [0..<8])"

definition cmd_io_di :: "'w dev \<Rightarrow> string list" where
  "cmd_io_di s =
     (let di = get_input_reg (of_nat INPUT_DI_IDX) s
      in [''DI: 0x'' @ hexw 4 (unat di) @ '' (enable: 0x'' @ hexw 4 (unat (get_holding_reg (of_nat HOLDING_DI_ENABLE_IDX) s)) @ '')'',
          bits_row ''DI'' di 0, bits_row ''DI'' di 8])"

definition cmd_io_do :: "'w dev \<Rightarrow> string list" where
  "cmd_io_do s =
     (let do_v = get_holding_reg (of_nat HOLDING_DO_IDX) s
      in [''DO: 0x'' @ hexw 2 (unat (do_v AND 0xFF)), bits_row ''DO'' do_v 0])"

definition cmd_io_do_set :: "'w board \<Rightarrow> string \<Rightarrow> string \<Rightarrow> 'w dev \<Rightarrow> string list \<times> 'w dev" where
  "cmd_io_do_set B ch_s val_s s =
     (case parse_ul ch_s of
        None \<Rightarrow> ([''invalid channel: '' @ ch_s @ '' (1-8)''], s)
      | Some ch \<Rightarrow>
          if ch < 1 \<or> unat ch > DO_NUM then ([''invalid channel: '' @ ch_s @ '' (1-8)''], s)
          else case parse_ul val_s of
            None \<Rightarrow> ([''invalid value: '' @ val_s @ '' (0/1)''], s)
          | Some val \<Rightarrow>
              if val > 1 then ([''invalid value: '' @ val_s @ '' (0/1)''], s)
              else case io_write_do_bit B (ucast (ch - 1)) (val \<noteq> 0) s of (rc, s) \<Rightarrow>
                if rc \<noteq> 0 then ([''write failed''], s)
                else ([''DO'' @ dec_str (unat ch) @ '' = '' @ dec_str (unat val) @ '' (DO: 0x''
                        @ hexw 2 (unat (get_holding_reg (of_nat HOLDING_DO_IDX) s AND 0xFF)) @ '')''], s))"

definition cmd_io_ai :: "'w dev \<Rightarrow> string list" where
  "cmd_io_ai s =
     (''AI enable: 0x'' @ hex_str (unat (get_holding_reg (of_nat HOLDING_AI_ENABLE_IDX) s AND 0x0F)))
     # map (\<lambda>i. ''AI'' @ dec_str (i + 1) @ '': '' @ pad_l 5 (CHR '' '') (dec_str (ai_of i s div 100)) @ ''.'' @ pad_l 2 (CHR ''0'') (dec_str (ai_of i s mod 100))
          @ '' '' @ [''mA'', ''mA'', ''V'', ''V''] ! i @ '' (raw '' @ dec_str (ai_of i s) @ '')'') [0..<AI_NUM]"

definition reg_entry :: "(nat \<Rightarrow> nat) \<Rightarrow> nat \<Rightarrow> string" where
  "reg_entry val j = (if j mod 6 \<noteq> 0 then '' '' else []) @ ''0x'' @ hexw 2 j @ ''='' @ dec_str (val j)"

definition reg_rows :: "(nat \<Rightarrow> nat) \<Rightarrow> nat \<Rightarrow> string list" where
  "reg_rows val num = map (\<lambda>k. concat (map (reg_entry val) [6 * k..<min (6 * k + 6) num])) [0..<(num + 5) div 6]"

definition cmd_io_reg :: "'w board \<Rightarrow> string list \<Rightarrow> 'w dev \<Rightarrow> (string list, 'w dev) outcome" where
  "cmd_io_reg B argv s =
     (if argv = []
      then Ret ([''holding registers (18):''] @ reg_rows (\<lambda>j. rd j s) MODBUS_HOLDING_REGISTER_NUMBERS
             @ [''input registers (6):''] @ reg_rows (\<lambda>j. unat (get_input_reg (of_nat j) s)) MODBUS_INPUT_REGISTER_NUMBERS) s
      else case parse_ul (hd argv) of
        None \<Rightarrow> Ret [''invalid addr: '' @ hd argv] s
      | Some addr \<Rightarrow>
          if unat addr \<ge> MODBUS_HOLDING_REGISTER_NUMBERS then Ret [''invalid addr: '' @ hd argv] s
          else if length argv = 1 then Ret [''holding[0x'' @ hexw 2 (unat addr) @ ''] = '' @ dec_str (rd (unat addr) s)] s
          else case parse_ul (argv ! 1) of
            None \<Rightarrow> Ret [''invalid value: '' @ argv ! 1 @ '' (0-65535)''] s
          | Some val \<Rightarrow>
              if val > 0xFFFF then Ret [''invalid value: '' @ argv ! 1 @ '' (0-65535)''] s
              else outcome_bind (io_write_holding B (ucast addr) (ucast val) s) (\<lambda>rc s.
                if rc \<noteq> 0 then Ret [''write failed''] s
                else Ret [''holding[0x'' @ hexw 2 (unat addr) @ ''] = '' @ dec_str (rd (unat addr) s)] s))"

definition cmd_io_help :: "string list" where
  "cmd_io_help =
     [''io                     IO/config overview'', ''io info                version / mac / ip / link / uptime'',
      ''io di                  DI1-16 status'', ''io do [set ch 0|1]     DO1-8 status / control'', ''io ai                  AI1-4 values (mA / V)'',
      ''io rs485 [baud n|sid n]'', ''io can [id n|bps n]'', ''io ip a.b.c.d          static ip (saved)'',
      ''io reg [addr [value]]  register dump / read / write'', ''io save                persist parameters'', ''io factory             factory reset + reboot'']"

text \<open>\<open>config_store_erase_all\<close> on the device.\<close>

definition dev_erase_all :: "'w board \<Rightarrow> 'w dev \<Rightarrow> 'w dev" where
  "dev_erase_all B s = (case config_store_erase_all (nor B) (store s) (world s) of (st, w) \<Rightarrow> s\<lparr>store := st, world := w\<rparr>)"

definition quoted :: "string \<Rightarrow> string" where
  "quoted s = [CHR 0x27] @ s @ [CHR 0x27]"

definition io_overview :: "'w dev \<Rightarrow> string list" where
  "io_overview s =
     [''DI: 0x'' @ hexw 4 (unat (get_input_reg (of_nat INPUT_DI_IDX) s)) @ ''  DO: 0x'' @ hexw 2 (unat (get_holding_reg (of_nat HOLDING_DO_IDX) s AND 0xFF))
        @ ''  AI: '' @ dec_str (ai_of 0 s) @ '' '' @ dec_str (ai_of 1 s) @ '' '' @ dec_str (ai_of 2 s) @ '' '' @ dec_str (ai_of 3 s),
      ''rs485: '' @ reg_dec HOLDING_RS485_BAUDRATE_IDX s @ '' bps sid '' @ reg_dec HOLDING_SLAVE_ID_IDX s
        @ '' | can: 0x'' @ hexw 3 (unat (get_holding_reg (of_nat HOLDING_CAN_ID_IDX) s)) @ '' '' @ reg_dec HOLDING_CAN_BAUDRATE_IDX s @ '' kbit/s'',
      ''('' @ quoted ''io help'' @ '' for subcommands)'']"

text \<open>
  A setting: the third word is a number in range, which is written to the register; \<open>None\<close> when the words are not this setting.
\<close>

definition io_setting :: "'w board \<Rightarrow> string \<Rightarrow> (u32 \<Rightarrow> bool) \<Rightarrow> nat \<Rightarrow> string list \<Rightarrow> 'w dev \<Rightarrow> (unit, 'w dev) outcome option" where
  "io_setting B key ok idx argv s =
     (if length argv \<ge> 3 \<and> argv ! 1 = key
      then case parse_ul (argv ! 2) of
             None \<Rightarrow> None
           | Some v \<Rightarrow> if ok v then Some (outcome_bind (io_write_holding B (of_nat idx) (ucast v) s) (\<lambda>_ s. Ret () s)) else None
      else None)"

definition apply_note :: string where
  "apply_note = '' (reboot to apply, '' @ quoted ''io save'' @ '' to persist)''"

definition io_rs485 :: "'w board \<Rightarrow> string list \<Rightarrow> 'w dev \<Rightarrow> (string list, 'w dev) outcome" where
  "io_rs485 B argv s =
     (case io_setting B ''baud'' (\<lambda>v. 1200 \<le> v \<and> v \<le> 115200) HOLDING_RS485_BAUDRATE_IDX argv s of
        Some r \<Rightarrow> outcome_bind r (\<lambda>_ s. Ret [''rs485 baud -> '' @ dec_str (rd HOLDING_RS485_BAUDRATE_IDX s) @ apply_note] s)
      | None \<Rightarrow>
          (case io_setting B ''sid'' (\<lambda>v. 1 \<le> v \<and> v \<le> 247) HOLDING_SLAVE_ID_IDX argv s of
             Some r \<Rightarrow> outcome_bind r (\<lambda>_ s. Ret [''slave id -> '' @ dec_str (rd HOLDING_SLAVE_ID_IDX s) @ apply_note] s)
           | None \<Rightarrow> Ret [''rs485: '' @ dec_str (rd HOLDING_RS485_BAUDRATE_IDX s) @ '' bps, slave id '' @ dec_str (rd HOLDING_SLAVE_ID_IDX s) @ '' (8N1)'',
               ''(changes take effect after reboot)''] s))"

definition can_rates :: "u32 set" where
  "can_rates = {50, 100, 125, 250, 500, 800, 1000}"

definition io_can :: "'w board \<Rightarrow> string list \<Rightarrow> 'w dev \<Rightarrow> (string list, 'w dev) outcome" where
  "io_can B argv s =
     (case io_setting B ''id'' (\<lambda>v. 1 \<le> v \<and> v \<le> 0x7FF) HOLDING_CAN_ID_IDX argv s of
        Some r \<Rightarrow> outcome_bind r (\<lambda>_ s. Ret [''can id -> 0x'' @ hexw 3 (rd HOLDING_CAN_ID_IDX s) @ apply_note] s)
      | None \<Rightarrow>
          (case io_setting B ''bps'' (\<lambda>v. v \<in> can_rates) HOLDING_CAN_BAUDRATE_IDX argv s of
             Some r \<Rightarrow> outcome_bind r (\<lambda>_ s. Ret [''can bps -> '' @ dec_str (rd HOLDING_CAN_BAUDRATE_IDX s) @ '' kbit/s'' @ apply_note] s)
           | None \<Rightarrow> Ret [''can: id 0x'' @ hexw 3 (rd HOLDING_CAN_ID_IDX s) @ '', '' @ dec_str (rd HOLDING_CAN_BAUDRATE_IDX s) @ '' kbit/s'',
               ''(changes take effect after reboot)''] s))"

definition io_set_ip :: "'w board \<Rightarrow> string list \<Rightarrow> 'w dev \<Rightarrow> (string list, 'w dev) outcome" where
  "io_set_ip B argv s =
     (let bad = Ret [''invalid ip: '' @ (if length argv \<ge> 2 then argv ! 1 else [])] s
      in case (if length argv < 2 then None else parse_ip (argv ! 1)) of
           None \<Rightarrow> bad
         | Some a \<Rightarrow>
             if \<not> ip_addr_valid (a ! 0) (a ! 1) (a ! 2) (a ! 3) then bad
             else outcome_bind (io_write_holding B (of_nat HOLDING_IP_OCTET1_IDX) (ucast (a ! 0)) s) (\<lambda>_ s.
               outcome_bind (io_write_holding B (of_nat (HOLDING_IP_OCTET1_IDX + 1)) (ucast (a ! 1)) s) (\<lambda>_ s.
               outcome_bind (io_write_holding B (of_nat (HOLDING_IP_OCTET1_IDX + 2)) (ucast (a ! 2)) s) (\<lambda>_ s.
               outcome_bind (io_write_holding B (of_nat (HOLDING_IP_OCTET1_IDX + 3)) (ucast (a ! 3)) s) (\<lambda>_ s.
                 Ret [''ip -> '' @ dec_str (unat (a ! 0)) @ ''.'' @ dec_str (unat (a ! 1)) @ ''.'' @ dec_str (unat (a ! 2)) @ ''.'' @ dec_str (unat (a ! 3))
                      @ '' (saved, reboot to apply)''] (holding_reg_save B s))))))"

definition io_dispatch :: "sh_env \<Rightarrow> 'w board \<Rightarrow> string list \<Rightarrow> 'w dev \<Rightarrow> (string list, 'w dev) outcome" where
  "io_dispatch E B argv s =
     (if argv = [] then Ret (io_overview s) s
      else let cmd = hd argv in
        if cmd = ''help'' then Ret cmd_io_help s
        else if cmd = ''info'' then Ret (cmd_io_info E s) s
        else if cmd = ''di'' then Ret (cmd_io_di s) s
        else if cmd = ''do'' then
          (if length argv \<ge> 4 \<and> argv ! 1 = ''set'' then (case cmd_io_do_set B (argv ! 2) (argv ! 3) s of (l, s) \<Rightarrow> Ret l s)
           else Ret (cmd_io_do s) s)
        else if cmd = ''ai'' then Ret (cmd_io_ai s) s
        else if cmd = ''rs485'' then io_rs485 B argv s
        else if cmd = ''can'' then io_can B argv s
        else if cmd = ''ip'' then io_set_ip B argv s
        else if cmd = ''reg'' then cmd_io_reg B (tl argv) s
        else if cmd = ''save'' then Ret [''parameters saved''] (holding_reg_save B s)
        else if cmd = ''factory'' then
          Ret [''factory reset done, rebooting (defaults after reboot)''] (set_reboot_status True (dev_erase_all B s))
        else Ret [''unknown io command: '' @ cmd @ '' ('' @ quoted ''io help'' @ '')''] s)"

definition sh_dispatch :: "sh_env \<Rightarrow> 'w board \<Rightarrow> string \<Rightarrow> 'w dev \<Rightarrow> (string list, 'w dev) outcome" where
  "sh_dispatch E B line s =
     (case sh_split line SH_ARG_MAX of
        [] \<Rightarrow> Ret [] s
      | cmd # argv \<Rightarrow>
          if cmd = ''help'' then Ret cmd_help s
          else if cmd = ''tasks'' \<or> cmd = ''ps'' then Ret (cmd_tasks E) s
          else if cmd = ''reboot'' then (case cmd_reboot s of (l, s) \<Rightarrow> Ret l s)
          else if cmd = ''io'' then io_dispatch E B argv s
          else Ret [''unknown command: '' @ cmd @ '' (help)''] s)"

section \<open>Completion\<close>

datatype sh_cmd = Sh_Cmd (cmd_name: string) (cmd_sub: "sh_cmd list option")

definition io_do_cmds :: "sh_cmd list" where
  "io_do_cmds = [Sh_Cmd ''set'' None]"

definition io_rs485_cmds :: "sh_cmd list" where
  "io_rs485_cmds = [Sh_Cmd ''baud'' None, Sh_Cmd ''sid'' None]"

definition io_can_cmds :: "sh_cmd list" where
  "io_can_cmds = [Sh_Cmd ''id'' None, Sh_Cmd ''bps'' None]"

definition io_cmds :: "sh_cmd list" where
  "io_cmds = [Sh_Cmd ''help'' None, Sh_Cmd ''info'' None, Sh_Cmd ''di'' None, Sh_Cmd ''do'' (Some io_do_cmds), Sh_Cmd ''ai'' None,
     Sh_Cmd ''rs485'' (Some io_rs485_cmds), Sh_Cmd ''can'' (Some io_can_cmds), Sh_Cmd ''ip'' None, Sh_Cmd ''reg'' None, Sh_Cmd ''save'' None,
     Sh_Cmd ''factory'' None]"

definition root_cmds :: "sh_cmd list" where
  "root_cmds = [Sh_Cmd ''help'' None, Sh_Cmd ''tasks'' None, Sh_Cmd ''ps'' None, Sh_Cmd ''reboot'' None, Sh_Cmd ''io'' (Some io_cmds)]"

definition descend :: "sh_cmd list option \<Rightarrow> string \<Rightarrow> sh_cmd list option" where
  "descend tbl word =
     (case tbl of None \<Rightarrow> None
      | Some cs \<Rightarrow> (case List.find (\<lambda>c. cmd_name c = word) cs of None \<Rightarrow> None | Some c \<Rightarrow> cmd_sub c))"

text \<open>The table for the last word of the line, and that word, which reaches to the end of the line.\<close>

function complete_level :: "sh_cmd list option \<Rightarrow> string \<Rightarrow> sh_cmd list option \<times> string" where
  "complete_level tbl p =
     (let q = dropWhile blank p; word = takeWhile (\<lambda>c. \<not> blank c) q; r = dropWhile (\<lambda>c. \<not> blank c) q
      in if q = [] then (tbl, []) else if r = [] then (tbl, word) else complete_level (descend tbl word) r)"
  by pat_completeness auto
termination
proof (relation "measure (\<lambda>(tbl, p). length p)")
  fix tbl :: "sh_cmd list option" and p q word r :: string
  assume q: "q = dropWhile blank p" and r: "r = dropWhile (\<lambda>c. \<not> blank c) q" and "q \<noteq> []"
  from \<open>q \<noteq> []\<close> obtain c cs where c: "q = c # cs" by (meson neq_Nil_conv)
  have "\<not> blank (hd q)" unfolding q by (rule hd_dropWhile) (use \<open>q \<noteq> []\<close> q in \<open>simp only: not_False_eq_True\<close>)
  then have "length r \<le> length cs" using c unfolding r by (simp add: length_dropWhile_le)
  moreover have "length q \<le> length p" unfolding q by (rule length_dropWhile_le)
  ultimately show "((descend tbl word, r), tbl, p) \<in> measure (\<lambda>(tbl, p). length p)" using c by simp
qed simp

declare complete_level.simps [simp del]

datatype sh_out = Raw string | Line string

definition PROMPT :: string where [hub_defs]: "PROMPT = ''io> ''"
definition NL :: string where [hub_defs]: "NL = [CHR 0x0D, CHR 0x0A]"

fun common_prefix :: "string \<Rightarrow> string \<Rightarrow> string" where
  "common_prefix (a # r) (b # t) = (if a = b then a # common_prefix r t else [])"
| "common_prefix _ _ = []"

definition candidates :: "sh_cmd list \<Rightarrow> string \<Rightarrow> string list" where
  "candidates tbl word = take 16 (filter (\<lambda>name. take (length word) name = word) (map cmd_name tbl))"

fun list_names :: "string list \<Rightarrow> string" where
  "list_names [] = []"
| "list_names [x] = x"
| "list_names (x # xs) = x @ ''  '' @ list_names xs"

text \<open>
  The new line and the output; \<open>None\<close> when the code writes behind the end of the line, whose last place is
  for the NUL. The list of the candidates has fewer than 128 characters for every table.
\<close>

definition sh_complete :: "string \<Rightarrow> (string \<times> sh_out list) option" where
  "sh_complete line =
     (case complete_level (Some root_cmds) line of
        (None, word) \<Rightarrow> Some (line, [])
      | (Some tbl, word) \<Rightarrow>
          (case candidates tbl word of
             [] \<Rightarrow> Some (line, [])
           | [name] \<Rightarrow>
               let ext = take (SH_LINE_MAX - 2 - length line) (drop (length word) name) @ '' '';
                   line' = line @ ext
               in if length line' < SH_LINE_MAX then Some (line', [Raw ext]) else None
           | name # names \<Rightarrow>
               let lcp = fold (\<lambda>x a. common_prefix a x) names name;
                   line' = line @ take (SH_LINE_MAX - 1 - length line) (drop (length word) lcp)
               in if length line' < SH_LINE_MAX then Some (line', [Raw NL, Line (list_names (name # names)), Raw PROMPT, Raw line']) else None))"

section \<open>The line editor\<close>

record 'w sh_st =
  sh_dev :: "'w dev"
  sh_history :: sh_history
  sh_line :: string
  sh_draft :: string
  sh_pos :: nat
  sh_esc :: nat
  sh_nav :: int
  sh_prev_cr :: bool
  sh_log :: "sh_out list"

definition say :: "sh_out list \<Rightarrow> 'w sh_st \<Rightarrow> 'w sh_st" where
  "say os s = s\<lparr>sh_log := sh_log s @ os\<rparr>"

definition ESC :: char where [hub_defs]: "ESC = CHR 0x1B"

definition sh_redraw :: "string \<Rightarrow> nat \<Rightarrow> sh_out" where
  "sh_redraw line pos = Raw (CHR 0x0D # PROMPT @ line @ [ESC] @ ''[K'' @ (if pos < length line then [ESC] @ ''['' @ dec_str (length line - pos) @ ''D'' else []))"

text \<open>The line is replaced by a recalled one, if there is one.\<close>

definition recall :: "string option \<Rightarrow> 'w sh_st \<Rightarrow> 'w sh_st" where
  "recall h s = (case h of None \<Rightarrow> s | Some l \<Rightarrow> say [sh_redraw l (length l)] (s\<lparr>sh_line := l, sh_pos := length l\<rparr>))"

definition key_up :: "'w sh_st \<Rightarrow> 'w sh_st" where
  "key_up s =
     (let s = (if sh_nav s < 0 then s\<lparr>sh_draft := sh_line s, sh_nav := 0\<rparr>
               else if sh_nav s + 1 < int (sh_hist_len (sh_history s)) then s\<lparr>sh_nav := sh_nav s + 1\<rparr> else s)
      in recall (hist_get (nat (sh_nav s)) (sh_history s)) s)"

definition key_down :: "'w sh_st \<Rightarrow> 'w sh_st" where
  "key_down s =
     (if sh_nav s < 0 then s
      else let s = s\<lparr>sh_nav := sh_nav s - 1\<rparr>
           in recall (if sh_nav s < 0 then Some (sh_draft s) else hist_get (nat (sh_nav s)) (sh_history s)) s)"

definition arrow_key :: "char \<Rightarrow> 'w sh_st \<Rightarrow> 'w sh_st" where
  "arrow_key c s =
     (if c = CHR ''C'' then (if sh_pos s < length (sh_line s) then say [Raw ([ESC] @ ''[C'')] (s\<lparr>sh_pos := sh_pos s + 1\<rparr>) else s)
      else if c = CHR ''D'' then (if sh_pos s > 0 then say [Raw ([ESC] @ ''[D'')] (s\<lparr>sh_pos := sh_pos s - 1\<rparr>) else s)
      else if c = CHR ''A'' then key_up s
      else key_down s)"

text \<open>The end of a line; the result \<open>True\<close> of a key means that no write left the line.\<close>

definition key_enter :: "sh_env \<Rightarrow> 'w board \<Rightarrow> char \<Rightarrow> 'w sh_st \<Rightarrow> (bool, 'w sh_st) outcome" where
  "key_enter E B c s =
     (let s = say [Raw NL] (s\<lparr>sh_prev_cr := c = CHR 0x0D\<rparr>)
      in if sh_line s \<noteq> []
         then let s = s\<lparr>sh_history := hist_store (sh_line s) (sh_history s), sh_nav := - 1\<rparr>
              in case sh_dispatch E B (sh_line s) (sh_dev s) of
                   Reset d \<Rightarrow> Reset (s\<lparr>sh_dev := d\<rparr>)
                 | Ret ls d \<Rightarrow> Ret True (say (map Line ls @ [Raw PROMPT]) (s\<lparr>sh_dev := d, sh_line := [], sh_pos := 0\<rparr>))
         else Ret True (say [Raw PROMPT] s))"

definition key_backspace :: "'w sh_st \<Rightarrow> 'w sh_st" where
  "key_backspace s =
     (if sh_pos s > 0
      then let p = sh_pos s - 1; line = take p (sh_line s) @ drop (sh_pos s) (sh_line s)
           in say [if p = length line then Raw [CHR 0x08, CHR '' '', CHR 0x08] else sh_redraw line p] (s\<lparr>sh_line := line, sh_pos := p\<rparr>)
      else s)"

definition key_tab :: "'w sh_st \<Rightarrow> (bool, 'w sh_st) outcome" where
  "key_tab s =
     (let n = length (sh_line s);
          s = (if sh_pos s < n then say [Raw ([ESC] @ ''['' @ dec_str (n - sh_pos s) @ ''C'')] (s\<lparr>sh_pos := n\<rparr>) else s)
      in case sh_complete (sh_line s) of
           None \<Rightarrow> Ret False s
         | Some (line, os) \<Rightarrow> Ret True (say os (s\<lparr>sh_line := line, sh_pos := length line\<rparr>)))"

definition key_insert :: "char \<Rightarrow> 'w sh_st \<Rightarrow> 'w sh_st" where
  "key_insert c s =
     (let line = take (sh_pos s) (sh_line s) @ [c] @ drop (sh_pos s) (sh_line s); p = sh_pos s + 1
      in say [if sh_pos s = length (sh_line s) then Raw [c] else sh_redraw line p] (s\<lparr>sh_line := line, sh_pos := p\<rparr>))"

definition printable :: "char \<Rightarrow> bool" where
  "printable c \<longleftrightarrow> 0x20 \<le> (of_char c :: nat) \<and> (of_char c :: nat) < 0x7F"

definition plain_key :: "sh_env \<Rightarrow> 'w board \<Rightarrow> char \<Rightarrow> 'w sh_st \<Rightarrow> (bool, 'w sh_st) outcome" where
  "plain_key E B c s =
     (if c = CHR 0x0A \<and> sh_prev_cr s then Ret True (s\<lparr>sh_prev_cr := False\<rparr>)
      else let s = s\<lparr>sh_prev_cr := False\<rparr>
           in if c = CHR 0x0D \<or> c = CHR 0x0A then key_enter E B c s
              else if c = CHR 0x08 \<or> c = CHR 0x7F then Ret True (key_backspace s)
              else if c = CHR 0x09 then key_tab s
              else if printable c \<and> length (sh_line s) + 2 < SH_LINE_MAX then Ret True (key_insert c s)
              else Ret True s)"

definition csi_digit :: "char \<Rightarrow> bool" where
  "csi_digit c \<longleftrightarrow> 48 \<le> (of_char c :: nat) \<and> (of_char c :: nat) \<le> 57 \<or> c = CHR '';''"

definition sh_key :: "sh_env \<Rightarrow> 'w board \<Rightarrow> char \<Rightarrow> 'w sh_st \<Rightarrow> (bool, 'w sh_st) outcome" where
  "sh_key E B c s =
     (if sh_esc s \<noteq> 0
      then if sh_esc s = 1 \<and> (c = CHR ''['' \<or> c = CHR ''O'') then Ret True (s\<lparr>sh_esc := 2\<rparr>)
           else if sh_esc s = 2 \<and> csi_digit c then Ret True s
           else let s = s\<lparr>sh_esc := 0\<rparr>
                in Ret True (if c \<in> {CHR ''A'', CHR ''B'', CHR ''C'', CHR ''D''} then arrow_key c s else s)
      else if c = ESC then Ret True (s\<lparr>sh_esc := 1\<rparr>)
      else plain_key E B c s)"

text \<open>Keys until a write leaves the line or the device restarts.\<close>

fun sh_keys :: "sh_env \<Rightarrow> 'w board \<Rightarrow> string \<Rightarrow> 'w sh_st \<Rightarrow> (bool, 'w sh_st) outcome" where
  "sh_keys E B [] s = Ret True s"
| "sh_keys E B (c # cs) s = outcome_bind (sh_key E B c s) (\<lambda>ok s. if ok then sh_keys E B cs s else Ret False s)"

definition sh_start :: "'w dev \<Rightarrow> 'w sh_st" where
  "sh_start d =
     \<lparr>sh_dev = d, sh_history = \<lparr>sh_hist = replicate SH_HIST_MAX [], sh_hist_len = 0, sh_hist_newest = 0\<rparr>, sh_line = [], sh_draft = [], sh_pos = 0,
      sh_esc = 0, sh_nav = - 1, sh_prev_cr = False, sh_log = [Line [], Line ''shell ready (help for commands)'', Raw PROMPT]\<rparr>"

end
