(* ===== verification/Shell_Line.thy ===== *)
theory Shell_Line
  imports Shell
begin

unbundle bit_operations_syntax

text \<open>
  What the shell does: the line editor is a text with a cursor, its state stays well-formed for every key but one, the
  history keeps the last eight lines, received characters arrive in order, and the settings are those of the web interface.
\<close>

section \<open>Editing\<close>

text \<open>An editor as two texts, before and after the cursor, and the bytes that a terminal sends for its operations.\<close>

datatype edit = Insert char | Rubout | Go_Left | Go_Right

fun edit_keys :: "edit \<Rightarrow> string" where
  "edit_keys (Insert c) = [c]"
| "edit_keys Rubout = [CHR 0x7F]"
| "edit_keys Go_Left = [ESC, CHR ''['', CHR ''D'']"
| "edit_keys Go_Right = [ESC, CHR ''['', CHR ''C'']"

fun edit_step :: "edit \<Rightarrow> string \<times> string \<Rightarrow> string \<times> string" where
  "edit_step (Insert c) (l, r) = (if length l + length r + 2 < SH_LINE_MAX then (l @ [c], r) else (l, r))"
| "edit_step Rubout (l, r) = (butlast l, r)"
| "edit_step Go_Left (l, r) = (if l = [] then (l, r) else (butlast l, last l # r))"
| "edit_step Go_Right (l, r) = (if r = [] then (l, r) else (l @ [hd r], tl r))"

fun edit_ok :: "edit \<Rightarrow> bool" where
  "edit_ok (Insert c) = printable c"
| "edit_ok _ = True"

definition halves :: "'w sh_st \<Rightarrow> string \<times> string" where
  "halves s = (take (sh_pos s) (sh_line s), drop (sh_pos s) (sh_line s))"

definition at_rest :: "'w sh_st \<Rightarrow> bool" where
  "at_rest s \<longleftrightarrow> sh_esc s = 0 \<and> sh_pos s \<le> length (sh_line s)"

text \<open>The device and the history are untouched.\<close>

definition only_edits :: "'w sh_st \<Rightarrow> 'w sh_st \<Rightarrow> bool" where
  "only_edits s s' \<longleftrightarrow> sh_dev s' = sh_dev s \<and> sh_history s' = sh_history s"

lemma say_fields [simp]:
  "sh_dev (say os s) = sh_dev s" "sh_history (say os s) = sh_history s" "sh_line (say os s) = sh_line s" "sh_draft (say os s) = sh_draft s"
  "sh_pos (say os s) = sh_pos s" "sh_esc (say os s) = sh_esc s" "sh_nav (say os s) = sh_nav s" "sh_prev_cr (say os s) = sh_prev_cr s"
  by (simp_all add: say_def)

lemma printable_plain:
  assumes "printable c"
  shows "c \<noteq> CHR 0x0A" "c \<noteq> CHR 0x0D" "c \<noteq> CHR 0x08" "c \<noteq> CHR 0x7F" "c \<noteq> CHR 0x09" "c \<noteq> ESC"
  using assms by (auto simp: printable_def hub_defs)

lemma sh_keys_append: "sh_keys E B (xs @ ys) s = outcome_bind (sh_keys E B xs s) (\<lambda>ok s. if ok then sh_keys E B ys s else Ret False s)"
  by (induction xs arbitrary: s) (auto intro!: arg_cong [where f = "outcome_bind _"] ext simp: if_distrib)

lemma halves_insert:
  assumes "at_rest s"
  shows "halves (key_insert c s) = (fst (halves s) @ [c], snd (halves s))" "at_rest (key_insert c s)" "only_edits s (key_insert c s)"
  using assms by (simp_all add: halves_def key_insert_def Let_def at_rest_def only_edits_def)

lemma halves_backspace:
  assumes "at_rest s"
  shows "halves (key_backspace s) = (butlast (fst (halves s)), snd (halves s))" "at_rest (key_backspace s)" "only_edits s (key_backspace s)"
  using assms by (auto simp: halves_def key_backspace_def Let_def at_rest_def only_edits_def butlast_take min_def)

lemma halves_left:
  assumes "at_rest s"
  shows "halves (arrow_key (CHR ''D'') s) = edit_step Go_Left (halves s)" "at_rest (arrow_key (CHR ''D'') s)" "only_edits s (arrow_key (CHR ''D'') s)"
proof -
  have "drop (p - 1) xs = last (take p xs) # drop p xs" if "0 < p" "p \<le> length xs" for p and xs :: string
    using that by (cases p) (simp_all add: Cons_nth_drop_Suc take_Suc_conv_app_nth)
  then show "halves (arrow_key (CHR ''D'') s) = edit_step Go_Left (halves s)"
    using assms by (auto simp: halves_def arrow_key_def at_rest_def butlast_take min_def)
qed (use assms in \<open>auto simp: arrow_key_def at_rest_def only_edits_def\<close>)

lemma halves_right:
  assumes "at_rest s"
  shows "halves (arrow_key (CHR ''C'') s) = edit_step Go_Right (halves s)" "at_rest (arrow_key (CHR ''C'') s)" "only_edits s (arrow_key (CHR ''C'') s)"
  using assms by (auto simp: halves_def arrow_key_def at_rest_def only_edits_def take_Suc_nth hd_drop_conv_nth tl_drop drop_Suc)

lemma halves_flags [simp]:
  "halves (s\<lparr>sh_prev_cr := b\<rparr>) = halves s" "at_rest (s\<lparr>sh_prev_cr := b\<rparr>) = at_rest s" "only_edits (s\<lparr>sh_prev_cr := b\<rparr>) s' = only_edits s s'"
  by (simp_all add: halves_def at_rest_def only_edits_def)

lemma arrow_keys:
  assumes "at_rest s" "c \<in> {CHR ''C'', CHR ''D''}"
  shows "sh_keys E B [ESC, CHR ''['', c] s = Ret True (arrow_key c s)"
proof -
  have e: "s\<lparr>sh_esc := 0\<rparr> = s" using assms(1) by (simp add: at_rest_def)
  have "sh_keys E B [ESC, CHR ''['', c] s = Ret True (arrow_key c (s\<lparr>sh_esc := 0\<rparr>))"
    using assms by (auto simp: sh_key_def at_rest_def hub_defs csi_digit_def Let_def)
  then show ?thesis by (simp only: e)
qed

lemma edit_keys_step:
  assumes "at_rest s" "edit_ok e"
  shows "\<exists>s'. sh_keys E B (edit_keys e) s = Ret True s' \<and> halves s' = edit_step e (halves s) \<and> at_rest s' \<and> only_edits s s'"
proof (cases e)
  case (Insert c)
  have r: "at_rest (s\<lparr>sh_prev_cr := False\<rparr>)" using assms(1) by simp
  have l: "length (fst (halves s)) + length (snd (halves s)) = length (sh_line s)" using assms(1) by (simp add: halves_def at_rest_def)
  note h = halves_insert [OF r, of c]
  show ?thesis
  proof (cases "length (sh_line s) + 2 < SH_LINE_MAX")
    case True
    then have "sh_keys E B [c] s = Ret True (key_insert c (s\<lparr>sh_prev_cr := False\<rparr>))"
      using assms Insert printable_plain [of c] by (simp add: sh_key_def plain_key_def at_rest_def Let_def)
    then show ?thesis using h Insert True l by (cases "halves s") auto
  next
    case False
    then have "sh_keys E B [c] s = Ret True (s\<lparr>sh_prev_cr := False\<rparr>)"
      using assms Insert printable_plain [of c] by (simp add: sh_key_def plain_key_def at_rest_def Let_def)
    then show ?thesis using r Insert False l by (cases "halves s") (auto simp: only_edits_def)
  qed
next
  case Rubout
  have r: "at_rest (s\<lparr>sh_prev_cr := False\<rparr>)" using assms(1) by simp
  have "sh_keys E B [CHR 0x7F] s = Ret True (key_backspace (s\<lparr>sh_prev_cr := False\<rparr>))"
    using assms(1) by (simp add: sh_key_def plain_key_def at_rest_def Let_def hub_defs)
  then show ?thesis using halves_backspace [OF r] Rubout by (cases "halves s") auto
next
  case Go_Left
  then show ?thesis using arrow_keys [OF assms(1), of "CHR ''D''"] halves_left [OF assms(1)] by simp
next
  case Go_Right
  then show ?thesis using arrow_keys [OF assms(1), of "CHR ''C''"] halves_right [OF assms(1)] by simp
qed

lemma edits_run:
  assumes "at_rest s" "\<forall>e\<in>set es. edit_ok e"
  shows "\<exists>s'. sh_keys E B (concat (map edit_keys es)) s = Ret True s' \<and> halves s' = fold edit_step es (halves s) \<and> at_rest s' \<and> only_edits s s'"
  using assms
proof (induction es arbitrary: s)
  case Nil
  then show ?case by (simp add: only_edits_def)
next
  case (Cons e es)
  obtain s1 where s1: "sh_keys E B (edit_keys e) s = Ret True s1" "halves s1 = edit_step e (halves s)" "at_rest s1" "only_edits s s1"
    using edit_keys_step [of s e E B] Cons.prems by auto
  obtain s2 where "sh_keys E B (concat (map edit_keys es)) s1 = Ret True s2" "halves s2 = fold edit_step es (halves s1)" "at_rest s2" "only_edits s1 s2"
    using Cons.IH [OF s1(3)] Cons.prems by auto
  then show ?case using s1 by (auto simp: sh_keys_append only_edits_def)
qed

text \<open>
  (C28) The shell executes the line as edited: whatever is typed, deleted and inserted with the cursor moved about, the return key hands the text
  of the two-sided editor to the commands, and its effect on the device is that of the command.
\<close>

theorem shell_executes_edited_line:
  assumes "\<forall>e\<in>set es. edit_ok e" "fold edit_step es ([], []) = (l, r)" "l @ r \<noteq> []"
  shows "case sh_dispatch E B (l @ r) d of
      Ret ls d' \<Rightarrow> \<exists>s'. sh_keys E B (concat (map edit_keys es) @ [CHR 0x0D]) (sh_start d) = Ret True s' \<and> sh_dev s' = d' \<and> sh_line s' = []
        \<and> hist_get 0 (sh_history s') = Some (l @ r) \<and> (\<exists>os. sh_log s' = os @ [Raw NL] @ map Line ls @ [Raw PROMPT])
    | Reset d' \<Rightarrow> \<exists>s'. sh_keys E B (concat (map edit_keys es) @ [CHR 0x0D]) (sh_start d) = Reset s' \<and> sh_dev s' = d'"
proof -
  have "at_rest (sh_start d)" "halves (sh_start d) = ([], [])" by (simp_all add: at_rest_def halves_def sh_start_def)
  with edits_run [OF this(1) assms(1), of E B] assms(2) obtain s where s: "sh_keys E B (concat (map edit_keys es)) (sh_start d) = Ret True s"
      "halves s = (l, r)" "at_rest s" "only_edits (sh_start d) s" by auto
  have line: "sh_line s = l @ r" using s(2) by (auto simp: halves_def)
  have d: "sh_dev s = d" "sh_history s = \<lparr>sh_hist = replicate SH_HIST_MAX [], sh_hist_len = 0, sh_hist_newest = 0\<rparr>"
    using s(4) by (simp_all add: only_edits_def sh_start_def)
  have key: "sh_key E B (CHR 0x0D) s = key_enter E B (CHR 0x0D) (s\<lparr>sh_prev_cr := False\<rparr>)"
    using s(3) by (simp add: sh_key_def plain_key_def at_rest_def hub_defs Let_def)
  show ?thesis
  proof (cases "sh_dispatch E B (l @ r) d")
    case (Ret ls d')
    then show ?thesis using s(1) key line d assms(3)
      by (simp add: sh_keys_append key_enter_def Let_def hist_store_def hist_get_def hub_defs say_def)
  next
    case (Reset d')
    then show ?thesis using s(1) key line d assms(3) by (simp add: sh_keys_append key_enter_def Let_def)
  qed
qed

section \<open>History\<close>

definition wf_hist :: "sh_history \<Rightarrow> bool" where
  "wf_hist h \<longleftrightarrow> length (sh_hist h) = SH_HIST_MAX \<and> sh_hist_len h \<le> SH_HIST_MAX \<and> sh_hist_newest h < SH_HIST_MAX
     \<and> (\<forall>l\<in>set (sh_hist h). length l < SH_LINE_MAX)"

text \<open>The stored lines, the newest first.\<close>

definition hist_lines :: "sh_history \<Rightarrow> string list" where
  "hist_lines h = map (\<lambda>k. sh_hist h ! ((sh_hist_newest h + SH_HIST_MAX - k) mod SH_HIST_MAX)) [0..<sh_hist_len h]"

lemma hist_get_lines: "hist_get k h = (if k < sh_hist_len h then Some (hist_lines h ! k) else None)"
  by (simp add: hist_get_def hist_lines_def)

lemma ring_back:
  assumes "p < (8 :: nat)" "k < 7"
  shows "((p + 1) mod 8 + 8 - Suc k) mod 8 = (p + 8 - k) mod 8" "((p + 1) mod 8 + 8 - Suc k) mod 8 \<noteq> (p + 1) mod 8"
proof -
  show "((p + 1) mod 8 + 8 - Suc k) mod 8 = (p + 8 - k) mod 8"
  proof (cases "p = 7")
    case True
    have "15 - k = (7 - k) + 8" using assms(2) by linarith
    then have "(15 - k) mod 8 = (7 - k) mod 8" by (simp only: mod_add_self2)
    then show ?thesis using True by simp
  next
    case False
    then have "(p + 1) mod 8 = p + 1" using assms(1) by (intro mod_less) linarith
    then show ?thesis by (simp add: add.commute)
  qed
  have "(p + 8 - k) mod 8 = (if k \<le> p then p - k else p + 8 - k)"
  proof (cases "k \<le> p")
    case True
    then have "p + 8 - k = (p - k) + 8" by linarith
    then have "(p + 8 - k) mod 8 = (p - k) mod 8" by (simp only: mod_add_self2)
    then show ?thesis using True assms by simp
  qed simp
  then show "((p + 1) mod 8 + 8 - Suc k) mod 8 \<noteq> (p + 1) mod 8"
    unfolding \<open>((p + 1) mod 8 + 8 - Suc k) mod 8 = (p + 8 - k) mod 8\<close> using assms by (cases "p = 7") auto
qed

lemma wf_hist_store: "wf_hist h \<Longrightarrow> length l < SH_LINE_MAX \<Longrightarrow> wf_hist (hist_store l h)"
  by (auto simp: wf_hist_def hist_store_def Let_def hub_defs dest!: set_update_subset_insert [THEN subsetD])

text \<open>
  The history is the list of the last eight lines, the newest first, with a line that repeats the newest one left out, and recalling
  goes through that list.
\<close>

theorem shell_history_last_eight:
  assumes "wf_hist h"
  shows "hist_lines (hist_store l h) = (if hist_lines h \<noteq> [] \<and> hd (hist_lines h) = l then hist_lines h else take SH_HIST_MAX (l # hist_lines h))
    \<and> hist_get k h = (if k < length (hist_lines h) then Some (hist_lines h ! k) else None)"
proof
  let ?n = "sh_hist_newest h" and ?H = "sh_hist h" and ?m = "sh_hist_len h"
  have w: "length ?H = 8" "?m \<le> 8" "?n < 8" using assms by (simp_all add: wf_hist_def hub_defs)
  have newest: "hd (hist_lines h) = ?H ! ?n" if "?m \<noteq> 0" using that w by (simp add: hist_lines_def hd_map hub_defs)
  have emp: "hist_lines h = [] \<longleftrightarrow> ?m = 0" by (simp add: hist_lines_def)
  show "hist_lines (hist_store l h) = (if hist_lines h \<noteq> [] \<and> hd (hist_lines h) = l then hist_lines h else take SH_HIST_MAX (l # hist_lines h))"
  proof (cases "?m \<noteq> 0 \<and> ?H ! ?n = l")
    case True
    then show ?thesis using newest emp by (simp add: hist_store_def)
  next
    case False
    define i where "i = (?n + 1) mod 8"
    have i: "i < 8" by (simp add: i_def)
    define m where "m = (if ?m < 8 then ?m + 1 else ?m)"
    have st: "hist_store l h = \<lparr>sh_hist = ?H[i := l], sh_hist_len = m, sh_hist_newest = i\<rparr>"
      using False by (auto simp: hist_store_def Let_def hub_defs i_def m_def)
    have at: "?H[i := l] ! ((i + 8 - k) mod 8) = (l # hist_lines h) ! k" if "k < m" for k
    proof (cases k)
      case 0
      then show ?thesis using i w by simp
    next
      case (Suc j)
      then have j: "j < 7" "j < ?m" using that w by (auto simp: m_def split: if_splits)
      have "(i + 8 - Suc j) mod 8 = (?n + 8 - j) mod 8" "(i + 8 - Suc j) mod 8 \<noteq> i" using ring_back [OF w(3) j(1)] by (simp_all add: i_def)
      then show ?thesis using Suc j w by (simp add: hist_lines_def hub_defs)
    qed
    have "hist_lines (hist_store l h) = take 8 (l # hist_lines h)"
    proof (rule nth_equalityI)
      show len: "length (hist_lines (hist_store l h)) = length (take 8 (l # hist_lines h))"
        using w by (auto simp: st hist_lines_def m_def)
      fix k assume "k < length (hist_lines (hist_store l h))"
      then have "k < m" "k < 8" using w by (auto simp: st hist_lines_def m_def split: if_splits)
      have "hist_lines (hist_store l h) ! k = (l # hist_lines h) ! k" using at [OF \<open>k < m\<close>] \<open>k < m\<close> by (simp add: st hist_lines_def hub_defs)
      also have "\<dots> = take 8 (l # hist_lines h) ! k" using \<open>k < 8\<close> by (simp only: nth_take)
      finally show "hist_lines (hist_store l h) ! k = take 8 (l # hist_lines h) ! k" .
    qed
    moreover have "\<not> (hist_lines h \<noteq> [] \<and> hd (hist_lines h) = l)" using False newest emp by auto
    ultimately show ?thesis by (auto simp: hub_defs)
  qed
qed (simp add: hist_get_lines hist_lines_def)

section \<open>The state stays well-formed\<close>

definition wf_sh :: "'w sh_st \<Rightarrow> bool" where
  "wf_sh s \<longleftrightarrow> sh_pos s \<le> length (sh_line s) \<and> length (sh_line s) < SH_LINE_MAX \<and> length (sh_draft s) < SH_LINE_MAX \<and> sh_esc s \<le> 2
     \<and> - 1 \<le> sh_nav s \<and> sh_nav s \<le> int SH_HIST_MAX \<and> wf_hist (sh_history s)"

lemma wf_say [simp]: "wf_sh (say os s) = wf_sh s"
  by (simp add: wf_sh_def)

lemma wf_flags [simp]: "wf_sh (s\<lparr>sh_prev_cr := b\<rparr>) = wf_sh s" "wf_sh s \<Longrightarrow> k \<le> 2 \<Longrightarrow> wf_sh (s\<lparr>sh_esc := k\<rparr>)"
  by (simp_all add: wf_sh_def)

lemma wf_sh_start: "wf_sh (sh_start d)"
  by (simp add: wf_sh_def sh_start_def wf_hist_def hub_defs)

lemma hist_get_short: "wf_hist h \<Longrightarrow> hist_get k h = Some l \<Longrightarrow> length l < SH_LINE_MAX"
  by (auto simp: wf_hist_def hist_get_def hub_defs split: if_splits)

lemma wf_recall: "wf_sh s \<Longrightarrow> (\<And>l. h = Some l \<Longrightarrow> length l < SH_LINE_MAX) \<Longrightarrow> wf_sh (recall h s)"
  by (auto simp: recall_def wf_sh_def split: option.split)

lemma wf_key_up:
  assumes "wf_sh s"
  shows "wf_sh (key_up s)"
proof -
  define s1 where "s1 = (if sh_nav s < 0 then s\<lparr>sh_draft := sh_line s, sh_nav := 0\<rparr>
    else if sh_nav s + 1 < int (sh_hist_len (sh_history s)) then s\<lparr>sh_nav := sh_nav s + 1\<rparr> else s)"
  have "wf_sh s1" using assms by (auto simp: s1_def wf_sh_def wf_hist_def)
  moreover from this have "length l < SH_LINE_MAX" if "hist_get (nat (sh_nav s1)) (sh_history s1) = Some l" for l
    using that hist_get_short by (auto simp: wf_sh_def)
  ultimately show ?thesis unfolding key_up_def s1_def [symmetric] Let_def by (rule wf_recall)
qed

lemma wf_key_down:
  assumes "wf_sh s"
  shows "wf_sh (key_down s)"
proof (cases "sh_nav s < 0")
  case False
  define s1 where "s1 = s\<lparr>sh_nav := sh_nav s - 1\<rparr>"
  have w: "wf_sh s1" using assms False by (auto simp: s1_def wf_sh_def)
  then have "length l < SH_LINE_MAX" if "(if sh_nav s1 < 0 then Some (sh_draft s1) else hist_get (nat (sh_nav s1)) (sh_history s1)) = Some l" for l
    using that hist_get_short by (auto simp: wf_sh_def split: if_splits)
  from wf_recall [OF w this] show ?thesis using False by (simp add: key_down_def s1_def [symmetric] Let_def)
qed (use assms in \<open>simp add: key_down_def\<close>)

lemma wf_pos: "wf_sh s \<Longrightarrow> p \<le> length (sh_line s) \<Longrightarrow> wf_sh (s\<lparr>sh_pos := p\<rparr>)"
  by (simp add: wf_sh_def)

lemma wf_arrow_key:
  assumes "wf_sh s"
  shows "wf_sh (arrow_key c s)"
proof -
  have "sh_pos s \<le> length (sh_line s)" using assms by (simp add: wf_sh_def)
  then have "wf_sh (s\<lparr>sh_pos := sh_pos s - 1\<rparr>)" "sh_pos s < length (sh_line s) \<Longrightarrow> wf_sh (s\<lparr>sh_pos := sh_pos s + 1\<rparr>)"
    using wf_pos [OF assms] by simp_all
  then show ?thesis using wf_key_up [OF assms] wf_key_down [OF assms] assms by (auto simp: arrow_key_def)
qed

lemma wf_key_backspace: "wf_sh s \<Longrightarrow> wf_sh (key_backspace s)"
  by (auto simp: key_backspace_def Let_def) (auto simp: wf_sh_def)

lemma wf_key_insert: "wf_sh s \<Longrightarrow> length (sh_line s) + 2 < SH_LINE_MAX \<Longrightarrow> wf_sh (key_insert c s)"
  by (auto simp: key_insert_def Let_def wf_sh_def)

lemma wf_key_enter: "wf_sh s \<Longrightarrow> wf_sh (outcome_state (key_enter E B c s)) \<and> outcome_val (key_enter E B c s) \<in> {None, Some True}"
  by (auto simp: key_enter_def Let_def wf_sh_def hub_defs wf_hist_store [unfolded hub_defs] split: outcome.split)

lemma wf_key_tab:
  assumes "wf_sh s" "length (sh_line s) + 1 < SH_LINE_MAX"
  shows "wf_sh (outcome_state (key_tab s)) \<and> outcome_val (key_tab s) = Some True"
proof -
  have "\<exists>line os. sh_complete (sh_line s) = Some (line, os) \<and> length line < SH_LINE_MAX"
    using assms(2) by (auto simp: sh_complete_def Let_def hub_defs split: option.split prod.split list.split)
  then show ?thesis using assms(1) by (auto simp: key_tab_def Let_def wf_sh_def)
qed

text \<open>A key that kept the state well-formed and wrote only inside the line, or ended in a restart.\<close>

definition key_fine :: "(bool, 'w sh_st) outcome \<Rightarrow> bool" where
  "key_fine r \<longleftrightarrow> wf_sh (outcome_state r) \<and> outcome_val r \<in> {None, Some True}"

lemma key_fine_if: "key_fine a \<Longrightarrow> key_fine b \<Longrightarrow> key_fine (if c then a else b)"
  by simp

lemma key_fine_Ret: "wf_sh s \<Longrightarrow> key_fine (Ret True s)"
  by (simp add: key_fine_def)

lemma wf_sh_if: "wf_sh a \<Longrightarrow> wf_sh b \<Longrightarrow> wf_sh (if c then a else b)"
  by simp

lemmas key_fine_intros = key_fine_if key_fine_Ret wf_sh_if

text \<open>
  The editor stays inside its arrays: for every key the state stays well-formed (cursor inside the line, line, draft and history inside their
  buffers) and no write leaves the line, with one exception, the tabulator on a line that is full.
\<close>

theorem shell_keys_stay_inside:
  assumes "wf_sh s" "c = CHR 0x09 \<Longrightarrow> length (sh_line s) + 1 < SH_LINE_MAX"
  shows "wf_sh (outcome_state (sh_key E B c s)) \<and> outcome_val (sh_key E B c s) \<in> {None, Some True}"
proof -
  have p: "wf_sh (s\<lparr>sh_prev_cr := False\<rparr>)" using assms(1) by simp
  note k = wf_key_enter [OF p, of E B c] wf_key_backspace [OF p] wf_key_insert [OF p, of c] wf_key_tab [OF p]
  have plain: "key_fine (plain_key E B c s)" using k assms by (simp add: plain_key_def Let_def key_fine_def)
  have "wf_sh (arrow_key c (s\<lparr>sh_esc := 0\<rparr>))" using assms(1) by (simp add: wf_arrow_key)
  moreover have "wf_sh (s\<lparr>sh_esc := 0\<rparr>)" "wf_sh (s\<lparr>sh_esc := 1\<rparr>)" "wf_sh (s\<lparr>sh_esc := 2\<rparr>)" using assms(1) by simp_all
  ultimately have "key_fine (sh_key E B c s)" unfolding sh_key_def Let_def by (intro key_fine_intros plain assms(1))
  then show ?thesis by (simp only: key_fine_def)
qed

section \<open>The full line\<close>

lemma blank_simps [simp]: "blank (CHR '' '')" "\<not> blank (CHR ''i'')" "\<not> blank (CHR ''o'')" "\<not> blank (CHR ''d'')"
  by (simp_all add: blank_def)

lemma dropWhile_blanks [simp]: "dropWhile blank (replicate k (CHR '' '') @ s) = dropWhile blank s"
  by (induction k) auto

definition full_line :: "nat \<Rightarrow> string" where
  "full_line k = ''io'' @ replicate (Suc k) (CHR '' '') @ ''do''"

lemma level_do: "complete_level (Some root_cmds) (full_line k) = (Some io_cmds, ''do'')"
proof -
  have "complete_level (Some io_cmds) (replicate (Suc k) (CHR '' '') @ ''do'') = (Some io_cmds, ''do'')"
    by (subst complete_level.simps) (simp add: Let_def)
  moreover have "descend (Some root_cmds) ''io'' = Some io_cmds" by (simp add: descend_def root_cmds_def)
  ultimately show ?thesis by (subst complete_level.simps) (simp add: Let_def full_line_def)
qed

lemma level_set: "complete_level (Some root_cmds) (full_line k @ '' '') = (Some io_do_cmds, [])"
proof -
  have "complete_level (Some io_do_cmds) '' '' = (Some io_do_cmds, [])" by (subst complete_level.simps) (simp add: Let_def)
  moreover have "descend (Some root_cmds) ''io'' = Some io_cmds" by (simp add: descend_def root_cmds_def)
  moreover have "descend (Some io_cmds) ''do'' = Some io_do_cmds" by (simp add: descend_def io_cmds_def)
  ultimately have "complete_level (Some io_cmds) (replicate (Suc k) (CHR '' '') @ ''do '') = (Some io_do_cmds, [])"
    by (subst complete_level.simps) (simp add: Let_def)
  with \<open>descend (Some root_cmds) ''io'' = Some io_cmds\<close> show ?thesis by (subst complete_level.simps) (simp add: Let_def full_line_def)
qed

lemma complete_full: "sh_complete (full_line 89) = Some (full_line 89 @ '' '', [Raw '' ''])" "sh_complete (full_line 89 @ '' '') = None"
proof -
  have n: "length (full_line 89) = 94" by (simp add: full_line_def)
  have c: "candidates io_cmds ''do'' = [''do'']" "candidates io_do_cmds [] = [''set'']" by (simp_all add: candidates_def io_cmds_def io_do_cmds_def)
  show "sh_complete (full_line 89) = Some (full_line 89 @ '' '', [Raw '' ''])"
    by (simp add: sh_complete_def level_do c n Let_def hub_defs)
  show "sh_complete (full_line 89 @ '' '') = None" by (simp add: sh_complete_def level_set c n Let_def hub_defs)
qed

lemma typed:
  assumes "at_rest s" "sh_pos s = length (sh_line s)" "\<forall>c\<in>set t. printable c" "length (sh_line s) + length t + 1 < SH_LINE_MAX"
  shows "\<exists>s'. sh_keys E B t s = Ret True s' \<and> sh_line s' = sh_line s @ t \<and> sh_pos s' = length (sh_line s') \<and> at_rest s' \<and> only_edits s s'"
proof -
  have e: "concat (map (edit_keys \<circ> Insert) t) = t" by (induction t) simp_all
  have f: "fold edit_step (map Insert t) (l, []) = (l @ t, [])" if "length l + length t + 1 < SH_LINE_MAX" for l
    using that by (induction t arbitrary: l) auto
  have h: "halves s = (sh_line s, [])" using assms(2) by (simp add: halves_def)
  obtain s' where s': "sh_keys E B t s = Ret True s'" "halves s' = (sh_line s @ t, [])" "at_rest s'" "only_edits s s'"
    using edits_run [OF assms(1), of "map Insert t" E B] assms(3) f [OF assms(4)] by (auto simp: e h)
  from s'(2) have l: "sh_line s' = sh_line s @ t" by (metis append_Nil2 append_take_drop_id fst_conv halves_def snd_conv)
  moreover have "sh_pos s' = length (sh_line s')" using s'(2,3) l by (auto simp: halves_def at_rest_def)
  ultimately show ?thesis using s' by blast
qed

lemma tab_plain:
  assumes "at_rest s" "sh_pos s = length (sh_line s)"
  shows "sh_key E B (CHR 0x09) s = (case sh_complete (sh_line s) of
      None \<Rightarrow> Ret False (s\<lparr>sh_prev_cr := False\<rparr>)
    | Some (line, os) \<Rightarrow> Ret True (say os (s\<lparr>sh_prev_cr := False, sh_line := line, sh_pos := length line\<rparr>)))"
  using assms by (simp add: sh_key_def plain_key_def key_tab_def at_rest_def hub_defs Let_def)

text \<open>
  (C29) The tabulator can write behind the line: with \<open>io\<close>, ninety blanks and \<open>do\<close> typed, the line has 94 characters; the first tabulator
  appends a blank and the second, whose only candidate is \<open>set\<close>, appends another one without a check, so that the NUL falls behind the array.
\<close>

theorem shell_tab_overruns:
  "\<exists>s'. sh_keys E B (''io'' @ replicate 90 (CHR '' '') @ ''do'' @ [CHR 0x09, CHR 0x09]) (sh_start d) = Ret False s' \<and> length (sh_line s') = SH_LINE_MAX - 1"
proof -
  have f: "full_line 89 = ''io'' @ replicate 90 (CHR '' '') @ ''do''" by (simp add: full_line_def flip: replicate_Suc)
  have p: "\<forall>c\<in>set (full_line 89). printable c" by (auto simp: full_line_def printable_def)
  have n: "length (full_line 89) = 94" by (simp add: full_line_def)
  have st: "at_rest (sh_start d)" "sh_pos (sh_start d) = length (sh_line (sh_start d))" "sh_line (sh_start d) = []"
    by (simp_all add: sh_start_def at_rest_def)
  have "length (sh_line (sh_start d)) + length (full_line 89) + 1 < SH_LINE_MAX" using st(3) n by (simp add: hub_defs)
  from typed [OF st(1,2) p this] st(3) obtain s where s: "sh_keys E B (full_line 89) (sh_start d) = Ret True s" "sh_line s = full_line 89"
      "sh_pos s = length (sh_line s)" "at_rest s" by fastforce
  define s1 where "s1 = say [Raw '' ''] (s\<lparr>sh_prev_cr := False, sh_line := full_line 89 @ '' '', sh_pos := length (full_line 89 @ '' '')\<rparr>)"
  have k1: "sh_key E B (CHR 0x09) s = Ret True s1" using tab_plain [OF s(4,3)] s(2) complete_full by (simp add: s1_def)
  have r1: "at_rest s1" "sh_pos s1 = length (sh_line s1)" "sh_line s1 = full_line 89 @ '' ''" using s(4) by (simp_all add: s1_def at_rest_def)
  have k2: "sh_key E B (CHR 0x09) s1 = Ret False (s1\<lparr>sh_prev_cr := False\<rparr>)" using tab_plain [OF r1(1,2)] r1(3) complete_full by simp
  have "sh_keys E B (full_line 89 @ [CHR 0x09, CHR 0x09]) (sh_start d) = Ret False (s1\<lparr>sh_prev_cr := False\<rparr>)"
    unfolding sh_keys_append s(1) by (simp add: k1 k2)
  moreover have "length (sh_line (s1\<lparr>sh_prev_cr := False\<rparr>)) = SH_LINE_MAX - 1" using r1(3) n by (simp add: hub_defs)
  ultimately show ?thesis unfolding f by (metis append_assoc)
qed

section \<open>Settings\<close>

lemma io_setting_write:
  assumes "wf_dev d" "plain_reg idx" "parse_ul t = Some v" "ok v"
  shows "io_setting B key ok idx [cmd, key, t] d = Some (Ret () (d\<lparr>holding_reg := (holding_reg d)[idx := ucast v]\<rparr>))"
  using plain_write [OF assms(1,2)] assms(3,4) by (simp add: io_setting_def)

text \<open>
  The shell and the web interface agree on the settings: for the CAN rate both accept the same numbers and leave the same device,
  the shell with \<open>io can bps\<close> and the web command with its field.
\<close>

theorem shell_setting_as_web:
  assumes "wf_dev d" "parse_ul t = Some v" "json_get_i32 json ''can_bps'' = Some (uint v)"
  shows "outcome_state (io_can B [''can'', ''bps'', t] d) = outcome_state (cfg_num B json ''can_bps'' can_bps_ok ''invalid can baud'' HOLDING_CAN_BAUDRATE_IDX d)"
proof -
  have p: "plain_reg HOLDING_CAN_BAUDRATE_IDX" by (simp add: plain_reg_def hub_defs)
  have ok: "v \<in> can_rates \<longleftrightarrow> can_bps_ok (uint v)" by (simp add: can_rates_def can_bps_ok_def word_uint_eq_iff)
  have n: "io_setting B ''id'' (\<lambda>v. 1 \<le> v \<and> v \<le> 0x7FF) HOLDING_CAN_ID_IDX [''can'', ''bps'', t] d = None" by (simp add: io_setting_def)
  have u: "(of_int (uint v) :: u16) = ucast v" by (simp add: unsigned_ucast_eq word_uint_eq_iff)
  show ?thesis
  proof (cases "v \<in> can_rates")
    case True
    then show ?thesis using io_setting_write [OF assms(1) p assms(2), of "\<lambda>v. v \<in> can_rates" B "''bps''" "''can''"] n ok assms(3) plain_write [OF assms(1) p] u
      by (simp add: io_can_def cfg_num_def)
  next
    case False
    then show ?thesis using n ok assms(2,3) by (simp add: io_can_def cfg_num_def io_setting_def)
  qed
qed

section \<open>Received characters\<close>

definition rx_used :: "nat \<Rightarrow> nat \<Rightarrow> nat" where
  "rx_used h t = (if t \<le> h then h - t else h + 128 - t)"

definition rx_chars :: "sh_rx \<Rightarrow> u8 list" where
  "rx_chars r = map (\<lambda>i. sh_ring r ! ((unat (sh_tail r) + i) mod 128)) [0..<rx_used (unat (sh_head r)) (unat (sh_tail r))]"

definition wf_ring :: "sh_rx \<Rightarrow> bool" where
  "wf_ring r \<longleftrightarrow> length (sh_ring r) = 128 \<and> unat (sh_head r) < 128 \<and> unat (sh_tail r) < 128"

lemma mod_128: "n < 256 \<Longrightarrow> n mod 128 = (if n < 128 then n else n - 128 :: nat)"
  by (simp add: mod_if)

lemma unat_mod_128 [simp]: "unat (of_nat (n mod 128) :: u8) = n mod 128"
proof -
  have "n mod 128 < 256" using mod_less_divisor [of 128 n] by linarith
  then show ?thesis by (simp add: unat_of_nat)
qed

lemma rx_used_step:
  assumes "h < 128" "t < 128"
  shows "(t + rx_used h t) mod 128 = h" "(h + 1) mod 128 \<noteq> t \<longleftrightarrow> rx_used h t < 127"
    and "rx_used h t < 127 \<Longrightarrow> rx_used ((h + 1) mod 128) t = rx_used h t + 1" "t \<noteq> h \<Longrightarrow> rx_used h t = rx_used h ((t + 1) mod 128) + 1"
    and "rx_used h t < 128" "rx_used h t = 0 \<longleftrightarrow> t = h"
  using assms by (auto simp: rx_used_def mod_128 split: if_splits)

lemma rx_slots:
  assumes "h < 128" "t < 128" "i < rx_used h t"
  shows "(t + i) mod 128 \<noteq> h"
  using assms by (auto simp: rx_used_def mod_128 split: if_splits)

lemma map_upt_Suc: "map f [0..<Suc n] = f 0 # map (\<lambda>i. f (Suc i)) [0..<n]"
  by (induction n) simp_all

text \<open>
  The ring between the interrupt and the shell is a queue of at most 127 characters: a character that arrives goes to its end, or is
  dropped when it is full, and the task takes the oldest one.
\<close>

theorem shell_ring_fifo:
  assumes "wf_ring r"
  shows "wf_ring (fst (USART1_IRQHandler sr sr2 c r))
    \<and> rx_chars (fst (USART1_IRQHandler sr sr2 c r))
       = (if snd (USART1_IRQHandler sr sr2 c r) \<and> length (rx_chars r) < 127 then rx_chars r @ [c] else rx_chars r)
    \<and> (case rx_chars r of [] \<Rightarrow> sh_getchar r = None | x # xs \<Rightarrow> \<exists>r'. sh_getchar r = Some (x, r') \<and> wf_ring r' \<and> rx_chars r' = xs)"
proof -
  let ?h = "unat (sh_head r)" and ?t = "unat (sh_tail r)"
  have w: "length (sh_ring r) = 128" "?h < 128" "?t < 128" using assms by (simp_all add: wf_ring_def)
  note u = rx_used_step [OF w(2,3)]
  have len: "length (rx_chars r) = rx_used ?h ?t" by (simp add: rx_chars_def)
  define nxt :: u8 where "nxt = of_nat ((?h + 1) mod 128)"
  have nxt: "nxt \<noteq> sh_tail r \<longleftrightarrow> rx_used ?h ?t < 127" using u(2) by (simp add: nxt_def word_unat_eq_iff)
  define r1 where "r1 = r\<lparr>sh_ring := (sh_ring r)[?h := c], sh_head := nxt\<rparr>"
  have w1: "wf_ring r1" using w by (simp add: wf_ring_def r1_def nxt_def)
  have c1: "rx_chars r1 = rx_chars r @ [c]" if "rx_used ?h ?t < 127"
  proof -
    have "rx_used (unat nxt) ?t = Suc (rx_used ?h ?t)" using u(3) [OF that] by (simp add: nxt_def)
    moreover have "\<forall>i\<in>{0..<rx_used ?h ?t}. (sh_ring r)[?h := c] ! ((?t + i) mod 128) = sh_ring r ! ((?t + i) mod 128)"
      using rx_slots [OF w(2,3)] by (metis atLeastLessThan_iff nth_list_update_neq)
    ultimately show ?thesis using u(1) w by (simp add: rx_chars_def r1_def)
  qed
  have irq: "fst (USART1_IRQHandler sr sr2 c r) = (if snd (USART1_IRQHandler sr sr2 c r) \<and> length (rx_chars r) < 127 then r1 else r)"
    using nxt by (auto simp: USART1_IRQHandler_def Let_def hub_defs r1_def nxt_def len)
  have get: "case rx_chars r of [] \<Rightarrow> sh_getchar r = None | x # xs \<Rightarrow> \<exists>r'. sh_getchar r = Some (x, r') \<and> wf_ring r' \<and> rx_chars r' = xs"
  proof (cases "sh_tail r = sh_head r")
    case True
    then show ?thesis by (simp add: rx_chars_def rx_used_def sh_getchar_def)
  next
    case False
    then have ne: "?t \<noteq> ?h" by (simp add: word_unat_eq_iff)
    define r2 where "r2 = r\<lparr>sh_tail := of_nat ((?t + 1) mod 128)\<rparr>"
    have slot: "((?t + 1) mod 128 + i) mod 128 = (?t + Suc i) mod 128" for i
      by (simp only: mod_add_left_eq) simp
    have "rx_used ?h ?t = Suc (rx_used ?h ((?t + 1) mod 128))" using u(4) [OF ne] by simp
    then have "rx_chars r = sh_ring r ! (?t mod 128) # map (\<lambda>i. sh_ring r ! ((?t + Suc i) mod 128)) [0..<rx_used ?h ((?t + 1) mod 128)]"
      by (simp only: rx_chars_def map_upt_Suc add_0_right)
    moreover have "rx_chars r2 = map (\<lambda>i. sh_ring r ! (((?t + 1) mod 128 + i) mod 128)) [0..<rx_used ?h ((?t + 1) mod 128)]"
      by (simp add: rx_chars_def r2_def)
    ultimately have "rx_chars r = sh_ring r ! ?t # rx_chars r2" using w(3) by (simp only: slot mod_less)
    moreover have "sh_getchar r = Some (sh_ring r ! ?t, r2)" using False by (simp add: sh_getchar_def r2_def hub_defs)
    moreover have "wf_ring r2" using w by (simp add: wf_ring_def r2_def)
    ultimately show ?thesis by simp
  qed
  show ?thesis using irq w1 c1 assms len get by (auto split: if_splits)
qed

section \<open>Examples\<close>

theorem shell_ring_fifo_witness:
  "rx_chars (fst (USART1_IRQHandler 0x20 0 65 \<lparr>sh_ring = replicate 128 0, sh_head = 127, sh_tail = 127\<rparr>)) = [65]"
proof -
  have "wf_ring \<lparr>sh_ring = replicate 128 0, sh_head = 127, sh_tail = 127\<rparr>" by (simp add: wf_ring_def)
  from shell_ring_fifo [OF this, of "0x20" 0 65] show ?thesis
    by (simp add: USART1_IRQHandler_def sr_error_def Let_def hub_defs rx_chars_def rx_used_def)
qed

theorem shell_history_last_eight_witness:
  "hist_lines (hist_store ''io'' \<lparr>sh_hist = replicate 8 [], sh_hist_len = 0, sh_hist_newest = 0\<rparr>) = [''io'']"
proof -
  have "wf_hist \<lparr>sh_hist = replicate 8 [], sh_hist_len = 0, sh_hist_newest = 0\<rparr>" by (simp add: wf_hist_def hub_defs)
  from shell_history_last_eight [OF this, of "''io''"] show ?thesis by (simp add: hist_lines_def hub_defs)
qed

definition demo_env :: sh_env where
  "demo_env = \<lparr>se_version = ''1.0.0'', se_build = [], se_mac = replicate 6 0, se_link = True, se_ticks = 0, se_tasks = None\<rparr>"

theorem shell_executes_edited_line_witness:
  "\<exists>s'. sh_keys demo_env sim_board (concat (map edit_keys [Insert (CHR ''p''), Insert (CHR ''x''), Rubout, Insert (CHR ''s'')]) @ [CHR 0x0D]) (sh_start sim_dev)
      = Ret True s' \<and> sh_dev s' = sim_dev"
proof -
  let ?es = "[Insert (CHR ''p''), Insert (CHR ''x''), Rubout, Insert (CHR ''s'')]"
  have f: "fold edit_step ?es ([], []) = (''ps'', [])" by (simp add: hub_defs)
  have ok: "\<forall>e\<in>set ?es. edit_ok e" by (simp add: printable_def)
  have "sh_split ''ps'' SH_ARG_MAX = [''ps'']" by (simp add: sh_split.simps blank_def hub_defs Let_def)
  then have "sh_dispatch demo_env sim_board (''ps'' @ []) sim_dev = Ret (cmd_tasks demo_env) sim_dev" by (simp add: sh_dispatch_def)
  with shell_executes_edited_line [OF ok f, of demo_env sim_board sim_dev] show ?thesis by (simp only: outcome.case) blast
qed

theorem shell_keys_stay_inside_witness:
  "wf_sh (outcome_state (sh_key demo_env sim_board (CHR 0x09) (sh_start sim_dev)))"
proof -
  have "length (sh_line (sh_start sim_dev)) + 1 < SH_LINE_MAX" by (simp add: sh_start_def hub_defs)
  from shell_keys_stay_inside [OF wf_sh_start this] show ?thesis by (rule conjunct1)
qed

theorem shell_setting_as_web_witness:
  "outcome_state (io_can sim_board [''can'', ''bps'', ''500''] sim_dev)
    = outcome_state (cfg_num sim_board (qq ''{`can_bps`:500}'') ''can_bps'' can_bps_ok ''invalid can baud'' HOLDING_CAN_BAUDRATE_IDX sim_dev)"
proof (rule shell_setting_as_web [where v = 500])
  show "wf_dev sim_dev" by simp
  show "parse_ul ''500'' = Some 500"
    by (simp add: parse_ul_def strtoul_0_def scan_sign_def isspace_def scan_digits_def digit_val_def Let_def)
  show "json_get_i32 (qq ''{`can_bps`:500}'') ''can_bps'' = Some (uint (500 :: u32))" by code_simp
qed

end
