(* ===== verification/Sampling.thy ===== *)
theory Sampling
  imports Regmap "HOL-Library.Signed_Division"
begin

unbundle bit_operations_syntax

text \<open>
  The two sampling tasks: the digital inputs of \<open>src/io/dio.c\<close> (\<open>di_task\<close>) and the analog inputs of \<open>src/io/adc.c\<close>. A turn of a task
  reads its inputs into the input registers, queues a history record, and gives the time to its next turn. The ADC driver is a
  parameter (record \<open>adc_ops\<close>).
\<close>

definition SAMPLE_INTERVAL_MAX :: u32 where [hub_defs]: "SAMPLE_INTERVAL_MAX = 5000"

definition sample_interval :: "u16 \<Rightarrow> u32" where
  "sample_interval reg =
     (let si = ucast reg in if si < 10 then 10 else if si > SAMPLE_INTERVAL_MAX then SAMPLE_INTERVAL_MAX else si)"

definition dev_send_history :: "'w board \<Rightarrow> his_data \<Rightarrow> 'w dev \<Rightarrow> 'w dev" where
  "dev_send_history B d s =
     (case send_history_data (hqueue B) d (hist s) (world s) of (_, h, w) \<Rightarrow> s\<lparr>hist := h, world := w\<rparr>)"

section \<open>Digital inputs\<close>

definition di_value :: "'w gpio_ops \<Rightarrow> u16 \<Rightarrow> 'w \<Rightarrow> u16" where
  "di_value G en w =
     fold (\<lambda>i val. if en AND push_bit i 1 \<noteq> 0 \<and> HAL_GPIO_ReadPin G (di_pins ! i) w then val OR push_bit i 1 else val) [0..<DI_NUM] 0"

definition di_turn :: "'w board \<Rightarrow> 'w dev \<Rightarrow> u32 \<times> 'w dev" where
  "di_turn B s =
     (let si = sample_interval (get_holding_reg (of_nat HOLDING_DI_SAMPLE_MS_IDX) s);
          en = get_holding_reg (of_nat HOLDING_DI_ENABLE_IDX) s;
          val = di_value (gpio B) en (world s);
          s = snd (update_input_reg (of_nat INPUT_DI_IDX) val s)
      in (si, if en \<noteq> 0 then dev_send_history B (di_record (io_now_epoch (clock s)) en val) s else s))"

section \<open>Analog inputs\<close>

definition ai_coeff :: "u32 list" where
  "ai_coeff = [7414, 7414, 3704, 3704]"

definition ai_convert :: "nat \<Rightarrow> u32 \<Rightarrow> u16" where
  "ai_convert ch raw =
     (let voltage_mv = (word_of_int (sint (raw * 3300) sdiv 4096) :: u32);
          val = (ucast ((ucast (ai_coeff ! ch) * ucast voltage_mv :: u64) div 10000) :: u32)
      in ucast val)"

record 'w adc_ops =
  HAL_ADC_ConfigChannel :: "nat \<Rightarrow> 'w \<Rightarrow> bool \<times> 'w"
  HAL_ADC_Start :: "'w \<Rightarrow> bool \<times> 'w"
  HAL_ADC_PollForConversion :: "'w \<Rightarrow> bool \<times> 'w"
  HAL_ADC_GetValue :: "'w \<Rightarrow> u32 \<times> 'w"
  HAL_ADC_Stop :: "'w \<Rightarrow> 'w"

definition adc_chans :: "nat list" where
  "adc_chans = [10, 11, 12, 13]"

text \<open>One conversion: the value, \<open>None\<close> when a call of the driver fails.\<close>

definition adc_read :: "'w adc_ops \<Rightarrow> nat \<Rightarrow> 'w \<Rightarrow> u32 option \<times> 'w" where
  "adc_read A i w =
     (case HAL_ADC_ConfigChannel A (adc_chans ! i) w of
        (False, w) \<Rightarrow> (None, w)
      | (True, w) \<Rightarrow>
          (case HAL_ADC_Start A w of
             (False, w) \<Rightarrow> (None, w)
           | (True, w) \<Rightarrow>
               (case HAL_ADC_PollForConversion A w of
                  (False, w) \<Rightarrow> (None, HAL_ADC_Stop A w)
                | (True, w) \<Rightarrow> (case HAL_ADC_GetValue A w of (v, w) \<Rightarrow> (Some v, HAL_ADC_Stop A w)))))"

definition adc_channel :: "'w adc_ops \<Rightarrow> u16 \<Rightarrow> nat \<Rightarrow> 'w dev \<Rightarrow> 'w dev" where
  "adc_channel A en i s =
     (if en AND push_bit i 1 = 0 then s
      else case adc_read A i (world s) of
        (None, w) \<Rightarrow> s\<lparr>world := w\<rparr>
      | (Some raw, w) \<Rightarrow> snd (update_input_reg (of_nat (INPUT_AI0_IDX + i)) (ai_convert i raw) (s\<lparr>world := w\<rparr>)))"

definition adc_turn :: "'w board \<Rightarrow> 'w adc_ops \<Rightarrow> 'w dev \<Rightarrow> u32 \<times> 'w dev" where
  "adc_turn B A s =
     (let si = sample_interval (get_holding_reg (of_nat HOLDING_AI_SAMPLE_MS_IDX) s);
          en = get_holding_reg (of_nat HOLDING_AI_ENABLE_IDX) s;
          s = fold (adc_channel A en) [0..<AI_NUM] s
      in (si, if en AND 0x000F \<noteq> 0
              then dev_send_history B (ai_record (io_now_epoch (clock s)) (en AND 0x000F)
                     (map (\<lambda>i. get_input_reg (of_nat (INPUT_AI0_IDX + i)) s) [0..<AI_NUM])) s
              else s))"

section \<open>What a turn does\<close>

lemma sample_interval_bounds: "10 \<le> sample_interval reg" "sample_interval reg \<le> 5000"
  by (auto simp: sample_interval_def Let_def hub_defs)

lemma bit_di_fold:
  fixes en :: u16
  assumes "n \<le> 16"
  shows "bit (fold (\<lambda>i val. if en AND push_bit i 1 \<noteq> 0 \<and> P i then val OR push_bit i 1 else val) [0..<n] (0 :: u16)) k
    \<longleftrightarrow> k < n \<and> bit en k \<and> P k"
  using assms
proof (induction n)
  case (Suc n)
  then have "bit (push_bit n 1 :: u16) k \<longleftrightarrow> k = n" by (auto simp: bit_exp_iff possible_bit_def)
  then show ?case using Suc and_push_1 [of en n] by (auto simp: bit_or_iff less_Suc_eq)
qed simp

lemma send_history_frame [simp]:
  "holding_reg (dev_send_history B d s) = holding_reg s" "input_reg (dev_send_history B d s) = input_reg s" "clock (dev_send_history B d s) = clock s"
  "store (dev_send_history B d s) = store s" "reboot_pending (dev_send_history B d s) = reboot_pending s"
  by (simp_all add: dev_send_history_def split: prod.split)

text \<open>
  A turn of the input task: the input register shows the level of every enabled pin and zero for the others, no other register
  changes, a record with the same value goes to the history when any input is enabled, and the next turn comes after 10 to 5000 ms.
\<close>

theorem di_turn_shows_pins:
  assumes "wf_dev s" "di_turn B s = (si, s')"
  shows "(\<forall>i<DI_NUM. bit (input_reg s' ! INPUT_DI_IDX) i \<longleftrightarrow> bit (holding_reg s ! HOLDING_DI_ENABLE_IDX) i \<and> HAL_GPIO_ReadPin (gpio B) (di_pins ! i) (world s))
    \<and> (\<forall>j. j \<noteq> INPUT_DI_IDX \<longrightarrow> input_reg s' ! j = input_reg s ! j) \<and> holding_reg s' = holding_reg s
    \<and> hist s' = (if holding_reg s ! HOLDING_DI_ENABLE_IDX = 0 then hist s
        else fst (snd (send_history_data (hqueue B) (di_record (io_now_epoch (clock s)) (holding_reg s ! HOLDING_DI_ENABLE_IDX) (input_reg s' ! INPUT_DI_IDX))
          (hist s) (world s))))
    \<and> 10 \<le> si \<and> si \<le> 5000"
proof -
  define val where "val = di_value (gpio B) (holding_reg s ! HOLDING_DI_ENABLE_IDX) (world s)"
  have l: "length (holding_reg s) = 18" "length (input_reg s) = 6" using assms(1) by (simp_all add: wf_dev_def hub_defs)
  have en: "get_holding_reg (of_nat HOLDING_DI_ENABLE_IDX) s = holding_reg s ! HOLDING_DI_ENABLE_IDX" using l by (simp add: get_holding_reg_def hub_defs)
  have up: "update_input_reg (of_nat INPUT_DI_IDX) val s = (0, s\<lparr>input_reg := (input_reg s)[INPUT_DI_IDX := val]\<rparr>)"
    using l by (simp add: update_input_reg_def hub_defs)
  have s': "s' = (if holding_reg s ! HOLDING_DI_ENABLE_IDX \<noteq> 0
      then dev_send_history B (di_record (io_now_epoch (clock s)) (holding_reg s ! HOLDING_DI_ENABLE_IDX) val) (s\<lparr>input_reg := (input_reg s)[INPUT_DI_IDX := val]\<rparr>)
      else s\<lparr>input_reg := (input_reg s)[INPUT_DI_IDX := val]\<rparr>)"
    and si: "si = sample_interval (get_holding_reg (of_nat HOLDING_DI_SAMPLE_MS_IDX) s)"
    using assms(2) unfolding di_turn_def Let_def en val_def [symmetric] up by auto
  have v: "input_reg s' ! INPUT_DI_IDX = val" "\<forall>j. j \<noteq> INPUT_DI_IDX \<longrightarrow> input_reg s' ! j = input_reg s ! j" "holding_reg s' = holding_reg s"
    unfolding s' using l by (simp_all add: hub_defs)
  have b: "bit val i \<longleftrightarrow> i < DI_NUM \<and> bit (holding_reg s ! HOLDING_DI_ENABLE_IDX) i \<and> HAL_GPIO_ReadPin (gpio B) (di_pins ! i) (world s)" for i
    using bit_di_fold [of 16] by (simp add: val_def di_value_def hub_defs)
  have "hist s' = (if holding_reg s ! HOLDING_DI_ENABLE_IDX = 0 then hist s
      else fst (snd (send_history_data (hqueue B) (di_record (io_now_epoch (clock s)) (holding_reg s ! HOLDING_DI_ENABLE_IDX) val) (hist s) (world s))))"
    by (simp add: s' dev_send_history_def split: prod.split)
  then show ?thesis using v b sample_interval_bounds si by auto
qed

section \<open>Conversion\<close>

lemma unat_ucast_u32_64 [simp]: "unat (ucast (a :: u32) :: u64) = unat a"
  using unat_u32_lt [of a] by (simp add: unsigned_ucast_eq take_bit_nat_eq_self del: unat_u32_lt)

lemma ai_convert_nat:
  assumes "ch < AI_NUM" "raw < 4096"
  shows "unat (ai_convert ch raw) = unat (ai_coeff ! ch) * (unat raw * 3300 div 4096) div 10000"
proof -
  let ?r = "unat raw"
  have r: "?r < 4096" using assms(2) by (simp add: word_less_nat_alt)
  have p: "unat (raw * 3300) = ?r * 3300" using r by (simp add: unat_word_ariths)
  then have "uint (raw * 3300) = int (?r * 3300)" by (simp only: uint_nat)
  moreover have "int (?r * 3300) < 2147483648" using r by linarith
  ultimately have "uint (raw * 3300) < 2147483648" by (simp only:)
  moreover have "- 2147483648 \<le> uint (raw * 3300)" by (rule order_trans [OF _ uint_ge_0]) simp
  ultimately have "signed_take_bit 31 (uint (raw * 3300)) = uint (raw * 3300)" by (intro signed_take_bit_int_eq_self) simp_all
  then have "sint (raw * 3300) = uint (raw * 3300)" by (simp add: sint_uint)
  then have s: "sint (raw * 3300) = int (?r * 3300)" using \<open>uint (raw * 3300) = int (?r * 3300)\<close> by (simp only:)
  define v :: u32 where "v = word_of_int (sint (raw * 3300) sdiv 4096)"
  have m: "?r * 3300 div 4096 < 3300" using r by (simp add: div_less_iff_less_mult)
  have "sint (raw * 3300) sdiv 4096 = int (?r * 3300 div 4096)" unfolding s
    by (cases "?r * 3300 = 0") (simp_all add: signed_divide_int_def sgn_if zdiv_int)
  then have "v = of_nat (?r * 3300 div 4096)" unfolding v_def by (simp only: of_int_of_nat_eq)
  then have v: "unat v = ?r * 3300 div 4096" using m by (simp only: unat_of_nat) simp
  have "ch = 0 \<or> ch = 1 \<or> ch = 2 \<or> ch = 3" using assms(1) by (auto simp: hub_defs)
  then have c: "unat (ai_coeff ! ch) \<le> 7414" by (auto simp: ai_coeff_def)
  have "unat (ai_coeff ! ch) * unat v \<le> 7414 * 3300" using c m v by (intro mult_mono) auto
  then have "unat (ucast (ai_coeff ! ch) * ucast v :: u64) = unat (ai_coeff ! ch) * unat v"
    by (simp add: unat_word_ariths)
  moreover have "unat (ai_coeff ! ch) * unat v div 10000 < 65536"
    using \<open>unat (ai_coeff ! ch) * unat v \<le> 7414 * 3300\<close> by (simp add: div_less_iff_less_mult)
  moreover define x :: u64 where "x = ucast (ai_coeff ! ch) * ucast v div 10000"
  ultimately have x: "unat x = unat (ai_coeff ! ch) * unat v div 10000" "unat x < 65536" by (simp_all add: unat_div)
  then have x32: "unat (ucast x :: u32) = unat x" by (simp add: unsigned_ucast_eq take_bit_nat_eq_self)
  have "unat (ucast y :: u16) = unat y" if "unat y < 65536" for y :: u32
    using that by (simp add: unsigned_ucast_eq take_bit_nat_eq_self)
  from this [of "ucast x"] have "unat (ucast (ucast x :: u32) :: u16) = unat (ucast x :: u32)" using x(2) x32 by (simp only:)
  then show ?thesis using x32 x(1) v unfolding ai_convert_def Let_def v_def [symmetric] x_def [symmetric] by (simp only:)
qed

text \<open>
  The conversion is accurate: for every 12-bit reading the value of a channel fits its register and lies less than two units below the exact
  product of reading, reference voltage and coefficient, never above it.
\<close>

theorem ai_convert_accurate:
  assumes "ch < AI_NUM" "raw < 4096"
  shows "unat (ai_convert ch raw) * (4096 * 10000) \<le> unat (ai_coeff ! ch) * 3300 * unat raw
    \<and> unat (ai_coeff ! ch) * 3300 * unat raw < (unat (ai_convert ch raw) + 2) * (4096 * 10000) \<and> unat (ai_convert ch raw) < 2446"
proof -
  have "ch = 0 \<or> ch = 1 \<or> ch = 2 \<or> ch = 3" using assms(1) by (auto simp: hub_defs)
  then have c: "unat (ai_coeff ! ch) = 7414 \<or> unat (ai_coeff ! ch) = 3704" by (auto simp: ai_coeff_def)
  have r: "unat raw < 4096" using assms(2) by (simp add: word_less_nat_alt)
  define m where "m = unat raw * 3300 div 4096"
  have m: "m * 4096 \<le> unat raw * 3300" "unat raw * 3300 < (m + 1) * 4096" "m \<le> 3299"
    using r by (auto simp: m_def less_Suc_eq_le [symmetric] div_less_iff_less_mult dividend_less_div_times)
  define v where "v = unat (ai_coeff ! ch) * m div 10000"
  have v: "v * 10000 \<le> unat (ai_coeff ! ch) * m" "unat (ai_coeff ! ch) * m < (v + 1) * 10000"
    by (auto simp: v_def dividend_less_div_times)
  have "v * (4096 * 10000) \<le> unat (ai_coeff ! ch) * 3300 * unat raw \<and> unat (ai_coeff ! ch) * 3300 * unat raw < (v + 2) * (4096 * 10000) \<and> v < 2446"
    using c
  proof
    assume k: "unat (ai_coeff ! ch) = 7414"
    have "v * (4096 * 10000) \<le> 7414 * 3300 * unat raw" using v(1) m(1) unfolding k by linarith
    moreover have "7414 * 3300 * unat raw < (v + 2) * (4096 * 10000)" using v(2) m(2) unfolding k by simp
    moreover have "v < 2446" using v(1) m(3) unfolding k by linarith
    ultimately show ?thesis unfolding k by blast
  next
    assume k: "unat (ai_coeff ! ch) = 3704"
    have "v * (4096 * 10000) \<le> 3704 * 3300 * unat raw" using v(1) m(1) unfolding k by linarith
    moreover have "3704 * 3300 * unat raw < (v + 2) * (4096 * 10000)" using v(2) m(2) unfolding k by simp
    moreover have "v < 2446" using v(1) m(3) unfolding k by linarith
    ultimately show ?thesis unfolding k by blast
  qed
  then show ?thesis using ai_convert_nat [OF assms] by (simp add: v_def m_def)
qed

section \<open>A turn of the analog task\<close>

text \<open>What the conversions of a turn give, channel after channel: \<open>None\<close> for a channel that is disabled or whose conversion fails.\<close>

fun adc_reads :: "'w adc_ops \<Rightarrow> u16 \<Rightarrow> nat list \<Rightarrow> 'w \<Rightarrow> u32 option list" where
  "adc_reads A en [] w = []"
| "adc_reads A en (i # js) w =
     (if bit en i then case adc_read A i w of (v, w) \<Rightarrow> v # adc_reads A en js w else None # adc_reads A en js w)"

definition ai_after :: "u32 option \<Rightarrow> nat \<Rightarrow> u16 \<Rightarrow> u16" where
  "ai_after v i old = (case v of None \<Rightarrow> old | Some raw \<Rightarrow> ai_convert i raw)"

lemma adc_fold:
  assumes "length (input_reg s) = 6" "n + k \<le> 4"
  shows "let s' = fold (adc_channel A en) [k..<k + n] s; vs = adc_reads A en [k..<k + n] (world s)
    in length (input_reg s') = 6 \<and> holding_reg s' = holding_reg s \<and> clock s' = clock s
      \<and> (\<forall>i<n. input_reg s' ! (1 + k + i) = ai_after (vs ! i) (k + i) (input_reg s ! (1 + k + i)))
      \<and> (\<forall>j. \<not> (1 + k \<le> j \<and> j < 1 + k + n) \<longrightarrow> input_reg s' ! j = input_reg s ! j)"
  using assms
proof (induction n arbitrary: k s)
  case (Suc n)
  have k: "k < 4" using Suc.prems by simp
  have up: "[k..<k + Suc n] = k # [Suc k..<Suc k + n]" by (simp add: upt_rec)
  have bitk: "en AND push_bit k 1 = 0 \<longleftrightarrow> \<not> bit en k" using and_push_1 [of en k] by blast
  obtain v w where vw: "adc_read A k (world s) = (v, w)" by fastforce
  define s1 where "s1 = adc_channel A en k s"
  have u: "unat (of_nat (Suc k) :: u16) = Suc k" using k by (simp add: unat_of_nat del: of_nat_Suc)
  have s1: "length (input_reg s1) = 6" "holding_reg s1 = holding_reg s" "clock s1 = clock s"
    "world s1 = (if bit en k then w else world s)"
    "input_reg s1 ! Suc k = ai_after (if bit en k then v else None) k (input_reg s ! Suc k)" "\<forall>j. j \<noteq> Suc k \<longrightarrow> input_reg s1 ! j = input_reg s ! j"
    using Suc.prems(1) k u bitk vw by (auto simp: s1_def adc_channel_def update_input_reg_def ai_after_def hub_defs split: option.split)
  have vs: "adc_reads A en [k..<k + Suc n] (world s) = (if bit en k then v else None) # adc_reads A en [Suc k..<Suc k + n] (world s1)"
    unfolding up by (simp add: vw s1(4))
  have "n + Suc k \<le> 4" using Suc.prems(2) by simp
  note ih = Suc.IH [OF s1(1) this, unfolded Let_def]
  show ?case unfolding up vs [unfolded up] fold_Cons s1_def [symmetric] o_apply Let_def
  proof (intro conjI allI impI)
    fix i assume i: "i < Suc n"
    show "input_reg (fold (adc_channel A en) [Suc k..<Suc k + n] s1) ! (1 + k + i)
        = ai_after (((if bit en k then v else None) # adc_reads A en [Suc k..<Suc k + n] (world s1)) ! i) (k + i) (input_reg s ! (1 + k + i))"
    proof (cases i)
      case 0
      then show ?thesis using ih s1(5) by simp
    next
      case (Suc j)
      then have "input_reg (fold (adc_channel A en) [Suc k..<Suc k + n] s1) ! (1 + Suc k + j)
          = ai_after (adc_reads A en [Suc k..<Suc k + n] (world s1) ! j) (Suc k + j) (input_reg s1 ! (1 + Suc k + j))" using ih i by blast
      then show ?thesis using Suc s1(6) by simp
    qed
  next
    fix j assume j: "\<not> (1 + k \<le> j \<and> j < 1 + k + Suc n)"
    then have "j \<noteq> Suc k" "\<not> (1 + Suc k \<le> j \<and> j < 1 + Suc k + n)" by auto
    then show "input_reg (fold (adc_channel A en) [Suc k..<Suc k + n] s1) ! j = input_reg s ! j" using ih s1(6) by presburger
  qed (use ih s1 in simp_all)
qed simp

text \<open>
  (C14) A turn of the analog task: each enabled channel that converted shows its converted reading, every other register keeps its value, and the next
  turn comes after 10 to 5000 ms.
\<close>

theorem adc_turn_shows_readings:
  assumes "wf_dev s" "adc_turn B A s = (si, s')"
  shows "(\<forall>i<AI_NUM. input_reg s' ! (INPUT_AI0_IDX + i)
        = ai_after (adc_reads A (holding_reg s ! HOLDING_AI_ENABLE_IDX) [0..<AI_NUM] (world s) ! i) i (input_reg s ! (INPUT_AI0_IDX + i)))
    \<and> input_reg s' ! INPUT_VER_IDX = input_reg s ! INPUT_VER_IDX \<and> input_reg s' ! INPUT_DI_IDX = input_reg s ! INPUT_DI_IDX
    \<and> holding_reg s' = holding_reg s \<and> 10 \<le> si \<and> si \<le> 5000"
proof -
  have l: "length (holding_reg s) = 18" "length (input_reg s) = 6" using assms(1) by (simp_all add: wf_dev_def hub_defs)
  define en where "en = holding_reg s ! HOLDING_AI_ENABLE_IDX"
  have en: "get_holding_reg (of_nat HOLDING_AI_ENABLE_IDX) s = en" using l by (simp add: get_holding_reg_def en_def hub_defs)
  define s1 where "s1 = fold (adc_channel A en) [0..<4] s"
  have f: "holding_reg s1 = holding_reg s" "\<forall>i<4. input_reg s1 ! (1 + i) = ai_after (adc_reads A en [0..<4] (world s) ! i) i (input_reg s ! (1 + i))"
    "\<forall>j. \<not> (1 \<le> j \<and> j < 5) \<longrightarrow> input_reg s1 ! j = input_reg s ! j"
    using adc_fold [OF l(2), of 4 0 A en] by (simp_all add: s1_def Let_def)
  have r: "input_reg s' = input_reg s1" "holding_reg s' = holding_reg s1" and si: "si = sample_interval (get_holding_reg (of_nat HOLDING_AI_SAMPLE_MS_IDX) s)"
    using assms(2) en by (auto simp: adc_turn_def Let_def hub_defs s1_def split: if_splits)
  show ?thesis using f r si sample_interval_bounds by (simp add: hub_defs en_def)
qed

section \<open>Examples\<close>

theorem ai_convert_accurate_witness: "unat (ai_convert 0 2048) * (4096 * 10000) \<le> unat (ai_coeff ! 0) * 3300 * 2048"
  using ai_convert_accurate [of 0 2048] by (simp add: hub_defs)

definition demo_adc :: "sim adc_ops" where
  "demo_adc = \<lparr>HAL_ADC_ConfigChannel = (\<lambda>c w. (c \<noteq> 12, w)), HAL_ADC_Start = (\<lambda>w. (True, w)), HAL_ADC_PollForConversion = (\<lambda>w. (True, w)),
     HAL_ADC_GetValue = (\<lambda>w. (2048, w)), HAL_ADC_Stop = (\<lambda>w. w)\<rparr>"

theorem adc_turn_shows_readings_witness:
  "input_reg (snd (adc_turn sim_board demo_adc sim_dev)) ! 1 = ai_convert 0 2048 \<and> input_reg (snd (adc_turn sim_board demo_adc sim_dev)) ! 3 = 0"
proof -
  obtain si s' where t: "adc_turn sim_board demo_adc sim_dev = (si, s')" by fastforce
  have en: "holding_reg sim_dev ! HOLDING_AI_ENABLE_IDX = 15" by (simp add: sim_dev_def holding_reg_init_def hub_defs)
  have b: "bit (15 :: u16) 0" "bit (15 :: u16) (Suc 0)" "bit (15 :: u16) 2" "bit (15 :: u16) 3" by simp_all
  have "adc_reads demo_adc 15 [0, 1, 2, 3] (world sim_dev) = [Some 2048, Some 2048, None, Some 2048]"
    using b by (simp add: adc_read_def demo_adc_def adc_chans_def)
  moreover have "[0..<AI_NUM] = [0, 1, 2, 3]" by (simp add: hub_defs upt_rec)
  ultimately have "\<forall>i<4. input_reg s' ! (1 + i) = ai_after ([Some 2048, Some 2048, None, Some 2048] ! i) i (input_reg sim_dev ! (1 + i))"
    using adc_turn_shows_readings [OF sim_dev_wf t] en by (simp add: hub_defs)
  then have "input_reg s' ! (1 + 0) = ai_after (Some 2048) 0 (input_reg sim_dev ! 1)" "input_reg s' ! (1 + 2) = ai_after None 2 (input_reg sim_dev ! 3)"
    by (metis (no_types) nth_Cons_0 zero_less_numeral add_0_right, simp add: numeral_2_eq_2 numeral_3_eq_3)
  moreover have "input_reg sim_dev ! 3 = 0" by (simp add: sim_dev_def input_reg_init_def)
  ultimately show ?thesis by (simp add: t ai_after_def numeral_3_eq_3)
qed

theorem di_turn_shows_pins_witness:
  "\<forall>i<16. \<not> bit (input_reg (snd (di_turn sim_board sim_dev)) ! 5) i"
proof -
  obtain si s' where t: "di_turn sim_board sim_dev = (si, s')" by fastforce
  have "\<not> HAL_GPIO_ReadPin (gpio sim_board) p (world sim_dev)" for p by (simp add: sim_gpio_def sim_dev_def sim_world_def)
  with di_turn_shows_pins [OF sim_dev_wf t] show ?thesis by (simp add: t hub_defs)
qed

end
