(* ===== verification/Fw_Can.thy ===== *)
theory Fw_Can
  imports Fw_Upg
begin

unbundle bit_operations_syntax

text \<open>
  \<open>src/fw/fw_can.c\<close>: the CAN upgrade channel. The receive interrupt queues frames (\<open>fw_can_frame_isr\<close>), the
  task handles one at a time. Frames sent with \<open>mod_can_send\<close> are the list a handler returns. MCUboot's
  \<open>boot_set_pending\<close> is the parameter \<open>boot\<close>, the version text of the build is the parameter \<open>ver\<close>, and
  \<open>hist_sync\<close> is the call of \<open>history_sync\<close> before a restart.
\<close>

definition CAN_FW_PLATFORM_RX :: u32 where [hub_defs]: "CAN_FW_PLATFORM_RX = 0x101"
definition CAN_FW_PLATFORM_TX :: u32 where [hub_defs]: "CAN_FW_PLATFORM_TX = 0x102"
definition CAN_FW_FW_DATA_RX :: u32 where [hub_defs]: "CAN_FW_FW_DATA_RX = 0x103"
definition CAN_FW_KEYHASH_RX :: u32 where [hub_defs]: "CAN_FW_KEYHASH_RX = 0x104"
definition CAN_FW_VERSION_TX :: u32 where [hub_defs]: "CAN_FW_VERSION_TX = 0x105"

definition FW_CMD_START_UPDATE :: u32 where [hub_defs]: "FW_CMD_START_UPDATE = 0"
definition FW_CMD_CONFIRM :: u32 where [hub_defs]: "FW_CMD_CONFIRM = 1"
definition FW_CMD_VERSION :: u32 where [hub_defs]: "FW_CMD_VERSION = 2"
definition FW_CMD_REBOOT :: u32 where [hub_defs]: "FW_CMD_REBOOT = 3"

definition FW_CODE_OFFSET :: u32 where [hub_defs]: "FW_CODE_OFFSET = 0"
definition FW_CODE_UPDATE_SUCCESS :: u32 where [hub_defs]: "FW_CODE_UPDATE_SUCCESS = 1"
definition FW_CODE_VERSION :: u32 where [hub_defs]: "FW_CODE_VERSION = 2"
definition FW_CODE_CONFIRM :: u32 where [hub_defs]: "FW_CODE_CONFIRM = 3"
definition FW_CODE_FLASH_ERROR :: u32 where [hub_defs]: "FW_CODE_FLASH_ERROR = 4"
definition FW_CODE_TRANSFER_ERROR :: u32 where [hub_defs]: "FW_CODE_TRANSFER_ERROR = 5"
definition FW_CODE_KEYHASH_ERROR :: u32 where [hub_defs]: "FW_CODE_KEYHASH_ERROR = 6"
definition FW_CODE_CONFIRM_MAGIC :: u32 where [hub_defs]: "FW_CODE_CONFIRM_MAGIC = 0x55AA55AA"

definition KEYHASH_CHUNK :: u8 where [hub_defs]: "KEYHASH_CHUNK = 7"
definition KEYHASH_CHUNKS :: u8 where [hub_defs]: "KEYHASH_CHUNKS = 5"
definition KEYHASH_FULL_MASK :: u8 where [hub_defs]: "KEYHASH_FULL_MASK = 0x1F"
definition CAN_Q_DEPTH :: nat where [hub_defs]: "CAN_Q_DEPTH = 32"
definition ACK_INTERVAL :: u32 where [hub_defs]: "ACK_INTERVAL = 512"

record can_fw_msg =
  c_id :: u32
  c_dlc :: u8
  c_data :: "u8 list"

record can_fw =
  session :: fw_st
  rx_keybuf :: "u8 list"
  key_chunk_mask :: u8
  can_q :: "can_fw_msg list"

type_synonym can_frame = "u32 \<times> u8 list"

definition fw_reply :: "u32 \<Rightarrow> u32 \<Rightarrow> can_frame" where
  "fw_reply code arg = (CAN_FW_PLATFORM_TX, io_put_le32 code @ io_put_le32 arg)"

text \<open>\<open>ver\<close> is the text itself; the source's buffer of 24 bytes holds it while it has at most 23 characters.\<close>

fun fw_send_version_string :: "u8 list \<Rightarrow> u8 \<Rightarrow> can_frame list" where
  "fw_send_version_string ver seq =
     (if ver = [] then []
      else (CAN_FW_VERSION_TX, seq # take 7 ver @ replicate (7 - length (take 7 ver)) 0) # fw_send_version_string (drop 7 ver) (seq + 1))"

declare fw_send_version_string.simps [simp del]

text \<open>The result of a handler: the frames sent and the new state; \<open>None\<close> if it does not return.\<close>

definition can_start :: "'w io_flash \<Rightarrow> u8 list \<Rightarrow> u32 \<Rightarrow> can_fw \<Rightarrow> 'w \<Rightarrow> can_frame list \<times> can_fw \<times> 'w" where
  "can_start F K arg c w =
     (let c = c\<lparr>session := fw_upg_abort (session c)\<rparr>;
          full = (key_chunk_mask c AND KEYHASH_FULL_MASK = KEYHASH_FULL_MASK);
          kh = (if full then Some (rx_keybuf c) else None);
          c = (if full then c\<lparr>key_chunk_mask := 0\<rparr> else c)
      in case fw_upg_start F K arg kh (session c) w of (rc, st, w) \<Rightarrow>
         let c = c\<lparr>session := st\<rparr> in
         if rc = - 2 then ([fw_reply FW_CODE_KEYHASH_ERROR 0], c, w)
         else if rc \<noteq> 0 then ([fw_reply FW_CODE_FLASH_ERROR 0], c, w)
         else ([fw_reply FW_CODE_OFFSET 0], c\<lparr>can_q := []\<rparr>, w))"

definition can_confirm :: "'w io_flash \<Rightarrow> u8 list \<Rightarrow> (bool \<Rightarrow> 'w \<Rightarrow> bool \<times> 'w) \<Rightarrow> u32 \<Rightarrow> can_fw \<Rightarrow> 'w
    \<Rightarrow> (can_frame list \<times> can_fw \<times> 'w) option" where
  "can_confirm F K boot arg c w =
     (if \<not> fw_upg_active (session c) then Some ([fw_reply FW_CODE_TRANSFER_ERROR 0], c, w)
      else let c = c\<lparr>can_q := []\<rparr> in
        case fw_upg_finish_ex F K 0 False (session c) w of
          None \<Rightarrow> None
        | Some (rc, st, w) \<Rightarrow>
            let c = c\<lparr>session := st\<rparr> in
            if rc \<noteq> 0 then Some ([fw_reply FW_CODE_TRANSFER_ERROR 0], c, w)
            else (case boot (arg \<noteq> 0) w of (ok, w) \<Rightarrow>
              Some ([if ok then fw_reply FW_CODE_CONFIRM FW_CODE_CONFIRM_MAGIC else fw_reply FW_CODE_TRANSFER_ERROR 0], c, w)))"

definition handle_platform_rx :: "'w io_flash \<Rightarrow> u8 list \<Rightarrow> (bool \<Rightarrow> 'w \<Rightarrow> bool \<times> 'w) \<Rightarrow> u8 list \<Rightarrow> ('w \<Rightarrow> 'w) \<Rightarrow> u8 list \<Rightarrow> u8
    \<Rightarrow> can_fw \<Rightarrow> 'w \<Rightarrow> (can_frame list, can_fw \<times> 'w) outcome option" where
  "handle_platform_rx F K boot ver hist_sync dat dlc c w =
     (let cmd = io_get_le32 dat; arg = io_get_le32 (drop 4 dat) in
      if dlc \<noteq> 8 then Some (Ret [fw_reply FW_CODE_FLASH_ERROR 0] (c, w))
      else if cmd = FW_CMD_START_UPDATE then (case can_start F K arg c w of (r, c, w) \<Rightarrow> Some (Ret r (c, w)))
      else if cmd = FW_CMD_CONFIRM then map_option (\<lambda>(r, c, w). Ret r (c, w)) (can_confirm F K boot arg c w)
      else if cmd = FW_CMD_VERSION then
        let len = (if length ver > 63 then 0 else length ver)
        in Some (Ret (fw_reply FW_CODE_VERSION (of_nat len) # fw_send_version_string (take len ver) 0) (c, w))
      else if cmd = FW_CMD_REBOOT then Some (Reset (c, hist_sync w))
      else Some (Ret [] (c, w)))"

definition handle_fw_data :: "'w io_flash \<Rightarrow> u8 list \<Rightarrow> u8 \<Rightarrow> can_fw \<Rightarrow> 'w \<Rightarrow> can_frame list \<times> can_fw \<times> 'w" where
  "handle_fw_data F dat dlc c w =
     (if \<not> fw_upg_active (session c) then ([fw_reply FW_CODE_TRANSFER_ERROR 0], c, w)
      else (case fw_upg_write F (take (unat dlc) dat) (session c) w of (rc, st, w) \<Rightarrow>
        let c = c\<lparr>session := st\<rparr> in
        if rc \<noteq> 0 then ([fw_reply FW_CODE_FLASH_ERROR 0], c, w)
        else let got = fw_upg_received st in
          if got = fw_upg_total st then ([fw_reply FW_CODE_UPDATE_SUCCESS got], c, w)
          else if got mod ACK_INTERVAL = 0 then ([fw_reply FW_CODE_OFFSET got], c, w)
          else ([], c, w)))"

text \<open>\<open>rem\<close> is 8 bit as in the source; \<open>dlc < 1u + chunk\<close> is compared as \<open>unsigned\<close>.\<close>

definition handle_keyhash :: "u8 list \<Rightarrow> u8 \<Rightarrow> can_fw \<Rightarrow> can_fw" where
  "handle_keyhash dat dlc c =
     (let seq = dat ! 0; rem = 32 - seq * KEYHASH_CHUNK; chunk = (if rem < KEYHASH_CHUNK then rem else KEYHASH_CHUNK) in
      if seq \<ge> KEYHASH_CHUNKS \<or> unat dlc < 1 + unat chunk then c
      else let off = unat seq * unat KEYHASH_CHUNK in
        c\<lparr>rx_keybuf := take off (rx_keybuf c) @ take (unat chunk) (drop 1 dat) @ drop (off + unat chunk) (rx_keybuf c),
          key_chunk_mask := key_chunk_mask c OR push_bit (unat seq) 1\<rparr>)"

definition can_task_step :: "'w io_flash \<Rightarrow> u8 list \<Rightarrow> (bool \<Rightarrow> 'w \<Rightarrow> bool \<times> 'w) \<Rightarrow> u8 list \<Rightarrow> ('w \<Rightarrow> 'w) \<Rightarrow> can_fw_msg
    \<Rightarrow> can_fw \<Rightarrow> 'w \<Rightarrow> (can_frame list, can_fw \<times> 'w) outcome option" where
  "can_task_step F K boot ver hist_sync m c w =
     (if c_id m = CAN_FW_PLATFORM_RX then handle_platform_rx F K boot ver hist_sync (c_data m) (c_dlc m) c w
      else if c_id m = CAN_FW_FW_DATA_RX then
        (case handle_fw_data F (c_data m) (c_dlc m) c w of (r, c, w) \<Rightarrow> Some (Ret r (c, w)))
      else if c_id m = CAN_FW_KEYHASH_RX then Some (Ret [] (handle_keyhash (c_data m) (c_dlc m) c, w))
      else Some (Ret [] (c, w)))"

text \<open>The message on the interrupt's stack has eight data bytes of which \<open>dlc\<close> are set; the others are whatever was there.\<close>

definition fw_can_frame_isr :: "u32 \<Rightarrow> u8 list \<Rightarrow> u8 \<Rightarrow> u8 list \<Rightarrow> can_fw \<Rightarrow> can_fw" where
  "fw_can_frame_isr fid dat dlc junk c =
     (if dlc \<le> 8 then
        if length (can_q c) < CAN_Q_DEPTH
        then c\<lparr>can_q := can_q c @ [\<lparr>c_id = fid, c_dlc = dlc, c_data = take (unat dlc) dat @ drop (unat dlc) junk\<rparr>]\<rparr> else c
      else c)"

section \<open>The key hash\<close>

text \<open>The frame that carries piece \<open>i\<close> of a key hash: its number, up to seven bytes, and padding.\<close>

definition key_frame :: "u8 list \<Rightarrow> nat \<Rightarrow> u8 list" where
  "key_frame kh i = (let d = take 7 (drop (7 * i) kh) in of_nat i # d @ replicate (7 - length d) 0)"

lemma handle_keyhash_piece:
  assumes "i < 5" "length kh = 32" "length (rx_keybuf c) = 32"
  shows "length (rx_keybuf (handle_keyhash (key_frame kh i) 8 c)) = 32"
    and "k < 32 \<Longrightarrow> rx_keybuf (handle_keyhash (key_frame kh i) 8 c) ! k = (if k div 7 = i then kh ! k else rx_keybuf c ! k)"
    and "key_chunk_mask (handle_keyhash (key_frame kh i) 8 c) = key_chunk_mask c OR push_bit i 1"
    and "session (handle_keyhash (key_frame kh i) 8 c) = session c" "can_q (handle_keyhash (key_frame kh i) 8 c) = can_q c"
proof -
  let ?chunk = "if i = 4 then 4 else 7 :: nat"
  have i: "i = 0 \<or> i = 1 \<or> i = 2 \<or> i = 3 \<or> i = 4" using assms(1) by linarith
  have u: "unat (of_nat i :: u8) = i" using assms(1) by (simp add: unat_of_nat)
  have hk: "handle_keyhash (key_frame kh i) 8 c =
      c\<lparr>rx_keybuf := take (i * 7) (rx_keybuf c) @ take ?chunk (drop 1 (key_frame kh i)) @ drop (i * 7 + ?chunk) (rx_keybuf c),
        key_chunk_mask := key_chunk_mask c OR push_bit i 1\<rparr>"
    using i by (elim disjE) (simp_all add: handle_keyhash_def key_frame_def Let_def KEYHASH_CHUNK_def KEYHASH_CHUNKS_def word_le_nat_alt)
  have piece: "take ?chunk (drop 1 (key_frame kh i)) = take ?chunk (drop (7 * i) kh)"
    using i assms(2) by (elim disjE) (simp_all add: key_frame_def Let_def)
  have div: "k div 7 = i \<longleftrightarrow> 7 * i \<le> k \<and> k < 7 * i + ?chunk" if "k < 32" using that i by (elim disjE) (auto simp: div_nat_eqI)
  show "length (rx_keybuf (handle_keyhash (key_frame kh i) 8 c)) = 32"
    unfolding hk piece using i assms(2,3) by (elim disjE) simp_all
  show "rx_keybuf (handle_keyhash (key_frame kh i) 8 c) ! k = (if k div 7 = i then kh ! k else rx_keybuf c ! k)" if "k < 32"
    unfolding hk piece div [OF that] using i assms(2,3) that by (elim disjE) (auto simp: nth_append)
  show "key_chunk_mask (handle_keyhash (key_frame kh i) 8 c) = key_chunk_mask c OR push_bit i 1"
    "session (handle_keyhash (key_frame kh i) 8 c) = session c" "can_q (handle_keyhash (key_frame kh i) 8 c) = can_q c"
    unfolding hk by simp_all
qed

lemma handle_keyhash_all:
  assumes "set is \<subseteq> {..<5}" "length kh = 32" "length (rx_keybuf c) = 32"
  shows "length (rx_keybuf (fold (\<lambda>i. handle_keyhash (key_frame kh i) 8) is c)) = 32 \<and>
    (\<forall>k < 32. rx_keybuf (fold (\<lambda>i. handle_keyhash (key_frame kh i) 8) is c) ! k = (if k div 7 \<in> set is then kh ! k else rx_keybuf c ! k)) \<and>
    (\<forall>i. bit (key_chunk_mask (fold (\<lambda>i. handle_keyhash (key_frame kh i) 8) is c)) i \<longleftrightarrow> bit (key_chunk_mask c) i \<or> i \<in> set is) \<and>
    session (fold (\<lambda>i. handle_keyhash (key_frame kh i) 8) is c) = session c"
  using assms
proof (induction "is" arbitrary: c)
  case (Cons i ks)
  have "i < 5" using Cons.prems(1) by simp
  note p = handle_keyhash_piece [OF this Cons.prems(2,3)]
  have "bit (push_bit i 1 :: u8) j \<longleftrightarrow> j = i" for j using \<open>i < 5\<close> by (auto simp: bit_simps)
  then show ?case using Cons.IH [of "handle_keyhash (key_frame kh i) 8 c"] Cons.prems p by (auto simp: bit_or_iff)
qed simp

lemma mask_full: "m AND KEYHASH_FULL_MASK = KEYHASH_FULL_MASK \<longleftrightarrow> (\<forall>i < 5. bit m i)"
proof -
  have "KEYHASH_FULL_MASK = mask 5" by (simp add: KEYHASH_FULL_MASK_def mask_eq_exp_minus_1)
  then have "m AND KEYHASH_FULL_MASK = KEYHASH_FULL_MASK \<longleftrightarrow> (\<forall>n < 8. (bit m n \<and> n < 5) = (n < 5))"
    by (simp add: bit_eq_iff bit_simps)
  moreover have "i < 5 \<Longrightarrow> i < 8" for i :: nat by simp
  ultimately show ?thesis by blast
qed

text \<open>
  On CAN the key hash is checked before anything is erased: when the five pieces of a key hash
  have come in, in any order and with any repetitions, a start command for a permitted size whose key hash
  is not the device's is answered with the key hash error and leaves the flash untouched, and with the device's
  own key hash it goes on exactly as if no key hash had been sent. Either way an older session is gone.
\<close>

theorem can_keyhash_gate:
  assumes "set is = {..<5}" "length kh = 32" "length K = 32" "length (rx_keybuf c) = 32" "64 \<le> arg" "arg \<le> SLOT1_SIZE"
  shows "can_start F K arg (fold (\<lambda>i. handle_keyhash (key_frame kh i) 8) is c) w =
    (let c' = (fold (\<lambda>i. handle_keyhash (key_frame kh i) 8) is c)\<lparr>session := fw_upg_abort (session c), key_chunk_mask := 0\<rparr>
     in if kh = K then can_start F K arg c' w else ([fw_reply FW_CODE_KEYHASH_ERROR 0], c', w))"
proof -
  let ?c = "fold (\<lambda>i. handle_keyhash (key_frame kh i) 8) is c"
  have all: "length (rx_keybuf ?c) = 32" "\<forall>k < 32. rx_keybuf ?c ! k = kh ! k" "\<forall>i < 5. bit (key_chunk_mask ?c) i" "session ?c = session c"
    using handle_keyhash_all [of "is" kh c] assms by auto
  have buf: "rx_keybuf ?c = kh" using all(1,2) assms(2) by (intro nth_equalityI) simp_all
  have full: "key_chunk_mask ?c AND KEYHASH_FULL_MASK = KEYHASH_FULL_MASK" using all(3) by (simp add: mask_full)
  have empty: "\<not> (0 AND KEYHASH_FULL_MASK = KEYHASH_FULL_MASK)" by (simp add: KEYHASH_FULL_MASK_def)
  have ab: "fw_upg_abort (fw_upg_abort st) = fw_upg_abort st" for st by (simp add: fw_upg_abort_def)
  have "\<not> fw_active (fw_upg_abort st)" for st by (simp add: fw_upg_abort_def)
  moreover have "\<not> arg < 64" "\<not> arg > SLOT1_SIZE" using assms(5,6) by auto
  ultimately have "fw_upg_start F K arg (Some kh) (fw_upg_abort st) w =
      (if kh = K then fw_upg_start F K arg None (fw_upg_abort st) w else (- 2, fw_upg_abort st, w))" for st
    using assms(2,3) by (simp add: fw_upg_start_def FW_KEYHASH_LEN_def)
  then show ?thesis
    using full empty by (simp add: can_start_def Let_def buf all(4) ab split: prod.splits)
qed

definition demo_can :: can_fw where
  "demo_can = \<lparr>session = idle_fw, rx_keybuf = replicate 32 0, key_chunk_mask = 0, can_q = []\<rparr>"

theorem can_keyhash_gate_witness:
  "\<exists>c'. can_start fake_flash demo_key 552 (fold (\<lambda>i. handle_keyhash (key_frame (replicate 32 9) i) 8) [4, 2, 0, 1, 3, 2] demo_can) fake_flash_reset
     = ([fw_reply FW_CODE_KEYHASH_ERROR 0], c', fake_flash_reset)"
proof -
  have s: "set [4, 2, 0, 1, 3, 2] = {..<5 :: nat}" by auto
  have k: "replicate 32 9 \<noteq> demo_key" by (simp add: demo_key_def)
  have "64 \<le> (552 :: u32)" "552 \<le> SLOT1_SIZE" by (simp_all add: word_le_nat_alt SLOT1_SIZE_def)
  from can_keyhash_gate [OF s _ _ _ this, of "replicate 32 9" demo_key demo_can fake_flash fake_flash_reset] k
  show ?thesis by (simp add: demo_can_def demo_key_def Let_def)
qed

end
