(* ===== verification/Can_Drv.thy ===== *)
theory Can_Drv
  imports Shell Fw_Can
begin

unbundle bit_operations_syntax

text \<open>
  The CAN driver of the application, \<open>src/net/can.c\<close>: the bit timing from the register, the acceptance filters, sending, and the receive
  interrupt. The HAL is a parameter (record \<open>can_hal\<close>); pin, clock and interrupt set-up (\<open>HAL_CAN_MspInit\<close>) is part of its
  initialisation. The macros \<open>CAN_BS1_nTQ\<close> and \<open>CAN_BS2_nTQ\<close> are the numbers \<open>n\<close>.
\<close>

record can_timing =
  ct_kbps :: u32
  ct_presc :: nat
  ct_bs1 :: nat
  ct_bs2 :: nat

definition timing :: "u32 \<Rightarrow> nat \<Rightarrow> nat \<Rightarrow> nat \<Rightarrow> can_timing" where
  "timing k p b1 b2 = \<lparr>ct_kbps = k, ct_presc = p, ct_bs1 = b1, ct_bs2 = b2\<rparr>"

definition can_timing_table :: "can_timing list" where
  "can_timing_table = [timing 50 105 6 1, timing 100 42 8 1, timing 125 42 6 1, timing 250 21 6 1, timing 500 12 5 1, timing 1000 6 5 1]"

definition CAN_BAUDRATE_FALLBACK :: u32 where [hub_defs]: "CAN_BAUDRATE_FALLBACK = 250"

record can_filter_cfg =
  FilterIdHigh :: u32
  FilterIdLow :: u32
  FilterMaskIdHigh :: u32
  FilterMaskIdLow :: u32

record can_rx_frame =
  rx_ide :: bool
  rx_std :: u32
  rx_dlc :: u8
  rx_bytes :: "u8 list"

record 'w can_hal =
  HAL_CAN_Init :: "can_timing \<Rightarrow> 'w \<Rightarrow> bool \<times> 'w"
  HAL_CAN_ConfigFilter :: "can_filter_cfg \<Rightarrow> 'w \<Rightarrow> bool \<times> 'w"
  HAL_CAN_Start :: "'w \<Rightarrow> bool \<times> 'w"
  HAL_CAN_ActivateNotification :: "'w \<Rightarrow> bool \<times> 'w"
  HAL_CAN_GetTxMailboxesFreeLevel :: "'w \<Rightarrow> nat \<times> 'w"
  HAL_CAN_AddTxMessage :: "u32 \<Rightarrow> u8 \<Rightarrow> u8 list \<Rightarrow> 'w \<Rightarrow> bool \<times> 'w"
  HAL_CAN_GetRxMessage :: "'w \<Rightarrow> can_rx_frame option \<times> 'w"
  hc_tick :: "'w \<Rightarrow> u32"

text \<open>The static state; \<open>rx_hdr\<close> and \<open>rx_data\<close> of the interrupt keep the frame read last.\<close>

record 'w can_drv =
  can_started :: bool
  can_rx_frames :: u32
  can_rx_hook :: "(u32 \<Rightarrow> u8 list \<Rightarrow> u8 \<Rightarrow> 'w \<Rightarrow> 'w) option"
  can_rx_last :: can_rx_frame

definition can_set_rx_hook :: "(u32 \<Rightarrow> u8 list \<Rightarrow> u8 \<Rightarrow> 'w \<Rightarrow> 'w) option \<Rightarrow> 'w can_drv \<Rightarrow> 'w can_drv" where
  "can_set_rx_hook fn c = c\<lparr>can_rx_hook := fn\<rparr>"

section \<open>Start\<close>

text \<open>The row of the table for the register value, and the row of 250 kbit/s when there is none.\<close>

definition can_lookup :: "u32 \<Rightarrow> can_timing" where
  "can_lookup kbps =
     (case List.find (\<lambda>t. ct_kbps t = kbps) can_timing_table of Some t \<Rightarrow> t | None \<Rightarrow> timing CAN_BAUDRATE_FALLBACK 21 6 1)"

definition can_filter_of :: "u16 \<Rightarrow> can_filter_cfg" where
  "can_filter_of reg =
     (let fid = reg AND 0x7FF
      in \<lparr>FilterIdHigh = push_bit 5 0x100, FilterIdLow = push_bit 5 (ucast fid), FilterMaskIdHigh = push_bit 5 0x700, FilterMaskIdLow = push_bit 5 0x7FF\<rparr>)"

definition can_start :: "'w can_hal \<Rightarrow> u16 \<Rightarrow> u16 \<Rightarrow> 'w can_drv \<Rightarrow> 'w \<Rightarrow> 'w can_drv \<times> 'w" where
  "can_start H rate_reg id_reg c w =
     (case HAL_CAN_Init H (can_lookup (ucast rate_reg)) w of
        (False, w) \<Rightarrow> (c, w)
      | (True, w) \<Rightarrow>
          (case HAL_CAN_ConfigFilter H (can_filter_of id_reg) w of
             (False, w) \<Rightarrow> (c, w)
           | (True, w) \<Rightarrow>
               (case HAL_CAN_Start H w of
                  (False, w) \<Rightarrow> (c, w)
                | (True, w) \<Rightarrow>
                    (case HAL_CAN_ActivateNotification H w of
                       (False, w) \<Rightarrow> (c, w)
                     | (True, w) \<Rightarrow> (c\<lparr>can_started := True\<rparr>, w)))))"

section \<open>Sending\<close>

text \<open>The wait for a mailbox; \<open>None\<close> if it never ends.\<close>

partial_function (option) wait_mailbox :: "'w can_hal \<Rightarrow> u32 \<Rightarrow> 'w \<Rightarrow> (bool \<times> 'w) option" where
  "wait_mailbox H start w =
     (case HAL_CAN_GetTxMailboxesFreeLevel H w of (n, w) \<Rightarrow>
      if n \<noteq> 0 then Some (True, w)
      else if hc_tick H w - start > 100 then Some (False, w)
      else wait_mailbox H start w)"

text \<open>\<open>dat\<close> is \<open>None\<close> for a null pointer.\<close>

definition mod_can_send :: "'w can_hal \<Rightarrow> 'w can_drv \<Rightarrow> u32 \<Rightarrow> u8 list option \<Rightarrow> u8 \<Rightarrow> 'w \<Rightarrow> (int \<times> 'w) option" where
  "mod_can_send H c fid dat len w =
     (if \<not> can_started c \<or> len > 8 \<or> (dat = None \<and> len > 0) then Some (- 1, w)
      else let bytes = (case dat of None \<Rightarrow> [] | Some d \<Rightarrow> take (unat len) d); buf = bytes @ replicate (8 - length bytes) 0
        in case wait_mailbox H (hc_tick H w) w of
             None \<Rightarrow> None
           | Some (False, w) \<Rightarrow> Some (- 1, w)
           | Some (True, w) \<Rightarrow>
               (case HAL_CAN_AddTxMessage H (fid AND 0x7FF) len buf w of (ok, w) \<Rightarrow> Some (if ok then 0 else - 1, w)))"

section \<open>Receiving\<close>

definition HAL_CAN_RxFifo0MsgPendingCallback :: "'w can_hal \<Rightarrow> bool \<Rightarrow> 'w can_drv \<Rightarrow> 'w \<Rightarrow> 'w can_drv \<times> 'w" where
  "HAL_CAN_RxFifo0MsgPendingCallback H is_can1 c w =
     (if \<not> is_can1 then (c, w)
      else case HAL_CAN_GetRxMessage H w of (r, w) \<Rightarrow>
        let fr = (case r of None \<Rightarrow> can_rx_last c | Some fr \<Rightarrow> fr); c = c\<lparr>can_rx_last := fr\<rparr>
        in case can_rx_hook c of
             Some hook \<Rightarrow> if \<not> rx_ide fr then (c, hook (rx_std fr) (rx_bytes fr) (rx_dlc fr) w) else (c\<lparr>can_rx_frames := can_rx_frames c + 1\<rparr>, w)
           | None \<Rightarrow> (c\<lparr>can_rx_frames := can_rx_frames c + 1\<rparr>, w))"

section \<open>The rate\<close>

text \<open>The rate in bit/s at a clock of 42 MHz: one bit is \<open>1 + bs1 + bs2\<close> quanta of \<open>presc\<close> cycles.\<close>

definition can_rate :: "can_timing \<Rightarrow> nat" where
  "can_rate t = 42000000 div (ct_presc t * (1 + ct_bs1 t + ct_bs2 t))"

definition driver_rates :: "u32 set" where
  "driver_rates = ct_kbps ` set can_timing_table"

text \<open>
  The rate is exact: for every rate of the table the chosen timing divides the clock without remainder and gives that rate, and any other register
  value gives 250 kbit/s.
\<close>

theorem can_rate_exact:
  "can_rate (can_lookup k) = (if k \<in> driver_rates then unat k * 1000 else 250000)
    \<and> 42000000 mod (ct_presc (can_lookup k) * (1 + ct_bs1 (can_lookup k) + ct_bs2 (can_lookup k))) = 0"
  by (simp add: can_lookup_def can_timing_table_def timing_def can_rate_def driver_rates_def hub_defs)

text \<open>
  One rate that the shell and the web interface accept is not one that the driver has: 800 kbit/s is stored, and after the restart the bus
  runs at 250.
\<close>

theorem can_accepted_rates:
  "can_rates - driver_rates = {800} \<and> driver_rates \<subseteq> can_rates \<and> can_bps_ok 800 \<and> can_rate (can_lookup 800) = 250000"
  by (auto simp: can_rates_def driver_rates_def can_timing_table_def timing_def can_bps_ok_def can_lookup_def can_rate_def hub_defs)

section \<open>The filters\<close>

text \<open>
  What the controller lets through in the 16-bit mask mode (reference manual): the halfword of a frame with identifier, remote and extended flag
  agrees with one of the two filters where the mask has ones.
\<close>

definition frame_half :: "u32 \<Rightarrow> bool \<Rightarrow> bool \<Rightarrow> u32" where
  "frame_half std rtr ide = push_bit 5 std OR (if rtr then 0x10 else 0) OR (if ide then 0x08 else 0)"

definition lets_in :: "can_filter_cfg \<Rightarrow> u32 \<Rightarrow> bool" where
  "lets_in f h \<longleftrightarrow> h AND FilterMaskIdLow f = FilterIdLow f AND FilterMaskIdLow f \<or> h AND FilterMaskIdHigh f = FilterIdHigh f AND FilterMaskIdHigh f"

lemma take_bit_self:
  fixes a :: u32
  assumes "unat a < 2 ^ n"
  shows "take_bit n a = a"
  using assms by (simp add: word_unat_eq_iff unsigned_take_bit_eq take_bit_nat_eq_self)

lemma half_mask: "frame_half std rtr ide AND push_bit 5 m = push_bit 5 (std AND m)"
proof (rule bit_eqI)
  fix n assume "possible_bit TYPE(32 word) n"
  have "take_bit 5 (0x10 :: u32) = 0x10" "take_bit 5 (0x08 :: u32) = 0x08" by simp_all
  then have low: "\<not> bit (0x10 :: u32) n" "\<not> bit (0x08 :: u32) n" if "5 \<le> n" using that by (metis bit_take_bit_iff not_le)+
  show "bit (frame_half std rtr ide AND push_bit 5 m) n \<longleftrightarrow> bit (push_bit 5 (std AND m)) n"
    using low by (auto simp: frame_half_def bit_and_iff bit_or_iff bit_push_bit_iff)
qed

lemma push_5_eq:
  fixes a b :: u32
  assumes "a < 0x800" "b < 0x800"
  shows "push_bit 5 a = push_bit 5 b \<longleftrightarrow> a = b"
proof -
  have "unat (push_bit 5 x) = unat x * 32" if "x < 0x800" for x :: u32
    using that by (simp add: push_bit_eq_mult unat_word_ariths word_less_nat_alt)
  then show ?thesis using assms by (simp add: word_unat_eq_iff)
qed

lemma and_7FF: "(a :: u32) < 0x800 \<Longrightarrow> a AND 0x7FF = a"
proof -
  assume "a < 0x800"
  then have "take_bit 11 a = a" by (intro take_bit_self) (simp add: word_less_nat_alt)
  moreover have "(0x7FF :: u32) = mask 11" by (simp add: mask_eq_exp_minus_1)
  ultimately show ?thesis by (simp add: take_bit_eq_mask)
qed

lemma and_700: "(a :: u32) < 0x800 \<Longrightarrow> a AND 0x700 = 0x100 \<longleftrightarrow> 0x100 \<le> a \<and> a \<le> 0x1FF"
proof -
  assume a: "a < 0x800"
  then have d: "unat (drop_bit 8 a) < 8" by (simp add: drop_bit_eq_div unat_div word_less_nat_alt less_mult_imp_div_less)
  have "(0x700 :: u32) = push_bit 8 (mask 3)" by (simp add: mask_eq_exp_minus_1)
  moreover have "a AND push_bit 8 (mask 3) = push_bit 8 (drop_bit 8 a AND mask 3)" by (rule bit_eqI) (auto simp: bit_simps)
  moreover have "take_bit 3 (drop_bit 8 a) = drop_bit 8 a" using d by (intro take_bit_self) simp
  ultimately have e: "a AND 0x700 = push_bit 8 (drop_bit 8 a)" by (metis take_bit_eq_mask)
  have q: "unat (drop_bit 8 a) = unat a div 256" by (simp add: drop_bit_eq_div unat_div)
  have "unat (push_bit 8 x) = 256 * unat x" if "unat x < 8" for x :: u32 using that by (simp add: push_bit_eq_mult unat_word_ariths)
  then have "unat (push_bit 8 (drop_bit 8 a)) = 256 * (unat a div 256)" using d q by simp
  then have "a AND 0x700 = 0x100 \<longleftrightarrow> 256 * (unat a div 256) = 256" unfolding e by (simp add: word_unat_eq_iff)
  also have "\<dots> \<longleftrightarrow> 256 \<le> unat a \<and> unat a \<le> 511"
  proof
    assume "256 * (unat a div 256) = 256"
    then show "256 \<le> unat a \<and> unat a \<le> 511"
      using mult_div_mod_eq [of 256 "unat a"] mod_less_divisor [of 256 "unat a"] by linarith
  next
    assume "256 \<le> unat a \<and> unat a \<le> 511"
    then have "unat a div 256 = 1" by (intro div_nat_eqI) auto
    then show "256 * (unat a div 256) = 256" by simp
  qed
  finally show ?thesis by (simp add: word_le_nat_alt)
qed

text \<open>
  (C25) The filters let in the configured identifier and the frames of the upgrade protocol: a frame, remote or not, passes exactly when its identifier is
  the low eleven bits of the register or lies between 0x100 and 0x1FF; so whatever is configured, the upgrade over CAN stays reachable.
\<close>

theorem can_filter_accepts:
  assumes "std < 0x800"
  shows "lets_in (can_filter_of reg) (frame_half std rtr ide) \<longleftrightarrow> std = ucast (reg AND 0x7FF) \<or> 0x100 \<le> std \<and> std \<le> 0x1FF"
proof -
  have r: "(ucast (reg AND 0x7FF) :: u32) < 0x800"
  proof -
    have "unat (reg AND 0x7FF) \<le> 0x7FF" using word_and_le1 [of reg "0x7FF"] by (simp add: word_le_nat_alt)
    then show ?thesis by (simp add: word_less_nat_alt)
  qed
  define m :: u32 where "m = ucast (reg AND 0x7FF)"
  have low: "push_bit 5 m AND push_bit 5 (0x7FF :: u32) = push_bit 5 m" using and_7FF [OF r] by (simp only: m_def push_bit_and [symmetric])
  have hi: "push_bit 5 0x100 AND push_bit 5 0x700 = push_bit 5 (0x100 :: u32)" by simp
  have "lets_in (can_filter_of reg) (frame_half std rtr ide) \<longleftrightarrow> push_bit 5 (std AND 0x7FF) = push_bit 5 m \<or> push_bit 5 (std AND 0x700) = push_bit 5 (0x100 :: u32)"
    unfolding lets_in_def by (simp only: can_filter_of_def Let_def can_filter_cfg.simps half_mask low hi m_def [symmetric])
  moreover have "std AND 0x700 < 0x800" using assms by (meson le_less_trans word_and_le2)
  ultimately show ?thesis using push_5_eq [of std m] push_5_eq [of "std AND 0x700" "0x100"] and_7FF [OF assms] and_700 [OF assms] assms r by (simp add: m_def)
qed

section \<open>Sending ends\<close>

text \<open>A tick that goes on: each poll of the mailboxes moves it by some time, at most \<open>2^31\<close>.\<close>

locale can_ticks =
  fixes H :: "'w can_hal"
  assumes tick_moves: "HAL_CAN_GetTxMailboxesFreeLevel H w = (n, w') \<Longrightarrow> 0 < hc_tick H w' - hc_tick H w \<and> hc_tick H w' - hc_tick H w < 0x80000000"
begin

lemma wait_ends: "hc_tick H w - start \<le> 100 \<Longrightarrow> \<exists>r. wait_mailbox H start w = Some r"
proof (induction "100 - unat (hc_tick H w - start)" arbitrary: w rule: less_induct)
  case less
  obtain n v where v: "HAL_CAN_GetTxMailboxesFreeLevel H w = (n, v)" by fastforce
  let ?a = "hc_tick H w - start" and ?b = "hc_tick H v - hc_tick H w"
  have s: "hc_tick H v - start = ?a + ?b" by simp
  have "unat ?a \<le> 100" using less.prems by (simp add: word_le_nat_alt)
  moreover have "0 < unat ?b" "unat ?b < 2147483648" using tick_moves [OF v] by (simp_all add: word_less_nat_alt)
  moreover have "unat (a + b) = unat a + unat b" if "unat a \<le> 100" "unat b < 2147483648" for a b :: u32
    using that by (simp add: unat_word_ariths)
  ultimately have u: "unat (hc_tick H v - start) = unat ?a + unat ?b" by (simp only: s)
  show ?case
  proof (cases "n \<noteq> 0 \<or> hc_tick H v - start > 100")
    case True
    then show ?thesis using v by (subst wait_mailbox.simps) auto
  next
    case False
    then have le: "hc_tick H v - start \<le> 100" by (simp add: not_less)
    then have "100 - unat (hc_tick H v - start) < 100 - unat ?a" using u \<open>0 < unat ?b\<close> by (simp add: word_le_nat_alt)
    from less.hyps [OF this le] show ?thesis using v False by (subst wait_mailbox.simps) auto
  qed
qed

end

text \<open>
  Sending a frame always returns: with a running tick the wait for a mailbox ends after 100 ms at the latest, even when the bus takes no frame.
\<close>

theorem can_send_returns:
  assumes "can_ticks H"
  shows "\<exists>r. mod_can_send H c fid dat len w = Some r"
proof -
  have "\<exists>r. wait_mailbox H (hc_tick H w) w = Some r" by (rule can_ticks.wait_ends [OF assms]) simp
  then obtain ok w1 where "wait_mailbox H (hc_tick H w) w = Some (ok, w1)" by auto
  then show ?thesis by (cases ok) (auto simp: mod_can_send_def Let_def split: prod.split)
qed

section \<open>Examples\<close>

theorem can_filter_accepts_witness: "lets_in (can_filter_of 0x0111) (frame_half 0x101 False False)"
  using can_filter_accepts [of "0x101" "0x0111" False False] by simp

text \<open>A bus that never frees a mailbox, with the tick as its state.\<close>

definition dead_bus :: "u32 can_hal" where
  "dead_bus = \<lparr>HAL_CAN_Init = (\<lambda>t w. (True, w)), HAL_CAN_ConfigFilter = (\<lambda>f w. (True, w)), HAL_CAN_Start = (\<lambda>w. (True, w)),
     HAL_CAN_ActivateNotification = (\<lambda>w. (True, w)), HAL_CAN_GetTxMailboxesFreeLevel = (\<lambda>w. (0, w + 1)), HAL_CAN_AddTxMessage = (\<lambda>i n d w. (False, w)),
     HAL_CAN_GetRxMessage = (\<lambda>w. (None, w)), hc_tick = (\<lambda>w. w)\<rparr>"

interpretation dead: can_ticks dead_bus
  by unfold_locales (auto simp: dead_bus_def)

theorem can_send_returns_witness:
  "\<exists>r. mod_can_send dead_bus \<lparr>can_started = True, can_rx_frames = 0, can_rx_hook = None, can_rx_last = \<lparr>rx_ide = False, rx_std = 0, rx_dlc = 0, rx_bytes = []\<rparr>\<rparr>
     0x102 (Some [1, 2]) 2 7 = Some r"
  using can_send_returns [OF dead.can_ticks_axioms] .

end
