(* ===== verification/Net_Link.thy ===== *)
theory Net_Link
  imports Regmap
begin

unbundle bit_operations_syntax

text \<open>
  The network layer below lwIP, \<open>src/net/w5500.c\<close>: bring-up of the Ethernet controller, the pool of its sockets, and the link monitor, which
  switches the outputs off when the link is lost. The controller library (ioLibrary), SPI, GPIO and delays are a parameter (record \<open>wiz_hw\<close>). The
  critical sections around the pool and around each access to the controller exclude other tasks; the operations here are atomic.
\<close>

section \<open>The socket pool\<close>

definition SN_POOL_BASE :: nat where [hub_defs]: "SN_POOL_BASE = 4"
definition WIZCHIP_SOCK_NUM :: nat where [hub_defs]: "WIZCHIP_SOCK_NUM = 8"
definition W5500_VERSIONR_VALUE :: u8 where [hub_defs]: "W5500_VERSIONR_VALUE = 0x04"

definition sn_free_map_init :: u8 where
  "sn_free_map_init = NOT (push_bit SN_POOL_BASE 1 - 1)"

definition sn_alloc :: "u8 \<Rightarrow> nat option \<times> u8" where
  "sn_alloc free_map =
     (case List.find (\<lambda>i. free_map AND push_bit i 1 \<noteq> 0) [SN_POOL_BASE..<WIZCHIP_SOCK_NUM] of
        Some i \<Rightarrow> (Some i, free_map AND NOT (push_bit i 1))
      | None \<Rightarrow> (None, free_map))"

definition sn_free :: "nat \<Rightarrow> u8 \<Rightarrow> u8" where
  "sn_free sn free_map = (if sn < SN_POOL_BASE \<or> sn \<ge> WIZCHIP_SOCK_NUM then free_map else free_map OR push_bit sn 1)"

section \<open>Bring-up\<close>

record wiz_netinfo =
  ni_mac :: "u8 list"
  ni_ip :: "u8 list"
  ni_sn :: "u8 list"
  ni_gw :: "u8 list"
  ni_dns :: "u8 list"

record 'w wiz_hw =
  wz_spi2_init :: "'w \<Rightarrow> 'w"
  wz_reset_pin :: "bool \<Rightarrow> 'w \<Rightarrow> 'w"
  wz_delay :: "nat \<Rightarrow> 'w \<Rightarrow> 'w"
  wz_register_callbacks :: "'w \<Rightarrow> 'w"
  wz_init :: "u8 list \<Rightarrow> u8 list \<Rightarrow> 'w \<Rightarrow> bool \<times> 'w"
  wz_bufsize0 :: "u8 \<Rightarrow> u8 \<Rightarrow> 'w \<Rightarrow> 'w"
  wz_version :: "'w \<Rightarrow> u8 \<times> 'w"
  wz_setphyconf :: "'w \<Rightarrow> 'w"
  wz_setnetinfo :: "wiz_netinfo \<Rightarrow> 'w \<Rightarrow> 'w"
  wz_phycfgr :: "'w \<Rightarrow> u8 \<times> 'w"
  wz_set_link :: "bool \<Rightarrow> 'w \<Rightarrow> 'w"

record net_st =
  net_ready :: bool
  link_up :: bool
  prev_up :: bool

definition w5500_hw_reset :: "'w wiz_hw \<Rightarrow> 'w \<Rightarrow> 'w" where
  "w5500_hw_reset H w = wz_delay H 50 (wz_reset_pin H True (wz_delay H 50 (wz_reset_pin H False w)))"

definition w5500_net_init :: "'w wiz_hw \<Rightarrow> u8 list \<Rightarrow> u8 list \<Rightarrow> u8 list \<Rightarrow> u8 list \<Rightarrow> net_st \<Rightarrow> 'w \<Rightarrow> int \<times> net_st \<times> 'w" where
  "w5500_net_init H mac addr netmask gw n w =
     (if net_ready n then (0, n, w)
      else let w = wz_register_callbacks H (w5500_hw_reset H (wz_spi2_init H w))
        in case wz_init H (replicate WIZCHIP_SOCK_NUM 2) (replicate WIZCHIP_SOCK_NUM 2) w of
             (False, w) \<Rightarrow> (- 1, n, w)
           | (True, w) \<Rightarrow>
               (case wz_version H (wz_bufsize0 H 16 16 w) of (v, w) \<Rightarrow>
                if v \<noteq> W5500_VERSIONR_VALUE then (- 1, n, w)
                else (0, n\<lparr>net_ready := True\<rparr>,
                      wz_setnetinfo H \<lparr>ni_mac = take 6 mac, ni_ip = take 4 addr, ni_sn = take 4 netmask, ni_gw = take 4 gw, ni_dns = [0, 0, 0, 0]\<rparr>
                        (wz_setphyconf H w))))"

definition w5500_net_ready :: "net_st \<Rightarrow> bool" where
  "w5500_net_ready n = net_ready n"

definition w5500_link_up :: "net_st \<Rightarrow> bool" where
  "w5500_link_up n = link_up n"

section \<open>The link monitor\<close>

text \<open>A turn of the task, every 500 ms.\<close>

definition net_mon_turn :: "'w wiz_hw \<Rightarrow> 'w board \<Rightarrow> net_st \<Rightarrow> 'w dev \<Rightarrow> net_st \<times> 'w dev" where
  "net_mon_turn H B n s =
     (let w = wz_delay H 500 (world s);
          (up, w) = (if net_ready n then case wz_phycfgr H w of (r, w) \<Rightarrow> (r AND 0x01 \<noteq> 0, w) else (False, w));
          s = s\<lparr>world := w\<rparr>;
          s = (if up \<and> \<not> prev_up n then s\<lparr>world := wz_set_link H True (world s)\<rparr>
               else if \<not> up \<and> prev_up n
               then let s = s\<lparr>world := wz_set_link H False (world s)\<rparr>;
                        s = snd (update_holding_reg (of_nat HOLDING_DO_IDX) 0 s)
                    in dev_set_do B 0 s
               else s)
      in (n\<lparr>link_up := up, prev_up := up\<rparr>, s))"

section \<open>Sockets\<close>

text \<open>The sockets that may be handed out.\<close>

definition pool_free :: "u8 \<Rightarrow> nat set" where
  "pool_free m = {i. SN_POOL_BASE \<le> i \<and> i < WIZCHIP_SOCK_NUM \<and> bit m i}"

lemma and_push_u8: "(v :: u8) AND push_bit n 1 \<noteq> 0 \<longleftrightarrow> bit v n"
proof
  assume "v AND push_bit n 1 \<noteq> 0"
  then obtain k where "bit (v AND push_bit n 1) k" using bit_eq_iff [of "v AND push_bit n 1" 0] by auto
  then show "bit v n" by (auto simp: bit_and_iff bit_exp_iff)
next
  assume "bit v n"
  then have "bit (v AND push_bit n 1) n"
    using bit_imp_le_length [of v n] by (simp add: bit_and_iff bit_exp_iff possible_bit_def)
  then show "v AND push_bit n 1 \<noteq> 0" by auto
qed

lemma bit_without: "n < 8 \<Longrightarrow> bit ((m :: u8) AND NOT (2 ^ n)) k \<longleftrightarrow> bit m k \<and> k \<noteq> n"
  by (auto simp: bit_and_iff bit_not_iff bit_exp_iff possible_bit_def dest: bit_imp_le_length)

lemma bit_with: "n < 8 \<Longrightarrow> bit ((m :: u8) OR 2 ^ n) k \<longleftrightarrow> bit m k \<or> k = n"
  by (auto simp: bit_or_iff bit_exp_iff possible_bit_def)

text \<open>
  The socket pool: an allocation gives a free socket of the pool, takes it out and fails only when none is free; freeing puts a socket of the pool back;
  the reserved sockets 0 to 3 are never handed out.
\<close>

theorem socket_pool_laws:
  "(case sn_alloc m of (Some i, m') \<Rightarrow> i \<in> pool_free m \<and> pool_free m' = pool_free m - {i} | (None, m') \<Rightarrow> pool_free m = {} \<and> m' = m)
    \<and> pool_free (sn_free sn m) = pool_free m \<union> ({sn} \<inter> {SN_POOL_BASE..<WIZCHIP_SOCK_NUM}) \<and> pool_free sn_free_map_init = {4, 5, 6, 7}"
proof (intro conjI)
  show "case sn_alloc m of (Some i, m') \<Rightarrow> i \<in> pool_free m \<and> pool_free m' = pool_free m - {i} | (None, m') \<Rightarrow> pool_free m = {} \<and> m' = m"
  proof (cases "List.find (\<lambda>i. m AND push_bit i 1 \<noteq> 0) [SN_POOL_BASE..<WIZCHIP_SOCK_NUM]")
    case None
    then have "\<forall>i\<in>set [SN_POOL_BASE..<WIZCHIP_SOCK_NUM]. \<not> m AND push_bit i 1 \<noteq> 0" by (simp only: find_None_iff) blast
    then have "\<forall>i\<in>set [SN_POOL_BASE..<WIZCHIP_SOCK_NUM]. \<not> bit m i" by (simp only: and_push_u8)
    then have "pool_free m = {}" by (auto simp: pool_free_def)
    then show ?thesis using None by (simp add: sn_alloc_def)
  next
    case (Some i)
    then have "i \<in> set [SN_POOL_BASE..<WIZCHIP_SOCK_NUM]" "m AND push_bit i 1 \<noteq> 0" by (auto simp: find_Some_iff)
    then have i: "SN_POOL_BASE \<le> i" "i < 8" "bit m i" using and_push_u8 [of m i] by (auto simp: hub_defs)
    then have "pool_free (m AND NOT (push_bit i 1)) = pool_free m - {i}" by (auto simp: pool_free_def bit_without)
    then show ?thesis using Some i by (simp add: sn_alloc_def pool_free_def hub_defs)
  qed
  show "pool_free (sn_free sn m) = pool_free m \<union> ({sn} \<inter> {SN_POOL_BASE..<WIZCHIP_SOCK_NUM})"
    by (auto simp: sn_free_def pool_free_def bit_with hub_defs)
  show "pool_free sn_free_map_init = {4, 5, 6, 7}"
  proof -
    have "sn_free_map_init = 0xF0" by (simp add: sn_free_map_init_def hub_defs)
    moreover have "bit (0xF0 :: u8) i \<longleftrightarrow> i \<in> {4, 5, 6, 7}" if "i < 8" for i
    proof -
      have "i = 0 \<or> i = 1 \<or> i = 2 \<or> i = 3 \<or> i = 4 \<or> i = 5 \<or> i = 6 \<or> i = 7" using that by arith
      then show ?thesis by (elim disjE) simp_all
    qed
    ultimately show ?thesis by (auto simp: pool_free_def hub_defs)
  qed
qed

section \<open>Loss of the link\<close>

text \<open>The controller does not move an output pin.\<close>

definition wiz_private :: "'w wiz_hw \<Rightarrow> ('w \<Rightarrow> dio_pin \<Rightarrow> bool) \<Rightarrow> bool" where
  "wiz_private H pin \<longleftrightarrow> (\<forall>w n up. pin (wz_delay H n w) = pin w \<and> pin (snd (wz_phycfgr H w)) = pin w \<and> pin (wz_set_link H up w) = pin w)"

text \<open>
  (C13) Outputs fail safe: at the turn of the monitor that finds the link lost, all outputs and their LEDs are switched off and the output register is zero; any other
  turn leaves registers and pins alone, so the register and the outputs agree after every turn.
\<close>

theorem link_loss_switches_off:
  assumes "gpio_sets (gpio B) pin" "wiz_private H pin" "wf_dev s" "net_mon_turn H B n s = (n', s')"
  shows "prev_up n' = link_up n'
    \<and> (if prev_up n \<and> \<not> link_up n' then (\<forall>i<DO_NUM. \<not> pin (world s') (do_pins ! i) \<and> \<not> pin (world s') (led_pins ! i)) \<and> holding_reg s' ! HOLDING_DO_IDX = 0
       else pin (world s') = pin (world s) \<and> holding_reg s' = holding_reg s)
    \<and> (outputs_mirror pin s \<longrightarrow> outputs_mirror pin s')"
proof -
  have pins: "pin (wz_delay H k w) = pin w" "pin (snd (wz_phycfgr H w)) = pin w" "pin (wz_set_link H up w) = pin w" for k w up
    using assms(2) by (simp_all add: wiz_private_def)
  define w1 where "w1 = wz_delay H 500 (world s)"
  obtain up w2 where u: "(if net_ready n then case wz_phycfgr H w1 of (r, w) \<Rightarrow> (r AND 0x01 \<noteq> 0, w) else (False, w1)) = (up, w2)" by fastforce
  have p2: "pin w2 = pin (world s)" using u pins(2) [of w1] pins(1) by (auto simp: w1_def split: if_splits prod.splits)
  have n': "link_up n' = up" "prev_up n' = up" using assms(4) u by (auto simp: net_mon_turn_def w1_def [symmetric] Let_def)
  show ?thesis
  proof (cases "prev_up n \<and> \<not> up")
    case True
    define s1 where "s1 = snd (update_holding_reg (of_nat HOLDING_DO_IDX) 0 (s\<lparr>world := wz_set_link H False w2\<rparr>))"
    have s': "s' = dev_set_do B 0 s1" using assms(4) u True by (auto simp: net_mon_turn_def w1_def [symmetric] Let_def s1_def)
    have off: "\<forall>i<DO_NUM. \<not> pin (world s') (do_pins ! i) \<and> \<not> pin (world s') (led_pins ! i)"
      using do_steps [OF assms(1), of DO_NUM 0 "world s1"] by (simp add: s' dev_set_do_def mb_set_do_fold)
    have "holding_reg s' ! HOLDING_DO_IDX = 0" using assms(3) by (simp add: s' s1_def update_holding_reg_def wf_dev_def hub_defs)
    then show ?thesis using off True n' by (simp add: outputs_mirror_def)
  next
    case False
    then have "holding_reg s' = holding_reg s" "pin (world s') = pin (world s)"
      using assms(4) u p2 pins(3) by (auto simp: net_mon_turn_def w1_def [symmetric] Let_def split: if_splits)
    then show ?thesis using False n' by (auto simp: outputs_mirror_def)
  qed
qed

section \<open>Examples\<close>

definition demo_wiz :: "bool \<Rightarrow> sim wiz_hw" where
  "demo_wiz up = \<lparr>wz_spi2_init = (\<lambda>w. w), wz_reset_pin = (\<lambda>b w. w), wz_delay = (\<lambda>n w. w), wz_register_callbacks = (\<lambda>w. w), wz_init = (\<lambda>t r w. (True, w)),
     wz_bufsize0 = (\<lambda>t r w. w), wz_version = (\<lambda>w. (4, w)), wz_setphyconf = (\<lambda>w. w), wz_setnetinfo = (\<lambda>n w. w), wz_phycfgr = (\<lambda>w. (if up then 1 else 0, w)),
     wz_set_link = (\<lambda>b w. w)\<rparr>"

theorem link_loss_switches_off_witness:
  "\<exists>n' s'. net_mon_turn (demo_wiz False) sim_board \<lparr>net_ready = True, link_up = True, prev_up = True\<rparr> sim_dev = (n', s')
    \<and> \<not> link_up n' \<and> holding_reg s' ! HOLDING_DO_IDX = 0"
proof -
  obtain n' s' where t: "net_mon_turn (demo_wiz False) sim_board \<lparr>net_ready = True, link_up = True, prev_up = True\<rparr> sim_dev = (n', s')" by fastforce
  have g: "gpio_sets (gpio sim_board) sim_pins" using sim_pins_private by (simp add: pins_private_def)
  have p: "wiz_private (demo_wiz False) sim_pins" by (simp add: wiz_private_def demo_wiz_def)
  have "\<not> link_up n'" using t by (auto simp: net_mon_turn_def demo_wiz_def Let_def)
  with link_loss_switches_off [OF g p sim_dev_wf t] t show ?thesis by simp
qed

end
