(* ===== verification/Macraw.thy ===== *)
theory Macraw
  imports Regmap "HOL-Library.Sublist"
begin

unbundle bit_operations_syntax

text \<open>
  The driver between the Ethernet controller and lwIP, \<open>src/net/w5500_macraw.c\<close>: frames are read from and written to socket 0 in its raw mode. The
  controller library, the buffers and interface functions of lwIP and the tick are a parameter (record \<open>macraw_hw\<close>); a chain of buffers is the list of its
  payloads. The driver's lock excludes the other task, so that each function is a step here. A wait for the controller without a time limit is a partial function:
  \<open>None\<close> means that it never ends.
\<close>

definition MACRAW_MAX_FRAME :: nat where [hub_defs]: "MACRAW_MAX_FRAME = 1514"
definition MACRAW_RX_BURST :: nat where [hub_defs]: "MACRAW_RX_BURST = 32"

text \<open>Constants of the controller.\<close>

definition Sn_CR_SEND :: u8 where [hub_defs]: "Sn_CR_SEND = 0x20"
definition Sn_CR_RECV :: u8 where [hub_defs]: "Sn_CR_RECV = 0x40"
definition Sn_IR_RECV :: u8 where [hub_defs]: "Sn_IR_RECV = 0x04"
definition Sn_IR_TIMEOUT :: u8 where [hub_defs]: "Sn_IR_TIMEOUT = 0x08"
definition Sn_IR_SENDOK :: u8 where [hub_defs]: "Sn_IR_SENDOK = 0x10"
definition SOCK_MACRAW :: u8 where [hub_defs]: "SOCK_MACRAW = 0x42"

record 'w macraw_hw =
  mr_rsr :: "'w \<Rightarrow> u16 \<times> 'w"
  mr_recv :: "nat \<Rightarrow> 'w \<Rightarrow> u8 list \<times> 'w"
  mr_ignore :: "nat \<Rightarrow> 'w \<Rightarrow> 'w"
  mr_send :: "u8 list \<Rightarrow> 'w \<Rightarrow> 'w"
  mr_set_cr :: "u8 \<Rightarrow> 'w \<Rightarrow> 'w"
  mr_get_cr :: "'w \<Rightarrow> u8 \<times> 'w"
  mr_get_sr :: "'w \<Rightarrow> u8 \<times> 'w"
  mr_get_ir :: "'w \<Rightarrow> u8 \<times> 'w"
  mr_set_ir :: "u8 \<Rightarrow> 'w \<Rightarrow> 'w"
  mr_set_imr :: "u8 \<Rightarrow> 'w \<Rightarrow> 'w"
  mr_set_simr :: "u8 \<Rightarrow> 'w \<Rightarrow> 'w"
  mr_close :: "'w \<Rightarrow> 'w"
  mr_socket :: "'w \<Rightarrow> 'w"
  mr_phycfgr :: "'w \<Rightarrow> u8 \<times> 'w"
  mr_int_pin_init :: "'w \<Rightarrow> 'w"
  mr_tick :: "'w \<Rightarrow> u32"
  mr_delay :: "'w \<Rightarrow> 'w"
  pb_alloc :: "nat \<Rightarrow> 'w \<Rightarrow> nat list option \<times> 'w"
  pb_free :: "'w \<Rightarrow> 'w"
  nif_input :: "u8 list list \<Rightarrow> 'w \<Rightarrow> bool \<times> 'w"
  nif_add :: "u8 list \<Rightarrow> u8 list \<Rightarrow> u8 list \<Rightarrow> u8 list \<Rightarrow> 'w \<Rightarrow> bool \<times> 'w"
  nif_up :: "'w \<Rightarrow> 'w"
  nif_link :: "'w \<Rightarrow> bool"
  nif_set_link :: "bool \<Rightarrow> 'w \<Rightarrow> 'w"
  tcpip_post :: "bool \<Rightarrow> 'w \<Rightarrow> 'w"

record macraw_st =
  netif_added :: bool
  netif_mac :: "u8 list"
  rx_sem :: nat
  macraw_rx_total :: u32
  macraw_rx_ipv4 :: u32
  macraw_rx_arp :: u32
  macraw_rx_other :: u32
  macraw_rx_badhdr :: u32
  macraw_rx_nobuf :: u32

section \<open>Commands of the socket\<close>

partial_function (option) cr_wait :: "'w macraw_hw \<Rightarrow> 'w \<Rightarrow> 'w option" where
  "cr_wait H w = (case mr_get_cr H w of (v, w) \<Rightarrow> if v \<noteq> 0 then cr_wait H w else Some w)"

definition macraw_recv_commit :: "'w macraw_hw \<Rightarrow> 'w \<Rightarrow> 'w option" where
  "macraw_recv_commit H w = cr_wait H (mr_set_cr H Sn_CR_RECV w)"

definition macraw_open_socket :: "'w macraw_hw \<Rightarrow> 'w \<Rightarrow> 'w" where
  "macraw_open_socket H w = mr_set_imr H Sn_IR_RECV (mr_set_ir H 0x1F (mr_socket H (mr_close H w)))"

definition low_level_init :: "'w macraw_hw \<Rightarrow> 'w \<Rightarrow> 'w" where
  "low_level_init H w = snd (mr_get_sr H (mr_set_simr H 0x01 (macraw_open_socket H w)))"

section \<open>Sending\<close>

datatype lwip_err = ERR_OK | ERR_IF | ERR_TIMEOUT

partial_function (option) sr_wait :: "'w macraw_hw \<Rightarrow> u32 \<Rightarrow> 'w \<Rightarrow> (bool \<times> 'w) option" where
  "sr_wait H t0 w =
     (case mr_get_sr H w of (v, w) \<Rightarrow>
      if v = SOCK_MACRAW then Some (True, w)
      else if mr_tick H w - t0 > 100 then Some (False, w)
      else sr_wait H t0 (mr_delay H w))"

partial_function (option) cr_wait_until :: "'w macraw_hw \<Rightarrow> u32 \<Rightarrow> 'w \<Rightarrow> (bool \<times> 'w) option" where
  "cr_wait_until H t1 w =
     (case mr_get_cr H w of (v, w) \<Rightarrow>
      if v = 0 then Some (True, w) else if mr_tick H w - t1 > 100 then Some (False, w) else cr_wait_until H t1 w)"

definition low_level_output :: "'w macraw_hw \<Rightarrow> u8 list list \<Rightarrow> 'w \<Rightarrow> (lwip_err \<times> 'w) option" where
  "low_level_output H p w =
     (case sr_wait H (mr_tick H w) w of
        None \<Rightarrow> None
      | Some (False, w) \<Rightarrow> Some (ERR_IF, w)
      | Some (True, w) \<Rightarrow>
          let w = mr_set_cr H Sn_CR_SEND (fold (mr_send H) p w)
          in case cr_wait_until H (mr_tick H w) w of
               None \<Rightarrow> None
             | Some (False, w) \<Rightarrow> Some (ERR_TIMEOUT, w)
             | Some (True, w) \<Rightarrow>
                 (case mr_get_ir H w of (ir, w) \<Rightarrow>
                  if ir AND Sn_IR_SENDOK \<noteq> 0 then Some (ERR_OK, mr_set_ir H Sn_IR_SENDOK w)
                  else if ir AND Sn_IR_TIMEOUT \<noteq> 0 then Some (ERR_TIMEOUT, mr_set_ir H Sn_IR_TIMEOUT w)
                  else Some (ERR_OK, w)))"

section \<open>Receiving\<close>

fun recv_segs :: "'w macraw_hw \<Rightarrow> nat list \<Rightarrow> 'w \<Rightarrow> u8 list list \<times> 'w" where
  "recv_segs H [] w = ([], w)"
| "recv_segs H (n # ns) w = (case mr_recv H n w of (b, w) \<Rightarrow> case recv_segs H ns w of (bs, w) \<Rightarrow> (b # bs, w))"

definition count_frame :: "u8 list list \<Rightarrow> macraw_st \<Rightarrow> macraw_st" where
  "count_frame p st =
     (let st = st\<lparr>macraw_rx_total := macraw_rx_total st + 1\<rparr>
      in if length (concat p) \<ge> 14
         then let ethertype = (push_bit 8 (ucast (hd p ! 12)) OR ucast (hd p ! 13) :: u16)
              in if ethertype = 0x0800 then st\<lparr>macraw_rx_ipv4 := macraw_rx_ipv4 st + 1\<rparr>
                 else if ethertype = 0x0806 then st\<lparr>macraw_rx_arp := macraw_rx_arp st + 1\<rparr>
                 else st\<lparr>macraw_rx_other := macraw_rx_other st + 1\<rparr>
         else st)"

definition low_level_input :: "'w macraw_hw \<Rightarrow> macraw_st \<Rightarrow> 'w \<Rightarrow> (u8 list list option \<times> macraw_st \<times> 'w) option" where
  "low_level_input H st w =
     (case mr_rsr H w of (rsr, w) \<Rightarrow>
      if rsr < 2 then Some (None, st, w)
      else case mr_recv H 2 w of (hdr_buf, w) \<Rightarrow>
        (case macraw_recv_commit H w of
           None \<Rightarrow> None
         | Some w \<Rightarrow>
             let framelen = (push_bit 8 (ucast (hdr_buf ! 0)) OR ucast (hdr_buf ! 1) :: u16) - 2
             in if framelen = 0 \<or> unat framelen > MACRAW_MAX_FRAME
                then Some (None, st\<lparr>macraw_rx_badhdr := macraw_rx_badhdr st + 1\<rparr>, macraw_open_socket H w)
                else case pb_alloc H (unat framelen) w of
                  (None, w) \<Rightarrow>
                    (case macraw_recv_commit H (mr_ignore H (unat framelen) w) of
                       None \<Rightarrow> None | Some w \<Rightarrow> Some (None, st\<lparr>macraw_rx_nobuf := macraw_rx_nobuf st + 1\<rparr>, w))
                | (Some segs, w) \<Rightarrow>
                    (case recv_segs H segs w of (p, w) \<Rightarrow>
                     (case macraw_recv_commit H w of None \<Rightarrow> None | Some w \<Rightarrow> Some (Some p, count_frame p st, w)))))"

fun rx_burst :: "'w macraw_hw \<Rightarrow> nat \<Rightarrow> macraw_st \<Rightarrow> 'w \<Rightarrow> (macraw_st \<times> 'w) option" where
  "rx_burst H 0 st w = Some (st, w)"
| "rx_burst H (Suc budget) st w =
     (case low_level_input H st w of
        None \<Rightarrow> None
      | Some (None, st, w) \<Rightarrow> Some (st, w)
      | Some (Some p, st, w) \<Rightarrow> (case nif_input H p w of (ok, w) \<Rightarrow> rx_burst H budget st (if ok then w else pb_free H w)))"

definition sem_give :: "macraw_st \<Rightarrow> macraw_st" where
  "sem_give st = st\<lparr>rx_sem := min 0xFFFF (rx_sem st + 1)\<rparr>"

definition EXTI1_IRQHandler :: "bool \<Rightarrow> macraw_st \<Rightarrow> macraw_st" where
  "EXTI1_IRQHandler pending st = (if pending then sem_give st else st)"

text \<open>A turn of the receive task, after the semaphore was taken or its 10 ms have passed.\<close>

definition macraw_rx_turn :: "'w macraw_hw \<Rightarrow> macraw_st \<Rightarrow> 'w \<Rightarrow> (macraw_st \<times> 'w) option" where
  "macraw_rx_turn H st w =
     (let st = st\<lparr>rx_sem := rx_sem st - 1\<rparr>
      in case mr_rsr H w of (rsr, w) \<Rightarrow>
         if rsr = 0 then Some (st, w)
         else case rx_burst H MACRAW_RX_BURST st w of
           None \<Rightarrow> None
         | Some (st, w) \<Rightarrow> (case mr_rsr H (mr_set_ir H Sn_IR_RECV w) of (rsr, w) \<Rightarrow> Some (if rsr \<noteq> 0 then sem_give st else st, w)))"

section \<open>Start and link\<close>

definition netif_addr :: "'w dev \<Rightarrow> u8 list" where
  "netif_addr d = map (\<lambda>i. ucast (get_holding_reg (of_nat (HOLDING_IP_OCTET1_IDX + i)) d)) [0..<4]"

definition w5500_macraw_init :: "'w macraw_hw \<Rightarrow> u8 list \<Rightarrow> 'w dev \<Rightarrow> macraw_st \<Rightarrow> 'w \<Rightarrow> bool \<times> macraw_st \<times> 'w" where
  "w5500_macraw_init H mac d st w =
     (let addr = netif_addr d;
          gw = take 3 addr @ [1];
          st = st\<lparr>rx_sem := 0, netif_mac := take 6 mac\<rparr>;
          w = low_level_init H (mr_int_pin_init H w)
      in case mr_phycfgr H w of (phy, w) \<Rightarrow>
         (case nif_add H addr [255, 255, 255, 0] gw (take 6 mac) w of
            (False, w) \<Rightarrow> (False, st, w)
          | (True, w) \<Rightarrow>
              let w = nif_up H w in (True, st\<lparr>netif_added := True\<rparr>, if phy AND 0x01 \<noteq> 0 then nif_set_link H True w else w)))"

definition w5500_macraw_link_up :: "'w macraw_hw \<Rightarrow> 'w \<Rightarrow> bool" where
  "w5500_macraw_link_up H w = nif_link H w"

definition w5500_macraw_get_mac :: "macraw_st \<Rightarrow> u8 list option" where
  "w5500_macraw_get_mac st = (if netif_added st then Some (netif_mac st) else None)"

definition macraw_set_link_cb :: "'w macraw_hw \<Rightarrow> bool \<Rightarrow> 'w \<Rightarrow> 'w" where
  "macraw_set_link_cb H up w =
     (if up \<and> \<not> nif_link H w then nif_set_link H True w else if \<not> up \<and> nif_link H w then nif_set_link H False w else w)"

definition w5500_macraw_set_link :: "'w macraw_hw \<Rightarrow> bool \<Rightarrow> macraw_st \<Rightarrow> 'w \<Rightarrow> 'w" where
  "w5500_macraw_set_link H up st w = (if \<not> netif_added st then w else tcpip_post H up w)"

section \<open>What the receive path promises\<close>

text \<open>
  The controller puts the frames behind one another into its buffer, each behind its length. What it has received, how far the driver has taken it and what was
  handed to lwIP are functions of the world (record \<open>nic_view\<close>), which no operation reads.
\<close>

definition enc :: "u8 list \<Rightarrow> u8 list" where
  "enc f = io_put_be16 (of_nat (length f + 2)) @ f"

definition wire :: "u8 list list \<Rightarrow> u8 list" where
  "wire fs = concat (map enc fs)"

record 'w nic_view =
  sound :: "'w \<Rightarrow> bool"
  arrived :: "'w \<Rightarrow> u8 list list"
  taken_off :: "'w \<Rightarrow> nat"
  read_off :: "'w \<Rightarrow> nat"
  handed :: "'w \<Rightarrow> u8 list list"
  busy_left :: "'w \<Rightarrow> nat"

definition moves :: "'w nic_view \<Rightarrow> 'w \<Rightarrow> 'w \<Rightarrow> nat \<Rightarrow> nat \<Rightarrow> u8 list list \<Rightarrow> bool" where
  "moves V w w' t r g \<longleftrightarrow> sound V w' \<and> prefix (arrived V w) (arrived V w') \<and> taken_off V w' = t \<and> read_off V w' = r \<and> handed V w' = g"

abbreviation "stays V w w' \<equiv> moves V w w' (taken_off V w) (read_off V w) (handed V w)"

definition boundary :: "'w nic_view \<Rightarrow> nat \<Rightarrow> 'w \<Rightarrow> bool" where
  "boundary V k w \<longleftrightarrow> sound V w \<and> read_off V w = 0 \<and> k \<le> length (arrived V w) \<and> taken_off V w = length (wire (take k (arrived V w)))"

lemma wire_simps [simp]: "wire [] = []" "wire (f # fs) = enc f @ wire fs" "wire (fs @ gs) = wire fs @ wire gs"
  by (simp_all add: wire_def)

lemma length_enc [simp]: "length (enc f) = length f + 2"
  by (simp add: enc_def)

lemma wire_mono: "prefix fs gs \<Longrightarrow> prefix (wire fs) (wire gs)"
  by (auto simp: prefix_def)

lemma take_prefix: "prefix xs ys \<Longrightarrow> k \<le> length xs \<Longrightarrow> take k ys = take k xs"
  by (auto simp: prefix_def)

lemma drop_take_prefix: "prefix xs ys \<Longrightarrow> a + n \<le> length xs \<Longrightarrow> take n (drop a ys) = take n (drop a xs)"
  by (auto simp: prefix_def)

lemma wire_at:
  assumes "k < length fs"
  shows "drop (length (wire (take k fs))) (wire fs) = enc (fs ! k) @ wire (drop (Suc k) fs)"
proof -
  have "wire fs = wire (take k fs) @ enc (fs ! k) @ wire (drop (Suc k) fs)"
    using id_take_nth_drop [OF assms] by (metis wire_simps(2,3))
  then show ?thesis by (metis append_eq_conv_conj)
qed

lemma wire_take_Suc: "k < length fs \<Longrightarrow> length (wire (take (Suc k) fs)) = length (wire (take k fs)) + (length (fs ! k) + 2)"
  by (simp add: take_Suc_conv_app_nth)

lemma wire_room: "k < length fs \<Longrightarrow> length (wire (take k fs)) + (length (fs ! k) + 2) \<le> length (wire fs)"
  using prefix_length_le [OF wire_mono [OF take_is_prefix, of "Suc k" fs]] by (simp add: wire_take_Suc)

lemma wire_left: "k \<le> length fs \<Longrightarrow> length (wire fs) - length (wire (take k fs)) = length (wire (drop k fs))"
  by (metis append_take_drop_id diff_add_inverse length_append wire_simps(3))

lemma wire_empty [simp]: "wire fs = [] \<longleftrightarrow> fs = []"
  by (cases fs) (auto simp: enc_def io_put_be16_def)

lemma wire_short [simp]: "length (wire fs) < 2 \<longleftrightarrow> fs = []"
  by (cases fs) auto

lemma enc_length_word:
  "(push_bit 8 (ucast (take 2 (enc f @ r) ! 0)) OR ucast (take 2 (enc f @ r) ! 1) :: u16) - 2 = of_nat (length f)"
proof -
  have "io_get_be16 (take 2 (enc f @ r)) = of_nat (length f + 2)"
    using io_get_put_be16 [of "of_nat (length f + 2)" "[]"] by (simp add: enc_def)
  then show ?thesis by (simp add: io_get_be16_def)
qed

text \<open>Behind the length of frame \<open>k\<close>.\<close>

definition in_frame :: "'w nic_view \<Rightarrow> nat \<Rightarrow> 'w \<Rightarrow> bool" where
  "in_frame V k w \<longleftrightarrow> sound V w \<and> read_off V w = 0 \<and> k < length (arrived V w) \<and> taken_off V w = length (wire (take k (arrived V w))) + 2"

lemma enc_drop [simp]: "drop 2 (enc f @ r) = f @ r"
  by (simp add: enc_def)

lemma moves_nth: "moves V w w' t r g \<Longrightarrow> k < length (arrived V w) \<Longrightarrow> k < length (arrived V w') \<and> arrived V w' ! k = arrived V w ! k"
  by (auto simp: moves_def prefix_def nth_append)

lemma moves_take: "moves V w w' t r g \<Longrightarrow> k \<le> length (arrived V w) \<Longrightarrow> k \<le> length (arrived V w') \<and> take k (arrived V w') = take k (arrived V w)"
  by (auto simp: moves_def prefix_def)

lemma moves_trans: "moves V w w' t r g \<Longrightarrow> moves V w' w'' t' r' g' \<Longrightarrow> moves V w w'' t' r' g'"
  by (auto simp: moves_def intro: prefix_order.trans)

lemma boundary_stays: "boundary V k w \<Longrightarrow> moves V w w' (taken_off V w) 0 g \<Longrightarrow> boundary V k w'"
  using moves_take [of V w w' _ _ _ k] by (auto simp: boundary_def moves_def)

lemma boundary_header: "boundary V k w \<Longrightarrow> k < length (arrived V w) \<Longrightarrow> moves V w w' (taken_off V w + 2) 0 g \<Longrightarrow> in_frame V k w'"
  using moves_take [of V w w' _ _ _ k] moves_nth [of V w w' _ _ _ k] by (auto simp: boundary_def in_frame_def moves_def)

lemma in_frame_stays: "in_frame V k w \<Longrightarrow> moves V w w' (taken_off V w) 0 g \<Longrightarrow> in_frame V k w'"
  using moves_take [of V w w' _ _ _ k] moves_nth [of V w w' _ _ _ k] by (auto simp: in_frame_def moves_def)

lemma in_frame_done:
  assumes "in_frame V k w" "moves V w w' (taken_off V w + length (arrived V w ! k)) 0 g"
  shows "boundary V (Suc k) w'"
  using assms moves_take [OF assms(2), of "Suc k"] by (auto simp: in_frame_def boundary_def moves_def wire_take_Suc)

lemma in_frame_bytes:
  assumes "in_frame V k w"
  shows "drop (taken_off V w) (wire (arrived V w)) = arrived V w ! k @ wire (drop (Suc k) (arrived V w))"
proof -
  have "drop (2 + length (wire (take k (arrived V w)))) (wire (arrived V w)) = arrived V w ! k @ wire (drop (Suc k) (arrived V w))"
    using assms wire_at [of k "arrived V w"] enc_drop by (metis drop_drop in_frame_def)
  then show ?thesis using assms by (simp add: in_frame_def)
qed

lemma in_frame_room: "in_frame V k w \<Longrightarrow> taken_off V w + length (arrived V w ! k) \<le> length (wire (arrived V w))"
  using wire_room [of k "arrived V w"] by (auto simp: in_frame_def)

section \<open>The controller as the driver sees it\<close>

text \<open>
  The laws of the data sheets and of lwIP: frames only arrive, reading gives the bytes behind those read before, a receive command gives up what was read and is
  carried out in the end, an allocated chain has room for what was asked, and what the stack is called with is what it is handed.
\<close>

locale macraw_chip =
  fixes H :: "'w macraw_hw" and V :: "'w nic_view"
  assumes frames: "sound V w \<Longrightarrow> f \<in> set (arrived V w) \<Longrightarrow> 0 < length f \<and> length f \<le> MACRAW_MAX_FRAME"
    and rsr: "sound V w \<Longrightarrow> mr_rsr H w = (r, w') \<Longrightarrow> stays V w w' \<and> unat r = length (wire (arrived V w')) - taken_off V w'"
    and recv: "sound V w \<Longrightarrow> mr_recv H n w = (b, w') \<Longrightarrow> taken_off V w + read_off V w + n \<le> length (wire (arrived V w)) \<Longrightarrow>
      moves V w w' (taken_off V w) (read_off V w + n) (handed V w) \<and> b = take n (drop (taken_off V w + read_off V w) (wire (arrived V w)))"
    and ignore: "sound V w \<Longrightarrow> taken_off V w + read_off V w + n \<le> length (wire (arrived V w)) \<Longrightarrow>
      moves V w (mr_ignore H n w) (taken_off V w) (read_off V w + n) (handed V w)"
    and commit: "sound V w \<Longrightarrow> moves V w (mr_set_cr H Sn_CR_RECV w) (taken_off V w + read_off V w) 0 (handed V w)"
    and command: "sound V w \<Longrightarrow> mr_get_cr H w = (v, w') \<Longrightarrow> stays V w w' \<and> (v \<noteq> 0 \<longrightarrow> busy_left V w' < busy_left V w)"
    and clear: "sound V w \<Longrightarrow> stays V w (mr_set_ir H v w)"
    and alloc: "sound V w \<Longrightarrow> pb_alloc H n w = (s, w') \<Longrightarrow> stays V w w' \<and> (\<forall>ns. s = Some ns \<longrightarrow> sum_list ns = n)"
    and free: "sound V w \<Longrightarrow> stays V w (pb_free H w)"
    and input: "sound V w \<Longrightarrow> nif_input H p w = (ok, w') \<Longrightarrow> moves V w w' (taken_off V w) (read_off V w) (handed V w @ [concat p])"
begin

lemma wait_ends: "sound V w \<Longrightarrow> \<exists>w'. cr_wait H w = Some w' \<and> stays V w w'"
proof (induction "busy_left V w" arbitrary: w rule: less_induct)
  case less
  obtain v w1 where g: "mr_get_cr H w = (v, w1)" by (cases "mr_get_cr H w")
  note c = command [OF less.prems g]
  show ?case
  proof (cases "v = 0")
    case True
    then show ?thesis using c g by (subst cr_wait.simps) simp
  next
    case False
    then have "busy_left V w1 < busy_left V w" "sound V w1" using c by (simp_all add: moves_def)
    then obtain w2 where "cr_wait H w1 = Some w2" "stays V w1 w2" using less.hyps by blast
    then show ?thesis using c g False
      by (subst cr_wait.simps) (auto simp: moves_def intro: prefix_order.trans)
  qed
qed

lemma commit_ends:
  assumes "sound V w"
  shows "\<exists>w'. macraw_recv_commit H w = Some w' \<and> moves V w w' (taken_off V w + read_off V w) 0 (handed V w)"
proof -
  note c = commit [OF assms]
  then have "sound V (mr_set_cr H Sn_CR_RECV w)" by (simp add: moves_def)
  then obtain w' where "cr_wait H (mr_set_cr H Sn_CR_RECV w) = Some w'" "stays V (mr_set_cr H Sn_CR_RECV w) w'"
    using wait_ends by blast
  with c show ?thesis by (auto simp: macraw_recv_commit_def moves_def intro: prefix_order.trans)
qed

lemma segs_read:
  assumes "sound V w" "recv_segs H ns w = (p, w')" "taken_off V w + read_off V w + sum_list ns \<le> length (wire (arrived V w))"
  shows "moves V w w' (taken_off V w) (read_off V w + sum_list ns) (handed V w)
    \<and> concat p = take (sum_list ns) (drop (taken_off V w + read_off V w) (wire (arrived V w)))"
  using assms
proof (induction ns arbitrary: w p w')
  case Nil
  then show ?case by (simp add: moves_def)
next
  case (Cons n ns)
  obtain b w1 where g: "mr_recv H n w = (b, w1)" by (cases "mr_recv H n w")
  obtain bs w2 where gs: "recv_segs H ns w1 = (bs, w2)" by (cases "recv_segs H ns w1")
  have e: "p = b # bs" "w' = w2" using Cons.prems(2) g gs by auto
  have r: "moves V w w1 (taken_off V w) (read_off V w + n) (handed V w)" "b = take n (drop (taken_off V w + read_off V w) (wire (arrived V w)))"
    using recv [OF Cons.prems(1) g] Cons.prems(3) by auto
  have s: "prefix (wire (arrived V w)) (wire (arrived V w1))" using r(1) by (simp add: moves_def wire_mono)
  have "taken_off V w1 + read_off V w1 + sum_list ns \<le> length (wire (arrived V w1))"
    using r(1) s Cons.prems(3) by (auto simp: moves_def dest!: prefix_length_le)
  note h = Cons.IH [OF _ gs this]
  have h2: "moves V w1 w2 (taken_off V w1) (read_off V w1 + sum_list ns) (handed V w1)"
    "concat bs = take (sum_list ns) (drop (taken_off V w + read_off V w + n) (wire (arrived V w)))"
    using h r(1) drop_take_prefix [OF s, of "taken_off V w + read_off V w + n" "sum_list ns"] Cons.prems(3)
    by (auto simp: moves_def ac_simps)
  have "concat p = take n (drop (taken_off V w + read_off V w) (wire (arrived V w)))
      @ take (sum_list ns) (drop n (drop (taken_off V w + read_off V w) (wire (arrived V w))))"
    using e r(2) h2(2) by (simp add: ac_simps)
  then show ?case using h2(1) r(1) e by (auto simp: moves_def take_add intro: prefix_order.trans)
qed

lemma header_read:
  assumes "boundary V k w" "k < length (arrived V w)" "mr_recv H 2 w = (b, w')"
  shows "moves V w w' (taken_off V w) 2 (handed V w) \<and> (push_bit 8 (ucast (b ! 0)) OR ucast (b ! 1) :: u16) - 2 = of_nat (length (arrived V w ! k))"
proof -
  have d: "drop (taken_off V w) (wire (arrived V w)) = enc (arrived V w ! k) @ wire (drop (Suc k) (arrived V w))"
    using assms(1,2) by (simp add: boundary_def wire_at)
  then have "taken_off V w + 2 \<le> length (wire (arrived V w))"
    using wire_room [OF assms(2)] assms(1) by (simp add: boundary_def)
  then have "moves V w w' (taken_off V w) 2 (handed V w)" "b = take 2 (drop (taken_off V w) (wire (arrived V w)))"
    using recv [OF _ assms(3)] assms(1) by (auto simp: boundary_def numeral_2_eq_2)
  then show ?thesis using d enc_length_word [of "arrived V w ! k"] by metis
qed

lemma frame_dropped:
  assumes "in_frame V k w"
  shows "\<exists>w'. macraw_recv_commit H (mr_ignore H (length (arrived V w ! k)) w) = Some w' \<and> prefix (arrived V w) (arrived V w')
    \<and> handed V w' = handed V w \<and> boundary V (Suc k) w'"
proof -
  let ?w = "mr_ignore H (length (arrived V w ! k)) w"
  have g: "sound V w" "read_off V w = 0" using assms by (simp_all add: in_frame_def)
  have i: "moves V w ?w (taken_off V w) (length (arrived V w ! k)) (handed V w)"
    using ignore [OF g(1), of "length (arrived V w ! k)"] g(2) in_frame_room [OF assms] by simp
  then obtain w' where c: "macraw_recv_commit H ?w = Some w'" "moves V ?w w' (taken_off V w + length (arrived V w ! k)) 0 (handed V w)"
    using commit_ends [of ?w] by (auto simp: moves_def)
  note m = moves_trans [OF i c(2)]
  show ?thesis using c(1) m in_frame_done [OF assms m] by (auto simp: moves_def)
qed

lemma frame_read:
  assumes "in_frame V k w" "sum_list ns = length (arrived V w ! k)" "recv_segs H ns w = (p, w1)"
  shows "concat p = arrived V w ! k \<and> (\<exists>w'. macraw_recv_commit H w1 = Some w' \<and> prefix (arrived V w) (arrived V w')
    \<and> handed V w' = handed V w \<and> boundary V (Suc k) w')"
proof -
  have g: "sound V w" "read_off V w = 0" using assms(1) by (simp_all add: in_frame_def)
  have s: "moves V w w1 (taken_off V w) (length (arrived V w ! k)) (handed V w)" "concat p = arrived V w ! k"
    using segs_read [OF g(1) assms(3)] g(2) in_frame_room [OF assms(1)] in_frame_bytes [OF assms(1)] assms(2) by auto
  then obtain w' where c: "macraw_recv_commit H w1 = Some w'" "moves V w1 w' (taken_off V w + length (arrived V w ! k)) 0 (handed V w)"
    using commit_ends [of w1] by (auto simp: moves_def)
  note m = moves_trans [OF s(1) c(2)]
  show ?thesis using c(1) m s(2) in_frame_done [OF assms(1) m] by (auto simp: moves_def)
qed

lemma input_frame:
  assumes "boundary V k w"
  shows "\<exists>r st' w'. low_level_input H st w = Some (r, st', w') \<and> prefix (arrived V w) (arrived V w') \<and> handed V w' = handed V w
    \<and> macraw_rx_badhdr st' = macraw_rx_badhdr st \<and> rx_sem st' = rx_sem st
    \<and> (case r of Some p \<Rightarrow> boundary V (Suc k) w' \<and> concat p = arrived V w' ! k \<and> macraw_rx_nobuf st' = macraw_rx_nobuf st
        | None \<Rightarrow> boundary V k w' \<and> macraw_rx_nobuf st' = macraw_rx_nobuf st
            \<or> boundary V (Suc k) w' \<and> macraw_rx_nobuf st' = macraw_rx_nobuf st + 1)"
proof -
  obtain q w1 where q: "mr_rsr H w = (q, w1)" by (cases "mr_rsr H w")
  have g: "sound V w" "read_off V w = 0" using assms by (simp_all add: boundary_def)
  have m1: "moves V w w1 (taken_off V w) 0 (handed V w)" and u: "unat q = length (wire (arrived V w1)) - taken_off V w1"
    using rsr [OF g(1) q] g(2) by auto
  note b1 = boundary_stays [OF assms m1]
  have u: "unat q = length (wire (drop k (arrived V w1)))" using u b1 by (simp add: boundary_def wire_left)
  show ?thesis
  proof (cases "q < 2")
    case True
    then show ?thesis using q m1 b1 by (auto simp: low_level_input_def moves_def)
  next
    case False
    then have k: "k < length (arrived V w1)" using u wire_short [of "drop k (arrived V w1)"] by (auto simp: word_less_nat_alt)
    obtain b w2 where r: "mr_recv H 2 w1 = (b, w2)" by (cases "mr_recv H 2 w1")
    have m2: "moves V w1 w2 (taken_off V w1) 2 (handed V w1)"
      and h: "(push_bit 8 (ucast (b ! 0)) OR ucast (b ! 1) :: u16) - 2 = of_nat (length (arrived V w1 ! k))"
      using header_read [OF b1 k r] by auto
    obtain w3 where c: "macraw_recv_commit H w2 = Some w3" "moves V w2 w3 (taken_off V w1 + 2) 0 (handed V w)"
      using commit_ends [of w2] m1 m2 by (auto simp: moves_def)
    note m3 = moves_trans [OF m2 c(2)]
    note f3 = boundary_header [OF b1 k m3]
    let ?n = "length (arrived V w1 ! k)"
    have n: "0 < ?n" "?n \<le> MACRAW_MAX_FRAME" using frames [of w1 "arrived V w1 ! k"] b1 k by (auto simp: boundary_def)
    then have nn: "unat (of_nat ?n :: u16) = ?n" by (simp add: MACRAW_MAX_FRAME_def unat_of_nat take_bit_eq_mod)
    then have nz: "(of_nat ?n :: u16) \<noteq> 0" using n(1) by (metis less_irrefl unat_0)
    obtain s w4 where a: "pb_alloc H ?n w3 = (s, w4)" by (cases "pb_alloc H ?n w3")
    have al: "moves V w3 w4 (taken_off V w3) 0 (handed V w)" "s = Some ns \<Longrightarrow> sum_list ns = ?n" for ns
      using alloc [OF _ a] c(2) by (auto simp: moves_def)
    note f4 = in_frame_stays [OF f3 al(1)]
    have e4: "arrived V w4 ! k = arrived V w1 ! k" "prefix (arrived V w) (arrived V w4)" "handed V w4 = handed V w"
      using moves_nth [OF moves_trans [OF m3 al(1)] k] moves_trans [OF m1 moves_trans [OF m3 al(1)]] by (auto simp: moves_def)
    show ?thesis
    proof (cases s)
      case None
      then show ?thesis using frame_dropped [OF f4] False q r c(1) h n nn nz a e4
        by (auto simp: low_level_input_def intro: prefix_order.trans)
    next
      case (Some ns)
      obtain p w5 where p: "recv_segs H ns w4 = (p, w5)" by (cases "recv_segs H ns w4")
      obtain w6 where w6: "macraw_recv_commit H w5 = Some w6" "prefix (arrived V w4) (arrived V w6)" "handed V w6 = handed V w4"
          "boundary V (Suc k) w6" "concat p = arrived V w4 ! k"
        using frame_read [OF f4 _ p] al(2) [OF Some] e4(1) by auto
      have "arrived V w6 ! k = arrived V w4 ! k" using w6(2) f4 by (auto simp: in_frame_def prefix_def nth_append)
      then show ?thesis using False q r c(1) h n nn nz a e4 Some p w6
        by (auto simp: low_level_input_def count_frame_def Let_def intro: prefix_order.trans)
    qed
  qed
qed

lemma burst_frames:
  assumes "boundary V k w"
  shows "\<exists>st' w' k' lost. rx_burst H b st w = Some (st', w') \<and> boundary V k' w' \<and> k + lost \<le> k' \<and> k' \<le> k + b \<and> lost \<le> 1
    \<and> prefix (arrived V w) (arrived V w') \<and> handed V w' = handed V w @ drop k (take (k' - lost) (arrived V w'))
    \<and> macraw_rx_badhdr st' = macraw_rx_badhdr st \<and> rx_sem st' = rx_sem st \<and> macraw_rx_nobuf st' = macraw_rx_nobuf st + of_nat lost"
  using assms
proof (induction b arbitrary: k st w)
  case 0
  then show ?case by (intro exI [of _ st] exI [of _ w] exI [of _ k] exI [of _ 0]) simp
next
  case (Suc b)
  obtain r st1 w1 where i: "low_level_input H st w = Some (r, st1, w1)" "prefix (arrived V w) (arrived V w1)" "handed V w1 = handed V w"
      "macraw_rx_badhdr st1 = macraw_rx_badhdr st" "rx_sem st1 = rx_sem st"
    and c: "case r of Some p \<Rightarrow> boundary V (Suc k) w1 \<and> concat p = arrived V w1 ! k \<and> macraw_rx_nobuf st1 = macraw_rx_nobuf st
        | None \<Rightarrow> boundary V k w1 \<and> macraw_rx_nobuf st1 = macraw_rx_nobuf st
            \<or> boundary V (Suc k) w1 \<and> macraw_rx_nobuf st1 = macraw_rx_nobuf st + 1"
    using input_frame [OF Suc.prems, of st] by blast
  show ?case
  proof (cases r)
    case None
    then have "boundary V k w1 \<and> macraw_rx_nobuf st1 = macraw_rx_nobuf st \<or> boundary V (Suc k) w1 \<and> macraw_rx_nobuf st1 = macraw_rx_nobuf st + 1"
      using c by simp
    then show ?thesis
    proof
      assume "boundary V k w1 \<and> macraw_rx_nobuf st1 = macraw_rx_nobuf st"
      then show ?thesis using i None by (intro exI [of _ st1] exI [of _ w1] exI [of _ k] exI [of _ 0]) simp
    next
      assume "boundary V (Suc k) w1 \<and> macraw_rx_nobuf st1 = macraw_rx_nobuf st + 1"
      then show ?thesis using i None by (intro exI [of _ st1] exI [of _ w1] exI [of _ "Suc k"] exI [of _ 1]) simp
    qed
  next
    case (Some p)
    then have b1: "boundary V (Suc k) w1" "concat p = arrived V w1 ! k" "macraw_rx_nobuf st1 = macraw_rx_nobuf st" using c by simp_all
    obtain ok w2 where n: "nif_input H p w1 = (ok, w2)" by (cases "nif_input H p w1")
    let ?w = "if ok then w2 else pb_free H w2"
    have m2: "moves V w1 w2 (taken_off V w1) 0 (handed V w1 @ [concat p])" using input [OF _ n] b1(1) by (auto simp: boundary_def)
    then have m3: "moves V w1 ?w (taken_off V w1) 0 (handed V w1 @ [concat p])"
      using free [of w2] by (auto simp: moves_def intro: prefix_order.trans)
    note b3 = boundary_stays [OF b1(1) m3]
    obtain st' w' k' lost where h: "rx_burst H b st1 ?w = Some (st', w')" "boundary V k' w'" "Suc k + lost \<le> k'" "k' \<le> Suc k + b" "lost \<le> 1"
        "prefix (arrived V ?w) (arrived V w')" "handed V w' = handed V ?w @ drop (Suc k) (take (k' - lost) (arrived V w'))"
        "macraw_rx_badhdr st' = macraw_rx_badhdr st1" "rx_sem st' = rx_sem st1" "macraw_rx_nobuf st' = macraw_rx_nobuf st1 + of_nat lost"
      using Suc.IH [OF b3, of st1] by blast
    have p2: "prefix (arrived V w1) (arrived V w')" using m3 h(6) unfolding moves_def by (blast intro: prefix_order.trans)
    have k: "k < length (arrived V w1)" using b1(1) by (simp add: boundary_def)
    have nth: "arrived V w' ! k = concat p" using p2 k b1(2) by (auto simp: prefix_def nth_append)
    have "k < length (take (k' - lost) (arrived V w'))" using h(3) k prefix_length_le [OF p2] by simp
    then have "drop k (take (k' - lost) (arrived V w')) = concat p # drop (Suc k) (take (k' - lost) (arrived V w'))"
      using nth h(3) by (simp add: Cons_nth_drop_Suc [symmetric])
    then have hh: "handed V w' = handed V w @ drop k (take (k' - lost) (arrived V w'))" using h(7) m3 i(3) unfolding moves_def by simp
    have "rx_burst H (Suc b) st w = Some (st', w')" using i(1) Some n h(1) by simp
    then show ?thesis using h(2,3,4,5,8,9,10) hh i(4,5) b1(3) prefix_order.trans [OF i(2) p2]
      by (intro exI [of _ st'] exI [of _ w'] exI [of _ k'] exI [of _ lost]) simp
  qed
qed

lemma turn_frames:
  assumes "boundary V k w"
  shows "\<exists>st' w' k' lost. macraw_rx_turn H st w = Some (st', w') \<and> boundary V k' w' \<and> k + lost \<le> k' \<and> k' \<le> k + MACRAW_RX_BURST \<and> lost \<le> 1
    \<and> prefix (arrived V w) (arrived V w') \<and> handed V w' = handed V w @ drop k (take (k' - lost) (arrived V w'))
    \<and> macraw_rx_badhdr st' = macraw_rx_badhdr st \<and> macraw_rx_nobuf st' = macraw_rx_nobuf st + of_nat lost
    \<and> (k' < length (arrived V w') \<longrightarrow> 0 < rx_sem st')"
proof -
  obtain q w1 where q: "mr_rsr H w = (q, w1)" by (cases "mr_rsr H w")
  have g: "sound V w" "read_off V w = 0" using assms by (simp_all add: boundary_def)
  have m1: "moves V w w1 (taken_off V w) 0 (handed V w)" and u: "unat q = length (wire (arrived V w1)) - taken_off V w1"
    using rsr [OF g(1) q] g(2) by auto
  note b1 = boundary_stays [OF assms m1]
  let ?st = "st\<lparr>rx_sem := rx_sem st - 1\<rparr>"
  show ?thesis
  proof (cases "q = 0")
    case True
    moreover have "unat q = length (wire (drop k (arrived V w1)))" using u b1 by (simp add: boundary_def wire_left)
    ultimately have "length (wire (drop k (arrived V w1))) = 0" by simp
    then have "k = length (arrived V w1)" using b1 by (simp add: boundary_def)
    then show ?thesis using \<open>q = 0\<close> q m1 b1
      by (intro exI [of _ ?st] exI [of _ w1] exI [of _ k] exI [of _ 0]) (simp add: macraw_rx_turn_def moves_def)
  next
    case False
    obtain st2 w2 k' lost where h: "rx_burst H MACRAW_RX_BURST ?st w1 = Some (st2, w2)" "boundary V k' w2" "k + lost \<le> k'" "k' \<le> k + MACRAW_RX_BURST"
        "lost \<le> 1" "prefix (arrived V w1) (arrived V w2)" "handed V w2 = handed V w1 @ drop k (take (k' - lost) (arrived V w2))"
        "macraw_rx_badhdr st2 = macraw_rx_badhdr ?st" "rx_sem st2 = rx_sem ?st" "macraw_rx_nobuf st2 = macraw_rx_nobuf ?st + of_nat lost"
      using burst_frames [OF b1, of MACRAW_RX_BURST ?st] by blast
    obtain q' w3 where q': "mr_rsr H (mr_set_ir H Sn_IR_RECV w2) = (q', w3)" by (cases "mr_rsr H (mr_set_ir H Sn_IR_RECV w2)")
    have s2: "sound V w2" "read_off V w2 = 0" "k' \<le> length (arrived V w2)" using h(2) by (simp_all add: boundary_def)
    note cl = clear [OF s2(1), of Sn_IR_RECV]
    have m3: "moves V w2 w3 (taken_off V w2) 0 (handed V w2)" and u': "unat q' = length (wire (arrived V w3)) - taken_off V w3"
      using rsr [OF _ q'] cl s2(2) by (auto simp: moves_def intro: prefix_order.trans)
    note b3 = boundary_stays [OF h(2) m3]
    have t: "take (k' - lost) (arrived V w3) = take (k' - lost) (arrived V w2)" using moves_take [OF m3, of "k' - lost"] s2(3) by simp
    have "q' \<noteq> 0" if "k' < length (arrived V w3)"
      using that u' b3 by (auto simp: boundary_def wire_left)
    moreover have "macraw_rx_turn H st w = Some (if q' \<noteq> 0 then sem_give st2 else st2, w3)"
      using q False h(1) q' by (simp add: macraw_rx_turn_def)
    moreover have "prefix (arrived V w) (arrived V w3)" "handed V w3 = handed V w @ drop k (take (k' - lost) (arrived V w3))"
      using m1 m3 h(6,7) t unfolding moves_def by (auto intro: prefix_order.trans)
    ultimately show ?thesis using b3 h(3,4,5,8,10)
      by (intro exI [of _ "if q' \<noteq> 0 then sem_give st2 else st2"] exI [of _ w3] exI [of _ k'] exI [of _ lost]) (auto simp: sem_give_def)
  qed
qed

end

section \<open>A controller with frames to come\<close>

record sim_nic =
  sn_coming :: "u8 list list"
  sn_arrived :: "u8 list list"
  sn_taken :: nat
  sn_read :: nat
  sn_handed :: "u8 list list"
  sn_pool :: nat
  sn_busy :: nat

definition sn_fits :: "u8 list \<Rightarrow> sim_nic \<Rightarrow> bool" where
  "sn_fits f s \<longleftrightarrow> 0 < length f \<and> length f \<le> 1514 \<and> length (wire (sn_arrived s)) - sn_taken s + (length f + 2) \<le> 16384"

definition sn_arrive :: "sim_nic \<Rightarrow> sim_nic" where
  "sn_arrive s = (case sn_coming s of [] \<Rightarrow> s | f # fs \<Rightarrow> if sn_fits f s then s\<lparr>sn_coming := fs, sn_arrived := sn_arrived s @ [f]\<rparr> else s)"

definition sim_macraw :: "sim_nic macraw_hw" where
  "sim_macraw = \<lparr>
     mr_rsr = \<lambda>s. let s = sn_arrive s in (of_nat (length (wire (sn_arrived s)) - sn_taken s), s),
     mr_recv = \<lambda>n s. (take n (drop (sn_taken s + sn_read s) (wire (sn_arrived s))), s\<lparr>sn_read := sn_read s + n\<rparr>),
     mr_ignore = \<lambda>n s. s\<lparr>sn_read := sn_read s + n\<rparr>,
     mr_send = \<lambda>_ s. s,
     mr_set_cr = \<lambda>c s. if c = Sn_CR_RECV then s\<lparr>sn_taken := sn_taken s + sn_read s, sn_read := 0, sn_busy := 2\<rparr> else s,
     mr_get_cr = \<lambda>s. if sn_busy s = 0 then (0, s) else (Sn_CR_RECV, s\<lparr>sn_busy := sn_busy s - 1\<rparr>),
     mr_get_sr = \<lambda>s. (SOCK_MACRAW, s), mr_get_ir = \<lambda>s. (Sn_IR_SENDOK, s), mr_set_ir = \<lambda>_ s. s, mr_set_imr = \<lambda>_ s. s, mr_set_simr = \<lambda>_ s. s,
     mr_close = \<lambda>s. s, mr_socket = \<lambda>s. s, mr_phycfgr = \<lambda>s. (1, s), mr_int_pin_init = \<lambda>s. s, mr_tick = \<lambda>_. 0, mr_delay = \<lambda>s. s,
     pb_alloc = \<lambda>n s. if sn_pool s = 0 then (None, s) else (Some [min n 1500, n - min n 1500], s\<lparr>sn_pool := sn_pool s - 1\<rparr>),
     pb_free = \<lambda>s. s\<lparr>sn_pool := sn_pool s + 1\<rparr>,
     nif_input = \<lambda>p s. (True, s\<lparr>sn_handed := sn_handed s @ [concat p]\<rparr>),
     nif_add = \<lambda>_ _ _ _ s. (True, s), nif_up = \<lambda>s. s, nif_link = \<lambda>_. True, nif_set_link = \<lambda>_ s. s, tcpip_post = \<lambda>_ s. s\<rparr>"

definition nic_sim :: "sim_nic nic_view" where
  "nic_sim = \<lparr>
     sound = \<lambda>s. (\<forall>f \<in> set (sn_arrived s). 0 < length f \<and> length f \<le> 1514) \<and> length (wire (sn_arrived s)) - sn_taken s \<le> 16384,
     arrived = sn_arrived, taken_off = sn_taken, read_off = sn_read, handed = sn_handed, busy_left = sn_busy\<rparr>"

lemma sn_arrive_stays: "sound nic_sim s \<Longrightarrow> stays nic_sim s (sn_arrive s)"
  by (auto simp: sn_arrive_def sn_fits_def nic_sim_def moves_def split: list.splits)

lemma sn_rsr_value: "sound nic_sim s \<Longrightarrow> unat (of_nat (length (wire (sn_arrived s)) - sn_taken s) :: u16) = length (wire (sn_arrived s)) - sn_taken s"
  by (simp add: nic_sim_def unat_of_nat take_bit_eq_mod)

interpretation nic: macraw_chip sim_macraw nic_sim
proof unfold_locales
  fix w :: sim_nic and r w'
  assume s: "sound nic_sim w" and r: "mr_rsr sim_macraw w = (r, w')"
  then have e: "w' = sn_arrive w" "r = of_nat (length (wire (sn_arrived w')) - sn_taken w')" by (auto simp: sim_macraw_def Let_def)
  show "stays nic_sim w w' \<and> unat r = length (wire (arrived nic_sim w')) - taken_off nic_sim w'"
    using sn_arrive_stays [OF s] sn_rsr_value [of w'] e by (auto simp: moves_def nic_sim_def)
qed (auto simp: sim_macraw_def nic_sim_def moves_def MACRAW_MAX_FRAME_def split: if_splits)

definition nic_start :: sim_nic where
  "nic_start = \<lparr>sn_coming = [replicate 60 1, replicate 1514 2, replicate 64 3], sn_arrived = [], sn_taken = 0, sn_read = 0, sn_handed = [], sn_pool = 2, sn_busy = 0\<rparr>"

definition macraw_st0 :: macraw_st where
  "macraw_st0 = \<lparr>netif_added = True, netif_mac = [], rx_sem = 1, macraw_rx_total = 0, macraw_rx_ipv4 = 0, macraw_rx_arp = 0, macraw_rx_other = 0, macraw_rx_badhdr = 0,
     macraw_rx_nobuf = 0\<rparr>"

section \<open>Frames arrive in order\<close>

text \<open>
  (C11) Over a controller and a stack that follow their documentation, a turn of the receive task that starts between two frames returns and ends between two frames: it
  hands the frames that arrived, whole and in order, to the stack, except that the last one is dropped and counted when no buffer is free. It takes at most
  32 frames, never sees a bad length, and when frames are left the semaphore is given, so that none is forgotten.
\<close>

theorem macraw_frames_in_order:
  assumes "macraw_chip H V" "boundary V k w"
  shows "\<exists>st' w' k' lost. macraw_rx_turn H st w = Some (st', w') \<and> boundary V k' w' \<and> k + lost \<le> k' \<and> k' \<le> k + 32 \<and> lost \<le> 1
    \<and> prefix (arrived V w) (arrived V w') \<and> handed V w' = handed V w @ drop k (take (k' - lost) (arrived V w'))
    \<and> macraw_rx_badhdr st' = macraw_rx_badhdr st \<and> macraw_rx_nobuf st' = macraw_rx_nobuf st + of_nat lost
    \<and> (k' < length (arrived V w') \<longrightarrow> 0 < rx_sem st')"
  using macraw_chip.turn_frames [OF assms] by (simp add: MACRAW_RX_BURST_def)

theorem macraw_frames_in_order_witness:
  "\<exists>st' w' k' lost. macraw_rx_turn sim_macraw macraw_st0 nic_start = Some (st', w') \<and> boundary nic_sim k' w' \<and> lost \<le> 1
    \<and> sn_handed w' = take (k' - lost) (sn_arrived w')"
proof -
  have b: "boundary nic_sim 0 nic_start" by (simp add: boundary_def nic_sim_def nic_start_def)
  have e: "handed nic_sim = sn_handed" "arrived nic_sim = sn_arrived" "sn_handed nic_start = []" by (simp_all add: nic_sim_def nic_start_def)
  show ?thesis using macraw_frames_in_order [OF nic.macraw_chip_axioms b, of macraw_st0] unfolding e by (metis append_Nil drop_0)
qed

end
