(* ===== verification/W25q.thy ===== *)
theory W25q
  imports Nor_Flash
begin

unbundle bit_operations_syntax

text \<open>
  \<open>src/storage/w25qxx.c\<close>: the driver of the 16 MiB NOR flash, which implements the interface of
  \<open>io_flash.h\<close> with commands on the SPI bus. The SPI and GPIO functions of the HAL, the delay, the
  watchdog and the bus lock are parameters (record \<open>spi_hw\<close>); what the chip does with the bytes it is sent
  is a locale, and the theorems show that through this driver it keeps the contract \<open>nor_flash\<close>.
\<close>

section \<open>The driver\<close>

record 'w spi_hw =
  cs_pin :: "bool \<Rightarrow> 'w \<Rightarrow> 'w"
  HAL_SPI_Transmit :: "u8 list \<Rightarrow> 'w \<Rightarrow> bool \<times> 'w"
  HAL_SPI_Receive :: "nat \<Rightarrow> 'w \<Rightarrow> u8 list option \<times> 'w"
  HAL_Delay_1 :: "'w \<Rightarrow> 'w"
  watchdog_feed :: "'w \<Rightarrow> 'w"
  spi1_init :: "'w \<Rightarrow> 'w"

record 'w w25_bus =
  bus_lock :: "('w \<Rightarrow> 'w) option"
  bus_unlock :: "('w \<Rightarrow> 'w) option"

definition W25Q_CMD_JEDEC_ID :: u8 where [hub_defs]: "W25Q_CMD_JEDEC_ID = 0x9F"
definition W25Q_CMD_WRITE_EN :: u8 where [hub_defs]: "W25Q_CMD_WRITE_EN = 0x06"
definition W25Q_CMD_PAGE_PROG :: u8 where [hub_defs]: "W25Q_CMD_PAGE_PROG = 0x02"
definition W25Q_CMD_READ_DATA :: u8 where [hub_defs]: "W25Q_CMD_READ_DATA = 0x03"
definition W25Q_CMD_READ_SR1 :: u8 where [hub_defs]: "W25Q_CMD_READ_SR1 = 0x05"
definition W25Q_CMD_SECTOR_ER :: u8 where [hub_defs]: "W25Q_CMD_SECTOR_ER = 0x20"
definition W25Q_CMD_BLOCK_ER32 :: u8 where [hub_defs]: "W25Q_CMD_BLOCK_ER32 = 0x52"
definition W25Q_CMD_BLOCK_ER64 :: u8 where [hub_defs]: "W25Q_CMD_BLOCK_ER64 = 0xD8"
definition W25Q_SR1_BUSY :: u8 where [hub_defs]: "W25Q_SR1_BUSY = 0x01"
definition W25Q_CHIP_SIZE :: nat where [hub_defs]: "W25Q_CHIP_SIZE = 0x1000000"
definition W25Q_PAGE_SIZE :: nat where [hub_defs]: "W25Q_PAGE_SIZE = 256"
definition W25Q_SECTOR_SIZE :: nat where [hub_defs]: "W25Q_SECTOR_SIZE = 4096"
definition W25Q_JEDEC_ID :: u32 where [hub_defs]: "W25Q_JEDEC_ID = 0xEF4018"
definition W25Q_TMO_4K :: nat where [hub_defs]: "W25Q_TMO_4K = 2000"
definition W25Q_TMO_32K :: nat where [hub_defs]: "W25Q_TMO_32K = 8000"
definition W25Q_TMO_64K :: nat where [hub_defs]: "W25Q_TMO_64K = 16000"
definition W25Q_TMO_PROG :: nat where [hub_defs]: "W25Q_TMO_PROG = 50"

definition cs_low :: "'w spi_hw \<Rightarrow> 'w \<Rightarrow> 'w" where
  "cs_low S w = cs_pin S False w"

definition cs_high :: "'w spi_hw \<Rightarrow> 'w \<Rightarrow> 'w" where
  "cs_high S w = cs_pin S True w"

definition w25qxx_set_bus_lock :: "('w \<Rightarrow> 'w) option \<Rightarrow> ('w \<Rightarrow> 'w) option \<Rightarrow> 'w w25_bus" where
  "w25qxx_set_bus_lock lock unlock = \<lparr>bus_lock = lock, bus_unlock = unlock\<rparr>"

definition bus_take :: "'w w25_bus \<Rightarrow> 'w \<Rightarrow> 'w" where
  "bus_take B w = (case bus_lock B of None \<Rightarrow> w | Some f \<Rightarrow> f w)"

definition bus_give :: "'w w25_bus \<Rightarrow> 'w \<Rightarrow> 'w" where
  "bus_give B w = (case bus_unlock B of None \<Rightarrow> w | Some f \<Rightarrow> f w)"

definition spi_tx :: "'w spi_hw \<Rightarrow> u8 list \<Rightarrow> 'w \<Rightarrow> bool \<times> 'w" where
  "spi_tx S d w = HAL_SPI_Transmit S d w"

definition spi_rx :: "'w spi_hw \<Rightarrow> nat \<Rightarrow> 'w \<Rightarrow> u8 list option \<times> 'w" where
  "spi_rx S n w = HAL_SPI_Receive S n w"

definition addr_bytes :: "u32 \<Rightarrow> u8 list" where
  "addr_bytes addr = [ucast (drop_bit 16 addr), ucast (drop_bit 8 addr), ucast addr]"

definition spi_cmd_addr :: "'w spi_hw \<Rightarrow> u8 \<Rightarrow> u32 \<Rightarrow> 'w \<Rightarrow> bool \<times> 'w" where
  "spi_cmd_addr S cmd addr w = spi_tx S (cmd # addr_bytes addr) w"

definition wren :: "'w spi_hw \<Rightarrow> 'w \<Rightarrow> bool \<times> 'w" where
  "wren S w =
     (let w = cs_low S w; (r, w) = spi_tx S [W25Q_CMD_WRITE_EN] w
      in (r, cs_high S w))"

fun wait_turns :: "'w spi_hw \<Rightarrow> nat \<Rightarrow> 'w \<Rightarrow> bool \<times> 'w" where
  "wait_turns S 0 w = (False, w)"
| "wait_turns S (Suc n) w =
     (case spi_tx S [W25Q_CMD_READ_SR1] (cs_low S (watchdog_feed S w)) of
        (False, w) \<Rightarrow> (False, cs_high S w)
      | (True, w) \<Rightarrow>
          (case spi_rx S 1 w of
             (None, w) \<Rightarrow> (False, cs_high S w)
           | (Some sr, w) \<Rightarrow>
               let w = cs_high S w
               in if hd sr AND W25Q_SR1_BUSY = 0 then (True, w) else wait_turns S n (HAL_Delay_1 S w)))"

definition wait_not_busy :: "'w spi_hw \<Rightarrow> nat \<Rightarrow> 'w \<Rightarrow> bool \<times> 'w" where
  "wait_not_busy S timeout_ms w = wait_turns S (timeout_ms + 1) w"

function read_loop :: "'w spi_hw \<Rightarrow> u32 \<Rightarrow> nat \<Rightarrow> 'w \<Rightarrow> u8 list option \<times> 'w" where
  "read_loop S addr len w =
     (if len = 0 then (Some [], w)
      else let chunk = (if len > 0xFFFF then 0xFFFF else len) in
        case spi_cmd_addr S W25Q_CMD_READ_DATA addr (cs_low S w) of
          (False, w) \<Rightarrow> (None, cs_high S w)
        | (True, w) \<Rightarrow>
            (case spi_rx S chunk w of
               (None, w) \<Rightarrow> (None, cs_high S w)
             | (Some bs, w) \<Rightarrow>
                 (case read_loop S (addr + of_nat chunk) (len - chunk) (cs_high S w) of
                    (None, w) \<Rightarrow> (None, w)
                  | (Some rest, w) \<Rightarrow> (Some (bs @ rest), w))))"
  by pat_completeness auto
termination by (relation "measure (\<lambda>(S, addr, len, w). len)") (auto split: if_splits)

declare read_loop.simps [simp del]

definition w25_read :: "'w spi_hw \<Rightarrow> 'w w25_bus \<Rightarrow> u32 \<Rightarrow> nat \<Rightarrow> 'w \<Rightarrow> u8 list option \<times> 'w" where
  "w25_read S B addr len w =
     (if len = 0 then (Some [], w)
      else if unat addr \<ge> W25Q_CHIP_SIZE \<or> W25Q_CHIP_SIZE - unat addr < len then (None, w)
      else case read_loop S addr len (bus_take B w) of (r, w) \<Rightarrow> (r, bus_give B w))"

definition w25_write :: "'w spi_hw \<Rightarrow> 'w w25_bus \<Rightarrow> u32 \<Rightarrow> u8 list \<Rightarrow> 'w \<Rightarrow> bool \<times> 'w" where
  "w25_write S B addr buf w =
     (if length buf = 0 then (True, w)
      else if length buf > W25Q_PAGE_SIZE then (False, w)
      else if unat addr mod W25Q_PAGE_SIZE + length buf > W25Q_PAGE_SIZE then (False, w)
      else if unat addr \<ge> W25Q_CHIP_SIZE \<or> W25Q_CHIP_SIZE - unat addr < length buf then (False, w)
      else case wren S (bus_take B w) of
        (False, w) \<Rightarrow> (False, bus_give B w)
      | (True, w) \<Rightarrow>
          (case spi_cmd_addr S W25Q_CMD_PAGE_PROG addr (cs_low S w) of
             (False, w) \<Rightarrow> (False, bus_give B (cs_high S w))
           | (True, w) \<Rightarrow>
               (case spi_tx S buf w of
                  (False, w) \<Rightarrow> (False, bus_give B (cs_high S w))
                | (True, w) \<Rightarrow>
                    (case wait_not_busy S W25Q_TMO_PROG (cs_high S w) of
                       (rc, w) \<Rightarrow> (rc, bus_give B w)))))"

definition erase_one :: "'w spi_hw \<Rightarrow> u32 \<Rightarrow> u8 \<Rightarrow> nat \<Rightarrow> 'w \<Rightarrow> bool \<times> 'w" where
  "erase_one S addr cmd timeout_ms w =
     (case wren S w of
        (False, w) \<Rightarrow> (False, w)
      | (True, w) \<Rightarrow>
          (case spi_cmd_addr S cmd addr (cs_low S w) of
             (False, w) \<Rightarrow> (False, cs_high S w)
           | (True, w) \<Rightarrow> wait_not_busy S timeout_ms (cs_high S w)))"

text \<open>The block to erase next: its size, the command and the timeout.\<close>

definition erase_choice :: "u32 \<Rightarrow> nat \<Rightarrow> nat \<times> u8 \<times> nat" where
  "erase_choice addr len =
     (if unat addr mod 0x10000 = 0 \<and> len \<ge> 0x10000 then (0x10000, W25Q_CMD_BLOCK_ER64, W25Q_TMO_64K)
      else if unat addr mod 0x8000 = 0 \<and> len \<ge> 0x8000 then (0x8000, W25Q_CMD_BLOCK_ER32, W25Q_TMO_32K)
      else (0x1000, W25Q_CMD_SECTOR_ER, W25Q_TMO_4K))"

function erase_loop :: "'w spi_hw \<Rightarrow> u32 \<Rightarrow> nat \<Rightarrow> 'w \<Rightarrow> bool \<times> 'w" where
  "erase_loop S addr len w =
     (if len = 0 then (True, w)
      else case erase_choice addr len of (chunk, cmd, tmo) \<Rightarrow>
        (case erase_one S addr cmd tmo w of
           (False, w) \<Rightarrow> (False, w)
         | (True, w) \<Rightarrow> erase_loop S (addr + of_nat chunk) (len - chunk) w))"
  by pat_completeness auto
termination by (relation "measure (\<lambda>(S, addr, len, w). len)") (auto simp: erase_choice_def split: if_splits)

declare erase_loop.simps [simp del]

definition w25_erase :: "'w spi_hw \<Rightarrow> 'w w25_bus \<Rightarrow> u32 \<Rightarrow> nat \<Rightarrow> 'w \<Rightarrow> bool \<times> 'w" where
  "w25_erase S B addr len w =
     (if len = 0 \<or> unat addr mod W25Q_SECTOR_SIZE \<noteq> 0 \<or> len mod W25Q_SECTOR_SIZE \<noteq> 0 then (False, w)
      else if unat addr \<ge> W25Q_CHIP_SIZE \<or> W25Q_CHIP_SIZE - unat addr < len then (False, w)
      else case erase_loop S addr len (watchdog_feed S (bus_take B w)) of
        (False, w) \<Rightarrow> (False, bus_give B w)
      | (True, w) \<Rightarrow> (True, bus_give B (watchdog_feed S w)))"

definition w25_backend :: "'w spi_hw \<Rightarrow> 'w w25_bus \<Rightarrow> 'w io_flash" where
  "w25_backend S B = \<lparr>fl_read = w25_read S B, fl_erase = w25_erase S B, fl_write = w25_write S B\<rparr>"

definition w25qxx_init :: "'w spi_hw \<Rightarrow> 'w \<Rightarrow> bool \<times> 'w" where
  "w25qxx_init S w =
     (case spi_tx S [W25Q_CMD_JEDEC_ID] (cs_low S (spi1_init S w)) of
        (False, w) \<Rightarrow> (False, cs_high S w)
      | (True, w) \<Rightarrow>
          (case spi_rx S 3 w of
             (None, w) \<Rightarrow> (False, cs_high S w)
           | (Some jid, w) \<Rightarrow>
               (push_bit 16 (ucast (jid ! 0)) OR push_bit 8 (ucast (jid ! 1)) OR ucast (jid ! 2) = W25Q_JEDEC_ID, cs_high S w)))"

definition w25qxx_flash :: "'w spi_hw \<Rightarrow> 'w w25_bus \<Rightarrow> 'w io_flash" where
  "w25qxx_flash S B = w25_backend S B"

section \<open>The chip\<close>

text \<open>
  The documented behaviour of the chip. Its state, in the world of the HAL: the array \<open>mem\<close>, the bytes
  \<open>sel\<close> it has taken in since it was selected (\<open>None\<close> when it is not selected), the write enable latch
  \<open>wel\<close> and whether a program or erase is running (\<open>busy\<close>). A step is calm when it leaves the array alone
  and a chip that is not busy stays so and keeps its latch.
\<close>

definition calm :: "('w \<Rightarrow> nat \<Rightarrow> u8) \<Rightarrow> ('w \<Rightarrow> bool) \<Rightarrow> ('w \<Rightarrow> bool) \<Rightarrow> 'w \<Rightarrow> 'w \<Rightarrow> bool" where
  "calm mem wel busy w w' \<longleftrightarrow> mem w' = mem w \<and> (\<not> busy w \<longrightarrow> \<not> busy w' \<and> wel w' = wel w)"

definition chip_idle :: "('w \<Rightarrow> u8 list option) \<Rightarrow> ('w \<Rightarrow> bool) \<Rightarrow> 'w \<Rightarrow> bool" where
  "chip_idle sel busy w \<longleftrightarrow> sel w = None \<and> \<not> busy w"

definition erase_size :: "u8 \<Rightarrow> nat option" where
  "erase_size cmd = (if cmd = W25Q_CMD_SECTOR_ER then Some 0x1000 else if cmd = W25Q_CMD_BLOCK_ER32 then Some 0x8000
     else if cmd = W25Q_CMD_BLOCK_ER64 then Some 0x10000 else None)"

fun modifies :: "u8 list \<Rightarrow> bool" where
  "modifies [] = False"
| "modifies (c # xs) \<longleftrightarrow> c = W25Q_CMD_PAGE_PROG \<and> 3 < length xs \<or> erase_size c \<noteq> None \<and> length xs = 3"

definition side_calls :: "'w spi_hw \<Rightarrow> 'w w25_bus \<Rightarrow> ('w \<Rightarrow> 'w) set" where
  "side_calls S B = {watchdog_feed S, HAL_Delay_1 S, bus_take B, bus_give B}"

locale w25_chip =
  fixes S :: "'w spi_hw" and B :: "'w w25_bus" and mem :: "'w \<Rightarrow> nat \<Rightarrow> u8" and sel :: "'w \<Rightarrow> u8 list option"
    and wel :: "'w \<Rightarrow> bool" and busy :: "'w \<Rightarrow> bool"
  assumes select: "sel w = None \<Longrightarrow> sel (cs_pin S False w) = Some [] \<and> calm mem wel busy w (cs_pin S False w)"
    and transmit: "sel w = Some xs \<Longrightarrow> HAL_SPI_Transmit S d w = (ok, w')
      \<Longrightarrow> calm mem wel busy w w' \<and> (\<exists>k\<le>length d. (ok \<longrightarrow> k = length d) \<and> sel w' = Some (xs @ take k d))"
    and receive: "sel w = Some xs \<Longrightarrow> HAL_SPI_Receive S n w = (r, w')
      \<Longrightarrow> calm mem wel busy w w' \<and> (\<exists>ys. sel w' = Some (xs @ ys))"
    and read_array: "sel w = Some (W25Q_CMD_READ_DATA # addr_bytes a) \<Longrightarrow> \<not> busy w \<Longrightarrow> unat a + n \<le> CHIP_SIZE
      \<Longrightarrow> HAL_SPI_Receive S n w = (Some bs, w') \<Longrightarrow> bs = mem_bytes (mem w) (unat a) n"
    and read_status: "sel w = Some [W25Q_CMD_READ_SR1] \<Longrightarrow> HAL_SPI_Receive S 1 w = (Some bs, w')
      \<Longrightarrow> hd bs AND W25Q_SR1_BUSY = 0 \<longleftrightarrow> \<not> busy w'"
    and side: "f \<in> side_calls S B \<Longrightarrow> sel (f w) = sel w \<and> calm mem wel busy w (f w)"
    and deselect: "sel w = Some xs \<Longrightarrow> sel (cs_pin S True w) = None"
    and deselect_calm: "sel w = Some xs \<Longrightarrow> \<not> modifies xs \<Longrightarrow> xs \<noteq> [W25Q_CMD_WRITE_EN] \<Longrightarrow> calm mem wel busy w (cs_pin S True w)"
    and deselect_wren: "sel w = Some [W25Q_CMD_WRITE_EN] \<Longrightarrow> \<not> busy w
      \<Longrightarrow> mem (cs_pin S True w) = mem w \<and> \<not> busy (cs_pin S True w) \<and> wel (cs_pin S True w)"
    and deselect_program: "sel w = Some (W25Q_CMD_PAGE_PROG # addr_bytes a @ d) \<Longrightarrow> \<not> busy w \<Longrightarrow> wel w
      \<Longrightarrow> unat a + length d \<le> CHIP_SIZE \<Longrightarrow> unat a mod 256 + length d \<le> 256 \<Longrightarrow> d \<noteq> []
      \<Longrightarrow> mem (cs_pin S True w) = (\<lambda>i. if unat a \<le> i \<and> i < unat a + length d then mem w i AND d ! (i - unat a) else mem w i)"
    and deselect_erase: "sel w = Some (cmd # addr_bytes a) \<Longrightarrow> erase_size cmd = Some n \<Longrightarrow> \<not> busy w \<Longrightarrow> wel w
      \<Longrightarrow> unat a + n \<le> CHIP_SIZE \<Longrightarrow> unat a mod n = 0
      \<Longrightarrow> mem (cs_pin S True w) = (\<lambda>i. if unat a \<le> i \<and> i < unat a + n then 0xFF else mem w i)"
begin

lemma calm_trans: "calm mem wel busy u v \<Longrightarrow> calm mem wel busy v w \<Longrightarrow> calm mem wel busy u w"
  by (simp add: calm_def)

lemma side_idle: "f \<in> side_calls S B \<Longrightarrow> mem (f w) = mem w \<and> (sel (f w) = sel w) \<and> (chip_idle sel busy w \<longrightarrow> chip_idle sel busy (f w))"
  using side [of f w] by (auto simp: chip_idle_def calm_def)

lemma side_members: "watchdog_feed S \<in> side_calls S B" "HAL_Delay_1 S \<in> side_calls S B" "bus_take B \<in> side_calls S B" "bus_give B \<in> side_calls S B"
  by (simp_all add: side_calls_def)

text \<open>A command sent whole or in part, up to the rising edge of the select line.\<close>

lemma command:
  assumes "sel w = None" "HAL_SPI_Transmit S d (cs_low S w) = (ok, w')"
  obtains k where "k \<le> length d" "ok \<longrightarrow> k = length d" "sel w' = Some (take k d)" "calm mem wel busy w w'"
  using select [OF assms(1)] transmit [of "cs_low S w" "[]" d ok w'] assms(2) calm_trans unfolding cs_low_def by force

lemma wren_spec:
  assumes "chip_idle sel busy w" "wren S w = (r, w')"
  shows "chip_idle sel busy w' \<and> mem w' = mem w \<and> (r \<longrightarrow> wel w')"
proof -
  obtain v where v: "HAL_SPI_Transmit S [W25Q_CMD_WRITE_EN] (cs_low S w) = (r, v)" "w' = cs_pin S True v"
    using assms(2) by (auto simp: wren_def Let_def spi_tx_def cs_high_def split: prod.splits)
  obtain k where k: "k \<le> 1" "r \<longrightarrow> k = 1" "sel v = Some (take k [W25Q_CMD_WRITE_EN])" "calm mem wel busy w v"
    using command [OF _ v(1)] assms(1) by (auto simp: chip_idle_def)
  have b: "\<not> busy v" "mem v = mem w" using k(4) assms(1) by (auto simp: calm_def chip_idle_def)
  show ?thesis
  proof (cases "k = 0")
    case True
    then have "calm mem wel busy v w'" using deselect_calm [of v "[]"] k(3) v(2) by simp
    then show ?thesis using True k(2,3) b deselect [of v "[]"] v(2) by (auto simp: calm_def chip_idle_def)
  next
    case False
    then have "sel v = Some [W25Q_CMD_WRITE_EN]" using k by simp
    then show ?thesis using deselect_wren [of v] deselect [of v] b v(2) by (auto simp: chip_idle_def)
  qed
qed

lemma wait_spec:
  assumes "sel w = None" "wait_turns S n w = (r, w')"
  shows "sel w' = None \<and> mem w' = mem w \<and> (r \<longrightarrow> \<not> busy w')"
  using assms
proof (induction n arbitrary: w)
  case (Suc n)
  define u where "u = watchdog_feed S w"
  have u: "sel u = None" "mem u = mem w" using side_idle [OF side_members(1), of w] Suc.prems(1) by (simp_all add: u_def)
  obtain ok v where v: "HAL_SPI_Transmit S [W25Q_CMD_READ_SR1] (cs_low S u) = (ok, v)" by fastforce
  obtain k where k: "k \<le> 1" "ok \<longrightarrow> k = 1" "sel v = Some (take k [W25Q_CMD_READ_SR1])" "calm mem wel busy u v"
    using command [OF u(1) v] by auto
  have quiet: "sel (cs_pin S True x) = None \<and> calm mem wel busy x (cs_pin S True x)"
    if "sel x = Some xs" "xs = [] \<or> hd xs = W25Q_CMD_READ_SR1" for x xs
  proof -
    have "\<not> modifies xs" "xs \<noteq> [W25Q_CMD_WRITE_EN]" using that(2) by (cases xs; auto simp: erase_size_def hub_defs)+
    then show ?thesis using deselect [OF that(1)] deselect_calm [OF that(1)] by blast
  qed
  have vq: "sel (cs_pin S True v) = None \<and> calm mem wel busy v (cs_pin S True v)"
    using quiet [OF k(3)] k(1) by (cases k) auto
  show ?case
  proof (cases ok)
    case False
    then show ?thesis using Suc.prems(2) v vq k(4) u by (auto simp: spi_tx_def cs_high_def u_def calm_def)
  next
    case True
    then have sv: "sel v = Some [W25Q_CMD_READ_SR1]" using k by simp
    obtain q x where x: "HAL_SPI_Receive S 1 v = (q, x)" by fastforce
    obtain ys where ys: "sel x = Some (W25Q_CMD_READ_SR1 # ys)" "calm mem wel busy v x" using receive [OF sv x] by auto
    define z where "z = cs_pin S True x"
    have z: "sel z = None" "mem z = mem w" "\<not> busy x \<longrightarrow> \<not> busy z" using quiet [OF ys(1)] ys(2) k(4) u by (auto simp: z_def calm_def)
    have d: "sel (HAL_Delay_1 S z) = None" "mem (HAL_Delay_1 S z) = mem w" using side_idle [OF side_members(2), of z] z by simp_all
    show ?thesis
    proof (cases q)
      case None
      then show ?thesis using Suc.prems(2) v True x z by (auto simp: spi_tx_def spi_rx_def cs_high_def u_def z_def)
    next
      case (Some sr)
      then have "wait_turns S (Suc n) w = (if hd sr AND W25Q_SR1_BUSY = 0 then (True, z) else wait_turns S n (HAL_Delay_1 S z))"
        using v True x by (simp add: spi_tx_def spi_rx_def cs_high_def u_def z_def Let_def)
      moreover have "hd sr AND W25Q_SR1_BUSY = 0 \<longrightarrow> \<not> busy z" using read_status [OF sv] x Some z(3) by blast
      ultimately show ?thesis using Suc.prems(2) Suc.IH [OF d(1)] d(2) z by (auto split: if_splits)
    qed
  qed
qed simp

end

section \<open>The driver on the chip\<close>

context w25_chip
begin

lemma read_chunk:
  assumes "chip_idle sel busy w" "unat a + n \<le> CHIP_SIZE" "HAL_SPI_Transmit S (W25Q_CMD_READ_DATA # addr_bytes a) (cs_low S w) = (ok, v)"
  shows "chip_idle sel busy (cs_high S v) \<and> mem (cs_high S v) = mem w"
    and "ok \<Longrightarrow> HAL_SPI_Receive S n v = (r, x) \<Longrightarrow> chip_idle sel busy (cs_high S x) \<and> mem (cs_high S x) = mem w
      \<and> (r = Some bs \<longrightarrow> bs = mem_bytes (mem w) (unat a) n)"
proof -
  let ?cmd = "W25Q_CMD_READ_DATA # addr_bytes a"
  obtain k where k: "ok \<longrightarrow> k = length ?cmd" "sel v = Some (take k ?cmd)" "calm mem wel busy w v"
    using command [OF _ assms(3)] assms(1) by (auto simp: chip_idle_def)
  have quiet: "chip_idle sel busy (cs_high S y) \<and> mem (cs_high S y) = mem w"
    if "sel y = Some xs" "xs = [] \<or> hd xs = W25Q_CMD_READ_DATA" "calm mem wel busy w y" for y xs
  proof -
    have "\<not> modifies xs" "xs \<noteq> [W25Q_CMD_WRITE_EN]" using that(2) by (cases xs; auto simp: erase_size_def hub_defs)+
    then show ?thesis using deselect [OF that(1)] deselect_calm [OF that(1)] that(3) assms(1) by (auto simp: cs_high_def calm_def chip_idle_def)
  qed
  show "chip_idle sel busy (cs_high S v) \<and> mem (cs_high S v) = mem w" using quiet [OF k(2) _ k(3)] by (cases k) auto
  assume ok: "ok" and x: "HAL_SPI_Receive S n v = (r, x)"
  then have sv: "sel v = Some ?cmd" using k by simp
  obtain ys where ys: "sel x = Some (?cmd @ ys)" "calm mem wel busy v x" using receive [OF sv x] by blast
  have "\<not> busy v" "mem v = mem w" using k(3) assms(1) by (auto simp: calm_def chip_idle_def)
  then show "chip_idle sel busy (cs_high S x) \<and> mem (cs_high S x) = mem w \<and> (r = Some bs \<longrightarrow> bs = mem_bytes (mem w) (unat a) n)"
    using quiet [OF ys(1) _ calm_trans [OF k(3) ys(2)]] read_array [OF sv _ assms(2)] x by auto
qed

lemma read_loop_spec:
  assumes "chip_idle sel busy w" "unat a + n \<le> CHIP_SIZE" "read_loop S a n w = (r, w')"
  shows "chip_idle sel busy w' \<and> mem w' = mem w \<and> (\<forall>bs. r = Some bs \<longrightarrow> bs = mem_bytes (mem w) (unat a) n)"
  using assms
proof (induction n arbitrary: a w r w' rule: less_induct)
  case (less n)
  show ?case
  proof (cases "n = 0")
    case True
    then show ?thesis using less.prems by (auto simp: read_loop.simps mem_bytes_def)
  next
    case False
    define c where "c = (if n > 0xFFFF then 0xFFFF else n)"
    have c: "0 < c" "c \<le> n" using False by (auto simp: c_def)
    have a: "unat (a + of_nat c) = unat a + c" using less.prems(2) c by (intro unat_plus_of_nat) (simp add: CHIP_SIZE_def)
    obtain ok v where v: "HAL_SPI_Transmit S (W25Q_CMD_READ_DATA # addr_bytes a) (cs_low S w) = (ok, v)" by fastforce
    have fit: "unat a + c \<le> CHIP_SIZE" using less.prems(2) c by linarith
    note chunk = read_chunk [OF less.prems(1) fit v]
    obtain q x where x: "HAL_SPI_Receive S c v = (q, x)" by fastforce
    obtain q2 w2 where w2: "read_loop S (a + of_nat c) (n - c) (cs_high S x) = (q2, w2)" by fastforce
    have step: "read_loop S a n w = (if \<not> ok then (None, cs_high S v) else case q of None \<Rightarrow> (None, cs_high S x)
        | Some bs \<Rightarrow> (case q2 of None \<Rightarrow> (None, w2) | Some rest \<Rightarrow> (Some (bs @ rest), w2)))"
      using False v x w2 by (subst read_loop.simps) (auto simp: Let_def c_def [symmetric] spi_cmd_addr_def spi_tx_def spi_rx_def split: option.split)
    have ih: "chip_idle sel busy w2 \<and> mem w2 = mem w \<and> (\<forall>bs. q2 = Some bs \<longrightarrow> bs = mem_bytes (mem w) (unat a + c) (n - c))" if ok
    proof -
      have "unat (a + of_nat c) + (n - c) \<le> CHIP_SIZE" using a less.prems(2) c by simp
      then show ?thesis using less.IH [OF _ _ _ w2] c chunk(2) [OF that x] a by auto
    qed
    have "mem_bytes (mem w) (unat a) n = mem_bytes (mem w) (unat a) c @ mem_bytes (mem w) (unat a + c) (n - c)"
      using c mem_bytes_add [of "mem w" "unat a" c "n - c"] by simp
    then show ?thesis using less.prems(3) step chunk(1) chunk(2) [OF _ x] ih by (auto split: if_splits option.splits)
  qed
qed

text \<open>Programming and erasing: nothing outside the range changes, and success leaves the chip ready.\<close>

lemma erase_one_spec:
  assumes "chip_idle sel busy w" "erase_size cmd = Some n" "unat a + n \<le> CHIP_SIZE" "unat a mod n = 0" "erase_one S a cmd tmo w = (r, w')"
  shows "(\<forall>i. i < unat a \<or> unat a + n \<le> i \<longrightarrow> mem w' i = mem w i) \<and> sel w' = None
    \<and> (r \<longrightarrow> chip_idle sel busy w' \<and> (\<forall>i. unat a \<le> i \<longrightarrow> i < unat a + n \<longrightarrow> mem w' i = 0xFF))"
proof -
  let ?cmd = "cmd # addr_bytes a"
  obtain e u where u: "wren S w = (e, u)" by fastforce
  note we = wren_spec [OF assms(1) u]
  show ?thesis
  proof (cases e)
    case False
    then show ?thesis using assms(5) u we by (auto simp: erase_one_def chip_idle_def)
  next
    case True
    obtain ok v where v: "HAL_SPI_Transmit S ?cmd (cs_low S u) = (ok, v)" by fastforce
    obtain k where k: "ok \<longrightarrow> k = length ?cmd" "k \<le> length ?cmd" "sel v = Some (take k ?cmd)" "calm mem wel busy u v"
      using command [OF _ v] we by (auto simp: chip_idle_def)
    have b: "\<not> busy v" "wel v" "mem v = mem w" using k(4) we True by (auto simp: calm_def chip_idle_def)
    define z where "z = cs_high S v"
    have sz: "sel z = None" using deselect [OF k(3)] by (simp add: z_def cs_high_def)
    have whole: "mem z = (\<lambda>i. if unat a \<le> i \<and> i < unat a + n then 0xFF else mem w i)" if "k = 4"
      using deselect_erase [of v cmd a n] k(3) that assms(2-4) b by (auto simp: z_def cs_high_def addr_bytes_def)
    have part: "mem z = mem w" if "k \<noteq> 4"
    proof -
      have "k < 4" using k(2) that by (simp add: addr_bytes_def)
      then have "length (take k ?cmd) < 4" by simp
      moreover have "cmd \<noteq> W25Q_CMD_WRITE_EN" "cmd \<noteq> W25Q_CMD_PAGE_PROG" using assms(2) by (auto simp: erase_size_def hub_defs)
      ultimately have "\<not> modifies (take k ?cmd)" "take k ?cmd \<noteq> [W25Q_CMD_WRITE_EN]" by (cases k; auto)+
      then show ?thesis using deselect_calm [OF k(3)] b by (auto simp: z_def cs_high_def calm_def)
    qed
    have r: "(r, w') = (if ok then wait_turns S (tmo + 1) z else (False, z))"
      using assms(5) u True v by (auto simp: erase_one_def spi_cmd_addr_def spi_tx_def wait_not_busy_def z_def)
    show ?thesis
    proof (cases ok)
      case True
      then have q: "wait_turns S (tmo + 1) z = (r, w')" and "k = 4" using r k(1) by (simp_all add: addr_bytes_def)
      show ?thesis using wait_spec [OF sz q] whole [OF \<open>k = 4\<close>] by (auto simp: chip_idle_def)
    next
      case False
      then have "w' = z" "\<not> r" using r by simp_all
      then show ?thesis using sz whole part by (cases "k = 4") auto
    qed
  qed
qed

lemma write_spec:
  assumes "chip_idle sel busy w" "w25_write S B a bs w = (r, w')"
  shows "(\<forall>i. i < unat a \<or> unat a + length bs \<le> i \<longrightarrow> mem w' i = mem w i) \<and> sel w' = None
    \<and> (r \<longrightarrow> chip_idle sel busy w' \<and> (\<forall>i<length bs. mem w' (unat a + i) = mem w (unat a + i) AND bs ! i))"
proof (cases "bs = [] \<or> length bs > 256 \<or> unat a mod 256 + length bs > 256 \<or> unat a \<ge> CHIP_SIZE \<or> CHIP_SIZE - unat a < length bs")
  case True
  then show ?thesis using assms by (auto simp: w25_write_def hub_defs CHIP_SIZE_def chip_idle_def split: if_splits)
next
  case False
  then have f: "bs \<noteq> []" "unat a mod 256 + length bs \<le> 256" "unat a + length bs \<le> CHIP_SIZE" by auto
  let ?cmd = "W25Q_CMD_PAGE_PROG # addr_bytes a"
  define give where "give = bus_give B"
  have give: "mem (give x) = mem x" "sel (give x) = sel x" "chip_idle sel busy x \<longrightarrow> chip_idle sel busy (give x)" for x
    using side_idle [OF side_members(4)] by (simp_all add: give_def)
  have w0: "chip_idle sel busy (bus_take B w)" "mem (bus_take B w) = mem w" using side_idle [OF side_members(3)] assms(1) by auto
  obtain e u where u: "wren S (bus_take B w) = (e, u)" by fastforce
  note we = wren_spec [OF w0(1) u]
  obtain ok v where v: "HAL_SPI_Transmit S ?cmd (cs_low S u) = (ok, v)" by fastforce
  obtain ok2 x where x: "HAL_SPI_Transmit S bs v = (ok2, x)" by fastforce
  obtain q y where y: "wait_turns S (W25Q_TMO_PROG + 1) (cs_high S x) = (q, y)" by fastforce
  have step: "(r, w') = (if \<not> e then (False, give u) else if \<not> ok then (False, give (cs_high S v))
      else if \<not> ok2 then (False, give (cs_high S x)) else (q, give y))"
    using assms(2) False u v x y
    by (auto simp: w25_write_def hub_defs CHIP_SIZE_def spi_cmd_addr_def spi_tx_def wait_not_busy_def give_def split: if_splits)
  obtain k where k: "ok \<longrightarrow> k = length ?cmd" "sel v = Some (take k ?cmd)" "calm mem wel busy u v"
    using command [OF _ v] we by (auto simp: chip_idle_def)
  have b: "\<not> busy v" "e \<longrightarrow> wel v" "mem v = mem w" using k(3) we w0 by (auto simp: calm_def chip_idle_def)
  have "\<not> modifies (take k ?cmd)" "take k ?cmd \<noteq> [W25Q_CMD_WRITE_EN]" by (cases k; auto simp: erase_size_def hub_defs addr_bytes_def)+
  then have cv: "mem (cs_high S v) = mem w" "sel (cs_high S v) = None"
    using deselect_calm [OF k(2)] deselect [OF k(2)] b by (auto simp: calm_def cs_high_def)
  have prog: "sel (cs_high S x) = None \<and> (\<exists>j\<le>length bs. (ok2 \<longrightarrow> j = length bs)
      \<and> mem (cs_high S x) = (\<lambda>i. if unat a \<le> i \<and> i < unat a + j then mem w i AND bs ! (i - unat a) else mem w i))" if h: "e" "ok"
  proof -
    have sv: "sel v = Some ?cmd" using k h by simp
    obtain j where j: "j \<le> length bs" "ok2 \<longrightarrow> j = length bs" "sel x = Some (?cmd @ take j bs)" "calm mem wel busy v x"
      using transmit [OF sv x] by blast
    have bx: "\<not> busy x" "wel x" "mem x = mem w" using j(4) b h by (auto simp: calm_def)
    have "mem (cs_high S x) = (\<lambda>i. if unat a \<le> i \<and> i < unat a + j then mem w i AND bs ! (i - unat a) else mem w i)"
    proof (cases "j = 0")
      case True
      then have "calm mem wel busy x (cs_high S x)" using deselect_calm [OF j(3)] by (simp add: cs_high_def erase_size_def hub_defs addr_bytes_def)
      then show ?thesis using True bx by (auto simp: calm_def fun_eq_iff)
    next
      case False
      then show ?thesis using deselect_program [of x a "take j bs"] j f bx by (auto simp: cs_high_def fun_eq_iff)
    qed
    then show ?thesis using j deselect [OF j(3)] by (auto simp: cs_high_def)
  qed
  show ?thesis
  proof (cases "e \<and> ok")
    case False
    then show ?thesis using step we w0 cv give by (auto simp: chip_idle_def split: if_splits)
  next
    case True
    then obtain j where j: "j \<le> length bs" "ok2 \<longrightarrow> j = length bs" "sel (cs_high S x) = None"
      "mem (cs_high S x) = (\<lambda>i. if unat a \<le> i \<and> i < unat a + j then mem w i AND bs ! (i - unat a) else mem w i)"
      using prog by blast
    note wq = wait_spec [OF j(3) y]
    show ?thesis using step True j wq give [of y] give [of "cs_high S x"] by (auto simp: chip_idle_def split: if_splits)
  qed
qed

end

lemma erase_choice_spec:
  assumes "erase_choice a n = (chunk, cmd, tmo)" "0 < n" "unat a mod 4096 = 0" "n mod 4096 = 0"
  shows "erase_size cmd = Some chunk" "0 < chunk" "chunk \<le> n" "unat a mod chunk = 0" "chunk mod 4096 = 0" "4096 dvd chunk"
  using assms by (auto simp: erase_choice_def erase_size_def hub_defs split: if_splits)

context w25_chip
begin

lemma erase_loop_spec:
  assumes "chip_idle sel busy w" "unat a + n \<le> CHIP_SIZE" "unat a mod 4096 = 0" "n mod 4096 = 0" "erase_loop S a n w = (r, w')"
  shows "(\<forall>i. i < unat a \<or> unat a + n \<le> i \<longrightarrow> mem w' i = mem w i) \<and> sel w' = None
    \<and> (r \<longrightarrow> chip_idle sel busy w' \<and> (\<forall>i. unat a \<le> i \<longrightarrow> i < unat a + n \<longrightarrow> mem w' i = 0xFF))"
  using assms
proof (induction n arbitrary: a w r w' rule: less_induct)
  case (less n)
  show ?case
  proof (cases "n = 0")
    case True
    then show ?thesis using less.prems by (auto simp: erase_loop.simps chip_idle_def)
  next
    case False
    obtain c cmd tmo where c: "erase_choice a n = (c, cmd, tmo)" by (metis prod_cases3)
    note cs = erase_choice_spec [OF c _ less.prems(3,4)]
    have c0: "0 < c" "c \<le> n" "unat a + c \<le> CHIP_SIZE" "erase_size cmd = Some c" "unat a mod c = 0" using cs False less.prems(2) by auto
    obtain e u where u: "erase_one S a cmd tmo w = (e, u)" by fastforce
    note one = erase_one_spec [OF less.prems(1) c0(4,3,5) u]
    have a: "unat (a + of_nat c) = unat a + c" using less.prems(2) c0 by (intro unat_plus_of_nat) (simp add: CHIP_SIZE_def)
    have m: "(unat a + c) mod 4096 = 0" "(n - c) mod 4096 = 0"
      using less.prems(3,4) cs(6) False c0(2) by (auto simp: mod_eq_0_iff_dvd)
    have step: "erase_loop S a n w = (if e then erase_loop S (a + of_nat c) (n - c) u else (False, u))"
      using False c u by (subst erase_loop.simps) (simp split: bool.split)
    show ?thesis
    proof (cases e)
      case True
      then have "erase_loop S (a + of_nat c) (n - c) u = (r, w')" using less.prems(5) step by simp
      then have ih: "(\<forall>i. i < unat a + c \<or> unat a + n \<le> i \<longrightarrow> mem w' i = mem u i) \<and> sel w' = None
          \<and> (r \<longrightarrow> chip_idle sel busy w' \<and> (\<forall>i. unat a + c \<le> i \<longrightarrow> i < unat a + n \<longrightarrow> mem w' i = 0xFF))"
        using less.IH [of "n - c" u "a + of_nat c" r w'] one True c0 a m less.prems(2) by auto
      have "mem w' i = 0xFF" if "r" "unat a \<le> i" "i < unat a + n" for i
        using that ih one True by (cases "i < unat a + c") auto
      then show ?thesis using ih one True c0 by auto
    next
      case False
      then show ?thesis using less.prems(5) step one c0 by auto
    qed
  qed
qed

lemma erase_spec:
  assumes "chip_idle sel busy w" "w25_erase S B a n w = (r, w')"
  shows "(\<forall>i. i < unat a \<or> unat a + n \<le> i \<longrightarrow> mem w' i = mem w i) \<and> sel w' = None
    \<and> (r \<longrightarrow> chip_idle sel busy w' \<and> (\<forall>i. unat a \<le> i \<longrightarrow> i < unat a + n \<longrightarrow> mem w' i = 0xFF))"
proof (cases "n = 0 \<or> unat a mod 4096 \<noteq> 0 \<or> n mod 4096 \<noteq> 0 \<or> unat a \<ge> CHIP_SIZE \<or> CHIP_SIZE - unat a < n")
  case True
  then show ?thesis using assms by (auto simp: w25_erase_def hub_defs CHIP_SIZE_def chip_idle_def split: if_splits)
next
  case False
  define u where "u = watchdog_feed S (bus_take B w)"
  have u: "chip_idle sel busy u" "mem u = mem w" using side_idle [OF side_members(1)] side_idle [OF side_members(3)] assms(1) by (auto simp: u_def)
  obtain e v where v: "erase_loop S a n u = (e, v)" by fastforce
  have "unat a + n \<le> CHIP_SIZE" using False by linarith
  then have l: "(\<forall>i. i < unat a \<or> unat a + n \<le> i \<longrightarrow> mem v i = mem w i) \<and> sel v = None
    \<and> (e \<longrightarrow> chip_idle sel busy v \<and> (\<forall>i. unat a \<le> i \<longrightarrow> i < unat a + n \<longrightarrow> mem v i = 0xFF))"
    using erase_loop_spec [OF u(1) _ _ _ v] False u(2) by auto
  have g: "mem (bus_give B x) = mem x" "sel (bus_give B x) = sel x" "chip_idle sel busy x \<longrightarrow> chip_idle sel busy (bus_give B x)"
    "mem (watchdog_feed S x) = mem x" "sel (watchdog_feed S x) = sel x" "chip_idle sel busy x \<longrightarrow> chip_idle sel busy (watchdog_feed S x)" for x
    using side_idle [OF side_members(1)] side_idle [OF side_members(4)] by auto
  have "(r, w') = (if e then (True, bus_give B (watchdog_feed S v)) else (False, bus_give B v))"
    using assms(2) False v by (auto simp: w25_erase_def hub_defs CHIP_SIZE_def u_def split: if_splits)
  then show ?thesis using l g by (auto split: if_splits)
qed

lemma read_spec:
  assumes "chip_idle sel busy w" "w25_read S B a n w = (r, w')"
  shows "chip_idle sel busy w' \<and> mem w' = mem w \<and> (\<forall>bs. r = Some bs \<longrightarrow> bs = mem_bytes (mem w) (unat a) n)"
proof (cases "n = 0 \<or> unat a \<ge> CHIP_SIZE \<or> CHIP_SIZE - unat a < n")
  case True
  then show ?thesis using assms by (auto simp: w25_read_def hub_defs CHIP_SIZE_def mem_bytes_def split: if_splits)
next
  case False
  have u: "chip_idle sel busy (bus_take B w)" "mem (bus_take B w) = mem w" using side_idle [OF side_members(3)] assms(1) by auto
  obtain e v where v: "read_loop S a n (bus_take B w) = (e, v)" by fastforce
  have "unat a + n \<le> CHIP_SIZE" using False by linarith
  then have l: "chip_idle sel busy v \<and> mem v = mem w \<and> (\<forall>bs. e = Some bs \<longrightarrow> bs = mem_bytes (mem w) (unat a) n)"
    using read_loop_spec [OF u(1) _ v] u(2) by auto
  moreover have "(r, w') = (e, bus_give B v)" using assms(2) False v by (auto simp: w25_read_def hub_defs CHIP_SIZE_def)
  ultimately show ?thesis using side_idle [OF side_members(4), of v] by auto
qed

end

section \<open>The contract of the flash\<close>

text \<open>
  A back end used only while a condition holds: outside it every call is refused. The driver is such a
  back end, with the condition that the chip is not busy. A call that failed while the chip was
  programming or erasing may leave it busy, and \<open>w25_read\<close> does not look.
\<close>

definition flash_when :: "('w \<Rightarrow> bool) \<Rightarrow> 'w io_flash \<Rightarrow> 'w io_flash" where
  "flash_when P F = \<lparr>
     fl_read = \<lambda>a n w. if P w then fl_read F a n w else (None, w),
     fl_erase = \<lambda>a n w. if P w then fl_erase F a n w else (False, w),
     fl_write = \<lambda>a bs w. if P w then fl_write F a bs w else (False, w)\<rparr>"

lemma flash_when_sel [simp]:
  "fl_read (flash_when P F) a n w = (if P w then fl_read F a n w else (None, w))"
  "fl_erase (flash_when P F) a n w = (if P w then fl_erase F a n w else (False, w))"
  "fl_write (flash_when P F) a bs w = (if P w then fl_write F a bs w else (False, w))"
  by (simp_all add: flash_when_def)

lemma w25_backend_sel [simp]:
  "fl_read (w25_backend S B) = w25_read S B" "fl_erase (w25_backend S B) = w25_erase S B" "fl_write (w25_backend S B) = w25_write S B"
  by (simp_all add: w25_backend_def)

sublocale w25_chip \<subseteq> nor: nor_flash "flash_when (chip_idle sel busy) (w25_backend S B)" mem
  by unfold_locales (auto split: if_splits dest: read_spec erase_spec write_spec)

text \<open>
  On top of that, a bus without transfer errors and a chip that finishes within the times of its data
  sheet; \<open>due\<close> is the number of milliseconds a running operation still takes.
\<close>

definition chip_time :: "u8 \<Rightarrow> nat" where
  "chip_time cmd = (if cmd = W25Q_CMD_PAGE_PROG then 3 else if cmd = W25Q_CMD_SECTOR_ER then 400
     else if cmd = W25Q_CMD_BLOCK_ER32 then 1600 else 2000)"

locale w25_prompt = w25_chip +
  fixes due :: "'a \<Rightarrow> nat"
  assumes busy_due: "busy w \<longleftrightarrow> 0 < due w"
    and transmit_ok: "fst (HAL_SPI_Transmit S d w) \<and> due (snd (HAL_SPI_Transmit S d w)) \<le> due w"
    and receive_ok: "fst (HAL_SPI_Receive S n w) \<noteq> None \<and> due (snd (HAL_SPI_Receive S n w)) \<le> due w"
    and select_due: "due (cs_pin S False w) \<le> due w"
    and side_due: "f \<in> side_calls S B \<Longrightarrow> due (f w) \<le> due w"
    and delay_due: "due (HAL_Delay_1 S w) \<le> due w - 1"
    and deselect_due: "sel w = Some xs \<Longrightarrow> due (cs_pin S True w) \<le> (if modifies xs then max (due w) (chip_time (hd xs)) else due w)"
begin

lemma status_due:
  assumes "sel w = None"
  shows "\<exists>sr v. spi_tx S [W25Q_CMD_READ_SR1] (cs_low S (watchdog_feed S w)) = (True, v) \<and> (\<exists>x. spi_rx S 1 v = (Some sr, x)
    \<and> due (cs_high S x) \<le> due w \<and> sel (cs_high S x) = None \<and> (hd sr AND W25Q_SR1_BUSY = 0 \<longleftrightarrow> due x = 0) \<and> due x \<le> due w)"
proof -
  define u where "u = cs_low S (watchdog_feed S w)"
  have sw: "sel (watchdog_feed S w) = None" "due (watchdog_feed S w) \<le> due w"
    using side_idle [OF side_members(1), of w] side_due [OF side_members(1), of w] assms by auto
  have u: "due u \<le> due w" using select_due [of "watchdog_feed S w"] sw(2) by (simp add: u_def cs_low_def)
  obtain v where v: "HAL_SPI_Transmit S [W25Q_CMD_READ_SR1] u = (True, v)" "due v \<le> due u"
    using transmit_ok [of "[W25Q_CMD_READ_SR1]" u] by (cases "HAL_SPI_Transmit S [W25Q_CMD_READ_SR1] u") auto
  obtain k where "k = 1" "sel v = Some (take k [W25Q_CMD_READ_SR1])" using command [OF sw(1) v(1) [unfolded u_def]] by auto
  then have sv: "sel v = Some [W25Q_CMD_READ_SR1]" by simp
  obtain sr x where x: "HAL_SPI_Receive S 1 v = (Some sr, x)" "due x \<le> due v"
    using receive_ok [of 1 v] by (cases "HAL_SPI_Receive S 1 v") auto
  obtain ys where ys: "sel x = Some (W25Q_CMD_READ_SR1 # ys)" using receive [OF sv x(1)] by auto
  have "\<not> modifies (W25Q_CMD_READ_SR1 # ys)" by (simp add: erase_size_def hub_defs)
  then have "due (cs_high S x) \<le> due x" "sel (cs_high S x) = None"
    using deselect_due [OF ys] deselect [OF ys] by (auto simp: cs_high_def)
  then show ?thesis using v x u read_status [OF sv x(1)] busy_due [of x] by (fastforce simp: spi_tx_def spi_rx_def u_def)
qed

lemma wait_prompt: "sel w = None \<Longrightarrow> due w < n \<Longrightarrow> fst (wait_turns S n w)"
proof (induction n arbitrary: w)
  case (Suc n)
  obtain sr v x where x: "spi_tx S [W25Q_CMD_READ_SR1] (cs_low S (watchdog_feed S w)) = (True, v)" "spi_rx S 1 v = (Some sr, x)"
    "due (cs_high S x) \<le> due w" "sel (cs_high S x) = None" "hd sr AND W25Q_SR1_BUSY = 0 \<longleftrightarrow> due x = 0" "due x \<le> due w"
    using status_due [OF Suc.prems(1)] by (elim exE conjE) (rule that)
  show ?case
  proof (cases "hd sr AND W25Q_SR1_BUSY = 0")
    case True
    then show ?thesis using x by (simp add: Let_def)
  next
    case False
    have "0 < due w" using False x(5,6) by linarith
    then have "due (HAL_Delay_1 S (cs_high S x)) < n" using delay_due [of "cs_high S x"] x(3) Suc.prems(2) by linarith
    moreover have "sel (HAL_Delay_1 S (cs_high S x)) = None" using side_idle [OF side_members(2), of "cs_high S x"] x(4) by simp
    ultimately show ?thesis using Suc.IH x False by (simp add: Let_def)
  qed
qed simp

lemma wren_ok: "fst (wren S w)"
  using transmit_ok [of "[W25Q_CMD_WRITE_EN]" "cs_low S w"] by (auto simp: wren_def Let_def spi_tx_def split: prod.split)

lemma erase_one_ok:
  assumes "chip_idle sel busy w" "erase_size cmd \<noteq> None" "chip_time cmd \<le> tmo"
  shows "fst (erase_one S a cmd tmo w)"
proof -
  let ?cmd = "cmd # addr_bytes a"
  obtain u where u: "wren S w = (True, u)" using wren_ok [of w] by (cases "wren S w") auto
  have iu: "chip_idle sel busy u" using wren_spec [OF assms(1) u] by blast
  obtain v where v: "HAL_SPI_Transmit S ?cmd (cs_low S u) = (True, v)" using transmit_ok [of ?cmd "cs_low S u"] by (cases "HAL_SPI_Transmit S ?cmd (cs_low S u)") auto
  have "due v \<le> due u" using transmit_ok [of ?cmd "cs_low S u"] select_due [of u] v by (simp add: cs_low_def)
  then have d: "due v = 0" using iu busy_due [of u] by (simp add: chip_idle_def)
  obtain k where "k = length ?cmd" "sel v = Some (take k ?cmd)" using command [OF _ v] iu by (auto simp: chip_idle_def)
  then have sv: "sel v = Some ?cmd" by simp
  have "due (cs_high S v) \<le> tmo" using deselect_due [OF sv] d assms(3) by (auto simp: cs_high_def split: if_splits)
  moreover have "sel (cs_high S v) = None" using deselect [OF sv] by (simp add: cs_high_def)
  ultimately show ?thesis using u v wait_prompt [of "cs_high S v" "tmo + 1"]
    by (simp add: erase_one_def spi_cmd_addr_def spi_tx_def wait_not_busy_def del: wait_turns.simps)
qed

lemma erase_loop_ok:
  assumes "chip_idle sel busy w" "unat a + n \<le> CHIP_SIZE" "unat a mod 4096 = 0" "n mod 4096 = 0"
  shows "fst (erase_loop S a n w)"
  using assms
proof (induction n arbitrary: a w rule: less_induct)
  case (less n)
  show ?case
  proof (cases "n = 0")
    case True
    then show ?thesis by (simp add: erase_loop.simps)
  next
    case False
    obtain c cmd tmo where c: "erase_choice a n = (c, cmd, tmo)" by (metis prod_cases3)
    note cs = erase_choice_spec [OF c _ less.prems(3,4)]
    have t: "chip_time cmd \<le> tmo" using c by (auto simp: erase_choice_def chip_time_def hub_defs split: if_splits)
    obtain u where u: "erase_one S a cmd tmo w = (True, u)"
      using erase_one_ok [OF less.prems(1) _ t, of a] cs(1) False by (cases "erase_one S a cmd tmo w") auto
    have c0: "0 < c" "c \<le> n" "unat a + c \<le> CHIP_SIZE" "erase_size cmd = Some c" "unat a mod c = 0" using cs False less.prems(2) by auto
    have iu: "chip_idle sel busy u" using erase_one_spec [OF less.prems(1) c0(4,3,5) u] by simp
    have a: "unat (a + of_nat c) = unat a + c" using less.prems(2) c0 by (intro unat_plus_of_nat) (simp add: CHIP_SIZE_def)
    have "(unat a + c) mod 4096 = 0" "(n - c) mod 4096 = 0"
      using less.prems(3,4) cs(6) False c0(2) by (auto simp: mod_eq_0_iff_dvd)
    then have "fst (erase_loop S (a + of_nat c) (n - c) u)" using less.IH [of "n - c" u "a + of_nat c"] iu a c0 less.prems(2) by auto
    then show ?thesis using False c u by (subst erase_loop.simps) simp
  qed
qed

lemma read_loop_ok: "fst (read_loop S a n w) \<noteq> None"
proof (induction n arbitrary: a w rule: less_induct)
  case (less n)
  show ?case
  proof (cases "n = 0")
    case False
    define c where "c = (if n > 0xFFFF then 0xFFFF else n)"
    obtain v where v: "spi_cmd_addr S W25Q_CMD_READ_DATA a (cs_low S w) = (True, v)"
      using transmit_ok by (cases "spi_cmd_addr S W25Q_CMD_READ_DATA a (cs_low S w)") (metis fst_conv spi_cmd_addr_def spi_tx_def)
    obtain bs x where x: "spi_rx S c v = (Some bs, x)" using receive_ok [of c v] by (cases "spi_rx S c v") (auto simp: spi_rx_def)
    obtain rest y where y: "read_loop S (a + of_nat c) (n - c) (cs_high S x) = (Some rest, y)"
      using less [of "n - c" "a + of_nat c" "cs_high S x"] False by (cases "read_loop S (a + of_nat c) (n - c) (cs_high S x)") (auto simp: c_def)
    show ?thesis using False v x y by (subst read_loop.simps) (simp add: Let_def c_def [symmetric])
  qed (simp add: read_loop.simps)
qed

lemma write_ok:
  assumes "chip_idle sel busy w" "length bs \<le> 256" "unat a mod 256 + length bs \<le> 256" "unat a + length bs \<le> CHIP_SIZE"
  shows "fst (w25_write S B a bs w)"
proof (cases "bs = []")
  case False
  let ?cmd = "W25Q_CMD_PAGE_PROG # addr_bytes a"
  have i0: "chip_idle sel busy (bus_take B w)" using side_idle [OF side_members(3)] assms(1) by blast
  obtain u where u: "wren S (bus_take B w) = (True, u)" using wren_ok [of "bus_take B w"] by (cases "wren S (bus_take B w)") auto
  have iu: "chip_idle sel busy u" using wren_spec [OF i0 u] by blast
  obtain v where v: "HAL_SPI_Transmit S ?cmd (cs_low S u) = (True, v)" using transmit_ok [of ?cmd "cs_low S u"] by (cases "HAL_SPI_Transmit S ?cmd (cs_low S u)") auto
  obtain x where x: "HAL_SPI_Transmit S bs v = (True, x)" using transmit_ok [of bs v] by (cases "HAL_SPI_Transmit S bs v") auto
  have "due x \<le> due u" using transmit_ok [of ?cmd "cs_low S u"] transmit_ok [of bs v] select_due [of u] v x by (simp add: cs_low_def)
  then have d: "due x = 0" using iu busy_due [of u] by (simp add: chip_idle_def)
  obtain k where "k = length ?cmd" "sel v = Some (take k ?cmd)" using command [OF _ v] iu by (auto simp: chip_idle_def)
  then have "sel v = Some ?cmd" by simp
  then have sx: "sel x = Some (?cmd @ bs)" using transmit [OF _ x] by auto
  have "due (cs_high S x) \<le> 3" using deselect_due [OF sx] d by (auto simp: cs_high_def chip_time_def split: if_splits)
  moreover have "sel (cs_high S x) = None" using deselect [OF sx] by (simp add: cs_high_def)
  ultimately have "fst (wait_turns S (W25Q_TMO_PROG + 1) (cs_high S x))" by (intro wait_prompt) (simp_all add: hub_defs)
  moreover have "unat a < CHIP_SIZE" using assms(4) False by (simp flip: length_greater_0_conv)
  ultimately show ?thesis using assms False u v x
    by (auto simp: w25_write_def CHIP_SIZE_def spi_cmd_addr_def spi_tx_def wait_not_busy_def hub_defs split: prod.splits simp del: wait_turns.simps)
qed (simp add: w25_write_def)

lemma calls_ok:
  assumes idle: "chip_idle sel busy w"
  shows "unat a + n \<le> CHIP_SIZE \<Longrightarrow> fst (w25_read S B a n w) = Some (mem_bytes (mem w) (unat a) n)"
    and "0 < n \<Longrightarrow> unat a mod 4096 = 0 \<Longrightarrow> n mod 4096 = 0 \<Longrightarrow> unat a + n \<le> CHIP_SIZE \<Longrightarrow> fst (w25_erase S B a n w)"
    and "unat a mod 256 + length bs \<le> 256 \<Longrightarrow> unat a + length bs \<le> CHIP_SIZE \<Longrightarrow> fst (w25_write S B a bs w)"
proof -
  show "fst (w25_read S B a n w) = Some (mem_bytes (mem w) (unat a) n)" if fit: "unat a + n \<le> CHIP_SIZE"
  proof (cases "n = 0")
    case False
    then have "fst (w25_read S B a n w) = fst (read_loop S a n (bus_take B w))"
      using fit by (auto simp: w25_read_def hub_defs CHIP_SIZE_def split: prod.split)
    then obtain bs where "w25_read S B a n w = (Some bs, snd (w25_read S B a n w))"
      using read_loop_ok by (metis not_None_eq prod.collapse)
    then show ?thesis using read_spec [OF idle] by (metis fst_conv)
  qed (simp add: w25_read_def mem_bytes_def)
  show "fst (w25_erase S B a n w)" if e: "0 < n" "unat a mod 4096 = 0" "n mod 4096 = 0" "unat a + n \<le> CHIP_SIZE"
  proof -
    have "chip_idle sel busy (watchdog_feed S (bus_take B w))"
      using side_idle [OF side_members(1)] side_idle [OF side_members(3)] idle by blast
    from erase_loop_ok [OF this e(4,2,3)] show ?thesis
      using e by (auto simp: w25_erase_def hub_defs CHIP_SIZE_def split: prod.splits)
  qed
  show "fst (w25_write S B a bs w)" if "unat a mod 256 + length bs \<le> 256" "unat a + length bs \<le> CHIP_SIZE"
    using write_ok [OF idle _ that] that by simp
qed

end

context w25_chip
begin

lemmas driver_flash = nor.nor_flash_axioms

end

section \<open>A chip\<close>

text \<open>A model of the chip, on which both locales hold.\<close>

record sim_chip =
  sc_mem :: "nat \<Rightarrow> u8"
  sc_sel :: "u8 list option"
  sc_wel :: bool
  sc_due :: nat

definition addr24 :: "u8 list \<Rightarrow> nat" where
  "addr24 bs = unat (bs ! 0) * 65536 + unat (bs ! 1) * 256 + unat (bs ! 2)"

definition sim_array :: "u8 list \<Rightarrow> (nat \<Rightarrow> u8) \<Rightarrow> nat \<Rightarrow> u8" where
  "sim_array xs m =
     (let a = addr24 (tl xs); d = drop 4 xs in
      case erase_size (hd xs) of
        Some n \<Rightarrow> \<lambda>i. if a \<le> i \<and> i < a + n then 0xFF else m i
      | None \<Rightarrow> \<lambda>i. if a \<le> i \<and> i < a + length d then m i AND d ! (i - a) else m i)"

definition sim_deselect :: "sim_chip \<Rightarrow> sim_chip" where
  "sim_deselect c =
     (case sc_sel c of
        None \<Rightarrow> c
      | Some xs \<Rightarrow>
          let c = c\<lparr>sc_sel := None\<rparr> in
          if 0 < sc_due c then c
          else if xs = [W25Q_CMD_WRITE_EN] then c\<lparr>sc_wel := True\<rparr>
          else if modifies xs \<and> sc_wel c then c\<lparr>sc_mem := sim_array xs (sc_mem c), sc_wel := False, sc_due := chip_time (hd xs)\<rparr>
          else c)"

definition sim_answer :: "nat \<Rightarrow> sim_chip \<Rightarrow> u8 list" where
  "sim_answer n c =
     (case sc_sel c of
        Some (cmd # xs) \<Rightarrow>
          if cmd = W25Q_CMD_READ_DATA \<and> length xs = 3 \<and> sc_due c = 0 then mem_bytes (sc_mem c) (addr24 xs) n
          else if cmd = W25Q_CMD_READ_SR1 then replicate n (if 0 < sc_due c then 1 else 0)
          else if cmd = W25Q_CMD_JEDEC_ID then take n ([0xEF, 0x40, 0x18] @ replicate n 0)
          else replicate n 0xFF
      | _ \<Rightarrow> replicate n 0xFF)"

definition sim_spi :: "sim_chip spi_hw" where
  "sim_spi = \<lparr>cs_pin = \<lambda>v c. if v then sim_deselect c else c\<lparr>sc_sel := Some []\<rparr>,
     HAL_SPI_Transmit = \<lambda>d c. (True, c\<lparr>sc_sel := map_option (\<lambda>xs. xs @ d) (sc_sel c)\<rparr>),
     HAL_SPI_Receive = \<lambda>n c. (Some (sim_answer n c), c\<lparr>sc_sel := map_option (\<lambda>xs. xs @ replicate n 0) (sc_sel c)\<rparr>),
     HAL_Delay_1 = \<lambda>c. c\<lparr>sc_due := sc_due c - 1\<rparr>, watchdog_feed = \<lambda>c. c, spi1_init = \<lambda>c. c\<rparr>"

definition no_bus :: "'w w25_bus" where
  "no_bus = w25qxx_set_bus_lock None None"

lemma sim_spi_sel [simp]:
  "cs_pin sim_spi v c = (if v then sim_deselect c else c\<lparr>sc_sel := Some []\<rparr>)"
  "HAL_SPI_Transmit sim_spi d c = (True, c\<lparr>sc_sel := map_option (\<lambda>xs. xs @ d) (sc_sel c)\<rparr>)"
  "HAL_SPI_Receive sim_spi n c = (Some (sim_answer n c), c\<lparr>sc_sel := map_option (\<lambda>xs. xs @ replicate n 0) (sc_sel c)\<rparr>)"
  "HAL_Delay_1 sim_spi c = c\<lparr>sc_due := sc_due c - 1\<rparr>" "watchdog_feed sim_spi c = c"
  by (simp_all add: sim_spi_def)

lemma addr24_bytes:
  assumes "unat a < CHIP_SIZE"
  shows "addr24 (addr_bytes a) = unat a"
proof -
  have "unat (ucast (drop_bit k a) :: u8) = unat a div 2 ^ k mod 256" for k
    using drop_bit_eq_div [of k "unat a"] by (simp add: unsigned_ucast_eq unat_drop_bit_eq take_bit_eq_mod)
  from this [of 16] this [of 8] this [of 0]
  have "addr24 (addr_bytes a) = unat a div 65536 * 65536 + unat a div 256 mod 256 * 256 + unat a mod 256"
    using assms by (simp add: addr24_def addr_bytes_def CHIP_SIZE_def)
  also have "\<dots> = (unat a div 256 div 256 * 256 + unat a div 256 mod 256) * 256 + unat a mod 256"
    by (simp add: algebra_simps flip: div_mult2_eq)
  also have "\<dots> = unat a" by (simp only: div_mult_mod_eq)
  finally show ?thesis .
qed

lemma length_addr_bytes [simp]: "length (addr_bytes a) = 3" "drop 3 (addr_bytes a @ d) = d"
  by (simp_all add: addr_bytes_def numeral_3_eq_3)

lemma addr24_append [simp]: "addr24 (addr_bytes a @ d) = addr24 (addr_bytes a)"
  by (simp add: addr24_def addr_bytes_def)

lemma side_calls_sim: "f \<in> side_calls sim_spi no_bus \<Longrightarrow> f c = c \<or> f c = c\<lparr>sc_due := sc_due c - 1\<rparr>"
  by (auto simp: side_calls_def bus_take_def bus_give_def no_bus_def w25qxx_set_bus_lock_def)

lemma erase_size_pos: "erase_size cmd = Some n \<Longrightarrow> 0 < n \<and> cmd \<noteq> W25Q_CMD_PAGE_PROG \<and> cmd \<noteq> W25Q_CMD_WRITE_EN"
  by (auto simp: erase_size_def hub_defs split: if_splits)

interpretation chip: w25_prompt sim_spi no_bus sc_mem sc_sel sc_wel "\<lambda>c. 0 < sc_due c" sc_due
proof unfold_locales
  show "f \<in> side_calls sim_spi no_bus \<Longrightarrow> sc_sel (f w) = sc_sel w \<and> calm sc_mem sc_wel (\<lambda>c. 0 < sc_due c) w (f w)" for f w
    using side_calls_sim [of f w] by (auto simp: calm_def)
  show "f \<in> side_calls sim_spi no_bus \<Longrightarrow> sc_due (f w) \<le> sc_due w" for f w
    using side_calls_sim [of f w] by auto
  show "sc_sel w = Some (W25Q_CMD_READ_DATA # addr_bytes a) \<Longrightarrow> \<not> 0 < sc_due w \<Longrightarrow> unat a + n \<le> CHIP_SIZE
      \<Longrightarrow> HAL_SPI_Receive sim_spi n w = (Some bs, w') \<Longrightarrow> bs = mem_bytes (sc_mem w) (unat a) n" for w a n bs w'
    using addr24_bytes [of a] by (cases "n = 0") (auto simp: sim_answer_def mem_bytes_def)
  show "sc_sel w = Some (W25Q_CMD_PAGE_PROG # addr_bytes a @ d) \<Longrightarrow> \<not> 0 < sc_due w \<Longrightarrow> sc_wel w \<Longrightarrow> unat a + length d \<le> CHIP_SIZE
      \<Longrightarrow> unat a mod 256 + length d \<le> 256 \<Longrightarrow> d \<noteq> [] \<Longrightarrow> sc_mem (cs_pin sim_spi True w)
        = (\<lambda>i. if unat a \<le> i \<and> i < unat a + length d then sc_mem w i AND d ! (i - unat a) else sc_mem w i)" for w a d
    using addr24_bytes [of a] by (cases d) (auto simp: sim_deselect_def sim_array_def Let_def erase_size_def hub_defs)
  show "sc_sel w = Some (cmd # addr_bytes a) \<Longrightarrow> erase_size cmd = Some n \<Longrightarrow> \<not> 0 < sc_due w \<Longrightarrow> sc_wel w \<Longrightarrow> unat a + n \<le> CHIP_SIZE
      \<Longrightarrow> unat a mod n = 0 \<Longrightarrow> sc_mem (cs_pin sim_spi True w) = (\<lambda>i. if unat a \<le> i \<and> i < unat a + n then 0xFF else sc_mem w i)" for w cmd a n
    using addr24_bytes [of a] erase_size_pos [of cmd n] by (auto simp: sim_deselect_def sim_array_def Let_def)
qed (auto simp: calm_def sim_deselect_def sim_answer_def Let_def erase_size_def hub_defs split: option.splits list.splits if_splits)

section \<open>Theorems\<close>

text \<open>
  (C32) The SPI driver implements the flash interface: as long as the chip is not left busy by a failed call, a read returns
  what is stored, an erase leaves \<open>0xFF\<close> and a program only clears bits; whatever the HAL reports, even
  a command cut off in the middle, no cell outside the range of the call changes. All that is proved over
  \<open>nor_flash\<close> holds on this driver.
\<close>

theorem w25_implements_flash:
  assumes "w25_chip S B mem sel wel busy"
  shows "nor_flash (flash_when (chip_idle sel busy) (w25qxx_flash S B)) mem
    \<and> (\<forall>w a n. chip_idle sel busy w \<longrightarrow> chip_idle sel busy (snd (fl_read (w25qxx_flash S B) a n w))
        \<and> (fst (fl_erase (w25qxx_flash S B) a n w) \<longrightarrow> chip_idle sel busy (snd (fl_erase (w25qxx_flash S B) a n w))))
    \<and> (\<forall>w a bs. chip_idle sel busy w \<longrightarrow> fst (fl_write (w25qxx_flash S B) a bs w)
        \<longrightarrow> chip_idle sel busy (snd (fl_write (w25qxx_flash S B) a bs w)))"
proof -
  have "nor_flash (flash_when (chip_idle sel busy) (w25_backend S B)) mem" by (rule w25_chip.driver_flash [OF assms])
  moreover have "chip_idle sel busy (snd (w25_read S B a n w))"
      "fst (w25_erase S B a n w) \<longrightarrow> chip_idle sel busy (snd (w25_erase S B a n w))"
      "fst (w25_write S B a bs w) \<longrightarrow> chip_idle sel busy (snd (w25_write S B a bs w))" if "chip_idle sel busy w" for w a n bs
    using w25_chip.read_spec [OF assms that prod.collapse [symmetric]] w25_chip.erase_spec [OF assms that prod.collapse [symmetric]]
      w25_chip.write_spec [OF assms that prod.collapse [symmetric]] by blast+
  ultimately show ?thesis by (simp add: w25qxx_flash_def)
qed

text \<open>
  On a bus without errors and a chip that keeps the times of its data sheet no call within the rules fails: the
  timeouts are long enough for each command and the erase loop ends with the whole range erased.
\<close>

theorem w25_calls_succeed:
  assumes "w25_prompt S B mem sel wel busy due" "chip_idle sel busy w"
  shows "(unat a + n \<le> CHIP_SIZE \<longrightarrow> fst (w25_read S B a n w) = Some (mem_bytes (mem w) (unat a) n))
    \<and> (0 < n \<longrightarrow> unat a mod 4096 = 0 \<longrightarrow> n mod 4096 = 0 \<longrightarrow> unat a + n \<le> CHIP_SIZE \<longrightarrow> fst (w25_erase S B a n w))
    \<and> (unat a mod 256 + length bs \<le> 256 \<longrightarrow> unat a + length bs \<le> CHIP_SIZE \<longrightarrow> fst (w25_write S B a bs w))"
  by (intro conjI impI) (rule w25_prompt.calls_ok [OF assms]; assumption)+

definition blank_chip :: sim_chip where
  "blank_chip = \<lparr>sc_mem = \<lambda>i. 0, sc_sel = None, sc_wel = False, sc_due = 0\<rparr>"

lemma sim_chip_ok: "w25_prompt sim_spi no_bus sc_mem sc_sel sc_wel (\<lambda>c. 0 < sc_due c) sc_due"
  by (rule chip.w25_prompt_axioms)

theorem w25_implements_flash_witness:
  "nor_flash (flash_when (chip_idle sc_sel (\<lambda>c. 0 < sc_due c)) (w25qxx_flash sim_spi no_bus)) sc_mem"
  using w25_implements_flash [OF w25_prompt.axioms(1) [OF sim_chip_ok]] by blast

theorem w25_calls_succeed_witness:
  "chip_idle sc_sel (\<lambda>c. 0 < sc_due c) blank_chip \<and> fst (w25_read sim_spi no_bus 0x123 70000 blank_chip) = Some (replicate 70000 0)
    \<and> fst (w25_erase sim_spi no_bus 0xF0000 0x20000 blank_chip) \<and> fst (w25_write sim_spi no_bus 0xE0010 [1, 2, 3] blank_chip)"
proof -
  have i: "chip_idle sc_sel (\<lambda>c. 0 < sc_due c) blank_chip" by (simp add: chip_idle_def blank_chip_def)
  note ok = w25_calls_succeed [OF sim_chip_ok i]
  have "mem_bytes (sc_mem blank_chip) 0x123 70000 = replicate 70000 0"
    by (rule mem_bytes_eqI) (simp_all add: blank_chip_def)
  then show ?thesis using i ok [of "0x123" 70000 "[]"] ok [of "0xF0000" "0x20000" "[]"] ok [of "0xE0010" 0 "[1, 2, 3]"]
    by (simp add: CHIP_SIZE_def)
qed

end
