(* ===== verification/Lfs_Port.thy ===== *)
theory Lfs_Port
  imports Flash_Map W25q
begin

unbundle bit_operations_syntax

text \<open>
  \<open>src/storage/lfs_port.c\<close>: the block device that littlefs works on, the last 15 MiB of the NOR flash in
  blocks of 4 KiB, and mounting. A size is the length of the buffer; \<open>True\<close> is the result 0 and
  \<open>False\<close> (or \<open>None\<close>) is \<open>LFS_ERR_IO\<close>. littlefs itself is a parameter: \<open>lfs_mount\<close> and \<open>lfs_format\<close>.
\<close>

definition LFS_OFFSET :: u32 where [hub_defs]: "LFS_OFFSET = 0xF0000"
definition LFS_SIZE :: u32 where [hub_defs]: "LFS_SIZE = 0x1000000 - LFS_OFFSET"
definition PORT_BLOCK_SIZE :: u32 where [hub_defs]: "PORT_BLOCK_SIZE = 4096"
definition PORT_BLOCKS :: u32 where [hub_defs]: "PORT_BLOCKS = LFS_SIZE div PORT_BLOCK_SIZE"
definition PORT_READ_SIZE :: nat where [hub_defs]: "PORT_READ_SIZE = 16"
definition PORT_PROG_SIZE :: nat where [hub_defs]: "PORT_PROG_SIZE = 16"
definition PORT_CACHE_SIZE :: nat where [hub_defs]: "PORT_CACHE_SIZE = 1024"
definition PORT_LOOKAHEAD :: nat where [hub_defs]: "PORT_LOOKAHEAD = 32"
definition PORT_CYCLES :: int where [hub_defs]: "PORT_CYCLES = 512"

record 'w lfs_config =
  lc_read :: "u32 \<Rightarrow> u32 \<Rightarrow> nat \<Rightarrow> 'w \<Rightarrow> u8 list option \<times> 'w"
  lc_prog :: "u32 \<Rightarrow> u32 \<Rightarrow> u8 list \<Rightarrow> 'w \<Rightarrow> bool \<times> 'w"
  lc_erase :: "u32 \<Rightarrow> 'w \<Rightarrow> bool \<times> 'w"
  lc_sync :: "'w \<Rightarrow> bool \<times> 'w"
  lc_read_size :: nat
  lc_prog_size :: nat
  lc_block_size :: u32
  lc_block_count :: u32
  lc_block_cycles :: int
  lc_cache_size :: nat
  lc_lookahead_size :: nat

definition block_addr :: "u32 \<Rightarrow> u32 \<Rightarrow> u32" where
  "block_addr block off = LFS_OFFSET + block * PORT_BLOCK_SIZE + off"

definition out_of_block :: "u32 \<Rightarrow> u32 \<Rightarrow> nat \<Rightarrow> bool" where
  "out_of_block block off len \<longleftrightarrow> block \<ge> PORT_BLOCKS \<or> off > PORT_BLOCK_SIZE \<or> len > unat (PORT_BLOCK_SIZE - off)"

text \<open>The loop over pages is the one of the flash map, character for character.\<close>

definition lf_prog :: "'w io_flash \<Rightarrow> u32 \<Rightarrow> u32 \<Rightarrow> u8 list \<Rightarrow> 'w \<Rightarrow> bool \<times> 'w" where
  "lf_prog F block off buffer w =
     (if out_of_block block off (length buffer) then (False, w) else area_pages F (block_addr block off) buffer w)"

definition lf_read :: "'w io_flash \<Rightarrow> u32 \<Rightarrow> u32 \<Rightarrow> nat \<Rightarrow> 'w \<Rightarrow> u8 list option \<times> 'w" where
  "lf_read F block off len w =
     (if out_of_block block off len then (None, w) else fl_read F (block_addr block off) len w)"

definition lf_erase :: "('w \<Rightarrow> 'w) \<Rightarrow> 'w io_flash \<Rightarrow> u32 \<Rightarrow> 'w \<Rightarrow> bool \<times> 'w" where
  "lf_erase feed F block w =
     (let w = feed w
      in if block \<ge> PORT_BLOCKS then (False, w) else fl_erase F (block_addr block 0) (unat PORT_BLOCK_SIZE) w)"

definition lf_sync :: "'w \<Rightarrow> bool \<times> 'w" where
  "lf_sync w = (True, w)"

definition port_cfg :: "('w \<Rightarrow> 'w) \<Rightarrow> 'w io_flash \<Rightarrow> 'w lfs_config" where
  "port_cfg feed F = \<lparr>lc_read = lf_read F, lc_prog = lf_prog F, lc_erase = lf_erase feed F, lc_sync = lf_sync,
     lc_read_size = PORT_READ_SIZE, lc_prog_size = PORT_PROG_SIZE, lc_block_size = PORT_BLOCK_SIZE, lc_block_count = PORT_BLOCKS,
     lc_block_cycles = PORT_CYCLES, lc_cache_size = PORT_CACHE_SIZE, lc_lookahead_size = PORT_LOOKAHEAD\<rparr>"

definition lfs_port_mount :: "('w lfs_config \<Rightarrow> 'w \<Rightarrow> int \<times> 'w) \<Rightarrow> ('w lfs_config \<Rightarrow> 'w \<Rightarrow> int \<times> 'w) \<Rightarrow> ('w \<Rightarrow> 'w)
    \<Rightarrow> 'w io_flash option \<Rightarrow> 'w \<Rightarrow> bool \<times> 'w" where
  "lfs_port_mount lfs_mount lfs_format feed flash w =
     (case flash of
        None \<Rightarrow> (False, w)
      | Some F \<Rightarrow>
          let cfg = port_cfg feed F;
              (rc, w) = lfs_mount cfg w;
              (rc, w) = (if rc \<noteq> 0
                then let (rc, w) = lfs_format cfg (feed w); w = feed w in if rc = 0 then lfs_mount cfg w else (rc, w)
                else (rc, w))
          in (rc = 0, w))"

section \<open>What littlefs relies on\<close>

text \<open>
  A block device: cells addressed by block and offset. A call touches only its own range, an erase leaves
  \<open>0xFF\<close>, and bytes programmed into erased cells are there.
\<close>

definition cells :: "('w \<Rightarrow> nat \<Rightarrow> nat \<Rightarrow> u8) \<Rightarrow> 'w \<Rightarrow> nat \<Rightarrow> nat \<Rightarrow> nat \<Rightarrow> u8 list" where
  "cells cell w b off n = map (\<lambda>i. cell w b (off + i)) [0..<n]"

text \<open>The pieces that littlefs programs into one block, one after the other, each an offset and its bytes; no two of them overlap.\<close>

primrec prog_all :: "'w lfs_config \<Rightarrow> u32 \<Rightarrow> (u32 \<times> u8 list) list \<Rightarrow> 'w \<Rightarrow> bool \<times> 'w" where
  "prog_all D b [] w = (True, w)"
| "prog_all D b (p # ps) w = (case lc_prog D b (fst p) (snd p) w of (ok, w) \<Rightarrow> if ok then prog_all D b ps w else (False, w))"

definition outside :: "nat \<Rightarrow> u32 \<times> u8 list \<Rightarrow> bool" where
  "outside i p \<longleftrightarrow> i < unat (fst p) \<or> unat (fst p) + length (snd p) \<le> i"

primrec pieces_apart :: "(u32 \<times> u8 list) list \<Rightarrow> bool" where
  "pieces_apart [] = True"
| "pieces_apart (p # ps) = (list_all (\<lambda>q. unat (fst p) + length (snd p) \<le> unat (fst q) \<or> unat (fst q) + length (snd q) \<le> unat (fst p)) ps \<and> pieces_apart ps)"

locale block_device =
  fixes D :: "'w lfs_config" and cell :: "'w \<Rightarrow> nat \<Rightarrow> nat \<Rightarrow> u8"
  assumes dev_read: "lc_read D b off n w = (r, w') \<Longrightarrow> cell w' = cell w \<and> (\<forall>bs. r = Some bs \<longrightarrow> bs = cells cell w (unat b) (unat off) n)"
    and dev_erase: "lc_erase D b w = (ok, w') \<Longrightarrow> (\<forall>c i. c \<noteq> unat b \<longrightarrow> i < 4096 \<longrightarrow> cell w' c i = cell w c i)
      \<and> (ok \<longrightarrow> (\<forall>i<4096. cell w' (unat b) i = 0xFF))"
    and dev_prog: "lc_prog D b off bs w = (ok, w')
      \<Longrightarrow> (\<forall>c i. i < 4096 \<longrightarrow> c \<noteq> unat b \<or> i < unat off \<or> unat off + length bs \<le> i \<longrightarrow> cell w' c i = cell w c i)
      \<and> (ok \<longrightarrow> cells cell w (unat b) (unat off) (length bs) = replicate (length bs) 0xFF
          \<longrightarrow> cells cell w' (unat b) (unat off) (length bs) = bs)"
begin

abbreviation piece_cells :: "'w \<Rightarrow> u32 \<Rightarrow> u32 \<times> u8 list \<Rightarrow> u8 list" where
  "piece_cells w b p \<equiv> cells cell w (unat b) (unat (fst p)) (length (snd p))"

lemma piece_cells_eq:
  assumes "\<And>i. i < 4096 \<Longrightarrow> \<not> outside i p \<Longrightarrow> cell w' (unat b) i = cell w (unat b) i" "unat (fst p) + length (snd p) \<le> 4096"
  shows "piece_cells w' b p = piece_cells w b p"
  using assms(2) by (auto simp: cells_def outside_def intro!: assms(1))

lemma prog_all_spec:
  "prog_all D b ps w = (True, w') \<Longrightarrow> pieces_apart ps \<Longrightarrow> \<forall>p\<in>set ps. unat (fst p) + length (snd p) \<le> 4096
    \<Longrightarrow> \<forall>p\<in>set ps. piece_cells w b p = replicate (length (snd p)) 0xFF
    \<Longrightarrow> (\<forall>p\<in>set ps. piece_cells w' b p = snd p) \<and> (\<forall>i<4096. (\<forall>p\<in>set ps. outside i p) \<longrightarrow> cell w' (unat b) i = cell w (unat b) i)"
proof (induction ps arbitrary: w)
  case (Cons p ps)
  obtain w1 where w1: "lc_prog D b (fst p) (snd p) w = (True, w1)" and rest: "prog_all D b ps w1 = (True, w')"
    using Cons.prems(1) by (auto split: prod.splits if_splits)
  have f1: "cell w1 (unat b) i = cell w (unat b) i" if "i < 4096" "outside i p" for i
    using dev_prog [OF w1] that unfolding outside_def by blast
  have p1: "piece_cells w1 b p = snd p" using dev_prog [OF w1] Cons.prems(4) by simp
  have apart: "outside i p" if "q \<in> set ps" "\<not> outside i q" for i q
    using Cons.prems(2) that by (auto simp: outside_def list_all_iff)
  have "piece_cells w1 b q = piece_cells w b q" if "q \<in> set ps" for q
    by (rule piece_cells_eq) (use that f1 apart Cons.prems(3) in auto)
  then have r: "(\<forall>q\<in>set ps. piece_cells w' b q = snd q) \<and> (\<forall>i<4096. (\<forall>q\<in>set ps. outside i q) \<longrightarrow> cell w' (unat b) i = cell w1 (unat b) i)"
    using Cons.prems by (intro Cons.IH [OF rest]) auto
  have "cell w' (unat b) i = cell w1 (unat b) i" if "i < 4096" "\<not> outside i p" for i
    using r apart that by blast
  then have "piece_cells w' b p = piece_cells w1 b p" by (rule piece_cells_eq) (use Cons.prems(3) in auto)
  then show ?case using r p1 f1 by auto
qed simp

lemma erase_prog_read:
  assumes "lc_erase D b w = (True, w1)" "prog_all D b ps w1 = (True, w2)" "pieces_apart ps" "\<forall>p\<in>set ps. unat (fst p) + length (snd p) \<le> 4096"
  shows "(\<forall>p\<in>set ps. piece_cells w2 b p = snd p) \<and> (\<forall>i<4096. (\<forall>p\<in>set ps. outside i p) \<longrightarrow> cell w2 (unat b) i = 0xFF)"
proof -
  have e: "\<forall>i<4096. cell w1 (unat b) i = 0xFF" using dev_erase [OF assms(1)] by blast
  then have "piece_cells w1 b p = replicate (length (snd p)) 0xFF" if "p \<in> set ps" for p
    using assms(4) that by (intro nth_equalityI) (auto simp: cells_def)
  then show ?thesis using prog_all_spec [OF assms(2-4)] e by simp
qed

end

definition lfs_cell :: "('w \<Rightarrow> nat \<Rightarrow> u8) \<Rightarrow> 'w \<Rightarrow> nat \<Rightarrow> nat \<Rightarrow> u8" where
  "lfs_cell mem w b i = mem w (0xF0000 + b * 4096 + i)"

lemma unat_block_addr:
  assumes "\<not> out_of_block b off n"
  shows "unat (block_addr b off) = 0xF0000 + unat b * 4096 + unat off" "unat off + n \<le> 4096" "unat b < 3856"
proof -
  have z: "unat PORT_BLOCKS = 3856" "unat PORT_BLOCK_SIZE = 4096" by (simp_all add: hub_defs)
  have b: "unat b < 3856" "off \<le> PORT_BLOCK_SIZE" using assms by (auto simp: out_of_block_def word_le_nat_alt word_less_nat_alt z)
  then have o: "unat off \<le> 4096" by (simp add: word_le_nat_alt z)
  have "unat (PORT_BLOCK_SIZE - off) = 4096 - unat off" using b(2) by (simp add: unat_sub z)
  then show n: "unat off + n \<le> 4096" using assms o by (auto simp: out_of_block_def)
  show "unat b < 3856" by (rule b(1))
  show "unat (block_addr b off) = 0xF0000 + unat b * 4096 + unat off"
    using b(1) o by (simp add: block_addr_def hub_defs unat_word_ariths)
qed

lemma cells_mem: "cells (lfs_cell mem) w b off n = mem_bytes (mem w) (0xF0000 + b * 4096 + off) n"
  by (rule nth_equalityI) (simp_all add: cells_def lfs_cell_def add.assoc)

lemma other_block:
  assumes "c \<noteq> b" "i < 4096" "off + n \<le> (4096 :: nat)"
  shows "a + c * 4096 + i < a + b * 4096 + off \<or> a + b * 4096 + off + n \<le> a + c * 4096 + i"
proof (cases "c < b")
  case True
  then have "Suc c * 4096 \<le> b * 4096" by (intro mult_le_mono1) simp
  then show ?thesis using assms by simp
next
  case False
  then have "Suc b * 4096 \<le> c * 4096" using assms(1) by (intro mult_le_mono1) simp
  then show ?thesis using assms by simp
qed

context nor_flash
begin

lemma lf_read_spec:
  assumes "lf_read F b off n w = (r, w')"
  shows "mem w' = mem w \<and> (\<forall>bs. r = Some bs \<longrightarrow> bs = mem_bytes (mem w) (0xF0000 + unat b * 4096 + unat off) n)"
proof (cases "out_of_block b off n")
  case True
  then show ?thesis using assms by (simp add: lf_read_def)
next
  case False
  then have "fl_read F (block_addr b off) n w = (r, w')" using assms by (simp add: lf_read_def)
  from read_mem [OF this] read_data [of "block_addr b off" n w _ w'] this show ?thesis using unat_block_addr(1) [OF False] by auto
qed

lemma lf_prog_spec:
  assumes "lf_prog F b off bs w = (ok, w')" and a: "a = 0xF0000 + unat b * 4096 + unat off"
  shows "(\<forall>i. i < a \<or> a + length bs \<le> i \<longrightarrow> mem w' i = mem w i)
    \<and> (ok \<longrightarrow> mem_bytes (mem w) a (length bs) = replicate (length bs) 0xFF \<longrightarrow> mem_bytes (mem w') a (length bs) = bs)
    \<and> (mem w' = mem w \<or> unat off + length bs \<le> 4096)"
proof (cases "out_of_block b off (length bs)")
  case True
  then show ?thesis using assms(1) by (simp add: lf_prog_def)
next
  case False
  have w: "write_pages F (block_addr b off) bs w = (ok, w')" using assms(1) False by (simp add: lf_prog_def area_pages_write_pages)
  note u = unat_block_addr [OF False]
  have s: "unat (block_addr b off) + length bs < 2 ^ 32" using u by simp
  show ?thesis using write_pages_frame [OF w s] write_pages_data [of "block_addr b off" bs w w'] w s u(1,2) a by auto
qed

lemma lf_erase_spec:
  assumes "lf_erase feed F b w = (ok, w')" "\<And>w. mem (feed w) = mem w"
  shows "(\<forall>i. i < 0xF0000 + unat b * 4096 \<or> 0xF0000 + unat b * 4096 + 4096 \<le> i \<longrightarrow> mem w' i = mem w i)
    \<and> (ok \<longrightarrow> (\<forall>i<4096. mem w' (0xF0000 + unat b * 4096 + i) = 0xFF))"
proof (cases "b \<ge> PORT_BLOCKS")
  case True
  then show ?thesis using assms by (auto simp: lf_erase_def Let_def)
next
  case False
  then have "\<not> out_of_block b 0 0" by (simp add: out_of_block_def)
  from unat_block_addr(1) [OF this] have u: "unat (block_addr b 0) = 0xF0000 + unat b * 4096" by simp
  have "unat PORT_BLOCK_SIZE = 4096" by (simp add: hub_defs)
  then have e: "fl_erase F (block_addr b 0) 4096 (feed w) = (ok, w')" using assms(1) False by (simp add: lf_erase_def Let_def)
  show ?thesis using erase_frame [OF e] erase_data [of "block_addr b 0" 4096 "feed w" w'] e u assms(2) by auto
qed

lemma port_block_device:
  assumes feed: "\<And>w. mem (feed w) = mem w"
  shows "block_device (port_cfg feed F) (lfs_cell mem)"
proof
  show "lc_read (port_cfg feed F) b off n w = (r, w')
      \<Longrightarrow> lfs_cell mem w' = lfs_cell mem w \<and> (\<forall>bs. r = Some bs \<longrightarrow> bs = cells (lfs_cell mem) w (unat b) (unat off) n)" for b off n w r w'
    using lf_read_spec [of b off n w r w'] by (auto simp: port_cfg_def cells_mem lfs_cell_def fun_eq_iff)
  show "(\<forall>c i. c \<noteq> unat b \<longrightarrow> i < 4096 \<longrightarrow> lfs_cell mem w' c i = lfs_cell mem w c i)
      \<and> (ok \<longrightarrow> (\<forall>i<4096. lfs_cell mem w' (unat b) i = 0xFF))"
    if e: "lc_erase (port_cfg feed F) b w = (ok, w')" for b w ok w'
  proof -
    have l: "lf_erase feed F b w = (ok, w')" using e by (simp add: port_cfg_def)
    have "lfs_cell mem w' c i = lfs_cell mem w c i" if "c \<noteq> unat b" "i < 4096" for c i
      unfolding lfs_cell_def
      by (rule conjunct1 [OF lf_erase_spec [OF l feed], rule_format]) (use other_block [OF that, of 0 4096 "0xF0000"] in simp)
    then show ?thesis using lf_erase_spec [OF l feed] by (simp add: lfs_cell_def)
  qed
  show "(\<forall>c i. i < 4096 \<longrightarrow> c \<noteq> unat b \<or> i < unat off \<or> unat off + length bs \<le> i \<longrightarrow> lfs_cell mem w' c i = lfs_cell mem w c i)
      \<and> (ok \<longrightarrow> cells (lfs_cell mem) w (unat b) (unat off) (length bs) = replicate (length bs) 0xFF
          \<longrightarrow> cells (lfs_cell mem) w' (unat b) (unat off) (length bs) = bs)"
    if "lc_prog (port_cfg feed F) b off bs w = (ok, w')" for b off bs w ok w'
  proof -
    note p = lf_prog_spec [OF _ refl, of b off bs w ok w']
    have "lfs_cell mem w' c i = lfs_cell mem w c i" if "i < 4096" "c \<noteq> unat b \<or> i < unat off \<or> unat off + length bs \<le> i" for c i
      using p that \<open>lc_prog (port_cfg feed F) b off bs w = (ok, w')\<close> other_block [of c "unat b" i "unat off" "length bs" "0xF0000"]
      by (cases "c = unat b") (auto simp: port_cfg_def lfs_cell_def)
    then show ?thesis using p that by (simp add: port_cfg_def cells_mem)
  qed
qed

end

section \<open>On the driver\<close>

context w25_chip
begin

text \<open>A run of successful page programs is a run on the contract of the flash.\<close>

lemma write_pages_when:
  "write_pages (w25_backend S B) a bs w = (True, w') \<Longrightarrow> chip_idle sel busy w
    \<Longrightarrow> write_pages (flash_when (chip_idle sel busy) (w25_backend S B)) a bs w = (True, w') \<and> chip_idle sel busy w'"
proof (induction a bs w rule: write_pages_induct)
  case (Step a bs w)
  obtain w1 where w1: "w25_write S B a (take (page_chunk a bs) bs) w = (True, w1)"
    and rest: "write_pages (w25_backend S B) (a + of_nat (page_chunk a bs)) (drop (page_chunk a bs) bs) w1 = (True, w')"
    using Step.prems(1) Step.hyps by (auto simp: write_pages_step split: prod.splits bool.splits)
  have "chip_idle sel busy w1" using write_spec [OF Step.prems(2) w1] by simp
  then show ?case using Step.IH [OF rest] Step.hyps Step.prems(2) w1 by (simp add: write_pages_step)
qed simp

lemma prog_when:
  assumes "lf_prog (w25qxx_flash S B) b off bs w = (True, w')" "chip_idle sel busy w"
  shows "lf_prog (flash_when (chip_idle sel busy) (w25_backend S B)) b off bs w = (True, w')" "chip_idle sel busy w'" "unat off + length bs \<le> 4096"
proof -
  have nb: "\<not> out_of_block b off (length bs)" using assms(1) by (auto simp: lf_prog_def split: if_splits)
  then have "write_pages (w25_backend S B) (block_addr b off) bs w = (True, w')"
    using assms(1) by (simp add: lf_prog_def w25qxx_flash_def area_pages_write_pages)
  from write_pages_when [OF this assms(2)]
  show "lf_prog (flash_when (chip_idle sel busy) (w25_backend S B)) b off bs w = (True, w')" "chip_idle sel busy w'"
    using nb by (simp_all add: lf_prog_def area_pages_write_pages)
  show "unat off + length bs \<le> 4096" by (rule unat_block_addr(2) [OF nb])
qed

lemma prog_all_when:
  "prog_all (port_cfg fd (w25qxx_flash S B)) b ps w = (True, w') \<Longrightarrow> chip_idle sel busy w
    \<Longrightarrow> prog_all (port_cfg fd (flash_when (chip_idle sel busy) (w25_backend S B))) b ps w = (True, w') \<and> chip_idle sel busy w'
      \<and> (\<forall>p\<in>set ps. unat (fst p) + length (snd p) \<le> 4096)
      \<and> (\<forall>i. i < 0xF0000 + unat b * 4096 \<or> 0xF0000 + unat b * 4096 + 4096 \<le> i \<longrightarrow> mem w' i = mem w i)"
proof (induction ps arbitrary: w)
  case (Cons p ps)
  obtain w1 where w1: "lf_prog (w25qxx_flash S B) b (fst p) (snd p) w = (True, w1)"
    and rest: "prog_all (port_cfg fd (w25qxx_flash S B)) b ps w1 = (True, w')"
    using Cons.prems(1) by (auto simp: port_cfg_def split: prod.splits if_splits)
  note q = prog_when [OF w1 Cons.prems(2)]
  have "mem w1 i = mem w i" if "i < 0xF0000 + unat b * 4096 \<or> 0xF0000 + unat b * 4096 + 4096 \<le> i" for i
    using nor.lf_prog_spec [OF q(1) refl] that q(3) by auto
  then show ?case using Cons.IH [OF rest q(2)] q by (simp add: port_cfg_def)
qed simp

lemma block_written:
  assumes "chip_idle sel busy w" "lf_erase (watchdog_feed S) (w25qxx_flash S B) b w = (True, w1)"
    and "prog_all (port_cfg (watchdog_feed S) (w25qxx_flash S B)) b ps w1 = (True, w2)" "pieces_apart ps"
  shows "chip_idle sel busy w2 \<and> (\<forall>p\<in>set ps. mem_bytes (mem w2) (0xF0000 + unat b * 4096 + unat (fst p)) (length (snd p)) = snd p)
    \<and> (\<forall>i<4096. (\<forall>p\<in>set ps. outside i p) \<longrightarrow> mem w2 (0xF0000 + unat b * 4096 + i) = 0xFF)
    \<and> (\<forall>i. i < 0xF0000 + unat b * 4096 \<or> 0xF0000 + unat b * 4096 + 4096 \<le> i \<longrightarrow> mem w2 i = mem w i)"
proof -
  let ?F = "flash_when (chip_idle sel busy) (w25_backend S B)" and ?D = "port_cfg (watchdog_feed S) (flash_when (chip_idle sel busy) (w25_backend S B))"
  have feed: "mem (watchdog_feed S x) = mem x" "chip_idle sel busy x \<longrightarrow> chip_idle sel busy (watchdog_feed S x)" for x
    using side_idle [OF side_members(1)] by auto
  have b: "\<not> b \<ge> PORT_BLOCKS" using assms(2) by (auto simp: lf_erase_def Let_def)
  have e: "w25_erase S B (block_addr b 0) (unat PORT_BLOCK_SIZE) (watchdog_feed S w) = (True, w1)"
    using assms(2) b by (simp add: lf_erase_def Let_def w25qxx_flash_def)
  have i1: "chip_idle sel busy w1" using erase_spec [OF _ e] feed(2) assms(1) by blast
  have e': "lf_erase (watchdog_feed S) ?F b w = (True, w1)" using e b feed(2) assms(1) by (simp add: lf_erase_def Let_def)
  then have "lc_erase ?D b w = (True, w1)" by (simp add: port_cfg_def)
  note pr = prog_all_when [OF assms(3) i1]
  have fit: "\<forall>p\<in>set ps. unat (fst p) + length (snd p) \<le> 4096" and idle2: "chip_idle sel busy w2"
    and out2: "\<forall>i. i < 0xF0000 + unat b * 4096 \<or> 0xF0000 + unat b * 4096 + 4096 \<le> i \<longrightarrow> mem w2 i = mem w1 i" using pr by blast+
  from block_device.erase_prog_read [OF nor.port_block_device [OF feed(1)] \<open>lc_erase ?D b w = (True, w1)\<close> _ assms(4) fit] pr
  have "(\<forall>p\<in>set ps. cells (lfs_cell mem) w2 (unat b) (unat (fst p)) (length (snd p)) = snd p)
    \<and> (\<forall>i<4096. (\<forall>p\<in>set ps. outside i p) \<longrightarrow> lfs_cell mem w2 (unat b) i = 0xFF)" by blast
  then show ?thesis using idle2 out2 nor.lf_erase_spec [OF e' feed(1)] unfolding cells_mem by (simp add: lfs_cell_def)
qed

lemma read_when:
  assumes "lf_read (w25qxx_flash S B) b off n w = (Some rs, w')" "chip_idle sel busy w"
  shows "rs = mem_bytes (mem w) (0xF0000 + unat b * 4096 + unat off) n" "mem w' = mem w"
proof -
  have nb: "\<not> out_of_block b off n" using assms(1) by (auto simp: lf_read_def split: if_splits)
  then have "lf_read (flash_when (chip_idle sel busy) (w25_backend S B)) b off n w = (Some rs, w')"
    using assms by (simp add: lf_read_def w25qxx_flash_def)
  from nor.lf_read_spec [OF this] show "rs = mem_bytes (mem w) (0xF0000 + unat b * 4096 + unat off) n" "mem w' = mem w" by simp_all
qed

end

text \<open>
  (C33) The block device of the file system, on the real driver and down to the commands on the SPI bus: a block that has been erased and then
  programmed in any number of pieces that do not overlap holds all of them afterwards, so that a read of each gives its bytes; the rest of the block
  is still erased, and no cell outside the block changes, so that the configuration and the firmware slots in front of the partition are safe from the file system.
\<close>

theorem lfs_block_written:
  assumes "w25_chip S B mem sel wel busy" "chip_idle sel busy w"
    and "lf_erase (watchdog_feed S) (w25qxx_flash S B) b w = (True, w1)"
    and "prog_all (port_cfg (watchdog_feed S) (w25qxx_flash S B)) b ps w1 = (True, w2)" "pieces_apart ps"
  shows "(\<forall>off bs rs w3. (off, bs) \<in> set ps \<and> lf_read (w25qxx_flash S B) b off (length bs) w2 = (Some rs, w3) \<longrightarrow> rs = bs \<and> mem w3 = mem w2)
    \<and> (\<forall>i<4096. (\<forall>p\<in>set ps. outside i p) \<longrightarrow> mem w2 (unat LFS_OFFSET + unat b * 4096 + i) = 0xFF)
    \<and> (\<forall>i. i < unat LFS_OFFSET + unat b * 4096 \<or> unat LFS_OFFSET + unat b * 4096 + 4096 \<le> i \<longrightarrow> mem w2 i = mem w i)"
proof -
  have o: "unat LFS_OFFSET = 0xF0000" by (simp add: hub_defs)
  note k = w25_chip.block_written [OF assms]
  have "rs = bs \<and> mem w3 = mem w2" if "(off, bs) \<in> set ps" "lf_read (w25qxx_flash S B) b off (length bs) w2 = (Some rs, w3)" for off bs rs w3
    using w25_chip.read_when [OF assms(1) that(2)] k that(1) by auto
  then show ?thesis using k unfolding o by blast
qed

interpretation fake_lfs: block_device "port_cfg (\<lambda>m. m) fake_flash" "lfs_cell (\<lambda>m. m)"
  by (rule fake.port_block_device) simp

theorem lfs_block_written_witness:
  "\<exists>w1 w2 w3 w4. lf_erase (watchdog_feed sim_spi) (w25qxx_flash sim_spi no_bus) 0 blank_chip = (True, w1)
    \<and> prog_all (port_cfg (watchdog_feed sim_spi) (w25qxx_flash sim_spi no_bus)) 0 [(16, [1, 2, 3]), (8, [4])] w1 = (True, w3)
    \<and> lf_read (w25qxx_flash sim_spi no_bus) 0 16 3 w3 = (Some [1, 2, 3], w4) \<and> sc_mem w3 0xE0000 = sc_mem blank_chip 0xE0000"
proof -
  let ?idle = "chip_idle sc_sel (\<lambda>c. 0 < sc_due c)" and ?F = "w25qxx_flash sim_spi no_bus"
  let ?ps = "[(16 :: u32, [1, 2, 3 :: u8]), (8, [4])]"
  have i0: "?idle blank_chip" by (simp add: chip_idle_def blank_chip_def)
  have a: "block_addr 0 0 = 0xF0000" "block_addr 0 16 = 0xF0010" "block_addr 0 8 = 0xF0008" "\<not> out_of_block 0 16 3" "\<not> out_of_block 0 16 (Suc (Suc (Suc 0)))"
    "\<not> out_of_block 0 8 (Suc 0)" "\<not> PORT_BLOCKS \<le> 0" "unat PORT_BLOCK_SIZE = 4096"
    by (simp_all add: block_addr_def out_of_block_def hub_defs)
  obtain w1 where w1: "w25_erase sim_spi no_bus 0xF0000 4096 blank_chip = (True, w1)"
    using chip.calls_ok(2) [OF i0, of 4096 "0xF0000"] by (cases "w25_erase sim_spi no_bus 0xF0000 4096 blank_chip") (auto simp: CHIP_SIZE_def)
  have i1: "?idle w1" using chip.erase_spec [OF i0 w1] by blast
  obtain w2 where w2: "w25_write sim_spi no_bus 0xF0010 [1, 2, 3] w1 = (True, w2)"
    using chip.calls_ok(3) [OF i1, of "0xF0010" "[1, 2, 3]"] by (cases "w25_write sim_spi no_bus 0xF0010 [1, 2, 3] w1") (auto simp: CHIP_SIZE_def)
  have i2: "?idle w2" using chip.write_spec [OF i1 w2] by blast
  obtain w3 where w3: "w25_write sim_spi no_bus 0xF0008 [4] w2 = (True, w3)"
    using chip.calls_ok(3) [OF i2, of "0xF0008" "[4]"] by (cases "w25_write sim_spi no_bus 0xF0008 [4] w2") (auto simp: CHIP_SIZE_def)
  have i3: "?idle w3" using chip.write_spec [OF i2 w3] by blast
  obtain rs w4 where w4: "w25_read sim_spi no_bus 0xF0010 3 w3 = (Some rs, w4)"
    using chip.calls_ok(1) [OF i3, of "0xF0010" 3] by (cases "w25_read sim_spi no_bus 0xF0010 3 w3") (auto simp: CHIP_SIZE_def)
  have e: "lf_erase (watchdog_feed sim_spi) ?F 0 blank_chip = (True, w1)" using w1 a by (simp add: lf_erase_def w25qxx_flash_def)
  have p: "lf_prog ?F 0 16 [1, 2, 3] w1 = (True, w2)" "lf_prog ?F 0 8 [4] w2 = (True, w3)"
    using w2 w3 a by (simp_all add: lf_prog_def w25qxx_flash_def area_pages.simps [of _ "0xF0010"] area_pages.simps [of _ "0xF0008"] area_pages.simps [of _ _ "[]"])
  then have ps: "prog_all (port_cfg (watchdog_feed sim_spi) ?F) 0 ?ps w1 = (True, w3)" by (simp add: port_cfg_def)
  have r: "lf_read ?F 0 16 (length [1, 2, 3 :: u8]) w3 = (Some rs, w4)" using w4 a by (simp add: lf_read_def w25qxx_flash_def numeral_3_eq_3)
  note k = lfs_block_written [OF w25_prompt.axioms(1) [OF sim_chip_ok] i0 e ps]
  have "rs = [1, 2, 3] \<and> sc_mem w3 0xE0000 = sc_mem blank_chip 0xE0000" using k r by (auto simp: hub_defs)
  then show ?thesis using e ps r by (auto simp: numeral_3_eq_3)
qed

end
