(* ===== verification/Hub_Start.thy ===== *)
theory Hub_Start
  imports Can_Drv Net_Link Macraw Lfs_Port W25q
begin

unbundle bit_operations_syntax

text \<open>
  The start of the application and its heartbeat, \<open>src/main.c\<close>: how the components are put together. The devices and the services are a parameter (record
  \<open>hub_hw\<close>): the interfaces of the components, the mount and format functions of littlefs, the unique number of the processor and the start of each task.
\<close>

section \<open>The parts\<close>

record 'w hub_hw =
  hb_board :: "'w board"
  hb_spi :: "'w spi_hw"
  hb_mount :: "'w lfs_config \<Rightarrow> 'w \<Rightarrow> int \<times> 'w"
  hb_format :: "'w lfs_config \<Rightarrow> 'w \<Rightarrow> int \<times> 'w"
  hb_can :: "'w can_hal"
  hb_can_hook :: "u32 \<Rightarrow> u8 list \<Rightarrow> u8 \<Rightarrow> 'w \<Rightarrow> 'w"
  hb_wiz :: "'w wiz_hw"
  hb_nic :: "'w macraw_hw"
  hb_uid :: "u8 list"
  hb_adc_start :: "'w \<Rightarrow> 'w"
  hb_fw_can_start :: "'w \<Rightarrow> 'w"
  hb_tcpip_init :: "'w \<Rightarrow> 'w"
  hb_services :: "'w \<Rightarrow> 'w"
  hb_watchdog_init :: "'w \<Rightarrow> 'w"
  hb_task_delay :: "nat \<Rightarrow> 'w \<Rightarrow> 'w"

record 'w hub_st =
  hs_dev :: "'w dev"
  hs_can :: "'w can_drv"
  hs_net :: net_st
  hs_mac :: macraw_st

section \<open>Addresses\<close>

definition derive_mac_from_uid :: "u8 list \<Rightarrow> u8 list" where
  "derive_mac_from_uid uid =
     [0x00, 0x08, 0xDC, uid ! 0 XOR uid ! 3 XOR uid ! 6 XOR uid ! 9, uid ! 1 XOR uid ! 4 XOR uid ! 7 XOR uid ! 10,
      uid ! 2 XOR uid ! 5 XOR uid ! 8 XOR uid ! 11]"

definition def_ip :: "u8 list" where
  "def_ip = [192, 168, 12, 101]"

definition setup_ip :: "'w dev \<Rightarrow> u8 list" where
  "setup_ip s =
     (let addr = map (\<lambda>i. ucast (get_holding_reg (of_nat (HOLDING_IP_OCTET1_IDX + i)) s)) [0..<4]
      in if \<not> ip_addr_valid (addr ! 0) (addr ! 1) (addr ! 2) (addr ! 3) then def_ip else addr)"

text \<open>The wait for the link: at most fifty times 100 ms.\<close>

fun link_wait :: "'w wiz_hw \<Rightarrow> nat \<Rightarrow> 'w \<Rightarrow> 'w" where
  "link_wait H 0 w = w"
| "link_wait H (Suc i) w = (case wz_phycfgr H w of (r, w) \<Rightarrow> if r AND 0x01 = 0 then link_wait H i (wz_delay H 100 w) else w)"

definition net_setup :: "'w wiz_hw \<Rightarrow> u8 list \<Rightarrow> net_st \<Rightarrow> 'w dev \<Rightarrow> net_st \<times> 'w dev" where
  "net_setup H uid n s =
     (let addr = setup_ip s;
          gw = [addr ! 0, addr ! 1, addr ! 2, 1];
          mac = derive_mac_from_uid uid
      in case w5500_net_init H mac addr [255, 255, 255, 0] gw n (world s) of (rc, n, w) \<Rightarrow>
         if rc \<noteq> 0 then (n, s\<lparr>world := w\<rparr>)
         else (n, s\<lparr>world := snd (wz_phycfgr H (link_wait H 50 w))\<rparr>))"

section \<open>The start task\<close>

text \<open>Clock, flash, configuration, registers, file system and history.\<close>

definition boot_storage :: "'w hub_hw \<Rightarrow> 'w dev \<Rightarrow> 'w dev" where
  "boot_storage P s =
     (let B = hb_board P;
          (c, w) = io_time_init (rtc B) (world s);
          (_, w) = w25qxx_init (hb_spi P) w;
          (_, st, w) = config_store_init (nor B) w;
          s = holding_reg_load (s\<lparr>clock := c, store := st, world := w\<rparr>);
          now = io_now_epoch (clock s);
          (_, s) = update_holding_reg (of_nat HOLDING_TIMESTAMP_HI_IDX) (ucast (drop_bit 16 now)) s;
          (_, s) = update_holding_reg (of_nat HOLDING_TIMESTAMP_LO_IDX) (ucast now) s;
          (ok, w) = lfs_port_mount (hb_mount P) (hb_format P) (watchdog_feed (hb_spi P)) (Some (nor B)) (world s);
          h = history_init ok (hist s)
      in s\<lparr>world := w, hist := history_enable_write (get_holding_reg (of_nat HOLDING_HISTORY_ENABLE_IDX) s \<noteq> 0) h\<rparr>)"

text \<open>Inputs, outputs and CAN, then the network and the services; the watchdog is started last.\<close>

definition boot_io :: "'w hub_hw \<Rightarrow> 'w hub_st \<Rightarrow> 'w hub_st" where
  "boot_io P h =
     (let s = hs_dev h;
          w = hb_fw_can_start P (hb_adc_start P (dio_start (gpio (hb_board P)) (world s)));
          (c, w) = Can_Drv.can_start (hb_can P) (get_holding_reg (of_nat HOLDING_CAN_BAUDRATE_IDX) s) (get_holding_reg (of_nat HOLDING_CAN_ID_IDX) s)
             (can_set_rx_hook (Some (hb_can_hook P)) (hs_can h)) w
      in h\<lparr>hs_dev := s\<lparr>world := w\<rparr>, hs_can := c\<rparr>)"

definition boot_net :: "'w hub_hw \<Rightarrow> 'w hub_st \<Rightarrow> 'w hub_st" where
  "boot_net P h =
     (let (n, s) = net_setup (hb_wiz P) (hb_uid P) (hs_net h) (hs_dev h);
          (_, m, w) = w5500_macraw_init (hb_nic P) (derive_mac_from_uid (hb_uid P)) s (hs_mac h) (hb_tcpip_init P (world s))
      in h\<lparr>hs_dev := s\<lparr>world := hb_watchdog_init P (hb_services P w)\<rparr>, hs_net := n, hs_mac := m\<rparr>)"

definition boot_task :: "'w hub_hw \<Rightarrow> 'w hub_st \<Rightarrow> 'w hub_st" where
  "boot_task P h = boot_net P (boot_io P (h\<lparr>hs_dev := boot_storage P (hs_dev h)\<rparr>))"

section \<open>The heartbeat\<close>

definition STATUS_LED :: dio_pin where
  "STATUS_LED = (GPIOE, 7)"

definition heartbeat_turn :: "'w hub_hw \<Rightarrow> 'w dev \<Rightarrow> (unit, 'w dev) outcome" where
  "heartbeat_turn P s =
     (let G = gpio (hb_board P);
          w = watchdog_feed (hb_spi P) (world s);
          w = hb_task_delay P 300 (HAL_GPIO_WritePin G STATUS_LED True w);
          w = hb_task_delay P 2700 (HAL_GPIO_WritePin G STATUS_LED False w);
          s = s\<lparr>world := w\<rparr>
      in if reboot_pending s then io_reboot_cold (dev_history_sync (hb_board P) s) else Ret () s)"

section \<open>Registers after the start\<close>

lemma boot_task_regs [simp]: "holding_reg (hs_dev (boot_task P h)) = holding_reg (boot_storage P (hs_dev h))"
  by (simp add: boot_task_def boot_net_def boot_io_def net_setup_def Let_def split: prod.splits)

lemma boot_task_rest [simp]:
  "hist (hs_dev (boot_task P h)) = hist (boot_storage P (hs_dev h))" "clock (hs_dev (boot_task P h)) = clock (boot_storage P (hs_dev h))"
  by (simp_all add: boot_task_def boot_net_def boot_io_def net_setup_def Let_def split: prod.splits)

lemma boot_task_can:
  "hs_can (boot_task P h) = fst (Can_Drv.can_start (hb_can P) (get_holding_reg (of_nat HOLDING_CAN_BAUDRATE_IDX) (boot_storage P (hs_dev h)))
     (get_holding_reg (of_nat HOLDING_CAN_ID_IDX) (boot_storage P (hs_dev h))) (can_set_rx_hook (Some (hb_can_hook P)) (hs_can h))
     (hb_fw_can_start P (hb_adc_start P (dio_start (gpio (hb_board P)) (world (boot_storage P (hs_dev h)))))))"
  by (simp add: boot_task_def boot_net_def boot_io_def Let_def split: prod.splits)

definition boot_cfg :: "'w hub_hw \<Rightarrow> 'w dev \<Rightarrow> io_cfg" where
  "boot_cfg P s =
     config_store_get (fst (snd (config_store_init (nor (hb_board P)) (snd (w25qxx_init (hb_spi P) (snd (io_time_init (rtc (hb_board P)) (world s))))))))"

lemma length_import [simp]: "length (import_cfg cfg h) = length h"
  by (simp add: import_cfg_def Let_def upt_4)

lemma boot_storage_eq:
  assumes "length (holding_reg s) = MODBUS_HOLDING_REGISTER_NUMBERS"
  shows "holding_reg (boot_storage P s) = (import_cfg (boot_cfg P s) (holding_reg s))
      [HOLDING_TIMESTAMP_HI_IDX := ucast (drop_bit 16 (io_now_epoch (clock (boot_storage P s)))),
       HOLDING_TIMESTAMP_LO_IDX := ucast (io_now_epoch (clock (boot_storage P s)))]"
    and "history_enabled (hist (boot_storage P s)) \<longleftrightarrow> import_cfg (boot_cfg P s) (holding_reg s) ! HOLDING_HISTORY_ENABLE_IDX \<noteq> 0"
  using assms
  by (auto simp: boot_storage_def boot_cfg_def holding_reg_load_def update_holding_reg_def get_holding_reg_def history_enable_write_def history_init_def
      hub_defs Let_def split: prod.splits)

section \<open>The address of the hub\<close>

text \<open>
  (C10) Whatever the flash holds, the hub starts with a valid address, and the controller and the network stack get the same one: a stored address that is not valid is
  not loaded, so the default of \<open>net_setup\<close> is never needed.
\<close>

theorem hub_address_agrees:
  assumes "holding_reg (hs_dev h) = holding_reg_init"
  shows "let d = hs_dev (boot_task P h); a = setup_ip d in netif_addr d = a \<and> ip_addr_valid (a ! 0) (a ! 1) (a ! 2) (a ! 3)"
proof -
  let ?d = "hs_dev (boot_task P h)"
  have l: "length (holding_reg (hs_dev h)) = MODBUS_HOLDING_REGISTER_NUMBERS" by (simp add: assms holding_reg_init_def hub_defs)
  have "ip_addr_valid (netif_addr ?d ! 0) (netif_addr ?d ! 1) (netif_addr ?d ! 2) (netif_addr ?d ! 3)"
    using boot_storage_eq(1) [OF l, of P] assms
    by (auto simp: netif_addr_def get_holding_reg_def import_cfg_def Let_def upt_4 hub_defs holding_reg_init_def ip_addr_valid_def)
  then show ?thesis by (simp add: setup_ip_def netif_addr_def Let_def)
qed

section \<open>A restart with saved settings\<close>

text \<open>Bringing up the clock and identifying the flash chip do not change what the chip holds.\<close>

definition boot_quiet :: "'w hub_hw \<Rightarrow> ('w \<Rightarrow> fake_mem) \<Rightarrow> bool" where
  "boot_quiet P mem \<longleftrightarrow> (\<forall>w. mem (snd (io_time_init (rtc (hb_board P)) w)) = mem w \<and> mem (snd (w25qxx_init (hb_spi P) w)) = mem w)"

lemma boot_cfg_restored:
  assumes "reliable_nor_flash (nor (hb_board P)) mem" "boot_quiet P mem" "cfg_inv st (mem (world s))"
  shows "boot_cfg P s = config_store_get st"
proof -
  define w where "w = snd (w25qxx_init (hb_spi P) (snd (io_time_init (rtc (hb_board P)) (world s))))"
  have "mem w = mem (world s)" using assms(2) by (simp add: w_def boot_quiet_def)
  then have inv: "cfg_inv st (mem w)" using assms(3) by simp
  obtain ok st' w' where i: "config_store_init (nor (hb_board P)) w = (ok, st', w')" by (metis prod_cases3)
  have "ok" using reliable_nor_flash.init_ok [OF assms(1), of w] i by simp
  then have "st' = st" using nor_flash.init_restores [OF reliable_nor_flash.axioms(1) [OF assms(1)] inv, of st' w'] i by simp
  then show ?thesis using i by (simp add: boot_cfg_def w_def [symmetric])
qed

lemma save_register_effect:
  assumes "reliable_nor_flash (nor B) mem" "cfg_inv (store s) (mem (world s))" "cur_gen (store s) \<noteq> 0xFFFFFFFF" "wf_dev s" "trigger_regs_clear s"
    "reg \<noteq> 0" "io_write_holding B 0x10 reg s = Ret rc s'"
  shows "\<exists>st. cfg_inv st (mem (world s')) \<and> config_store_get st = export_cfg (holding_reg s) (config_store_get (store s))"
proof -
  have zero: "holding_reg s ! 16 = 0" using assms(5) by (simp add: trigger_regs_clear_def hub_defs)
  then have "(holding_reg s)[16 := reg, 16 := 0] = holding_reg s" by (metis list_update_overwrite list_update_id)
  then have "s' = holding_reg_save B (s\<lparr>holding_reg := holding_reg s\<rparr>)"
    using assms(4,6,7) zero by (simp add: io_write_holding_def wf_dev_def Let_def hub_defs)
  then show ?thesis using holding_reg_save_eq [OF assms(1-3)] by auto
qed

text \<open>
  (C9) Settings that were saved are the ones the hub works with after a restart: the configuration registers are back, recording is on exactly when the saved register
  says so, the CAN controller is set up with the saved rate and identifier, the outputs are off in the register, and the time registers show the clock.
\<close>

theorem restart_uses_saved_settings:
  assumes F: "reliable_nor_flash (nor (hb_board P)) mem" and quiet: "boot_quiet P mem"
    and s: "cfg_inv (store s) (mem (world s))" "cur_gen (store s) \<noteq> 0xFFFFFFFF" "wf_dev s" "trigger_regs_clear s"
    and saved: "reg \<noteq> 0" "io_write_holding (hb_board P) 0x10 reg s = Ret rc s'"
    and off: "holding_reg (hs_dev h) = holding_reg_init" "mem (world (hs_dev h)) = mem (world s')"
  shows "let d = hs_dev (boot_task P h) in
     (\<forall>i. HOLDING_DI_ENABLE_IDX \<le> i \<and> i \<le> HOLDING_SLAVE_ID_IDX \<longrightarrow> holding_reg d ! i = holding_reg s ! i)
   \<and> (ip_is_valid_for_export (holding_reg s) \<longrightarrow> (\<forall>j<4. holding_reg d ! (HOLDING_IP_OCTET1_IDX + j) = holding_reg s ! (HOLDING_IP_OCTET1_IDX + j)))
   \<and> (history_enabled (hist d) \<longleftrightarrow> holding_reg s ! HOLDING_HISTORY_ENABLE_IDX \<noteq> 0)
   \<and> (\<exists>w. hs_can (boot_task P h) = fst (Can_Drv.can_start (hb_can P) (holding_reg s ! HOLDING_CAN_BAUDRATE_IDX) (holding_reg s ! HOLDING_CAN_ID_IDX)
        (can_set_rx_hook (Some (hb_can_hook P)) (hs_can h)) w))
   \<and> holding_reg d ! HOLDING_DO_IDX = 0
   \<and> push_bit 16 (ucast (holding_reg d ! HOLDING_TIMESTAMP_HI_IDX)) OR ucast (holding_reg d ! HOLDING_TIMESTAMP_LO_IDX) = io_now_epoch (clock d)"
proof -
  let ?s = "boot_storage P (hs_dev h)"
  let ?now = "io_now_epoch (clock ?s)"
  obtain st where st: "cfg_inv st (mem (world s'))" "config_store_get st = export_cfg (holding_reg s) (config_store_get (store s))"
    using save_register_effect [OF F s saved] by blast
  have cfg: "boot_cfg P (hs_dev h) = export_cfg (holding_reg s) (config_store_get (store s))"
    using boot_cfg_restored [OF F quiet] st off(2) by simp
  have l: "length (holding_reg (hs_dev h)) = MODBUS_HOLDING_REGISTER_NUMBERS" by (simp add: off(1) holding_reg_init_def hub_defs)
  note e = boot_storage_eq [OF l, of P, unfolded cfg]
  have regs: "holding_reg ?s ! i = holding_reg s ! i" if "HOLDING_DI_ENABLE_IDX \<le> i" "i \<le> HOLDING_SLAVE_ID_IDX" for i
    using that import_export(1) [OF l that] by (simp add: e(1) hub_defs)
  have addr: "holding_reg ?s ! (HOLDING_IP_OCTET1_IDX + j) = holding_reg s ! (HOLDING_IP_OCTET1_IDX + j)" if "ip_is_valid_for_export (holding_reg s)" "j < 4" for j
    using that import_export(2) [OF l that] by (simp add: e(1) hub_defs)
  have hist: "history_enabled (hist ?s) \<longleftrightarrow> holding_reg s ! HOLDING_HISTORY_ENABLE_IDX \<noteq> 0"
    using import_export(1) [OF l, of HOLDING_HISTORY_ENABLE_IDX] by (simp add: e(2) hub_defs)
  have can: "\<exists>w. hs_can (boot_task P h) = fst (Can_Drv.can_start (hb_can P) (holding_reg ?s ! HOLDING_CAN_BAUDRATE_IDX) (holding_reg ?s ! HOLDING_CAN_ID_IDX)
        (can_set_rx_hook (Some (hb_can_hook P)) (hs_can h)) w)"
    using l by (auto simp: boot_task_can get_holding_reg_def e(1) hub_defs)
  have zero: "holding_reg ?s ! HOLDING_DO_IDX = 0"
    using off(1) by (simp add: e(1) import_cfg_def Let_def upt_4 holding_reg_init_def hub_defs)
  have hl: "holding_reg ?s ! HOLDING_TIMESTAMP_HI_IDX = ucast (drop_bit 16 ?now)" "holding_reg ?s ! HOLDING_TIMESTAMP_LO_IDX = ucast ?now"
    using l by (simp_all add: e(1) hub_defs)
  have "push_bit 16 (ucast (ucast (drop_bit 16 ?now) :: u16)) OR ucast (ucast ?now :: u16) = ?now"
    by (rule bit_word_eqI) (auto simp: bit_simps)
  with hl have time: "push_bit 16 (ucast (holding_reg ?s ! HOLDING_TIMESTAMP_HI_IDX)) OR ucast (holding_reg ?s ! HOLDING_TIMESTAMP_LO_IDX) = ?now" by simp
  show ?thesis using regs addr hist can zero time regs [of HOLDING_CAN_BAUDRATE_IDX] regs [of HOLDING_CAN_ID_IDX]
    by (simp add: Let_def hub_defs)
qed

section \<open>A hub to try it on\<close>

definition demo_spi :: "sim spi_hw" where
  "demo_spi = \<lparr>cs_pin = \<lambda>b w. w, HAL_SPI_Transmit = \<lambda>b w. (True, w), HAL_SPI_Receive = \<lambda>n w. (Some [0xEF, 0x40, 0x18], w), HAL_Delay_1 = \<lambda>w. w,
     watchdog_feed = \<lambda>w. w, spi1_init = \<lambda>w. w\<rparr>"

definition demo_can :: "sim can_hal" where
  "demo_can = \<lparr>HAL_CAN_Init = \<lambda>t w. (True, w), HAL_CAN_ConfigFilter = \<lambda>f w. (True, w), HAL_CAN_Start = \<lambda>w. (True, w),
     HAL_CAN_ActivateNotification = \<lambda>w. (True, w), HAL_CAN_GetTxMailboxesFreeLevel = \<lambda>w. (3, w), HAL_CAN_AddTxMessage = \<lambda>a b c w. (True, w),
     HAL_CAN_GetRxMessage = \<lambda>w. (None, w), hc_tick = \<lambda>w. 0\<rparr>"

definition demo_nic :: "sim macraw_hw" where
  "demo_nic = \<lparr>mr_rsr = \<lambda>w. (0, w), mr_recv = \<lambda>n w. ([], w), mr_ignore = \<lambda>n w. w, mr_send = \<lambda>b w. w, mr_set_cr = \<lambda>c w. w, mr_get_cr = \<lambda>w. (0, w),
     mr_get_sr = \<lambda>w. (SOCK_MACRAW, w), mr_get_ir = \<lambda>w. (0, w), mr_set_ir = \<lambda>c w. w, mr_set_imr = \<lambda>c w. w, mr_set_simr = \<lambda>c w. w, mr_close = \<lambda>w. w,
     mr_socket = \<lambda>w. w, mr_phycfgr = \<lambda>w. (1, w), mr_int_pin_init = \<lambda>w. w, mr_tick = \<lambda>w. 0, mr_delay = \<lambda>w. w, pb_alloc = \<lambda>n w. (None, w), pb_free = \<lambda>w. w,
     nif_input = \<lambda>p w. (True, w), nif_add = \<lambda>a b c d w. (True, w), nif_up = \<lambda>w. w, nif_link = \<lambda>w. True, nif_set_link = \<lambda>b w. w, tcpip_post = \<lambda>b w. w\<rparr>"

definition demo_hub :: "sim hub_hw" where
  "demo_hub = \<lparr>hb_board = sim_board, hb_spi = demo_spi, hb_mount = \<lambda>c w. (0, w), hb_format = \<lambda>c w. (0, w), hb_can = demo_can, hb_can_hook = \<lambda>a b c w. w,
     hb_wiz = demo_wiz True, hb_nic = demo_nic, hb_uid = replicate 12 7, hb_adc_start = \<lambda>w. w, hb_fw_can_start = \<lambda>w. w, hb_tcpip_init = \<lambda>w. w,
     hb_services = \<lambda>w. w, hb_watchdog_init = \<lambda>w. w, hb_task_delay = \<lambda>n w. w\<rparr>"

definition demo_off :: "sim \<Rightarrow> sim hub_st" where
  "demo_off w = \<lparr>hs_dev = sim_dev\<lparr>world := w\<rparr>, hs_can = \<lparr>can_started = False, can_rx_frames = 0, can_rx_hook = None,
       can_rx_last = \<lparr>rx_ide = False, rx_std = 0, rx_dlc = 0, rx_bytes = []\<rparr>\<rparr>,
     hs_net = \<lparr>net_ready = False, link_up = False, prev_up = False\<rparr>, hs_mac = macraw_st0\<rparr>"

lemma demo_quiet: "boot_quiet demo_hub sim_nor"
  by (auto simp: boot_quiet_def demo_hub_def demo_spi_def io_time_init_def rtc_bringup_def rtc_write_default_def rtc_read_epoch_def sim_hal_rtc_def
      w25qxx_init_def spi_tx_def spi_rx_def cs_low_def cs_high_def Let_def split: prod.splits option.splits)

theorem hub_address_agrees_witness: "netif_addr (hs_dev (boot_task demo_hub (demo_off sim_world))) = setup_ip (hs_dev (boot_task demo_hub (demo_off sim_world)))"
  using hub_address_agrees [of "demo_off sim_world" demo_hub] by (simp add: demo_off_def sim_dev_def Let_def)

theorem restart_uses_saved_settings_witness:
  "\<exists>rc s'. io_write_holding sim_board 0x10 1 sim_dev = Ret rc s'
    \<and> (let d = hs_dev (boot_task demo_hub (demo_off (world s'))) in holding_reg d ! HOLDING_CAN_BAUDRATE_IDX = 250 \<and> \<not> history_enabled (hist d))"
proof -
  obtain rc s' where w: "io_write_holding sim_board 0x10 1 sim_dev = Ret rc s'"
    by (auto simp: io_write_holding_def sim_dev_def holding_reg_init_def Let_def hub_defs)
  have b: "hb_board demo_hub = sim_board" by (simp add: demo_hub_def)
  have g: "cur_gen (store sim_dev) \<noteq> 0xFFFFFFFF" "trigger_regs_clear sim_dev"
    by (simp_all add: trigger_regs_clear_def sim_dev_def holding_reg_init_def hub_defs)
  have o: "holding_reg (hs_dev (demo_off (world s'))) = holding_reg_init" "sim_nor (world (hs_dev (demo_off (world s')))) = sim_nor (world s')"
    by (simp_all add: demo_off_def sim_dev_def)
  have v: "holding_reg sim_dev ! HOLDING_CAN_BAUDRATE_IDX = 250" "holding_reg sim_dev ! HOLDING_HISTORY_ENABLE_IDX = 0"
    by (simp_all add: sim_dev_def holding_reg_init_def hub_defs)
  show ?thesis
    using restart_uses_saved_settings [of demo_hub sim_nor sim_dev 1 rc s' "demo_off (world s')", unfolded b, OF sim_nor_reliable demo_quiet sim_dev_cfg g(1)
        sim_dev_wf g(2) _ w o] w v by (auto simp: Let_def hub_defs)
qed

end
