(* ===== verification/Boot_Start.thy ===== *)
theory Boot_Start
  imports Boot_Can Shell
begin

unbundle bit_operations_syntax

text \<open>
  The boot loader around the rescue upgrade: the text output of \<open>src/boot/boot_uart.c\<close> and the main program of \<open>src/boot/boot.c\<close>. MCUboot, which checks and
  swaps the images, the flash chip, the watchdog and the delay are a parameter (record \<open>boot_sys\<close>); log lines of the main program are left out.
\<close>

section \<open>Output of text\<close>

definition BOOT_LOG_LINE_MAX :: nat where [hub_defs]: "BOOT_LOG_LINE_MAX = 160"

text \<open>The argument \<open>e\<close> is the number of bytes before \<open>end\<close>, and \<open>p\<close> what is written so far.\<close>

fun put_str :: "nat \<Rightarrow> string \<Rightarrow> string \<Rightarrow> string" where
  "put_str e [] p = p"
| "put_str e (c # s) p = (if length p < e then put_str e s (p @ [c]) else p)"

fun put_pad :: "nat \<Rightarrow> char \<Rightarrow> nat \<Rightarrow> nat \<Rightarrow> string \<Rightarrow> string" where
  "put_pad e ch n 0 p = p"
| "put_pad e ch n (Suc pad) p = (if n < Suc pad \<and> length p < e then put_pad e ch n pad (p @ [ch]) else p)"

function tmp_digits :: "nat \<Rightarrow> nat \<Rightarrow> string" where
  "tmp_digits base v = hex_digit (v mod base) # (if base \<le> 1 \<or> v div base = 0 then [] else tmp_digits base (v div base))"
  by pat_completeness auto
termination
  by (relation "measure snd") (auto simp: div_greater_zero_iff intro!: div_less_dividend)

declare tmp_digits.simps [simp del]

definition put_u32 :: "nat \<Rightarrow> u32 \<Rightarrow> nat \<Rightarrow> u8 \<Rightarrow> char \<Rightarrow> string \<Rightarrow> string" where
  "put_u32 e v base pad pad_ch p =
     (let tmp = tmp_digits base (unat v) in put_str e (rev tmp) (put_pad e pad_ch (length tmp) (unat pad) p))"

datatype log_arg = Arg_s string | Arg_i u32

fun fmt_width :: "u8 \<Rightarrow> string \<Rightarrow> u8 \<times> string" where
  "fmt_width pad [] = (pad, [])"
| "fmt_width pad (c # f) =
     (if CHR ''0'' \<le> c \<and> c \<le> CHR ''9'' then fmt_width (pad * 10 + of_nat (of_char c - 48)) f else (pad, c # f))"

definition fmt_spec :: "string \<Rightarrow> char \<times> u8 \<times> string" where
  "fmt_spec f =
     (let (ch, f) = (if f \<noteq> [] \<and> hd f = CHR ''0'' then (CHR ''0'', tl f) else (CHR '' '', f));
          (pad, f) = fmt_width 0 f
      in (ch, pad, dropWhile (\<lambda>c. c = CHR ''l'' \<or> c = CHR ''z'' \<or> c = CHR ''h'') f))"

text \<open>One conversion; \<open>None\<close> when the arguments do not fit the format, where C leaves the result undefined.\<close>

definition conv :: "nat \<Rightarrow> char \<Rightarrow> u8 \<Rightarrow> char \<Rightarrow> log_arg list \<Rightarrow> string \<Rightarrow> (log_arg list \<times> string) option" where
  "conv e ch pad k as p =
     (if k = CHR ''s'' then (case as of Arg_s s # as \<Rightarrow> Some (as, put_str e s p) | _ \<Rightarrow> None)
      else if k = CHR ''c'' then (case as of Arg_i v # as \<Rightarrow> Some (as, if length p < e then p @ [char_of (unat v)] else p) | _ \<Rightarrow> None)
      else if k = CHR ''d'' then
        (case as of
           Arg_i v # as \<Rightarrow>
             let (v, p) = (if sint v < 0 \<and> length p < e then (- v, p @ ''-'') else (v, p)) in Some (as, put_u32 e v 10 pad ch p)
         | _ \<Rightarrow> None)
      else if k = CHR ''u'' then (case as of Arg_i v # as \<Rightarrow> Some (as, put_u32 e v 10 pad ch p) | _ \<Rightarrow> None)
      else if k = CHR ''x'' then (case as of Arg_i v # as \<Rightarrow> Some (as, put_u32 e v 16 pad ch p) | _ \<Rightarrow> None)
      else if k = CHR ''%'' then Some (as, if length p < e then p @ ''%'' else p)
      else Some (as, p))"

lemma fmt_width_le: "length (snd (fmt_width pad f)) \<le> length f"
  by (induction pad f rule: fmt_width.induct) auto

lemma fmt_spec_le: "(ch, pad, r) = fmt_spec f \<Longrightarrow> length r \<le> length f"
  using fmt_width_le [of 0 f] fmt_width_le [of 0 "tl f"] length_dropWhile_le
  by (auto simp: fmt_spec_def Let_def split: prod.splits if_splits intro: order_trans le_trans) (metis diff_le_self dual_order.trans length_dropWhile_le)+

text \<open>The loop over the format. A format that ends after the percent sign is read past its end.\<close>

function (sequential) boot_fmt :: "nat \<Rightarrow> string \<Rightarrow> log_arg list \<Rightarrow> string \<Rightarrow> string option" where
  "boot_fmt e [] as p = Some p"
| "boot_fmt e (c # f) as p =
     (if length p \<ge> e then Some p
      else if c \<noteq> CHR ''%'' then boot_fmt e f as (p @ [c])
      else case fmt_spec f of
        (ch, pad, []) \<Rightarrow> None
      | (ch, pad, k # f') \<Rightarrow> (case conv e ch pad k as p of None \<Rightarrow> None | Some (as, p) \<Rightarrow> boot_fmt e f' as p))"
  by pat_completeness auto
termination
  by (relation "measure (\<lambda>(e, f, as, p). length f)") (auto dest!: fmt_spec_le)

definition boot_log :: "string \<Rightarrow> log_arg list \<Rightarrow> string option" where
  "boot_log f as = map_option (\<lambda>p. p @ [CHR 0x0D, CHR 0x0A]) (boot_fmt (BOOT_LOG_LINE_MAX - 3) f as [])"

section \<open>The main program\<close>

record 'w boot_sys =
  bs_feed :: "'w \<Rightarrow> 'w"
  bs_nor_init :: "'w \<Rightarrow> bool \<times> 'w"
  bs_go :: "'w \<Rightarrow> (u32 \<times> u16) option \<times> 'w"
  bs_word :: "u32 \<Rightarrow> 'w \<Rightarrow> u32"
  bs_delay :: "nat \<Rightarrow> 'w \<Rightarrow> 'w"
  bs_stack :: "'w \<Rightarrow> rx_buf"

datatype 'w boot_end = Jump u32 u32 u32 'w | Restart 'w

definition boot_jump_vec :: "'w boot_sys \<Rightarrow> u32 \<Rightarrow> 'w \<Rightarrow> 'w boot_end" where
  "boot_jump_vec S vec w = Jump vec (bs_word S vec w) (bs_word S (vec + 4) w) w"

partial_function (option) rescue_forever ::
    "'w boot_sys \<Rightarrow> 'w hal_flash \<Rightarrow> 'w can_hw \<Rightarrow> u8 list \<Rightarrow> fw_ver \<Rightarrow> 'w \<Rightarrow> 'w boot_end option" where
  "rescue_forever S H C K V w =
     (case boot_can_wait H C K V True (bs_stack S (bs_feed S w)) (bs_feed S w) of
        None \<Rightarrow> None
      | Some (s, w) \<Rightarrow> if boot_rescue_done s then Some (Restart (bs_delay S 200 w)) else rescue_forever S H C K V w)"

definition boot_main :: "'w boot_sys \<Rightarrow> 'w hal_flash \<Rightarrow> 'w can_hw \<Rightarrow> u8 list \<Rightarrow> fw_ver \<Rightarrow> 'w \<Rightarrow> 'w boot_end option" where
  "boot_main S H C K V w =
     (let w = snd (bs_nor_init S (bs_feed S w))
      in case boot_can_wait H C K V False (bs_stack S w) w of
           None \<Rightarrow> None
         | Some (s, w) \<Rightarrow>
             (case bs_go S w of
                (Some (off, hdr), w) \<Rightarrow> Some (boot_jump_vec S (off + ucast hdr) w)
              | (None, w) \<Rightarrow> rescue_forever S H C K V w))"

section \<open>What is printed\<close>

text \<open>The text that a format and its arguments stand for, without a limit.\<close>

definition piece :: "char \<Rightarrow> u8 \<Rightarrow> char \<Rightarrow> log_arg list \<Rightarrow> (log_arg list \<times> string) option" where
  "piece ch pad k as =
     (let num = (\<lambda>s. pad_l (unat pad) ch s)
      in if k = CHR ''s'' then (case as of Arg_s s # as \<Rightarrow> Some (as, s) | _ \<Rightarrow> None)
      else if k = CHR ''c'' then (case as of Arg_i v # as \<Rightarrow> Some (as, [char_of (unat v)]) | _ \<Rightarrow> None)
      else if k = CHR ''d'' then
        (case as of Arg_i v # as \<Rightarrow> Some (as, if sint v < 0 then ''-'' @ num (dec_str (nat (- sint v))) else num (dec_str (nat (sint v)))) | _ \<Rightarrow> None)
      else if k = CHR ''u'' then (case as of Arg_i v # as \<Rightarrow> Some (as, num (dec_str (unat v))) | _ \<Rightarrow> None)
      else if k = CHR ''x'' then (case as of Arg_i v # as \<Rightarrow> Some (as, num (hex_str (unat v))) | _ \<Rightarrow> None)
      else if k = CHR ''%'' then Some (as, ''%'')
      else Some (as, []))"

function (sequential) render :: "string \<Rightarrow> log_arg list \<Rightarrow> string option" where
  "render [] as = Some []"
| "render (c # f) as =
     (if c \<noteq> CHR ''%'' then map_option ((#) c) (render f as)
      else case fmt_spec f of
        (ch, pad, []) \<Rightarrow> None
      | (ch, pad, k # f') \<Rightarrow> (case piece ch pad k as of None \<Rightarrow> None | Some (as, t) \<Rightarrow> map_option ((@) t) (render f' as)))"
  by pat_completeness auto
termination
  by (relation "measure (\<lambda>(f, as). length f)") (auto dest!: fmt_spec_le)

lemma put_str_take: "length p \<le> e \<Longrightarrow> put_str e s p = take e (p @ s)"
  by (induction e s p rule: put_str.induct) auto

lemma put_pad_take: "length p \<le> e \<Longrightarrow> put_pad e ch n pad p = take e (p @ replicate (pad - n) ch)"
proof (induction e ch n pad p rule: put_pad.induct)
  case (2 e ch n pad p)
  then show ?case
    by (cases "n < Suc pad"; cases "length p < e") (simp_all add: Suc_diff_le replicate_append_same flip: replicate_Suc)
qed simp

lemma hex_digit_dec: "n < 10 \<Longrightarrow> hex_digit n = char_of (48 + n)"
  by (simp add: hex_digit_def)

lemma rev_digits_dec: "rev (tmp_digits 10 v) = dec_str v"
proof (induction v rule: dec_str.induct)
  case (1 v)
  then show ?case by (subst tmp_digits.simps, subst dec_str.simps) (auto simp: hex_digit_dec)
qed

lemma rev_digits_hex: "rev (tmp_digits 16 v) = hex_str v"
proof (induction v rule: hex_str.induct)
  case (1 v)
  then show ?case by (subst tmp_digits.simps, subst hex_str.simps) auto
qed

lemma take_again: "take e (take e xs @ ys) = take e (xs @ ys)"
  by (cases "length xs \<le> e") simp_all

lemma put_u32_take:
  assumes "length p \<le> e"
  shows "put_u32 e v 10 pad ch p = take e (p @ pad_l (unat pad) ch (dec_str (unat v)))"
    "put_u32 e v 16 pad ch p = take e (p @ pad_l (unat pad) ch (hex_str (unat v)))"
proof -
  have "put_u32 e v b pad ch p = take e (p @ pad_l (unat pad) ch (rev (tmp_digits b (unat v))))" for b
    using assms put_str_take [of "take e (p @ replicate (unat pad - length (tmp_digits b (unat v))) ch)" e]
    by (simp add: put_u32_def Let_def put_pad_take pad_l_def take_again del: take_append)
  then show "put_u32 e v 10 pad ch p = take e (p @ pad_l (unat pad) ch (dec_str (unat v)))"
    "put_u32 e v 16 pad ch p = take e (p @ pad_l (unat pad) ch (hex_str (unat v)))"
    by (simp_all add: rev_digits_dec rev_digits_hex)
qed

lemma sint_magnitude:
  fixes v :: u32
  shows "sint v < 0 \<Longrightarrow> unat (- v) = nat (- sint v)" and "\<not> sint v < 0 \<Longrightarrow> unat v = nat (sint v)"
proof -
  have b: "- 2147483648 \<le> sint v" "sint v < 2147483648" using sint_ge [of v] sint_lt [of v] by simp_all
  have u: "uint (of_int i :: u32) = i" if "0 \<le> i" "i < 4294967296" for i using that by (simp add: uint_word_of_int take_bit_eq_mod)
  show "unat (- v) = nat (- sint v)" if "sint v < 0"
    using u [of "- sint v"] that b by (simp add: unat_eq_nat_uint)
  show "unat v = nat (sint v)" if "\<not> sint v < 0"
    using u [of "sint v"] that b by (simp add: unat_eq_nat_uint)
qed

lemma conv_piece:
  assumes "piece ch pad k as = Some (as', t)" "length p < e"
  shows "conv e ch pad k as p = Some (as', take e (p @ t))"
  using assms
  by (auto simp: piece_def conv_def Let_def put_str_take put_u32_take sint_magnitude split: if_splits list.splits log_arg.splits)

lemma boot_fmt_render:
  assumes "render f as = Some t" "length p \<le> e"
  shows "boot_fmt e f as p = Some (take e (p @ t))"
  using assms
proof (induction e f as p arbitrary: t rule: boot_fmt.induct)
  case (2 e c f as p)
  show ?case
  proof (cases "length p < e")
    case False
    then show ?thesis using "2.prems"(2) by simp
  next
    case room: True
    show ?thesis
    proof (cases "c = CHR ''%''")
      case False
      then obtain u where "render f as = Some u" "t = c # u" using "2.prems"(1) by auto
      then show ?thesis using "2.IH"(1) [of u] room False by simp
    next
      case True
      then obtain ch pad k f' as' u r where s: "fmt_spec f = (ch, pad, k # f')" and pc: "piece ch pad k as = Some (as', u)"
          and r: "render f' as' = Some r" "t = u @ r"
        using "2.prems"(1) by (auto split: prod.splits list.splits option.splits)
      have cv: "conv e ch pad k as p = Some (as', take e (p @ u))" by (rule conv_piece [OF pc room])
      have "boot_fmt e f' as' (take e (p @ u)) = Some (take e (take e (p @ u) @ r))"
        using "2.IH"(2) [of ch _ pad "k # f'" k f' "(as', take e (p @ u))" as' "take e (p @ u)" r] room True s cv r(1) by simp
      then show ?thesis using room True s cv r(2) by (simp add: take_again del: take_append)
    qed
  qed
qed simp

text \<open>
  The line that is sent is the text the format stands for, cut after 157 characters, with the line end: the line never leaves its buffer of 160 bytes, numbers
  come out in full and in order, and the only thing that a long text loses is its tail.
\<close>

theorem boot_log_prints:
  assumes "render f as = Some t"
  shows "boot_log f as = Some (take 157 t @ [CHR 0x0D, CHR 0x0A]) \<and> length (take 157 t @ [CHR 0x0D, CHR 0x0A]) < BOOT_LOG_LINE_MAX"
  using boot_fmt_render [OF assms, of "[]" 157] by (simp add: boot_log_def hub_defs)

theorem boot_log_prints_witness: "boot_log ''img@%08x v%d'' [Arg_i 0x8010200, Arg_i 3] = Some (''img@08010200 v3'' @ [CHR 0x0D, CHR 0x0A])"
proof -
  have r: "render ''img@%08x v%d'' [Arg_i 0x8010200, Arg_i 3] = Some ''img@08010200 v3''"
    by (simp add: fmt_spec_def piece_def Let_def pad_l_def hex_str.simps dec_str.simps hex_digit_def) code_simp
  from boot_log_prints [OF r] show ?thesis by simp
qed

section \<open>The whole start\<close>

definition accepted :: "'w boot_sys \<Rightarrow> u32 \<Rightarrow> u32 \<Rightarrow> u32 \<Rightarrow> 'w \<Rightarrow> bool" where
  "accepted S vec sp pc w' \<longleftrightarrow>
     (\<exists>v off hdr. bs_go S v = (Some (off, hdr), w') \<and> vec = off + ucast hdr \<and> sp = bs_word S vec w' \<and> pc = bs_word S (vec + 4) w')"

definition rescued :: "'w boot_sys \<Rightarrow> 'w hal_flash \<Rightarrow> 'w can_hw \<Rightarrow> u8 list \<Rightarrow> fw_ver \<Rightarrow> 'w \<Rightarrow> bool" where
  "rescued S H C K V w' \<longleftrightarrow>
     (\<exists>v s w1. boot_can_wait H C K V True (bs_stack S v) v = Some (s, w1) \<and> boot_rescue_done s \<and> w' = bs_delay S 200 w1)"

text \<open>
  What the main program relies on: feeding, waiting, finding the flash chip and running MCUboot change nothing in the internal flash outside slot 0, where MCUboot
  swaps images. The eight bytes of the receive buffer are whatever the stack holds.
\<close>

locale boot_world = boot_hw H mem C for H :: "'w hal_flash" and mem :: "'w \<Rightarrow> nat \<Rightarrow> u8" and C :: "'w can_hw" +
  fixes S :: "'w boot_sys"
  assumes feed_mem [simp]: "mem (bs_feed S w) = mem w"
    and nor_mem [simp]: "mem (snd (bs_nor_init S w)) = mem w"
    and delay_mem [simp]: "mem (bs_delay S n w) = mem w"
    and go_slot0: "slot0_only (mem w) (mem (snd (bs_go S w)))"
    and stack_size [simp]: "length (snd (bs_stack S w)) = 8"
begin

lemma rescue_forever_safe:
  assumes "rescue_forever S H C K V w = Some r"
  shows "\<exists>w'. r = Restart w' \<and> slot0_only (mem w) (mem w') \<and> rescued S H C K V w'"
proof -
  let ?P = "\<lambda>S' G D K V v r. S' = S \<and> G = H \<and> D = C \<longrightarrow> (\<exists>w'. r = Restart w' \<and> slot0_only (mem v) (mem w') \<and> rescued S H C K V w')"
  have "?P S H C K V w r"
    using assms
  proof (rule rescue_forever.raw_induct [where P = ?P, rotated])
    fix f :: "'w boot_sys \<Rightarrow> 'w hal_flash \<Rightarrow> 'w can_hw \<Rightarrow> u8 list \<Rightarrow> fw_ver \<Rightarrow> 'w \<Rightarrow> 'w boot_end option" and S' G D K V v r
    assume IH: "\<And>S' G D K V v r. f S' G D K V v = Some r \<Longrightarrow> ?P S' G D K V v r"
      and step: "(case boot_can_wait G D K V True (bs_stack S' (bs_feed S' v)) (bs_feed S' v) of
          None \<Rightarrow> None
        | Some (s, w) \<Rightarrow> if boot_rescue_done s then Some (Restart (bs_delay S' 200 w)) else f S' G D K V w) = Some r"
    show "?P S' G D K V v r"
    proof (intro impI)
      assume "S' = S \<and> G = H \<and> D = C"
      then have e: "S' = S" "G = H" "D = C" by simp_all
      obtain s w1 where b: "boot_can_wait H C K V True (bs_stack S (bs_feed S v)) (bs_feed S v) = Some (s, w1)"
        using step by (auto simp: e split: option.splits)
      have m: "slot0_only (mem v) (mem w1)" using boot_can_wait_slot0 [OF b] by simp
      show "\<exists>w'. r = Restart w' \<and> slot0_only (mem v) (mem w') \<and> rescued S H C K V w'"
      proof (cases "boot_rescue_done s")
        case True
        then have "r = Restart (bs_delay S 200 w1)" using step by (simp add: e b)
        then show ?thesis using m b True by (auto simp: rescued_def)
      next
        case False
        then show ?thesis using step IH [of S H C K V w1 r] m slot0_only_trans by (auto simp: e b)
      qed
    qed
  qed
  then show ?thesis by simp
qed

lemma boot_main_safe:
  assumes "boot_main S H C K V w = Some r"
  shows "case r of
      Jump vec sp pc w' \<Rightarrow> slot0_only (mem w) (mem w') \<and> accepted S vec sp pc w'
    | Restart w' \<Rightarrow> slot0_only (mem w) (mem w') \<and> rescued S H C K V w'"
proof -
  define w0 where "w0 = snd (bs_nor_init S (bs_feed S w))"
  obtain s w1 where b: "boot_can_wait H C K V False (bs_stack S w0) w0 = Some (s, w1)"
    using assms by (auto simp: boot_main_def w0_def [symmetric] Let_def split: option.splits)
  have "slot0_only (mem w0) (mem w1)" using boot_can_wait_slot0 [OF b] by simp
  then have m1: "slot0_only (mem w) (mem w1)" by (simp add: w0_def)
  obtain g w2 where g: "bs_go S w1 = (g, w2)" by (cases "bs_go S w1")
  have m2: "slot0_only (mem w) (mem w2)" using slot0_only_trans [OF m1] go_slot0 [of w1] g by simp
  show ?thesis
  proof (cases g)
    case None
    then have "rescue_forever S H C K V w2 = Some r" using assms b g by (simp add: boot_main_def w0_def [symmetric])
    from rescue_forever_safe [OF this] show ?thesis using m2 slot0_only_trans by auto
  next
    case (Some x)
    obtain off hdr where x: "x = (off, hdr)" by (cases x)
    then have r: "r = boot_jump_vec S (off + ucast hdr) w2" using assms b g Some by (simp add: boot_main_def w0_def [symmetric])
    have "bs_go S w1 = (Some (off, hdr), w2)" using g Some x by simp
    then show ?thesis using r m2 by (auto simp: boot_jump_vec_def accepted_def)
  qed
qed

end

text \<open>
  (C37) The boot loader survives its own work and only starts what MCUboot accepted. Whatever happens on the bus and whether or not the flash works, when the main
  program ends, the internal flash outside slot 0 is unchanged; control goes to an application only at the vector table behind the header of an image that the
  last run of MCUboot accepted, with its two first words as stack and entry; and without such an image the processor restarts only after a rescue session that
  wrote an image of a permitted size to its last byte.
\<close>

theorem boot_start_safe:
  assumes "boot_world H mem C S" "boot_main S H C K V w = Some r"
  shows "case r of
      Jump vec sp pc w' \<Rightarrow> slot0_only (mem w) (mem w')
        \<and> (\<exists>v off hdr. bs_go S v = (Some (off, hdr), w') \<and> vec = off + ucast hdr \<and> sp = bs_word S vec w' \<and> pc = bs_word S (vec + 4) w')
    | Restart w' \<Rightarrow> slot0_only (mem w) (mem w')
        \<and> (\<exists>v s w1. boot_can_wait H C K V True (bs_stack S v) v = Some (s, w1) \<and> boot_rescue_done s \<and> w' = bs_delay S 200 w1
             \<and> 64 \<le> total_len s \<and> total_len s \<le> SLOT0_SIZE \<and> written s = total_len s)"
proof (cases r)
  case (Jump vec sp pc w')
  then show ?thesis using boot_world.boot_main_safe [OF assms] by (simp add: accepted_def)
next
  case (Restart w')
  then have m: "slot0_only (mem w) (mem w')" and "rescued S H C K V w'" using boot_world.boot_main_safe [OF assms] by simp_all
  then obtain v s w1 where b: "boot_can_wait H C K V True (bs_stack S v) v = Some (s, w1)" "boot_rescue_done s" "w' = bs_delay S 200 w1"
    by (auto simp: rescued_def)
  have "session_fits s"
    using boot_hw.boot_can_wait_slot0 [OF boot_world.axioms(1) [OF assms(1)] b(1)] boot_world.stack_size [OF assms(1)] by simp
  then have "64 \<le> total_len s \<and> total_len s \<le> SLOT0_SIZE \<and> written s = total_len s" using b(2) by (auto simp: session_fits_def boot_rescue_done_def)
  then show ?thesis using Restart m b by auto
qed

section \<open>A board that starts its application\<close>

definition demo_sys :: "sim_board boot_sys" where
  "demo_sys = \<lparr>bs_feed = \<lambda>w. w, bs_nor_init = \<lambda>w. (True, w), bs_go = \<lambda>w. (Some (0x08010000, 0x200), w), bs_word = \<lambda>a w. a, bs_delay = \<lambda>n w. w,
     bs_stack = \<lambda>w. (0, replicate 8 0)\<rparr>"

interpretation board_start: boot_world board_hal sb_cells board_can demo_sys
  by unfold_locales (simp_all add: demo_sys_def)

theorem boot_start_safe_witness:
  "\<exists>w'. boot_main demo_sys board_hal board_can demo_key demo_version demo_board = Some (Jump 0x08010200 0x08010200 0x08010204 w')
    \<and> slot0_only (sb_cells demo_board) (sb_cells w')"
proof -
  obtain w1 where b: "boot_can_wait board_hal board_can demo_key demo_version False (0, replicate 8 0) demo_board = Some (boot_s_zero, w1)"
    using board_time.boot_goes_on [OF silent_board] by blast
  have r: "boot_main demo_sys board_hal board_can demo_key demo_version demo_board = Some (Jump 0x08010200 0x08010200 0x08010204 w1)"
    using b by (simp add: boot_main_def demo_sys_def boot_jump_vec_def)
  from boot_start_safe [OF board_start.boot_world_axioms r] r show ?thesis by simp
qed

end
