(* ===== verification/Spec2Isabelle.thy ===== *)
theory Spec2Isabelle
  imports Mb_Tcp Rtu_Bus Udp_Cfg Flash_Map Http_Service Log_Ring Ftp_Service Shell_Line Sampling Hub_Start Boot_Start
begin

text \<open>
  \<^bold>\<open>Verification of the io-edge-hub firmware.\<close>

  The firmware runs on an STM32F407 under FreeRTOS. It reads digital and analog inputs, drives eight digital outputs, and makes them available over Modbus TCP and
  RTU, a web interface (HTTP and WebSocket), a UDP service, FTP, CAN and a shell. Everything meets in the register map: a service reads and writes registers, and
  writing some of them switches outputs, sets the clock, saves the configuration or restarts the device. The configuration and the recorded history are on an external
  NOR flash, as is the slot a new firmware is written to; a boot loader around MCUboot starts the application and can be rescued over CAN.

  \<^bold>\<open>Method.\<close> The C functions are translated into HOL functions that keep their names. The static variables of a file are a record that is passed and returned, machine
  integers are words of their width, and a function that can fail returns an option, a sum or the code the source returns. Code outside the repository (the HAL and the
  registers of the chips, FreeRTOS, lwIP, littlefs, MCUboot, ioLibrary) acts on a world of type \<open>'w\<close> and is a record of functions that the definitions take as an
  argument; what is relied on is stated as a hypothesis or as the assumptions of a locale, and each locale is interpreted, so that the hypotheses are known to be
  satisfiable. A call that does not come back because the device restarts is the constructor \<open>Reset\<close> of \<open>outcome\<close>. Text for the log is left out, except in the log
  and the shell themselves. Functions under a lock are steps; where code runs without one against an interrupt or another task (RS485, log), the model is a
  relation over interleaved steps.

  \<^bold>\<open>The theories, the files under \<open>src/src\<close> they model, and what they show.\<close>

  \<^item> \<open>Hub_Prelude\<close>: types, the collections \<open>hub_defs\<close> and \<open>hub_bytes\<close>, and lemmas on lists, words and number texts.
  \<^item> \<open>Bytes_Crc\<close> (\<open>util/io_bytes.c\<close>, \<open>util/io_crc.c\<close>): byte order and checksums. The locale \<open>byte_checksum\<close> gives both checksums the guarantee that one changed byte changes
    the result.
  \<^item> \<open>Nor_Flash\<close> (the interface of \<open>io_flash.h\<close>, and the flash of the host tests): the locales \<open>nor_flash\<close> and \<open>reliable_nor_flash\<close> are the contract all storage relies on.
    \<open>W25q\<close> (\<open>storage/w25qxx.c\<close>): over a chip that follows its data sheet the driver implements that contract, by a \<open>sublocale\<close>; \<open>Lfs_Port\<close> (\<open>storage/lfs_port.c\<close>): the block
    device of littlefs over it.
  \<^item> \<open>Config_Store\<close> (\<open>storage/config_store.c\<close>): two slots with generation and checksum. A saved configuration is found after a restart, and a save that fails at any point
    leaves the previous one.
  \<^item> \<open>Sys_Time\<close> (\<open>sys/time.c\<close>), \<open>History_File\<close> and \<open>History\<close> (\<open>history/\<close>): calendar and clock, file naming, rotation, retention and resumption, the queue and its task.
  \<^item> \<open>Dio\<close> and \<open>Sampling\<close> (\<open>io/dio.c\<close>, \<open>io/adc.c\<close>): outputs follow the value, input registers show the pins and the converted readings, and the conversion is
    accurate within its rounding.
  \<^item> \<open>Regmap\<close> (\<open>modbus/regmap.c\<close>): the record \<open>dev\<close> is the device that the services share. Outputs and LEDs mirror their register after every write.
  \<^item> \<open>Mb_Server\<close> (\<open>modbus/mb_server.c\<close>), \<open>Mbtcp_Adu\<close> and \<open>Mb_Tcp\<close> (\<open>modbus/mbtcp_adu.c\<close>, \<open>modbus/tcp.c\<close>), \<open>Rtu_Frame\<close> and \<open>Rtu_Bus\<close> (\<open>modbus/rtu_frame.c\<close>, \<open>modbus/rtu.c\<close>): the
    effect and the answer of every function code, framing that does not depend on how the stream is cut, and the line discipline of the half-duplex bus under
    every interleaving.
  \<^item> \<open>Fw_Upg\<close>, \<open>Fw_Udp\<close>, \<open>Fw_Can\<close> (\<open>fw/\<close>): an accepted image is in slot 1 byte for byte, an image goes through on a flash that works, and lost, repeated and reordered packets
    misplace nothing.
  \<^item> \<open>Web_Cmds\<close>, \<open>Ws_Codec\<close>, \<open>Ws\<close>, \<open>Httpd\<close>, \<open>Http_Service\<close> (\<open>web/\<close>): the commands, the WebSocket with its hash and frames, requests and responses. Streams are served
    independently of segmentation, the request loop ends, responses go out in order, and a request that is not a POST changes nothing.
  \<^item> \<open>Udp_Cfg\<close> (\<open>net/udp_cfg.c\<close>, \<open>net/udp_task.c\<close>), \<open>Ftpd\<close> and \<open>Ftp_Service\<close> (\<open>net/ftpd.c\<close>): a foreign host is harmless; a session that may only read changes no file, and downloads are
    complete.
  \<^item> \<open>Net_Link\<close> (\<open>net/w5500.c\<close>) and \<open>Macraw\<close> (\<open>net/w5500_macraw.c\<close>): the outputs are switched off when the link is lost; frames reach the stack whole and in order, and none
    is forgotten. \<open>Can_Drv\<close> (\<open>net/can.c\<close>): bit rates, the filter and the bounded wait when sending.
  \<^item> \<open>Log_Ring\<close> (\<open>sys/log.c\<close>): under every interleaving the ring is a bounded queue of whole lines, and it drains. \<open>Shell\<close> and \<open>Shell_Line\<close> (\<open>sys/shell.c\<close>): the line that is
    executed is the one an ideal editor holds, the history is the last eight lines, and without the tabulator no key leaves the line buffer.
  \<^item> \<open>Intflash\<close>, \<open>Flash_Map\<close>, \<open>Boot_Can\<close>, \<open>Boot_Start\<close> (\<open>storage/intflash.c\<close>, \<open>boot/\<close>): the boot loader changes nothing outside slot 0, starts only what MCUboot accepted, and
    a confirmed rescue has stored what was sent.
  \<^item> \<open>Hub_Start\<close> (\<open>main.c\<close>): the start task puts the parts together. Saved settings are in use after a restart, and controller and network stack have the same
    valid address whatever the flash holds.

  \<^bold>\<open>Interfaces.\<close> A locale states what a client needs: \<open>nor_flash\<close> for the configuration store, the upgrade and the file system port; \<open>block_device\<close> for littlefs;
  \<open>table\<close> and \<open>pdu_server\<close> between the register map, the PDU server and the two transports; \<open>int_flash\<close> and \<open>app_slot\<close> below the boot loader; \<open>two_flashes\<close> for the flash map;
  \<open>boot_hw\<close> and \<open>boot_world\<close> for the rescue and the start; \<open>w25_chip\<close>, \<open>macraw_chip\<close>, \<open>can_ticks\<close> for the chips; \<open>ftp_transfer\<close> and \<open>ftp_view\<close> for sockets and file system. Those
  between parts of the program are interpreted on the model's definitions; those of hardware and libraries on a simulated device.

  \<^bold>\<open>Loops.\<close> A loop with a bound in the source is a recursive function with that bound, such as the fifty turns of \<open>link_wait\<close> or the burst of 32 frames. A loop that may
  not end is a \<open>partial_function\<close>, and \<open>None\<close> means that it does not return; the theorems on sending over CAN, receiving frames and transferring files show that
  the value is there when the hardware makes progress. The request loop of the HTTP server has fuel, \<open>http_fuel\<close>, twice the number of bytes received plus three, and
  \<open>http_requests_end\<close> shows that this is always enough. The logger empties the ring within 24600 of its steps, six for each of the 4096 bytes with some to
  spare.

  \<^bold>\<open>Faults.\<close> Some theorems state what the code does where this is surely not intended: an anonymous FTP session that gets write permission
  (\<open>ftp_anonymous_becomes_admin\<close>), an upload refused because of an earlier one (\<open>ws_upload_accepted_iff\<close>), a tabulator that writes behind the line buffer
  (\<open>shell_tab_overruns\<close>), a rate of 800 kbit/s that is accepted and not used (\<open>can_accepted_rates\<close>), and others in the theories of their components.

  \<^bold>\<open>Not modelled.\<close> \<open>net/sys_arch.c\<close>, where each function is one call of FreeRTOS for lwIP; \<open>board/\<close>, the start-up files, \<open>sys/syscalls.c\<close> and the set-up of pins, clocks and
  interrupts, which are writes to hardware registers; \<open>sys/os.c\<close> and \<open>sys/watchdog.c\<close>, a lock and a timer of which the models see the effect only (functions under the lock
  are atomic); the creation of tasks; the web pages, which the build generates; and the third-party code named above.
\<close>

end
